(* ===== verification/Prelude.thy ===== *)
theory Prelude
  imports Main "HOL-Library.Word" "HOL-Library.Monad_Syntax"
begin

text \<open>
  Shared vocabulary of the development.  Machine types, the block operations of the C
  library (\<open>memcpy\<close>, \<open>memset\<close>) on arrays kept as lists, unsigned subtraction with its
  wrap-around, index arithmetic of circular buffers, output parameters that may be NULL,
  and the two theorem collections the component theories add to:
  \<open>mem_simps\<close> (block reads after block writes) and \<open>ring_simps\<close> (positions in a ring).
\<close>

named_theorems mem_simps "reads of an array after block writes"
named_theorems ring_simps "positions in a circular buffer"

type_synonym u8 = "8 word"
type_synonym u16 = "16 word"
type_synonym u32 = "32 word"

section \<open>Unsigned arithmetic on nat\<close>

text \<open>
  Counters declared \<open>unsigned\<close> are kept as \<open>nat\<close> below \<open>2 ^ 32\<close>.  Additions in the
  modelled code stay far below the bound; subtractions are written with the wrap-around.
\<close>

definition u32_sub :: "nat \<Rightarrow> nat \<Rightarrow> nat" where
  "u32_sub a b = nat ((int a - int b) mod 2 ^ 32)"

lemma u32_sub_eq [simp]:
  assumes "b \<le> a" "a < 2 ^ 32"
  shows "u32_sub a b = a - b"
proof -
  have "int a < 2 ^ 32" using assms(2) by simp
  then have "(int a - int b) mod 2 ^ 32 = int a - int b" using assms(1) by simp
  then show ?thesis unfolding u32_sub_def using assms(1) by simp
qed

lemma u32_sub_less [simp]: "u32_sub a b < 2 ^ 32"
  by (simp add: u32_sub_def nat_less_iff)

section \<open>Block operations on arrays\<close>

definition mem_read :: "'a list \<Rightarrow> nat \<Rightarrow> nat \<Rightarrow> 'a list" where
  "mem_read xs off n = take n (drop off xs)"

definition mem_write :: "'a list \<Rightarrow> nat \<Rightarrow> 'a list \<Rightarrow> 'a list" where
  "mem_write xs off ys = take off xs @ ys @ drop (off + length ys) xs"

definition mem_set :: "'a list \<Rightarrow> nat \<Rightarrow> nat \<Rightarrow> 'a \<Rightarrow> 'a list" where
  "mem_set xs off n v = mem_write xs off (replicate n v)"

lemma length_mem_read [simp]: "off + n \<le> length xs \<Longrightarrow> length (mem_read xs off n) = n"
  by (simp add: mem_read_def)

lemma length_mem_write [simp]:
  "off + length ys \<le> length xs \<Longrightarrow> length (mem_write xs off ys) = length xs"
  by (simp add: mem_write_def)

lemma length_mem_set [simp]: "off + n \<le> length xs \<Longrightarrow> length (mem_set xs off n v) = length xs"
  by (simp add: mem_set_def)

lemma nth_mem_write:
  "off + length ys \<le> length xs \<Longrightarrow> k < length xs \<Longrightarrow>
   mem_write xs off ys ! k = (if off \<le> k \<and> k < off + length ys then ys ! (k - off) else xs ! k)"
  by (auto simp: mem_write_def nth_append)

lemma nth_mem_set [mem_simps]:
  "off + n \<le> length xs \<Longrightarrow> k < length xs \<Longrightarrow>
   mem_set xs off n v ! k = (if off \<le> k \<and> k < off + n then v else xs ! k)"
  by (auto simp: mem_set_def nth_mem_write)

lemma nth_mem_read [mem_simps]:
  "off + n \<le> length xs \<Longrightarrow> k < n \<Longrightarrow> mem_read xs off n ! k = xs ! (off + k)"
  by (simp add: mem_read_def)

lemma mem_read_write_same [mem_simps]:
  "off + length ys \<le> length xs \<Longrightarrow> n = length ys \<Longrightarrow> mem_read (mem_write xs off ys) off n = ys"
  by (simp add: mem_read_def mem_write_def)

lemma mem_read_write_prefix [mem_simps]:
  "off + length ys \<le> length xs \<Longrightarrow> n \<le> length ys \<Longrightarrow>
   mem_read (mem_write xs off ys) off n = take n ys"
  by (simp add: mem_read_def mem_write_def)

lemma mem_read_write_disjoint:
  assumes "off + length ys \<le> length xs" "a + n \<le> length xs"
    and "a + n \<le> off \<or> off + length ys \<le> a"
  shows "mem_read (mem_write xs off ys) a n = mem_read xs a n"
proof (rule nth_equalityI)
  show "length (mem_read (mem_write xs off ys) a n) = length (mem_read xs a n)"
    using assms by simp
next
  fix i
  assume "i < length (mem_read (mem_write xs off ys) a n)"
  then have i: "i < n" using assms by simp
  with assms show "mem_read (mem_write xs off ys) a n ! i = mem_read xs a n ! i"
    by (auto simp: nth_mem_read nth_mem_write)
qed

section \<open>Circular buffers\<close>

definition ring_pos :: "nat \<Rightarrow> nat \<Rightarrow> nat \<Rightarrow> nat" where
  "ring_pos h m i = (h + i) mod m"

lemma ring_pos_less [ring_simps, simp]: "0 < m \<Longrightarrow> ring_pos h m i < m"
  by (simp add: ring_pos_def)

lemma ring_pos_0 [ring_simps, simp]: "h < m \<Longrightarrow> ring_pos h m 0 = h"
  by (simp add: ring_pos_def)

lemma ring_pos_shift [ring_simps]: "ring_pos ((h + n) mod m) m i = ring_pos h m (n + i)"
  by (simp add: ring_pos_def mod_add_left_eq add.assoc)

lemma ring_pos_no_wrap: "h + i < m \<Longrightarrow> ring_pos h m i = h + i"
  by (simp add: ring_pos_def)

lemma ring_pos_wrap: "h < m \<Longrightarrow> m \<le> h + i \<Longrightarrow> i \<le> m \<Longrightarrow> ring_pos h m i = h + i - m"
  by (simp add: ring_pos_def le_mod_geq)

lemma ring_pos_cases:
  assumes "h < m" "i < m"
  shows "ring_pos h m i = (if h + i < m then h + i else h + i - m)"
  using assms by (auto simp: ring_pos_no_wrap ring_pos_wrap)

lemma ring_pos_inj [ring_simps]:
  "h < m \<Longrightarrow> i < m \<Longrightarrow> j < m \<Longrightarrow> (ring_pos h m i = ring_pos h m j) = (i = j)"
  by (auto simp: ring_pos_cases split: if_splits)

lemma ring_pos_surj:
  assumes "h < m" "p < m"
  shows "\<exists>i < m. ring_pos h m i = p"
proof (cases "h \<le> p")
  case True
  with assms have "ring_pos h m (p - h) = p" "p - h < m" by (auto simp: ring_pos_def)
  then show ?thesis by blast
next
  case False
  with assms have "ring_pos h m (m + p - h) = p" "m + p - h < m" by (auto simp: ring_pos_def)
  then show ?thesis by blast
qed

section \<open>Output parameters\<close>

text \<open>
  A pointer the caller passes to receive a result is \<open>None\<close> when it is NULL and \<open>Some\<close> of
  the cell's content otherwise.  Writing through a NULL pointer is skipped by the code's
  own test (\<open>if (size) *size = ...\<close>).
\<close>

definition set_out :: "'a \<Rightarrow> 'a option \<Rightarrow> 'a option" where
  "set_out v p = map_option (\<lambda>_. v) p"

lemma set_out_simps [simp]: "set_out v None = None" "set_out v (Some w) = Some v"
  by (simp_all add: set_out_def)

section \<open>Counting in lists\<close>

lemma count_list_pos_nth: "i < length xs \<Longrightarrow> xs ! i = v \<Longrightarrow> 0 < count_list xs v"
  by (metis count_list_0_iff gr0I nth_mem)

lemma count_list_filter: "count_list xs v = length (filter (\<lambda>x. x = v) xs)"
  by (induction xs) auto

lemma count_list_update:
  assumes "i < length xs"
  shows "count_list (xs[i := y]) v + (if xs ! i = v then 1 else 0) =
         count_list xs v + (if y = v then 1 else 0)"
  using assms
proof (induction xs arbitrary: i)
  case Nil
  then show ?case by simp
next
  case (Cons x xs)
  show ?case
  proof (cases i)
    case 0
    then show ?thesis by simp
  next
    case (Suc j)
    with Cons.prems have "j < length xs" by simp
    from Cons.IH [OF this] Suc show ?thesis by auto
  qed
qed

lemma count_list_replicate [simp]: "count_list (replicate n x) v = (if x = v then n else 0)"
  by (induction n) auto

end
