(* ===== verification/Jb_framelist.thy ===== *)
theory Jb_framelist
  imports Prelude
begin

text \<open>
  The frame list of the jitter buffer (\<open>jb_framelist_t\<close> of \<open>pjmedia/src/pjmedia/jbuf.c\<close>):
  a circular buffer of slots holding frame content, type, length, bit info and timestamp.
  \<open>content\<close> is the flat byte array of the C struct, slot \<open>i\<close> starting at byte
  \<open>i * frame_size\<close>; the other arrays have one cell per slot.  \<open>head\<close>, \<open>size\<close> and
  \<open>discarded_num\<close> are \<open>unsigned\<close> (kept as nat, subtractions wrap), \<open>origin\<close> is the
  sequence number of the head frame.  Sequence numbers and differences are \<open>int\<close>; C leaves
  their overflow undefined and the model does not give it a meaning.
\<close>

section \<open>Data\<close>

datatype jb_frame_type =
    JB_MISSING_FRAME
  | JB_NORMAL_FRAME
  | JB_ZERO_PREFETCH_FRAME
  | JB_ZERO_EMPTY_FRAME
  | JB_DISCARDED_FRAME

datatype pj_status = PJ_SUCCESS | PJ_EINVAL | PJ_ETOOSMALL | PJ_ETOOMANY | PJ_EEXISTS

definition INVALID_OFFSET :: int where "INVALID_OFFSET = -9999"
definition MAX_MISORDER :: int where "MAX_MISORDER = 100"
definition MAX_DROPOUT :: int where "MAX_DROPOUT = 3000"

record jb_framelist =
  fl_frame_size :: nat
  fl_max_count :: nat
  content :: "u8 list"
  frame_type :: "jb_frame_type list"
  content_len :: "nat list"
  bit_info :: "u32 list"
  ts :: "u32 list"
  head :: nat
  fl_size :: nat
  discarded_num :: nat
  origin :: int

text \<open>The cells a caller passes by reference to the read operations.\<close>

record jb_out =
  o_frame :: "u8 list"
  o_size :: "nat option"
  o_type :: jb_frame_type
  o_bit_info :: "u32 option"
  o_ts :: "u32 option"
  o_seq :: "int option"

section \<open>Operations\<close>

definition jb_framelist_reset :: "jb_framelist \<Rightarrow> jb_framelist" where
  "jb_framelist_reset fl = fl\<lparr>head := 0, origin := INVALID_OFFSET, fl_size := 0,
     discarded_num := 0,
     frame_type := mem_set (frame_type fl) 0 (fl_max_count fl) JB_MISSING_FRAME,
     content_len := mem_set (content_len fl) 0 (fl_max_count fl) 0\<rparr>"

text \<open>
  The arrays come from \<open>pj_pool_alloc\<close>, which does not clear them: their first contents are
  arguments.
\<close>

definition jb_framelist_init ::
  "nat \<Rightarrow> nat \<Rightarrow> u8 list \<Rightarrow> jb_frame_type list \<Rightarrow> nat list \<Rightarrow> u32 list \<Rightarrow> u32 list \<Rightarrow> jb_framelist" where
  "jb_framelist_init frame_sz max_cnt m_content m_type m_len m_bit m_ts =
     jb_framelist_reset
       \<lparr>fl_frame_size = frame_sz, fl_max_count = max_cnt, content = m_content, frame_type = m_type,
        content_len = m_len, bit_info = m_bit, ts = m_ts, head = 0, fl_size = 0,
        discarded_num = 0, origin = 0\<rparr>"

definition jb_framelist_destroy :: "jb_framelist \<Rightarrow> jb_framelist \<times> pj_status" where
  "jb_framelist_destroy fl = (fl, PJ_SUCCESS)"

definition jb_framelist_size :: "jb_framelist \<Rightarrow> nat" where
  "jb_framelist_size fl = fl_size fl"

definition jb_framelist_eff_size :: "jb_framelist \<Rightarrow> nat" where
  "jb_framelist_eff_size fl = u32_sub (fl_size fl) (discarded_num fl)"

definition jb_framelist_origin :: "jb_framelist \<Rightarrow> int" where
  "jb_framelist_origin fl = origin fl"

text \<open>The counting loop of \<open>remove_head\<close>: one decrement per discarded slot of the range.\<close>

fun jb_uncount_discarded :: "jb_frame_type list \<Rightarrow> nat \<Rightarrow> nat \<Rightarrow> nat \<Rightarrow> nat" where
  "jb_uncount_discarded fts i 0 d = d"
| "jb_uncount_discarded fts i (Suc n) d =
     jb_uncount_discarded fts (Suc i) n
       (if fts ! i = JB_DISCARDED_FRAME then u32_sub d 1 else d)"

definition jb_clear_range :: "jb_framelist \<Rightarrow> nat \<Rightarrow> nat \<Rightarrow> jb_framelist" where
  "jb_clear_range fl off n = fl\<lparr>
     discarded_num := jb_uncount_discarded (frame_type fl) off n (discarded_num fl),
     frame_type := mem_set (frame_type fl) off n JB_MISSING_FRAME,
     content_len := mem_set (content_len fl) off n 0\<rparr>"

definition jb_framelist_remove_head :: "jb_framelist \<Rightarrow> nat \<Rightarrow> jb_framelist \<times> nat" where
  "jb_framelist_remove_head fl count0 =
     (let count = (if count0 > fl_size fl then fl_size fl else count0)
      in if count = 0 then (fl, count)
         else
           let tmp = head fl + count;
               step1 = (if tmp > fl_max_count fl then fl_max_count fl - head fl else count);
               step2 = (if tmp > fl_max_count fl then count - step1 else 0);
               fl1 = jb_clear_range fl (head fl) step1;
               fl2 = (if step2 \<noteq> 0 then jb_clear_range fl1 0 step2 else fl1)
           in (fl2\<lparr>origin := origin fl2 + int count,
                   head := (head fl2 + count) mod fl_max_count fl2,
                   fl_size := fl_size fl2 - count\<rparr>, count))"

text \<open>
  The loop that skips discarded frames at the head.  It has no bound of its own: \<open>None\<close> is a
  loop that never ends.
\<close>

partial_function (option) jb_skip_discarded ::
  "jb_framelist \<Rightarrow> bool \<Rightarrow> (jb_framelist \<times> bool) option" where
  "jb_skip_discarded fl prev =
     (if frame_type fl ! head fl = JB_DISCARDED_FRAME
      then jb_skip_discarded (fst (jb_framelist_remove_head fl 1)) True
      else Some (fl, prev))"

declare jb_skip_discarded.simps [code]

definition jb_take_head :: "jb_framelist \<Rightarrow> bool \<Rightarrow> jb_out \<Rightarrow> jb_framelist \<times> jb_out" where
  "jb_take_head fl prev_discarded out =
     (let h = head fl;
          out1 = (if prev_discarded
                  then out\<lparr>o_type := JB_MISSING_FRAME, o_size := set_out 0 (o_size out),
                           o_bit_info := set_out 0 (o_bit_info out)\<rparr>
                  else out\<lparr>o_frame := mem_write (o_frame out) 0
                             (mem_read (content fl) (h * fl_frame_size fl) (fl_frame_size fl)),
                           o_type := frame_type fl ! h,
                           o_size := set_out (content_len fl ! h) (o_size out),
                           o_bit_info := set_out (bit_info fl ! h) (o_bit_info out)\<rparr>);
          out2 = out1\<lparr>o_ts := set_out (ts fl ! h) (o_ts out1),
                      o_seq := set_out (origin fl) (o_seq out1)\<rparr>
      in (fl\<lparr>frame_type := (frame_type fl)[h := JB_MISSING_FRAME],
             content_len := (content_len fl)[h := 0],
             bit_info := (bit_info fl)[h := 0],
             ts := (ts fl)[h := 0],
             origin := origin fl + 1,
             head := (h + 1) mod fl_max_count fl,
             fl_size := fl_size fl - 1\<rparr>, out2))"

definition jb_framelist_get ::
  "jb_framelist \<Rightarrow> jb_out \<Rightarrow> (bool \<times> jb_framelist \<times> jb_out) option" where
  "jb_framelist_get fl out =
     (if fl_size fl = 0
      then Some (False, fl, out\<lparr>o_frame := mem_set (o_frame out) 0 (fl_frame_size fl) 0\<rparr>)
      else do {
        (fl1, prev) \<leftarrow> jb_skip_discarded fl False;
        if fl_size fl1 \<noteq> 0
        then (case jb_take_head fl1 prev out of (fl2, out2) \<Rightarrow> Some (True, fl2, out2))
        else Some (False, fl1, out\<lparr>o_frame := mem_set (o_frame out) 0 (fl_frame_size fl1) 0\<rparr>)
      })"

text \<open>The search of \<open>peek\<close>: the slot of the frame number \<open>idx\<close> that is not discarded.\<close>

partial_function (option) jb_peek_pos :: "jb_framelist \<Rightarrow> nat \<Rightarrow> nat \<Rightarrow> nat option" where
  "jb_peek_pos fl pos idx =
     (if frame_type fl ! pos \<noteq> JB_DISCARDED_FRAME
      then (if idx = 0 then Some pos
            else jb_peek_pos fl ((pos + 1) mod fl_max_count fl) (idx - 1))
      else jb_peek_pos fl ((pos + 1) mod fl_max_count fl) idx)"

declare jb_peek_pos.simps [code]

text \<open>
  \<open>peek\<close> hands out a pointer into the content array: \<open>p_off\<close> is its offset there.  The other
  out cells are those of \<open>get\<close>.
\<close>

definition jb_framelist_peek ::
  "jb_framelist \<Rightarrow> nat \<Rightarrow> nat option \<Rightarrow> jb_out \<Rightarrow> (bool \<times> nat option \<times> jb_out) option" where
  "jb_framelist_peek fl offset p_off out =
     (if offset \<ge> jb_framelist_eff_size fl then Some (False, p_off, out)
      else do {
        pos \<leftarrow> jb_peek_pos fl (head fl) offset;
        Some (True, set_out (pos * fl_frame_size fl) p_off,
              out\<lparr>o_type := frame_type fl ! pos,
                  o_size := set_out (content_len fl ! pos) (o_size out),
                  o_bit_info := set_out (bit_info fl ! pos) (o_bit_info out),
                  o_ts := set_out (ts fl ! pos) (o_ts out),
                  o_seq := set_out (origin fl + int offset) (o_seq out)\<rparr>)
      })"

text \<open>
  \<open>put_at\<close> in the source's order: size check, late frame or sequence restart, first frame,
  far jump, slot position, duplicate test, store.  \<open>frame_sz\<close> is the number of bytes copied
  from \<open>frame\<close>.
\<close>

definition jb_put_rebase :: "jb_framelist \<Rightarrow> int \<Rightarrow> pj_status + jb_framelist" where
  "jb_put_rebase fl index =
     (if index < origin fl
      then if origin fl - index < MAX_MISORDER then Inl PJ_ETOOSMALL
           else Inr (fl\<lparr>origin := index - int (fl_size fl)\<rparr>)
      else Inr fl)"

definition jb_put_slot ::
  "jb_framelist \<Rightarrow> nat \<Rightarrow> int \<Rightarrow> int \<Rightarrow> u8 list \<Rightarrow> nat \<Rightarrow> u32 \<Rightarrow> u32 \<Rightarrow> jb_frame_type \<Rightarrow>
   jb_framelist" where
  "jb_put_slot fl pos distance index frame frame_sz bits stamp ftype =
     (let fl1 = fl\<lparr>frame_type := (frame_type fl)[pos := ftype],
                   content_len := (content_len fl)[pos := frame_sz],
                   bit_info := (bit_info fl)[pos := bits],
                   ts := (ts fl)[pos := stamp]\<rparr>;
          fl2 = (if origin fl1 + int (fl_size fl1) \<le> index
                 then fl1\<lparr>fl_size := nat (distance + 1)\<rparr> else fl1)
      in if ftype = JB_NORMAL_FRAME
         then fl2\<lparr>content := mem_write (content fl2) (pos * fl_frame_size fl2) (take frame_sz frame)\<rparr>
         else fl2)"

definition jb_put_based ::
  "jb_framelist \<Rightarrow> int \<Rightarrow> u8 list \<Rightarrow> nat \<Rightarrow> u32 \<Rightarrow> u32 \<Rightarrow> jb_frame_type \<Rightarrow>
   jb_framelist \<times> pj_status" where
  "jb_put_based fl index frame frame_sz bits stamp ftype =
     (let distance = index - origin fl
      in if distance \<ge> int (fl_max_count fl) \<and> \<not> distance > MAX_DROPOUT
         then (fl, PJ_ETOOMANY)
         else
           let far = distance \<ge> int (fl_max_count fl);
               fl2 = (if far then (jb_framelist_reset fl)\<lparr>origin := index\<rparr> else fl);
               distance2 = (if far then 0 else distance);
               pos = nat ((int (head fl2) + distance2) mod int (fl_max_count fl2))
           in if frame_type fl2 ! pos \<noteq> JB_MISSING_FRAME then (fl2, PJ_EEXISTS)
              else (jb_put_slot fl2 pos distance2 index frame frame_sz bits stamp ftype,
                    PJ_SUCCESS))"

definition jb_framelist_put_at ::
  "jb_framelist \<Rightarrow> int \<Rightarrow> u8 list \<Rightarrow> nat \<Rightarrow> u32 \<Rightarrow> u32 \<Rightarrow> jb_frame_type \<Rightarrow>
   jb_framelist \<times> pj_status" where
  "jb_framelist_put_at fl index frame frame_sz bits stamp ftype =
     (if \<not> frame_sz \<le> fl_frame_size fl then (fl, PJ_EINVAL)
      else case jb_put_rebase fl index of
        Inl e \<Rightarrow> (fl, e)
      | Inr fl0 \<Rightarrow>
         jb_put_based (if fl_size fl0 = 0 then fl0\<lparr>origin := index\<rparr> else fl0)
           index frame frame_sz bits stamp ftype)"

definition jb_framelist_discard :: "jb_framelist \<Rightarrow> int \<Rightarrow> jb_framelist \<times> pj_status" where
  "jb_framelist_discard fl index =
     (if \<not> (index \<ge> origin fl \<and> index < origin fl + int (fl_size fl)) then (fl, PJ_EINVAL)
      else
        let pos = nat ((int (head fl) + (index - origin fl)) mod int (fl_max_count fl))
        in (fl\<lparr>frame_type := (frame_type fl)[pos := JB_DISCARDED_FRAME],
               discarded_num := discarded_num fl + 1\<rparr>, PJ_SUCCESS))"

section \<open>Invariant and abstract view\<close>

text \<open>
  Well-formedness: the arrays have their sizes, every slot outside the window
  \<open>head .. head + size\<close> is missing, and \<open>discarded_num\<close> counts the discarded slots.
\<close>

definition jb_stored_types :: "jb_frame_type set" where
  "jb_stored_types = {JB_MISSING_FRAME, JB_NORMAL_FRAME, JB_DISCARDED_FRAME}"

lemma jb_stored_types_simps [simp]:
  "JB_MISSING_FRAME \<in> jb_stored_types" "JB_NORMAL_FRAME \<in> jb_stored_types"
  "JB_DISCARDED_FRAME \<in> jb_stored_types"
  by (simp_all add: jb_stored_types_def)

definition jb_fl_ok :: "jb_framelist \<Rightarrow> bool" where
  "jb_fl_ok fl \<longleftrightarrow>
     0 < fl_max_count fl \<and> fl_max_count fl < 2 ^ 31 \<and>
     length (content fl) = fl_max_count fl * fl_frame_size fl \<and>
     length (frame_type fl) = fl_max_count fl \<and> length (content_len fl) = fl_max_count fl \<and>
     length (bit_info fl) = fl_max_count fl \<and> length (ts fl) = fl_max_count fl \<and>
     head fl < fl_max_count fl \<and> fl_size fl \<le> fl_max_count fl \<and>
     (\<forall>i < fl_max_count fl. fl_size fl \<le> i \<longrightarrow>
        frame_type fl ! ring_pos (head fl) (fl_max_count fl) i = JB_MISSING_FRAME) \<and>
     (\<forall>k < fl_max_count fl. content_len fl ! k \<le> fl_frame_size fl) \<and>
     (\<forall>k < fl_max_count fl. frame_type fl ! k \<in> jb_stored_types) \<and>
     discarded_num fl = count_list (frame_type fl) JB_DISCARDED_FRAME"

text \<open>What a slot means to the reader of the buffer.\<close>

datatype jb_view = VMissing | VDiscarded | VFrame "u8 list" u32 u32

definition jb_view_at :: "jb_framelist \<Rightarrow> nat \<Rightarrow> jb_view" where
  "jb_view_at fl k =
     (if frame_type fl ! k = JB_MISSING_FRAME then VMissing
      else if frame_type fl ! k = JB_DISCARDED_FRAME then VDiscarded
      else VFrame (mem_read (content fl) (k * fl_frame_size fl) (content_len fl ! k))
             (bit_info fl ! k) (ts fl ! k))"

definition jb_window :: "jb_framelist \<Rightarrow> jb_view list" where
  "jb_window fl = map (\<lambda>i. jb_view_at fl (ring_pos (head fl) (fl_max_count fl) i)) [0..<fl_size fl]"

definition view_discarded :: "jb_view list \<Rightarrow> nat" where
  "view_discarded vs = count_list vs VDiscarded"

lemma length_jb_window [simp]: "length (jb_window fl) = fl_size fl"
  by (simp add: jb_window_def)

lemma nth_jb_window:
  "i < fl_size fl \<Longrightarrow>
   jb_window fl ! i = jb_view_at fl (ring_pos (head fl) (fl_max_count fl) i)"
  by (simp add: jb_window_def)

lemma jb_fl_okD:
  assumes "jb_fl_ok fl"
  shows "0 < fl_max_count fl" "fl_max_count fl < 2 ^ 31"
    "length (content fl) = fl_max_count fl * fl_frame_size fl"
    "length (frame_type fl) = fl_max_count fl" "length (content_len fl) = fl_max_count fl"
    "length (bit_info fl) = fl_max_count fl" "length (ts fl) = fl_max_count fl"
    "head fl < fl_max_count fl" "fl_size fl \<le> fl_max_count fl"
    "discarded_num fl = count_list (frame_type fl) JB_DISCARDED_FRAME"
  using assms by (simp_all add: jb_fl_ok_def)

lemma jb_fl_ok_outside:
  "jb_fl_ok fl \<Longrightarrow> i < fl_max_count fl \<Longrightarrow> fl_size fl \<le> i \<Longrightarrow>
   frame_type fl ! ring_pos (head fl) (fl_max_count fl) i = JB_MISSING_FRAME"
  by (simp add: jb_fl_ok_def)

lemma jb_fl_ok_type:
  "jb_fl_ok fl \<Longrightarrow> k < fl_max_count fl \<Longrightarrow> frame_type fl ! k \<in> jb_stored_types"
  by (simp add: jb_fl_ok_def)

lemma jb_fl_ok_len:
  "jb_fl_ok fl \<Longrightarrow> k < fl_max_count fl \<Longrightarrow> content_len fl ! k \<le> fl_frame_size fl"
  by (simp add: jb_fl_ok_def)

lemma count_list_le_ring:
  assumes len: "length xs = m" and h: "h < m" and s: "s \<le> m"
    and out: "\<And>i. i < m \<Longrightarrow> s \<le> i \<Longrightarrow> xs ! ring_pos h m i \<noteq> v"
  shows "count_list xs v = count_list (map (\<lambda>i. xs ! ring_pos h m i) [0..<s]) v"
proof -
  have "count_list xs v = card {k. k < m \<and> xs ! k = v}"
    using len by (simp add: count_list_filter length_filter_conv_card)
  also have "{k. k < m \<and> xs ! k = v} = ring_pos h m ` {i. i < s \<and> xs ! ring_pos h m i = v}"
  proof (intro set_eqI iffI)
    fix k assume k: "k \<in> {k. k < m \<and> xs ! k = v}"
    then obtain i where i: "i < m" "ring_pos h m i = k" using ring_pos_surj h by blast
    with k out have "i < s" by (metis (mono_tags, lifting) mem_Collect_eq not_less)
    with i k show "k \<in> ring_pos h m ` {i. i < s \<and> xs ! ring_pos h m i = v}" by auto
  qed (use h in auto)
  also have "card \<dots> = card {i. i < s \<and> xs ! ring_pos h m i = v}"
    by (rule card_image) (use h s in \<open>auto simp: inj_on_def ring_pos_inj\<close>)
  also have "\<dots> = count_list (map (\<lambda>i. xs ! ring_pos h m i) [0..<s]) v"
    by (auto simp: count_list_filter length_filter_conv_card intro!: arg_cong [of _ _ card])
  finally show ?thesis .
qed

lemma jb_view_at_discarded [simp]:
  "jb_view_at fl k = VDiscarded \<longleftrightarrow> frame_type fl ! k = JB_DISCARDED_FRAME"
  by (simp add: jb_view_at_def)

lemma jb_view_at_missing [simp]:
  "jb_view_at fl k = VMissing \<longleftrightarrow> frame_type fl ! k = JB_MISSING_FRAME"
  by (simp add: jb_view_at_def)

lemma discarded_num_window:
  assumes "jb_fl_ok fl"
  shows "discarded_num fl = view_discarded (jb_window fl)"
proof -
  let ?p = "ring_pos (head fl) (fl_max_count fl)"
  have "discarded_num fl = count_list (map (\<lambda>i. frame_type fl ! ?p i) [0..<fl_size fl]) JB_DISCARDED_FRAME"
    unfolding jb_fl_okD(10) [OF assms]
    by (rule count_list_le_ring) (use jb_fl_okD [OF assms] jb_fl_ok_outside [OF assms] in auto)
  then show ?thesis
    by (simp add: view_discarded_def jb_window_def count_list_filter filter_map comp_def)
qed

lemma discarded_le_size: "jb_fl_ok fl \<Longrightarrow> discarded_num fl \<le> fl_size fl"
  using discarded_num_window [of fl] count_le_length [of "jb_window fl" VDiscarded]
  by (simp add: view_discarded_def)

lemma eff_size_window:
  "jb_fl_ok fl \<Longrightarrow> jb_framelist_eff_size fl = length (filter (\<lambda>v. v \<noteq> VDiscarded) (jb_window fl))"
proof -
  assume ok: "jb_fl_ok fl"
  have "length (filter (\<lambda>v. v = VDiscarded) (jb_window fl)) +
        length (filter (\<lambda>v. v \<noteq> VDiscarded) (jb_window fl)) = fl_size fl"
    using sum_length_filter_compl [of "\<lambda>v. v = VDiscarded" "jb_window fl"] by simp
  moreover have "jb_framelist_eff_size fl = fl_size fl - discarded_num fl"
    using discarded_le_size [OF ok] jb_fl_okD [OF ok] by (simp add: jb_framelist_eff_size_def)
  ultimately show ?thesis
    using discarded_num_window [OF ok] by (simp add: view_discarded_def count_list_filter)
qed

section \<open>Removing frames at the head\<close>

lemma jb_uncount_discarded_eq:
  "i + n \<le> length fts \<Longrightarrow> count_list (mem_read fts i n) JB_DISCARDED_FRAME \<le> d \<Longrightarrow> d < 2 ^ 32 \<Longrightarrow>
   jb_uncount_discarded fts i n d = d - count_list (mem_read fts i n) JB_DISCARDED_FRAME"
proof (induction n arbitrary: i d)
  case 0
  then show ?case by (simp add: mem_read_def)
next
  case (Suc n)
  then have "mem_read fts i (Suc n) = fts ! i # mem_read fts (Suc i) n"
    by (simp add: mem_read_def Cons_nth_drop_Suc [symmetric])
  with Suc show ?case by auto
qed

lemma count_list_mem_set:
  assumes "off + n \<le> length xs" "v \<noteq> w"
  shows "count_list (mem_set xs off n w) v = count_list xs v - count_list (mem_read xs off n) v"
    and "count_list (mem_read xs off n) v \<le> count_list xs v"
proof -
  have "xs = take off xs @ mem_read xs off n @ drop (off + n) xs"
    by (simp add: mem_read_def add.commute flip: drop_drop)
  then have "count_list xs v = count_list (take off xs) v + count_list (mem_read xs off n) v +
      count_list (drop (off + n) xs) v"
    by (metis count_list_append add.assoc)
  then show "count_list (mem_set xs off n w) v = count_list xs v - count_list (mem_read xs off n) v"
    and "count_list (mem_read xs off n) v \<le> count_list xs v"
    using assms(2) by (simp_all add: mem_set_def mem_write_def)
qed

text \<open>What one \<open>clear_range\<close> keeps and changes.\<close>

lemma jb_clear_range_simps [simp]:
  "fl_frame_size (jb_clear_range fl off n) = fl_frame_size fl"
  "fl_max_count (jb_clear_range fl off n) = fl_max_count fl"
  "content (jb_clear_range fl off n) = content fl"
  "bit_info (jb_clear_range fl off n) = bit_info fl"
  "ts (jb_clear_range fl off n) = ts fl"
  "head (jb_clear_range fl off n) = head fl"
  "fl_size (jb_clear_range fl off n) = fl_size fl"
  "origin (jb_clear_range fl off n) = origin fl"
  "frame_type (jb_clear_range fl off n) = mem_set (frame_type fl) off n JB_MISSING_FRAME"
  "content_len (jb_clear_range fl off n) = mem_set (content_len fl) off n 0"
  by (simp_all add: jb_clear_range_def)

lemma jb_clear_range_discarded:
  assumes "off + n \<le> length (frame_type fl)" "length (frame_type fl) < 2 ^ 32"
    and "discarded_num fl = count_list (frame_type fl) JB_DISCARDED_FRAME"
  shows "discarded_num (jb_clear_range fl off n) =
         count_list (frame_type (jb_clear_range fl off n)) JB_DISCARDED_FRAME"
proof -
  have "count_list (frame_type fl) JB_DISCARDED_FRAME < 2 ^ 32"
    using assms(2) count_le_length [of "frame_type fl" JB_DISCARDED_FRAME] by simp
  then show ?thesis
    using assms count_list_mem_set [OF assms(1), of JB_DISCARDED_FRAME JB_MISSING_FRAME]
    by (simp add: jb_clear_range_def jb_uncount_discarded_eq)
qed

text \<open>
  \<open>remove_head\<close> in one step: the two ranges it clears are exactly the first \<open>count\<close>
  positions of the ring.
\<close>

lemma ring_segment:
  assumes "h < m" "c \<le> m" "k < m"
  shows "(\<exists>i < c. ring_pos h m i = k) \<longleftrightarrow>
    (h \<le> k \<and> k < h + (if h + c > m then m - h else c)) \<or> (k < (if h + c > m then c - (m - h) else 0))"
proof
  assume "\<exists>i < c. ring_pos h m i = k"
  with assms show "(h \<le> k \<and> k < h + (if h + c > m then m - h else c)) \<or>
    (k < (if h + c > m then c - (m - h) else 0))"
    by (auto simp: ring_pos_cases split: if_splits)
next
  assume *: "(h \<le> k \<and> k < h + (if h + c > m then m - h else c)) \<or>
    (k < (if h + c > m then c - (m - h) else 0))"
  show "\<exists>i < c. ring_pos h m i = k"
  proof (cases "h \<le> k")
    case True
    with * assms have "k - h < c" by (auto split: if_splits)
    with True assms show ?thesis by (intro exI [of _ "k - h"]) (simp add: ring_pos_cases)
  next
    case False
    with * assms have "k + m - h < c" by (auto split: if_splits)
    with False assms show ?thesis by (intro exI [of _ "k + m - h"]) (simp add: ring_pos_cases)
  qed
qed

lemma remove_head_facts:
  fixes n :: nat
  assumes ok: "jb_fl_ok fl"
  defines "c \<equiv> min n (fl_size fl)"
  defines "r \<equiv> fst (jb_framelist_remove_head fl n)"
  shows "snd (jb_framelist_remove_head fl n) = c"
    and "fl_size r = fl_size fl - c" "origin r = origin fl + int c"
    and "head r = (head fl + c) mod fl_max_count fl"
    and "fl_frame_size r = fl_frame_size fl" "fl_max_count r = fl_max_count fl"
    and "content r = content fl" "bit_info r = bit_info fl" "ts r = ts fl"
    and "length (frame_type r) = fl_max_count fl" "length (content_len r) = fl_max_count fl"
    and "discarded_num r = count_list (frame_type r) JB_DISCARDED_FRAME"
    and "\<And>k. k < fl_max_count fl \<Longrightarrow> frame_type r ! k =
      (if \<exists>i < c. ring_pos (head fl) (fl_max_count fl) i = k then JB_MISSING_FRAME
       else frame_type fl ! k)"
    and "\<And>k. k < fl_max_count fl \<Longrightarrow> content_len r ! k =
      (if \<exists>i < c. ring_pos (head fl) (fl_max_count fl) i = k then 0 else content_len fl ! k)"
proof -
  note D = jb_fl_okD [OF ok]
  let ?m = "fl_max_count fl" and ?h = "head fl"
  let ?s1 = "if ?h + c > ?m then ?m - ?h else c"
  let ?s2 = "if ?h + c > ?m then c - (?m - ?h) else 0"
  have c: "(if n > fl_size fl then fl_size fl else n) = c" by (auto simp: c_def min_def)
  have cm: "c \<le> ?m" using D by (simp add: c_def)
  define f1 where "f1 = jb_clear_range fl ?h ?s1"
  define f2 where "f2 = (if ?s2 \<noteq> 0 then jb_clear_range f1 0 ?s2 else f1)"
  have b1: "?h + ?s1 \<le> ?m" using D by auto
  have b2: "?s2 \<le> ?m" using cm by auto
  have seg: "k < ?m \<Longrightarrow> (\<exists>i < c. ring_pos ?h ?m i = k) \<longleftrightarrow>
      (?h \<le> k \<and> k < ?h + ?s1) \<or> k < ?s2" for k
    using ring_segment D cm by metis
  have d1: "discarded_num f1 = count_list (frame_type f1) JB_DISCARDED_FRAME"
    unfolding f1_def by (rule jb_clear_range_discarded) (use D b1 in auto)
  have d2: "discarded_num f2 = count_list (frame_type f2) JB_DISCARDED_FRAME"
  proof (cases "?s2 = 0")
    case True
    with d1 show ?thesis by (auto simp: f2_def)
  next
    case False
    have "discarded_num (jb_clear_range f1 0 ?s2) =
        count_list (frame_type (jb_clear_range f1 0 ?s2)) JB_DISCARDED_FRAME"
      by (rule jb_clear_range_discarded) (use D b1 b2 d1 in \<open>auto simp: f1_def\<close>)
    with False show ?thesis unfolding f2_def by presburger
  qed
  have ft: "frame_type f2 ! k = (if (?h \<le> k \<and> k < ?h + ?s1) \<or> k < ?s2 then JB_MISSING_FRAME
      else frame_type fl ! k)" if "k < ?m" for k
    using that D b1 b2 by (simp add: f2_def f1_def nth_mem_set)
  have cl: "content_len f2 ! k = (if (?h \<le> k \<and> k < ?h + ?s1) \<or> k < ?s2 then 0
      else content_len fl ! k)" if "k < ?m" for k
    using that D b1 b2 by (simp add: f2_def f1_def nth_mem_set)
  have same: "fl_frame_size f2 = fl_frame_size fl" "fl_max_count f2 = ?m"
      "content f2 = content fl" "bit_info f2 = bit_info fl" "ts f2 = ts fl" "head f2 = ?h"
      "fl_size f2 = fl_size fl" "origin f2 = origin fl"
      "length (frame_type f2) = ?m" "length (content_len f2) = ?m"
    using D b1 b2 by (simp_all add: f2_def f1_def)
  have r: "c \<noteq> 0 \<Longrightarrow> jb_framelist_remove_head fl n =
      (f2\<lparr>origin := origin f2 + int c, head := (head f2 + c) mod fl_max_count f2,
          fl_size := fl_size f2 - c\<rparr>, c)"
    unfolding jb_framelist_remove_head_def c f1_def f2_def Let_def by simp
  have r0: "c = 0 \<Longrightarrow> jb_framelist_remove_head fl n = (fl, c)"
    unfolding jb_framelist_remove_head_def c Let_def by simp
  show "snd (jb_framelist_remove_head fl n) = c" by (cases "c = 0") (simp_all add: r r0)
  show "fl_size r = fl_size fl - c" "origin r = origin fl + int c"
    "head r = (head fl + c) mod fl_max_count fl"
    "fl_frame_size r = fl_frame_size fl" "fl_max_count r = fl_max_count fl"
    "content r = content fl" "bit_info r = bit_info fl" "ts r = ts fl"
    "length (frame_type r) = fl_max_count fl" "length (content_len r) = fl_max_count fl"
    "discarded_num r = count_list (frame_type r) JB_DISCARDED_FRAME"
    by (cases "c = 0"; use D same d2 in \<open>simp add: r_def r r0\<close>)+
  show "frame_type r ! k = (if \<exists>i < c. ring_pos ?h ?m i = k then JB_MISSING_FRAME
       else frame_type fl ! k)" if "k < ?m" for k
    unfolding seg [OF that] using ft [OF that] by (cases "c = 0") (auto simp: r_def r r0)
  show "content_len r ! k = (if \<exists>i < c. ring_pos ?h ?m i = k then 0
       else content_len fl ! k)" if "k < ?m" for k
    unfolding seg [OF that] using cl [OF that] by (cases "c = 0") (auto simp: r_def r r0)
qed

lemma remove_head_slot:
  fixes n :: nat
  assumes ok: "jb_fl_ok fl" and j: "j < fl_max_count fl"
  defines "c \<equiv> min n (fl_size fl)" and "r \<equiv> fst (jb_framelist_remove_head fl n)"
    and "k \<equiv> ring_pos (head fl) (fl_max_count fl) j"
  shows "frame_type r ! k = (if j < c then JB_MISSING_FRAME else frame_type fl ! k)"
    and "content_len r ! k = (if j < c then 0 else content_len fl ! k)"
proof -
  note D = jb_fl_okD [OF ok]
  have k: "k < fl_max_count fl" using D j by (simp add: k_def)
  have "(\<exists>i < c. ring_pos (head fl) (fl_max_count fl) i = k) \<longleftrightarrow> j < c"
    using D j by (auto simp: k_def c_def ring_pos_inj)
  then show "frame_type r ! k = (if j < c then JB_MISSING_FRAME else frame_type fl ! k)"
    and "content_len r ! k = (if j < c then 0 else content_len fl ! k)"
    using remove_head_facts(13,14) [OF ok k, where n = n] by (simp_all add: r_def c_def)
qed

lemma remove_head_ok:
  assumes ok: "jb_fl_ok fl"
  shows "jb_fl_ok (fst (jb_framelist_remove_head fl n))"
proof -
  note D = jb_fl_okD [OF ok] and F = remove_head_facts [OF ok, where n = n]
  let ?r = "fst (jb_framelist_remove_head fl n)" and ?m = "fl_max_count fl"
  let ?c = "min n (fl_size fl)"
  have "frame_type ?r ! ring_pos (head ?r) ?m i = JB_MISSING_FRAME"
    if i: "i < ?m" "fl_size ?r \<le> i" for i
  proof -
    have eq: "ring_pos (head ?r) ?m i = ring_pos (head fl) ?m (?c + i)"
      by (simp only: F(4) ring_pos_shift)
    show ?thesis
    proof (cases "?c + i < ?m")
      case True
      have "fl_size fl \<le> ?c + i" using i F(2) by simp
      with True show ?thesis
        unfolding eq using remove_head_slot(1) [OF ok True, of n] jb_fl_ok_outside [OF ok True] by simp
    next
      case False
      let ?j = "?c + i - ?m"
      have "ring_pos (head fl) ?m (?c + i) = ring_pos (head fl) ?m ?j"
        using False by (simp add: ring_pos_def mod_if [of "head fl + _"] le_mod_geq)
      moreover have "?j < ?c" "?j < ?m" using i False D by auto
      ultimately show ?thesis unfolding eq using remove_head_slot(1) [OF ok, of ?j n] by simp
    qed
  qed
  moreover have "content_len ?r ! k \<le> fl_frame_size fl" if "k < ?m" for k
    using F(14) [OF that] jb_fl_ok_len [OF ok that] by simp
  moreover have "frame_type ?r ! k \<in> jb_stored_types" if "k < ?m" for k
    using F(13) [OF that] jb_fl_ok_type [OF ok that] by simp
  ultimately show ?thesis unfolding jb_fl_ok_def using D F(2,3,4,5,6,7,8,9,10,11,12) by auto
qed

lemma remove_head_window:
  assumes ok: "jb_fl_ok fl"
  shows "jb_window (fst (jb_framelist_remove_head fl n)) = drop n (jb_window fl)"
proof (rule nth_equalityI)
  note D = jb_fl_okD [OF ok] and F = remove_head_facts [OF ok, where n = n]
  let ?r = "fst (jb_framelist_remove_head fl n)" and ?c = "min n (fl_size fl)"
  show "length (jb_window ?r) = length (drop n (jb_window fl))" using F(2) by simp
  fix i assume "i < length (jb_window ?r)"
  then have i: "i < fl_size fl - ?c" using F(2) by simp
  then have "?c = n" by auto
  have j: "?c + i < fl_size fl" "?c + i < fl_max_count fl" using i D by auto
  have pos: "ring_pos (head ?r) (fl_max_count ?r) i = ring_pos (head fl) (fl_max_count fl) (?c + i)"
    unfolding F(4) F(6) ring_pos_shift ..
  let ?k = "ring_pos (head fl) (fl_max_count fl) (?c + i)"
  have slot: "frame_type ?r ! ?k = frame_type fl ! ?k" "content_len ?r ! ?k = content_len fl ! ?k"
    using remove_head_slot [OF ok j(2), of n] by (simp_all only: not_add_less1 if_False)
  have "jb_window ?r ! i = jb_view_at ?r (ring_pos (head fl) (fl_max_count fl) (?c + i))"
    using i F(2) pos by (simp add: nth_jb_window)
  also have "\<dots> = jb_view_at fl (ring_pos (head fl) (fl_max_count fl) (?c + i))"
    using slot F(5,7,8,9) by (simp add: jb_view_at_def)
  also have "\<dots> = drop n (jb_window fl) ! i"
    using j i \<open>?c = n\<close> by (simp add: nth_jb_window)
  finally show "jb_window ?r ! i = drop n (jb_window fl) ! i" .
qed

section \<open>Storing a frame\<close>

lemma reset_simps [simp]:
  "fl_frame_size (jb_framelist_reset fl) = fl_frame_size fl"
  "fl_max_count (jb_framelist_reset fl) = fl_max_count fl"
  "content (jb_framelist_reset fl) = content fl"
  "bit_info (jb_framelist_reset fl) = bit_info fl"
  "ts (jb_framelist_reset fl) = ts fl"
  "head (jb_framelist_reset fl) = 0" "fl_size (jb_framelist_reset fl) = 0"
  "discarded_num (jb_framelist_reset fl) = 0" "origin (jb_framelist_reset fl) = INVALID_OFFSET"
  "jb_window (jb_framelist_reset fl) = []"
  by (simp_all add: jb_framelist_reset_def jb_window_def)

lemma mem_set_all: "n = length xs \<Longrightarrow> mem_set xs 0 n v = replicate n v"
  by (simp add: mem_set_def mem_write_def)

lemma reset_ok_of_lengths:
  assumes "0 < fl_max_count fl" "fl_max_count fl < 2 ^ 31"
    and "length (content fl) = fl_max_count fl * fl_frame_size fl"
    and "length (frame_type fl) = fl_max_count fl" "length (content_len fl) = fl_max_count fl"
    and "length (bit_info fl) = fl_max_count fl" "length (ts fl) = fl_max_count fl"
  shows "jb_fl_ok (jb_framelist_reset fl)"
proof -
  have "frame_type (jb_framelist_reset fl) = replicate (fl_max_count fl) JB_MISSING_FRAME"
    "content_len (jb_framelist_reset fl) = replicate (fl_max_count fl) 0"
    using assms by (simp_all add: jb_framelist_reset_def mem_set_all)
  with assms show ?thesis by (auto simp: jb_fl_ok_def)
qed

lemma reset_ok: "jb_fl_ok fl \<Longrightarrow> jb_fl_ok (jb_framelist_reset fl)"
  by (rule reset_ok_of_lengths) (auto dest: jb_fl_okD)

lemma origin_update_ok [simp]: "jb_fl_ok (fl\<lparr>origin := v\<rparr>) = jb_fl_ok fl"
  by (simp add: jb_fl_ok_def)

lemma origin_update_window [simp]: "jb_window (fl\<lparr>origin := v\<rparr>) = jb_window fl"
  by (simp add: jb_window_def jb_view_at_def)

lemma ring_pos_int:
  "0 \<le> d \<Longrightarrow> nat ((int h + d) mod int m) = ring_pos h m (nat d)"
  by (simp add: ring_pos_def nat_mod_distrib nat_add_distrib)

text \<open>A window extended to \<open>d + 1\<close> slots, with the frame stored at \<open>d\<close>.\<close>

definition view_put :: "jb_view list \<Rightarrow> nat \<Rightarrow> jb_view \<Rightarrow> jb_view list" where
  "view_put vs d v = (vs @ replicate (Suc d - length vs) VMissing)[d := v]"

lemma length_view_put [simp]: "length (view_put vs d v) = max (length vs) (Suc d)"
  by (simp add: view_put_def)

lemma nth_view_put:
  "i < max (length vs) (Suc d) \<Longrightarrow>
   view_put vs d v ! i = (if i = d then v else if i < length vs then vs ! i else VMissing)"
  by (auto simp: view_put_def nth_list_update nth_append)

lemma slot_bytes:
  assumes "jb_fl_ok fl" "k < fl_max_count fl" "l \<le> fl_frame_size fl"
  shows "k * fl_frame_size fl + l \<le> length (content fl)"
proof -
  have "k * fl_frame_size fl + l \<le> Suc k * fl_frame_size fl" using assms(3) by simp
  also have "\<dots> \<le> fl_max_count fl * fl_frame_size fl" using assms(2) by (intro mult_le_mono1) simp
  finally show ?thesis using jb_fl_okD(3) [OF assms(1)] by simp
qed

lemma slots_disjoint:
  assumes "k \<noteq> p" "l \<le> fs" "n \<le> fs"
  shows "k * fs + l \<le> p * fs \<or> p * fs + n \<le> k * (fs :: nat)"
proof (cases "k < p")
  case True
  then have "Suc k * fs \<le> p * fs" by (intro mult_le_mono1) simp
  with assms show ?thesis by simp
next
  case False
  with assms have "Suc p * fs \<le> k * fs" by (intro mult_le_mono1) simp
  with assms show ?thesis by simp
qed

text \<open>The result of \<open>put_slot\<close> on a free slot at distance \<open>d\<close> of the head.\<close>

lemma put_slot_facts:
  fixes bits stamp :: u32
  assumes ok: "jb_fl_ok fl" and d: "d < fl_max_count fl"
    and sz: "sz \<le> fl_frame_size fl" "sz \<le> length frame"
  defines "p \<equiv> ring_pos (head fl) (fl_max_count fl) d"
  defines "r \<equiv> jb_put_slot fl p (int d) (origin fl + int d) frame sz bits stamp JB_NORMAL_FRAME"
  shows "fl_frame_size r = fl_frame_size fl" "fl_max_count r = fl_max_count fl"
    and "head r = head fl" "origin r = origin fl" "discarded_num r = discarded_num fl"
    and "fl_size r = max (fl_size fl) (Suc d)"
    and "frame_type r = (frame_type fl)[p := JB_NORMAL_FRAME]"
    and "content_len r = (content_len fl)[p := sz]"
    and "bit_info r = (bit_info fl)[p := bits]" "ts r = (ts fl)[p := stamp]"
    and "content r = mem_write (content fl) (p * fl_frame_size fl) (take sz frame)"
    and "length (content r) = length (content fl)"
proof -
  have "p < fl_max_count fl" using jb_fl_okD [OF ok] by (simp add: p_def)
  then have "length (mem_write (content fl) (p * fl_frame_size fl) (take sz frame)) = length (content fl)"
    using slot_bytes [OF ok _ sz(1), of p] sz by simp
  moreover have "nat (int d + 1) = Suc d" by simp
  ultimately show "fl_frame_size r = fl_frame_size fl" "fl_max_count r = fl_max_count fl"
    "head r = head fl" "origin r = origin fl" "discarded_num r = discarded_num fl"
    "fl_size r = max (fl_size fl) (Suc d)"
    "frame_type r = (frame_type fl)[p := JB_NORMAL_FRAME]"
    "content_len r = (content_len fl)[p := sz]"
    "bit_info r = (bit_info fl)[p := bits]" "ts r = (ts fl)[p := stamp]"
    "content r = mem_write (content fl) (p * fl_frame_size fl) (take sz frame)"
    "length (content r) = length (content fl)"
    unfolding r_def jb_put_slot_def Let_def by (simp_all add: max_def)
qed

lemma put_slot_ok:
  assumes ok: "jb_fl_ok fl" and d: "d < fl_max_count fl"
    and sz: "sz \<le> fl_frame_size fl" "sz \<le> length frame"
    and free: "frame_type fl ! ring_pos (head fl) (fl_max_count fl) d = JB_MISSING_FRAME"
  shows "jb_fl_ok (jb_put_slot fl (ring_pos (head fl) (fl_max_count fl) d) (int d)
           (origin fl + int d) frame sz bits stamp JB_NORMAL_FRAME)" (is "jb_fl_ok ?r")
proof -
  let ?m = "fl_max_count fl" and ?p = "ring_pos (head fl) (fl_max_count fl) d"
  note D = jb_fl_okD [OF ok] and F = put_slot_facts [OF ok d sz, where bits = bits and stamp = stamp]
  have p: "?p < ?m" using D by simp
  have "frame_type ?r ! ring_pos (head fl) ?m i = JB_MISSING_FRAME"
    if "i < ?m" "max (fl_size fl) (Suc d) \<le> i" for i
    unfolding F(7) using that D d p jb_fl_ok_outside [OF ok that(1)]
    by (simp add: nth_list_update ring_pos_inj)
  moreover have "content_len ?r ! k \<le> fl_frame_size fl" if "k < ?m" for k
    unfolding F(8) using that sz jb_fl_ok_len [OF ok that] D by (simp add: nth_list_update)
  moreover have "frame_type ?r ! k \<in> jb_stored_types" if "k < ?m" for k
    unfolding F(7) using that jb_fl_ok_type [OF ok that] D by (simp add: nth_list_update)
  moreover have "count_list (frame_type ?r) JB_DISCARDED_FRAME =
      count_list (frame_type fl) JB_DISCARDED_FRAME"
    unfolding F(7) using count_list_update [of ?p "frame_type fl" JB_NORMAL_FRAME JB_DISCARDED_FRAME]
      p D(4) free by simp
  ultimately show ?thesis
    unfolding jb_fl_ok_def F(1-6) F(12) using D d by (simp add: F(7-10))
qed

lemma put_slot_view:
  assumes ok: "jb_fl_ok fl" and d: "d < fl_max_count fl"
    and sz: "sz \<le> fl_frame_size fl" "sz \<le> length frame"
    and k: "k < fl_max_count fl"
  shows "jb_view_at (jb_put_slot fl (ring_pos (head fl) (fl_max_count fl) d) (int d)
           (origin fl + int d) frame sz bits stamp JB_NORMAL_FRAME) k =
         (if k = ring_pos (head fl) (fl_max_count fl) d
          then VFrame (take sz frame) bits stamp else jb_view_at fl k)" (is "jb_view_at ?r k = _")
proof (cases "k = ring_pos (head fl) (fl_max_count fl) d")
  case True
  note D = jb_fl_okD [OF ok] and F = put_slot_facts [OF ok d sz, where bits = bits and stamp = stamp]
  have "k * fl_frame_size fl + length (take sz frame) \<le> length (content fl)"
    using slot_bytes [OF ok k sz(1)] sz by simp
  then have "mem_read (content ?r) (k * fl_frame_size fl) sz = take sz frame"
    unfolding F(11) True by (rule mem_read_write_same) (use sz in simp)
  then show ?thesis using True k D by (simp add: jb_view_at_def F)
next
  case False
  note D = jb_fl_okD [OF ok] and F = put_slot_facts [OF ok d sz, where bits = bits and stamp = stamp]
  let ?p = "ring_pos (head fl) (fl_max_count fl) d"
  have l: "content_len fl ! k \<le> fl_frame_size fl" by (rule jb_fl_ok_len [OF ok k])
  have p: "?p < fl_max_count fl" using D by simp
  have "mem_read (content ?r) (k * fl_frame_size fl) (content_len fl ! k) =
      mem_read (content fl) (k * fl_frame_size fl) (content_len fl ! k)"
    unfolding F(11)
  proof (rule mem_read_write_disjoint)
    show "?p * fl_frame_size fl + length (take sz frame) \<le> length (content fl)"
      using slot_bytes [OF ok p sz(1)] sz by simp
    show "k * fl_frame_size fl + content_len fl ! k \<le> length (content fl)"
      by (rule slot_bytes [OF ok k l])
    show "k * fl_frame_size fl + content_len fl ! k \<le> ?p * fl_frame_size fl \<or>
        ?p * fl_frame_size fl + length (take sz frame) \<le> k * fl_frame_size fl"
      by (rule slots_disjoint) (use False l sz in auto)
  qed
  then show ?thesis using False k D by (simp add: jb_view_at_def F)
qed

lemma put_slot_window:
  assumes ok: "jb_fl_ok fl" and d: "d < fl_max_count fl"
    and sz: "sz \<le> fl_frame_size fl" "sz \<le> length frame"
  shows "jb_window (jb_put_slot fl (ring_pos (head fl) (fl_max_count fl) d) (int d)
           (origin fl + int d) frame sz bits stamp JB_NORMAL_FRAME) =
         view_put (jb_window fl) d (VFrame (take sz frame) bits stamp)"
    (is "jb_window ?r = view_put _ _ ?v")
proof (rule nth_equalityI)
  note D = jb_fl_okD [OF ok] and F = put_slot_facts [OF ok d sz, where bits = bits and stamp = stamp]
  show "length (jb_window ?r) = length (view_put (jb_window fl) d ?v)" by (simp add: F(6))
  fix i assume "i < length (jb_window ?r)"
  then have i: "i < max (fl_size fl) (Suc d)" by (simp add: F(6))
  then have im: "i < fl_max_count fl" using d D(9) by auto
  let ?k = "ring_pos (head fl) (fl_max_count fl) i"
  have "jb_window ?r ! i = jb_view_at ?r ?k" using i by (simp add: nth_jb_window F(2,3,6))
  also have "\<dots> = (if i = d then ?v else jb_view_at fl ?k)"
    using put_slot_view [OF ok d sz, where k = ?k and bits = bits and stamp = stamp] im d D by (simp add: ring_pos_inj)
  also have "\<dots> = view_put (jb_window fl) d ?v ! i"
    using i jb_fl_ok_outside [OF ok im] by (simp add: nth_view_put nth_jb_window)
  finally show "jb_window ?r ! i = view_put (jb_window fl) d ?v ! i" .
qed

section \<open>Abstract specification: a window of a frame sequence\<close>

text \<open>
  Seen from outside a frame list is its origin and the list of views of its window; the ring,
  the head index and the stale cells are gone.  \<open>view_put_at\<close> says what \<open>put_at\<close> does to it.
\<close>

type_synonym jb_abs = "int \<times> jb_view list"

definition jb_abs :: "jb_framelist \<Rightarrow> jb_abs" where
  "jb_abs fl = (origin fl, jb_window fl)"

definition view_put_at :: "nat \<Rightarrow> jb_abs \<Rightarrow> int \<Rightarrow> jb_view \<Rightarrow> jb_abs \<times> pj_status" where
  "view_put_at m a index v =
     (case a of (org, vs) \<Rightarrow>
        if index < org \<and> org - index < MAX_MISORDER then (a, PJ_ETOOSMALL)
        else
          let org1 = (if vs = [] then index else if index < org then index - int (length vs) else org);
              d = index - org1
          in if d \<ge> int m then if d > MAX_DROPOUT then ((index, [v]), PJ_SUCCESS)
                               else ((org1, vs), PJ_ETOOMANY)
             else if nat d < length vs \<and> vs ! nat d \<noteq> VMissing then ((org1, vs), PJ_EEXISTS)
             else ((org1, view_put vs (nat d) v), PJ_SUCCESS))"

definition view_remove :: "nat \<Rightarrow> jb_abs \<Rightarrow> jb_abs" where
  "view_remove n a = (case a of (org, vs) \<Rightarrow> (org + int (min n (length vs)), drop n vs))"

lemma jb_abs_remove_head:
  "jb_fl_ok fl \<Longrightarrow> jb_abs (fst (jb_framelist_remove_head fl n)) = view_remove n (jb_abs fl)"
  by (simp add: jb_abs_def view_remove_def remove_head_window remove_head_facts(3))

lemma ring_slot_free_iff:
  assumes ok: "jb_fl_ok fl" and d: "d < fl_max_count fl"
  shows "frame_type fl ! ring_pos (head fl) (fl_max_count fl) d \<noteq> JB_MISSING_FRAME \<longleftrightarrow>
         d < length (jb_window fl) \<and> jb_window fl ! d \<noteq> VMissing"
  using jb_fl_ok_outside [OF ok d] by (cases "d < fl_size fl") (simp_all add: nth_jb_window)

text \<open>The tail of \<open>put_at\<close>, once the origin is settled and the distance is within capacity.\<close>

lemma put_near:
  assumes ok: "jb_fl_ok fl" and d: "d < fl_max_count fl"
    and sz: "sz \<le> fl_frame_size fl" "sz \<le> length frame"
  defines "pos \<equiv> ring_pos (head fl) (fl_max_count fl) d"
  defines "vs \<equiv> jb_window fl"
  shows "(if frame_type fl ! pos \<noteq> JB_MISSING_FRAME then (fl, PJ_EEXISTS)
          else (jb_put_slot fl pos (int d) (origin fl + int d) frame sz bits stamp JB_NORMAL_FRAME,
                PJ_SUCCESS)) = (r, st) \<Longrightarrow>
         jb_fl_ok r \<and> fl_max_count r = fl_max_count fl \<and> fl_frame_size r = fl_frame_size fl \<and>
         (jb_abs r, st) =
         (if d < length vs \<and> vs ! d \<noteq> VMissing then ((origin fl, vs), PJ_EEXISTS)
          else ((origin fl, view_put vs d (VFrame (take sz frame) bits stamp)), PJ_SUCCESS))"
  using ring_slot_free_iff [OF ok d] put_slot_ok [OF ok d sz, of bits stamp]
    put_slot_window [OF ok d sz, of bits stamp]
    put_slot_facts(1,2,4) [OF ok d sz, where bits = bits and stamp = stamp] ok
  by (auto simp: jb_abs_def pos_def vs_def split: if_splits)

lemma put_based_near:
  "0 \<le> index - origin fl \<Longrightarrow> index - origin fl < int (fl_max_count fl) \<Longrightarrow>
   jb_put_based fl index frame sz bits stamp ftype =
     (let pos = ring_pos (head fl) (fl_max_count fl) (nat (index - origin fl))
      in if frame_type fl ! pos \<noteq> JB_MISSING_FRAME then (fl, PJ_EEXISTS)
         else (jb_put_slot fl pos (index - origin fl) index frame sz bits stamp ftype, PJ_SUCCESS))"
  by (simp add: jb_put_based_def ring_pos_int Let_def)

text \<open>The invariant is kept by \<open>put_at\<close>, and \<open>put_at\<close> refines \<open>view_put_at\<close>.\<close>

lemma put_at_refines:
  assumes ok: "jb_fl_ok fl" and sz: "sz \<le> fl_frame_size fl" "sz \<le> length frame"
    and put: "jb_framelist_put_at fl index frame sz bits stamp JB_NORMAL_FRAME = (r, st)"
  shows "jb_fl_ok r \<and> fl_max_count r = fl_max_count fl \<and> fl_frame_size r = fl_frame_size fl \<and>
    (jb_abs r, st) =
      view_put_at (fl_max_count fl) (jb_abs fl) index (VFrame (take sz frame) bits stamp)"
proof (cases "index < origin fl \<and> origin fl - index < MAX_MISORDER")
  case True
  with put ok sz show ?thesis
    by (auto simp: jb_framelist_put_at_def jb_put_rebase_def view_put_at_def jb_abs_def)
next
  case False
  let ?m = "fl_max_count fl" and ?v = "VFrame (take sz frame) bits stamp"
  define o1 where "o1 = (if jb_window fl = [] then index
     else if index < origin fl then index - int (fl_size fl) else origin fl)"
  define f1 where "f1 = fl\<lparr>origin := o1\<rparr>"
  define d where "d = index - o1"
  have empty: "(jb_window fl = []) = (fl_size fl = 0)" using length_jb_window [of fl] by (metis length_0_conv)
  have f1: "jb_fl_ok f1" "jb_window f1 = jb_window fl" "fl_max_count f1 = ?m" "head f1 = head fl"
    "fl_frame_size f1 = fl_frame_size fl" "origin f1 = o1" "frame_type f1 = frame_type fl"
    using ok by (simp_all add: f1_def)
  have d0: "0 \<le> d" using False by (auto simp: d_def o1_def)
  have "jb_framelist_put_at fl index frame sz bits stamp JB_NORMAL_FRAME =
      jb_put_based f1 index frame sz bits stamp JB_NORMAL_FRAME"
    using False empty sz
    by (auto simp: jb_framelist_put_at_def jb_put_rebase_def f1_def o1_def)
  with put have based: "jb_put_based f1 index frame sz bits stamp JB_NORMAL_FRAME = (r, st)" by simp
  have abs: "view_put_at ?m (jb_abs fl) index ?v =
      (if d \<ge> int ?m then if d > MAX_DROPOUT then ((index, [?v]), PJ_SUCCESS)
                         else ((o1, jb_window fl), PJ_ETOOMANY)
       else if nat d < length (jb_window fl) \<and> jb_window fl ! nat d \<noteq> VMissing
       then ((o1, jb_window fl), PJ_EEXISTS)
       else ((o1, view_put (jb_window fl) (nat d) ?v), PJ_SUCCESS))"
    unfolding view_put_at_def jb_abs_def Let_def o1_def d_def
    by (simp only: False prod.case if_False length_jb_window)
  show ?thesis
  proof (cases "d \<ge> int ?m")
    case near: False
    then have dn: "nat d < fl_max_count f1" using d0 f1 by simp
    have "(if frame_type f1 ! ring_pos (head f1) (fl_max_count f1) (nat d) \<noteq> JB_MISSING_FRAME
        then (f1, PJ_EEXISTS)
        else (jb_put_slot f1 (ring_pos (head f1) (fl_max_count f1) (nat d)) (int (nat d))
               (origin f1 + int (nat d)) frame sz bits stamp JB_NORMAL_FRAME, PJ_SUCCESS)) = (r, st)"
      using based put_based_near [of index f1 frame sz bits stamp] near d0 f1(3,6)
      by (simp only: d_def) (simp add: Let_def split: if_splits)
    from put_near [OF f1(1) dn _ _ this] sz near f1 show ?thesis unfolding abs by simp
  next
    case far: True
    show ?thesis
    proof (cases "d > MAX_DROPOUT")
      case False
      with far f1(3,6) have "jb_put_based f1 index frame sz bits stamp JB_NORMAL_FRAME = (f1, PJ_ETOOMANY)"
        by (simp add: jb_put_based_def d_def)
      with based far False f1 show ?thesis unfolding abs by (auto simp: jb_abs_def)
    next
      case True
      define f2 where "f2 = (jb_framelist_reset f1)\<lparr>origin := index\<rparr>"
      have f2: "jb_fl_ok f2" "jb_window f2 = []" "fl_max_count f2 = ?m" "head f2 = 0"
        "fl_frame_size f2 = fl_frame_size fl" "origin f2 = index"
        using reset_ok [OF f1(1)] f1 by (simp_all add: f2_def)
      have m0: "0 < fl_max_count f2" using jb_fl_okD(1) [OF f2(1)] .
      have "(if frame_type f2 ! ring_pos (head f2) (fl_max_count f2) 0 \<noteq> JB_MISSING_FRAME
          then (f2, PJ_EEXISTS)
          else (jb_put_slot f2 (ring_pos (head f2) (fl_max_count f2) 0) (int 0)
                 (origin f2 + int 0) frame sz bits stamp JB_NORMAL_FRAME, PJ_SUCCESS)) = (r, st)"
        using based far True f1(3,6) f2(4,6) m0
        by (simp add: jb_put_based_def d_def flip: f2_def split: if_splits)
      from put_near [OF f2(1) m0 _ _ this] sz far True f2 show ?thesis
        unfolding abs by (simp add: view_put_def)
    qed
  qed
qed

lemmas put_at_ok = put_at_refines [THEN conjunct1]

section \<open>Taking a frame\<close>

definition lead_discarded :: "jb_view list \<Rightarrow> nat" where
  "lead_discarded vs = length (takeWhile (\<lambda>v. v = VDiscarded) vs)"

lemma lead_discarded_simps [simp]:
  "lead_discarded [] = 0"
  "lead_discarded (v # vs) = (if v = VDiscarded then Suc (lead_discarded vs) else 0)"
  by (simp_all add: lead_discarded_def)

lemma lead_discarded_le: "lead_discarded vs \<le> length vs"
  by (simp add: lead_discarded_def length_takeWhile_le)

lemma view_remove_add: "view_remove a (view_remove b x) = view_remove (a + b) x"
  by (cases x) (auto simp: view_remove_def min_def)

lemma view_remove_0 [simp]: "view_remove 0 x = x"
  by (cases x) (simp add: view_remove_def)

lemma head_discarded_iff:
  assumes "jb_fl_ok fl"
  shows "frame_type fl ! head fl = JB_DISCARDED_FRAME \<longleftrightarrow>
         (\<exists>vs. jb_window fl = VDiscarded # vs)"
proof (cases "fl_size fl")
  case 0
  with jb_fl_ok_outside [OF assms, of 0] jb_fl_okD [OF assms] show ?thesis by (simp add: jb_window_def)
next
  case (Suc n)
  then have "jb_window fl = jb_view_at fl (head fl) # tl (jb_window fl)"
    using nth_jb_window [of 0 fl] jb_fl_okD [OF assms]
    by (metis hd_Cons_tl hd_conv_nth length_0_conv length_jb_window nat.distinct(1) ring_pos_0 zero_less_Suc)
  then show ?thesis using jb_view_at_discarded by (metis list.inject)
qed

lemma remove_head_same:
  "jb_fl_ok fl \<Longrightarrow> fl_frame_size (fst (jb_framelist_remove_head fl n)) = fl_frame_size fl"
  "jb_fl_ok fl \<Longrightarrow> fl_max_count (fst (jb_framelist_remove_head fl n)) = fl_max_count fl"
  by (simp_all add: remove_head_facts)

text \<open>The skipping loop always ends, and removes exactly the leading discarded frames.\<close>

lemma skip_discarded_total:
  assumes "jb_fl_ok fl"
  shows "\<exists>r. jb_skip_discarded fl prev = Some (r, prev \<or> lead_discarded (jb_window fl) \<noteq> 0) \<and>
    jb_fl_ok r \<and> fl_max_count r = fl_max_count fl \<and> fl_frame_size r = fl_frame_size fl \<and>
    jb_abs r = view_remove (lead_discarded (jb_window fl)) (jb_abs fl) \<and>
    frame_type r ! head r \<noteq> JB_DISCARDED_FRAME"
  using assms
proof (induction "fl_size fl" arbitrary: fl prev rule: less_induct)
  case less
  show ?case
  proof (cases "frame_type fl ! head fl = JB_DISCARDED_FRAME")
    case False
    with less.prems have "lead_discarded (jb_window fl) = 0"
      by (cases "jb_window fl") (auto simp: head_discarded_iff)
    with False less.prems show ?thesis by (simp add: jb_skip_discarded.simps)
  next
    case True
    then obtain vs where vs: "jb_window fl = VDiscarded # vs"
      using head_discarded_iff [OF less.prems] by blast
    let ?f = "fst (jb_framelist_remove_head fl 1)"
    have w: "jb_window ?f = vs" using remove_head_window [OF less.prems, of 1] vs by simp
    have "fl_size ?f < fl_size fl" using w vs by (metis length_Cons length_jb_window lessI)
    from less.hyps [OF this remove_head_ok [OF less.prems], of True]
    obtain r where r: "jb_skip_discarded ?f True = Some (r, True)" "jb_fl_ok r"
      "fl_max_count r = fl_max_count ?f" "fl_frame_size r = fl_frame_size ?f"
      "jb_abs r = view_remove (lead_discarded (jb_window ?f)) (jb_abs ?f)"
      "frame_type r ! head r \<noteq> JB_DISCARDED_FRAME" by auto
    then show ?thesis using True vs w jb_abs_remove_head [OF less.prems, of 1]
      remove_head_same [OF less.prems, of 1]
      by (simp add: jb_skip_discarded.simps [of fl] view_remove_add)
  qed
qed

lemma stale_update_ok:
  assumes "jb_fl_ok r" "k < fl_max_count r" "frame_type r ! k = JB_MISSING_FRAME"
  shows "jb_fl_ok (r\<lparr>bit_info := (bit_info r)[k := a], ts := (ts r)[k := b]\<rparr>)"
    and "jb_window (r\<lparr>bit_info := (bit_info r)[k := a], ts := (ts r)[k := b]\<rparr>) = jb_window r"
proof -
  show "jb_fl_ok (r\<lparr>bit_info := (bit_info r)[k := a], ts := (ts r)[k := b]\<rparr>)"
    using assms(1) by (simp add: jb_fl_ok_def)
  have "jb_view_at (r\<lparr>bit_info := (bit_info r)[k := a], ts := (ts r)[k := b]\<rparr>) j = jb_view_at r j" for j
    using assms by (cases "j = k") (auto simp: jb_view_at_def)
  then show "jb_window (r\<lparr>bit_info := (bit_info r)[k := a], ts := (ts r)[k := b]\<rparr>) = jb_window r"
    by (simp add: jb_window_def)
qed

text \<open>Taking the head is \<open>remove_head\<close> of one frame, but for the stale cells it also clears.\<close>

lemma take_head_remove:
  assumes ok: "jb_fl_ok fl" and sz: "fl_size fl \<noteq> 0"
    and nd: "frame_type fl ! head fl \<noteq> JB_DISCARDED_FRAME"
  shows "fst (jb_take_head fl prev out) =
    (fst (jb_framelist_remove_head fl 1))
      \<lparr>bit_info := (bit_info fl)[head fl := 0], ts := (ts fl)[head fl := 0]\<rparr>"
proof -
  note D = jb_fl_okD [OF ok]
  have one: "mem_set xs h (Suc 0) v = xs[h := v]" if "h < length xs" for xs :: "'c list" and h v
    using that by (simp add: mem_set_def mem_write_def upd_conv_take_nth_drop)
  have "\<not> head fl + 1 > fl_max_count fl" using D by simp
  then show ?thesis
    using sz nd D
    by (simp add: jb_take_head_def jb_framelist_remove_head_def jb_clear_range_def Let_def one)
qed

lemma take_head_refines:
  fixes prev :: bool and out :: jb_out
  assumes ok: "jb_fl_ok fl" and sz: "fl_size fl \<noteq> 0"
    and nd: "frame_type fl ! head fl \<noteq> JB_DISCARDED_FRAME"
  defines "r \<equiv> fst (jb_take_head fl prev out)"
  shows "jb_fl_ok r" "jb_abs r = view_remove 1 (jb_abs fl)"
    "fl_max_count r = fl_max_count fl" "fl_frame_size r = fl_frame_size fl"
proof -
  let ?f = "fst (jb_framelist_remove_head fl 1)"
  note D = jb_fl_okD [OF ok] and F = remove_head_facts [OF ok, where n = 1]
  have ok': "jb_fl_ok ?f" by (rule remove_head_ok [OF ok])
  have "frame_type ?f ! head fl = JB_MISSING_FRAME"
    using remove_head_slot(1) [OF ok, of 0 1] D sz by simp
  moreover have "head fl < fl_max_count ?f" using D F(6) by simp
  moreover have "r = ?f\<lparr>bit_info := (bit_info ?f)[head fl := 0], ts := (ts ?f)[head fl := 0]\<rparr>"
    unfolding r_def using take_head_remove [OF ok sz nd] F(8,9) by simp
  ultimately show "jb_fl_ok r" "jb_abs r = view_remove 1 (jb_abs fl)"
    "fl_max_count r = fl_max_count fl" "fl_frame_size r = fl_frame_size fl"
    using stale_update_ok [OF ok', of "head fl" 0 0] jb_abs_remove_head [OF ok, of 1] F(5,6)
    by (simp_all add: jb_abs_def)
qed

text \<open>
  What \<open>get\<close> does to the abstract state: the leading discarded frames go, and with them the
  frame after them, if there is one.
\<close>

definition view_get :: "jb_abs \<Rightarrow> bool \<times> jb_abs" where
  "view_get a =
     (let k = lead_discarded (snd a)
      in if k < length (snd a) then (True, view_remove (Suc k) a) else (False, view_remove k a))"

text \<open>
  What \<open>get\<close> reports.  A frame after discarded ones is reported as missing; otherwise the
  type, length, bytes, bit info and timestamp are those stored.
\<close>

definition get_reports :: "nat \<Rightarrow> jb_view \<Rightarrow> int \<Rightarrow> jb_out \<Rightarrow> bool" where
  "get_reports k v seq out \<longleftrightarrow>
     (\<forall>s. o_seq out = Some s \<longrightarrow> s = seq) \<and>
     (if k \<noteq> 0 \<or> v = VMissing then o_type out = JB_MISSING_FRAME
      else \<exists>bytes b t. v = VFrame bytes b t \<and> o_type out = JB_NORMAL_FRAME \<and>
             take (length bytes) (o_frame out) = bytes \<and>
             (\<forall>n. o_size out = Some n \<longrightarrow> n = length bytes) \<and>
             (\<forall>x. o_bit_info out = Some x \<longrightarrow> x = b) \<and> (\<forall>x. o_ts out = Some x \<longrightarrow> x = t))"

lemma set_out_eq_Some: "set_out v p = Some w \<Longrightarrow> w = v"
  by (auto simp: set_out_def)

lemma take_head_reports:
  assumes ok: "jb_fl_ok fl" and sz: "fl_size fl \<noteq> 0"
    and nd: "frame_type fl ! head fl \<noteq> JB_DISCARDED_FRAME"
    and buf: "fl_frame_size fl \<le> length (o_frame out)"
  shows "get_reports (if prev then Suc 0 else 0) (hd (jb_window fl)) (origin fl)
           (snd (jb_take_head fl prev out))"
proof -
  note D = jb_fl_okD [OF ok]
  let ?h = "head fl" and ?fs = "fl_frame_size fl" and ?n = "content_len fl ! head fl"
  have hd: "hd (jb_window fl) = jb_view_at fl ?h"
    using sz D by (simp add: hd_conv_nth nth_jb_window flip: length_greater_0_conv)
  have n: "?n \<le> ?fs" by (rule jb_fl_ok_len [OF ok D(8)])
  have b: "?h * ?fs + ?fs \<le> length (content fl)" by (rule slot_bytes [OF ok D(8)]) simp
  have bytes: "take ?n (mem_write (o_frame out) 0 (mem_read (content fl) (?h * ?fs) ?fs)) =
      mem_read (content fl) (?h * ?fs) ?n"
    using n b buf by (auto simp: mem_write_def mem_read_def min_def)
  have len: "length (mem_read (content fl) (?h * ?fs) ?n) = ?n" using n b by simp
  show ?thesis
  proof (cases "prev \<or> frame_type fl ! ?h = JB_MISSING_FRAME")
    case True
    then show ?thesis
      by (auto simp: get_reports_def jb_take_head_def Let_def hd dest: set_out_eq_Some)
  next
    case False
    with nd jb_fl_ok_type [OF ok D(8)] have "frame_type fl ! ?h = JB_NORMAL_FRAME"
      by (simp add: jb_stored_types_def)
    with False bytes len show ?thesis
      by (simp add: get_reports_def jb_take_head_def Let_def hd jb_view_at_def)
         (auto dest: set_out_eq_Some)
  qed
qed

text \<open>\<open>get\<close> always returns, and refines \<open>view_get\<close>.\<close>

lemma get_refines:
  assumes ok: "jb_fl_ok fl" and buf: "fl_frame_size fl \<le> length (o_frame out)"
  shows "\<exists>res r out'. jb_framelist_get fl out = Some (res, r, out') \<and> jb_fl_ok r \<and>
    fl_max_count r = fl_max_count fl \<and> fl_frame_size r = fl_frame_size fl \<and>
    (res, jb_abs r) = view_get (jb_abs fl) \<and>
    (let k = lead_discarded (jb_window fl)
     in if res then get_reports k (jb_window fl ! k) (origin fl + int k) out'
        else out' = out\<lparr>o_frame := mem_set (o_frame out) 0 (fl_frame_size fl) 0\<rparr>)"
proof (cases "fl_size fl = 0")
  case True
  then have "jb_window fl = []" by (simp add: jb_window_def)
  with True ok show ?thesis
    by (auto simp: jb_framelist_get_def view_get_def jb_abs_def)
next
  case False
  let ?k = "lead_discarded (jb_window fl)"
  obtain f1 where f1: "jb_skip_discarded fl False = Some (f1, ?k \<noteq> 0)" "jb_fl_ok f1"
    "fl_max_count f1 = fl_max_count fl" "fl_frame_size f1 = fl_frame_size fl"
    "jb_abs f1 = view_remove ?k (jb_abs fl)" "frame_type f1 ! head f1 \<noteq> JB_DISCARDED_FRAME"
    using skip_discarded_total [OF ok, of False] by auto
  have w: "jb_window f1 = drop ?k (jb_window fl)" "origin f1 = origin fl + int ?k"
    using f1(5) lead_discarded_le [of "jb_window fl"] by (simp_all add: jb_abs_def view_remove_def)
  have size1: "fl_size f1 = fl_size fl - ?k" using w(1) by (metis length_drop length_jb_window)
  show ?thesis
  proof (cases "fl_size f1 = 0")
    case True
    with False f1 size1 show ?thesis
      by (auto simp: jb_framelist_get_def view_get_def jb_abs_def Let_def)
  next
    case more: False
    obtain r out' where t: "jb_take_head f1 (?k \<noteq> 0) out = (r, out')" by (cases "jb_take_head f1 (?k \<noteq> 0) out")
    have k: "?k < length (jb_window fl)" using more size1 by simp
    have hd: "hd (jb_window f1) = jb_window fl ! ?k" using w(1) k by (simp add: hd_drop_conv_nth)
    have R: "jb_fl_ok r" "jb_abs r = view_remove 1 (jb_abs f1)"
      "fl_max_count r = fl_max_count fl" "fl_frame_size r = fl_frame_size fl"
      using take_head_refines [OF f1(2) more f1(6), of "?k \<noteq> 0" out] t f1(3,4) by simp_all
    have O: "get_reports ?k (jb_window fl ! ?k) (origin fl + int ?k) out'"
      using take_head_reports [OF f1(2) more f1(6), of out "?k \<noteq> 0"] buf f1(4) t hd w(2)
      by (auto simp: get_reports_def split: if_splits)
    have "view_get (jb_abs fl) = (True, view_remove (Suc ?k) (jb_abs fl))"
      using k by (simp add: view_get_def jb_abs_def)
    then show ?thesis
      using False more f1(1) t R O f1(5) by (auto simp: jb_framelist_get_def view_remove_add)
  qed
qed

section \<open>Discarding a frame in place\<close>

definition view_discard :: "jb_abs \<Rightarrow> int \<Rightarrow> jb_abs" where
  "view_discard a index = (fst a, (snd a)[nat (index - fst a) := VDiscarded])"

text \<open>
  Discarding keeps the invariant when the frame was not discarded before: the code does not
  test for that, and a second discard counts the same slot twice.
\<close>

lemma discard_refines:
  assumes ok: "jb_fl_ok fl" and "origin fl \<le> index" "index < origin fl + int (fl_size fl)"
    and nd: "jb_window fl ! nat (index - origin fl) \<noteq> VDiscarded"
  defines "r \<equiv> fst (jb_framelist_discard fl index)"
  shows "jb_fl_ok r" "jb_abs r = view_discard (jb_abs fl) index"
    "snd (jb_framelist_discard fl index) = PJ_SUCCESS"
    "fl_max_count r = fl_max_count fl" "fl_frame_size r = fl_frame_size fl"
proof -
  note D = jb_fl_okD [OF ok]
  let ?m = "fl_max_count fl"
  define d where "d = nat (index - origin fl)"
  have d: "d < fl_size fl" using assms(2,3) by (simp add: d_def)
  with D have dm: "d < ?m" by simp
  let ?p = "ring_pos (head fl) ?m d"
  have p: "?p < ?m" using D by simp
  have r: "jb_framelist_discard fl index =
      (fl\<lparr>frame_type := (frame_type fl)[?p := JB_DISCARDED_FRAME],
          discarded_num := discarded_num fl + 1\<rparr>, PJ_SUCCESS)"
    using assms(2,3) by (simp add: jb_framelist_discard_def ring_pos_int d_def)
  then show "snd (jb_framelist_discard fl index) = PJ_SUCCESS" "fl_max_count r = fl_max_count fl"
    "fl_frame_size r = fl_frame_size fl" by (simp_all add: r_def)
  have nd': "frame_type fl ! ?p \<noteq> JB_DISCARDED_FRAME" using nd d by (simp add: nth_jb_window flip: d_def)
  have "frame_type r ! ring_pos (head fl) ?m i = JB_MISSING_FRAME" if "i < ?m" "fl_size fl \<le> i" for i
    using jb_fl_ok_outside [OF ok that] that d dm D by (simp add: r_def r nth_list_update ring_pos_inj)
  moreover have "frame_type r ! k \<in> jb_stored_types" if "k < ?m" for k
    using jb_fl_ok_type [OF ok that] that D by (simp add: r_def r nth_list_update)
  moreover have "count_list (frame_type r) JB_DISCARDED_FRAME = Suc (discarded_num fl)"
    using count_list_update [of ?p "frame_type fl" JB_DISCARDED_FRAME JB_DISCARDED_FRAME] p D nd'
    by (simp add: r_def r)
  ultimately show "jb_fl_ok r" unfolding jb_fl_ok_def using D jb_fl_ok_len [OF ok] by (simp add: r_def r)
  show "jb_abs r = view_discard (jb_abs fl) index"
  proof -
    have "jb_window r = (jb_window fl)[d := VDiscarded]"
    proof (rule nth_equalityI)
      show "length (jb_window r) = length ((jb_window fl)[d := VDiscarded])" by (simp add: r_def r)
      fix i assume "i < length (jb_window r)"
      then have i: "i < fl_size fl" by (simp add: r_def r)
      then show "jb_window r ! i = (jb_window fl)[d := VDiscarded] ! i"
        using d dm D by (simp add: r_def r jb_window_def jb_view_at_def nth_list_update ring_pos_inj)
    qed
    then show ?thesis by (simp add: jb_abs_def view_discard_def d_def r_def r)
  qed
qed

section \<open>Peeking\<close>

definition live :: "jb_view list \<Rightarrow> nat" where
  "live vs = length (filter (\<lambda>v. v \<noteq> VDiscarded) vs)"

lemma live_simps [simp]:
  "live [] = 0" "live (v # vs) = (if v = VDiscarded then live vs else Suc (live vs))"
  "live (xs @ ys) = live xs + live ys"
  by (simp_all add: live_def)

text \<open>
  The search ends on the frame with exactly \<open>idx\<close> frames that are not discarded between the
  start of the search and it.
\<close>

lemma peek_pos_total:
  assumes ok: "jb_fl_ok fl"
  shows "j \<le> fl_size fl \<Longrightarrow> idx < live (drop j (jb_window fl)) \<Longrightarrow>
    \<exists>i. j \<le> i \<and> i < fl_size fl \<and>
      jb_peek_pos fl (ring_pos (head fl) (fl_max_count fl) j) idx =
        Some (ring_pos (head fl) (fl_max_count fl) i) \<and>
      jb_window fl ! i \<noteq> VDiscarded \<and>
      live (take i (jb_window fl)) = idx + live (take j (jb_window fl))"
proof (induction "fl_size fl - j" arbitrary: j idx)
  case 0
  then show ?case by simp
next
  case (Suc n)
  let ?p = "ring_pos (head fl) (fl_max_count fl)" and ?w = "jb_window fl"
  have j: "j < fl_size fl" and n: "n = fl_size fl - Suc j" using Suc.hyps(2) by simp_all
  have wj: "drop j ?w = ?w ! j # drop (Suc j) ?w" using j by (simp add: Cons_nth_drop_Suc)
  have tj: "take (Suc j) ?w = take j ?w @ [?w ! j]" using j by (simp add: take_Suc_conv_app_nth)
  have step: "(?p j + 1) mod fl_max_count fl = ?p (Suc j)"
    by (simp add: ring_pos_def mod_Suc_eq)
  have d: "frame_type fl ! ?p j = JB_DISCARDED_FRAME \<longleftrightarrow> ?w ! j = VDiscarded"
    using j by (simp add: nth_jb_window)
  consider "?w ! j = VDiscarded" | "?w ! j \<noteq> VDiscarded" "idx = 0" | "?w ! j \<noteq> VDiscarded" "idx \<noteq> 0"
    by blast
  then show ?case
  proof cases
    case 1
    then have "idx < live (drop (Suc j) ?w)" using Suc.prems(2) wj by simp
    from Suc.hyps(1) [OF n _ this] j obtain i where "Suc j \<le> i" "i < fl_size fl"
      "jb_peek_pos fl (?p (Suc j)) idx = Some (?p i)" "?w ! i \<noteq> VDiscarded"
      "live (take i ?w) = idx + live (take (Suc j) ?w)" by auto
    with 1 d step tj show ?thesis
      by (intro exI [of _ i]) (simp add: jb_peek_pos.simps [of fl "?p j"])
  next
    case 2
    with d j show ?thesis by (intro exI [of _ j]) (simp add: jb_peek_pos.simps [of fl "?p j"])
  next
    case 3
    then have "idx - 1 < live (drop (Suc j) ?w)" using Suc.prems(2) wj by auto
    from Suc.hyps(1) [OF n _ this] j obtain i where "Suc j \<le> i" "i < fl_size fl"
      "jb_peek_pos fl (?p (Suc j)) (idx - 1) = Some (?p i)" "?w ! i \<noteq> VDiscarded"
      "live (take i ?w) = idx - 1 + live (take (Suc j) ?w)" by auto
    with 3 d step tj show ?thesis
      by (intro exI [of _ i]) (simp add: jb_peek_pos.simps [of fl "?p j"])
  qed
qed

text \<open>
  \<open>peek\<close> finds the frame number \<open>offset\<close> among those not discarded.  The sequence number it
  reports is \<open>origin + offset\<close>, which is smaller than the frame's own by the number of
  discarded frames passed on the way.
\<close>

lemma peek_refines:
  assumes ok: "jb_fl_ok fl" and off: "offset < jb_framelist_eff_size fl"
  shows "\<exists>i out' p_off'. jb_framelist_peek fl offset p_off out = Some (True, p_off', out') \<and>
    i < fl_size fl \<and> jb_window fl ! i \<noteq> VDiscarded \<and> live (take i (jb_window fl)) = offset \<and>
    p_off' = set_out (ring_pos (head fl) (fl_max_count fl) i * fl_frame_size fl) p_off \<and>
    o_type out' = frame_type fl ! ring_pos (head fl) (fl_max_count fl) i \<and>
    o_seq out' = set_out (origin fl + int i - int (view_discarded (take i (jb_window fl)))) (o_seq out)"
proof -
  have "offset < live (drop 0 (jb_window fl))"
    using off eff_size_window [OF ok] by (simp add: live_def)
  with peek_pos_total [OF ok, of 0 offset] jb_fl_okD [OF ok]
  obtain i where i: "i < fl_size fl" "jb_window fl ! i \<noteq> VDiscarded"
    "jb_peek_pos fl (head fl) offset = Some (ring_pos (head fl) (fl_max_count fl) i)"
    "live (take i (jb_window fl)) = offset" by auto
  have "live (take i (jb_window fl)) + view_discarded (take i (jb_window fl)) = i"
    using sum_length_filter_compl [of "\<lambda>v. v = VDiscarded" "take i (jb_window fl)"] i(1)
    by (simp add: live_def view_discarded_def count_list_filter)
  with i have "int offset = int i - int (view_discarded (take i (jb_window fl)))" by linarith
  with i off show ?thesis
    by (intro exI [of _ i]) (simp add: jb_framelist_peek_def add_diff_eq)
qed

section \<open>The interface the jitter buffer relies on\<close>

text \<open>
  A frame store with an abstract window: \<open>put\<close> implements \<open>view_put_at\<close>, \<open>remove\<close>
  implements \<open>view_remove\<close>, and both keep the store's invariant and capacity.
\<close>

locale frame_window =
  fixes inv :: "'s \<Rightarrow> bool"
    and cap :: "'s \<Rightarrow> nat"
    and view :: "'s \<Rightarrow> jb_abs"
    and fits :: "'s \<Rightarrow> 'f \<Rightarrow> bool"
    and payload :: "'f \<Rightarrow> jb_view"
    and put :: "'s \<Rightarrow> int \<Rightarrow> 'f \<Rightarrow> 's \<times> pj_status"
    and remove :: "'s \<Rightarrow> nat \<Rightarrow> 's \<times> nat"
  assumes cap_pos: "inv s \<Longrightarrow> 0 < cap s"
    and within: "inv s \<Longrightarrow> length (snd (view s)) \<le> cap s"
    and put_law: "inv s \<Longrightarrow> fits s f \<Longrightarrow> put s i f = (s', st) \<Longrightarrow>
      inv s' \<and> cap s' = cap s \<and> fits s' f \<and>
      (view s', st) = view_put_at (cap s) (view s) i (payload f)"
    and remove_law: "inv s \<Longrightarrow> remove s n = (s', c) \<Longrightarrow>
      inv s' \<and> cap s' = cap s \<and> (fits s f \<longrightarrow> fits s' f) \<and> view s' = view_remove n (view s) \<and>
      c = min n (length (snd (view s)))"
begin

text \<open>A rejected store leaves a window that is too far behind, but within the drop-out limit.\<close>

lemma too_many:
  assumes "inv s" "fits s f" "put s i f = (s1, PJ_ETOOMANY)"
  shows "int (cap s) \<le> i - fst (view s1)" "i - fst (view s1) \<le> MAX_DROPOUT" "snd (view s1) = snd (view s)"
proof -
  have "(view s1, PJ_ETOOMANY) = view_put_at (cap s) (view s) i (payload f)"
    using put_law assms by blast
  then show "int (cap s) \<le> i - fst (view s1)" "i - fst (view s1) \<le> MAX_DROPOUT"
    "snd (view s1) = snd (view s)"
    by (auto simp: view_put_at_def Let_def split: prod.splits if_splits)
qed

text \<open>Removing the excess once is enough: the next store succeeds.\<close>

lemma room_made:
  assumes s: "inv s" "fits s f" and p: "put s i f = (s1, PJ_ETOOMANY)"
    and r: "remove s1 (nat (i - fst (view s1) - int (cap s1) + 1)) = (s2, c)"
    and p2: "put s2 i f = (s3, st)"
  shows "st = PJ_SUCCESS"
proof -
  have s1: "inv s1" "cap s1 = cap s" "fits s1 f" using put_law [OF s p] by simp_all
  note far = too_many [OF s p]
  define n where "n = nat (i - fst (view s1) - int (cap s1) + 1)"
  obtain org vs where v1: "view s1 = (org, vs)" by (cases "view s1")
  have n: "int n = i - org - int (cap s1) + 1" using far s1(2) by (simp add: n_def v1)
  have s2: "inv s2" "cap s2 = cap s1" "fits s2 f" "view s2 = view_remove n (org, vs)"
    using remove_law [OF s1(1) r, of f] s1(3) v1 by (simp_all add: n_def)
  have len: "length vs \<le> cap s1" using within [OF s1(1)] v1 by simp
  have eq: "view_put_at (cap s1) (view s2) i (payload f) = (view s3, st)"
    using put_law [OF s2(1,3) p2] s2(2) by simp
  show ?thesis
  proof (cases "n < length vs")
    case False
    with eq cap_pos [OF s1(1)] len far(1) v1 s1(2) show ?thesis
      unfolding s2(4) view_remove_def
      by (auto simp: view_put_at_def Let_def split: if_splits)
  next
    case True
    then have "view s2 = (i - int (cap s1) + 1, drop n vs)" and "drop n vs \<noteq> []"
      using n by (simp_all add: s2(4) view_remove_def)
    with eq cap_pos [OF s1(1)] len n True far(1) v1 s1(2) show ?thesis
      by (auto simp: view_put_at_def Let_def split: if_splits)
  qed
qed

end

text \<open>The frame list implements the interface; a frame is its bytes, length, bit info, timestamp.\<close>

type_synonym jb_frame = "u8 list \<times> nat \<times> u32 \<times> u32"

definition jb_frame_fits :: "jb_framelist \<Rightarrow> jb_frame \<Rightarrow> bool" where
  "jb_frame_fits fl f = (case f of (frame, sz, _, _) \<Rightarrow> sz \<le> fl_frame_size fl \<and> sz \<le> length frame)"

definition jb_frame_view :: "jb_frame \<Rightarrow> jb_view" where
  "jb_frame_view f = (case f of (frame, sz, bits, stamp) \<Rightarrow> VFrame (take sz frame) bits stamp)"

definition jb_put_normal :: "jb_framelist \<Rightarrow> int \<Rightarrow> jb_frame \<Rightarrow> jb_framelist \<times> pj_status" where
  "jb_put_normal fl index f =
     (case f of (frame, sz, bits, stamp) \<Rightarrow>
        jb_framelist_put_at fl index frame sz bits stamp JB_NORMAL_FRAME)"

interpretation fw: frame_window jb_fl_ok fl_max_count jb_abs jb_frame_fits jb_frame_view
  jb_put_normal jb_framelist_remove_head
proof unfold_locales
  fix fl assume "jb_fl_ok fl"
  then show "0 < fl_max_count fl" "length (snd (jb_abs fl)) \<le> fl_max_count fl"
    by (simp_all add: jb_fl_okD jb_abs_def)
next
  fix fl f i fl' st
  assume ok: "jb_fl_ok fl" and fit: "jb_frame_fits fl f" and put: "jb_put_normal fl i f = (fl', st)"
  obtain frame sz bits stamp where f: "f = (frame, sz, bits, stamp)" by (cases f)
  from put_at_refines [OF ok, of sz frame i bits stamp fl' st] fit put
  show "jb_fl_ok fl' \<and> fl_max_count fl' = fl_max_count fl \<and> jb_frame_fits fl' f \<and>
      (jb_abs fl', st) = view_put_at (fl_max_count fl) (jb_abs fl) i (jb_frame_view f)"
    by (simp add: f jb_frame_fits_def jb_put_normal_def jb_frame_view_def)
next
  fix fl n fl' c f
  assume ok: "jb_fl_ok fl" and r: "jb_framelist_remove_head fl n = (fl', c)"
  from r have fl': "fl' = fst (jb_framelist_remove_head fl n)" by simp
  have "c = min n (length (snd (jb_abs fl)))"
    using remove_head_facts(1) [OF ok, where n = n] r by (simp add: jb_abs_def)
  moreover have "jb_frame_fits fl f \<longrightarrow> jb_frame_fits fl' f"
    unfolding fl' jb_frame_fits_def remove_head_same(1) [OF ok] by blast
  ultimately show "jb_fl_ok fl' \<and> fl_max_count fl' = fl_max_count fl \<and>
      (jb_frame_fits fl f \<longrightarrow> jb_frame_fits fl' f) \<and> jb_abs fl' = view_remove n (jb_abs fl) \<and>
      c = min n (length (snd (jb_abs fl)))"
    unfolding fl' using remove_head_ok [OF ok, of n] jb_abs_remove_head [OF ok, of n]
      remove_head_same(2) [OF ok, of n] by blast
qed

section \<open>Properties\<close>

text \<open>A small frame list for the witnesses: three slots of two bytes.\<close>

definition ex_fl :: jb_framelist where
  "ex_fl = jb_framelist_init 2 3 (replicate 6 0) (replicate 3 JB_MISSING_FRAME)
     (replicate 3 0) (replicate 3 0) (replicate 3 0)"

lemma ex_fl_ok: "jb_fl_ok ex_fl"
  unfolding ex_fl_def jb_framelist_init_def by (rule reset_ok_of_lengths) simp_all

lemma ex_fl_simps [simp]: "fl_max_count ex_fl = 3" "fl_frame_size ex_fl = 2" "jb_window ex_fl = []"
  "fl_size ex_fl = 0" "origin ex_fl = INVALID_OFFSET"
  by (simp_all add: ex_fl_def jb_framelist_init_def)

text \<open>
  C24: \<open>jb_framelist_put_at\<close> keeps the frame list well formed and does to the window exactly what
  \<open>view_put_at\<close> says, on every branch: a frame behind the origin by less than 100 is too late, one
  further behind restarts the sequence, a jump beyond the capacity is rejected up to 3000 and resets
  the buffer above, an occupied slot is a duplicate, and otherwise the frame is stored with its
  bytes, bit info and timestamp and no other frame of the window changes.
\<close>

theorem put_at_correct:
  assumes "jb_fl_ok fl" and "sz \<le> fl_frame_size fl" and "sz \<le> length frame"
    and "jb_framelist_put_at fl index frame sz bits stamp JB_NORMAL_FRAME = (r, st)"
  shows "jb_fl_ok r \<and>
    (jb_abs r, st) =
      view_put_at (fl_max_count fl) (jb_abs fl) index (VFrame (take sz frame) bits stamp)"
  using put_at_refines [OF assms] by simp

theorem put_at_correct_witness:
  "\<exists>r st. jb_framelist_put_at ex_fl 7 [1, 2] 2 5 9 JB_NORMAL_FRAME = (r, st) \<and> jb_fl_ok r \<and>
     (jb_abs r, st) = ((7, [VFrame [1, 2] 5 9]), PJ_SUCCESS)"
proof -
  obtain r st where p: "jb_framelist_put_at ex_fl 7 [1, 2] 2 5 9 JB_NORMAL_FRAME = (r, st)"
    by (cases "jb_framelist_put_at ex_fl 7 [1, 2] 2 5 9 JB_NORMAL_FRAME")
  from put_at_correct [OF ex_fl_ok _ _ p]
  have "jb_fl_ok r" "(jb_abs r, st) = view_put_at 3 (jb_abs ex_fl) 7 (VFrame [1, 2] 5 9)" by simp_all
  then show ?thesis using p
    by (simp add: view_put_at_def jb_abs_def view_put_def INVALID_OFFSET_def)
qed

text \<open>
  C25: \<open>jb_framelist_get\<close> always returns (its loop over discarded frames ends).  It removes the
  leading discarded frames and the frame after them, keeps the frame list well formed, and reports:
  a missing frame if the slot is missing or a discarded frame was passed; otherwise the stored
  bytes, length, bit info, timestamp and the frame's own sequence number; on an empty buffer it
  clears the caller's frame.
\<close>

theorem get_correct:
  assumes "jb_fl_ok fl" and "fl_frame_size fl \<le> length (o_frame out)"
  shows "\<exists>res r out'. jb_framelist_get fl out = Some (res, r, out') \<and> jb_fl_ok r \<and>
    (res, jb_abs r) = view_get (jb_abs fl) \<and>
    (let k = lead_discarded (jb_window fl)
     in if res then get_reports k (jb_window fl ! k) (origin fl + int k) out'
        else out' = out\<lparr>o_frame := mem_set (o_frame out) 0 (fl_frame_size fl) 0\<rparr>)"
  using get_refines [OF assms] by blast

definition ex_out :: jb_out where
  "ex_out = \<lparr>o_frame = [8, 8], o_size = Some 0, o_type = JB_MISSING_FRAME, o_bit_info = None,
     o_ts = None, o_seq = Some 0\<rparr>"

theorem get_correct_witness:
  "\<exists>r out'. jb_framelist_get ex_fl ex_out = Some (False, r, out') \<and> jb_fl_ok r"
proof -
  have "fl_frame_size ex_fl \<le> length (o_frame ex_out)" by (simp add: ex_out_def)
  from get_correct [OF ex_fl_ok this] show ?thesis by (auto simp: view_get_def jb_abs_def)
qed

text \<open>
  a frame stored in an empty frame list comes back from the next \<open>get\<close>: as a normal frame with
  the same bytes, length, bit info, timestamp and sequence number, leaving the list empty.
\<close>

theorem put_get_roundtrip:
  assumes ok: "jb_fl_ok fl" and empty: "fl_size fl = 0" and new: "origin fl \<le> index"
    and sz: "sz \<le> fl_frame_size fl" "sz \<le> length frame"
    and buf: "fl_frame_size fl \<le> length (o_frame out)"
  shows "\<exists>r out'. jb_framelist_get (fst (jb_framelist_put_at fl index frame sz bits stamp JB_NORMAL_FRAME)) out
      = Some (True, r, out') \<and> fl_size r = 0 \<and> o_type out' = JB_NORMAL_FRAME \<and>
    take sz (o_frame out') = take sz frame \<and> o_size out' \<in> {None, Some sz} \<and>
    o_bit_info out' \<in> {None, Some bits} \<and> o_ts out' \<in> {None, Some stamp} \<and>
    o_seq out' \<in> {None, Some index}"
proof -
  obtain fl1 st where p: "jb_framelist_put_at fl index frame sz bits stamp JB_NORMAL_FRAME = (fl1, st)"
    by (cases "jb_framelist_put_at fl index frame sz bits stamp JB_NORMAL_FRAME")
  note R = put_at_refines [OF ok sz p]
  have a: "jb_abs fl1 = (index, [VFrame (take sz frame) bits stamp])"
    using R empty new jb_fl_okD(1) [OF ok]
    by (auto simp: view_put_at_def jb_abs_def jb_window_def view_put_def)
  have ok1: "jb_fl_ok fl1" and b1: "fl_frame_size fl1 \<le> length (o_frame out)" using R buf by simp_all
  obtain res r out' where g: "jb_framelist_get fl1 out = Some (res, r, out')"
    "(res, jb_abs r) = view_get (jb_abs fl1)"
    "let k = lead_discarded (jb_window fl1)
     in if res then get_reports k (jb_window fl1 ! k) (origin fl1 + int k) out'
        else out' = out\<lparr>o_frame := mem_set (o_frame out) 0 (fl_frame_size fl1) 0\<rparr>"
    using get_refines [OF ok1 b1] by blast
  have w: "jb_window fl1 = [VFrame (take sz frame) bits stamp]" "origin fl1 = index"
    using a by (simp_all add: jb_abs_def)
  have "(res, jb_abs r) = (True, (index + 1, []))"
    using g(2) unfolding a by (simp add: view_get_def view_remove_def)
  then have "res" "jb_window r = []" by (simp_all add: jb_abs_def)
  then have "fl_size r = 0" by (metis length_jb_window list.size(3))
  moreover have "get_reports 0 (VFrame (take sz frame) bits stamp) index out'"
    using g(3) w \<open>res\<close> by simp
  ultimately show ?thesis
    using g(1) \<open>res\<close> sz p unfolding get_reports_def
    by (cases "o_size out'"; cases "o_bit_info out'"; cases "o_ts out'"; cases "o_seq out'") auto
qed

theorem put_get_roundtrip_witness:
  "\<exists>r out'. jb_framelist_get (fst (jb_framelist_put_at ex_fl 7 [1, 2] 2 5 9 JB_NORMAL_FRAME)) ex_out
     = Some (True, r, out') \<and> fl_size r = 0 \<and> o_type out' = JB_NORMAL_FRAME \<and>
     take 2 (o_frame out') = [1, 2]"
proof -
  have "fl_frame_size ex_fl \<le> length (o_frame ex_out)" by (simp add: ex_out_def)
  from put_get_roundtrip [OF ex_fl_ok _ _ _ _ this, of 7 2 "[1, 2]" 5 9]
  show ?thesis by (auto simp: INVALID_OFFSET_def)
qed

text \<open>
  \<open>jb_framelist_remove_head\<close>, which clears its slots in two steps when the range wraps around
  the end of the arrays, removes exactly the \<open>min n size\<close> oldest frames: the window loses its first
  \<open>n\<close> entries, the others and their order are untouched, the origin advances by the number
  removed, and the list of discarded frames stays counted.
\<close>

theorem remove_head_correct:
  assumes "jb_fl_ok fl"
  shows "jb_fl_ok (fst (jb_framelist_remove_head fl n)) \<and>
    snd (jb_framelist_remove_head fl n) = min n (fl_size fl) \<and>
    jb_window (fst (jb_framelist_remove_head fl n)) = drop n (jb_window fl) \<and>
    origin (fst (jb_framelist_remove_head fl n)) = origin fl + int (min n (fl_size fl))"
  using remove_head_ok [OF assms] remove_head_window [OF assms]
    remove_head_facts(1,3) [OF assms, where n = n] by simp

theorem remove_head_correct_witness:
  "jb_fl_ok (fst (jb_framelist_remove_head ex_fl 2)) \<and> snd (jb_framelist_remove_head ex_fl 2) = 0"
  using remove_head_correct [OF ex_fl_ok, of 2] by simp

text \<open>
  \<open>jb_framelist_peek\<close> returns for every offset below the effective size, and finds the frame
  with exactly \<open>offset\<close> frames before it that are not discarded.  The sequence number it reports is
  too small by the number of discarded frames passed: the code adds \<open>offset\<close> to the origin, not the
  frame's distance.
\<close>

theorem peek_correct:
  assumes "jb_fl_ok fl" and "offset < jb_framelist_eff_size fl"
  shows "\<exists>i out' p_off'. jb_framelist_peek fl offset p_off out = Some (True, p_off', out') \<and>
    i < fl_size fl \<and> jb_window fl ! i \<noteq> VDiscarded \<and> live (take i (jb_window fl)) = offset \<and>
    o_type out' = frame_type fl ! ring_pos (head fl) (fl_max_count fl) i \<and>
    o_seq out' = set_out (origin fl + int i - int (view_discarded (take i (jb_window fl)))) (o_seq out)"
  using peek_refines [OF assms] by blast

definition ex_fl2 :: jb_framelist where
  "ex_fl2 = fst (jb_framelist_discard
     (fst (jb_framelist_put_at (fst (jb_framelist_put_at ex_fl 7 [1, 2] 2 5 9 JB_NORMAL_FRAME))
        8 [3, 4] 2 5 9 JB_NORMAL_FRAME)) 7)"

lemma ex_fl2_ok: "jb_fl_ok ex_fl2" "jb_abs ex_fl2 = (7, [VDiscarded, VFrame [3, 4] 5 9])"
proof -
  obtain f1 s1 where p1: "jb_framelist_put_at ex_fl 7 [1, 2] 2 5 9 JB_NORMAL_FRAME = (f1, s1)"
    by (cases "jb_framelist_put_at ex_fl 7 [1, 2] 2 5 9 JB_NORMAL_FRAME")
  from put_at_refines [OF ex_fl_ok _ _ p1] have 1: "jb_fl_ok f1" "fl_max_count f1 = 3"
    "fl_frame_size f1 = 2" "jb_abs f1 = (7, [VFrame [1, 2] 5 9])"
    by (simp_all add: view_put_at_def jb_abs_def view_put_def INVALID_OFFSET_def)
  obtain f2 s2 where p2: "jb_framelist_put_at f1 8 [3, 4] 2 5 9 JB_NORMAL_FRAME = (f2, s2)"
    by (cases "jb_framelist_put_at f1 8 [3, 4] 2 5 9 JB_NORMAL_FRAME")
  from put_at_refines [OF 1(1) _ _ p2] 1 have 2: "jb_fl_ok f2"
    "jb_abs f2 = (7, [VFrame [1, 2] 5 9, VFrame [3, 4] 5 9])"
    by (simp_all add: view_put_at_def view_put_def)
  have w: "origin f2 = 7" "jb_window f2 = [VFrame [1, 2] 5 9, VFrame [3, 4] 5 9]"
    using 2(2) by (simp_all add: jb_abs_def)
  have "fl_size f2 = 2" using w(2) by (metis length_jb_window length_Cons list.size(3) numeral_2_eq_2)
  from discard_refines(1,2) [OF 2(1), of 7] w this p1 p2
  show "jb_fl_ok ex_fl2" "jb_abs ex_fl2 = (7, [VDiscarded, VFrame [3, 4] 5 9])"
    by (simp_all add: ex_fl2_def view_discard_def jb_abs_def)
qed

theorem peek_correct_witness:
  "\<exists>out' p. jb_framelist_peek ex_fl2 0 None ex_out = Some (True, p, out') \<and> o_seq out' = Some 7"
proof -
  have w: "origin ex_fl2 = 7" "jb_window ex_fl2 = [VDiscarded, VFrame [3, 4] 5 9]"
    using ex_fl2_ok(2) by (simp_all add: jb_abs_def)
  have "0 < jb_framelist_eff_size ex_fl2" using eff_size_window [OF ex_fl2_ok(1)] w by simp
  from peek_correct [OF ex_fl2_ok(1) this, of None ex_out] w obtain i out' p where
    "jb_framelist_peek ex_fl2 0 None ex_out = Some (True, p, out')"
    "i < fl_size ex_fl2" "jb_window ex_fl2 ! i \<noteq> VDiscarded"
    "o_seq out' = set_out (7 + int i - int (view_discarded (take i (jb_window ex_fl2)))) (o_seq ex_out)"
    by auto
  moreover have "fl_size ex_fl2 = 2"
    using w(2) by (metis length_jb_window length_Cons list.size(3) numeral_2_eq_2)
  moreover have "i = 1" using calculation w by (cases i) (auto simp: less_2_cases_iff)
  ultimately show ?thesis using w by (simp add: ex_out_def view_discarded_def)
qed

end
