(* ===== verification/Jbuf.thy ===== *)
theory Jbuf
  imports Jb_framelist "HOL-Library.Signed_Division"
begin

text \<open>
  The adaptive jitter buffer (\<open>struct pjmedia_jbuf\<close> of \<open>pjmedia/src/pjmedia/jbuf.c\<close>): a frame
  list, the prefetch and burst-level state, the two discard algorithms and the statistics.
  \<open>jb_name\<close> is only used in log messages and left out, as are the log messages.
  \<open>pj_math_stat\<close> is the integer version of \<open>pj/math.h\<close>: the repository's configuration
  (\<open>config_site_sample.h\<close>, \<open>m_auto.h\<close>) has \<open>PJ_HAS_FLOATING_POINT\<close> 0.
\<close>

section \<open>Statistics\<close>

record pj_math_stat =
  st_n :: int
  st_max :: int
  st_min :: int
  st_last :: int
  st_mean :: int
  st_mean_res :: int
  st_m2 :: int

definition pj_math_stat_init :: pj_math_stat where
  "pj_math_stat_init = \<lparr>st_n = 0, st_max = 0, st_min = 0, st_last = 0, st_mean = 0,
     st_mean_res = 0, st_m2 = 0\<rparr>"

text \<open>\<open>stat->n++\<close> tests the old count and increments it in both branches.\<close>

definition pj_math_stat_update :: "pj_math_stat \<Rightarrow> int \<Rightarrow> pj_math_stat" where
  "pj_math_stat_update s val =
     (let s1 = s\<lparr>st_last := val\<rparr>;
          s2 = (if st_n s1 \<noteq> 0
                then s1\<lparr>st_min := (if st_min s1 > val then val else st_min s1),
                        st_max := (if st_max s1 < val then val else st_max s1)\<rparr>
                else s1\<lparr>st_min := val, st_max := val\<rparr>);
          s3 = s2\<lparr>st_n := st_n s2 + 1\<rparr>;
          delta = val - st_mean s3;
          s4 = s3\<lparr>st_mean := st_mean s3 + delta sdiv st_n s3,
                  st_mean_res := st_mean_res s3 + delta smod st_n s3\<rparr>;
          s5 = (if st_mean_res s4 \<ge> st_n s4
                then s4\<lparr>st_mean := st_mean s4 + 1, st_mean_res := st_mean_res s4 - st_n s4\<rparr>
                else if st_mean_res s4 \<le> - st_n s4
                then s4\<lparr>st_mean := st_mean s4 - 1, st_mean_res := st_mean_res s4 + st_n s4\<rparr>
                else s4)
      in s5\<lparr>st_m2 := st_m2 s5 + delta * (val - st_mean s5)\<rparr>)"

section \<open>State\<close>

datatype jb_discard_algo = JB_DISCARD_NONE | JB_DISCARD_STATIC | JB_DISCARD_PROGRESSIVE
datatype jb_op = JB_OP_INIT | JB_OP_PUT | JB_OP_GET
datatype jb_status = JB_STATUS_INITIALIZING | JB_STATUS_PROCESSING

definition MAX_BURST_MSEC :: nat where "MAX_BURST_MSEC = 1000"
definition INIT_CYCLE :: int where "INIT_CYCLE = 10"
definition STA_DISC_SAFE_SHRINKING_DIFF :: int where "STA_DISC_SAFE_SHRINKING_DIFF = 1"
definition JB_DEFAULT_INIT_DELAY :: nat where "JB_DEFAULT_INIT_DELAY = 15"
definition JBUF_DISC_MIN_GAP :: nat where "JBUF_DISC_MIN_GAP = 200"
definition JBUF_PRO_DISC_MIN_BURST :: nat where "JBUF_PRO_DISC_MIN_BURST = 1"
definition JBUF_PRO_DISC_MAX_BURST :: nat where "JBUF_PRO_DISC_MAX_BURST = 100"
definition JBUF_PRO_DISC_T1 :: nat where "JBUF_PRO_DISC_T1 = 2000"
definition JBUF_PRO_DISC_T2 :: nat where "JBUF_PRO_DISC_T2 = 10000"
definition STABLE_HISTORY_LIMIT :: int where "STABLE_HISTORY_LIMIT = 20"

record pjmedia_jbuf =
  jb_frame_size :: nat
  jb_frame_ptime :: nat
  jb_max_count :: nat
  jb_init_prefetch :: int
  jb_min_prefetch :: int
  jb_max_prefetch :: int
  jb_max_burst :: int
  jb_min_shrink_gap :: int
  jb_algo :: jb_discard_algo
  jb_framelist :: jb_framelist
  jb_level :: int
  jb_max_hist_level :: int
  jb_stable_hist :: int
  jb_last_op :: jb_op
  jb_eff_level :: int
  jb_prefetch :: int
  jb_prefetching :: bool
  jb_status :: jb_status
  jb_init_cycle_cnt :: int
  jb_discard_ref :: int
  jb_discard_dist :: nat
  jb_delay :: pj_math_stat
  jb_burst :: pj_math_stat
  jb_lost :: nat
  jb_discard :: nat
  jb_empty :: nat

section \<open>Creation and configuration\<close>

definition pjmedia_jbuf_reset :: "pjmedia_jbuf \<Rightarrow> pjmedia_jbuf" where
  "pjmedia_jbuf_reset jb = jb\<lparr>jb_level := 0, jb_last_op := JB_OP_INIT, jb_stable_hist := 0,
     jb_status := JB_STATUS_INITIALIZING, jb_init_cycle_cnt := 0, jb_max_hist_level := 0,
     jb_prefetching := (jb_prefetch jb \<noteq> 0), jb_discard_dist := 0,
     jb_framelist := jb_framelist_reset (jb_framelist jb)\<rparr>"

definition pjmedia_jbuf_set_discard ::
  "pjmedia_jbuf \<Rightarrow> jb_discard_algo \<Rightarrow> pjmedia_jbuf \<times> pj_status" where
  "pjmedia_jbuf_set_discard jb algo = (jb\<lparr>jb_algo := algo\<rparr>, PJ_SUCCESS)"

text \<open>The frame list of the new buffer is the argument, as \<open>jb_framelist_init\<close> left it.\<close>

definition pjmedia_jbuf_create :: "jb_framelist \<Rightarrow> nat \<Rightarrow> nat \<Rightarrow> nat \<Rightarrow> pjmedia_jbuf" where
  "pjmedia_jbuf_create fl frame_sz ptime max_cnt =
     (let jb = \<lparr>jb_frame_size = frame_sz, jb_frame_ptime = ptime, jb_max_count = max_cnt,
            jb_init_prefetch = 0, jb_min_prefetch = 0,
            jb_max_prefetch = int (max_cnt * 4 div 5),
            jb_max_burst = int (max (MAX_BURST_MSEC div ptime) (max_cnt * 3 div 4)),
            jb_min_shrink_gap = int (JBUF_DISC_MIN_GAP div ptime),
            jb_algo = JB_DISCARD_NONE, jb_framelist = fl,
            jb_level = 0, jb_max_hist_level = 0, jb_stable_hist = 0, jb_last_op = JB_OP_INIT,
            jb_eff_level = 0, jb_prefetch = int (min JB_DEFAULT_INIT_DELAY (max_cnt * 4 div 5)),
            jb_prefetching = False, jb_status = JB_STATUS_INITIALIZING, jb_init_cycle_cnt = 0,
            jb_discard_ref = 0, jb_discard_dist = 0,
            jb_delay = pj_math_stat_init, jb_burst = pj_math_stat_init,
            jb_lost = 0, jb_discard = 0, jb_empty = 0\<rparr>
      in pjmedia_jbuf_reset (fst (pjmedia_jbuf_set_discard jb JB_DISCARD_PROGRESSIVE)))"

definition pjmedia_jbuf_set_fixed :: "pjmedia_jbuf \<Rightarrow> nat \<Rightarrow> pjmedia_jbuf \<times> pj_status" where
  "pjmedia_jbuf_set_fixed jb prefetch =
     (if \<not> prefetch \<le> jb_max_count jb then (jb, PJ_EINVAL)
      else (jb\<lparr>jb_min_prefetch := int prefetch, jb_max_prefetch := int prefetch,
               jb_prefetch := int prefetch, jb_init_prefetch := int prefetch\<rparr>, PJ_SUCCESS))"

definition pjmedia_jbuf_set_adaptive ::
  "pjmedia_jbuf \<Rightarrow> nat \<Rightarrow> nat \<Rightarrow> nat \<Rightarrow> pjmedia_jbuf \<times> pj_status" where
  "pjmedia_jbuf_set_adaptive jb prefetch min_prefetch max_prefetch =
     (if \<not> (min_prefetch \<le> max_prefetch \<and> prefetch \<le> max_prefetch \<and> max_prefetch \<le> jb_max_count jb)
      then (jb, PJ_EINVAL)
      else (jb\<lparr>jb_prefetch := int prefetch, jb_init_prefetch := int prefetch,
               jb_min_prefetch := int min_prefetch, jb_max_prefetch := int max_prefetch\<rparr>,
            PJ_SUCCESS))"

definition pjmedia_jbuf_destroy :: "pjmedia_jbuf \<Rightarrow> pj_status" where
  "pjmedia_jbuf_destroy jb = snd (jb_framelist_destroy (jb_framelist jb))"

definition pjmedia_jbuf_is_full :: "pjmedia_jbuf \<Rightarrow> bool" where
  "pjmedia_jbuf_is_full jb \<longleftrightarrow> fl_size (jb_framelist jb) = fl_max_count (jb_framelist jb)"

section \<open>Burst level and prefetch adaptation\<close>

definition jbuf_calculate_jitter :: "pjmedia_jbuf \<Rightarrow> pjmedia_jbuf" where
  "jbuf_calculate_jitter jb0 =
     (let jb = jb0\<lparr>jb_burst := pj_math_stat_update (jb_burst jb0) (jb_level jb0),
                   jb_max_hist_level := max (jb_max_hist_level jb0) (jb_level jb0)\<rparr>
      in if jb_level jb < jb_eff_level jb then
           let jb1 = jb\<lparr>jb_stable_hist := jb_stable_hist jb + 1\<rparr>
           in if jb_stable_hist jb1 > STABLE_HISTORY_LIMIT then
                let diff0 = (jb_eff_level jb1 - jb_max_hist_level jb1) sdiv 3;
                    diff = (if diff0 < 1 then 1 else diff0);
                    jb2 = jb1\<lparr>jb_eff_level := jb_eff_level jb1 - diff\<rparr>;
                    jb3 = (if jb_init_prefetch jb2 \<noteq> 0
                           then jb2\<lparr>jb_prefetch := (if jb_eff_level jb2 < jb_min_prefetch jb2
                                                   then jb_min_prefetch jb2
                                                   else jb_eff_level jb2)\<rparr>
                           else jb2)
                in jb3\<lparr>jb_max_hist_level := 0, jb_stable_hist := 0\<rparr>
              else jb1
         else if jb_level jb > jb_eff_level jb then
           let jb1 = jb\<lparr>jb_eff_level := min (jb_max_hist_level jb) (int (jb_max_count jb * 4 div 5))\<rparr>;
               jb2 = (if jb_init_prefetch jb1 \<noteq> 0
                      then jb1\<lparr>jb_prefetch := (if jb_eff_level jb1 > jb_max_prefetch jb1
                                              then jb_max_prefetch jb1
                                              else jb_eff_level jb1)\<rparr>
                      else jb1)
           in jb2\<lparr>jb_stable_hist := 0\<rparr>
         else jb\<lparr>jb_stable_hist := 0\<rparr>)"

section \<open>Discard algorithms\<close>

definition jbuf_discard_static :: "pjmedia_jbuf \<Rightarrow> pjmedia_jbuf" where
  "jbuf_discard_static jb =
     (let burst_level = max (jb_eff_level jb) (jb_level jb);
          diff = int (jb_framelist_eff_size (jb_framelist jb)) - burst_level * 2
      in if diff \<ge> STA_DISC_SAFE_SHRINKING_DIFF then
           let seq_origin = jb_framelist_origin (jb_framelist jb);
               jb1 = (if seq_origin < jb_discard_ref jb then jb\<lparr>jb_discard_ref := seq_origin\<rparr> else jb)
           in if seq_origin - jb_discard_ref jb1 \<ge> jb_min_shrink_gap jb1 then
                (case jb_framelist_remove_head (jb_framelist jb1) 1 of (fl, removed) \<Rightarrow>
                   jb1\<lparr>jb_framelist := fl, jb_discard_ref := jb_framelist_origin fl,
                       jb_discard := jb_discard jb1 + removed\<rparr>)
              else jb1
         else jb)"

definition u32_of_int :: "int \<Rightarrow> nat" where
  "u32_of_int x = nat (x mod 2 ^ 32)"

definition pro_disc_T :: "nat \<Rightarrow> nat" where
  "pro_disc_T burst_level =
     (if burst_level \<le> JBUF_PRO_DISC_MIN_BURST then JBUF_PRO_DISC_T1
      else if burst_level \<ge> JBUF_PRO_DISC_MAX_BURST then JBUF_PRO_DISC_T2
      else JBUF_PRO_DISC_T1 + (JBUF_PRO_DISC_T2 - JBUF_PRO_DISC_T1) *
             (burst_level - JBUF_PRO_DISC_MIN_BURST) div
             (JBUF_PRO_DISC_MAX_BURST - JBUF_PRO_DISC_MIN_BURST))"

definition jbuf_discard_progressive :: "pjmedia_jbuf \<Rightarrow> pjmedia_jbuf" where
  "jbuf_discard_progressive jb =
     (if jb_last_op jb \<noteq> JB_OP_PUT then jb
      else
        let fl = jb_framelist jb;
            cur_size = jb_framelist_eff_size fl;
            burst_level = u32_of_int (max (jb_eff_level jb) (jb_level jb))
        in if cur_size \<le> burst_level then jb\<lparr>jb_discard_dist := 0\<rparr>
           else
             let overflow = cur_size - burst_level;
                 discard_dist = pro_disc_T burst_level div overflow div jb_frame_ptime jb;
                 last_seq = jb_framelist_origin fl + int (jb_framelist_size fl) - 1;
                 ref = (if jb_discard_dist jb = 0 then last_seq
                        else if last_seq < jb_discard_ref jb then last_seq
                        else jb_discard_ref jb);
                 dist = nat (max (jb_min_shrink_gap jb) (int discard_dist));
                 jb1 = jb\<lparr>jb_discard_ref := ref, jb_discard_dist := dist\<rparr>
             in if last_seq \<ge> ref + int dist then
                  let seq0 = ref + int dist;
                      discard_seq = (if seq0 < jb_framelist_origin fl then jb_framelist_origin fl
                                     else seq0)
                  in jb1\<lparr>jb_framelist := fst (jb_framelist_discard fl discard_seq),
                         jb_discard_ref := discard_seq\<rparr>
                else jb1)"

definition jbuf_run_discard :: "pjmedia_jbuf \<Rightarrow> pjmedia_jbuf" where
  "jbuf_run_discard jb =
     (if jb_status jb = JB_STATUS_PROCESSING
      then (case jb_algo jb of
              JB_DISCARD_NONE \<Rightarrow> jb
            | JB_DISCARD_STATIC \<Rightarrow> jbuf_discard_static jb
            | JB_DISCARD_PROGRESSIVE \<Rightarrow> jbuf_discard_progressive jb)
      else jb)"

text \<open>\<open>jbuf_update\<close>: the early return of the initialising phase skips the discard algorithm.\<close>

definition jbuf_update :: "pjmedia_jbuf \<Rightarrow> jb_op \<Rightarrow> pjmedia_jbuf" where
  "jbuf_update jb oper =
     (if jb_last_op jb = oper then jbuf_run_discard jb
      else
        let jb1 = jb\<lparr>jb_last_op := oper\<rparr>;
            init = (jb_status jb1 = JB_STATUS_INITIALIZING);
            jb2 = (if init then jb1\<lparr>jb_init_cycle_cnt := jb_init_cycle_cnt jb1 + 1\<rparr> else jb1);
            switch = (init \<and> jb_init_cycle_cnt jb2 \<ge> INIT_CYCLE \<and> oper = JB_OP_GET)
        in if init \<and> \<not> switch then jb2\<lparr>jb_level := 0\<rparr>
           else
             let jb3 = (if switch then jb2\<lparr>jb_status := JB_STATUS_PROCESSING,
                                           jb_level := min (jb_level jb2) (jb_max_burst jb2)\<rparr>
                        else jb2);
                 jb4 = (if oper = JB_OP_GET \<and> jb_level jb3 \<le> jb_max_burst jb3
                        then jbuf_calculate_jitter jb3 else jb3)
             in jbuf_run_discard (jb4\<lparr>jb_level := 0\<rparr>))"

section \<open>Putting a frame\<close>

text \<open>
  The loop that makes room: while the frame list answers \<open>PJ_ETOOMANY\<close>, old frames are
  removed and the store is tried again.  \<open>None\<close> is a loop that never ends.  The counter is
  \<open>jb_discard\<close>.
\<close>

partial_function (option) jb_put_retry ::
  "nat \<Rightarrow> int \<Rightarrow> u8 list \<Rightarrow> nat \<Rightarrow> u32 \<Rightarrow> u32 \<Rightarrow> jb_framelist \<Rightarrow> pj_status \<Rightarrow> nat \<Rightarrow>
   (jb_framelist \<times> pj_status \<times> nat) option" where
  "jb_put_retry max_cnt frame_seq frame sz bits stamp fl status discards =
     (if status = PJ_ETOOMANY then
        let distance = (frame_seq - jb_framelist_origin fl) - int max_cnt + 1;
            rm = jb_framelist_remove_head fl (u32_of_int distance);
            put = jb_framelist_put_at (fst rm) frame_seq frame sz bits stamp JB_NORMAL_FRAME
        in jb_put_retry max_cnt frame_seq frame sz bits stamp (fst put) (snd put) (discards + snd rm)
      else Some (fl, status, discards))"

declare jb_put_retry.simps [code]

definition pjmedia_jbuf_put_frame3 ::
  "pjmedia_jbuf \<Rightarrow> u8 list \<Rightarrow> nat \<Rightarrow> u32 \<Rightarrow> int \<Rightarrow> u32 \<Rightarrow> bool option \<Rightarrow>
   (pjmedia_jbuf \<times> bool option) option" where
  "pjmedia_jbuf_put_frame3 jb frame frame_sz bits frame_seq stamp discarded =
     (let cur_size = int (jb_framelist_eff_size (jb_framelist jb));
          min_frame_size = min frame_sz (jb_frame_size jb);
          put = jb_framelist_put_at (jb_framelist jb) frame_seq frame min_frame_size bits stamp
                  JB_NORMAL_FRAME
      in do {
        (fl, status, discards) \<leftarrow> jb_put_retry (jb_max_count jb) frame_seq frame min_frame_size
                                  bits stamp (fst put) (snd put) (jb_discard jb);
        let jb1 = jb\<lparr>jb_framelist := fl, jb_discard := discards\<rparr>;
            new_size = int (jb_framelist_eff_size fl);
            disc = set_out (status \<noteq> PJ_SUCCESS) discarded;
            jb2 = (if status = PJ_SUCCESS then
                     jbuf_update
                       (jb1\<lparr>jb_prefetching :=
                              (if jb_prefetching jb1 \<and> new_size \<ge> jb_prefetch jb1
                               then False else jb_prefetching jb1),
                            jb_level := jb_level jb1 +
                              (if new_size > cur_size then new_size - cur_size else 1)\<rparr>) JB_OP_PUT
                   else jb1\<lparr>jb_discard := jb_discard jb1 + 1\<rparr>)
        in Some (jb2, disc)
      })"

definition pjmedia_jbuf_put_frame2 ::
  "pjmedia_jbuf \<Rightarrow> u8 list \<Rightarrow> nat \<Rightarrow> u32 \<Rightarrow> int \<Rightarrow> bool option \<Rightarrow> (pjmedia_jbuf \<times> bool option) option" where
  "pjmedia_jbuf_put_frame2 jb frame frame_sz bits frame_seq discarded =
     pjmedia_jbuf_put_frame3 jb frame frame_sz bits frame_seq 0 discarded"

definition pjmedia_jbuf_put_frame ::
  "pjmedia_jbuf \<Rightarrow> u8 list \<Rightarrow> nat \<Rightarrow> int \<Rightarrow> pjmedia_jbuf option" where
  "pjmedia_jbuf_put_frame jb frame frame_sz frame_seq =
     map_option fst (pjmedia_jbuf_put_frame3 jb frame frame_sz 0 frame_seq 0 None)"

section \<open>Getting a frame\<close>

text \<open>
  \<open>o_type\<close> is the caller's \<open>p_frame_type\<close>; the local \<open>ftype\<close> of the code is the \<open>o_type\<close> of
  the cells handed to the frame list.
\<close>

definition jb_get_store :: "pjmedia_jbuf \<Rightarrow> jb_out \<Rightarrow> (pjmedia_jbuf \<times> jb_out) option" where
  "jb_get_store jb out = do {
     (res, fl, out1) \<leftarrow> jb_framelist_get (jb_framelist jb) (out\<lparr>o_type := JB_NORMAL_FRAME\<rparr>);
     let jb1 = jb\<lparr>jb_framelist := fl\<rparr>
     in if res then
          let normal = (o_type out1 = JB_NORMAL_FRAME);
              jb2 = (if normal then jb1 else jb1\<lparr>jb_lost := jb_lost jb1 + 1\<rparr>);
              out2 = out1\<lparr>o_type := (if normal then JB_NORMAL_FRAME else JB_MISSING_FRAME)\<rparr>;
              jb3 = (if jb_last_op jb2 = JB_OP_PUT
                     then jb2\<lparr>jb_delay := pj_math_stat_update (jb_delay jb2)
                            (int ((jb_framelist_eff_size fl + 1) * jb_frame_ptime jb2))\<rparr>
                     else jb2)
          in Some (jb3, out2)
        else
          let jb2 = (if jb_prefetch jb1 \<noteq> 0 then jb1\<lparr>jb_prefetching := True\<rparr> else jb1)
          in Some (jb2\<lparr>jb_empty := jb_empty jb2 + 1\<rparr>,
                   out1\<lparr>o_type := JB_ZERO_EMPTY_FRAME, o_size := set_out 0 (o_size out1)\<rparr>)
   }"

definition pjmedia_jbuf_get_frame3 :: "pjmedia_jbuf \<Rightarrow> jb_out \<Rightarrow> (pjmedia_jbuf \<times> jb_out) option" where
  "pjmedia_jbuf_get_frame3 jb out = do {
     (jb1, out1) \<leftarrow>
       (if jb_prefetching jb
        then Some (jb\<lparr>jb_empty := jb_empty jb + 1\<rparr>,
                   out\<lparr>o_type := JB_ZERO_PREFETCH_FRAME, o_size := set_out 0 (o_size out)\<rparr>)
        else jb_get_store jb out);
     Some (jbuf_update (jb1\<lparr>jb_level := jb_level jb1 + 1\<rparr>) JB_OP_GET, out1)
   }"

definition pjmedia_jbuf_get_frame :: "pjmedia_jbuf \<Rightarrow> u8 list \<Rightarrow> jb_frame_type \<Rightarrow> (pjmedia_jbuf \<times> jb_out) option" where
  "pjmedia_jbuf_get_frame jb frame p_type =
     pjmedia_jbuf_get_frame3 jb \<lparr>o_frame = frame, o_size = None, o_type = p_type,
       o_bit_info = None, o_ts = None, o_seq = None\<rparr>"

definition pjmedia_jbuf_get_frame2 ::
  "pjmedia_jbuf \<Rightarrow> u8 list \<Rightarrow> nat option \<Rightarrow> jb_frame_type \<Rightarrow> u32 option \<Rightarrow> (pjmedia_jbuf \<times> jb_out) option" where
  "pjmedia_jbuf_get_frame2 jb frame p_size p_type p_bits =
     pjmedia_jbuf_get_frame3 jb \<lparr>o_frame = frame, o_size = p_size, o_type = p_type,
       o_bit_info = p_bits, o_ts = None, o_seq = None\<rparr>"

section \<open>Peeking, removing, reading the state\<close>

definition pjmedia_jbuf_peek_frame ::
  "pjmedia_jbuf \<Rightarrow> nat \<Rightarrow> nat option \<Rightarrow> jb_out \<Rightarrow> (nat option \<times> jb_out) option" where
  "pjmedia_jbuf_peek_frame jb offset p_off out = do {
     (res, off, out1) \<leftarrow> jb_framelist_peek (jb_framelist jb) offset p_off out;
     Some (off, out1\<lparr>o_type :=
       (if \<not> res then JB_ZERO_EMPTY_FRAME
        else if o_type out1 = JB_NORMAL_FRAME then JB_NORMAL_FRAME else JB_MISSING_FRAME)\<rparr>)
   }"

text \<open>The loop of \<open>remove_frame\<close>; \<open>count\<close> and the differences are unsigned.\<close>

partial_function (option) jb_remove_more ::
  "jb_framelist \<Rightarrow> nat \<Rightarrow> nat \<Rightarrow> (jb_framelist \<times> nat) option" where
  "jb_remove_more fl count last_discard_num =
     (if discarded_num fl < last_discard_num then
        let frame_cnt = u32_sub last_discard_num (discarded_num fl);
            count1 = u32_sub count frame_cnt;
            rm = jb_framelist_remove_head fl frame_cnt
        in jb_remove_more (fst rm) (count1 + snd rm) (discarded_num fl)
      else Some (fl, count))"

declare jb_remove_more.simps [code]

definition pjmedia_jbuf_remove_frame :: "pjmedia_jbuf \<Rightarrow> nat \<Rightarrow> (pjmedia_jbuf \<times> nat) option" where
  "pjmedia_jbuf_remove_frame jb frame_cnt =
     (let rm = jb_framelist_remove_head (jb_framelist jb) frame_cnt
      in do {
        (fl, count) \<leftarrow> jb_remove_more (fst rm) (snd rm) (discarded_num (jb_framelist jb));
        Some (jb\<lparr>jb_framelist := fl\<rparr>, count)
      })"

text \<open>The field \<open>dev_delay\<close>, an integer square root computed for the caller, is left out.\<close>

record pjmedia_jb_state =
  js_frame_size :: nat
  js_min_prefetch :: int
  js_max_prefetch :: int
  js_burst :: int
  js_prefetch :: int
  js_size :: nat
  js_avg_delay :: int
  js_min_delay :: int
  js_max_delay :: int
  js_avg_burst :: int
  js_empty :: nat
  js_discard :: nat
  js_lost :: nat

definition pjmedia_jbuf_get_state :: "pjmedia_jbuf \<Rightarrow> pjmedia_jb_state" where
  "pjmedia_jbuf_get_state jb = \<lparr>js_frame_size = jb_frame_size jb,
     js_min_prefetch = jb_min_prefetch jb, js_max_prefetch = jb_max_prefetch jb,
     js_burst = jb_eff_level jb, js_prefetch = jb_prefetch jb,
     js_size = jb_framelist_eff_size (jb_framelist jb),
     js_avg_delay = st_mean (jb_delay jb), js_min_delay = st_min (jb_delay jb),
     js_max_delay = st_max (jb_delay jb), js_avg_burst = st_mean (jb_burst jb),
     js_empty = jb_empty jb, js_discard = jb_discard jb, js_lost = jb_lost jb\<rparr>"

section \<open>Invariants\<close>

text \<open>
  \<open>jb_shape\<close>: the frame list is well formed and has the buffer's dimensions.
  \<open>jb_levels\<close>: the effective level stays between 0 and four fifths of the capacity, and the
  prefetch and its limits between 0 and the capacity.
  \<open>jb_sched\<close>: every discarded frame still in the window lies at or before the discard reference, so
  that no frame is ever discarded twice.  The static algorithm moves the reference back and does without
  this; the flag \<open>cl\<close> says that it is in use and the window has no discarded frame at all, as after a reset.
\<close>

definition jb_shape :: "pjmedia_jbuf \<Rightarrow> bool" where
  "jb_shape jb \<longleftrightarrow> jb_fl_ok (jb_framelist jb) \<and>
     fl_max_count (jb_framelist jb) = jb_max_count jb \<and>
     fl_frame_size (jb_framelist jb) = jb_frame_size jb"

definition jb_levels :: "pjmedia_jbuf \<Rightarrow> bool" where
  "jb_levels jb \<longleftrightarrow> 0 \<le> jb_level jb \<and> 0 \<le> jb_max_hist_level jb \<and> 0 \<le> jb_eff_level jb \<and>
     jb_eff_level jb \<le> int (jb_max_count jb * 4 div 5) \<and> 0 \<le> jb_max_burst jb \<and>
     0 \<le> jb_prefetch jb \<and> jb_prefetch jb \<le> int (jb_max_count jb) \<and>
     0 \<le> jb_min_prefetch jb \<and> jb_min_prefetch jb \<le> jb_max_prefetch jb \<and>
     jb_max_prefetch jb \<le> int (jb_max_count jb)"

definition before_ref :: "jb_abs \<Rightarrow> int \<Rightarrow> bool" where
  "before_ref a ref \<longleftrightarrow>
     (\<forall>i < length (snd a). snd a ! i = VDiscarded \<longrightarrow> fst a + int i \<le> ref)"

definition jb_sched :: "bool \<Rightarrow> pjmedia_jbuf \<Rightarrow> bool" where
  "jb_sched cl jb \<longleftrightarrow> 1 \<le> jb_min_shrink_gap jb \<and>
     (jb_algo jb \<noteq> JB_DISCARD_STATIC \<longrightarrow> before_ref (jb_abs (jb_framelist jb)) (jb_discard_ref jb)) \<and>
     (cl \<longrightarrow> jb_algo jb = JB_DISCARD_STATIC \<and> (\<forall>r. before_ref (jb_abs (jb_framelist jb)) r))"

definition jb_ok :: "bool \<Rightarrow> pjmedia_jbuf \<Rightarrow> bool" where
  "jb_ok cl jb \<longleftrightarrow> jb_shape jb \<and> jb_levels jb \<and> jb_sched cl jb"

lemma jb_shapeD:
  "jb_shape jb \<Longrightarrow> jb_fl_ok (jb_framelist jb)"
  "jb_shape jb \<Longrightarrow> fl_max_count (jb_framelist jb) = jb_max_count jb"
  "jb_shape jb \<Longrightarrow> fl_frame_size (jb_framelist jb) = jb_frame_size jb"
  by (simp_all add: jb_shape_def)

subsection \<open>The window operations and the discard reference\<close>

lemma before_ref_remove:
  assumes "before_ref a ref"
  shows "before_ref (view_remove n a) ref"
proof (cases a)
  case (Pair org vs)
  have "org + int (min n (length vs)) + int i \<le> ref"
    if "i < length vs - n" "drop n vs ! i = VDiscarded" for i
    using assms that by (fastforce simp: before_ref_def Pair dest: spec [of _ "n + i"])
  then show ?thesis by (simp add: before_ref_def view_remove_def Pair)
qed

lemma before_ref_put:
  assumes b: "before_ref a ref" and v: "v \<noteq> VDiscarded"
    and p: "view_put_at m a i v = (a', st)"
  shows "before_ref a' ref"
proof (cases a)
  case (Pair org vs)
  have rebased: "before_ref (i - int (length vs), vs) ref" if "i < org"
    using b that by (fastforce simp: before_ref_def Pair)
  have grown: "before_ref (o2, view_put vs d v) ref" if "before_ref (o2, vs) ref" for o2 d
    using that v by (auto simp: before_ref_def nth_view_put split: if_splits)
  have single: "before_ref (i, [v]) ref" using v by (simp add: before_ref_def)
  have none: "vs = [] \<Longrightarrow> before_ref (i, vs) ref" by (simp add: before_ref_def)
  show ?thesis
  proof (cases "i < org")
    case True
    then show ?thesis
      using p b v rebased grown single none
      by (auto simp: view_put_at_def Let_def Pair split: if_splits)
  next
    case False
    then show ?thesis
      using p b v grown single none
      by (auto simp: view_put_at_def Let_def Pair split: if_splits)
  qed
qed

lemma before_ref_mono: "before_ref a r \<Longrightarrow> r \<le> r' \<Longrightarrow> before_ref a r'"
  by (fastforce simp: before_ref_def)

lemma before_ref_last: "before_ref (org, vs) (org + int (length vs) - 1)"
  by (auto simp: before_ref_def)

lemma before_ref_discard:
  assumes b: "before_ref a ref" and r: "ref \<le> index" "fst a \<le> index"
  shows "before_ref (view_discard a index) index"
proof -
  have "fst a + int i \<le> index"
    if i: "i < length (snd a)" "(snd a)[nat (index - fst a) := VDiscarded] ! i = VDiscarded" for i
  proof (cases "nat (index - fst a) = i")
    case True
    then show ?thesis using r by simp
  next
    case False
    with i b have "fst a + int i \<le> ref" by (simp add: before_ref_def)
    with r show ?thesis by simp
  qed
  then show ?thesis by (simp add: before_ref_def view_discard_def)
qed

subsection \<open>The discard algorithms keep the invariants\<close>

lemma discard_static_ok:
  assumes shape: "jb_shape jb" and sched: "jb_sched cl jb" and algo: "jb_algo jb = JB_DISCARD_STATIC"
  shows "jb_shape (jbuf_discard_static jb)" "jb_sched cl (jbuf_discard_static jb)"
proof -
  have "before_ref (jb_abs (fst (jb_framelist_remove_head (jb_framelist jb) 1))) r"
    if "before_ref (jb_abs (jb_framelist jb)) r" for r
    using that before_ref_remove jb_abs_remove_head [OF jb_shapeD(1) [OF shape], of 1] by simp
  then show "jb_shape (jbuf_discard_static jb)" "jb_sched cl (jbuf_discard_static jb)"
    using assms remove_head_ok [of "jb_framelist jb" 1] remove_head_same [of "jb_framelist jb" 1]
    by (auto simp: jbuf_discard_static_def Let_def jb_shape_def jb_sched_def split: prod.splits)
qed

lemma u32_of_int_eq: "0 \<le> x \<Longrightarrow> x < 2 ^ 32 \<Longrightarrow> int (u32_of_int x) = x"
  by (simp add: u32_of_int_def)

lemma discard_progressive_ok:
  assumes shape: "jb_shape jb" and sched: "jb_sched cl jb" and algo: "jb_algo jb = JB_DISCARD_PROGRESSIVE"
  shows "jb_shape (jbuf_discard_progressive jb)" "jb_sched cl (jbuf_discard_progressive jb)"
proof -
  let ?fl = "jb_framelist jb" and ?r = "jbuf_discard_progressive jb"
  note ok = jb_shapeD(1) [OF shape]
  define cur where "cur = jb_framelist_eff_size ?fl"
  define bl where "bl = u32_of_int (max (jb_eff_level jb) (jb_level jb))"
  define last where "last = origin ?fl + int (fl_size ?fl) - 1"
  define ref where "ref = (if jb_discard_dist jb = 0 then last
      else if last < jb_discard_ref jb then last else jb_discard_ref jb)"
  define dist where "dist = nat (max (jb_min_shrink_gap jb)
      (int (pro_disc_T bl div (cur - bl) div jb_frame_ptime jb)))"
  define target where "target = (if ref + int dist < origin ?fl then origin ?fl else ref + int dist)"
  have gap: "1 \<le> jb_min_shrink_gap jb" and b: "before_ref (jb_abs ?fl) (jb_discard_ref jb)"
    using sched algo by (simp_all add: jb_sched_def)
  have nc: "\<not> cl" using sched algo by (auto simp: jb_sched_def)
  have dist: "1 \<le> dist" using gap by (simp add: dist_def)
  have bref: "before_ref (jb_abs ?fl) ref"
    using b before_ref_last [of "origin ?fl" "jb_window ?fl"]
    by (simp add: ref_def jb_abs_def last_def)
  have "jb_shape ?r \<and> jb_sched cl ?r"
  proof (cases "jb_last_op jb \<noteq> JB_OP_PUT \<or> cur \<le> bl")
    case True
    then show ?thesis using shape sched
      by (auto simp: jbuf_discard_progressive_def jb_shape_def jb_sched_def cur_def bl_def Let_def)
  next
    case False
    then have c: "\<not> jb_last_op jb \<noteq> JB_OP_PUT" "\<not> cur \<le> bl" by simp_all
    have r: "?r = (if last \<ge> ref + int dist
        then jb\<lparr>jb_framelist := fst (jb_framelist_discard ?fl target), jb_discard_ref := target,
                jb_discard_dist := dist\<rparr>
        else jb\<lparr>jb_discard_ref := ref, jb_discard_dist := dist\<rparr>)"
      unfolding jbuf_discard_progressive_def Let_def if_not_P [OF c(1)]
        jb_framelist_origin_def jb_framelist_size_def
        cur_def [symmetric] bl_def [symmetric] last_def [symmetric] ref_def [symmetric]
        dist_def [symmetric] target_def [symmetric] if_not_P [OF c(2)]
      by simp
    show ?thesis
    proof (cases "last \<ge> ref + int dist")
      case False
      then show ?thesis using r shape bref gap nc by (simp add: jb_shape_def jb_sched_def)
    next
      case True
      have "0 < cur" using False by auto
      then have "0 < fl_size ?fl" using eff_size_window [OF ok]
        by (metis cur_def length_filter_le length_jb_window less_le_trans)
      then have t: "origin ?fl \<le> target" "target < origin ?fl + int (fl_size ?fl)" "ref < target"
        using True dist by (auto simp: target_def last_def)
      have nd: "jb_window ?fl ! nat (target - origin ?fl) \<noteq> VDiscarded"
      proof
        assume "jb_window ?fl ! nat (target - origin ?fl) = VDiscarded"
        moreover have "nat (target - origin ?fl) < fl_size ?fl" using t by simp
        ultimately have "origin ?fl + int (nat (target - origin ?fl)) \<le> ref"
          using bref by (simp only: before_ref_def jb_abs_def fst_conv snd_conv length_jb_window)
        with t show False by (simp split: if_splits)
      qed
      note R = discard_refines [OF ok t(1,2) nd]
      have "before_ref (view_discard (jb_abs ?fl) target) target"
        by (rule before_ref_discard [OF bref]) (use t in \<open>simp_all add: jb_abs_def\<close>)
      then show ?thesis using True r R shape gap nc by (simp add: jb_shape_def jb_sched_def)
    qed
  qed
  then show "jb_shape ?r" "jb_sched cl ?r" by simp_all
qed

text \<open>What the discard algorithms and the jitter calculation leave alone.\<close>

lemmas jb_if_distribs =
  if_distrib [of jb_level]
  if_distrib [of jb_eff_level]
  if_distrib [of jb_max_hist_level]
  if_distrib [of jb_max_burst]
  if_distrib [of jb_max_count]
  if_distrib [of jb_algo]
  if_distrib [of jb_prefetch]
  if_distrib [of jb_init_prefetch]
  if_distrib [of jb_frame_size]
  if_distrib [of jb_min_shrink_gap] if_distrib [of jb_min_prefetch] if_distrib [of jb_max_prefetch]

lemma discard_progressive_frame [simp]:
  "jb_level (jbuf_discard_progressive jb) = jb_level jb"
  "jb_eff_level (jbuf_discard_progressive jb) = jb_eff_level jb"
  "jb_max_hist_level (jbuf_discard_progressive jb) = jb_max_hist_level jb"
  "jb_max_burst (jbuf_discard_progressive jb) = jb_max_burst jb"
  "jb_max_count (jbuf_discard_progressive jb) = jb_max_count jb"
  "jb_algo (jbuf_discard_progressive jb) = jb_algo jb"
  "jb_prefetch (jbuf_discard_progressive jb) = jb_prefetch jb"
  "jb_init_prefetch (jbuf_discard_progressive jb) = jb_init_prefetch jb"
  "jb_frame_size (jbuf_discard_progressive jb) = jb_frame_size jb"
  "jb_min_prefetch (jbuf_discard_progressive jb) = jb_min_prefetch jb"
  "jb_max_prefetch (jbuf_discard_progressive jb) = jb_max_prefetch jb"
  "jb_min_shrink_gap (jbuf_discard_progressive jb) = jb_min_shrink_gap jb"
  by (simp_all add: jbuf_discard_progressive_def Let_def jb_if_distribs
      split del: if_split cong del: if_weak_cong)

lemma discard_static_frame [simp]:
  "jb_level (jbuf_discard_static jb) = jb_level jb"
  "jb_eff_level (jbuf_discard_static jb) = jb_eff_level jb"
  "jb_max_hist_level (jbuf_discard_static jb) = jb_max_hist_level jb"
  "jb_max_burst (jbuf_discard_static jb) = jb_max_burst jb"
  "jb_max_count (jbuf_discard_static jb) = jb_max_count jb"
  "jb_algo (jbuf_discard_static jb) = jb_algo jb"
  "jb_prefetch (jbuf_discard_static jb) = jb_prefetch jb"
  "jb_init_prefetch (jbuf_discard_static jb) = jb_init_prefetch jb"
  "jb_frame_size (jbuf_discard_static jb) = jb_frame_size jb"
  "jb_min_prefetch (jbuf_discard_static jb) = jb_min_prefetch jb"
  "jb_max_prefetch (jbuf_discard_static jb) = jb_max_prefetch jb"
  "jb_min_shrink_gap (jbuf_discard_static jb) = jb_min_shrink_gap jb"
  by (simp_all add: jbuf_discard_static_def Let_def jb_if_distribs split_beta
      split del: if_split cong del: if_weak_cong)

lemma run_discard_ok:
  assumes "jb_ok cl jb"
  shows "jb_ok cl (jbuf_run_discard jb)"
  using assms discard_progressive_ok [of jb cl] discard_static_ok [of jb cl]
  by (auto simp: jb_ok_def jbuf_run_discard_def jb_levels_def jb_sched_def
      split: jb_discard_algo.split)

subsection \<open>Burst levels\<close>

lemma calculate_jitter_frame [simp]:
  "jb_framelist (jbuf_calculate_jitter jb) = jb_framelist jb"
  "jb_algo (jbuf_calculate_jitter jb) = jb_algo jb"
  "jb_discard_ref (jbuf_calculate_jitter jb) = jb_discard_ref jb"
  "jb_min_shrink_gap (jbuf_calculate_jitter jb) = jb_min_shrink_gap jb"
  "jb_max_count (jbuf_calculate_jitter jb) = jb_max_count jb"
  "jb_frame_size (jbuf_calculate_jitter jb) = jb_frame_size jb"
  "jb_max_burst (jbuf_calculate_jitter jb) = jb_max_burst jb"
  "jb_init_prefetch (jbuf_calculate_jitter jb) = jb_init_prefetch jb"
  "jb_min_prefetch (jbuf_calculate_jitter jb) = jb_min_prefetch jb"
  "jb_max_prefetch (jbuf_calculate_jitter jb) = jb_max_prefetch jb"
  "jb_level (jbuf_calculate_jitter jb) = jb_level jb"
  by (simp_all add: jbuf_calculate_jitter_def Let_def)

lemma sdiv_3_bounds: "0 \<le> x \<Longrightarrow> 0 \<le> x sdiv 3 \<and> x sdiv 3 \<le> (x :: int)"
  by (auto simp: signed_divide_int_def sgn_if)

lemma sdiv_3_neg: "x < 0 \<Longrightarrow> x sdiv 3 < (1 :: int)"
  by (auto simp: signed_divide_int_def sgn_if)

text \<open>A decreasing level lowers the effective level by at least 1 and never below 0.\<close>

lemma level_step:
  fixes eff hist :: int
  assumes "1 \<le> eff" "0 \<le> hist"
  defines "d \<equiv> (eff - hist) sdiv 3"
  shows "0 \<le> eff - (if d < 1 then 1 else d)" "eff - (if d < 1 then 1 else d) < eff"
proof -
  have "d < 1 \<or> d \<le> eff"
    using sdiv_3_bounds [of "eff - hist"] sdiv_3_neg [of "eff - hist"] assms(2)
    by (cases "eff < hist") (auto simp: d_def)
  with assms(1) show "0 \<le> eff - (if d < 1 then 1 else d)"
    "eff - (if d < 1 then 1 else d) < eff" by auto
qed

lemma calculate_jitter_eff_level:
  "jb_eff_level (jbuf_calculate_jitter jb) =
     (if jb_level jb < jb_eff_level jb then
        if jb_stable_hist jb + 1 > STABLE_HISTORY_LIMIT then
          let d = (jb_eff_level jb - max (jb_max_hist_level jb) (jb_level jb)) sdiv 3
          in jb_eff_level jb - (if d < 1 then 1 else d)
        else jb_eff_level jb
      else if jb_level jb > jb_eff_level jb then
        min (max (jb_max_hist_level jb) (jb_level jb)) (int (jb_max_count jb * 4 div 5))
      else jb_eff_level jb)"
  by (simp add: jbuf_calculate_jitter_def Let_def)

lemma calculate_jitter_max_hist:
  "0 \<le> jb_max_hist_level jb \<Longrightarrow> 0 \<le> jb_max_hist_level (jbuf_calculate_jitter jb)"
  by (simp add: jbuf_calculate_jitter_def Let_def le_max_iff_disj)

lemma calculate_jitter_prefetch:
  "jb_prefetch (jbuf_calculate_jitter jb) =
     (let eff = jb_eff_level (jbuf_calculate_jitter jb)
      in if jb_init_prefetch jb = 0 then jb_prefetch jb
         else if jb_level jb < jb_eff_level jb \<and> jb_stable_hist jb + 1 > STABLE_HISTORY_LIMIT
         then max (jb_min_prefetch jb) eff
         else if jb_level jb > jb_eff_level jb then min (jb_max_prefetch jb) eff
         else jb_prefetch jb)"
  unfolding calculate_jitter_eff_level by (auto simp: jbuf_calculate_jitter_def Let_def)

lemma calculate_jitter_levels:
  assumes "jb_levels jb"
  shows "jb_levels (jbuf_calculate_jitter jb)"
proof -
  have *: "0 \<le> jb_level jb" "0 \<le> jb_max_hist_level jb" "0 \<le> jb_eff_level jb"
    "jb_eff_level jb \<le> int (jb_max_count jb * 4 div 5)" "0 \<le> jb_max_burst jb"
    using assms by (simp_all add: jb_levels_def)
  have "0 \<le> jb_eff_level (jbuf_calculate_jitter jb) \<and>
      jb_eff_level (jbuf_calculate_jitter jb) \<le> int (jb_max_count jb * 4 div 5)"
  proof (cases "jb_level jb < jb_eff_level jb")
    case True
    with * have e: "1 \<le> jb_eff_level jb" by simp
    have h: "0 \<le> max (jb_max_hist_level jb) (jb_level jb)" using * by simp
    from level_step [OF e h] True *(3,4) show ?thesis
      unfolding calculate_jitter_eff_level Let_def by auto
  next
    case False
    with * show ?thesis unfolding calculate_jitter_eff_level by auto
  qed
  moreover from this assms have "0 \<le> jb_prefetch (jbuf_calculate_jitter jb) \<and>
      jb_prefetch (jbuf_calculate_jitter jb) \<le> int (jb_max_count jb)"
    unfolding calculate_jitter_prefetch by (auto simp: jb_levels_def Let_def)
  ultimately show ?thesis
    using assms calculate_jitter_max_hist by (simp add: jb_levels_def)
qed

lemma calculate_jitter_ok: "jb_ok cl jb \<Longrightarrow> jb_ok cl (jbuf_calculate_jitter jb)"
  using calculate_jitter_levels by (simp add: jb_ok_def jb_shape_def jb_sched_def)

text \<open>Updates of the bookkeeping fields are irrelevant to the invariant.\<close>

lemma jb_ok_updates [simp]:
  "jb_ok cl (jb\<lparr>jb_last_op := a\<rparr>) = jb_ok cl jb"
  "jb_ok cl (jb\<lparr>jb_init_cycle_cnt := c\<rparr>) = jb_ok cl jb"
  "jb_ok cl (jb\<lparr>jb_status := st\<rparr>) = jb_ok cl jb"
  "jb_ok cl (jb\<lparr>jb_prefetching := p\<rparr>) = jb_ok cl jb"
  "jb_ok cl (jb\<lparr>jb_lost := l\<rparr>) = jb_ok cl jb"
  "jb_ok cl (jb\<lparr>jb_discard := l\<rparr>) = jb_ok cl jb"
  "jb_ok cl (jb\<lparr>jb_empty := l\<rparr>) = jb_ok cl jb"
  "jb_ok cl (jb\<lparr>jb_delay := d\<rparr>) = jb_ok cl jb"
  "jb_ok cl (jb\<lparr>jb_discard_dist := dd\<rparr>) = jb_ok cl jb"
  by (simp_all add: jb_ok_def jb_shape_def jb_levels_def jb_sched_def)

lemma jb_ok_level: "jb_ok cl jb \<Longrightarrow> 0 \<le> v \<Longrightarrow> jb_ok cl (jb\<lparr>jb_level := v\<rparr>)"
  by (simp add: jb_ok_def jb_shape_def jb_levels_def jb_sched_def)

lemma jb_ok_levelD: "jb_ok cl jb \<Longrightarrow> 0 \<le> jb_level jb" "jb_ok cl jb \<Longrightarrow> 0 \<le> jb_max_burst jb"
  by (simp_all add: jb_ok_def jb_levels_def)

text \<open>
  An invariance rule for \<open>jbuf_update\<close>: what its steps keep, it keeps.
\<close>

lemma jbuf_update_inv:
  assumes base: "P jb"
    and op: "\<And>x. P x \<Longrightarrow> P (x\<lparr>jb_last_op := oper\<rparr>)"
    and cyc: "\<And>x n. P x \<Longrightarrow> P (x\<lparr>jb_init_cycle_cnt := n\<rparr>)"
    and stat: "\<And>x. P x \<Longrightarrow>
      P (x\<lparr>jb_status := JB_STATUS_PROCESSING, jb_level := min (jb_level x) (jb_max_burst x)\<rparr>)"
    and lev: "\<And>x. P x \<Longrightarrow> P (x\<lparr>jb_level := 0\<rparr>)"
    and calc: "\<And>x. P x \<Longrightarrow> P (jbuf_calculate_jitter x)"
    and disc: "\<And>x. P x \<Longrightarrow> P (jbuf_run_discard x)"
  shows "P (jbuf_update jb oper)"
proof (cases "jb_last_op jb = oper")
  case True
  with base disc show ?thesis by (simp add: jbuf_update_def)
next
  case False
  define jb1 where "jb1 = jb\<lparr>jb_last_op := oper\<rparr>"
  define init where "init \<longleftrightarrow> jb_status jb1 = JB_STATUS_INITIALIZING"
  define jb2 where "jb2 = (if init then jb1\<lparr>jb_init_cycle_cnt := jb_init_cycle_cnt jb1 + 1\<rparr> else jb1)"
  define switch where "switch \<longleftrightarrow> init \<and> jb_init_cycle_cnt jb2 \<ge> INIT_CYCLE \<and> oper = JB_OP_GET"
  define jb3 where "jb3 = (if switch
    then jb2\<lparr>jb_status := JB_STATUS_PROCESSING, jb_level := min (jb_level jb2) (jb_max_burst jb2)\<rparr>
    else jb2)"
  define jb4 where "jb4 = (if oper = JB_OP_GET \<and> jb_level jb3 \<le> jb_max_burst jb3
    then jbuf_calculate_jitter jb3 else jb3)"
  have 2: "P jb2" using cyc [OF op [OF base]] op [OF base] by (simp add: jb2_def jb1_def)
  have 3: "P jb3" using 2 stat [OF 2] by (simp add: jb3_def)
  have 4: "P jb4" using 3 calc [OF 3] by (simp add: jb4_def)
  have "jbuf_update jb oper =
      (if init \<and> \<not> switch then jb2\<lparr>jb_level := 0\<rparr> else jbuf_run_discard (jb4\<lparr>jb_level := 0\<rparr>))"
    unfolding jbuf_update_def Let_def if_not_P [OF False] jb1_def [symmetric] init_def [symmetric]
      jb2_def [symmetric] switch_def [symmetric] jb3_def [symmetric] jb4_def [symmetric] ..
  with lev [OF 2] disc [OF lev [OF 4]] show ?thesis by simp
qed

lemma jbuf_update_ok:
  assumes "jb_ok cl jb"
  shows "jb_ok cl (jbuf_update jb oper)"
proof (rule jbuf_update_inv [where P = "jb_ok cl"])
  fix x assume x: "jb_ok cl x"
  show "jb_ok cl (x\<lparr>jb_status := JB_STATUS_PROCESSING, jb_level := min (jb_level x) (jb_max_burst x)\<rparr>)"
    using jb_ok_level [of _ "x\<lparr>jb_status := JB_STATUS_PROCESSING\<rparr>"] x jb_ok_levelD [OF x] by simp
qed (simp_all add: assms calculate_jitter_ok run_discard_ok jb_ok_level)

section \<open>Operations keep the invariant, and their loops end\<close>

text \<open>The invariant of the frame list and its relation to the discard reference, as one fact.\<close>

definition jb_store_ok :: "bool \<Rightarrow> pjmedia_jbuf \<Rightarrow> jb_framelist \<Rightarrow> bool" where
  "jb_store_ok cl jb fl \<longleftrightarrow> jb_fl_ok fl \<and> fl_max_count fl = jb_max_count jb \<and>
     fl_frame_size fl = jb_frame_size jb \<and>
     (jb_algo jb \<noteq> JB_DISCARD_STATIC \<longrightarrow> before_ref (jb_abs fl) (jb_discard_ref jb)) \<and>
     (cl \<longrightarrow> jb_algo jb = JB_DISCARD_STATIC \<and> (\<forall>r. before_ref (jb_abs fl) r))"

lemma jb_ok_store: "jb_ok cl jb \<Longrightarrow> jb_store_ok cl jb (jb_framelist jb)"
  by (simp add: jb_ok_def jb_shape_def jb_sched_def jb_store_ok_def)

lemma jb_ok_replace: "jb_ok cl jb \<Longrightarrow> jb_store_ok cl jb fl \<Longrightarrow> jb_ok cl (jb\<lparr>jb_framelist := fl\<rparr>)"
  by (simp add: jb_ok_def jb_shape_def jb_sched_def jb_levels_def jb_store_ok_def)

lemma store_ok_remove:
  "jb_store_ok cl jb fl \<Longrightarrow> jb_store_ok cl jb (fst (jb_framelist_remove_head fl n))"
  by (auto simp: jb_store_ok_def remove_head_ok remove_head_same jb_abs_remove_head before_ref_remove)

lemma store_ok_put:
  assumes "jb_store_ok cl jb fl" "sz \<le> jb_frame_size jb" "sz \<le> length frame"
  shows "jb_store_ok cl jb (fst (jb_framelist_put_at fl i frame sz bits stamp JB_NORMAL_FRAME))"
proof -
  obtain r st where p: "jb_framelist_put_at fl i frame sz bits stamp JB_NORMAL_FRAME = (r, st)"
    by (cases "jb_framelist_put_at fl i frame sz bits stamp JB_NORMAL_FRAME")
  have ok: "jb_fl_ok fl" and fs: "sz \<le> fl_frame_size fl"
    using assms by (simp_all add: jb_store_ok_def)
  note R = put_at_refines [OF ok fs assms(3) p]
  then have "view_put_at (fl_max_count fl) (jb_abs fl) i (VFrame (take sz frame) bits stamp) = (jb_abs r, st)"
    by simp
  from before_ref_put [OF _ _ this] R assms(1) p show ?thesis
    by (simp add: jb_store_ok_def)
qed

text \<open>
  The room-making loop ends after at most one removal, whatever the first answer was; it never
  ends in \<open>PJ_ETOOMANY\<close>, and a store that was rejected for room succeeds.
\<close>

lemma put_retry_total:
  assumes ok: "jb_store_ok cl jb fl" and sz: "sz \<le> jb_frame_size jb" "sz \<le> length frame"
    and put: "jb_framelist_put_at fl i frame sz bits stamp JB_NORMAL_FRAME = (fl1, st1)"
  shows "\<exists>r st ds. jb_put_retry (jb_max_count jb) i frame sz bits stamp fl1 st1 d = Some (r, st, ds) \<and>
    jb_store_ok cl jb r \<and> st \<noteq> PJ_ETOOMANY \<and>
    (if st1 = PJ_ETOOMANY then st = PJ_SUCCESS \<and> d < ds
     else st = st1 \<and> r = fl1 \<and> ds = d)"
proof (cases "st1 = PJ_ETOOMANY")
  case False
  with store_ok_put [OF ok sz, of i bits stamp] put show ?thesis
    by (simp add: jb_put_retry.simps)
next
  case True
  let ?f = "(frame, sz, bits, stamp)"
  have inv: "jb_fl_ok fl" and fits: "jb_frame_fits fl ?f"
    and put': "jb_put_normal fl i ?f = (fl1, PJ_ETOOMANY)"
    using ok sz put True by (simp_all add: jb_store_ok_def jb_frame_fits_def jb_put_normal_def)
  have ok1: "jb_store_ok cl jb fl1" using store_ok_put [OF ok sz, of i bits stamp] put by simp
  note far = fw.too_many [OF inv fits put']
  define n where "n = nat (i - origin fl1 - int (fl_max_count fl1) + 1)"
  have caps: "fl_max_count fl1 = jb_max_count jb" "fl_max_count fl = jb_max_count jb"
    using ok ok1 by (simp_all add: jb_store_ok_def)
  have n: "u32_of_int (i - jb_framelist_origin fl1 - int (jb_max_count jb) + 1) = n" "1 \<le> n"
    using far caps by (simp_all add: u32_of_int_def n_def jb_abs_def jb_framelist_origin_def MAX_DROPOUT_def)
  obtain fl2 c where rm: "jb_framelist_remove_head fl1 n = (fl2, c)"
    by (cases "jb_framelist_remove_head fl1 n")
  obtain fl3 st3 where p2: "jb_framelist_put_at fl2 i frame sz bits stamp JB_NORMAL_FRAME = (fl3, st3)"
    by (cases "jb_framelist_put_at fl2 i frame sz bits stamp JB_NORMAL_FRAME")
  have "st3 = PJ_SUCCESS"
    by (rule fw.room_made [OF inv fits put', of fl2 c fl3])
       (use rm p2 in \<open>simp_all add: n_def jb_abs_def jb_put_normal_def\<close>)
  moreover have "jb_store_ok cl jb fl3"
    using store_ok_put [OF store_ok_remove [OF ok1, of n] sz, of i bits stamp] rm p2 by simp
  moreover have "c = min n (fl_size fl1)"
    using remove_head_facts(1) [of fl1, where n = n] ok1 rm by (simp add: jb_store_ok_def)
  moreover have "fl_size fl1 \<noteq> 0"
  proof
    assume "fl_size fl1 = 0"
    then have "jb_window fl = []" using far(3) by (simp add: jb_abs_def jb_window_def)
    then have "view_put_at (fl_max_count fl) (jb_abs fl) i v = (a, st) \<Longrightarrow> st \<noteq> PJ_ETOOMANY" for v a st
      using jb_fl_okD(1) [OF inv]
      by (auto simp: view_put_at_def jb_abs_def Let_def split: if_splits)
    with put_at_refines [OF inv _ sz(2) put] ok sz True show False
      by (metis jb_store_ok_def)
  qed
  ultimately show ?thesis
    using True rm p2 n
    by (simp add: jb_put_retry.simps [of _ _ _ _ _ _ fl1] jb_put_retry.simps [of _ _ _ _ _ _ fl3] Let_def)
qed

lemma put_frame3_ok:
  assumes ok: "jb_ok cl jb" and len: "frame_sz \<le> length frame"
  shows "\<exists>jb' disc. pjmedia_jbuf_put_frame3 jb frame frame_sz bits seq stamp discarded = Some (jb', disc) \<and>
    jb_ok cl jb'"
proof -
  let ?sz = "min frame_sz (jb_frame_size jb)"
  obtain fl1 st1 where put:
    "jb_framelist_put_at (jb_framelist jb) seq frame ?sz bits stamp JB_NORMAL_FRAME = (fl1, st1)"
    by (cases "jb_framelist_put_at (jb_framelist jb) seq frame ?sz bits stamp JB_NORMAL_FRAME")
  obtain r st ds where r: "jb_put_retry (jb_max_count jb) seq frame ?sz bits stamp fl1 st1 (jb_discard jb)
      = Some (r, st, ds)" "jb_store_ok cl jb r"
    using put_retry_total [OF jb_ok_store [OF ok] min.cobounded2 le_trans [OF min.cobounded1 len] put,
      of "jb_discard jb"] by blast
  have ok1: "jb_ok cl (jb\<lparr>jb_framelist := r\<rparr>)" by (rule jb_ok_replace [OF ok r(2)])
  have up: "jb_ok cl (jb\<lparr>jb_framelist := r, jb_discard := ds, jb_prefetching := b, jb_level := jb_level jb + v\<rparr>)"
    if "0 \<le> v" for b v
    using jb_ok_level [of _ "jb\<lparr>jb_framelist := r, jb_discard := ds, jb_prefetching := b\<rparr>"] ok1
      jb_ok_levelD [OF ok] that by simp
  have up2: "jb_ok cl (jb\<lparr>jb_framelist := r, jb_discard := ds, jb_level := jb_level jb + v\<rparr>)"
    if "0 \<le> v" for v
    using jb_ok_level [of _ "jb\<lparr>jb_framelist := r, jb_discard := ds\<rparr>"] ok1
      jb_ok_levelD [OF ok] that by simp
  show ?thesis
    using r(1) put ok1 up up2 by (auto simp: pjmedia_jbuf_put_frame3_def Let_def intro!: jbuf_update_ok)
qed

lemma get_store_ok:
  assumes ok: "jb_ok cl jb" and buf: "jb_frame_size jb \<le> length (o_frame out)"
  shows "\<exists>jb' out'. jb_get_store jb out = Some (jb', out') \<and> jb_ok cl jb' \<and> jb_level jb' = jb_level jb"
proof -
  let ?fl = "jb_framelist jb" and ?out = "out\<lparr>o_type := JB_NORMAL_FRAME\<rparr>"
  have st: "jb_store_ok cl jb ?fl" by (rule jb_ok_store [OF ok])
  then have fl: "jb_fl_ok ?fl" "fl_frame_size ?fl \<le> length (o_frame ?out)"
    using buf by (simp_all add: jb_store_ok_def)
  obtain res r out' where g: "jb_framelist_get ?fl ?out = Some (res, r, out')" "jb_fl_ok r"
    "fl_max_count r = fl_max_count ?fl" "fl_frame_size r = fl_frame_size ?fl"
    "(res, jb_abs r) = view_get (jb_abs ?fl)"
    using get_refines [OF fl] by blast
  have "\<exists>k. jb_abs r = view_remove k (jb_abs ?fl)"
    using g(5) by (auto simp: view_get_def Let_def split: if_splits)
  with st g have "jb_store_ok cl jb r" by (auto simp: jb_store_ok_def before_ref_remove)
  then have ok1: "jb_ok cl (jb\<lparr>jb_framelist := r\<rparr>)" by (rule jb_ok_replace [OF ok])
  then show ?thesis using g(1) by (cases res) (simp_all add: jb_get_store_def Let_def)
qed

lemma get_frame3_ok:
  assumes ok: "jb_ok cl jb" and buf: "jb_frame_size jb \<le> length (o_frame out)"
  shows "\<exists>jb' out'. pjmedia_jbuf_get_frame3 jb out = Some (jb', out') \<and> jb_ok cl jb'"
proof (cases "jb_prefetching jb")
  case True
  have "jb_ok cl (jb\<lparr>jb_empty := jb_empty jb + 1, jb_level := jb_level jb + 1\<rparr>)"
    using jb_ok_level [of _ "jb\<lparr>jb_empty := jb_empty jb + 1\<rparr>" "jb_level jb + 1"] ok jb_ok_levelD [OF ok]
    by simp
  with True show ?thesis by (simp add: pjmedia_jbuf_get_frame3_def jbuf_update_ok)
next
  case False
  obtain jb1 out1 where g: "jb_get_store jb out = Some (jb1, out1)" "jb_ok cl jb1"
    using get_store_ok [OF ok buf] by blast
  have "jb_ok cl (jb1\<lparr>jb_level := jb_level jb1 + 1\<rparr>)"
    using jb_ok_level [OF g(2)] jb_ok_levelD [OF g(2)] by simp
  with False g show ?thesis by (simp add: pjmedia_jbuf_get_frame3_def jbuf_update_ok)
qed

lemma live_discarded: "live vs + view_discarded vs = length vs"
  using sum_length_filter_compl [of "\<lambda>v. v = VDiscarded" vs]
  by (simp add: live_def view_discarded_def count_list_filter)

lemma view_discarded_append [simp]: "view_discarded (xs @ ys) = view_discarded xs + view_discarded ys"
  by (simp add: view_discarded_def)

lemma remove_head_discarded:
  assumes "jb_fl_ok fl"
  shows "discarded_num (fst (jb_framelist_remove_head fl n)) + view_discarded (take n (jb_window fl)) =
    discarded_num fl"
proof -
  have "view_discarded (jb_window fl) =
      view_discarded (take n (jb_window fl)) + view_discarded (drop n (jb_window fl))"
    by (metis append_take_drop_id view_discarded_append)
  then show ?thesis
    using discarded_num_window [OF assms] discarded_num_window [OF remove_head_ok [OF assms, of n]]
      remove_head_window [OF assms, of n] by simp
qed

text \<open>
  The second loop of \<open>remove_frame\<close>: with \<open>p\<close> frames still owed, it removes frames until it
  has passed \<open>p\<close> frames that are not discarded, or the buffer is empty, and counts those.
\<close>

lemma remove_more_total:
  assumes "jb_fl_ok fl" and "p = prev - discarded_num fl" "p \<le> count" "prev < 2 ^ 31"
    and "count + fl_size fl < 2 ^ 32"
  shows "\<exists>k r. jb_remove_more fl count prev = Some (r, count - p + live (take k (jb_window fl))) \<and>
    jb_fl_ok r \<and> fl_max_count r = fl_max_count fl \<and> fl_frame_size r = fl_frame_size fl \<and>
    jb_abs r = view_remove k (jb_abs fl) \<and>
    live (take k (jb_window fl)) = min p (live (jb_window fl))"
  using assms
proof (induction "prev" arbitrary: fl count p rule: less_induct)
  case (less prev)
  note ok = less.prems(1)
  show ?case
  proof (cases "discarded_num fl < prev")
    case False
    with less.prems show ?thesis
      by (intro exI [of _ 0] exI [of _ fl]) (simp add: jb_remove_more.simps [of fl])
  next
    case True
    let ?w = "jb_window fl"
    obtain fl1 c where rm: "jb_framelist_remove_head fl p = (fl1, c)"
      by (cases "jb_framelist_remove_head fl p")
    have c: "c = min p (fl_size fl)" using remove_head_facts(1) [OF ok, where n = p] rm by simp
    have ok1: "jb_fl_ok fl1" and w1: "jb_window fl1 = drop p ?w"
      and d1: "discarded_num fl1 + view_discarded (take p ?w) = discarded_num fl"
      using remove_head_ok [OF ok, of p] remove_head_window [OF ok, of p]
        remove_head_discarded [OF ok, of p] rm by simp_all
    have s1: "fl_size fl1 = fl_size fl - c" using remove_head_facts(2) [OF ok, where n = p] rm c by simp
    let ?p' = "discarded_num fl - discarded_num fl1"
    have p': "?p' = view_discarded (take p ?w)" using d1 by simp
    have cl: "c = live (take p ?w) + ?p'" using live_discarded [of "take p ?w"] c p' by (simp add: min.commute)
    have le: "?p' \<le> count - p + c" using cl by simp
    have b: "count - p + c + fl_size fl1 < 2 ^ 32" using less.prems(5) c s1 by (simp add: min_def split: if_splits)
    have "discarded_num fl < 2 ^ 31" using True less.prems(4) by simp
    from less.IH [OF True ok1 refl le this b] obtain k r where
      k: "jb_remove_more fl1 (count - p + c) (discarded_num fl) =
          Some (r, count - p + c - ?p' + live (take k (jb_window fl1)))"
      "jb_fl_ok r" "fl_max_count r = fl_max_count fl1" "fl_frame_size r = fl_frame_size fl1"
      "jb_abs r = view_remove k (jb_abs fl1)"
      "live (take k (jb_window fl1)) = min ?p' (live (jb_window fl1))" by blast
    have sub: "u32_sub prev (discarded_num fl) = p" "u32_sub count p = count - p"
      using less.prems True by simp_all
    have split: "live (take (p + k) ?w) = live (take p ?w) + live (take k (jb_window fl1))"
      by (simp add: w1 take_add)
    have all: "live ?w = live (take p ?w) + live (jb_window fl1)"
      unfolding w1 by (metis append_take_drop_id live_simps(3))
    have "live (take (p + k) ?w) = min p (live ?w)"
    proof (cases "p \<le> fl_size fl")
      case True
      then show ?thesis using split all cl c k(6) by (simp add: min_def)
    next
      case False
      then have "live (jb_window fl1) = 0" "live ?w \<le> p"
        using w1 live_discarded [of ?w] by simp_all
      then show ?thesis using split all k(6) by simp
    qed
    moreover have "jb_remove_more fl count prev = Some (r, count - p + live (take (p + k) ?w))"
      using True sub rm k(1) split cl by (simp add: jb_remove_more.simps [of fl] Let_def)
    moreover have "jb_abs r = view_remove (p + k) (jb_abs fl)"
      using k(5) jb_abs_remove_head [OF ok, of p] rm by (simp add: view_remove_add add.commute)
    ultimately show ?thesis
      using k(2-4) remove_head_same [OF ok, of p] rm by (intro exI [of _ "p + k"] exI [of _ r]) simp
  qed
qed

lemma remove_frame_total:
  assumes ok: "jb_fl_ok fl" and jb: "jb_framelist jb = fl"
  shows "\<exists>k r. pjmedia_jbuf_remove_frame jb n = Some (jb\<lparr>jb_framelist := r\<rparr>, min n (live (jb_window fl))) \<and>
    jb_fl_ok r \<and> fl_max_count r = fl_max_count fl \<and> fl_frame_size r = fl_frame_size fl \<and>
    jb_abs r = view_remove k (jb_abs fl) \<and>
    live (take k (jb_window fl)) = min n (live (jb_window fl))"
proof -
  note D = jb_fl_okD [OF ok]
  let ?w = "jb_window fl"
  obtain fl1 c where rm: "jb_framelist_remove_head fl n = (fl1, c)"
    by (cases "jb_framelist_remove_head fl n")
  have c: "c = min n (fl_size fl)" using remove_head_facts(1) [OF ok, where n = n] rm by simp
  have ok1: "jb_fl_ok fl1" and w1: "jb_window fl1 = drop n ?w"
    and d1: "discarded_num fl1 + view_discarded (take n ?w) = discarded_num fl"
    and s1: "fl_size fl1 = fl_size fl - c"
    using remove_head_ok [OF ok, of n] remove_head_window [OF ok, of n]
      remove_head_discarded [OF ok, of n] remove_head_facts(2) [OF ok, where n = n] rm c by simp_all
  let ?p = "discarded_num fl - discarded_num fl1"
  have cl: "c = live (take n ?w) + ?p" using live_discarded [of "take n ?w"] c d1 by (simp add: min.commute)
  have "discarded_num fl < 2 ^ 31" using discarded_le_size [OF ok] D(2,9) by simp
  moreover have "c + fl_size fl1 < 2 ^ 32" using s1 c D(2,9) by simp
  ultimately obtain k r where k: "jb_remove_more fl1 c (discarded_num fl) =
      Some (r, c - ?p + live (take k (jb_window fl1)))"
    "jb_fl_ok r" "fl_max_count r = fl_max_count fl1" "fl_frame_size r = fl_frame_size fl1"
    "jb_abs r = view_remove k (jb_abs fl1)"
    "live (take k (jb_window fl1)) = min ?p (live (jb_window fl1))"
    using remove_more_total [OF ok1 refl, of "discarded_num fl" c] cl by auto
  have split: "live (take (n + k) ?w) = live (take n ?w) + live (take k (jb_window fl1))"
    by (simp add: w1 take_add)
  have all: "live ?w = live (take n ?w) + live (jb_window fl1)"
    unfolding w1 by (metis append_take_drop_id live_simps(3))
  have m: "live (take (n + k) ?w) = min n (live ?w)"
  proof (cases "n \<le> fl_size fl")
    case True
    then show ?thesis using split all cl c k(6) by (simp add: min_def)
  next
    case False
    then have "live (jb_window fl1) = 0" "live ?w \<le> n" using w1 live_discarded [of ?w] by simp_all
    then show ?thesis using split all k(6) by simp
  qed
  have "pjmedia_jbuf_remove_frame jb n = Some (jb\<lparr>jb_framelist := r\<rparr>, min n (live ?w))"
    using rm k(1) jb m split cl by (simp add: pjmedia_jbuf_remove_frame_def Let_def)
  moreover have "jb_abs r = view_remove (n + k) (jb_abs fl)"
    using k(5) jb_abs_remove_head [OF ok, of n] rm by (simp add: view_remove_add add.commute)
  ultimately show ?thesis
    using m k(2-4) remove_head_same [OF ok, of n] rm by (intro exI [of _ "n + k"] exI [of _ r]) simp
qed

section \<open>Runs\<close>

text \<open>The frame size and the capacity never change, and a run of operations keeps the invariant.\<close>

lemma run_discard_same [simp]:
  "jb_frame_size (jbuf_run_discard jb) = jb_frame_size jb"
  "jb_max_count (jbuf_run_discard jb) = jb_max_count jb"
  "jb_algo (jbuf_run_discard jb) = jb_algo jb"
  by (simp_all add: jbuf_run_discard_def split: jb_discard_algo.split)

lemma jbuf_update_same [simp]:
  "jb_frame_size (jbuf_update jb oper) = jb_frame_size jb"
  "jb_max_count (jbuf_update jb oper) = jb_max_count jb"
  "jb_algo (jbuf_update jb oper) = jb_algo jb"
proof -
  show "jb_frame_size (jbuf_update jb oper) = jb_frame_size jb"
    by (rule jbuf_update_inv [where P = "\<lambda>x. jb_frame_size x = jb_frame_size jb"]; simp)
  show "jb_max_count (jbuf_update jb oper) = jb_max_count jb"
    by (rule jbuf_update_inv [where P = "\<lambda>x. jb_max_count x = jb_max_count jb"]; simp)
  show "jb_algo (jbuf_update jb oper) = jb_algo jb"
    by (rule jbuf_update_inv [where P = "\<lambda>x. jb_algo x = jb_algo jb"]; simp)
qed

lemma put_frame3_same:
  "pjmedia_jbuf_put_frame3 jb frame sz bits seq stamp d = Some (jb', d') \<Longrightarrow>
   jb_frame_size jb' = jb_frame_size jb \<and> jb_max_count jb' = jb_max_count jb \<and> jb_algo jb' = jb_algo jb"
  by (clarsimp simp: pjmedia_jbuf_put_frame3_def Let_def bind_eq_Some_conv split_beta jb_if_distribs
      split del: if_split cong del: if_weak_cong)

lemma get_store_same:
  "jb_get_store jb out = Some (jb', out') \<Longrightarrow>
   jb_frame_size jb' = jb_frame_size jb \<and> jb_max_count jb' = jb_max_count jb \<and> jb_algo jb' = jb_algo jb"
  by (clarsimp simp: jb_get_store_def Let_def bind_eq_Some_conv split_beta)
     (auto simp: Let_def split: if_splits)

lemma get_frame3_same:
  "pjmedia_jbuf_get_frame3 jb out = Some (jb', out') \<Longrightarrow>
   jb_frame_size jb' = jb_frame_size jb \<and> jb_max_count jb' = jb_max_count jb \<and> jb_algo jb' = jb_algo jb"
  by (auto simp: pjmedia_jbuf_get_frame3_def bind_eq_Some_conv dest!: get_store_same split: if_splits)

datatype jb_event =
    EvPut "u8 list" nat u32 int u32 "bool option"
  | EvGet jb_out
  | EvRemove nat
  | EvReset
  | EvFixed nat
  | EvAdaptive nat nat nat
  | EvDiscard jb_discard_algo

fun jb_step :: "pjmedia_jbuf \<Rightarrow> jb_event \<Rightarrow> pjmedia_jbuf option" where
  "jb_step jb (EvPut frame sz bits seq stamp d) =
     map_option fst (pjmedia_jbuf_put_frame3 jb frame sz bits seq stamp d)"
| "jb_step jb (EvGet out) = map_option fst (pjmedia_jbuf_get_frame3 jb out)"
| "jb_step jb (EvRemove n) = map_option fst (pjmedia_jbuf_remove_frame jb n)"
| "jb_step jb EvReset = Some (pjmedia_jbuf_reset jb)"
| "jb_step jb (EvFixed n) = Some (fst (pjmedia_jbuf_set_fixed jb n))"
| "jb_step jb (EvAdaptive n a b) = Some (fst (pjmedia_jbuf_set_adaptive jb n a b))"
| "jb_step jb (EvDiscard algo) = Some (fst (pjmedia_jbuf_set_discard jb algo))"

fun jb_run :: "pjmedia_jbuf \<Rightarrow> jb_event list \<Rightarrow> pjmedia_jbuf option" where
  "jb_run jb [] = Some jb"
| "jb_run jb (e # es) = Option.bind (jb_step jb e) (\<lambda>jb'. jb_run jb' es)"

text \<open>The callers' side: the frame holds the bytes it announces, the buffer of a get is large enough.\<close>

fun jb_event_ok :: "nat \<Rightarrow> jb_event \<Rightarrow> bool" where
  "jb_event_ok fs (EvPut frame sz bits seq stamp d) = (sz \<le> length frame)"
| "jb_event_ok fs (EvGet out) = (fs \<le> length (o_frame out))"
| "jb_event_ok fs _ = True"

text \<open>
  A change of the discard algorithm does not touch the discard schedule.  \<open>cur\<close> is the algorithm in use, \<open>fresh\<close>
  says whether the buffer has been reset since it was chosen: the static algorithm is only given up
  for another one in a buffer reset since.
\<close>

fun discards_ok :: "jb_discard_algo \<Rightarrow> bool \<Rightarrow> jb_event list \<Rightarrow> bool" where
  "discards_ok cur fresh [] = True"
| "discards_ok cur fresh (EvDiscard algo # es) =
     ((algo = cur \<or> cur \<noteq> JB_DISCARD_STATIC \<or> fresh) \<and> discards_ok algo (algo = cur \<and> fresh) es)"
| "discards_ok cur fresh (EvReset # es) = discards_ok cur True es"
| "discards_ok cur fresh (e # es) = discards_ok cur fresh es"

lemma jbuf_reset_ok: "jb_ok cl jb \<Longrightarrow> jb_ok (jb_algo jb = JB_DISCARD_STATIC) (pjmedia_jbuf_reset jb)"
  by (auto simp: jb_ok_def jb_shape_def jb_levels_def jb_sched_def pjmedia_jbuf_reset_def
      reset_ok jb_abs_def before_ref_def)

lemma set_discard_ok:
  assumes "jb_ok (fresh \<and> jb_algo jb = JB_DISCARD_STATIC) jb" "algo = jb_algo jb \<or> jb_algo jb \<noteq> JB_DISCARD_STATIC \<or> fresh"
  shows "jb_ok ((algo = jb_algo jb \<and> fresh) \<and> algo = JB_DISCARD_STATIC) (fst (pjmedia_jbuf_set_discard jb algo))"
  using assms by (auto simp: jb_ok_def jb_shape_def jb_levels_def jb_sched_def pjmedia_jbuf_set_discard_def)

lemma set_prefetch_ok:
  "jb_ok cl jb \<Longrightarrow> jb_ok cl (fst (pjmedia_jbuf_set_fixed jb n))"
  "jb_ok cl jb \<Longrightarrow> jb_ok cl (fst (pjmedia_jbuf_set_adaptive jb n a b))"
  by (auto simp: jb_ok_def jb_shape_def jb_levels_def jb_sched_def
      pjmedia_jbuf_set_fixed_def pjmedia_jbuf_set_adaptive_def)

lemma remove_frame_ok:
  assumes ok: "jb_ok cl jb"
  shows "\<exists>r c. pjmedia_jbuf_remove_frame jb n = Some (jb\<lparr>jb_framelist := r\<rparr>, c) \<and>
    jb_ok cl (jb\<lparr>jb_framelist := r\<rparr>)"
proof -
  have st: "jb_store_ok cl jb (jb_framelist jb)" by (rule jb_ok_store [OF ok])
  then have "jb_fl_ok (jb_framelist jb)" by (simp add: jb_store_ok_def)
  from remove_frame_total [OF this refl, of n] obtain k r where
    r: "pjmedia_jbuf_remove_frame jb n =
        Some (jb\<lparr>jb_framelist := r\<rparr>, min n (live (jb_window (jb_framelist jb))))"
    "jb_fl_ok r" "fl_max_count r = fl_max_count (jb_framelist jb)"
    "fl_frame_size r = fl_frame_size (jb_framelist jb)"
    "jb_abs r = view_remove k (jb_abs (jb_framelist jb))" by blast
  then have "jb_store_ok cl jb r" using st by (simp add: jb_store_ok_def before_ref_remove)
  with r(1) jb_ok_replace [OF ok] show ?thesis by blast
qed

definition jb_same_dims :: "pjmedia_jbuf \<Rightarrow> pjmedia_jbuf \<Rightarrow> bool" where
  "jb_same_dims jb jb' \<longleftrightarrow> jb_frame_size jb' = jb_frame_size jb \<and> jb_max_count jb' = jb_max_count jb"

lemma jb_step_ok:
  assumes ok: "jb_ok (fresh \<and> jb_algo jb = JB_DISCARD_STATIC) jb" and e: "jb_event_ok (jb_frame_size jb) e"
    and d: "discards_ok (jb_algo jb) fresh (e # es)"
  shows "\<exists>jb' fresh'. jb_step jb e = Some jb' \<and> jb_ok (fresh' \<and> jb_algo jb' = JB_DISCARD_STATIC) jb' \<and>
    discards_ok (jb_algo jb') fresh' es \<and> jb_same_dims jb jb'"
proof (cases e)
  case (EvPut frame sz bits seq stamp d')
  with e have "sz \<le> length frame" by simp
  from put_frame3_ok [OF ok this, of bits seq stamp d'] obtain jb' d2 where
    "pjmedia_jbuf_put_frame3 jb frame sz bits seq stamp d' = Some (jb', d2)"
    "jb_ok (fresh \<and> jb_algo jb = JB_DISCARD_STATIC) jb'" by blast
  with EvPut d put_frame3_same show ?thesis by (fastforce simp: jb_same_dims_def)
next
  case (EvGet out)
  with e have "jb_frame_size jb \<le> length (o_frame out)" by simp
  from get_frame3_ok [OF ok this] obtain jb' out' where
    "pjmedia_jbuf_get_frame3 jb out = Some (jb', out')" "jb_ok (fresh \<and> jb_algo jb = JB_DISCARD_STATIC) jb'" by blast
  with EvGet d get_frame3_same show ?thesis by (fastforce simp: jb_same_dims_def)
next
  case (EvRemove n)
  from remove_frame_ok [OF ok, of n] EvRemove d show ?thesis by (auto simp: jb_same_dims_def)
next
  case EvReset
  with jbuf_reset_ok [OF ok] d show ?thesis
    by (intro exI [of _ "pjmedia_jbuf_reset jb"] exI [of _ True]) (simp add: jb_same_dims_def pjmedia_jbuf_reset_def)
next
  case (EvFixed n)
  with set_prefetch_ok(1) [OF ok, of n] d show ?thesis by (auto simp: jb_same_dims_def pjmedia_jbuf_set_fixed_def)
next
  case (EvAdaptive n a b)
  with set_prefetch_ok(2) [OF ok, of n a b] d show ?thesis by (auto simp: jb_same_dims_def pjmedia_jbuf_set_adaptive_def)
next
  case (EvDiscard algo)
  with d have "algo = jb_algo jb \<or> jb_algo jb \<noteq> JB_DISCARD_STATIC \<or> fresh" "discards_ok algo (algo = jb_algo jb \<and> fresh) es" by simp_all
  with set_discard_ok [OF ok this(1)] EvDiscard show ?thesis
    by (intro exI [of _ "fst (pjmedia_jbuf_set_discard jb algo)"] exI [of _ "algo = jb_algo jb \<and> fresh"])
       (simp add: jb_same_dims_def pjmedia_jbuf_set_discard_def)
qed

lemma jb_run_ok:
  "jb_ok (fresh \<and> jb_algo jb = JB_DISCARD_STATIC) jb \<Longrightarrow> \<forall>e \<in> set es. jb_event_ok (jb_frame_size jb) e \<Longrightarrow>
   discards_ok (jb_algo jb) fresh es \<Longrightarrow> \<exists>jb' cl. jb_run jb es = Some jb' \<and> jb_ok cl jb' \<and> jb_same_dims jb jb'"
proof (induction es arbitrary: jb fresh)
  case Nil
  then show ?case by (auto simp: jb_same_dims_def)
next
  case (Cons e es)
  have "jb_event_ok (jb_frame_size jb) e" using Cons.prems(2) by simp
  from jb_step_ok [OF Cons.prems(1) this Cons.prems(3)] obtain jb1 fresh1 where
    1: "jb_step jb e = Some jb1" "jb_ok (fresh1 \<and> jb_algo jb1 = JB_DISCARD_STATIC) jb1"
      "discards_ok (jb_algo jb1) fresh1 es" "jb_same_dims jb jb1" by blast
  have "\<forall>e \<in> set es. jb_event_ok (jb_frame_size jb1) e" using Cons.prems(2) 1(4) by (simp add: jb_same_dims_def)
  from Cons.IH [OF 1(2) this 1(3)] 1(1,4) show ?case by (auto simp: jb_same_dims_def)
qed

text \<open>A new buffer satisfies the invariant when its packets last between 1 and 200 milliseconds.\<close>

lemma create_ok:
  assumes "jb_fl_ok fl" "fl_frame_size fl = fs" "fl_max_count fl = m" "0 < ptime" "ptime \<le> 200"
  shows "jb_ok False (pjmedia_jbuf_create fl fs ptime m)"
proof -
  have "1 \<le> JBUF_DISC_MIN_GAP div ptime"
    using assms(4,5) by (simp add: JBUF_DISC_MIN_GAP_def div_greater_zero_iff Suc_le_eq)
  moreover have "m * 4 div 5 \<le> m" by simp
  then have "min JB_DEFAULT_INIT_DELAY (m * 4 div 5) \<le> m" by simp
  ultimately show ?thesis
    using assms reset_ok
    by (simp add: pjmedia_jbuf_create_def pjmedia_jbuf_set_discard_def pjmedia_jbuf_reset_def
        jb_ok_def jb_shape_def jb_levels_def jb_sched_def jb_abs_def before_ref_def Let_def
        flip: of_nat_mult)
qed

section \<open>Properties\<close>

lemma init_ok:
  assumes "0 < m" "m < 2 ^ 31" "length c = m * fs" "length t = m" "length l = m" "length b = m" "length st = m"
  shows "jb_fl_ok (jb_framelist_init fs m c t l b st)"
  unfolding jb_framelist_init_def by (rule reset_ok_of_lengths) (use assms in simp_all)

lemma init_dims [simp]:
  "fl_frame_size (jb_framelist_init fs m c t l b st) = fs"
  "fl_max_count (jb_framelist_init fs m c t l b st) = m"
  by (simp_all add: jb_framelist_init_def)

lemma create_dims [simp]:
  "jb_frame_size (pjmedia_jbuf_create fl fs ptime m) = fs"
  "jb_max_count (pjmedia_jbuf_create fl fs ptime m) = m"
  by (simp_all add: pjmedia_jbuf_create_def pjmedia_jbuf_set_discard_def pjmedia_jbuf_reset_def Let_def)

text \<open>
  C5: from creation (whatever the arrays held before), every sequence of puts, gets, removals, resets,
  prefetch settings and changes of the discard algorithm runs to its end: no loop of the jitter buffer
  diverges.  After it the window is within the capacity, the discarded frames are counted exactly, so the
  effective size is the number of frames that are not discarded and its unsigned subtraction never wraps, the
  effective burst level is between 0 and four fifths of the capacity, and the prefetch between 0 and
  the capacity, so prefetching can always end.  Two conditions: a frame lasts 1 to 200 milliseconds (with
  more the smallest gap between two discards, \<open>PJMEDIA_JBUF_DISC_MIN_GAP / ptime\<close>, is 0), and the static algorithm is
  replaced by another one only in a buffer reset since it was chosen (\<open>discards_ok\<close>): it moves the discard
  reference back, and after that the progressive algorithm may discard, and count, a frame a second time.
\<close>

theorem jbuf_run_safe:
  assumes mem: "0 < m" "m < 2 ^ 31" "length c = m * fs" "length t = m" "length l = m" "length b = m"
      "length st = m"
    and ptime: "0 < ptime" "ptime \<le> 200"
    and ev: "\<forall>e \<in> set es. jb_event_ok fs e" "discards_ok JB_DISCARD_PROGRESSIVE True es"
  shows "\<exists>jb. jb_run (pjmedia_jbuf_create (jb_framelist_init fs m c t l b st) fs ptime m) es = Some jb \<and>
    fl_size (jb_framelist jb) \<le> m \<and>
    discarded_num (jb_framelist jb) = view_discarded (jb_window (jb_framelist jb)) \<and>
    jb_framelist_eff_size (jb_framelist jb) = live (jb_window (jb_framelist jb)) \<and>
    0 \<le> jb_eff_level jb \<and> jb_eff_level jb \<le> int (m * 4 div 5) \<and>
    0 \<le> jb_prefetch jb \<and> jb_prefetch jb \<le> int m"
proof -
  let ?jb = "pjmedia_jbuf_create (jb_framelist_init fs m c t l b st) fs ptime m"
  have algo: "jb_algo ?jb = JB_DISCARD_PROGRESSIVE"
    by (simp add: pjmedia_jbuf_create_def pjmedia_jbuf_set_discard_def pjmedia_jbuf_reset_def Let_def)
  have "jb_ok False ?jb"
    by (rule create_ok [OF init_ok [OF mem]]) (use ptime in simp_all)
  then have "jb_ok (True \<and> jb_algo ?jb = JB_DISCARD_STATIC) ?jb" by (simp add: algo)
  from jb_run_ok [OF this, of es] ev algo obtain jb cl where
    run: "jb_run ?jb es = Some jb" and ok: "jb_ok cl jb" and dims: "jb_same_dims ?jb jb"
    by (auto simp only: create_dims)
  then have m: "jb_max_count jb = m" by (simp add: jb_same_dims_def)
  have fl: "jb_fl_ok (jb_framelist jb)" "fl_max_count (jb_framelist jb) = m"
    and "jb_levels jb"
    using ok m by (simp_all add: jb_ok_def jb_shape_def)
  then show ?thesis
    using run m jb_fl_okD(9) [OF fl(1)] discarded_num_window [OF fl(1)] eff_size_window [OF fl(1)]
    by (auto simp: jb_levels_def live_def)
qed

definition ex_jb :: pjmedia_jbuf where
  "ex_jb = pjmedia_jbuf_create ex_fl 2 20 3"

theorem jbuf_run_safe_witness:
  "\<exists>jb. jb_run ex_jb [EvPut [1, 2] 2 0 7 0 None, EvGet ex_out, EvDiscard JB_DISCARD_STATIC, EvRemove 1, EvReset,
       EvDiscard JB_DISCARD_PROGRESSIVE] = Some jb \<and>
     fl_size (jb_framelist jb) \<le> 3 \<and> 0 \<le> jb_prefetch jb \<and> jb_prefetch jb \<le> 3"
  unfolding ex_jb_def ex_fl_def
  using jbuf_run_safe [of 3 "replicate 6 0" 2 "replicate 3 JB_MISSING_FRAME" "replicate 3 0"
      "replicate 3 0" "replicate 3 0" 20
      "[EvPut [1, 2] 2 0 7 0 None, EvGet ex_out, EvDiscard JB_DISCARD_STATIC, EvRemove 1, EvReset,
        EvDiscard JB_DISCARD_PROGRESSIVE]"]
  by (auto simp: ex_out_def)

text \<open>
  the room-making loop of \<open>pjmedia_jbuf_put_frame3\<close> ends after at most one removal: a frame that
  the frame list rejects because it lies beyond the capacity is always stored in the end, at the cost
  of the removed frames, which are counted as discarded; every other answer is kept as it is.
\<close>

theorem put_frame3_makes_room:
  assumes "jb_ok False jb" and "sz \<le> jb_frame_size jb" and "sz \<le> length frame"
    and "jb_framelist_put_at (jb_framelist jb) seq frame sz bits stamp JB_NORMAL_FRAME = (fl1, st1)"
  shows "\<exists>r st d. jb_put_retry (jb_max_count jb) seq frame sz bits stamp fl1 st1 (jb_discard jb)
      = Some (r, st, d) \<and> st \<noteq> PJ_ETOOMANY \<and>
    (if st1 = PJ_ETOOMANY then st = PJ_SUCCESS \<and> jb_discard jb < d else st = st1 \<and> d = jb_discard jb)"
  using put_retry_total [OF jb_ok_store [OF assms(1)] assms(2-4), of "jb_discard jb"] by (auto split: if_splits)

lemma ex_jb_ok: "jb_ok False ex_jb"
  unfolding ex_jb_def by (rule create_ok [OF ex_fl_ok]) simp_all

theorem put_frame3_makes_room_witness:
  "\<exists>r st d fl1 st1. jb_framelist_put_at (jb_framelist ex_jb) 7 [1, 2] 2 0 0 JB_NORMAL_FRAME = (fl1, st1) \<and>
     jb_put_retry 3 7 [1, 2] 2 0 0 fl1 st1 0 = Some (r, st, d) \<and> st \<noteq> PJ_ETOOMANY"
proof -
  obtain fl1 st1 where p: "jb_framelist_put_at (jb_framelist ex_jb) 7 [1, 2] 2 0 0 JB_NORMAL_FRAME = (fl1, st1)"
    by (cases "jb_framelist_put_at (jb_framelist ex_jb) 7 [1, 2] 2 0 0 JB_NORMAL_FRAME")
  have d: "jb_frame_size ex_jb = 2" "jb_max_count ex_jb = 3" "jb_discard ex_jb = 0"
    by (simp_all add: ex_jb_def)
       (simp add: pjmedia_jbuf_create_def pjmedia_jbuf_set_discard_def pjmedia_jbuf_reset_def Let_def)
  from put_frame3_makes_room [OF ex_jb_ok _ _ p] d p show ?thesis by fastforce
qed

text \<open>
  \<open>pjmedia_jbuf_remove_frame\<close> returns, for every count, and removes as many frames that are not
  discarded as asked for, or all there are; discarded frames on the way go with them and are not
  counted in the result.
\<close>

theorem remove_frame_correct:
  assumes "jb_fl_ok (jb_framelist jb)"
  shows "\<exists>k r. pjmedia_jbuf_remove_frame jb n =
      Some (jb\<lparr>jb_framelist := r\<rparr>, min n (live (jb_window (jb_framelist jb)))) \<and>
    jb_fl_ok r \<and> jb_abs r = view_remove k (jb_abs (jb_framelist jb)) \<and>
    live (take k (jb_window (jb_framelist jb))) = min n (live (jb_window (jb_framelist jb)))"
  using remove_frame_total [OF assms refl, of n] by blast

theorem remove_frame_correct_witness:
  "\<exists>r. pjmedia_jbuf_remove_frame (ex_jb\<lparr>jb_framelist := ex_fl2\<rparr>) 1 =
     Some (ex_jb\<lparr>jb_framelist := r\<rparr>, 1) \<and> jb_fl_ok r"
proof -
  have "jb_fl_ok (jb_framelist (ex_jb\<lparr>jb_framelist := ex_fl2\<rparr>))" using ex_fl2_ok by simp
  from remove_frame_correct [OF this, of 1] ex_fl2_ok(2) show ?thesis
    by (auto simp: jb_abs_def)
qed

text \<open>
  As long as no explicit prefetch setting is made, the prefetch of a new jitter buffer never
  changes, whatever the jitter: \<open>pjmedia_jbuf_create\<close> leaves \<open>jb_init_prefetch\<close> 0, which switches the
  adaptation off, although the header documents adaptation as the default.
\<close>

fun no_setting :: "jb_event \<Rightarrow> bool" where
  "no_setting (EvFixed n) = False"
| "no_setting (EvAdaptive n a b) = False"
| "no_setting _ = True"

definition not_adapting :: "int \<Rightarrow> pjmedia_jbuf \<Rightarrow> bool" where
  "not_adapting p jb \<longleftrightarrow> jb_init_prefetch jb = 0 \<and> jb_prefetch jb = p"

lemma update_not_adapting:
  assumes "not_adapting p jb"
  shows "not_adapting p (jbuf_update jb oper)"
  by (rule jbuf_update_inv)
     (use assms in \<open>simp_all add: not_adapting_def calculate_jitter_prefetch jbuf_run_discard_def Let_def
        split: jb_discard_algo.split\<close>)

lemma step_not_adapting:
  assumes "not_adapting p jb" "no_setting e" "jb_step jb e = Some jb'"
  shows "not_adapting p jb'"
proof (cases e)
  case (EvPut frame sz bits seq stamp d)
  have upd: "not_adapting p (jb\<lparr>jb_framelist := f, jb_discard := n\<rparr>)"
    "not_adapting p (jb\<lparr>jb_framelist := f, jb_discard := n, jb_prefetching := b, jb_level := l\<rparr>)" for f n b l
    using assms(1) by (simp_all add: not_adapting_def)
  from EvPut assms(3) show ?thesis
    using update_not_adapting [OF upd(2)] upd(1)
    by (clarsimp simp: pjmedia_jbuf_put_frame3_def Let_def bind_eq_Some_conv split_beta
        split del: if_split) (simp split: if_split)
next
  case (EvGet out)
  have "not_adapting p jb1" if "jb_get_store jb out = Some (jb1, out1)" for jb1 out1
    using that assms(1)
    by (clarsimp simp: jb_get_store_def Let_def bind_eq_Some_conv split_beta not_adapting_def)
       (auto simp: Let_def split: if_splits)
  with EvGet assms show ?thesis
    by (auto simp: pjmedia_jbuf_get_frame3_def bind_eq_Some_conv intro!: update_not_adapting
        split: if_splits) (auto simp: not_adapting_def)
next
  case (EvRemove n)
  with assms show ?thesis
    by (auto simp: pjmedia_jbuf_remove_frame_def Let_def bind_eq_Some_conv not_adapting_def)
qed (use assms in \<open>auto simp: not_adapting_def pjmedia_jbuf_reset_def pjmedia_jbuf_set_discard_def\<close>)

theorem default_prefetch_constant:
  assumes "\<forall>e \<in> set es. no_setting e"
    and "jb_run (pjmedia_jbuf_create fl fs ptime m) es = Some jb"
  shows "jb_prefetch jb = int (min 15 (m * 4 div 5))"
proof -
  have run: "not_adapting p jb0 \<Longrightarrow> \<forall>e \<in> set es. no_setting e \<Longrightarrow> jb_run jb0 es = Some jb \<Longrightarrow>
      not_adapting p jb" for p jb0
    by (induction es arbitrary: jb0) (auto simp: bind_eq_Some_conv dest: step_not_adapting)
  have "not_adapting (int (min 15 (m * 4 div 5))) (pjmedia_jbuf_create fl fs ptime m)"
    by (simp add: not_adapting_def pjmedia_jbuf_create_def pjmedia_jbuf_set_discard_def
        pjmedia_jbuf_reset_def Let_def JB_DEFAULT_INIT_DELAY_def)
  from run [OF this assms] show ?thesis by (simp add: not_adapting_def)
qed

theorem default_prefetch_constant_witness:
  "jb_run ex_jb [EvReset, EvReset] = Some (pjmedia_jbuf_reset (pjmedia_jbuf_reset ex_jb)) \<and>
   jb_prefetch (pjmedia_jbuf_reset (pjmedia_jbuf_reset ex_jb)) = 2"
  using default_prefetch_constant [of "[EvReset, EvReset]" ex_fl 2 20 3
      "pjmedia_jbuf_reset (pjmedia_jbuf_reset ex_jb)"]
  by (simp add: ex_jb_def)

text \<open>
  \<open>jbuf_calculate_jitter\<close> clamps the prefetch from above only when the burst level rises and from
  below only when it falls.  After a stable fall the prefetch is the effective level even where that
  is above \<open>jb_max_prefetch\<close>, the maximum the application has set.
\<close>

theorem falling_level_ignores_max_prefetch:
  assumes "jb_init_prefetch jb \<noteq> 0" and "jb_level jb < jb_eff_level jb" and "jb_stable_hist jb = 20"
    and "jb_max_hist_level jb = jb_eff_level jb" and "jb_min_prefetch jb < jb_eff_level jb"
  shows "jb_prefetch (jbuf_calculate_jitter jb) = jb_eff_level jb - 1"
proof -
  have "jb_eff_level (jbuf_calculate_jitter jb) = jb_eff_level jb - 1"
    using assms by (simp add: calculate_jitter_eff_level STABLE_HISTORY_LIMIT_def Let_def)
  with assms show ?thesis by (simp add: calculate_jitter_prefetch STABLE_HISTORY_LIMIT_def Let_def)
qed

theorem falling_level_ignores_max_prefetch_witness:
  "jb_prefetch (jbuf_calculate_jitter (ex_jb\<lparr>jb_init_prefetch := 1, jb_prefetch := 2, jb_max_prefetch := 2,
      jb_level := 1, jb_eff_level := 8, jb_max_hist_level := 8, jb_stable_hist := 20\<rparr>)) = 7"
proof -
  have "jb_min_prefetch ex_jb = 0"
    by (simp add: ex_jb_def pjmedia_jbuf_create_def pjmedia_jbuf_set_discard_def pjmedia_jbuf_reset_def Let_def)
  then show ?thesis
    using falling_level_ignores_max_prefetch [of "ex_jb\<lparr>jb_init_prefetch := 1, jb_prefetch := 2,
      jb_max_prefetch := 2, jb_level := 1, jb_eff_level := 8, jb_max_hist_level := 8, jb_stable_hist := 20\<rparr>"]
    by simp
qed

end
