(* ===== verification/Pj_types.thy ===== *)
theory Pj_types
  imports Prelude
begin

text \<open>
  Basic types of pjlib (\<open>pjlib/include/pj/types.h\<close>, \<open>errno.h\<close>, \<open>src/pj/types.c\<close>): status
  codes, and time values with their comparison macros and their normalisation.  Time values
  are an instance of \<open>linorder\<close>; the lemmas show that the comparison macros are that order and
  that normalisation keeps the represented number of milliseconds.
\<close>

section \<open>Status codes\<close>

type_synonym pj_status_t = int

abbreviation (input) PJ_SUCCESS :: pj_status_t where "PJ_SUCCESS \<equiv> 0"
abbreviation (input) PJ_EUNKNOWN :: pj_status_t where "PJ_EUNKNOWN \<equiv> 70001"
abbreviation (input) PJ_EPENDING :: pj_status_t where "PJ_EPENDING \<equiv> 70002"
abbreviation (input) PJ_EINVAL :: pj_status_t where "PJ_EINVAL \<equiv> 70004"
abbreviation (input) PJ_ENOTFOUND :: pj_status_t where "PJ_ENOTFOUND \<equiv> 70006"
abbreviation (input) PJ_EBUG :: pj_status_t where "PJ_EBUG \<equiv> 70008"
abbreviation (input) PJ_EBUSY :: pj_status_t where "PJ_EBUSY \<equiv> 70011"
abbreviation (input) PJ_EINVALIDOP :: pj_status_t where "PJ_EINVALIDOP \<equiv> 70013"
abbreviation (input) PJ_EEXISTS :: pj_status_t where "PJ_EEXISTS \<equiv> 70015"
abbreviation (input) PJ_ERESOLVE :: pj_status_t where "PJ_ERESOLVE \<equiv> 70018"

section \<open>Time values\<close>

datatype pj_time_val = TimeVal (tv_sec: int) (tv_msec: int)

definition PJ_TIME_VAL_MSEC :: "pj_time_val \<Rightarrow> int" where
  "PJ_TIME_VAL_MSEC t = tv_sec t * 1000 + tv_msec t"

definition PJ_TIME_VAL_EQ :: "pj_time_val \<Rightarrow> pj_time_val \<Rightarrow> bool" where
  "PJ_TIME_VAL_EQ t1 t2 = (tv_sec t1 = tv_sec t2 \<and> tv_msec t1 = tv_msec t2)"

definition PJ_TIME_VAL_GT :: "pj_time_val \<Rightarrow> pj_time_val \<Rightarrow> bool" where
  "PJ_TIME_VAL_GT t1 t2 =
     (tv_sec t1 > tv_sec t2 \<or> (tv_sec t1 = tv_sec t2 \<and> tv_msec t1 > tv_msec t2))"

definition PJ_TIME_VAL_GTE :: "pj_time_val \<Rightarrow> pj_time_val \<Rightarrow> bool" where
  "PJ_TIME_VAL_GTE t1 t2 = (PJ_TIME_VAL_GT t1 t2 \<or> PJ_TIME_VAL_EQ t1 t2)"

definition PJ_TIME_VAL_LT :: "pj_time_val \<Rightarrow> pj_time_val \<Rightarrow> bool" where
  "PJ_TIME_VAL_LT t1 t2 = (\<not> PJ_TIME_VAL_GTE t1 t2)"

definition PJ_TIME_VAL_LTE :: "pj_time_val \<Rightarrow> pj_time_val \<Rightarrow> bool" where
  "PJ_TIME_VAL_LTE t1 t2 = (\<not> PJ_TIME_VAL_GT t1 t2)"

text \<open>
  The branch for \<open>msec <= -1000\<close> of \<open>pj_time_val_normalize\<close> is a \<open>do\<close> loop; the positive branch
  divides.
\<close>

function tv_borrow :: "pj_time_val \<Rightarrow> pj_time_val" where
  "tv_borrow t =
     (let t = TimeVal (tv_sec t - 1) (tv_msec t + 1000)
      in if tv_msec t \<le> - 1000 then tv_borrow t else t)"
  by pat_completeness auto
termination by (relation "measure (\<lambda>t. nat (- tv_msec t))") auto

declare tv_borrow.simps [simp del]

definition pj_time_val_normalize :: "pj_time_val \<Rightarrow> pj_time_val" where
  "pj_time_val_normalize t =
     (let t1 = (if tv_msec t \<ge> 1000
                then TimeVal (tv_sec t + tv_msec t div 1000) (tv_msec t mod 1000)
                else if tv_msec t \<le> - 1000 then tv_borrow t else t)
      in if tv_sec t1 \<ge> 1 \<and> tv_msec t1 < 0 then TimeVal (tv_sec t1 - 1) (tv_msec t1 + 1000)
         else if tv_sec t1 < 0 \<and> tv_msec t1 > 0 then TimeVal (tv_sec t1 + 1) (tv_msec t1 - 1000)
         else t1)"

definition PJ_TIME_VAL_ADD :: "pj_time_val \<Rightarrow> pj_time_val \<Rightarrow> pj_time_val" where
  "PJ_TIME_VAL_ADD t1 t2 =
     pj_time_val_normalize (TimeVal (tv_sec t1 + tv_sec t2) (tv_msec t1 + tv_msec t2))"

definition PJ_TIME_VAL_SUB :: "pj_time_val \<Rightarrow> pj_time_val \<Rightarrow> pj_time_val" where
  "PJ_TIME_VAL_SUB t1 t2 =
     pj_time_val_normalize (TimeVal (tv_sec t1 - tv_sec t2) (tv_msec t1 - tv_msec t2))"

subsection \<open>The order\<close>

instantiation pj_time_val :: linorder
begin

definition less_eq_pj_time_val :: "pj_time_val \<Rightarrow> pj_time_val \<Rightarrow> bool" where
  "less_eq_pj_time_val t1 t2 = PJ_TIME_VAL_LTE t1 t2"

definition less_pj_time_val :: "pj_time_val \<Rightarrow> pj_time_val \<Rightarrow> bool" where
  "less_pj_time_val t1 t2 = PJ_TIME_VAL_LT t1 t2"

instance
proof
  fix x y z :: pj_time_val
  note defs = less_eq_pj_time_val_def less_pj_time_val_def PJ_TIME_VAL_LTE_def
    PJ_TIME_VAL_LT_def PJ_TIME_VAL_GTE_def PJ_TIME_VAL_GT_def PJ_TIME_VAL_EQ_def
  show "x < y \<longleftrightarrow> x \<le> y \<and> \<not> y \<le> x" unfolding defs by linarith
  show "x \<le> x" unfolding defs by linarith
  show "x \<le> y \<Longrightarrow> y \<le> z \<Longrightarrow> x \<le> z" unfolding defs by linarith
  show "x \<le> y \<Longrightarrow> y \<le> x \<Longrightarrow> x = y" unfolding defs by (rule pj_time_val.expand) linarith
  show "x \<le> y \<or> y \<le> x" unfolding defs by linarith
qed

end

lemma tv_lt [simp]: "PJ_TIME_VAL_LT t1 t2 = (t1 < t2)"
  by (simp only: less_pj_time_val_def)

lemma tv_lte [simp]: "PJ_TIME_VAL_LTE t1 t2 = (t1 \<le> t2)"
  by (simp only: less_eq_pj_time_val_def)

lemma tv_gte [simp]: "PJ_TIME_VAL_GTE t1 t2 = (t2 \<le> t1)"
  by (metis PJ_TIME_VAL_LT_def not_less less_pj_time_val_def)

lemma tv_le_iff:
  "t1 \<le> t2 \<longleftrightarrow> tv_sec t1 < tv_sec t2 \<or> (tv_sec t1 = tv_sec t2 \<and> tv_msec t1 \<le> tv_msec t2)"
  unfolding less_eq_pj_time_val_def PJ_TIME_VAL_LTE_def PJ_TIME_VAL_GT_def by linarith

lemma tv_less_iff:
  "t1 < t2 \<longleftrightarrow> tv_sec t1 < tv_sec t2 \<or> (tv_sec t1 = tv_sec t2 \<and> tv_msec t1 < tv_msec t2)"
  unfolding less_pj_time_val_def PJ_TIME_VAL_LT_def PJ_TIME_VAL_GTE_def PJ_TIME_VAL_GT_def
    PJ_TIME_VAL_EQ_def by linarith

subsection \<open>Normalisation\<close>

lemma tv_borrow_msec: "PJ_TIME_VAL_MSEC (tv_borrow t) = PJ_TIME_VAL_MSEC t"
proof (induction t rule: tv_borrow.induct)
  case (1 t)
  then show ?case by (subst tv_borrow.simps) (simp add: Let_def PJ_TIME_VAL_MSEC_def)
qed

lemma tv_borrow_range:
  "tv_msec t \<le> - 1000 \<Longrightarrow> - 1000 < tv_msec (tv_borrow t) \<and> tv_msec (tv_borrow t) \<le> 0"
proof (induction t rule: tv_borrow.induct)
  case (1 t)
  then show ?case by (subst (1 2) tv_borrow.simps) (simp add: Let_def)
qed

lemma normalize_msec: "PJ_TIME_VAL_MSEC (pj_time_val_normalize t) = PJ_TIME_VAL_MSEC t"
  using tv_borrow_msec [of t]
  by (auto simp: pj_time_val_normalize_def Let_def PJ_TIME_VAL_MSEC_def)

lemma normalize_range: "\<bar>tv_msec (pj_time_val_normalize t)\<bar> < 1000"
  using tv_borrow_range [of t]
  by (auto simp: pj_time_val_normalize_def Let_def)

lemma normalize_sign:
  "tv_sec (pj_time_val_normalize t) > 0 \<Longrightarrow> tv_msec (pj_time_val_normalize t) \<ge> 0"
  "tv_sec (pj_time_val_normalize t) < 0 \<Longrightarrow> tv_msec (pj_time_val_normalize t) \<le> 0"
  using tv_borrow_range [of t]
  by (auto simp: pj_time_val_normalize_def Let_def split: if_splits)

lemma time_add_msec: "PJ_TIME_VAL_MSEC (PJ_TIME_VAL_ADD a b) = PJ_TIME_VAL_MSEC a + PJ_TIME_VAL_MSEC b"
  by (simp add: PJ_TIME_VAL_ADD_def normalize_msec) (simp add: PJ_TIME_VAL_MSEC_def)

lemma time_sub_msec: "PJ_TIME_VAL_MSEC (PJ_TIME_VAL_SUB a b) = PJ_TIME_VAL_MSEC a - PJ_TIME_VAL_MSEC b"
  by (simp add: PJ_TIME_VAL_SUB_def normalize_msec) (simp add: PJ_TIME_VAL_MSEC_def)

end
