(* ===== verification/Timer_Heap.thy ===== *)
theory Timer_Heap
  imports Pj_types
begin

text \<open>
  The timer heap of pjlib (\<open>pjlib/src/pj/timer.c\<close>): a binary heap of pointers to the callers'
  timer entries in an array, and the parallel array \<open>timer_ids\<close>, which maps the id of a
  scheduled entry to its slot and chains the unused ids as a free list of negative numbers.
  Entries live in the callers' memory; pointers to them are natural numbers and \<open>entry\<close> is the
  memory they point into.  The clock and the callbacks are parameters.
\<close>

section \<open>Data\<close>

record pj_timer_entry =
  te_id :: int
  te_cb :: bool
  timer_id :: int
  timer_value :: pj_time_val

record pj_timer_heap_t =
  max_size :: nat
  cur_size :: nat
  max_entries_per_poll :: nat
  heap :: "nat list"
  timer_ids :: "int list"
  timer_ids_freelist :: int
  entry :: "nat \<Rightarrow> pj_timer_entry"

definition HEAP_PARENT :: "nat \<Rightarrow> nat" where
  "HEAP_PARENT x = (if x = 0 then 0 else (x - 1) div 2)"

definition HEAP_LEFT :: "nat \<Rightarrow> nat" where
  "HEAP_LEFT x = x + x + 1"

abbreviation tval :: "pj_timer_heap_t \<Rightarrow> nat \<Rightarrow> pj_time_val" where
  "tval ht e \<equiv> timer_value (entry ht e)"

abbreviation tid :: "pj_timer_heap_t \<Rightarrow> nat \<Rightarrow> nat" where
  "tid ht e \<equiv> nat (timer_id (entry ht e))"

section \<open>Operations\<close>

definition copy_node :: "pj_timer_heap_t \<Rightarrow> nat \<Rightarrow> nat \<Rightarrow> pj_timer_heap_t" where
  "copy_node ht slot moved_node =
     ht\<lparr>heap := (heap ht)[slot := moved_node],
        timer_ids := (timer_ids ht)[tid ht moved_node := int slot]\<rparr>"

definition pop_freelist :: "pj_timer_heap_t \<Rightarrow> pj_timer_heap_t \<times> int" where
  "pop_freelist ht =
     (ht\<lparr>timer_ids_freelist := - (timer_ids ht ! nat (timer_ids_freelist ht))\<rparr>,
      timer_ids_freelist ht)"

definition push_freelist :: "pj_timer_heap_t \<Rightarrow> int \<Rightarrow> pj_timer_heap_t" where
  "push_freelist ht old_id =
     ht\<lparr>timer_ids := (timer_ids ht)[nat old_id := - timer_ids_freelist ht],
        timer_ids_freelist := old_id\<rparr>"

text \<open>
  The loop of \<open>reheap_down\<close>: the smaller child moves up into the free slot as long as it
  expires before the moved node.
\<close>

function reheap_down :: "pj_timer_heap_t \<Rightarrow> nat \<Rightarrow> nat \<Rightarrow> nat \<Rightarrow> pj_timer_heap_t" where
  "reheap_down ht moved_node slot child =
     (if child < cur_size ht then
        let child = (if child + 1 < cur_size ht \<and>
                        PJ_TIME_VAL_LT (tval ht (heap ht ! (child + 1))) (tval ht (heap ht ! child))
                     then child + 1 else child)
        in if PJ_TIME_VAL_LT (tval ht (heap ht ! child)) (tval ht moved_node)
           then reheap_down (copy_node ht slot (heap ht ! child)) moved_node child (HEAP_LEFT child)
           else copy_node ht slot moved_node
      else copy_node ht slot moved_node)"
  by pat_completeness auto
termination
  by (relation "measure (\<lambda>(ht, m, slot, child). cur_size ht - child)")
    (auto simp: copy_node_def HEAP_LEFT_def split: if_splits)

declare reheap_down.simps [simp del]

text \<open>
  \<open>reheap_up\<close> takes the first parent from its caller; every further iteration computes it from
  the slot, which is \<open>reheap_up_loop\<close>.
\<close>

function reheap_up_loop :: "pj_timer_heap_t \<Rightarrow> nat \<Rightarrow> nat \<Rightarrow> pj_timer_heap_t" where
  "reheap_up_loop ht moved_node slot =
     (if slot > 0 \<and>
         PJ_TIME_VAL_LT (tval ht moved_node) (tval ht (heap ht ! HEAP_PARENT slot))
      then reheap_up_loop (copy_node ht slot (heap ht ! HEAP_PARENT slot)) moved_node
             (HEAP_PARENT slot)
      else copy_node ht slot moved_node)"
  by pat_completeness auto
termination
  by (relation "measure (\<lambda>(ht, m, slot). slot)") (auto simp: HEAP_PARENT_def)

declare reheap_up_loop.simps [simp del]

definition reheap_up :: "pj_timer_heap_t \<Rightarrow> nat \<Rightarrow> nat \<Rightarrow> nat \<Rightarrow> pj_timer_heap_t" where
  "reheap_up ht moved_node slot parent =
     (if slot > 0 \<and> PJ_TIME_VAL_LT (tval ht moved_node) (tval ht (heap ht ! parent))
      then reheap_up_loop (copy_node ht slot (heap ht ! parent)) moved_node parent
      else copy_node ht slot moved_node)"

definition remove_node :: "pj_timer_heap_t \<Rightarrow> nat \<Rightarrow> pj_timer_heap_t \<times> nat" where
  "remove_node ht slot =
     (let removed_node = heap ht ! slot;
          ht = push_freelist ht (timer_id (entry ht removed_node));
          ht = ht\<lparr>cur_size := cur_size ht - 1\<rparr>;
          ht = ht\<lparr>entry := (entry ht)(removed_node := (entry ht removed_node)\<lparr>timer_id := - 1\<rparr>)\<rparr>
      in if slot < cur_size ht then
           let moved_node = heap ht ! cur_size ht;
               ht = copy_node ht slot moved_node;
               parent = HEAP_PARENT slot
           in (if PJ_TIME_VAL_GTE (tval ht moved_node) (tval ht (heap ht ! parent))
               then reheap_down ht moved_node slot (HEAP_LEFT slot)
               else reheap_up ht moved_node slot parent,
               removed_node)
         else (ht, removed_node))"

text \<open>
  Growing doubles both arrays; the new part of the heap array is not initialised (0 here), the
  new ids are chained behind the old ones.  Allocation from the pool is assumed to succeed.
\<close>

definition grow_heap :: "pj_timer_heap_t \<Rightarrow> pj_timer_heap_t" where
  "grow_heap ht =
     (let new_size = max_size ht * 2
      in ht\<lparr>heap := take (max_size ht) (heap ht) @ replicate (new_size - max_size ht) 0,
            timer_ids := take (max_size ht) (timer_ids ht) @
                         map (\<lambda>i. - (int i + 1)) [max_size ht..<new_size],
            max_size := new_size\<rparr>)"

definition insert_node :: "pj_timer_heap_t \<Rightarrow> nat \<Rightarrow> pj_timer_heap_t" where
  "insert_node ht new_node =
     (let ht = (if cur_size ht + 2 \<ge> max_size ht then grow_heap ht else ht);
          ht = reheap_up ht new_node (cur_size ht) (HEAP_PARENT (cur_size ht))
      in ht\<lparr>cur_size := cur_size ht + 1\<rparr>)"

definition schedule_entry :: "pj_timer_heap_t \<Rightarrow> nat \<Rightarrow> pj_time_val \<Rightarrow> pj_timer_heap_t \<times> pj_status_t"
  where
  "schedule_entry ht e future_time =
     (if cur_size ht < max_size ht then
        let (ht, new_id) = pop_freelist ht;
            ht = ht\<lparr>entry := (entry ht)(e := (entry ht e)\<lparr>timer_id := new_id\<rparr>)\<rparr>;
            ht = ht\<lparr>entry := (entry ht)(e := (entry ht e)\<lparr>timer_value := future_time\<rparr>)\<rparr>
        in (insert_node ht e, 0)
      else (ht, - 1))"

text \<open>
  \<open>cancel\<close> returns the number of cancelled entries.  The close hook \<open>ht->callback\<close>, called
  when \<open>dont_call\<close> is 0, is a parameter.  Reading \<open>timer_ids\<close> past its end is unspecified.
\<close>

definition cancel ::
  "(pj_timer_heap_t \<Rightarrow> nat \<Rightarrow> pj_timer_heap_t) \<Rightarrow> pj_timer_heap_t \<Rightarrow> nat \<Rightarrow> int \<Rightarrow>
   pj_timer_heap_t \<times> int" where
  "cancel callback ht e dont_call =
     (if timer_id (entry ht e) < 0 \<or> tid ht e > max_size ht then (ht, 0)
      else let timer_node_slot = timer_ids ht ! tid ht e
           in if timer_node_slot < 0 then (ht, 0)
              else if e \<noteq> heap ht ! nat timer_node_slot then (ht, 0)
              else let ht = fst (remove_node ht (nat timer_node_slot))
                   in (if dont_call = 0 then callback ht e else ht, 1))"

definition pj_timer_heap_create :: "nat \<Rightarrow> (nat \<Rightarrow> pj_timer_entry) \<Rightarrow> pj_timer_heap_t" where
  "pj_timer_heap_create sz mem =
     (let sz = sz + 2
      in \<lparr>max_size = sz, cur_size = 0, max_entries_per_poll = 64, heap = replicate sz 0,
          timer_ids = map (\<lambda>i. - (int i + 1)) [0..<sz], timer_ids_freelist = 1,
          entry = mem\<rparr>)"

definition pj_timer_heap_set_max_timed_out_per_poll ::
  "pj_timer_heap_t \<Rightarrow> nat \<Rightarrow> pj_timer_heap_t \<times> nat" where
  "pj_timer_heap_set_max_timed_out_per_poll ht count =
     (ht\<lparr>max_entries_per_poll := count\<rparr>, max_entries_per_poll ht)"

definition pj_timer_entry_init :: "pj_timer_entry \<Rightarrow> int \<Rightarrow> pj_timer_entry" where
  "pj_timer_entry_init e i = e\<lparr>timer_id := - 1, te_id := i, te_cb := True\<rparr>"

text \<open>The argument \<open>now\<close> is the reading of \<open>pj_gettickcount\<close>.\<close>

definition pj_timer_heap_schedule ::
  "pj_time_val \<Rightarrow> pj_timer_heap_t \<Rightarrow> nat \<Rightarrow> pj_time_val \<Rightarrow> pj_timer_heap_t \<times> pj_status_t" where
  "pj_timer_heap_schedule now ht e delay =
     (if \<not> te_cb (entry ht e) then (ht, PJ_EINVAL)
      else if \<not> timer_id (entry ht e) < 1 then (ht, PJ_EINVALIDOP)
      else schedule_entry ht e (PJ_TIME_VAL_ADD now delay))"

definition pj_timer_heap_cancel :: "pj_timer_heap_t \<Rightarrow> nat \<Rightarrow> pj_timer_heap_t \<times> int" where
  "pj_timer_heap_cancel ht e = cancel (\<lambda>ht e. ht) ht e 1"

text \<open>
  The loop of \<open>pj_timer_heap_poll\<close>.  A callback may change the heap (it usually schedules or
  cancels entries) and a state \<open>'u\<close> of its own; it may also raise the limit of the loop, hence
  the partial function.
\<close>

partial_function (option) poll_loop ::
  "(nat \<Rightarrow> pj_timer_heap_t \<times> 'u \<Rightarrow> pj_timer_heap_t \<times> 'u) \<Rightarrow> pj_time_val \<Rightarrow>
   pj_timer_heap_t \<Rightarrow> 'u \<Rightarrow> nat \<Rightarrow> (pj_timer_heap_t \<times> 'u \<times> nat) option" where
  "poll_loop cb now ht u count =
     (if cur_size ht \<noteq> 0 \<and> PJ_TIME_VAL_LTE (tval ht (heap ht ! 0)) now \<and>
         count < max_entries_per_poll ht
      then let (ht, node) = remove_node ht 0;
               (ht, u) = (if te_cb (entry ht node) then cb node (ht, u) else (ht, u))
           in poll_loop cb now ht u (count + 1)
      else Some (ht, u, count))"

declare poll_loop.simps [code]

definition PJ_MAXINT32 :: int where
  "PJ_MAXINT32 = 2147483647"

definition pj_timer_heap_poll ::
  "(nat \<Rightarrow> pj_timer_heap_t \<times> 'u \<Rightarrow> pj_timer_heap_t \<times> 'u) \<Rightarrow> pj_time_val \<Rightarrow>
   pj_timer_heap_t \<Rightarrow> 'u \<Rightarrow> pj_time_val option \<Rightarrow>
   (pj_timer_heap_t \<times> 'u \<times> nat \<times> pj_time_val option) option" where
  "pj_timer_heap_poll cb now ht u next_delay =
     (if cur_size ht = 0 \<and> next_delay \<noteq> None
      then Some (ht, u, 0, Some (TimeVal PJ_MAXINT32 PJ_MAXINT32))
      else do {
        (ht, u, count) \<leftarrow> poll_loop cb now ht u 0;
        Some (ht, u, count,
          if cur_size ht \<noteq> 0 \<and> next_delay \<noteq> None then
            let d = PJ_TIME_VAL_SUB (tval ht (heap ht ! 0)) now
            in Some (if tv_sec d < 0 \<or> tv_msec d < 0 then TimeVal 0 0 else d)
          else set_out (TimeVal PJ_MAXINT32 PJ_MAXINT32) next_delay)
      })"

definition pj_timer_heap_count :: "pj_timer_heap_t \<Rightarrow> nat" where
  "pj_timer_heap_count ht = cur_size ht"

definition pj_timer_heap_earliest_time ::
  "pj_timer_heap_t \<Rightarrow> pj_time_val \<Rightarrow> pj_time_val \<times> pj_status_t" where
  "pj_timer_heap_earliest_time ht timeval =
     (if cur_size ht = 0 then (timeval, PJ_ENOTFOUND)
      else (tval ht (heap ht ! 0), PJ_SUCCESS))"


section \<open>Heap order, slots and ids\<close>

text \<open>
  \<open>ids_ok\<close>: every slot below \<open>n\<close>, except \<open>hole\<close>, is the one \<open>timer_ids\<close> records for its
  entry.  While a node moves, one slot is stale (\<open>hole\<close>) and the node \<open>m\<close> is outside the array.
\<close>

abbreviation id_in_range :: "pj_timer_heap_t \<Rightarrow> nat \<Rightarrow> bool" where
  "id_in_range ht e \<equiv> 1 \<le> timer_id (entry ht e) \<and> tid ht e < length (timer_ids ht)"

definition slot_ok :: "pj_timer_heap_t \<Rightarrow> nat \<Rightarrow> bool" where
  "slot_ok ht k \<longleftrightarrow> id_in_range ht (heap ht ! k) \<and> timer_ids ht ! tid ht (heap ht ! k) = int k"

definition hole_ok :: "pj_timer_heap_t \<Rightarrow> nat \<Rightarrow> nat \<Rightarrow> nat \<Rightarrow> bool" where
  "hole_ok ht n slot m \<longleftrightarrow> slot < n \<and> n \<le> length (heap ht) \<and> id_in_range ht m \<and>
     (\<forall>k<n. k \<noteq> slot \<longrightarrow> slot_ok ht k \<and> tid ht (heap ht ! k) \<noteq> tid ht m)"

abbreviation hval :: "pj_timer_heap_t \<Rightarrow> nat \<Rightarrow> pj_time_val" where
  "hval ht k \<equiv> tval ht (heap ht ! k)"

definition heap_ordered :: "pj_timer_heap_t \<Rightarrow> nat \<Rightarrow> bool" where
  "heap_ordered ht n \<longleftrightarrow> (\<forall>k<n. 0 < k \<longrightarrow> hval ht (HEAP_PARENT k) \<le> hval ht k)"

definition order_off :: "pj_timer_heap_t \<Rightarrow> nat \<Rightarrow> nat \<Rightarrow> bool" where
  "order_off ht n slot \<longleftrightarrow>
     (\<forall>k<n. 0 < k \<longrightarrow> k \<noteq> slot \<longrightarrow> HEAP_PARENT k \<noteq> slot \<longrightarrow> hval ht (HEAP_PARENT k) \<le> hval ht k) \<and>
     (\<forall>k<n. 0 < k \<longrightarrow> 0 < slot \<longrightarrow> HEAP_PARENT k = slot \<longrightarrow> hval ht (HEAP_PARENT slot) \<le> hval ht k)"

definition below_hole :: "pj_timer_heap_t \<Rightarrow> nat \<Rightarrow> nat \<Rightarrow> nat \<Rightarrow> bool" where
  "below_hole ht n slot m \<longleftrightarrow> (\<forall>k<n. 0 < k \<longrightarrow> HEAP_PARENT k = slot \<longrightarrow> tval ht m \<le> hval ht k)"

definition above_hole :: "pj_timer_heap_t \<Rightarrow> nat \<Rightarrow> nat \<Rightarrow> bool" where
  "above_hole ht slot m \<longleftrightarrow> (0 < slot \<longrightarrow> hval ht (HEAP_PARENT slot) \<le> tval ht m)"

definition others :: "pj_timer_heap_t \<Rightarrow> nat \<Rightarrow> nat \<Rightarrow> nat set" where
  "others ht n slot = (!) (heap ht) ` ({..<n} - {slot})"

lemma set_take_nth: "n \<le> length xs \<Longrightarrow> set (take n xs) = (!) xs ` {..<n}"
  using nth_image [of n xs] by (simp add: lessThan_atLeast0)

lemma HEAP_PARENT_less [simp]: "0 < k \<Longrightarrow> HEAP_PARENT k < k"
  by (auto simp: HEAP_PARENT_def)

lemma HEAP_PARENT_le [simp]: "HEAP_PARENT k \<le> k"
  by (auto simp: HEAP_PARENT_def)

lemma HEAP_PARENT_child:
  "0 < k \<Longrightarrow> HEAP_PARENT k = p \<longleftrightarrow> k = HEAP_LEFT p \<or> k = HEAP_LEFT p + 1"
  by (auto simp: HEAP_PARENT_def HEAP_LEFT_def) presburger

lemma copy_node_simps [simp]:
  "max_size (copy_node ht slot x) = max_size ht"
  "cur_size (copy_node ht slot x) = cur_size ht"
  "max_entries_per_poll (copy_node ht slot x) = max_entries_per_poll ht"
  "timer_ids_freelist (copy_node ht slot x) = timer_ids_freelist ht"
  "entry (copy_node ht slot x) = entry ht"
  "length (heap (copy_node ht slot x)) = length (heap ht)"
  "length (timer_ids (copy_node ht slot x)) = length (timer_ids ht)"
  "heap (copy_node ht slot x) = (heap ht)[slot := x]"
  by (simp_all add: copy_node_def)

lemma timer_ids_copy_node:
  "timer_ids (copy_node ht slot x) = (timer_ids ht)[tid ht x := int slot]"
  by (simp add: copy_node_def)

text \<open>The part of the heap structure a moving node leaves alone.\<close>

definition same_frame :: "pj_timer_heap_t \<Rightarrow> pj_timer_heap_t \<Rightarrow> bool" where
  "same_frame ht ht' \<longleftrightarrow> max_size ht' = max_size ht \<and> cur_size ht' = cur_size ht \<and>
     max_entries_per_poll ht' = max_entries_per_poll ht \<and>
     timer_ids_freelist ht' = timer_ids_freelist ht \<and> entry ht' = entry ht \<and>
     length (heap ht') = length (heap ht) \<and> length (timer_ids ht') = length (timer_ids ht)"

lemma same_frame_copy [simp]: "same_frame ht (copy_node ht slot x)"
  by (simp add: same_frame_def)

lemma same_frame_trans: "same_frame a b \<Longrightarrow> same_frame b c \<Longrightarrow> same_frame a c"
  by (simp add: same_frame_def)

lemma copy_into_hole:
  assumes h: "hole_ok ht n slot m" and p: "p < n" "p \<noteq> slot"
  defines "ht' \<equiv> copy_node ht slot (heap ht ! p)"
  shows "hole_ok ht' n p m" "others ht' n p = others ht n slot"
    "\<forall>i. i \<notin> tid ht ` others ht n slot \<longrightarrow> timer_ids ht' ! i = timer_ids ht ! i"
proof -
  from h p have x: "slot_ok ht p" "tid ht (heap ht ! p) \<noteq> tid ht m" and n: "n \<le> length (heap ht)"
    "slot < n" by (auto simp: hole_ok_def)
  have ok: "slot_ok ht' k \<and> tid ht' (heap ht' ! k) \<noteq> tid ht' m" if k: "k < n" "k \<noteq> p" for k
  proof (cases "k = slot")
    case True
    with x n show ?thesis by (simp add: ht'_def slot_ok_def timer_ids_copy_node)
  next
    case False
    with h k have "slot_ok ht k" "tid ht (heap ht ! k) \<noteq> tid ht m" by (auto simp: hole_ok_def)
    moreover from this x k have "tid ht (heap ht ! k) \<noteq> tid ht (heap ht ! p)"
      by (auto simp: slot_ok_def)
    ultimately show ?thesis using False by (simp add: ht'_def slot_ok_def timer_ids_copy_node)
  qed
  with h p show "hole_ok ht' n p m" by (simp add: hole_ok_def ht'_def)
  show "others ht' n p = others ht n slot"
  proof -
    have "{..<n} - {p} = insert slot ({..<n} - {p, slot})"
      "{..<n} - {slot} = insert p ({..<n} - {p, slot})" using p n by auto
    moreover have "(!) (heap ht') ` ({..<n} - {p, slot}) = (!) (heap ht) ` ({..<n} - {p, slot})"
      by (rule image_cong) (auto simp: ht'_def)
    ultimately show ?thesis using n by (simp add: others_def ht'_def)
  qed
  have "heap ht ! p \<in> others ht n slot" using p by (auto simp: others_def)
  then show "\<forall>i. i \<notin> tid ht ` others ht n slot \<longrightarrow> timer_ids ht' ! i = timer_ids ht ! i"
    unfolding ht'_def timer_ids_copy_node by (metis image_eqI nth_list_update_neq)
qed

lemma place_in_hole:
  assumes h: "hole_ok ht n slot m"
  defines "ht' \<equiv> copy_node ht slot m"
  shows "\<forall>k<n. slot_ok ht' k" "set (take n (heap ht')) = insert m (others ht n slot)"
    "\<forall>i. i \<notin> insert (tid ht m) (tid ht ` others ht n slot) \<longrightarrow> timer_ids ht' ! i = timer_ids ht ! i"
proof -
  from h have n: "slot < n" "n \<le> length (heap ht)" and m: "id_in_range ht m"
    by (auto simp: hole_ok_def)
  show "\<forall>k<n. slot_ok ht' k"
  proof (intro allI impI)
    fix k assume "k < n"
    with h n m show "slot_ok ht' k"
      by (cases "k = slot") (auto simp: ht'_def slot_ok_def timer_ids_copy_node hole_ok_def)
  qed
  have "{..<n} = insert slot ({..<n} - {slot})" using n by auto
  moreover have "(!) (heap ht') ` ({..<n} - {slot}) = (!) (heap ht) ` ({..<n} - {slot})"
    by (rule image_cong) (auto simp: ht'_def)
  ultimately have "(!) (heap ht') ` {..<n} = insert m ((!) (heap ht) ` ({..<n} - {slot}))"
    using n by (metis (no_types, lifting) copy_node_simps(8) ht'_def image_insert
      nth_list_update_eq order_less_le_trans)
  then show "set (take n (heap ht')) = insert m (others ht n slot)"
    using n by (simp add: set_take_nth others_def ht'_def)
  show "\<forall>i. i \<notin> insert (tid ht m) (tid ht ` others ht n slot) \<longrightarrow>
          timer_ids ht' ! i = timer_ids ht ! i"
    by (auto simp: ht'_def timer_ids_copy_node nth_list_update)
qed

text \<open>What a completed repair delivers: the node is placed, the order holds again.\<close>

definition reheaped :: "pj_timer_heap_t \<Rightarrow> nat \<Rightarrow> nat \<Rightarrow> nat \<Rightarrow> pj_timer_heap_t \<Rightarrow> bool" where
  "reheaped ht n slot m ht' \<longleftrightarrow> same_frame ht ht' \<and> (\<forall>k<n. slot_ok ht' k) \<and> heap_ordered ht' n \<and>
     set (take n (heap ht')) = insert m (others ht n slot) \<and>
     (\<forall>i. i \<notin> insert (tid ht m) (tid ht ` others ht n slot) \<longrightarrow> timer_ids ht' ! i = timer_ids ht ! i)"

lemma reheaped_place:
  assumes "hole_ok ht n slot m" "order_off ht n slot" "below_hole ht n slot m" "above_hole ht slot m"
  shows "reheaped ht n slot m (copy_node ht slot m)"
proof -
  have n: "slot < n" "n \<le> length (heap ht)" using assms(1) by (auto simp: hole_ok_def)
  have "heap_ordered (copy_node ht slot m) n"
    unfolding heap_ordered_def
  proof (intro allI impI)
    fix k assume k: "k < n" "0 < k"
    then have "HEAP_PARENT k < k" by simp
    with k n assms(2-4) show "hval (copy_node ht slot m) (HEAP_PARENT k) \<le> hval (copy_node ht slot m) k"
      by (cases "k = slot"; cases "HEAP_PARENT k = slot")
        (auto simp: order_off_def below_hole_def above_hole_def)
  qed
  with place_in_hole [OF assms(1)] show ?thesis by (simp add: reheaped_def)
qed

lemma reheaped_step:
  assumes h: "hole_ok ht n slot m" and p: "p < n" "p \<noteq> slot"
    and r: "reheaped (copy_node ht slot (heap ht ! p)) n p m ht'"
  shows "reheaped ht n slot m ht'"
proof -
  note c = copy_into_hole [OF h p]
  have "others ht n slot = others (copy_node ht slot (heap ht ! p)) n p" using c(2) by simp
  then show ?thesis
    using r c(3) by (auto simp: reheaped_def intro: same_frame_trans [OF same_frame_copy])
qed

lemma order_off_up:
  assumes h: "hole_ok ht n slot m" and o: "order_off ht n slot" and b: "below_hole ht n slot m"
    and s: "0 < slot" and lt: "tval ht m < hval ht (HEAP_PARENT slot)"
  defines "ht' \<equiv> copy_node ht slot (heap ht ! HEAP_PARENT slot)"
  shows "order_off ht' n (HEAP_PARENT slot)" "below_hole ht' n (HEAP_PARENT slot) m"
proof -
  have n: "slot < n" "n \<le> length (heap ht)" using h by (auto simp: hole_ok_def)
  have pl: "HEAP_PARENT slot < slot" using s by simp
  have up: "hval ht (HEAP_PARENT (HEAP_PARENT slot)) \<le> hval ht (HEAP_PARENT slot)"
    if "0 < HEAP_PARENT slot"
  proof -
    have "HEAP_PARENT (HEAP_PARENT slot) \<noteq> slot" using pl HEAP_PARENT_le [of "HEAP_PARENT slot"]
      by linarith
    with that o n pl show ?thesis by (auto simp: order_off_def)
  qed
  have v: "hval ht' k = (if k = slot then hval ht (HEAP_PARENT slot) else hval ht k)" for k
    using n by (simp add: ht'_def nth_list_update)
  have sib: "hval ht (HEAP_PARENT slot) \<le> hval ht k"
    if "k < n" "0 < k" "k \<noteq> slot" "HEAP_PARENT k = HEAP_PARENT slot" for k
    using o that s pl by (auto simp: order_off_def)
  show "order_off ht' n (HEAP_PARENT slot)"
    unfolding order_off_def
  proof (intro conjI allI impI)
    fix k assume k: "k < n" "0 < k" "k \<noteq> HEAP_PARENT slot" "HEAP_PARENT k \<noteq> HEAP_PARENT slot"
    then have "k \<noteq> slot" by auto
    then show "hval ht' (HEAP_PARENT k) \<le> hval ht' k"
      using k o s by (cases "HEAP_PARENT k = slot") (auto simp: v order_off_def)
  next
    fix k assume k: "k < n" "0 < k" "0 < HEAP_PARENT slot" "HEAP_PARENT k = HEAP_PARENT slot"
    have "HEAP_PARENT (HEAP_PARENT slot) \<noteq> slot" using pl HEAP_PARENT_le [of "HEAP_PARENT slot"]
      by linarith
    then show "hval ht' (HEAP_PARENT (HEAP_PARENT slot)) \<le> hval ht' k"
      using k up sib [of k] by (auto simp: v)
  qed
  show "below_hole ht' n (HEAP_PARENT slot) m"
    unfolding below_hole_def
  proof (intro allI impI)
    fix k assume k: "k < n" "0 < k" "HEAP_PARENT k = HEAP_PARENT slot"
    moreover have "tval ht' m = tval ht m" by (simp add: ht'_def)
    ultimately show "tval ht' m \<le> hval ht' k"
      using lt sib [of k] by (cases "k = slot") (auto simp: v)
  qed
qed

lemma reheap_up_loop_correct:
  assumes "hole_ok ht n slot m" "order_off ht n slot" "below_hole ht n slot m"
  shows "reheaped ht n slot m (reheap_up_loop ht m slot)"
  using assms
proof (induction ht m slot rule: reheap_up_loop.induct)
  case (1 ht m slot)
  show ?case
  proof (cases "0 < slot \<and> tval ht m < hval ht (HEAP_PARENT slot)")
    case True
    then have s: "0 < slot" "tval ht m < hval ht (HEAP_PARENT slot)" by auto
    have p: "HEAP_PARENT slot < n" "HEAP_PARENT slot \<noteq> slot"
      using s(1) "1.prems"(1) HEAP_PARENT_less [of slot] unfolding hole_ok_def by linarith+
    note c = copy_into_hole [OF "1.prems"(1) p]
    note u = order_off_up [OF "1.prems" s]
    have "reheaped (copy_node ht slot (heap ht ! HEAP_PARENT slot)) n (HEAP_PARENT slot) m
      (reheap_up_loop (copy_node ht slot (heap ht ! HEAP_PARENT slot)) m (HEAP_PARENT slot))"
      using "1.IH" True c(1) u by simp
    then have "reheaped ht n slot m
      (reheap_up_loop (copy_node ht slot (heap ht ! HEAP_PARENT slot)) m (HEAP_PARENT slot))"
      by (rule reheaped_step [OF "1.prems"(1) p])
    with True show ?thesis by (subst reheap_up_loop.simps) simp
  next
    case False
    then have "above_hole ht slot m" by (auto simp: above_hole_def)
    moreover have "reheap_up_loop ht m slot = copy_node ht slot m"
      using False by (subst reheap_up_loop.simps) auto
    ultimately show ?thesis using reheaped_place [OF "1.prems"] by simp
  qed
qed

lemma reheap_up_is_loop: "reheap_up ht m slot (HEAP_PARENT slot) = reheap_up_loop ht m slot"
  by (subst reheap_up_loop.simps) (simp add: reheap_up_def)

lemma order_off_down:
  assumes h: "hole_ok ht n slot m" and o: "order_off ht n slot"
    and c: "c < n" "0 < c" "HEAP_PARENT c = slot" "hval ht c < tval ht m"
    and least: "\<And>k. k < n \<Longrightarrow> 0 < k \<Longrightarrow> HEAP_PARENT k = slot \<Longrightarrow> hval ht c \<le> hval ht k"
  defines "ht' \<equiv> copy_node ht slot (heap ht ! c)"
  shows "order_off ht' n c" "above_hole ht' c m"
proof -
  have n: "slot < n" "n \<le> length (heap ht)" using h by (auto simp: hole_ok_def)
  have sc: "slot < c" using c(2,3) HEAP_PARENT_less [of c] by simp
  have v: "hval ht' k = (if k = slot then hval ht c else hval ht k)" for k
    using n by (simp add: ht'_def nth_list_update)
  show "order_off ht' n c"
    unfolding order_off_def
  proof (intro conjI allI impI)
    fix k assume k: "k < n" "0 < k" "k \<noteq> c" "HEAP_PARENT k \<noteq> c"
    show "hval ht' (HEAP_PARENT k) \<le> hval ht' k"
    proof (cases "k = slot")
      case True
      with k o c have "hval ht (HEAP_PARENT slot) \<le> hval ht c" by (auto simp: order_off_def)
      moreover have "HEAP_PARENT slot \<noteq> slot" using True k by (metis HEAP_PARENT_less less_irrefl)
      ultimately show ?thesis using True by (simp add: v)
    next
      case False
      then show ?thesis using k o least [of k] by (auto simp: v order_off_def)
    qed
  next
    fix k assume k: "k < n" "0 < k" "0 < c" "HEAP_PARENT k = c"
    then have "k \<noteq> slot" using sc HEAP_PARENT_less [of k] by auto
    moreover have "hval ht (HEAP_PARENT k) \<le> hval ht k"
      using o k \<open>k \<noteq> slot\<close> sc by (auto simp: order_off_def)
    ultimately show "hval ht' (HEAP_PARENT c) \<le> hval ht' k"
      using k c sc by (simp add: v)
  qed
  have "tval ht' m = tval ht m" by (simp add: ht'_def)
  then show "above_hole ht' c m" using c by (simp add: above_hole_def v less_imp_le)
qed

lemma reheap_down_correct:
  assumes "hole_ok ht n slot m" "order_off ht n slot" "above_hole ht slot m"
    and "child = HEAP_LEFT slot" "cur_size ht = n"
  shows "reheaped ht n slot m (reheap_down ht m slot child)"
  using assms
proof (induction ht m slot child rule: reheap_down.induct)
  case (1 ht m slot child)
  have kids: "k = child \<or> k = child + 1" if "0 < k" "HEAP_PARENT k = slot" for k
    using that HEAP_PARENT_child [of k slot] "1.prems"(4) by simp
  have par: "HEAP_PARENT child = slot" "HEAP_PARENT (child + 1) = slot" and pos: "0 < child"
    using "1.prems"(4) by (auto simp: HEAP_PARENT_def HEAP_LEFT_def)
  have sn: "slot < n" using "1.prems"(1) by (simp add: hole_ok_def)
  show ?case
  proof (cases "child < cur_size ht")
    case False
    have "below_hole ht n slot m"
      unfolding below_hole_def
    proof (intro allI impI)
      fix k assume "k < n" "0 < k" "HEAP_PARENT k = slot"
      then show "tval ht m \<le> hval ht k" using False kids [of k] "1.prems"(5) by linarith
    qed
    moreover have "reheap_down ht m slot child = copy_node ht slot m"
      using False by (subst reheap_down.simps) simp
    ultimately show ?thesis using reheaped_place [OF "1.prems"(1,2) _ "1.prems"(3)] by simp
  next
    case True
    define c where "c = (if child + 1 < cur_size ht \<and> hval ht (child + 1) < hval ht child
                         then child + 1 else child)"
    have c: "c < n" "0 < c" "HEAP_PARENT c = slot" using True "1.prems"(5) par pos
      by (auto simp: c_def)
    have least: "hval ht c \<le> hval ht k" if "k < n" "0 < k" "HEAP_PARENT k = slot" for k
      using kids [OF that(2,3)] that(1) "1.prems"(5) by (auto simp: c_def)
    have eq: "reheap_down ht m slot child =
      (if hval ht c < tval ht m then reheap_down (copy_node ht slot (heap ht ! c)) m c (HEAP_LEFT c)
       else copy_node ht slot m)"
      using True by (subst reheap_down.simps) (simp only: Let_def c_def tv_lt if_True)
    show ?thesis
    proof (cases "hval ht c < tval ht m")
      case lt: True
      have cs: "c \<noteq> slot" using c(2,3) by (metis HEAP_PARENT_less less_irrefl)
      note d = order_off_down [OF "1.prems"(1,2) c lt least]
      have "reheaped (copy_node ht slot (heap ht ! c)) n c m
        (reheap_down (copy_node ht slot (heap ht ! c)) m c (HEAP_LEFT c))"
      proof (rule "1.IH" [OF True])
        show "c = (if child + 1 < cur_size ht \<and> PJ_TIME_VAL_LT (hval ht (child + 1)) (hval ht child)
                   then child + 1 else child)" by (simp only: c_def tv_lt)
        show "PJ_TIME_VAL_LT (hval ht c) (tval ht m)" using lt by (simp only: tv_lt)
        show "hole_ok (copy_node ht slot (heap ht ! c)) n c m"
          by (rule copy_into_hole(1) [OF "1.prems"(1) c(1) cs])
        show "order_off (copy_node ht slot (heap ht ! c)) n c" by (rule d(1))
        show "above_hole (copy_node ht slot (heap ht ! c)) c m" by (rule d(2))
        show "cur_size (copy_node ht slot (heap ht ! c)) = n" using "1.prems"(5) by simp
      qed (rule refl)
      from reheaped_step [OF "1.prems"(1) c(1) cs this] lt eq show ?thesis by simp
    next
      case False
      have "below_hole ht n slot m"
        unfolding below_hole_def
      proof (intro allI impI)
        fix k assume "k < n" "0 < k" "HEAP_PARENT k = slot"
        from least [OF this] False show "tval ht m \<le> hval ht k" by simp
      qed
      with False eq reheaped_place [OF "1.prems"(1,2) _ "1.prems"(3)] show ?thesis by simp
    qed
  qed
qed

section \<open>The free list\<close>

text \<open>
  \<open>free_chain ids e s xs\<close>: following the negated ids from \<open>s\<close> visits exactly \<open>xs\<close> and ends at
  \<open>e\<close>, the index behind the array.
\<close>

fun free_chain :: "int list \<Rightarrow> nat \<Rightarrow> int \<Rightarrow> nat list \<Rightarrow> bool" where
  "free_chain ids e s [] = (s = int e)"
| "free_chain ids e s (x # xs) =
     (s = int x \<and> 1 \<le> x \<and> x < length ids \<and> free_chain ids e (- (ids ! x)) xs)"

lemma free_chain_start: "free_chain ids e s xs \<Longrightarrow> 1 \<le> e \<Longrightarrow> 1 \<le> s"
  by (cases xs) auto

lemma free_chain_neg: "free_chain ids e s xs \<Longrightarrow> 1 \<le> e \<Longrightarrow> x \<in> set xs \<Longrightarrow> ids ! x < 0"
proof (induction xs arbitrary: s)
  case (Cons y ys)
  then have "ids ! y < 0" using free_chain_start [of ids e "- (ids ! y)" ys] by simp
  with Cons show ?case by auto
qed simp

lemma free_chain_bounds: "free_chain ids e s xs \<Longrightarrow> \<forall>x\<in>set xs. x < length ids"
  by (induction xs arbitrary: s) auto

lemma free_chain_cong:
  "free_chain ids e s xs \<Longrightarrow> length ids' = length ids \<Longrightarrow> \<forall>x\<in>set xs. ids' ! x = ids ! x \<Longrightarrow>
   free_chain ids' e s xs"
  by (induction xs arbitrary: s) auto

lemma free_chain_fresh:
  "m \<le> n \<Longrightarrow> 1 \<le> m \<Longrightarrow> length ids = n \<Longrightarrow> \<forall>i. m \<le> i \<longrightarrow> i < n \<longrightarrow> ids ! i = - (int i + 1) \<Longrightarrow>
   free_chain ids n (int m) [m..<n]"
proof (induction "n - m" arbitrary: m)
  case 0
  then show ?case by simp
next
  case (Suc d)
  then have m: "m < n" by simp
  have "free_chain ids n (int (Suc m)) [Suc m..<n]"
    using Suc.hyps(2) Suc.prems by (intro Suc.hyps(1)) auto
  with m Suc.prems show ?case by (simp add: upt_conv_Cons add.commute)
qed

lemma free_chain_grow:
  assumes "free_chain ids m s xs" "length ids = m" "1 \<le> m" "m \<le> n"
    and "\<forall>i. m \<le> i \<longrightarrow> i < n \<longrightarrow> ids' ! i = - (int i + 1)"
    and "length ids' = n" "\<forall>i<m. ids' ! i = ids ! i"
  shows "free_chain ids' n s (xs @ [m..<n])"
  using assms(1)
proof (induction xs arbitrary: s)
  case Nil
  then show ?case using assms free_chain_fresh [of m n ids'] by simp
next
  case (Cons x xs)
  then show ?case using assms by simp
qed

section \<open>The invariant\<close>

definition entries :: "pj_timer_heap_t \<Rightarrow> nat set" where
  "entries ht = set (take (cur_size ht) (heap ht))"

definition theap_ok :: "pj_timer_heap_t \<Rightarrow> bool" where
  "theap_ok ht \<longleftrightarrow>
     length (heap ht) = max_size ht \<and> length (timer_ids ht) = max_size ht \<and>
     cur_size ht + 2 \<le> max_size ht \<and> timer_ids ht ! 0 < 0 \<and>
     (\<forall>k < cur_size ht. slot_ok ht k) \<and> heap_ordered ht (cur_size ht) \<and>
     (\<forall>e. e \<notin> entries ht \<longrightarrow> timer_id (entry ht e) < 1) \<and>
     (\<exists>xs. free_chain (timer_ids ht) (max_size ht) (timer_ids_freelist ht) xs \<and> distinct xs \<and>
           length xs + cur_size ht + 1 = max_size ht)"

lemma slot_unique:
  "slot_ok ht j \<Longrightarrow> slot_ok ht k \<Longrightarrow> tid ht (heap ht ! j) = tid ht (heap ht ! k) \<Longrightarrow> j = k"
  by (simp add: slot_ok_def)

lemma entries_nth:
  assumes "theap_ok ht" "e \<in> entries ht"
  shows "\<exists>k < cur_size ht. heap ht ! k = e"
proof -
  have "cur_size ht \<le> length (heap ht)" using assms(1) by (simp add: theap_ok_def)
  with assms(2) show ?thesis by (auto simp: entries_def set_take_nth)
qed

lemma nth_entries: "theap_ok ht \<Longrightarrow> k < cur_size ht \<Longrightarrow> heap ht ! k \<in> entries ht"
  by (auto simp: entries_def set_take_nth theap_ok_def)

lemma entries_id:
  assumes "theap_ok ht"
  shows "e \<in> entries ht \<longleftrightarrow> 1 \<le> timer_id (entry ht e)"
proof
  assume "e \<in> entries ht"
  then obtain k where "k < cur_size ht" "heap ht ! k = e" using entries_nth [OF assms] by auto
  with assms show "1 \<le> timer_id (entry ht e)" by (auto simp: theap_ok_def slot_ok_def)
next
  assume "1 \<le> timer_id (entry ht e)"
  with assms show "e \<in> entries ht" by (auto simp: theap_ok_def)
qed

lemma root_least:
  assumes "theap_ok ht" "k < cur_size ht"
  shows "hval ht 0 \<le> hval ht k"
  using assms(2)
proof (induction k rule: less_induct)
  case (less k)
  show ?case
  proof (cases "k = 0")
    case False
    then have "HEAP_PARENT k < k" by simp
    with less have "hval ht 0 \<le> hval ht (HEAP_PARENT k)" by simp
    also have "\<dots> \<le> hval ht k"
      using assms(1) less.prems False by (simp add: theap_ok_def heap_ordered_def)
    finally show ?thesis .
  qed simp
qed

lemma theap_ok_create:
  assumes "\<forall>e. timer_id (mem e) < 1"
  shows "theap_ok (pj_timer_heap_create sz mem)"
proof -
  let ?ids = "map (\<lambda>i. - (int i + 1)) [0..<sz + 2]"
  have n: "?ids ! i = - (int i + 1)" if "i < sz + 2" for i
    using that by (subst nth_map) (simp_all del: upt_Suc)
  have c: "free_chain ?ids (sz + 2) 1 [1..<sz + 2]"
    using free_chain_fresh [of 1 "sz + 2" ?ids] n by simp
  have "length [1..<sz + 2] + 0 + 1 = sz + 2" by simp
  with c assms n [of 0] show ?thesis
    unfolding theap_ok_def pj_timer_heap_create_def Let_def
    by (auto simp: entries_def heap_ordered_def simp del: upt_Suc intro!: exI [of _ "[1..<sz + 2]"])
qed

section \<open>Removing a node\<close>

definition detach :: "pj_timer_heap_t \<Rightarrow> nat \<Rightarrow> pj_timer_heap_t" where
  "detach ht e =
     ht\<lparr>timer_ids := (timer_ids ht)[tid ht e := - timer_ids_freelist ht],
        timer_ids_freelist := timer_id (entry ht e), cur_size := cur_size ht - 1,
        entry := (entry ht)(e := (entry ht e)\<lparr>timer_id := - 1\<rparr>)\<rparr>"

lemma remove_node_alt:
  "remove_node ht slot =
     (let ht1 = detach ht (heap ht ! slot); n = cur_size ht - 1; m = heap ht ! n;
          ht2 = copy_node ht1 slot m
      in (if slot < n then
            if tval ht2 (heap ht2 ! HEAP_PARENT slot) \<le> tval ht2 m
            then reheap_down ht2 m slot (HEAP_LEFT slot)
            else reheap_up_loop ht2 m slot
          else ht1, heap ht ! slot))"
  by (simp add: remove_node_def detach_def push_freelist_def Let_def reheap_up_is_loop)

text \<open>The effect of \<open>remove_node\<close>, apart from where the remaining entries end up.\<close>

definition removed :: "pj_timer_heap_t \<Rightarrow> nat \<Rightarrow> pj_timer_heap_t \<Rightarrow> bool" where
  "removed ht e ht' \<longleftrightarrow> theap_ok ht' \<and> entries ht' = entries ht - {e} \<and>
     entry ht' = (entry ht)(e := (entry ht e)\<lparr>timer_id := - 1\<rparr>) \<and>
     cur_size ht' = cur_size ht - 1 \<and> max_size ht' = max_size ht \<and>
     max_entries_per_poll ht' = max_entries_per_poll ht"

lemma detach_slots:
  assumes ok: "theap_ok ht" and slot: "slot < cur_size ht" and k: "k < cur_size ht" "k \<noteq> slot"
  shows "slot_ok (detach ht (heap ht ! slot)) k" "heap ht ! k \<noteq> heap ht ! slot"
    "tid ht (heap ht ! k) \<noteq> tid ht (heap ht ! slot)"
proof -
  have s: "slot_ok ht k" "slot_ok ht slot" using assms by (auto simp: theap_ok_def)
  show t: "tid ht (heap ht ! k) \<noteq> tid ht (heap ht ! slot)"
    using slot_unique [OF s] k by auto
  then show "heap ht ! k \<noteq> heap ht ! slot" by auto
  with s t show "slot_ok (detach ht (heap ht ! slot)) k" by (simp add: slot_ok_def detach_def)
qed

lemma remove_finish:
  assumes ok: "theap_ok ht" and slot: "slot < cur_size ht"
  defines "e \<equiv> heap ht ! slot" and "n \<equiv> cur_size ht - 1"
  assumes fr: "same_frame (detach ht e) ht'" and sl: "\<forall>k<n. slot_ok ht' k"
    and ord: "heap_ordered ht' n" and st: "set (take n (heap ht')) = entries ht - {e}"
    and ids: "\<forall>i. i \<notin> tid (detach ht e) ` (entries ht - {e}) \<longrightarrow>
                timer_ids ht' ! i = timer_ids (detach ht e) ! i"
  shows "removed ht e ht'"
proof -
  have e: "e \<in> entries ht" using nth_entries [OF ok slot] by (simp add: e_def)
  have se: "slot_ok ht slot" using ok slot by (simp add: theap_ok_def)
  then have er: "id_in_range ht e" by (simp add: slot_ok_def e_def)
  then have t1: "Suc 0 \<le> tid ht e" by linarith
  have L: "length (heap ht') = max_size ht" "length (timer_ids ht') = max_size ht"
    "max_size ht' = max_size ht" "cur_size ht' = n" "max_entries_per_poll ht' = max_entries_per_poll ht"
    "timer_ids_freelist ht' = timer_id (entry ht e)"
    "entry ht' = (entry ht)(e := (entry ht e)\<lparr>timer_id := - 1\<rparr>)"
    using fr ok by (simp_all add: same_frame_def detach_def n_def theap_ok_def)
  obtain xs where xs: "free_chain (timer_ids ht) (max_size ht) (timer_ids_freelist ht) xs"
    "distinct xs" "length xs + cur_size ht + 1 = max_size ht"
    using ok by (auto simp: theap_ok_def)
  have mx: "1 \<le> max_size ht" using ok by (simp add: theap_ok_def)
  have neg: "timer_ids ht ! x < 0" if "x \<in> set xs" for x
    using free_chain_neg [OF xs(1) mx that] .
  have pos: "0 \<le> timer_ids ht ! tid ht f" if f: "f \<in> entries ht" for f
  proof -
    obtain k where "k < cur_size ht" "heap ht ! k = f" using entries_nth [OF ok f] by auto
    with ok show ?thesis by (auto simp: theap_ok_def slot_ok_def)
  qed
  have tid1: "tid (detach ht e) f = tid ht f" if "f \<in> entries ht - {e}" for f
    using that by (simp add: detach_def)
  have keep: "timer_ids ht' ! x = timer_ids ht ! x" if "x \<in> set xs \<or> x = 0" for x
  proof -
    have z: "timer_ids ht ! x < 0" using that neg ok by (auto simp: theap_ok_def)
    have "x \<noteq> tid (detach ht e) f" if f: "f \<in> entries ht - {e}" for f
    proof
      assume "x = tid (detach ht e) f"
      then have "x = tid ht f" using tid1 [OF f] by simp
      with z pos [of f] f show False by simp
    qed
    then have "x \<notin> tid (detach ht e) ` (entries ht - {e})" by blast
    moreover have "x \<noteq> tid ht e" using z pos [OF e] by auto
    ultimately show ?thesis using ids by (simp add: detach_def)
  qed
  have te: "timer_ids ht' ! tid ht e = - timer_ids_freelist ht"
  proof -
    have "tid ht e \<notin> tid (detach ht e) ` (entries ht - {e})"
    proof
      assume "tid ht e \<in> tid (detach ht e) ` (entries ht - {e})"
      then obtain f where f: "f \<in> entries ht - {e}" "tid ht e = tid ht f" using tid1 by auto
      then obtain k where "k < cur_size ht" "heap ht ! k = f" using entries_nth [OF ok] by auto
      with f detach_slots(3) [OF ok slot, of k] show False by (auto simp: e_def)
    qed
    with ids er show ?thesis by (simp add: detach_def)
  qed
  have "free_chain (timer_ids ht') (max_size ht) (timer_ids_freelist ht) xs"
    using free_chain_cong [OF xs(1)] keep L ok by (simp add: theap_ok_def)
  then have "free_chain (timer_ids ht') (max_size ht') (timer_ids_freelist ht') (tid ht e # xs)"
    using te er L ok t1 by (simp add: theap_ok_def)
  moreover have "distinct (tid ht e # xs)" using xs(2) neg pos [OF e] by fastforce
  moreover have "length (tid ht e # xs) + cur_size ht' + 1 = max_size ht'"
    using xs(3) slot L by (simp add: n_def)
  ultimately have "\<exists>xs. free_chain (timer_ids ht') (max_size ht') (timer_ids_freelist ht') xs \<and>
      distinct xs \<and> length xs + cur_size ht' + 1 = max_size ht'" by blast
  moreover have "timer_ids ht' ! 0 < 0" using keep [of 0] ok by (simp add: theap_ok_def)
  moreover have "entries ht' = entries ht - {e}" using st L by (simp add: entries_def)
  moreover have "\<forall>f. f \<notin> entries ht - {e} \<longrightarrow> timer_id (entry ht' f) < 1"
    using ok L by (auto simp: theap_ok_def)
  moreover have "n + 2 \<le> max_size ht"
  proof -
    have "cur_size ht + 2 \<le> max_size ht" using ok by (simp add: theap_ok_def)
    then show ?thesis unfolding n_def by linarith
  qed
  ultimately show ?thesis using sl ord L by (simp add: removed_def theap_ok_def n_def)
qed

lemma remove_entries:
  assumes ok: "theap_ok ht" and slot: "slot < cur_size ht"
  defines "n \<equiv> cur_size ht - 1"
  shows "slot = n \<Longrightarrow> set (take n (heap ht)) = entries ht - {heap ht ! slot}"
    "slot < n \<Longrightarrow> insert (heap ht ! n) (others ht n slot) = entries ht - {heap ht ! slot}"
proof -
  have len: "cur_size ht \<le> length (heap ht)" using ok by (simp add: theap_ok_def)
  have ne: "heap ht ! k \<noteq> heap ht ! slot" if "k < cur_size ht" "k \<noteq> slot" for k
    using detach_slots(2) [OF ok slot that] .
  have E: "entries ht - {heap ht ! slot} = (!) (heap ht) ` ({..<cur_size ht} - {slot})"
    using ne len slot by (auto simp: entries_def set_take_nth)
  show "set (take n (heap ht)) = entries ht - {heap ht ! slot}" if "slot = n"
  proof -
    have "{..<cur_size ht} - {slot} = {..<n}" using that slot by (auto simp: n_def)
    with E len show ?thesis by (simp add: set_take_nth n_def)
  qed
  show "insert (heap ht ! n) (others ht n slot) = entries ht - {heap ht ! slot}" if "slot < n"
  proof -
    have "{..<cur_size ht} - {slot} = insert n ({..<n} - {slot})" using that by (auto simp: n_def)
    with E show ?thesis by (simp add: others_def)
  qed
qed

lemma remove_node_ok:
  assumes ok: "theap_ok ht" and slot: "slot < cur_size ht"
  shows "snd (remove_node ht slot) = heap ht ! slot"
    "removed ht (heap ht ! slot) (fst (remove_node ht slot))"
proof -
  define e where "e = heap ht ! slot"
  define n where "n = cur_size ht - 1"
  define ht1 where "ht1 = detach ht e"
  define m where "m = heap ht ! n"
  define ht2 where "ht2 = copy_node ht1 slot m"
  show "snd (remove_node ht slot) = heap ht ! slot" by (simp add: remove_node_alt Let_def)
  have h1: "heap ht1 = heap ht" "cur_size ht1 = n" "tval ht1 = tval ht"
    by (auto simp: ht1_def detach_def n_def)
  have sl1: "slot_ok ht1 k" if "k < cur_size ht" "k \<noteq> slot" for k
    using detach_slots(1) [OF ok slot that] by (simp add: ht1_def e_def)
  have "cur_size ht + 2 \<le> length (heap ht)" using ok by (simp add: theap_ok_def)
  then have len: "n < length (heap ht)" using slot unfolding n_def by linarith
  have ordk: "hval ht (HEAP_PARENT k) \<le> hval ht k" if "k < cur_size ht" "0 < k" for k
    using ok that by (simp add: theap_ok_def heap_ordered_def)
  have tv1: "tval ht1 x = tval ht x" for x using h1(3) by meson
  show "removed ht (heap ht ! slot) (fst (remove_node ht slot))"
  proof (cases "slot < n")
    case False
    then have sn: "slot = n" using slot by (simp add: n_def)
    have "removed ht e ht1"
      unfolding e_def
    proof (rule remove_finish [OF ok slot, folded n_def])
      show "same_frame (detach ht (heap ht ! slot)) ht1" by (simp add: ht1_def e_def same_frame_def)
      show "\<forall>k<n. slot_ok ht1 k" using sl1 sn by (simp add: n_def)
      show "heap_ordered ht1 n" using ordk by (simp add: heap_ordered_def h1 tv1 n_def)
      show "set (take n (heap ht1)) = entries ht - {heap ht ! slot}"
        using remove_entries(1) [OF ok slot, folded n_def] sn h1 by simp
    qed (simp add: ht1_def e_def)
    with False show ?thesis
      by (simp add: remove_node_alt Let_def ht1_def e_def n_def)
  next
    case True
    define ht' where "ht' = (if tval ht2 (heap ht2 ! HEAP_PARENT slot) \<le> tval ht2 m
            then reheap_down ht2 m slot (HEAP_LEFT slot) else reheap_up_loop ht2 m slot)"
    have r: "fst (remove_node ht slot) = ht'"
      using True by (simp add: remove_node_alt Let_def ht'_def ht2_def ht1_def e_def n_def m_def)
    have h2: "heap ht2 = (heap ht)[slot := m]" "cur_size ht2 = n" "tval ht2 = tval ht"
      "length (heap ht2) = length (heap ht)" "entry ht2 = entry ht1"
      by (auto simp: ht2_def h1)
    have tv2: "tval ht2 x = tval ht x" for x using h2(3) by meson
    have nc: "n < cur_size ht" "n \<noteq> slot" using True slot by (auto simp: n_def)
    have v: "hval ht2 k = hval ht k" if "k \<noteq> slot" for k using that by (simp add: tv1 h2)
    have hole: "hole_ok ht2 n slot m"
      unfolding hole_ok_def
    proof (intro conjI allI impI)
      show "slot < n" by (rule True)
      show "n \<le> length (heap ht2)" using len h2 by simp
      have "slot_ok ht1 n" by (rule sl1 [OF nc])
      then show m1: "1 \<le> timer_id (entry ht2 m)" "tid ht2 m < length (timer_ids ht2)"
        by (simp_all add: slot_ok_def h1 m_def ht2_def)
      fix k assume k: "k < n" "k \<noteq> slot"
      then have kc: "k < cur_size ht" by (simp add: n_def)
      have s: "slot_ok ht1 k" "slot_ok ht1 n" using sl1 [OF kc k(2)] sl1 [OF nc] by auto
      show d: "tid ht2 (heap ht2 ! k) \<noteq> tid ht2 m"
        using slot_unique [OF s] k by (auto simp: h2 h1 m_def)
      show "slot_ok ht2 k"
        using s(1) d k by (simp add: slot_ok_def ht2_def timer_ids_copy_node h1)
    qed
    have off: "order_off ht2 n slot"
      unfolding order_off_def
    proof (intro conjI allI impI)
      fix k assume k: "k < n" "0 < k" "k \<noteq> slot" "HEAP_PARENT k \<noteq> slot"
      then show "hval ht2 (HEAP_PARENT k) \<le> hval ht2 k" using ordk [of k] v by (simp add: n_def)
    next
      fix k assume k: "k < n" "0 < k" "0 < slot" "HEAP_PARENT k = slot"
      have "k \<noteq> slot" "HEAP_PARENT slot \<noteq> slot" using k by (metis HEAP_PARENT_less less_irrefl)+
      moreover have "hval ht (HEAP_PARENT slot) \<le> hval ht slot" "hval ht slot \<le> hval ht k"
        using ordk [OF slot k(3)] ordk [of k] k by (auto simp: n_def)
      ultimately show "hval ht2 (HEAP_PARENT slot) \<le> hval ht2 k" using v by simp
    qed
    have rh: "reheaped ht2 n slot m ht'"
    proof (cases "tval ht2 (heap ht2 ! HEAP_PARENT slot) \<le> tval ht2 m")
      case down: True
      then have "above_hole ht2 slot m" by (simp add: above_hole_def)
      from reheap_down_correct [OF hole off this refl h2(2)] down show ?thesis
        by (simp add: ht'_def)
    next
      case up: False
      have "below_hole ht2 n slot m"
        unfolding below_hole_def
      proof (intro allI impI)
        fix k assume k: "k < n" "0 < k" "HEAP_PARENT k = slot"
        have ks: "k \<noteq> slot" using k by (metis HEAP_PARENT_less less_irrefl)
        have "slot < length (heap ht)" using True len by linarith
        with up have s0: "0 < slot" by (cases "slot = 0") (auto simp: h2 HEAP_PARENT_def)
        then have "HEAP_PARENT slot \<noteq> slot" by (metis HEAP_PARENT_less less_irrefl)
        with up v have "tval ht2 m \<le> hval ht (HEAP_PARENT slot)" by simp
        also have "\<dots> \<le> hval ht slot" using ordk [OF slot s0] .
        also have "\<dots> \<le> hval ht k" using ordk [of k] k by (simp add: n_def)
        finally show "tval ht2 m \<le> hval ht2 k" using v [OF ks] by simp
      qed
      from reheap_up_loop_correct [OF hole off this] up show ?thesis by (simp add: ht'_def)
    qed
    have ot: "others ht2 n slot = others ht n slot"
      unfolding others_def by (rule image_cong) (auto simp: h2)
    note re = remove_entries(2) [OF ok slot, folded n_def e_def m_def, OF True]
    have img: "tid ht1 ` (entries ht - {e}) = insert (tid ht1 m) (tid ht1 ` others ht n slot)"
      unfolding re [symmetric] by (rule image_insert)
    have ids2: "timer_ids ht2 ! i = timer_ids ht1 ! i" if "i \<noteq> tid ht1 m" for i
      using that by (simp add: ht2_def timer_ids_copy_node)
    have R: "same_frame ht1 ht'" "\<forall>k<n. slot_ok ht' k" "heap_ordered ht' n"
      "set (take n (heap ht')) = entries ht - {e}"
      "\<forall>i. i \<notin> tid ht1 ` (entries ht - {e}) \<longrightarrow> timer_ids ht' ! i = timer_ids ht1 ! i"
    proof -
      show "same_frame ht1 ht'"
        by (rule same_frame_trans [OF same_frame_copy [of ht1 slot m]]) (use rh in \<open>simp add: reheaped_def ht2_def\<close>)
      show "\<forall>k<n. slot_ok ht' k" "heap_ordered ht' n" using rh by (simp_all add: reheaped_def)
      show "set (take n (heap ht')) = entries ht - {e}"
        using rh re ot by (simp add: reheaped_def)
      show "\<forall>i. i \<notin> tid ht1 ` (entries ht - {e}) \<longrightarrow> timer_ids ht' ! i = timer_ids ht1 ! i"
        using rh ot ids2 unfolding img reheaped_def h2(5) by (metis insertCI)
    qed
    have "removed ht e ht'"
      unfolding e_def by (rule remove_finish [OF ok slot, folded n_def]) (use R in \<open>simp_all add: ht1_def e_def\<close>)
    with r show ?thesis by (simp add: e_def)
  qed
qed

section \<open>Inserting a node\<close>

lemma grow_heap_simps [simp]:
  "cur_size (grow_heap ht) = cur_size ht" "entry (grow_heap ht) = entry ht"
  "max_size (grow_heap ht) = 2 * max_size ht"
  "max_entries_per_poll (grow_heap ht) = max_entries_per_poll ht"
  "timer_ids_freelist (grow_heap ht) = timer_ids_freelist ht"
  by (simp_all add: grow_heap_def Let_def)

text \<open>
  \<open>inserting\<close> is the state while an entry waits to be placed: its id has been taken from the
  free list, the slots in use are intact.
\<close>

definition inserting :: "pj_timer_heap_t \<Rightarrow> nat \<Rightarrow> bool" where
  "inserting ht e \<longleftrightarrow>
     length (heap ht) = max_size ht \<and> length (timer_ids ht) = max_size ht \<and>
     cur_size ht + 2 \<le> max_size ht \<and> timer_ids ht ! 0 < 0 \<and>
     (\<forall>k < cur_size ht. slot_ok ht k \<and> tid ht (heap ht ! k) \<noteq> tid ht e) \<and>
     heap_ordered ht (cur_size ht) \<and> id_in_range ht e \<and>
     (\<forall>f. f \<notin> insert e (entries ht) \<longrightarrow> timer_id (entry ht f) < 1) \<and>
     (\<exists>xs. free_chain (timer_ids ht) (max_size ht) (timer_ids_freelist ht) xs \<and> distinct xs \<and>
           tid ht e \<notin> set xs \<and> length xs + cur_size ht + 2 = max_size ht)"

lemma inserting_grow:
  assumes i: "inserting ht e"
  shows "inserting (grow_heap ht) e" "entries (grow_heap ht) = entries ht"
proof -
  let ?m = "max_size ht" and ?g = "grow_heap ht"
  have len: "length (heap ht) = ?m" "length (timer_ids ht) = ?m" "cur_size ht + 2 \<le> ?m"
    using i by (auto simp: inserting_def)
  have g: "heap ?g = heap ht @ replicate ?m 0"
    "timer_ids ?g = timer_ids ht @ map (\<lambda>i. - (int i + 1)) [?m..<2 * ?m]"
    using len by (simp_all add: grow_heap_def Let_def mult.commute mult_2)
  have hk: "heap ?g ! k = heap ht ! k" if "k < cur_size ht" for k
    using that len by (simp add: g nth_append)
  have ik: "timer_ids ?g ! j = timer_ids ht ! j" if "j < ?m" for j
    using that len by (simp add: g nth_append)
  have new: "timer_ids ?g ! j = - (int j + 1)" if "?m \<le> j" "j < 2 * ?m" for j
    using that len by (simp add: g nth_append)
  have sl: "slot_ok ?g k" if "k < cur_size ht" for k
  proof -
    have "slot_ok ht k" using i that by (simp add: inserting_def)
    moreover have "length (timer_ids ?g) = 2 * ?m" using len by (simp add: g)
    ultimately show ?thesis using that len by (simp add: slot_ok_def hk ik)
  qed
  show E: "entries ?g = entries ht" using len by (simp add: entries_def g)
  obtain xs where xs: "free_chain (timer_ids ht) ?m (timer_ids_freelist ht) xs" "distinct xs"
    "tid ht e \<notin> set xs" "length xs + cur_size ht + 2 = ?m" using i by (auto simp: inserting_def)
  have "free_chain (timer_ids ?g) (2 * ?m) (timer_ids_freelist ht) (xs @ [?m..<2 * ?m])"
    using free_chain_grow [OF xs(1) len(2), of "2 * ?m" "timer_ids ?g"] len ik new by (simp add: g)
  moreover have "\<forall>x \<in> set xs. x < ?m"
    using free_chain_bounds [OF xs(1)] len by simp
  moreover from this have "distinct (xs @ [?m..<2 * ?m])" using xs(2) by auto
  moreover have "tid ht e < ?m" using i len by (simp add: inserting_def)
  ultimately have "\<exists>ys. free_chain (timer_ids ?g) (max_size ?g) (timer_ids_freelist ?g) ys \<and>
      distinct ys \<and> tid ?g e \<notin> set ys \<and> length ys + cur_size ?g + 2 = max_size ?g"
    using xs by (intro exI [of _ "xs @ [?m..<2 * ?m]"]) auto
  moreover have "heap_ordered ?g (cur_size ht)"
    unfolding heap_ordered_def
  proof (intro allI impI)
    fix k assume k: "k < cur_size ht" "0 < k"
    have "HEAP_PARENT k < cur_size ht" using k HEAP_PARENT_less [of k] by linarith
    then show "hval ?g (HEAP_PARENT k) \<le> hval ?g k"
      using i k by (simp add: hk inserting_def heap_ordered_def)
  qed
  moreover have "length (heap ?g) = 2 * ?m" "length (timer_ids ?g) = 2 * ?m"
    using len by (simp_all add: g)
  moreover have "timer_ids ?g ! 0 < 0" using ik [of 0] len i by (simp add: inserting_def)
  moreover have "cur_size ht + 2 \<le> 2 * ?m" using len by linarith
  ultimately show "inserting ?g e"
    using i sl E hk by (simp add: inserting_def g(2))
qed

lemma insert_done:
  assumes i: "inserting ht e"
  defines "ht' \<equiv> reheap_up ht e (cur_size ht) (HEAP_PARENT (cur_size ht))"
  shows "cur_size ht + 3 \<le> max_size ht \<Longrightarrow> theap_ok (ht'\<lparr>cur_size := cur_size ht + 1\<rparr>)"
    "entries (ht'\<lparr>cur_size := cur_size ht + 1\<rparr>) = insert e (entries ht)"
    "same_frame ht ht'"
proof -
  let ?n = "cur_size ht"
  have len: "length (heap ht) = max_size ht" "length (timer_ids ht) = max_size ht"
    "?n + 2 \<le> max_size ht" using i by (auto simp: inserting_def)
  have hole: "hole_ok ht (?n + 1) ?n e" using i len by (auto simp: hole_ok_def inserting_def)
  have no_child: "HEAP_PARENT k \<noteq> ?n" if "k < ?n + 1" "0 < k" for k
    using that HEAP_PARENT_less [of k] by linarith
  have off: "order_off ht (?n + 1) ?n"
    using i no_child by (auto simp: order_off_def inserting_def heap_ordered_def)
  have below: "below_hole ht (?n + 1) ?n e"
    unfolding below_hole_def using no_child by blast
  have r: "reheaped ht (?n + 1) ?n e ht'"
    unfolding ht'_def reheap_up_is_loop by (rule reheap_up_loop_correct [OF hole off below])
  then show fr: "same_frame ht ht'" by (simp add: reheaped_def)
  have o: "others ht (?n + 1) ?n = entries ht"
  proof -
    have "{..<?n + 1} - {?n} = {..<?n}" by auto
    with len show ?thesis by (simp add: others_def entries_def set_take_nth)
  qed
  from r o show E: "entries (ht'\<lparr>cur_size := ?n + 1\<rparr>) = insert e (entries ht)"
    by (simp add: entries_def reheaped_def)
  show "theap_ok (ht'\<lparr>cur_size := ?n + 1\<rparr>)" if room: "?n + 3 \<le> max_size ht"
  proof -
    let ?t = "ht'\<lparr>cur_size := ?n + 1\<rparr>"
    have L: "length (heap ?t) = max_size ?t" "length (timer_ids ?t) = max_size ?t"
      "max_size ?t = max_size ht" "entry ?t = entry ht" "timer_ids_freelist ?t = timer_ids_freelist ht"
      using fr len by (simp_all add: same_frame_def)
    obtain xs where xs: "free_chain (timer_ids ht) (max_size ht) (timer_ids_freelist ht) xs"
      "distinct xs" "tid ht e \<notin> set xs" "length xs + ?n + 2 = max_size ht"
      using i by (auto simp: inserting_def)
    have mx: "1 \<le> max_size ht" using len by linarith
    have keep: "timer_ids ?t ! x = timer_ids ht ! x" if x: "x \<in> set xs \<or> x = 0" for x
    proof -
      have z: "timer_ids ht ! x < 0"
        using x free_chain_neg [OF xs(1) mx] i by (auto simp: inserting_def)
      have "x \<noteq> tid ht f" if f: "f \<in> entries ht" for f
      proof -
        have "f \<in> (!) (heap ht) ` {..<?n}" using f len by (simp add: entries_def set_take_nth)
        then obtain k where "k < ?n" "f = heap ht ! k" by auto
        then have "timer_ids ht ! tid ht f = int k" using i by (auto simp: inserting_def slot_ok_def)
        with z show ?thesis by auto
      qed
      moreover have "x \<noteq> tid ht e" using x xs(3) i by (auto simp: inserting_def)
      ultimately have "x \<notin> insert (tid ht e) (tid ht ` others ht (?n + 1) ?n)" using o by auto
      with r show ?thesis by (simp add: reheaped_def)
    qed
    have "free_chain (timer_ids ?t) (max_size ht) (timer_ids_freelist ht) xs"
      using free_chain_cong [OF xs(1)] keep L len by simp
    then have "\<exists>xs. free_chain (timer_ids ?t) (max_size ?t) (timer_ids_freelist ?t) xs \<and>
        distinct xs \<and> length xs + cur_size ?t + 1 = max_size ?t"
      using xs L by (intro exI [of _ xs]) simp
    moreover have "timer_ids ?t ! 0 < 0" using keep [of 0] i by (simp add: inserting_def)
    moreover have "\<forall>k<?n + 1. slot_ok ?t k" "heap_ordered ?t (?n + 1)"
      using r by (simp_all add: reheaped_def slot_ok_def heap_ordered_def)
    moreover have "\<forall>f. f \<notin> entries ?t \<longrightarrow> timer_id (entry ?t f) < 1"
      unfolding E L(4) using i by (simp add: inserting_def)
    ultimately show ?thesis using L room unfolding theap_ok_def by simp
  qed
qed

text \<open>The effect of a successful schedule.\<close>

definition scheduled ::
  "pj_timer_heap_t \<Rightarrow> nat \<Rightarrow> pj_time_val \<Rightarrow> pj_timer_heap_t \<Rightarrow> bool" where
  "scheduled ht e t ht' \<longleftrightarrow> theap_ok ht' \<and> entries ht' = insert e (entries ht) \<and>
     (\<forall>f. f \<noteq> e \<longrightarrow> entry ht' f = entry ht f) \<and> tval ht' e = t \<and>
     te_cb (entry ht' e) = te_cb (entry ht e) \<and> te_id (entry ht' e) = te_id (entry ht e) \<and>
     cur_size ht' = cur_size ht + 1 \<and> max_entries_per_poll ht' = max_entries_per_poll ht"

lemma insert_node_ok:
  assumes i: "inserting ht e"
  shows "theap_ok (insert_node ht e)" "entries (insert_node ht e) = insert e (entries ht)"
    "entry (insert_node ht e) = entry ht" "cur_size (insert_node ht e) = cur_size ht + 1"
    "max_entries_per_poll (insert_node ht e) = max_entries_per_poll ht"
proof -
  define g where "g = (if cur_size ht + 2 \<ge> max_size ht then grow_heap ht else ht)"
  have g: "inserting g e" "entries g = entries ht" "entry g = entry ht" "cur_size g = cur_size ht"
    "max_entries_per_poll g = max_entries_per_poll ht"
    using i inserting_grow [OF i] by (auto simp: g_def)
  have room: "cur_size g + 3 \<le> max_size g"
    using i by (auto simp: g_def inserting_def)
  have eq: "insert_node ht e =
    (reheap_up g e (cur_size g) (HEAP_PARENT (cur_size g)))\<lparr>cur_size := cur_size g + 1\<rparr>"
    using insert_done(3) [OF g(1)]
    unfolding insert_node_def Let_def g_def [symmetric] same_frame_def by simp
  show "theap_ok (insert_node ht e)" "entries (insert_node ht e) = insert e (entries ht)"
    "entry (insert_node ht e) = entry ht" "cur_size (insert_node ht e) = cur_size ht + 1"
    "max_entries_per_poll (insert_node ht e) = max_entries_per_poll ht"
    using insert_done [OF g(1)] room g unfolding eq by (simp_all add: same_frame_def)
qed

lemma schedule_entry_ok:
  assumes ok: "theap_ok ht" and e: "timer_id (entry ht e) < 1"
  shows "snd (schedule_entry ht e t) = 0" "scheduled ht e t (fst (schedule_entry ht e t))"
proof -
  have ne: "e \<notin> entries ht" using e entries_id [OF ok] by simp
  obtain xs where xs: "free_chain (timer_ids ht) (max_size ht) (timer_ids_freelist ht) xs"
    "distinct xs" "length xs + cur_size ht + 1 = max_size ht"
    using ok by (auto simp: theap_ok_def)
  have len: "length (heap ht) = max_size ht" "length (timer_ids ht) = max_size ht"
    "cur_size ht + 2 \<le> max_size ht" using ok by (auto simp: theap_ok_def)
  then obtain x ys where x: "xs = x # ys" using xs(3) by (cases xs) auto
  then have fx: "timer_ids_freelist ht = int x" "1 \<le> x" "x < max_size ht"
    "free_chain (timer_ids ht) (max_size ht) (- (timer_ids ht ! x)) ys" "x \<notin> set ys" "distinct ys"
    using xs len by auto
  define h where "h = ht\<lparr>timer_ids_freelist := - (timer_ids ht ! x),
     entry := (entry ht)(e := (entry ht e)\<lparr>timer_id := int x, timer_value := t\<rparr>)\<rparr>"
  have h: "heap h = heap ht" "timer_ids h = timer_ids ht" "cur_size h = cur_size ht"
    "max_size h = max_size ht" "timer_ids_freelist h = - (timer_ids ht ! x)"
    "max_entries_per_poll h = max_entries_per_poll ht" "entries h = entries ht"
    "entry h e = (entry ht e)\<lparr>timer_id := int x, timer_value := t\<rparr>"
    by (auto simp: h_def entries_def)
  have hf: "entry h f = entry ht f" if "f \<noteq> e" for f using that by (simp add: h_def)
  have kn: "heap ht ! k \<noteq> e" if "k < cur_size ht" for k
    using nth_entries [OF ok that] ne by auto
  have xneg: "timer_ids ht ! x < 0"
    using free_chain_neg [OF xs(1)] len x by simp
  have slots: "slot_ok h k \<and> tid h (heap h ! k) \<noteq> tid h e" if k: "k < cur_size ht" for k
  proof -
    have s: "slot_ok ht k" using ok k by (simp add: theap_ok_def)
    then have "tid ht (heap ht ! k) \<noteq> x" using xneg by (auto simp: slot_ok_def)
    with s kn [OF k] show ?thesis by (simp add: slot_ok_def h hf)
  qed
  have ord: "heap_ordered h (cur_size ht)"
    unfolding heap_ordered_def
  proof (intro allI impI)
    fix k assume k: "k < cur_size ht" "0 < k"
    have "HEAP_PARENT k < cur_size ht" using k HEAP_PARENT_less [of k] by linarith
    then show "hval h (HEAP_PARENT k) \<le> hval h k"
      using ok k kn hf by (simp add: h theap_ok_def heap_ordered_def)
  qed
  have rest: "timer_id (entry h f) < 1" if "f \<notin> insert e (entries ht)" for f
    using ok that hf [of f] by (simp add: theap_ok_def)
  have ins: "inserting h e"
    unfolding inserting_def h(3,4,5,7)
    using ok slots ord rest len fx xs(3) x h(1,2,8) by (auto simp: theap_ok_def intro!: exI [of _ ys])
  have eq: "schedule_entry ht e t = (insert_node h e, 0)"
    using len fx by (simp add: schedule_entry_def pop_freelist_def h_def)
  show "snd (schedule_entry ht e t) = 0" by (simp add: eq)
  show "scheduled ht e t (fst (schedule_entry ht e t))"
    using insert_node_ok [OF ins] h hf by (simp add: eq scheduled_def)
qed

section \<open>Scheduled entries and their times\<close>

text \<open>The abstract view of the heap: which entries are scheduled, and when they expire.\<close>

definition pending :: "pj_timer_heap_t \<Rightarrow> nat \<Rightarrow> pj_time_val option" where
  "pending ht e = (if e \<in> entries ht then Some (tval ht e) else None)"

lemma pending_eq_None: "pending ht e = None \<longleftrightarrow> e \<notin> entries ht"
  by (simp add: pending_def)

lemma pending_removed:
  "removed ht e ht' \<Longrightarrow> pending ht' = (pending ht)(e := None)"
  by (auto simp: removed_def pending_def fun_eq_iff)

lemma pending_scheduled:
  "scheduled ht e t ht' \<Longrightarrow> pending ht' = (pending ht)(e \<mapsto> t)"
  by (auto simp: scheduled_def pending_def fun_eq_iff)

lemma schedule_cases:
  assumes ok: "theap_ok ht" and cb: "te_cb (entry ht e)"
  shows "pending ht e = None \<Longrightarrow> snd (pj_timer_heap_schedule now ht e d) = PJ_SUCCESS \<and>
           scheduled ht e (PJ_TIME_VAL_ADD now d) (fst (pj_timer_heap_schedule now ht e d))"
    "pending ht e \<noteq> None \<Longrightarrow> pj_timer_heap_schedule now ht e d = (ht, PJ_EINVALIDOP)"
  using schedule_entry_ok [OF ok] entries_id [OF ok, of e] cb
  by (auto simp: pj_timer_heap_schedule_def pending_eq_None not_le)

lemma cancel_cases:
  assumes ok: "theap_ok ht"
  shows "pending ht e = None \<Longrightarrow> pj_timer_heap_cancel ht e = (ht, 0)"
    "pending ht e \<noteq> None \<Longrightarrow> snd (pj_timer_heap_cancel ht e) = 1 \<and>
       removed ht e (fst (pj_timer_heap_cancel ht e))"
proof -
  assume "pending ht e = None"
  then have "timer_id (entry ht e) < 1" using entries_id [OF ok, of e] by (simp add: pending_eq_None)
  then consider "timer_id (entry ht e) < 0" | "timer_id (entry ht e) = 0" by linarith
  then show "pj_timer_heap_cancel ht e = (ht, 0)"
    using ok by cases (auto simp: pj_timer_heap_cancel_def cancel_def theap_ok_def)
next
  assume "pending ht e \<noteq> None"
  then have "e \<in> entries ht" by (simp add: pending_eq_None)
  then obtain k where k: "k < cur_size ht" "heap ht ! k = e" using entries_nth [OF ok] by auto
  have s: "slot_ok ht k" using ok k by (simp add: theap_ok_def)
  have "tid ht e \<le> max_size ht" using s k ok by (simp add: slot_ok_def theap_ok_def)
  then have "pj_timer_heap_cancel ht e = (fst (remove_node ht k), 1)"
    using s k by (simp add: pj_timer_heap_cancel_def cancel_def slot_ok_def Let_def)
  then show "snd (pj_timer_heap_cancel ht e) = 1 \<and> removed ht e (fst (pj_timer_heap_cancel ht e))"
    using remove_node_ok(2) [OF ok k(1)] k(2) by simp
qed

section \<open>The interface to clients\<close>

text \<open>
  What a client of a timer service relies on.  An entry has at most one pending expiry; a
  schedule request of a pending entry is refused and changes nothing; cancelling always leaves
  the entry free.  \<open>'r\<close> is the request (the clock and the delay), \<open>expiry\<close> its absolute time.
\<close>

datatype ('e, 'r) timer_cmd = Schedule 'e 'r | Cancel 'e

fun cmd_entry :: "('e, 'r) timer_cmd \<Rightarrow> 'e" where
  "cmd_entry (Schedule e r) = e"
| "cmd_entry (Cancel e) = e"

text \<open>The abstract service: a partial map from entries to expiry times.\<close>

fun map_cmd :: "('r \<Rightarrow> 't) \<Rightarrow> ('e \<Rightarrow> 't option) \<Rightarrow> ('e, 'r) timer_cmd \<Rightarrow> 'e \<Rightarrow> 't option" where
  "map_cmd expiry m (Schedule e r) = (if m e = None then m(e \<mapsto> expiry r) else m)"
| "map_cmd expiry m (Cancel e) = m(e := None)"

locale timer_service =
  fixes inv :: "'h \<Rightarrow> bool"
    and ready :: "'h \<Rightarrow> 'e \<Rightarrow> bool"
    and pend :: "'h \<Rightarrow> 'e \<Rightarrow> 't option"
    and expiry :: "'r \<Rightarrow> 't"
    and sched :: "'h \<Rightarrow> 'e \<Rightarrow> 'r \<Rightarrow> 'h \<times> pj_status_t"
    and canc :: "'h \<Rightarrow> 'e \<Rightarrow> 'h \<times> int"
  assumes sched_free: "inv h \<Longrightarrow> ready h e \<Longrightarrow> pend h e = None \<Longrightarrow>
      inv (fst (sched h e r)) \<and> pend (fst (sched h e r)) = (pend h)(e \<mapsto> expiry r) \<and>
      snd (sched h e r) = PJ_SUCCESS"
    and sched_busy: "inv h \<Longrightarrow> ready h e \<Longrightarrow> pend h e \<noteq> None \<Longrightarrow>
      sched h e r = (h, PJ_EINVALIDOP)"
    and canc_law: "inv h \<Longrightarrow> inv (fst (canc h e)) \<and> pend (fst (canc h e)) = (pend h)(e := None) \<and>
      snd (canc h e) = (if pend h e = None then 0 else 1)"
    and ready_sched: "inv h \<Longrightarrow> ready h e \<Longrightarrow> ready (fst (sched h e r)) f = ready h f"
    and ready_canc: "inv h \<Longrightarrow> ready (fst (canc h e)) f = ready h f"
begin

lemma reschedule:
  assumes "inv h" "ready h e"
  shows "pend (fst (sched (fst (canc h e)) e r)) = (pend h)(e \<mapsto> expiry r)"
    "snd (sched (fst (canc h e)) e r) = PJ_SUCCESS"
proof -
  have c: "inv (fst (canc h e))" "pend (fst (canc h e)) = (pend h)(e := None)"
    "ready (fst (canc h e)) e"
    using canc_law [OF assms(1)] ready_canc [OF assms(1)] assms(2) by auto
  from sched_free [OF c(1,3)] c(2)
  show "pend (fst (sched (fst (canc h e)) e r)) = (pend h)(e \<mapsto> expiry r)"
    "snd (sched (fst (canc h e)) e r) = PJ_SUCCESS" by auto
qed

lemma sched_law:
  assumes "inv h" "ready h e"
  shows "inv (fst (sched h e r))" "pend (fst (sched h e r)) = map_cmd expiry (pend h) (Schedule e r)"
  using sched_free [OF assms, of r] sched_busy [OF assms, of r] assms(1)
  by (cases "pend h e"; simp)+

text \<open>Any sequence of requests has the effect the abstract map has.\<close>

lemma run_simulates:
  assumes "inv h" "\<forall>c \<in> set cs. ready h (cmd_entry c)"
  shows "pend (foldl (\<lambda>h c. case c of Schedule e r \<Rightarrow> fst (sched h e r) | Cancel e \<Rightarrow> fst (canc h e)) h cs)
         = foldl (map_cmd expiry) (pend h) cs \<and>
         inv (foldl (\<lambda>h c. case c of Schedule e r \<Rightarrow> fst (sched h e r) | Cancel e \<Rightarrow> fst (canc h e)) h cs)"
  using assms
proof (induction cs arbitrary: h)
  case (Cons c cs)
  show ?case
  proof (cases c)
    case (Schedule e r)
    then have e: "ready h e" using Cons.prems by simp
    have "\<forall>c \<in> set cs. ready (fst (sched h e r)) (cmd_entry c)"
      using Cons.prems ready_sched [OF Cons.prems(1) e] by simp
    with Cons.IH [of "fst (sched h e r)"] sched_law [OF Cons.prems(1) e, of r] Schedule show ?thesis
      by simp
  next
    case (Cancel e)
    have "\<forall>c \<in> set cs. ready (fst (canc h e)) (cmd_entry c)"
      using Cons.prems ready_canc [OF Cons.prems(1)] by simp
    with Cons.IH [of "fst (canc h e)"] canc_law [OF Cons.prems(1), of e] Cancel show ?thesis
      by (simp add: fun_upd_def)
  qed
qed simp

end

definition heap_sched :: "pj_timer_heap_t \<Rightarrow> nat \<Rightarrow> pj_time_val \<times> pj_time_val \<Rightarrow>
    pj_timer_heap_t \<times> pj_status_t" where
  "heap_sched ht e r = pj_timer_heap_schedule (fst r) ht e (snd r)"

interpretation th: timer_service theap_ok "\<lambda>ht e. te_cb (entry ht e)" pending
  "\<lambda>r. PJ_TIME_VAL_ADD (fst r) (snd r)" heap_sched pj_timer_heap_cancel
proof
  fix h :: pj_timer_heap_t and e f :: nat and r :: "pj_time_val \<times> pj_time_val"
  assume ok: "theap_ok h"
  show "theap_ok (fst (pj_timer_heap_cancel h e)) \<and>
      pending (fst (pj_timer_heap_cancel h e)) = (pending h)(e := None) \<and>
      snd (pj_timer_heap_cancel h e) = (if pending h e = None then 0 else 1)"
    using cancel_cases [OF ok, of e] ok pending_removed
    by (cases "pending h e") (auto simp: removed_def)
  show "te_cb (entry (fst (pj_timer_heap_cancel h e)) f) = te_cb (entry h f)"
    using cancel_cases [OF ok, of e] by (cases "pending h e") (auto simp: removed_def)
  assume cb: "te_cb (entry h e)"
  show "te_cb (entry (fst (heap_sched h e r)) f) = te_cb (entry h f)"
    using schedule_cases [OF ok cb, of "fst r" "snd r"]
    by (cases "pending h e"; cases "f = e") (auto simp: heap_sched_def scheduled_def)
  show "theap_ok (fst (heap_sched h e r)) \<and>
      pending (fst (heap_sched h e r)) = (pending h)(e \<mapsto> PJ_TIME_VAL_ADD (fst r) (snd r)) \<and>
      snd (heap_sched h e r) = PJ_SUCCESS" if "pending h e = None"
  proof -
    note s = schedule_cases(1) [OF ok cb that, of "fst r" "snd r"]
    from s pending_scheduled [OF conjunct2 [OF s]] show ?thesis
      by (simp add: heap_sched_def scheduled_def)
  qed
  show "heap_sched h e r = (h, PJ_EINVALIDOP)" if "pending h e \<noteq> None"
    using schedule_cases(2) [OF ok cb that] by (simp add: heap_sched_def)
qed

section \<open>Polling\<close>

lemma root_removed:
  assumes ok: "theap_ok ht" and c: "cur_size ht \<noteq> 0"
  shows "snd (remove_node ht 0) = heap ht ! 0" "heap ht ! 0 \<in> entries ht"
    "removed ht (heap ht ! 0) (fst (remove_node ht 0))"
    "\<forall>f \<in> entries ht. hval ht 0 \<le> tval ht f"
proof -
  have c0: "0 < cur_size ht" using c by simp
  show "snd (remove_node ht 0) = heap ht ! 0" "removed ht (heap ht ! 0) (fst (remove_node ht 0))"
    using remove_node_ok [OF ok c0] by auto
  show "heap ht ! 0 \<in> entries ht" by (rule nth_entries [OF ok c0])
  show "\<forall>f \<in> entries ht. hval ht 0 \<le> tval ht f"
  proof
    fix f assume "f \<in> entries ht"
    then obtain k where "k < cur_size ht" "heap ht ! k = f" using entries_nth [OF ok] by auto
    then show "hval ht 0 \<le> tval ht f" using root_least [OF ok, of k] by auto
  qed
qed

text \<open>What a callback may do to the heap: anything that keeps it well formed and its limit.\<close>

definition callback_ok ::
  "(nat \<Rightarrow> pj_timer_heap_t \<times> 'u \<Rightarrow> pj_timer_heap_t \<times> 'u) \<Rightarrow> bool" where
  "callback_ok cb \<longleftrightarrow> (\<forall>e h u. theap_ok h \<longrightarrow> theap_ok (fst (cb e (h, u))) \<and>
     max_entries_per_poll (fst (cb e (h, u))) = max_entries_per_poll h)"

lemma poll_loop_total:
  assumes "callback_ok cb" "theap_ok ht" "c \<le> max_entries_per_poll ht"
  shows "\<exists>ht' u' c'. poll_loop cb now ht u c = Some (ht', u', c') \<and> theap_ok ht' \<and>
    c \<le> c' \<and> c' \<le> max_entries_per_poll ht \<and>
    (c' = max_entries_per_poll ht \<or> (\<forall>f \<in> entries ht'. now < tval ht' f))"
  using assms(2,3)
proof (induction "max_entries_per_poll ht - c" arbitrary: ht u c rule: less_induct)
  case less
  show ?case
  proof (cases "cur_size ht \<noteq> 0 \<and> hval ht 0 \<le> now \<and> c < max_entries_per_poll ht")
    case True
    then have c: "cur_size ht \<noteq> 0" by simp
    define h1 where "h1 = fst (remove_node ht 0)"
    define n where "n = heap ht ! 0"
    have r: "remove_node ht 0 = (h1, n)"
      using root_removed(1) [OF less.prems(1) c] by (simp add: h1_def n_def prod_eq_iff)
    have ok1: "theap_ok h1" "max_entries_per_poll h1 = max_entries_per_poll ht"
      using root_removed(3) [OF less.prems(1) c] by (auto simp: removed_def h1_def)
    obtain h2 u2 where cb: "(if te_cb (entry h1 n) then cb n (h1, u) else (h1, u)) = (h2, u2)"
      by (cases "if te_cb (entry h1 n) then cb n (h1, u) else (h1, u)")
    have ok2: "theap_ok h2" "max_entries_per_poll h2 = max_entries_per_poll ht"
      using assms(1) ok1 cb unfolding callback_ok_def by (metis fst_conv)+
    have "poll_loop cb now ht u c = poll_loop cb now h2 u2 (c + 1)"
      using True r cb by (subst poll_loop.simps) (simp add: Let_def)
    moreover have "max_entries_per_poll h2 - (c + 1) < max_entries_per_poll ht - c"
      unfolding ok2(2) using True by linarith
    ultimately show ?thesis
      using less.hyps [of h2 "c + 1" u2] True ok2 by fastforce
  next
    case False
    then have eq: "poll_loop cb now ht u c = Some (ht, u, c)"
      by (subst poll_loop.simps) auto
    have "now < tval ht f" if f: "f \<in> entries ht" and "c < max_entries_per_poll ht" for f
    proof -
      have "cur_size ht \<noteq> 0" using f by (cases "cur_size ht = 0") (auto simp: entries_def)
      with False that(2) have "now < hval ht 0" by auto
      also have "hval ht 0 \<le> tval ht f" using root_removed(4) [OF less.prems(1) \<open>cur_size ht \<noteq> 0\<close>] f by simp
      finally show ?thesis .
    qed
    with eq less.prems show ?thesis by auto
  qed
qed

text \<open>A callback that only records which entry fired.\<close>

definition record_fired :: "nat \<Rightarrow> pj_timer_heap_t \<times> nat list \<Rightarrow> pj_timer_heap_t \<times> nat list" where
  "record_fired e s = (fst s, snd s @ [e])"

definition fired_in_order :: "pj_time_val \<Rightarrow> pj_timer_heap_t \<Rightarrow> nat list \<Rightarrow> pj_timer_heap_t \<Rightarrow> bool"
  where
  "fired_in_order now ht us ht' \<longleftrightarrow>
     sorted (map (tval ht) us) \<and> distinct us \<and> set us \<subseteq> {e \<in> entries ht. tval ht e \<le> now} \<and>
     entries ht' = entries ht - set us \<and> (\<forall>e. tval ht' e = tval ht e) \<and>
     (\<forall>e \<in> set us. \<forall>f \<in> entries ht'. tval ht e \<le> tval ht f)"

lemma poll_loop_fires:
  assumes "theap_ok ht" "\<forall>e \<in> entries ht. te_cb (entry ht e)"
  shows "\<exists>us ht'. poll_loop record_fired now ht u c = Some (ht', u @ us, c + length us) \<and>
    theap_ok ht' \<and> fired_in_order now ht us ht' \<and>
    (max_entries_per_poll ht \<le> c + length us \<or> (\<forall>e \<in> entries ht'. now < tval ht e))"
  using assms
proof (induction "cur_size ht" arbitrary: ht u c rule: less_induct)
  case less
  show ?case
  proof (cases "cur_size ht \<noteq> 0 \<and> hval ht 0 \<le> now \<and> c < max_entries_per_poll ht")
    case True
    then have c: "cur_size ht \<noteq> 0" by simp
    note R = root_removed [OF less.prems(1) c]
    define h1 where "h1 = fst (remove_node ht 0)"
    define n where "n = heap ht ! 0"
    have r: "remove_node ht 0 = (h1, n)" using R(1) by (simp add: h1_def n_def prod_eq_iff)
    have rm: "removed ht n h1" using R(3) by (simp add: h1_def n_def)
    have nin: "n \<in> entries ht" "tval ht n \<le> now" using R(2) True by (auto simp: n_def)
    have h1: "theap_ok h1" "entries h1 = entries ht - {n}" "cur_size h1 < cur_size ht"
      "max_entries_per_poll h1 = max_entries_per_poll ht" "\<forall>e. tval h1 e = tval ht e"
      "\<forall>e. te_cb (entry h1 e) = te_cb (entry ht e)"
      using rm c by (auto simp: removed_def)
    have "\<forall>e \<in> entries h1. te_cb (entry h1 e)" using less.prems(2) h1 by simp
    from less.hyps [OF h1(3,1) this, of "u @ [n]" "c + 1"]
    obtain us ht' where I: "poll_loop record_fired now h1 (u @ [n]) (c + 1) =
        Some (ht', (u @ [n]) @ us, c + 1 + length us)" "theap_ok ht'" "fired_in_order now h1 us ht'"
      "max_entries_per_poll h1 \<le> c + 1 + length us \<or> (\<forall>e \<in> entries ht'. now < tval h1 e)" by blast
    have "te_cb (entry h1 n)" using nin(1) less.prems(2) h1(6) by simp
    then have "poll_loop record_fired now ht u c = Some (ht', u @ (n # us), c + length (n # us))"
      using True r I(1) by (subst poll_loop.simps) (simp add: Let_def record_fired_def)
    moreover have "fired_in_order now ht (n # us) ht'"
    proof -
      have least: "\<forall>f \<in> entries ht. tval ht n \<le> tval ht f" using R(4) by (simp add: n_def)
      have m: "map (tval h1) us = map (tval ht) us" using h1(5) by simp
      show ?thesis
        using I(3) least nin h1 m unfolding fired_in_order_def by auto
    qed
    moreover have "max_entries_per_poll ht \<le> c + length (n # us) \<or> (\<forall>e \<in> entries ht'. now < tval ht e)"
      using I(4) h1 by auto
    ultimately show ?thesis using I(2) by blast
  next
    case False
    then have eq: "poll_loop record_fired now ht u c = Some (ht, u, c)"
      by (subst poll_loop.simps) auto
    have "now < tval ht f" if f: "f \<in> entries ht" and "c < max_entries_per_poll ht" for f
    proof -
      have z: "cur_size ht \<noteq> 0" using f by (cases "cur_size ht = 0") (auto simp: entries_def)
      with False that(2) have "now < hval ht 0" by auto
      also have "hval ht 0 \<le> tval ht f" using root_removed(4) [OF less.prems(1) z] f by simp
      finally show ?thesis .
    qed
    then have "max_entries_per_poll ht \<le> c + length ([]::nat list) \<or> (\<forall>e \<in> entries ht. now < tval ht e)"
      by (meson not_less trans_le_add1)
    moreover have "fired_in_order now ht [] ht" by (simp add: fired_in_order_def)
    ultimately show ?thesis
      using eq less.prems(1) by (intro exI [of _ "[]"] exI [of _ ht]) auto
  qed
qed

lemma poll_is_loop:
  "(cur_size ht = 0 \<and> nd \<noteq> None) = False \<Longrightarrow>
   poll_loop cb now ht u 0 = Some (ht', u', c) \<Longrightarrow>
   pj_timer_heap_poll cb now ht u nd = Some (ht', u', c,
     if cur_size ht' \<noteq> 0 \<and> nd \<noteq> None then
       let d = PJ_TIME_VAL_SUB (hval ht' 0) now
       in Some (if tv_sec d < 0 \<or> tv_msec d < 0 then TimeVal 0 0 else d)
     else set_out (TimeVal PJ_MAXINT32 PJ_MAXINT32) nd)"
  unfolding pj_timer_heap_poll_def by (simp only: if_False) simp

section \<open>Properties\<close>

fun heap_cmd :: "pj_timer_heap_t \<Rightarrow> (nat, pj_time_val \<times> pj_time_val) timer_cmd \<Rightarrow> pj_timer_heap_t" where
  "heap_cmd ht (Schedule e r) = fst (pj_timer_heap_schedule (fst r) ht e (snd r))"
| "heap_cmd ht (Cancel e) = fst (pj_timer_heap_cancel ht e)"

lemma foldl_heap_cmd:
  "foldl (\<lambda>h c. case c of Schedule e r \<Rightarrow> fst (heap_sched h e r) | Cancel e \<Rightarrow> fst (pj_timer_heap_cancel h e)) ht cs
   = foldl heap_cmd ht cs"
  by (induction cs arbitrary: ht) (auto simp: heap_sched_def split: timer_cmd.split)

lemma pending_create: "pending (pj_timer_heap_create sz mem) = Map.empty"
  by (auto simp: pending_def entries_def pj_timer_heap_create_def Let_def)

lemma theap_ok_run:
  assumes "\<forall>e. timer_id (mem e) < 1" "\<forall>e. te_cb (mem e)"
  shows "pending (foldl heap_cmd (pj_timer_heap_create sz mem) cs) =
      foldl (map_cmd (\<lambda>r. PJ_TIME_VAL_ADD (fst r) (snd r))) Map.empty cs"
    "theap_ok (foldl heap_cmd (pj_timer_heap_create sz mem) cs)"
proof -
  have r: "\<forall>c \<in> set cs. te_cb (entry (pj_timer_heap_create sz mem) (cmd_entry c))"
    using assms(2) by (simp add: pj_timer_heap_create_def Let_def)
  from th.run_simulates [OF theap_ok_create [OF assms(1)] r]
  show "pending (foldl heap_cmd (pj_timer_heap_create sz mem) cs) =
      foldl (map_cmd (\<lambda>r. PJ_TIME_VAL_ADD (fst r) (snd r))) Map.empty cs"
    "theap_ok (foldl heap_cmd (pj_timer_heap_create sz mem) cs)"
    by (simp_all add: foldl_heap_cmd pending_create)
qed

text \<open>
  C3: From the creation of the heap, any sequence of schedule and cancel calls (with any clock
  readings, for entries that have a callback and are not yet scheduled) leaves the heap well formed (heap order, slots and ids consistent, every unused id
  on the free list, room for the next growth), and the scheduled entries and their expiry times
  are those of the abstract service, a map in which a second schedule of an entry is refused and
  a cancel removes it.
\<close>
theorem timer_heap_refines_map:
  assumes "\<forall>e. timer_id (mem e) < 1" "\<forall>e. te_cb (mem e)"
  shows "pending (foldl heap_cmd (pj_timer_heap_create sz mem) cs) =
           foldl (map_cmd (\<lambda>r. PJ_TIME_VAL_ADD (fst r) (snd r))) Map.empty cs \<and>
         theap_ok (foldl heap_cmd (pj_timer_heap_create sz mem) cs)"
  using theap_ok_run [OF assms] by blast

definition ex_entry :: "nat \<Rightarrow> pj_timer_entry" where
  "ex_entry e = \<lparr>te_id = 0, te_cb = True, timer_id = - 1, timer_value = TimeVal 0 0\<rparr>"

definition ex_cmds :: "(nat, pj_time_val \<times> pj_time_val) timer_cmd list" where
  "ex_cmds = [Schedule 7 (TimeVal 1 0, TimeVal 0 900), Schedule 3 (TimeVal 1 0, TimeVal 0 500),
     Schedule 5 (TimeVal 1 0, TimeVal 0 700), Schedule 3 (TimeVal 2 0, TimeVal 9 0), Cancel 7]"

lemma ex_entry_ok: "\<forall>e. timer_id (ex_entry e) < 1" "\<forall>e. te_cb (ex_entry e)"
  by (simp_all add: ex_entry_def)

theorem timer_heap_refines_map_witness:
  "pending (foldl heap_cmd (pj_timer_heap_create 0 ex_entry) ex_cmds) =
     [3 \<mapsto> TimeVal 1 500, 5 \<mapsto> TimeVal 1 700]"
proof -
  have "foldl (map_cmd (\<lambda>r. PJ_TIME_VAL_ADD (fst r) (snd r))) Map.empty ex_cmds =
      [3 \<mapsto> TimeVal 1 500, 5 \<mapsto> TimeVal 1 700]"
    by (simp add: ex_cmds_def PJ_TIME_VAL_ADD_def pj_time_val_normalize_def fun_eq_iff)
  with timer_heap_refines_map [OF ex_entry_ok, of 0 ex_cmds] show ?thesis by simp
qed

text \<open>
  C38: \<open>pj_timer_heap_schedule\<close> on every branch: an entry without callback is refused with
  \<open>PJ_EINVAL\<close>, an entry that is already scheduled with \<open>PJ_EINVALIDOP\<close>, both without a change;
  any other entry is inserted and expires at the clock reading plus the delay, all other
  entries keep their contents, and cancelling it afterwards restores the set of scheduled
  entries.
\<close>
theorem timer_schedule_correct:
  assumes "theap_ok ht"
  shows "(\<not> te_cb (entry ht e) \<longrightarrow> pj_timer_heap_schedule now ht e d = (ht, PJ_EINVAL)) \<and>
     (te_cb (entry ht e) \<and> pending ht e \<noteq> None \<longrightarrow>
        pj_timer_heap_schedule now ht e d = (ht, PJ_EINVALIDOP)) \<and>
     (te_cb (entry ht e) \<and> pending ht e = None \<longrightarrow>
        (let (ht', st) = pj_timer_heap_schedule now ht e d
         in st = PJ_SUCCESS \<and> theap_ok ht' \<and> pending ht' = (pending ht)(e \<mapsto> PJ_TIME_VAL_ADD now d) \<and>
            PJ_TIME_VAL_MSEC (tval ht' e) = PJ_TIME_VAL_MSEC now + PJ_TIME_VAL_MSEC d \<and>
            (\<forall>f. f \<noteq> e \<longrightarrow> entry ht' f = entry ht f) \<and>
            pending (fst (pj_timer_heap_cancel ht' e)) = pending ht))"
proof -
  have 1: "pj_timer_heap_schedule now ht e d = (ht, PJ_EINVAL)" if "\<not> te_cb (entry ht e)"
    using that by (simp add: pj_timer_heap_schedule_def)
  have 2: "pj_timer_heap_schedule now ht e d = (ht, PJ_EINVALIDOP)"
    if "te_cb (entry ht e)" "pending ht e \<noteq> None"
    by (rule schedule_cases(2) [OF assms that])
  have 3: "let (ht', st) = pj_timer_heap_schedule now ht e d
         in st = PJ_SUCCESS \<and> theap_ok ht' \<and> pending ht' = (pending ht)(e \<mapsto> PJ_TIME_VAL_ADD now d) \<and>
            PJ_TIME_VAL_MSEC (tval ht' e) = PJ_TIME_VAL_MSEC now + PJ_TIME_VAL_MSEC d \<and>
            (\<forall>f. f \<noteq> e \<longrightarrow> entry ht' f = entry ht f) \<and>
            pending (fst (pj_timer_heap_cancel ht' e)) = pending ht"
    if cb: "te_cb (entry ht e)" and n: "pending ht e = None"
  proof -
    note s = schedule_cases(1) [OF assms cb n, of now d]
    define h where "h = fst (pj_timer_heap_schedule now ht e d)"
    have h: "scheduled ht e (PJ_TIME_VAL_ADD now d) h" using s by (simp add: h_def)
    have p: "pending h = (pending ht)(e \<mapsto> PJ_TIME_VAL_ADD now d)" by (rule pending_scheduled [OF h])
    have "theap_ok h" using h by (simp add: scheduled_def)
    from th.canc_law [OF this, of e] p n
    have "pending (fst (pj_timer_heap_cancel h e)) = pending ht" by (simp add: fun_eq_iff)
    with s p h show ?thesis
      by (simp add: split_beta Let_def h_def [symmetric] scheduled_def time_add_msec)
  qed
  from 1 2 3 show ?thesis by blast
qed

theorem timer_schedule_correct_witness:
  "let (ht', st) = pj_timer_heap_schedule (TimeVal 3 900) (pj_timer_heap_create 0 ex_entry) 9 (TimeVal 1 250)
   in st = PJ_SUCCESS \<and> pending ht' = [9 \<mapsto> TimeVal 5 150]"
proof -
  have "te_cb (entry (pj_timer_heap_create 0 ex_entry) 9)"
    by (simp add: pj_timer_heap_create_def ex_entry_def Let_def)
  moreover have "PJ_TIME_VAL_ADD (TimeVal 3 900) (TimeVal 1 250) = TimeVal 5 150"
    by (simp add: PJ_TIME_VAL_ADD_def pj_time_val_normalize_def)
  ultimately show ?thesis
    using timer_schedule_correct [OF theap_ok_create [OF ex_entry_ok(1)], of 0 9 "TimeVal 3 900" "TimeVal 1 250"]
    by (simp add: pending_create split_beta Let_def)
qed

text \<open>
  Cancelling and rescheduling an entry, the sequence every client uses to restart a timer,
  succeeds whether or not the entry was scheduled before, and sets the new expiry; without the
  cancel a scheduled entry keeps its old expiry.
\<close>
theorem timer_restart_correct:
  assumes "theap_ok ht" "te_cb (entry ht e)"
  shows "let (ht1, n) = pj_timer_heap_cancel ht e; (ht2, st) = pj_timer_heap_schedule now ht1 e d
         in n = (if pending ht e = None then 0 else 1) \<and> st = PJ_SUCCESS \<and>
            pending ht2 = (pending ht)(e \<mapsto> PJ_TIME_VAL_ADD now d) \<and>
            pending (fst (pj_timer_heap_schedule now ht2 e d')) e = Some (PJ_TIME_VAL_ADD now d)"
proof -
  define ht1 where "ht1 = fst (pj_timer_heap_cancel ht e)"
  define ht2 where "ht2 = fst (pj_timer_heap_schedule now ht1 e d)"
  have c: "theap_ok ht1" "te_cb (entry ht1 e)" "snd (pj_timer_heap_cancel ht e) = (if pending ht e = None then 0 else 1)"
    using th.canc_law [OF assms(1), of e] th.ready_canc [OF assms(1), of e e] assms(2)
    by (simp_all add: ht1_def)
  have r: "pending ht2 = (pending ht)(e \<mapsto> PJ_TIME_VAL_ADD now d)"
    "snd (pj_timer_heap_schedule now ht1 e d) = PJ_SUCCESS"
    using th.reschedule [OF assms, of "(now, d)"] by (simp_all add: heap_sched_def ht1_def ht2_def)
  have t: "theap_ok ht2" "te_cb (entry ht2 e)"
    using th.sched_law(1) [OF c(1,2), of "(now, d)"] th.ready_sched [OF c(1,2), of "(now, d)" e] c(2)
    by (simp_all add: heap_sched_def ht2_def)
  have "pj_timer_heap_schedule now ht2 e d' = (ht2, PJ_EINVALIDOP)"
    by (rule schedule_cases(2) [OF t]) (simp add: r)
  then show ?thesis
    using c r by (simp add: split_beta Let_def ht1_def [symmetric] ht2_def [symmetric])
qed

theorem timer_restart_correct_witness:
  "let (ht1, n) = pj_timer_heap_cancel (pj_timer_heap_create 0 ex_entry) 9;
       (ht2, st) = pj_timer_heap_schedule (TimeVal 3 0) ht1 9 (TimeVal 1 250)
   in n = 0 \<and> st = PJ_SUCCESS \<and> pending ht2 = [9 \<mapsto> TimeVal 4 250]"
proof -
  have "te_cb (entry (pj_timer_heap_create 0 ex_entry) 9)"
    by (simp add: pj_timer_heap_create_def ex_entry_def Let_def)
  moreover have "PJ_TIME_VAL_ADD (TimeVal 3 0) (TimeVal 1 250) = TimeVal 4 250"
    by (simp add: PJ_TIME_VAL_ADD_def pj_time_val_normalize_def)
  ultimately show ?thesis
    using timer_restart_correct [OF theap_ok_create [OF ex_entry_ok(1)], of 0 9 "TimeVal 3 0" "TimeVal 1 250"]
    by (simp add: pending_create split_beta Let_def)
qed

text \<open>
  C39: A poll with any callbacks that keep the heap well formed and its limit (they may schedule
  and cancel entries, also their own) returns: it runs at most \<open>max_entries_per_poll\<close> callbacks,
  leaves the heap well formed, and if it stopped before the limit no entry that is due is left.
\<close>
theorem timer_poll_terminates:
  assumes "callback_ok cb" "theap_ok ht"
  shows "\<exists>ht' u' c nd'. pj_timer_heap_poll cb now ht u nd = Some (ht', u', c, nd') \<and>
    theap_ok ht' \<and> c \<le> max_entries_per_poll ht \<and>
    (c = max_entries_per_poll ht \<or> (\<forall>f \<in> entries ht'. now < tval ht' f))"
proof (cases "cur_size ht = 0 \<and> nd \<noteq> None")
  case True
  then show ?thesis using assms(2) by (auto simp: pj_timer_heap_poll_def entries_def)
next
  case False
  then have f: "(cur_size ht = 0 \<and> nd \<noteq> None) = False" by simp
  from poll_loop_total [OF assms, of 0 now u] poll_is_loop [OF f]
  show ?thesis by fastforce
qed

theorem timer_poll_terminates_witness:
  "\<exists>ht' u' c nd'. pj_timer_heap_poll (\<lambda>e s. (heap_cmd (fst s) (Cancel e), snd s + 1)) (TimeVal 9 0)
     (foldl heap_cmd (pj_timer_heap_create 0 ex_entry) ex_cmds) (0::nat) None = Some (ht', u', c, nd') \<and>
     theap_ok ht'"
proof -
  have "callback_ok (\<lambda>e s. (heap_cmd (fst s) (Cancel e), snd s + (1::nat)))"
    unfolding callback_ok_def
  proof (intro allI impI conjI)
    fix e h and u :: nat
    assume ok: "theap_ok h"
    show "theap_ok (fst (heap_cmd (fst (h, u)) (Cancel e), snd (h, u) + 1))"
      using th.canc_law [OF ok, of e] by simp
    show "max_entries_per_poll (fst (heap_cmd (fst (h, u)) (Cancel e), snd (h, u) + 1)) =
        max_entries_per_poll h"
      using cancel_cases [OF ok, of e] by (cases "pending h e") (auto simp: removed_def)
  qed
  from timer_poll_terminates [OF this theap_ok_run(2) [OF ex_entry_ok], of "TimeVal 9 0" 0 ex_cmds 0 None]
  show ?thesis by blast
qed

text \<open>
  C4: A poll of a heap that is not empty, whose callbacks leave it alone, fires entries in the order of their expiry
  times, each once, only entries that are due, and unless it reaches the limit all of them; what
  it does not fire expires no earlier and stays scheduled with its time, and the reported delay
  is the time to the earliest remaining entry (0 if that has passed), or \<open>PJ_MAXINT32\<close> when
  none is left.
\<close>
theorem timer_poll_fires_in_order:
  assumes "theap_ok ht" "\<forall>e \<in> entries ht. te_cb (entry ht e)" "cur_size ht \<noteq> 0"
  shows "\<exists>us ht' d. pj_timer_heap_poll record_fired now ht [] (Some nd) =
      Some (ht', us, length us, Some d) \<and> theap_ok ht' \<and> fired_in_order now ht us ht' \<and>
      (max_entries_per_poll ht \<le> length us \<or> (\<forall>e \<in> entries ht'. now < tval ht e)) \<and>
      (if cur_size ht' = 0 then d = TimeVal PJ_MAXINT32 PJ_MAXINT32
       else heap ht' ! 0 \<in> entries ht' \<and> (\<forall>e \<in> entries ht'. hval ht' 0 \<le> tval ht' e) \<and>
         (let r = PJ_TIME_VAL_SUB (hval ht' 0) now
          in d = (if tv_sec r < 0 \<or> tv_msec r < 0 then TimeVal 0 0 else r)))"
proof -
  obtain us ht' where l: "poll_loop record_fired now ht [] 0 = Some (ht', us, length us)"
    "theap_ok ht'" "fired_in_order now ht us ht'"
    "max_entries_per_poll ht \<le> length us \<or> (\<forall>e \<in> entries ht'. now < tval ht e)"
    using poll_loop_fires [OF assms(1,2), of now "[]" 0] by auto
  have f: "(cur_size ht = 0 \<and> Some nd \<noteq> None) = False" using assms(3) by simp
  show ?thesis
  proof (cases "cur_size ht' = 0")
    case True
    with poll_is_loop [OF f l(1)] l show ?thesis by auto
  next
    case False
    with poll_is_loop [OF f l(1)] l root_removed(2,4) [OF l(2) False] show ?thesis
      by (auto simp: Let_def)
  qed
qed

theorem timer_poll_fires_in_order_witness:
  "\<exists>us ht' d. pj_timer_heap_poll record_fired (TimeVal 1 600)
      (fst (pj_timer_heap_schedule (TimeVal 1 0) (pj_timer_heap_create 0 ex_entry) 9 (TimeVal 0 500)))
      [] (Some (TimeVal 0 0)) = Some (ht', us, length us, Some d) \<and> theap_ok ht'"
proof -
  let ?init = "pj_timer_heap_create 0 ex_entry"
  let ?h = "fst (pj_timer_heap_schedule (TimeVal 1 0) ?init 9 (TimeVal 0 500))"
  have "te_cb (entry ?init 9)" "pending ?init 9 = None"
    unfolding pending_create by (simp_all add: pj_timer_heap_create_def ex_entry_def Let_def)
  then have s: "scheduled ?init 9 (PJ_TIME_VAL_ADD (TimeVal 1 0) (TimeVal 0 500)) ?h" "te_cb (entry ?init 9)"
    using schedule_cases(1) [OF theap_ok_create [OF ex_entry_ok(1)]] by auto
  have "entries ?init = {}" by (simp add: entries_def pj_timer_heap_create_def Let_def)
  with s have "theap_ok ?h" "\<forall>e \<in> entries ?h. te_cb (entry ?h e)" "cur_size ?h \<noteq> 0"
    by (auto simp: scheduled_def)
  from timer_poll_fires_in_order [OF this, of "TimeVal 1 600" "TimeVal 0 0"] show ?thesis by blast
qed

end
