(* ===== verification/Sip_tsx.thy ===== *)
theory Sip_tsx
  imports Timer_Heap "HOL-Library.Signed_Division"
begin

text \<open>
  The SIP transaction of \<open>pjsip/src/pjsip/sip_transaction.c\<close>: its record, the primitives that
  change state, send and retransmit, the callbacks of the transport layer, and the state
  handlers of the client (UAC) and server (UAS) state machines.

  Calls into other layers are answered by an environment (\<open>tsx_env\<close>), whose answers may depend
  on everything the transaction did so far.  What the transaction does to the outside
  (messages sent, notifications of the transaction user, references taken and released) is
  appended to \<open>actions\<close>; a failed \<open>pj_assert\<close>, which a release build ignores, is recorded there
  too.  Transaction user callbacks do not call back into the transaction.  Locking is left out:
  every operation below runs with the transaction's mutex held.  A timer entry is represented
  by its user id and its pending delay, with the behaviour of the timer heap
  (theory \<open>Timer_Heap\<close>): scheduling a pending entry is refused and changes nothing.
\<close>

section \<open>Data\<close>

datatype pjsip_role_e = PJSIP_ROLE_UAC | PJSIP_ROLE_UAS

datatype pjsip_method_e = PJSIP_INVITE_METHOD | PJSIP_CANCEL_METHOD | PJSIP_ACK_METHOD
  | PJSIP_BYE_METHOD | PJSIP_REGISTER_METHOD | PJSIP_OPTIONS_METHOD | PJSIP_OTHER_METHOD

datatype pjsip_tsx_state_e = PJSIP_TSX_STATE_NULL | PJSIP_TSX_STATE_CALLING
  | PJSIP_TSX_STATE_TRYING | PJSIP_TSX_STATE_PROCEEDING | PJSIP_TSX_STATE_COMPLETED
  | PJSIP_TSX_STATE_CONFIRMED | PJSIP_TSX_STATE_TERMINATED | PJSIP_TSX_STATE_DESTROYED

fun tsx_state_num :: "pjsip_tsx_state_e \<Rightarrow> nat" where
  "tsx_state_num PJSIP_TSX_STATE_NULL = 0"
| "tsx_state_num PJSIP_TSX_STATE_CALLING = 1"
| "tsx_state_num PJSIP_TSX_STATE_TRYING = 2"
| "tsx_state_num PJSIP_TSX_STATE_PROCEEDING = 3"
| "tsx_state_num PJSIP_TSX_STATE_COMPLETED = 4"
| "tsx_state_num PJSIP_TSX_STATE_CONFIRMED = 5"
| "tsx_state_num PJSIP_TSX_STATE_TERMINATED = 6"
| "tsx_state_num PJSIP_TSX_STATE_DESTROYED = 7"

lemma tsx_state_num_inj: "tsx_state_num a = tsx_state_num b \<Longrightarrow> a = b"
  by (cases a; cases b) simp_all

instantiation pjsip_tsx_state_e :: linorder
begin

definition less_eq_pjsip_tsx_state_e :: "pjsip_tsx_state_e \<Rightarrow> pjsip_tsx_state_e \<Rightarrow> bool" where
  "less_eq_pjsip_tsx_state_e a b = (tsx_state_num a \<le> tsx_state_num b)"

definition less_pjsip_tsx_state_e :: "pjsip_tsx_state_e \<Rightarrow> pjsip_tsx_state_e \<Rightarrow> bool" where
  "less_pjsip_tsx_state_e a b = (tsx_state_num a < tsx_state_num b)"

instance
  by standard
    (auto simp: less_eq_pjsip_tsx_state_e_def less_pjsip_tsx_state_e_def intro: tsx_state_num_inj)

end

datatype tsx_flag = TSX_HAS_PENDING_TRANSPORT | TSX_HAS_PENDING_RESCHED | TSX_HAS_PENDING_SEND
  | TSX_HAS_PENDING_DESTROY | TSX_HAS_RESOLVED_SERVER

text \<open>
  Messages: a request with its method, a response with its status code and the method of its
  CSeq header.  Transmit buffers (\<open>pjsip_tx_data\<close>) are pointers with the message they hold;
  transports are pointers.
\<close>

datatype sip_msg = Request pjsip_method_e | Response int pjsip_method_e

record tdata =
  td_ptr :: nat
  td_msg :: sip_msg

datatype tsx_timer_id = RETRANSMIT_TIMER | TIMEOUT_TIMER

record tsx_timer =
  tt_id :: int
  tt_delay :: "pj_time_val option"

datatype pjsip_event = EV_UNKNOWN | EV_TIMER tsx_timer_id | EV_TX_MSG tdata | EV_RX_MSG sip_msg
  | EV_TRANSPORT_ERROR | EV_USER

text \<open>The callbacks the transaction user's module provides (NULL or not).\<close>

record pjsip_module =
  on_rx_response :: bool
  on_tsx_state :: bool

datatype tsx_handler = on_state_null | on_state_calling | on_state_trying
  | on_state_proceeding_uac | on_state_proceeding_uas | on_state_completed_uac
  | on_state_completed_uas | on_state_confirmed | on_state_terminated | on_state_destroyed

datatype tsx_action =
    A_TransportSend nat tdata
  | A_StatelessSend tdata
  | A_SendResponse tdata
  | A_RxResponse sip_msg
  | A_TsxState pjsip_tsx_state_e pjsip_tsx_state_e
  | A_TdAddRef nat
  | A_TdDecRef nat
  | A_TpAddRef nat
  | A_TpDecRef nat
  | A_TpListen nat
  | A_TpUnlisten nat
  | A_Unregister
  | A_Release
  | A_AssertFailed
  | A_NullHandler
  | A_Recursion

record pjsip_transaction =
  role :: pjsip_role_e
  tsx_method :: pjsip_method_e
  status_code :: int
  state :: pjsip_tsx_state_e
  state_handler :: "tsx_handler option"
  handle_200resp :: bool
  tsx_user :: "pjsip_module option"
  transport :: "nat option"
  is_reliable :: bool
  res_addr_transport :: "nat option"
  transport_flag :: "tsx_flag set"
  transport_err :: int
  pending_tx :: "tdata option"
  attached :: "nat set"
  last_tx :: "tdata option"
  retransmit_count :: nat
  retransmit_timer :: tsx_timer
  timeout_timer :: tsx_timer
  released :: bool
  actions :: "tsx_action list"

text \<open>
  The environment.  \<open>transport_send\<close> is \<open>pjsip_transport_send\<close>; \<open>stateless_send\<close> and
  \<open>send_response\<close> are \<open>pjsip_endpt_send_request_stateless\<close> and \<open>pjsip_endpt_send_response\<close>,
  which may run the send callback before they return: they answer with the list of callback
  invocations they make and the returned status.  \<open>create_ack\<close> is \<open>pjsip_endpt_create_ack\<close>.
  The timer values come from \<open>pjsip_cfg()\<close>.
\<close>

record send_result =
  sr_sent :: int
  sr_transport :: "nat option"
  sr_cont :: bool

record tsx_env =
  cfg_t1 :: u32
  cfg_t2 :: u32
  cfg_t4 :: u32
  cfg_td :: u32
  tp_reliable :: "nat \<Rightarrow> bool"
  transport_send :: "tsx_action list \<Rightarrow> nat \<Rightarrow> tdata \<Rightarrow> pj_status_t"
  stateless_send :: "tsx_action list \<Rightarrow> tdata \<Rightarrow> send_result list \<times> pj_status_t"
  send_response :: "tsx_action list \<Rightarrow> nat option \<Rightarrow> tdata \<Rightarrow> send_result list \<times> pj_status_t"
  create_ack :: "tdata option \<Rightarrow> sip_msg \<Rightarrow> tdata + pj_status_t"

abbreviation (input) PJSIP_ENOTREQUESTMSG :: pj_status_t where "PJSIP_ENOTREQUESTMSG \<equiv> 171021"
abbreviation (input) PJSIP_ENOTRESPONSEMSG :: pj_status_t where "PJSIP_ENOTRESPONSEMSG \<equiv> 171022"
abbreviation (input) PJSIP_EMISSINGHDR :: pj_status_t where "PJSIP_EMISSINGHDR \<equiv> 171050"
abbreviation (input) PJSIP_EINVALIDHDR :: pj_status_t where "PJSIP_EINVALIDHDR \<equiv> 171051"
abbreviation (input) PJSIP_EINVALIDMETHOD :: pj_status_t where "PJSIP_EINVALIDMETHOD \<equiv> 171055"
abbreviation (input) PJLIB_UTIL_EDNS_NXDOMAIN :: pj_status_t where
  "PJLIB_UTIL_EDNS_NXDOMAIN \<equiv> 320053"
abbreviation (input) PJSIP_SC_TSX_TIMEOUT :: int where "PJSIP_SC_TSX_TIMEOUT \<equiv> 408"
abbreviation (input) PJSIP_SC_BAD_GATEWAY :: int where "PJSIP_SC_BAD_GATEWAY \<equiv> 502"
abbreviation (input) PJSIP_SC_TSX_TRANSPORT_ERROR :: int where "PJSIP_SC_TSX_TRANSPORT_ERROR \<equiv> 503"
abbreviation (input) TIMER_INACTIVE :: int where "TIMER_INACTIVE \<equiv> 0"
abbreviation (input) TIMER_ACTIVE :: int where "TIMER_ACTIVE \<equiv> 1"

definition PJSIP_TSX_1XX_RETRANS_DELAY :: int where
  "PJSIP_TSX_1XX_RETRANS_DELAY = 60"

text \<open>C division truncates toward zero.\<close>

definition PJSIP_IS_STATUS_IN_CLASS :: "int \<Rightarrow> int \<Rightarrow> bool" where
  "PJSIP_IS_STATUS_IN_CLASS code code_class = (code sdiv 100 = code_class sdiv 100)"

definition msec_time_val :: "u32 \<Rightarrow> pj_time_val" where
  "msec_time_val ms = TimeVal (uint (ms div 1000)) (uint (ms mod 1000))"

text \<open>The timer values the layer's initialisation derives from the configuration.\<close>

definition t1_timer_val :: "tsx_env \<Rightarrow> pj_time_val" where
  "t1_timer_val env = msec_time_val (cfg_t1 env)"

definition t2_timer_val :: "tsx_env \<Rightarrow> pj_time_val" where
  "t2_timer_val env = msec_time_val (cfg_t2 env)"

definition t4_timer_val :: "tsx_env \<Rightarrow> pj_time_val" where
  "t4_timer_val env = msec_time_val (cfg_t4 env)"

definition td_timer_val :: "tsx_env \<Rightarrow> pj_time_val" where
  "td_timer_val env = msec_time_val (cfg_td env)"

definition timeout_timer_val :: "tsx_env \<Rightarrow> pj_time_val" where
  "timeout_timer_val env = td_timer_val env"

abbreviation zero_time :: pj_time_val where "zero_time \<equiv> TimeVal 0 0"

section \<open>Elementary steps\<close>

definition emit :: "tsx_action \<Rightarrow> pjsip_transaction \<Rightarrow> pjsip_transaction" where
  "emit a t = t\<lparr>actions := actions t @ [a]\<rparr>"

definition pj_assert :: "bool \<Rightarrow> pjsip_transaction \<Rightarrow> pjsip_transaction" where
  "pj_assert b t = (if b then t else emit A_AssertFailed t)"

definition set_flag :: "tsx_flag \<Rightarrow> pjsip_transaction \<Rightarrow> pjsip_transaction" where
  "set_flag f t = t\<lparr>transport_flag := insert f (transport_flag t)\<rparr>"

definition clear_flags :: "tsx_flag set \<Rightarrow> pjsip_transaction \<Rightarrow> pjsip_transaction" where
  "clear_flags fs t = t\<lparr>transport_flag := transport_flag t - fs\<rparr>"

fun timer_of :: "tsx_timer_id \<Rightarrow> pjsip_transaction \<Rightarrow> tsx_timer" where
  "timer_of RETRANSMIT_TIMER t = retransmit_timer t"
| "timer_of TIMEOUT_TIMER t = timeout_timer t"

fun set_timer :: "tsx_timer_id \<Rightarrow> tsx_timer \<Rightarrow> pjsip_transaction \<Rightarrow> pjsip_transaction" where
  "set_timer RETRANSMIT_TIMER e t = t\<lparr>retransmit_timer := e\<rparr>"
| "set_timer TIMEOUT_TIMER e t = t\<lparr>timeout_timer := e\<rparr>"

definition set_timer_id :: "tsx_timer_id \<Rightarrow> int \<Rightarrow> pjsip_transaction \<Rightarrow> pjsip_transaction" where
  "set_timer_id w i t = set_timer w ((timer_of w t)\<lparr>tt_id := i\<rparr>) t"

definition pjsip_endpt_schedule_timer ::
  "pjsip_transaction \<Rightarrow> tsx_timer_id \<Rightarrow> pj_time_val \<Rightarrow> pjsip_transaction \<times> pj_status_t" where
  "pjsip_endpt_schedule_timer t w delay =
     (if tt_delay (timer_of w t) \<noteq> None then (t, PJ_EINVALIDOP)
      else (set_timer w ((timer_of w t)\<lparr>tt_delay := Some delay\<rparr>) t, PJ_SUCCESS))"

definition pjsip_endpt_cancel_timer ::
  "pjsip_transaction \<Rightarrow> tsx_timer_id \<Rightarrow> pjsip_transaction \<times> int" where
  "pjsip_endpt_cancel_timer t w =
     (set_timer w ((timer_of w t)\<lparr>tt_delay := None\<rparr>) t,
      if tt_delay (timer_of w t) = None then 0 else 1)"

text \<open>
  The two idioms of the file around these calls: activate (set the id, schedule, ignore the
  status) and cancel a timer whose id says it is active.
\<close>

definition activate_timer ::
  "tsx_timer_id \<Rightarrow> pj_time_val \<Rightarrow> pjsip_transaction \<Rightarrow> pjsip_transaction" where
  "activate_timer w delay t =
     fst (pjsip_endpt_schedule_timer (set_timer_id w TIMER_ACTIVE t) w delay)"

definition cancel_active_timer :: "tsx_timer_id \<Rightarrow> pjsip_transaction \<Rightarrow> pjsip_transaction" where
  "cancel_active_timer w t =
     (if tt_id (timer_of w t) \<noteq> 0
      then set_timer_id w 0 (fst (pjsip_endpt_cancel_timer t w)) else t)"

section \<open>The transaction\<close>

definition tsx_state_handler_uac :: "pjsip_tsx_state_e \<Rightarrow> tsx_handler option" where
  "tsx_state_handler_uac s = (case s of
     PJSIP_TSX_STATE_NULL \<Rightarrow> Some on_state_null
   | PJSIP_TSX_STATE_CALLING \<Rightarrow> Some on_state_calling
   | PJSIP_TSX_STATE_TRYING \<Rightarrow> None
   | PJSIP_TSX_STATE_PROCEEDING \<Rightarrow> Some on_state_proceeding_uac
   | PJSIP_TSX_STATE_COMPLETED \<Rightarrow> Some on_state_completed_uac
   | PJSIP_TSX_STATE_CONFIRMED \<Rightarrow> Some on_state_confirmed
   | PJSIP_TSX_STATE_TERMINATED \<Rightarrow> Some on_state_terminated
   | PJSIP_TSX_STATE_DESTROYED \<Rightarrow> Some on_state_destroyed)"

definition tsx_state_handler_uas :: "pjsip_tsx_state_e \<Rightarrow> tsx_handler option" where
  "tsx_state_handler_uas s = (case s of
     PJSIP_TSX_STATE_NULL \<Rightarrow> Some on_state_null
   | PJSIP_TSX_STATE_CALLING \<Rightarrow> None
   | PJSIP_TSX_STATE_TRYING \<Rightarrow> Some on_state_trying
   | PJSIP_TSX_STATE_PROCEEDING \<Rightarrow> Some on_state_proceeding_uas
   | PJSIP_TSX_STATE_COMPLETED \<Rightarrow> Some on_state_completed_uas
   | PJSIP_TSX_STATE_CONFIRMED \<Rightarrow> Some on_state_confirmed
   | PJSIP_TSX_STATE_TERMINATED \<Rightarrow> Some on_state_terminated
   | PJSIP_TSX_STATE_DESTROYED \<Rightarrow> Some on_state_destroyed)"

text \<open>
  \<open>tsx_create\<close> allocates a zeroed transaction; the pool and the mutexes are assumed to be
  available.
\<close>

definition tsx_create :: "pjsip_module option \<Rightarrow> pjsip_transaction" where
  "tsx_create user =
     \<lparr>role = PJSIP_ROLE_UAC, tsx_method = PJSIP_INVITE_METHOD, status_code = 0,
      state = PJSIP_TSX_STATE_NULL, state_handler = None, handle_200resp = True,
      tsx_user = user, transport = None, is_reliable = False, res_addr_transport = None,
      transport_flag = {}, transport_err = 0, pending_tx = None, attached = {},
      last_tx = None, retransmit_count = 0,
      retransmit_timer = \<lparr>tt_id = 0, tt_delay = None\<rparr>,
      timeout_timer = \<lparr>tt_id = 0, tt_delay = None\<rparr>, released = False, actions = []\<rparr>"

definition tsx_update_transport :: "pjsip_transaction \<Rightarrow> nat option \<Rightarrow> pjsip_transaction" where
  "tsx_update_transport t tp =
     (let t = (case transport t of None \<Rightarrow> t
               | Some old \<Rightarrow> (emit (A_TpDecRef old) (emit (A_TpUnlisten old) t))\<lparr>transport := None\<rparr>)
      in case tp of None \<Rightarrow> t
         | Some new \<Rightarrow> emit (A_TpListen new) (emit (A_TpAddRef new) (t\<lparr>transport := Some new\<rparr>)))"

definition tsx_destroy :: "pjsip_transaction \<Rightarrow> pjsip_transaction \<times> pj_status_t" where
  "tsx_destroy t =
     (let t = tsx_update_transport t None;
          t = (case last_tx t of None \<Rightarrow> t
               | Some td \<Rightarrow> (emit (A_TdDecRef (td_ptr td)) t)\<lparr>last_tx := None\<rparr>);
          t = cancel_active_timer TIMEOUT_TIMER t;
          t = cancel_active_timer RETRANSMIT_TIMER t;
          t = clear_flags {TSX_HAS_PENDING_RESCHED, TSX_HAS_PENDING_SEND} t
      in if TSX_HAS_PENDING_TRANSPORT \<in> transport_flag t
         then ((set_flag TSX_HAS_PENDING_DESTROY t)\<lparr>tsx_user := None\<rparr>, PJ_EBUSY)
         else ((emit A_Release t)\<lparr>released := True\<rparr>, PJ_SUCCESS))"

text \<open>
  \<open>tsx_set_state\<close> informs the user of a received response and of the state change, then does
  the work of the two last states.
\<close>

definition notify_user :: "pjsip_event \<Rightarrow> pjsip_tsx_state_e \<Rightarrow> pjsip_transaction \<Rightarrow> pjsip_transaction"
  where
  "notify_user ev prev_state t =
     (case tsx_user t of None \<Rightarrow> t
      | Some u \<Rightarrow>
          let t = (case ev of EV_RX_MSG m \<Rightarrow>
                     (case m of Response c me \<Rightarrow> if on_rx_response u then emit (A_RxResponse m) t else t
                      | Request me \<Rightarrow> t)
                   | _ \<Rightarrow> t)
          in if on_tsx_state u then emit (A_TsxState prev_state (state t)) t else t)"

definition tsx_set_state ::
  "pjsip_transaction \<Rightarrow> pjsip_tsx_state_e \<Rightarrow> pjsip_event \<Rightarrow> pjsip_transaction" where
  "tsx_set_state t new_state ev =
     (let prev_state = state t;
          t = pj_assert (new_state \<ge> state t) t;
          t = t\<lparr>state := new_state\<rparr>;
          t = t\<lparr>state_handler := (if role t = PJSIP_ROLE_UAC then tsx_state_handler_uac new_state
                                else tsx_state_handler_uas new_state)\<rparr>;
          t = notify_user ev prev_state t
      in if new_state = PJSIP_TSX_STATE_TERMINATED then
           let t = (if TSX_HAS_PENDING_TRANSPORT \<in> transport_flag t then
                      clear_flags {TSX_HAS_PENDING_TRANSPORT}
                        (case pending_tx t of None \<Rightarrow> t
                         | Some td \<Rightarrow> t\<lparr>attached := attached t - {td_ptr td}, pending_tx := None\<rparr>)
                    else t);
               t = cancel_active_timer TIMEOUT_TIMER t
           in activate_timer TIMEOUT_TIMER zero_time t
         else if new_state = PJSIP_TSX_STATE_DESTROYED then
           fst (tsx_destroy (emit A_Unregister t))
         else t)"

definition tsx_set_status_code :: "pjsip_transaction \<Rightarrow> int \<Rightarrow> pjsip_transaction" where
  "tsx_set_status_code t code = t\<lparr>status_code := code\<rparr>"

section \<open>Sending\<close>

text \<open>The factor \<open>1 << retransmit_count\<close> is taken modulo the width, as is the product.\<close>

definition tsx_retransmit_delay :: "tsx_env \<Rightarrow> pjsip_transaction \<Rightarrow> u32" where
  "tsx_retransmit_delay env t =
     (let msec_time = (if role t = PJSIP_ROLE_UAC \<and> status_code t \<ge> 100 then cfg_t2 env
                       else push_bit (retransmit_count t) 1 * cfg_t1 env)
      in if role t = PJSIP_ROLE_UAC then
           (if msec_time > cfg_t2 env \<and> tsx_method t \<noteq> PJSIP_INVITE_METHOD then cfg_t2 env
            else msec_time)
         else if status_code t < 200 then word_of_int (PJSIP_TSX_1XX_RETRANS_DELAY * 1000)
         else (if msec_time > cfg_t2 env then cfg_t2 env else msec_time))"

definition tsx_resched_retransmission :: "tsx_env \<Rightarrow> pjsip_transaction \<Rightarrow> pjsip_transaction" where
  "tsx_resched_retransmission env t =
     (let t = pj_assert (TSX_HAS_PENDING_TRANSPORT \<notin> transport_flag t) t;
          t = (if role t = PJSIP_ROLE_UAC then pj_assert (status_code t < 200) t else t);
          msec_time = tsx_retransmit_delay env t
      in if msec_time \<noteq> 0 then activate_timer RETRANSMIT_TIMER (msec_time_val msec_time) t else t)"

text \<open>
  \<open>send_msg_callback\<close> and \<open>tsx_send_msg\<close> call each other: the callback sends a message that was
  waiting for the transport, and a stateless send may run the callback before it returns.
  \<open>send\<close> is the \<open>tsx_send_msg\<close> the callback uses.  The callback returns its \<open>*cont\<close>.
\<close>

definition send_msg_callback_with ::
  "(pjsip_transaction \<Rightarrow> tdata option \<Rightarrow> pjsip_transaction \<times> pj_status_t) \<Rightarrow> tsx_env \<Rightarrow>
   tdata \<Rightarrow> send_result \<Rightarrow> pjsip_transaction \<Rightarrow> pjsip_transaction \<times> bool" where
  "send_msg_callback_with send env td r t =
     (if td_ptr td \<notin> attached t then (t, False)
      else
        let t = t\<lparr>attached := attached t - {td_ptr td}, pending_tx := None\<rparr>
        in if sr_sent r > 0 then
          let t = pj_assert (sr_transport r \<noteq> None) t;
              t = (if transport t \<noteq> sr_transport r then
                     let t = tsx_update_transport t (sr_transport r)
                     in t\<lparr>is_reliable := (case transport t of None \<Rightarrow> False
                                          | Some tp \<Rightarrow> tp_reliable env tp)\<rparr>
                   else t);
              t = clear_flags {TSX_HAS_PENDING_TRANSPORT} t;
              t = set_flag TSX_HAS_RESOLVED_SERVER t
          in if TSX_HAS_PENDING_DESTROY \<in> transport_flag t
             then (tsx_set_state t PJSIP_TSX_STATE_DESTROYED EV_UNKNOWN, sr_cont r)
             else
               let t = (if TSX_HAS_PENDING_SEND \<in> transport_flag t then
                          let t = clear_flags {TSX_HAS_PENDING_SEND} t in fst (send t (last_tx t))
                        else t);
                   t = (if TSX_HAS_PENDING_RESCHED \<in> transport_flag t then
                          let t = clear_flags {TSX_HAS_PENDING_RESCHED} t
                          in if \<not> is_reliable t then tsx_resched_retransmission env t else t
                        else t)
               in (t, sr_cont r)
        else
          let t = pj_assert (sr_sent r \<noteq> 0) t;
              t = (if sr_transport r = transport t then tsx_update_transport t None else t)
          in if \<not> sr_cont r \<or> TSX_HAS_PENDING_DESTROY \<in> transport_flag t then
               let t = t\<lparr>transport_err := - sr_sent r\<rparr>;
                   t = clear_flags {TSX_HAS_PENDING_TRANSPORT} t;
                   t = set_flag TSX_HAS_RESOLVED_SERVER t;
                   sc = (if - sr_sent r = PJ_ERESOLVE \<or> - sr_sent r = PJLIB_UTIL_EDNS_NXDOMAIN
                         then PJSIP_SC_BAD_GATEWAY else PJSIP_SC_TSX_TRANSPORT_ERROR);
                   t = tsx_set_status_code t sc
               in if state t \<noteq> PJSIP_TSX_STATE_TERMINATED \<and> state t \<noteq> PJSIP_TSX_STATE_DESTROYED
                  then (tsx_set_state t PJSIP_TSX_STATE_TERMINATED EV_TRANSPORT_ERROR, sr_cont r)
                  else if TSX_HAS_PENDING_DESTROY \<in> transport_flag t
                  then (tsx_set_state t PJSIP_TSX_STATE_DESTROYED EV_TRANSPORT_ERROR, sr_cont r)
                  else (t, sr_cont r)
             else
               let t = t\<lparr>retransmit_count := 0\<rparr>;
                   t = (if tt_id (timeout_timer t) \<noteq> 0 then
                          let t = fst (pjsip_endpt_cancel_timer t TIMEOUT_TIMER);
                              t = set_timer_id TIMEOUT_TIMER TIMER_INACTIVE t
                          in activate_timer TIMEOUT_TIMER (timeout_timer_val env) t
                        else t);
                   t = t\<lparr>attached := insert (td_ptr td) (attached t), pending_tx := Some td\<rparr>
               in (t, sr_cont r))"

text \<open>
  \<open>tsx_send_msg\<close>; \<open>NULL\<close> for the message is refused.  The part after the attempt on the
  current transport is \<open>tsx_send_resolve_with\<close>; \<open>status\<close> is what that attempt returned.
\<close>

definition run_callbacks ::
  "(tdata \<Rightarrow> send_result \<Rightarrow> pjsip_transaction \<Rightarrow> pjsip_transaction \<times> bool) \<Rightarrow> tdata \<Rightarrow>
   send_result list \<Rightarrow> pjsip_transaction \<Rightarrow> pjsip_transaction" where
  "run_callbacks cb td rs t = foldl (\<lambda>t r. fst (cb td r t)) t rs"

definition tsx_send_resolve_with ::
  "(pjsip_transaction \<Rightarrow> tdata option \<Rightarrow> pjsip_transaction \<times> pj_status_t) \<Rightarrow> tsx_env \<Rightarrow>
   pjsip_transaction \<Rightarrow> tdata \<Rightarrow> pj_status_t \<Rightarrow> pjsip_transaction \<times> pj_status_t" where
  "tsx_send_resolve_with send env t td status =
     (let t = pj_assert (status \<noteq> PJ_SUCCESS \<or> transport t = None) t
      in if TSX_HAS_RESOLVED_SERVER \<in> transport_flag t then
        let t = pj_assert (status \<noteq> PJ_SUCCESS) t;
            status = (if status = PJ_SUCCESS then PJ_EUNKNOWN else status);
            t = tsx_set_status_code t PJSIP_SC_TSX_TRANSPORT_ERROR
        in (tsx_set_state t PJSIP_TSX_STATE_TERMINATED EV_TRANSPORT_ERROR, status)
      else
        let t = emit (A_TdAddRef (td_ptr td)) t;
            t = t\<lparr>attached := insert (td_ptr td) (attached t), pending_tx := Some td\<rparr>;
            t = set_flag TSX_HAS_PENDING_TRANSPORT t;
            (t, rs, status) = (case td_msg td of
                Request me \<Rightarrow> (emit (A_StatelessSend td) t, stateless_send env (actions t) td)
              | Response c me \<Rightarrow> (emit (A_SendResponse td) t,
                                   send_response env (actions t) (res_addr_transport t) td));
            t = run_callbacks (send_msg_callback_with send env) td rs t;
            status = (if status = PJ_EPENDING then PJ_SUCCESS else status);
            t = (if status \<noteq> PJ_SUCCESS
                 then (emit (A_TdDecRef (td_ptr td)) t)
                        \<lparr>attached := attached t - {td_ptr td}, pending_tx := None\<rparr>
                 else t)
        in (t, if status = PJ_SUCCESS \<and> state t = PJSIP_TSX_STATE_TERMINATED
               then transport_err t else status))"

definition tsx_send_msg_with ::
  "(pjsip_transaction \<Rightarrow> tdata option \<Rightarrow> pjsip_transaction \<times> pj_status_t) \<Rightarrow> tsx_env \<Rightarrow>
   pjsip_transaction \<Rightarrow> tdata option \<Rightarrow> pjsip_transaction \<times> pj_status_t" where
  "tsx_send_msg_with send env t tdo =
     (case tdo of None \<Rightarrow> (pj_assert False t, PJ_EINVAL)
      | Some td \<Rightarrow>
        if TSX_HAS_PENDING_TRANSPORT \<in> transport_flag t
        then (set_flag TSX_HAS_PENDING_SEND t, PJ_SUCCESS)
        else case transport t of
          None \<Rightarrow> tsx_send_resolve_with send env t td PJ_SUCCESS
        | Some tp \<Rightarrow>
            let status = transport_send env (actions t) tp td;
                t = emit (A_TransportSend tp td) t;
                status = (if status = PJ_EPENDING then PJ_SUCCESS else status)
            in if status = PJ_SUCCESS then (t, PJ_SUCCESS)
               else let t = tsx_update_transport t None;
                        t = t\<lparr>res_addr_transport := None\<rparr>
                    in tsx_send_resolve_with send env t td status)"

text \<open>
  Two levels of the recursion suffice (\<open>tsx_send_msg_recursive\<close> below): the callback marks the
  server as resolved before it sends, and a send to a resolved server runs no callback.
\<close>

definition tsx_send_msg ::
  "tsx_env \<Rightarrow> pjsip_transaction \<Rightarrow> tdata option \<Rightarrow> pjsip_transaction \<times> pj_status_t" where
  "tsx_send_msg env =
     tsx_send_msg_with (tsx_send_msg_with (\<lambda>t tdo. (emit A_Recursion t, PJ_EBUG)) env) env"

definition send_msg_callback ::
  "tsx_env \<Rightarrow> tdata \<Rightarrow> send_result \<Rightarrow> pjsip_transaction \<Rightarrow> pjsip_transaction \<times> bool" where
  "send_msg_callback env = send_msg_callback_with (tsx_send_msg env) env"

definition tsx_retransmit ::
  "tsx_env \<Rightarrow> pjsip_transaction \<Rightarrow> bool \<Rightarrow> pjsip_transaction \<times> pj_status_t" where
  "tsx_retransmit env t resched =
     (if last_tx t = None then (pj_assert False t, PJ_EBUG)
      else
        let t = t\<lparr>retransmit_count := retransmit_count t + 1\<rparr>;
            t = (if resched then
                   let t = pj_assert (state t \<noteq> PJSIP_TSX_STATE_CONFIRMED) t
                   in if TSX_HAS_PENDING_TRANSPORT \<in> transport_flag t
                      then set_flag TSX_HAS_PENDING_RESCHED t
                      else tsx_resched_retransmission env t
                 else t)
        in tsx_send_msg env t (last_tx t))"

section \<open>State handlers\<close>

definition save_last_tx :: "tdata \<Rightarrow> pjsip_transaction \<Rightarrow> pjsip_transaction" where
  "save_last_tx td t =
     (if last_tx t \<noteq> Some td then emit (A_TdAddRef (td_ptr td)) (t\<lparr>last_tx := Some td\<rparr>) else t)"

definition drop_other_last_tx :: "tdata \<Rightarrow> pjsip_transaction \<Rightarrow> pjsip_transaction" where
  "drop_other_last_tx td t =
     (case last_tx t of
        Some old \<Rightarrow> if old \<noteq> td then (emit (A_TdDecRef (td_ptr old)) t)\<lparr>last_tx := None\<rparr> else t
      | None \<Rightarrow> t)"

text \<open>
  Start the retransmission timer, or have the send callback do it when the transport is not
  known yet.
\<close>

definition start_retransmit :: "pj_time_val \<Rightarrow> pjsip_transaction \<Rightarrow> pjsip_transaction" where
  "start_retransmit delay t =
     (let t = t\<lparr>retransmit_count := 0\<rparr>
      in if TSX_HAS_PENDING_TRANSPORT \<in> transport_flag t then set_flag TSX_HAS_PENDING_RESCHED t
         else activate_timer RETRANSMIT_TIMER delay t)"

definition tsx_on_state_null ::
  "tsx_env \<Rightarrow> pjsip_transaction \<Rightarrow> pjsip_event \<Rightarrow> pjsip_transaction \<times> pj_status_t" where
  "tsx_on_state_null env t ev =
     (let t = pj_assert (state t = PJSIP_TSX_STATE_NULL) t
      in if role t = PJSIP_ROLE_UAS then
        let t = pj_assert (case ev of EV_RX_MSG (Request me) \<Rightarrow> True | _ \<Rightarrow> False) t
        in (tsx_set_state t PJSIP_TSX_STATE_TRYING ev, PJ_SUCCESS)
      else case ev of
        EV_TX_MSG td \<Rightarrow>
          let t = drop_other_last_tx td t;
              t = save_last_tx td t;
              (t, status) = tsx_send_msg env t (Some td)
          in if status \<noteq> PJ_SUCCESS then (t, status)
             else
               let t = activate_timer TIMEOUT_TIMER (timeout_timer_val env) t;
                   t = (if \<not> is_reliable t then start_retransmit (t1_timer_val env) t else t)
               in (tsx_set_state t PJSIP_TSX_STATE_CALLING ev, PJ_SUCCESS)
      | _ \<Rightarrow> (pj_assert False t, PJ_EBUG))"

text \<open>
  Proceeding on the client side.  The three parts are the branches on the new status code.
\<close>

definition proceeding_uac_2xx ::
  "tsx_env \<Rightarrow> pjsip_transaction \<Rightarrow> pjsip_event \<Rightarrow> pjsip_transaction \<times> pj_status_t" where
  "proceeding_uac_2xx env t ev =
     (let t = fst (pjsip_endpt_cancel_timer t TIMEOUT_TIMER)
      in if tsx_method t = PJSIP_INVITE_METHOD
         then (tsx_set_state t PJSIP_TSX_STATE_TERMINATED ev, PJ_SUCCESS)
         else
           let timeout = (if \<not> is_reliable t then
                            (if tsx_method t = PJSIP_INVITE_METHOD then td_timer_val env
                             else t4_timer_val env)
                          else zero_time);
               t = activate_timer TIMEOUT_TIMER timeout t;
               t = cancel_active_timer RETRANSMIT_TIMER t
           in (tsx_set_state t PJSIP_TSX_STATE_COMPLETED ev, PJ_SUCCESS))"

definition proceeding_uac_complete ::
  "tsx_env \<Rightarrow> pjsip_transaction \<Rightarrow> pjsip_event \<Rightarrow> tdata option \<Rightarrow> pjsip_transaction \<times> pj_status_t" where
  "proceeding_uac_complete env t ev ack_tdata =
     (let t = tsx_set_state t PJSIP_TSX_STATE_COMPLETED ev;
          t = (if tsx_method t = PJSIP_INVITE_METHOD \<and> ack_tdata \<noteq> last_tx t then
                 (case last_tx t of None \<Rightarrow> t | Some old \<Rightarrow> emit (A_TdDecRef (td_ptr old)) t)
                   \<lparr>last_tx := ack_tdata\<rparr>
               else t);
          timeout = (if \<not> is_reliable t then
                       (if tsx_method t = PJSIP_INVITE_METHOD then td_timer_val env
                        else t4_timer_val env)
                     else zero_time);
          t = (if tt_id (timeout_timer t) \<noteq> 0 then fst (pjsip_endpt_cancel_timer t TIMEOUT_TIMER)
               else t)
      in (activate_timer TIMEOUT_TIMER timeout t, PJ_SUCCESS))"

definition proceeding_uac_final ::
  "tsx_env \<Rightarrow> pjsip_transaction \<Rightarrow> pjsip_event \<Rightarrow> sip_msg \<Rightarrow> pjsip_transaction \<times> pj_status_t" where
  "proceeding_uac_final env t ev m =
     (let t = cancel_active_timer RETRANSMIT_TIMER t;
          t = set_timer_id TIMEOUT_TIMER 0 t;
          t = fst (pjsip_endpt_cancel_timer t TIMEOUT_TIMER)
      in if tsx_method t = PJSIP_INVITE_METHOD then
           (case create_ack env (last_tx t) m of
              Inr status \<Rightarrow> (t, status)
            | Inl ack \<Rightarrow>
                let (t, status) = tsx_send_msg env t (Some ack)
                in if status \<noteq> PJ_SUCCESS then (t, status)
                   else proceeding_uac_complete env t ev (Some ack))
         else proceeding_uac_complete env t ev None)"

text \<open>
  \<open>proceeding_uac_status\<close> is the chain of tests on the status code.  After a timer event there
  is no received message; the code's branches that use one are not reached with the code 408.
\<close>

definition proceeding_uac_status ::
  "tsx_env \<Rightarrow> pjsip_transaction \<Rightarrow> pjsip_event \<Rightarrow> pjsip_transaction \<times> pj_status_t" where
  "proceeding_uac_status env t ev =
     (if PJSIP_IS_STATUS_IN_CLASS (status_code t) 100
      then (tsx_set_state t PJSIP_TSX_STATE_PROCEEDING ev, PJ_SUCCESS)
      else if PJSIP_IS_STATUS_IN_CLASS (status_code t) 200 then proceeding_uac_2xx env t ev
      else case ev of
        EV_TIMER TIMEOUT_TIMER \<Rightarrow> (tsx_set_state t PJSIP_TSX_STATE_TERMINATED ev, PJ_SUCCESS)
      | EV_RX_MSG m \<Rightarrow>
          if status_code t \<ge> 300 \<and> status_code t \<le> 699 then proceeding_uac_final env t ev m
          else (pj_assert False t, PJ_EBUG)
      | _ \<Rightarrow> (pj_assert False t, PJ_EBUG))"

definition tsx_on_state_proceeding_uac ::
  "tsx_env \<Rightarrow> pjsip_transaction \<Rightarrow> pjsip_event \<Rightarrow> pjsip_transaction \<times> pj_status_t" where
  "tsx_on_state_proceeding_uac env t ev =
     (let t = pj_assert (state t = PJSIP_TSX_STATE_PROCEEDING \<or> state t = PJSIP_TSX_STATE_CALLING) t
      in case ev of
        EV_TIMER RETRANSMIT_TIMER \<Rightarrow> tsx_retransmit env t True
      | EV_TIMER TIMEOUT_TIMER \<Rightarrow>
          proceeding_uac_status env (tsx_set_status_code t PJSIP_SC_TSX_TIMEOUT) ev
      | EV_RX_MSG (Response code me) \<Rightarrow> proceeding_uac_status env (tsx_set_status_code t code) ev
      | EV_RX_MSG (Request me) \<Rightarrow> (pj_assert False t, PJSIP_ENOTRESPONSEMSG)
      | _ \<Rightarrow> (pj_assert False t, PJ_EINVALIDOP))"

text \<open>
  \<open>calling_rx_timers\<close> is what the reception of a response with the given code does to the timers
  in state Calling.
\<close>

definition calling_rx_timers ::
  "tsx_env \<Rightarrow> int \<Rightarrow> pjsip_transaction \<Rightarrow> pjsip_transaction" where
  "calling_rx_timers env code t =
     (if code \<ge> 200 then
        cancel_active_timer TIMEOUT_TIMER (cancel_active_timer RETRANSMIT_TIMER t)
      else
        let t = cancel_active_timer RETRANSMIT_TIMER t
        in if tsx_method t = PJSIP_INVITE_METHOD
           then fst (pjsip_endpt_cancel_timer t TIMEOUT_TIMER)
           else if \<not> is_reliable t then activate_timer RETRANSMIT_TIMER (t2_timer_val env) t
           else t)"

definition tsx_on_state_calling ::
  "tsx_env \<Rightarrow> pjsip_transaction \<Rightarrow> pjsip_event \<Rightarrow> pjsip_transaction \<times> pj_status_t" where
  "tsx_on_state_calling env t ev =
     (let t = pj_assert (state t = PJSIP_TSX_STATE_CALLING) t;
          t = pj_assert (role t = PJSIP_ROLE_UAC) t
      in case ev of
        EV_TIMER RETRANSMIT_TIMER \<Rightarrow> tsx_retransmit env t True
      | EV_TIMER TIMEOUT_TIMER \<Rightarrow>
          let t = cancel_active_timer RETRANSMIT_TIMER t;
              t = clear_flags {TSX_HAS_PENDING_RESCHED} t;
              t = tsx_set_status_code t PJSIP_SC_TSX_TIMEOUT
          in (tsx_set_state t PJSIP_TSX_STATE_TERMINATED ev, PJ_SUCCESS)
      | EV_RX_MSG (Request me) \<Rightarrow> (t, PJSIP_ENOTRESPONSEMSG)
      | EV_RX_MSG (Response code me) \<Rightarrow>
          let t = calling_rx_timers env code t;
              t = clear_flags {TSX_HAS_PENDING_RESCHED} t
          in (fst (tsx_on_state_proceeding_uac env t ev), PJ_SUCCESS)
      | _ \<Rightarrow> (pj_assert False t, PJ_EBUG))"

text \<open>
  Proceeding on the server side: the branches for the class of the response the user sends,
  after the message has been sent.
\<close>

definition proceeding_uas_1xx ::
  "tsx_env \<Rightarrow> pjsip_transaction \<Rightarrow> tdata \<Rightarrow> pjsip_transaction" where
  "proceeding_uas_1xx env t td =
     (let t = save_last_tx td t;
          t = tsx_set_state t PJSIP_TSX_STATE_PROCEEDING (EV_TX_MSG td)
      in if PJSIP_TSX_1XX_RETRANS_DELAY > 0 \<and> tsx_method t = PJSIP_INVITE_METHOD \<and> status_code t > 100
         then start_retransmit (TimeVal PJSIP_TSX_1XX_RETRANS_DELAY 0)
                (cancel_active_timer RETRANSMIT_TIMER t)
         else t)"

definition proceeding_uas_2xx ::
  "tsx_env \<Rightarrow> pjsip_transaction \<Rightarrow> tdata \<Rightarrow> pjsip_transaction" where
  "proceeding_uas_2xx env t td =
     (let t = cancel_active_timer RETRANSMIT_TIMER t
      in if tsx_method t = PJSIP_INVITE_METHOD \<and> \<not> handle_200resp t
         then tsx_set_state t PJSIP_TSX_STATE_TERMINATED (EV_TX_MSG td)
         else
           let t = (if tsx_method t = PJSIP_INVITE_METHOD
                    then start_retransmit (t1_timer_val env) t else t);
               t = save_last_tx td t;
               timeout = (if tsx_method t = PJSIP_INVITE_METHOD then timeout_timer_val env
                          else if \<not> is_reliable t then timeout_timer_val env
                          else zero_time);
               t = activate_timer TIMEOUT_TIMER timeout t
           in tsx_set_state t PJSIP_TSX_STATE_COMPLETED (EV_TX_MSG td))"

definition proceeding_uas_3xx ::
  "tsx_env \<Rightarrow> pjsip_transaction \<Rightarrow> tdata \<Rightarrow> pjsip_method_e \<Rightarrow> pjsip_transaction" where
  "proceeding_uas_3xx env t td cseq_method =
     (let t = cancel_active_timer RETRANSMIT_TIMER t;
          t = save_last_tx td t;
          t = (if tsx_method t = PJSIP_INVITE_METHOD
               then activate_timer TIMEOUT_TIMER (timeout_timer_val env) t
               else if \<not> is_reliable t
               then activate_timer TIMEOUT_TIMER (timeout_timer_val env) t
               else activate_timer TIMEOUT_TIMER zero_time t);
          t = (if \<not> is_reliable t \<and> cseq_method = PJSIP_INVITE_METHOD
               then start_retransmit (t1_timer_val env) t else t)
      in tsx_set_state t PJSIP_TSX_STATE_COMPLETED (EV_TX_MSG td))"

definition proceeding_uas_tx ::
  "tsx_env \<Rightarrow> pjsip_transaction \<Rightarrow> tdata \<Rightarrow> pjsip_transaction \<times> pj_status_t" where
  "proceeding_uas_tx env t td =
     (case td_msg td of
        Request me \<Rightarrow> (pj_assert False t, PJSIP_ENOTRESPONSEMSG)
      | Response code cseq_method \<Rightarrow>
          let t = tsx_set_status_code t code;
              t = drop_other_last_tx td t;
              (t, status) = tsx_send_msg env t (Some td)
          in if status \<noteq> PJ_SUCCESS then (t, status)
             else if PJSIP_IS_STATUS_IN_CLASS (status_code t) 100
             then (proceeding_uas_1xx env t td, PJ_SUCCESS)
             else if PJSIP_IS_STATUS_IN_CLASS (status_code t) 200
             then (proceeding_uas_2xx env t td, PJ_SUCCESS)
             else if status_code t \<ge> 300
             then (proceeding_uas_3xx env t td cseq_method, PJ_SUCCESS)
             else (pj_assert False t, PJ_SUCCESS))"

definition tsx_on_state_proceeding_uas ::
  "tsx_env \<Rightarrow> pjsip_transaction \<Rightarrow> pjsip_event \<Rightarrow> pjsip_transaction \<times> pj_status_t" where
  "tsx_on_state_proceeding_uas env t ev =
     (let t = pj_assert (state t = PJSIP_TSX_STATE_PROCEEDING \<or> state t = PJSIP_TSX_STATE_TRYING) t;
          t = pj_assert (role t = PJSIP_ROLE_UAS) t
      in case ev of
        EV_RX_MSG m \<Rightarrow>
          if last_tx t = None then (pj_assert False t, PJ_EBUG)
          else if TSX_HAS_PENDING_TRANSPORT \<in> transport_flag t
          then (set_flag TSX_HAS_PENDING_SEND t, PJ_SUCCESS)
          else tsx_send_msg env t (last_tx t)
      | EV_TX_MSG td \<Rightarrow> proceeding_uas_tx env t td
      | EV_TIMER RETRANSMIT_TIMER \<Rightarrow>
          let t = pj_assert (TSX_HAS_PENDING_TRANSPORT \<notin> transport_flag t) t;
              t = pj_assert (last_tx t \<noteq> None) t
          in tsx_retransmit env t True
      | EV_TIMER TIMEOUT_TIMER \<Rightarrow>
          let t = pj_assert False t;
              t = tsx_set_status_code t PJSIP_SC_TSX_TIMEOUT
          in (tsx_set_state t PJSIP_TSX_STATE_TERMINATED ev, PJ_EBUG)
      | _ \<Rightarrow> (pj_assert False t, PJ_EBUG))"

definition tsx_on_state_trying ::
  "tsx_env \<Rightarrow> pjsip_transaction \<Rightarrow> pjsip_event \<Rightarrow> pjsip_transaction \<times> pj_status_t" where
  "tsx_on_state_trying env t ev =
     (let t = pj_assert (state t = PJSIP_TSX_STATE_TRYING) t;
          t = pj_assert (role t = PJSIP_ROLE_UAS) t
      in case ev of
        EV_TX_MSG td \<Rightarrow>
          let (t, status) = tsx_on_state_proceeding_uas env t ev
          in (if status = PJ_SUCCESS \<and> state t = PJSIP_TSX_STATE_TRYING
              then tsx_set_state t PJSIP_TSX_STATE_PROCEEDING ev else t, status)
      | _ \<Rightarrow> (t, PJ_SUCCESS))"

text \<open>Completed on the server side: \<open>completed_uas_ack\<close> processes the ACK of an INVITE.\<close>

definition completed_uas_ack ::
  "tsx_env \<Rightarrow> pjsip_transaction \<Rightarrow> pjsip_event \<Rightarrow> pjsip_transaction" where
  "completed_uas_ack env t ev =
     (let t = cancel_active_timer RETRANSMIT_TIMER t;
          t = clear_flags {TSX_HAS_PENDING_RESCHED} t;
          t = fst (pjsip_endpt_cancel_timer t TIMEOUT_TIMER);
          timeout = (if \<not> is_reliable t then zero_time else t4_timer_val env);
          t = activate_timer TIMEOUT_TIMER timeout t
      in tsx_set_state t PJSIP_TSX_STATE_CONFIRMED ev)"

definition tsx_on_state_completed_uas ::
  "tsx_env \<Rightarrow> pjsip_transaction \<Rightarrow> pjsip_event \<Rightarrow> pjsip_transaction \<times> pj_status_t" where
  "tsx_on_state_completed_uas env t ev =
     (let t = pj_assert (state t = PJSIP_TSX_STATE_COMPLETED) t
      in case ev of
        EV_RX_MSG (Response c me) \<Rightarrow> (t, PJSIP_ENOTREQUESTMSG)
      | EV_RX_MSG (Request me) \<Rightarrow>
          if me \<noteq> PJSIP_ACK_METHOD then tsx_retransmit env t False
          else if tsx_method t \<noteq> PJSIP_INVITE_METHOD then (t, PJSIP_EINVALIDMETHOD)
          else (completed_uas_ack env t ev, PJ_SUCCESS)
      | EV_TIMER RETRANSMIT_TIMER \<Rightarrow> tsx_retransmit env t True
      | EV_TIMER TIMEOUT_TIMER \<Rightarrow>
          if tsx_method t = PJSIP_INVITE_METHOD
          then (tsx_set_state (tsx_set_status_code t PJSIP_SC_TSX_TIMEOUT)
                  PJSIP_TSX_STATE_TERMINATED ev, PJ_SUCCESS)
          else (tsx_set_state t PJSIP_TSX_STATE_TERMINATED ev, PJ_SUCCESS)
      | EV_TX_MSG td \<Rightarrow> if last_tx t = Some td then (t, PJ_SUCCESS)
                       else (pj_assert False t, PJ_EINVALIDOP)
      | _ \<Rightarrow> (pj_assert False t, PJ_EINVALIDOP))"

definition tsx_on_state_completed_uac ::
  "tsx_env \<Rightarrow> pjsip_transaction \<Rightarrow> pjsip_event \<Rightarrow> pjsip_transaction \<times> pj_status_t" where
  "tsx_on_state_completed_uac env t ev =
     (let t = pj_assert (state t = PJSIP_TSX_STATE_COMPLETED) t
      in case ev of
        EV_TIMER w \<Rightarrow>
          let t = pj_assert (w = TIMEOUT_TIMER) t
          in (tsx_set_state t PJSIP_TSX_STATE_TERMINATED ev, PJ_SUCCESS)
      | EV_RX_MSG m \<Rightarrow>
          if tsx_method t = PJSIP_INVITE_METHOD then
            (case m of
               Response code me \<Rightarrow> if code \<ge> 200 then tsx_retransmit env t False else (t, PJ_SUCCESS)
             | Request me \<Rightarrow> (pj_assert False (pj_assert False t), PJ_SUCCESS))
          else (t, PJ_SUCCESS)
      | _ \<Rightarrow> (pj_assert False t, PJ_EINVALIDOP))"

definition tsx_on_state_confirmed ::
  "tsx_env \<Rightarrow> pjsip_transaction \<Rightarrow> pjsip_event \<Rightarrow> pjsip_transaction \<times> pj_status_t" where
  "tsx_on_state_confirmed env t ev =
     (let t = pj_assert (state t = PJSIP_TSX_STATE_CONFIRMED) t;
          t = pj_assert (role t = PJSIP_ROLE_UAS) t;
          t = pj_assert (tsx_method t = PJSIP_INVITE_METHOD) t
      in case ev of
        EV_RX_MSG (Response c me) \<Rightarrow> (t, PJSIP_ENOTREQUESTMSG)
      | EV_RX_MSG (Request me) \<Rightarrow>
          (pj_assert (me = PJSIP_ACK_METHOD \<or> me = PJSIP_INVITE_METHOD) t, PJ_SUCCESS)
      | EV_TIMER w \<Rightarrow>
          let t = pj_assert (w = TIMEOUT_TIMER) t
          in (tsx_set_state t PJSIP_TSX_STATE_TERMINATED ev, PJ_SUCCESS)
      | _ \<Rightarrow> (pj_assert False t, PJ_EBUG))"

definition tsx_on_state_terminated ::
  "tsx_env \<Rightarrow> pjsip_transaction \<Rightarrow> pjsip_event \<Rightarrow> pjsip_transaction \<times> pj_status_t" where
  "tsx_on_state_terminated env t ev =
     (let t = pj_assert (state t = PJSIP_TSX_STATE_TERMINATED) t;
          t = pj_assert (case ev of EV_TIMER w \<Rightarrow> True | _ \<Rightarrow> False) t
      in (tsx_set_state t PJSIP_TSX_STATE_DESTROYED ev, PJ_SUCCESS))"

definition tsx_on_state_destroyed ::
  "tsx_env \<Rightarrow> pjsip_transaction \<Rightarrow> pjsip_event \<Rightarrow> pjsip_transaction \<times> pj_status_t" where
  "tsx_on_state_destroyed env t ev = (pj_assert False t, PJ_EBUG)"

section \<open>Operations and callbacks\<close>

text \<open>The call through \<open>tsx->state_handler\<close>; a NULL handler would crash.\<close>

definition call_state_handler ::
  "tsx_env \<Rightarrow> pjsip_transaction \<Rightarrow> pjsip_event \<Rightarrow> pjsip_transaction \<times> pj_status_t" where
  "call_state_handler env t ev =
     (case state_handler t of
        None \<Rightarrow> (emit A_NullHandler t, PJ_EBUG)
      | Some on_state_null \<Rightarrow> tsx_on_state_null env t ev
      | Some on_state_calling \<Rightarrow> tsx_on_state_calling env t ev
      | Some on_state_trying \<Rightarrow> tsx_on_state_trying env t ev
      | Some on_state_proceeding_uac \<Rightarrow> tsx_on_state_proceeding_uac env t ev
      | Some on_state_proceeding_uas \<Rightarrow> tsx_on_state_proceeding_uas env t ev
      | Some on_state_completed_uac \<Rightarrow> tsx_on_state_completed_uac env t ev
      | Some on_state_completed_uas \<Rightarrow> tsx_on_state_completed_uas env t ev
      | Some on_state_confirmed \<Rightarrow> tsx_on_state_confirmed env t ev
      | Some on_state_terminated \<Rightarrow> tsx_on_state_terminated env t ev
      | Some on_state_destroyed \<Rightarrow> tsx_on_state_destroyed env t ev)"

text \<open>
  Creation.  The arguments stand for the results of the calls that inspect the message and
  register the transaction: presence of headers, the destination (status and transport flag),
  the transaction key, and the registration in the hash table.
\<close>

definition pjsip_tsx_create_uac ::
  "pjsip_module option \<Rightarrow> tdata \<Rightarrow> bool \<Rightarrow> pj_status_t \<times> bool \<Rightarrow> pj_status_t \<Rightarrow>
   pjsip_transaction option \<times> pj_status_t" where
  "pjsip_tsx_create_uac user td has_cseq dest reg =
     (case td_msg td of
        Response c me \<Rightarrow> (None, PJSIP_ENOTREQUESTMSG)
      | Request me \<Rightarrow>
          if me = PJSIP_ACK_METHOD then (None, PJ_EINVALIDOP)
          else if \<not> has_cseq then (None, PJSIP_EMISSINGHDR)
          else
            let t = tsx_create user;
                t = t\<lparr>role := PJSIP_ROLE_UAC, tsx_method := me\<rparr>;
                t = t\<lparr>state := PJSIP_TSX_STATE_NULL, state_handler := Some on_state_null\<rparr>;
                t = emit (A_TdAddRef (td_ptr td)) (t\<lparr>last_tx := Some td\<rparr>)
            in if fst dest \<noteq> PJ_SUCCESS then (None, fst dest)
               else
                 let t = t\<lparr>is_reliable := snd dest\<rparr>
                 in if reg \<noteq> PJ_SUCCESS then (None, reg) else (Some t, PJ_SUCCESS))"

definition pjsip_tsx_create_uas ::
  "tsx_env \<Rightarrow> pjsip_module option \<Rightarrow> sip_msg \<Rightarrow> bool \<Rightarrow> bool \<Rightarrow> pjsip_method_e \<Rightarrow> pj_status_t \<Rightarrow>
   pj_status_t \<times> nat option \<times> bool \<Rightarrow> pj_status_t \<Rightarrow> pjsip_transaction option \<times> pj_status_t" where
  "pjsip_tsx_create_uas env user m has_cseq has_via cseq_method key res_addr reg =
     (case m of
        Response c me \<Rightarrow> (None, PJSIP_ENOTREQUESTMSG)
      | Request me \<Rightarrow>
          if me = PJSIP_ACK_METHOD then (None, PJ_EINVALIDOP)
          else if \<not> has_cseq then (None, PJSIP_EMISSINGHDR)
          else if \<not> has_via then (None, PJSIP_EMISSINGHDR)
          else if cseq_method \<noteq> me then (None, PJSIP_EINVALIDHDR)
          else
            let t = tsx_create user;
                t = t\<lparr>role := PJSIP_ROLE_UAS, tsx_method := me\<rparr>
            in if key \<noteq> PJ_SUCCESS then (None, key)
               else
                 let t = t\<lparr>state := PJSIP_TSX_STATE_NULL, state_handler := Some on_state_null\<rparr>;
                     (status, tp, dst_reliable) = res_addr
                 in if status \<noteq> PJ_SUCCESS then (None, status)
                    else
                      let t = t\<lparr>res_addr_transport := tp\<rparr>;
                          t = (case tp of
                                 Some p \<Rightarrow> (tsx_update_transport t tp)\<lparr>is_reliable := tp_reliable env p\<rparr>
                               | None \<Rightarrow> t\<lparr>is_reliable := dst_reliable\<rparr>)
                      in if reg \<noteq> PJ_SUCCESS then (None, reg) else (Some t, PJ_SUCCESS))"

definition pjsip_tsx_terminate :: "pjsip_transaction \<Rightarrow> int \<Rightarrow> pjsip_transaction \<times> pj_status_t" where
  "pjsip_tsx_terminate t code =
     (if \<not> code \<ge> 200 then (pj_assert False t, PJ_EINVAL)
      else if state t \<ge> PJSIP_TSX_STATE_TERMINATED then (t, PJ_SUCCESS)
      else (tsx_set_state (tsx_set_status_code t code) PJSIP_TSX_STATE_TERMINATED EV_USER, PJ_SUCCESS))"

definition pjsip_tsx_stop_retransmit :: "pjsip_transaction \<Rightarrow> pjsip_transaction \<times> pj_status_t" where
  "pjsip_tsx_stop_retransmit t =
     (if \<not> (role t = PJSIP_ROLE_UAC \<and> tsx_method t = PJSIP_INVITE_METHOD)
      then (pj_assert False t, PJ_EINVALIDOP)
      else (cancel_active_timer RETRANSMIT_TIMER t, PJ_SUCCESS))"

definition pjsip_tsx_set_timeout ::
  "pjsip_transaction \<Rightarrow> u32 \<Rightarrow> pjsip_transaction \<times> pj_status_t" where
  "pjsip_tsx_set_timeout t millisec =
     (if \<not> (role t = PJSIP_ROLE_UAC \<and> tsx_method t = PJSIP_INVITE_METHOD)
      then (pj_assert False t, PJ_EINVALIDOP)
      else if status_code t \<ge> 200 \<and> tt_id (timeout_timer t) \<noteq> 0 then (t, PJ_EEXISTS)
      else
        let t = cancel_active_timer TIMEOUT_TIMER t
        in (activate_timer TIMEOUT_TIMER (pj_time_val_normalize (TimeVal 0 (sint millisec))) t,
            PJ_SUCCESS))"

definition pjsip_tsx_send_msg ::
  "tsx_env \<Rightarrow> pjsip_transaction \<Rightarrow> tdata option \<Rightarrow> pjsip_transaction \<times> pj_status_t" where
  "pjsip_tsx_send_msg env t tdo =
     (case (if tdo = None then last_tx t else tdo) of
        None \<Rightarrow> (pj_assert False t, PJ_EINVALIDOP)
      | Some td \<Rightarrow>
          let (t, status) = call_state_handler env t (EV_TX_MSG td)
          in (if status = PJ_SUCCESS then emit (A_TdDecRef (td_ptr td)) t else t, status))"

definition pjsip_tsx_recv_msg :: "tsx_env \<Rightarrow> pjsip_transaction \<Rightarrow> sip_msg \<Rightarrow> pjsip_transaction" where
  "pjsip_tsx_recv_msg env t m = fst (call_state_handler env t (EV_RX_MSG m))"

definition tsx_timer_callback ::
  "tsx_env \<Rightarrow> pjsip_transaction \<Rightarrow> tsx_timer_id \<Rightarrow> pjsip_transaction" where
  "tsx_timer_callback env t w =
     fst (call_state_handler env (set_timer_id w 0 t) (EV_TIMER w))"

definition pjsip_tsx_retransmit_no_state ::
  "tsx_env \<Rightarrow> pjsip_transaction \<Rightarrow> tdata option \<Rightarrow> pjsip_transaction \<times> pj_status_t" where
  "pjsip_tsx_retransmit_no_state env t tdo =
     (let tdo = (if tdo = None then last_tx t else tdo);
          (t, status) = tsx_send_msg env t tdo
      in (case tdo of Some td \<Rightarrow> if status = PJ_SUCCESS then emit (A_TdDecRef (td_ptr td)) t else t
          | None \<Rightarrow> t, status))"

definition transport_callback :: "pjsip_transaction \<Rightarrow> int \<Rightarrow> pjsip_transaction" where
  "transport_callback t sent =
     (if sent < 0 then
        let t = t\<lparr>transport_err := - sent\<rparr>;
            t = tsx_update_transport t None;
            t = tsx_set_status_code t PJSIP_SC_TSX_TRANSPORT_ERROR
        in tsx_set_state t PJSIP_TSX_STATE_TERMINATED EV_TRANSPORT_ERROR
      else t)"

text \<open>The argument says whether the new transport state is \<open>PJSIP_TP_STATE_DISCONNECTED\<close>.\<close>

definition tsx_tp_state_callback :: "pjsip_transaction \<Rightarrow> bool \<Rightarrow> pjsip_transaction" where
  "tsx_tp_state_callback t disconnected =
     (if disconnected \<and> state t < PJSIP_TSX_STATE_TERMINATED
      then tsx_set_state (tsx_set_status_code t PJSIP_SC_TSX_TRANSPORT_ERROR)
             PJSIP_TSX_STATE_TERMINATED EV_TRANSPORT_ERROR
      else t)"

section \<open>References held on transports\<close>

definition tp_refs :: "pjsip_transaction \<Rightarrow> nat \<Rightarrow> int" where
  "tp_refs t p = int (count_list (actions t) (A_TpAddRef p)) - int (count_list (actions t) (A_TpDecRef p))"

definition tp_listeners :: "pjsip_transaction \<Rightarrow> nat \<Rightarrow> int" where
  "tp_listeners t p = int (count_list (actions t) (A_TpListen p)) - int (count_list (actions t) (A_TpUnlisten p))"

text \<open>Actions that leave these counts alone.\<close>

fun tp_neutral :: "tsx_action \<Rightarrow> bool" where
  "tp_neutral (A_TpAddRef p) = False"
| "tp_neutral (A_TpDecRef p) = False"
| "tp_neutral (A_TpListen p) = False"
| "tp_neutral (A_TpUnlisten p) = False"
| "tp_neutral a = True"

lemma tp_counts_update [simp]:
  "tp_refs (t\<lparr>role := x0\<rparr>) = tp_refs t" "tp_listeners (t\<lparr>role := x0\<rparr>) = tp_listeners t"
  "tp_refs (t\<lparr>tsx_method := x1\<rparr>) = tp_refs t" "tp_listeners (t\<lparr>tsx_method := x1\<rparr>) = tp_listeners t"
  "tp_refs (t\<lparr>status_code := x2\<rparr>) = tp_refs t" "tp_listeners (t\<lparr>status_code := x2\<rparr>) = tp_listeners t"
  "tp_refs (t\<lparr>state := x3\<rparr>) = tp_refs t" "tp_listeners (t\<lparr>state := x3\<rparr>) = tp_listeners t"
  "tp_refs (t\<lparr>state_handler := x4\<rparr>) = tp_refs t" "tp_listeners (t\<lparr>state_handler := x4\<rparr>) = tp_listeners t"
  "tp_refs (t\<lparr>tsx_user := x5\<rparr>) = tp_refs t" "tp_listeners (t\<lparr>tsx_user := x5\<rparr>) = tp_listeners t"
  "tp_refs (t\<lparr>transport := x6\<rparr>) = tp_refs t" "tp_listeners (t\<lparr>transport := x6\<rparr>) = tp_listeners t"
  "tp_refs (t\<lparr>is_reliable := x7\<rparr>) = tp_refs t" "tp_listeners (t\<lparr>is_reliable := x7\<rparr>) = tp_listeners t"
  "tp_refs (t\<lparr>res_addr_transport := x8\<rparr>) = tp_refs t" "tp_listeners (t\<lparr>res_addr_transport := x8\<rparr>) = tp_listeners t"
  "tp_refs (t\<lparr>transport_flag := x9\<rparr>) = tp_refs t" "tp_listeners (t\<lparr>transport_flag := x9\<rparr>) = tp_listeners t"
  "tp_refs (t\<lparr>transport_err := x10\<rparr>) = tp_refs t" "tp_listeners (t\<lparr>transport_err := x10\<rparr>) = tp_listeners t"
  "tp_refs (t\<lparr>pending_tx := x11\<rparr>) = tp_refs t" "tp_listeners (t\<lparr>pending_tx := x11\<rparr>) = tp_listeners t"
  "tp_refs (t\<lparr>attached := x12\<rparr>) = tp_refs t" "tp_listeners (t\<lparr>attached := x12\<rparr>) = tp_listeners t"
  "tp_refs (t\<lparr>last_tx := x13\<rparr>) = tp_refs t" "tp_listeners (t\<lparr>last_tx := x13\<rparr>) = tp_listeners t"
  "tp_refs (t\<lparr>retransmit_count := x14\<rparr>) = tp_refs t" "tp_listeners (t\<lparr>retransmit_count := x14\<rparr>) = tp_listeners t"
  "tp_refs (t\<lparr>retransmit_timer := x15\<rparr>) = tp_refs t" "tp_listeners (t\<lparr>retransmit_timer := x15\<rparr>) = tp_listeners t"
  "tp_refs (t\<lparr>timeout_timer := x16\<rparr>) = tp_refs t" "tp_listeners (t\<lparr>timeout_timer := x16\<rparr>) = tp_listeners t"
  "tp_refs (t\<lparr>released := x17\<rparr>) = tp_refs t" "tp_listeners (t\<lparr>released := x17\<rparr>) = tp_listeners t"
  by (simp_all add: tp_refs_def tp_listeners_def fun_eq_iff)

lemma tp_counts_emit:
  "tp_refs (emit a t) p = tp_refs t p + (if a = A_TpAddRef p then 1 else 0) - (if a = A_TpDecRef p then 1 else 0)"
  "tp_listeners (emit a t) p =
     tp_listeners t p + (if a = A_TpListen p then 1 else 0) - (if a = A_TpUnlisten p then 1 else 0)"
  by (simp_all add: tp_refs_def tp_listeners_def emit_def)

lemma tp_counts_emit_neutral [simp]:
  "tp_neutral a \<Longrightarrow> tp_refs (emit a t) = tp_refs t"
  "tp_neutral a \<Longrightarrow> tp_listeners (emit a t) = tp_listeners t"
  by (cases a; simp add: fun_eq_iff tp_counts_emit)+

section \<open>What the steps leave alone\<close>

lemma emit_fields [simp]:
  "role (emit a t) = role t"
  "tsx_method (emit a t) = tsx_method t"
  "status_code (emit a t) = status_code t"
  "state (emit a t) = state t"
  "state_handler (emit a t) = state_handler t"
  "handle_200resp (emit a t) = handle_200resp t"
  "tsx_user (emit a t) = tsx_user t"
  "transport (emit a t) = transport t"
  "is_reliable (emit a t) = is_reliable t"
  "res_addr_transport (emit a t) = res_addr_transport t"
  "transport_flag (emit a t) = transport_flag t"
  "transport_err (emit a t) = transport_err t"
  "pending_tx (emit a t) = pending_tx t"
  "attached (emit a t) = attached t"
  "last_tx (emit a t) = last_tx t"
  "retransmit_count (emit a t) = retransmit_count t"
  "retransmit_timer (emit a t) = retransmit_timer t"
  "timeout_timer (emit a t) = timeout_timer t"
  "released (emit a t) = released t"
  by (simp_all add: emit_def)

lemma pj_assert_fields [simp]:
  "role (pj_assert b t) = role t"
  "tsx_method (pj_assert b t) = tsx_method t"
  "status_code (pj_assert b t) = status_code t"
  "state (pj_assert b t) = state t"
  "state_handler (pj_assert b t) = state_handler t"
  "handle_200resp (pj_assert b t) = handle_200resp t"
  "tsx_user (pj_assert b t) = tsx_user t"
  "transport (pj_assert b t) = transport t"
  "is_reliable (pj_assert b t) = is_reliable t"
  "res_addr_transport (pj_assert b t) = res_addr_transport t"
  "transport_flag (pj_assert b t) = transport_flag t"
  "transport_err (pj_assert b t) = transport_err t"
  "pending_tx (pj_assert b t) = pending_tx t"
  "attached (pj_assert b t) = attached t"
  "last_tx (pj_assert b t) = last_tx t"
  "retransmit_count (pj_assert b t) = retransmit_count t"
  "retransmit_timer (pj_assert b t) = retransmit_timer t"
  "timeout_timer (pj_assert b t) = timeout_timer t"
  "released (pj_assert b t) = released t"
  "tp_refs (pj_assert b t) = tp_refs t"
  "tp_listeners (pj_assert b t) = tp_listeners t"
  by (simp_all add: pj_assert_def)

lemma set_flag_fields [simp]:
  "role (set_flag f t) = role t"
  "tsx_method (set_flag f t) = tsx_method t"
  "status_code (set_flag f t) = status_code t"
  "state (set_flag f t) = state t"
  "state_handler (set_flag f t) = state_handler t"
  "handle_200resp (set_flag f t) = handle_200resp t"
  "tsx_user (set_flag f t) = tsx_user t"
  "transport (set_flag f t) = transport t"
  "is_reliable (set_flag f t) = is_reliable t"
  "res_addr_transport (set_flag f t) = res_addr_transport t"
  "transport_err (set_flag f t) = transport_err t"
  "pending_tx (set_flag f t) = pending_tx t"
  "attached (set_flag f t) = attached t"
  "last_tx (set_flag f t) = last_tx t"
  "retransmit_count (set_flag f t) = retransmit_count t"
  "retransmit_timer (set_flag f t) = retransmit_timer t"
  "timeout_timer (set_flag f t) = timeout_timer t"
  "released (set_flag f t) = released t"
  "tp_refs (set_flag f t) = tp_refs t"
  "tp_listeners (set_flag f t) = tp_listeners t"
  by (simp_all add: set_flag_def)

lemma set_flag_flags [simp]: "transport_flag (set_flag f t) = insert f (transport_flag t)"
  by (simp add: set_flag_def)

lemma clear_flags_fields [simp]:
  "role (clear_flags fs t) = role t"
  "tsx_method (clear_flags fs t) = tsx_method t"
  "status_code (clear_flags fs t) = status_code t"
  "state (clear_flags fs t) = state t"
  "state_handler (clear_flags fs t) = state_handler t"
  "handle_200resp (clear_flags fs t) = handle_200resp t"
  "tsx_user (clear_flags fs t) = tsx_user t"
  "transport (clear_flags fs t) = transport t"
  "is_reliable (clear_flags fs t) = is_reliable t"
  "res_addr_transport (clear_flags fs t) = res_addr_transport t"
  "transport_err (clear_flags fs t) = transport_err t"
  "pending_tx (clear_flags fs t) = pending_tx t"
  "attached (clear_flags fs t) = attached t"
  "last_tx (clear_flags fs t) = last_tx t"
  "retransmit_count (clear_flags fs t) = retransmit_count t"
  "retransmit_timer (clear_flags fs t) = retransmit_timer t"
  "timeout_timer (clear_flags fs t) = timeout_timer t"
  "released (clear_flags fs t) = released t"
  "tp_refs (clear_flags fs t) = tp_refs t"
  "tp_listeners (clear_flags fs t) = tp_listeners t"
  by (simp_all add: clear_flags_def)

lemma clear_flags_flags [simp]: "transport_flag (clear_flags fs t) = transport_flag t - fs"
  by (simp add: clear_flags_def)

lemma set_timer_id_fields [simp]:
  "role (set_timer_id w i t) = role t"
  "tsx_method (set_timer_id w i t) = tsx_method t"
  "status_code (set_timer_id w i t) = status_code t"
  "state (set_timer_id w i t) = state t"
  "state_handler (set_timer_id w i t) = state_handler t"
  "handle_200resp (set_timer_id w i t) = handle_200resp t"
  "tsx_user (set_timer_id w i t) = tsx_user t"
  "transport (set_timer_id w i t) = transport t"
  "is_reliable (set_timer_id w i t) = is_reliable t"
  "res_addr_transport (set_timer_id w i t) = res_addr_transport t"
  "transport_flag (set_timer_id w i t) = transport_flag t"
  "transport_err (set_timer_id w i t) = transport_err t"
  "pending_tx (set_timer_id w i t) = pending_tx t"
  "attached (set_timer_id w i t) = attached t"
  "last_tx (set_timer_id w i t) = last_tx t"
  "retransmit_count (set_timer_id w i t) = retransmit_count t"
  "released (set_timer_id w i t) = released t"
  "tp_refs (set_timer_id w i t) = tp_refs t"
  "tp_listeners (set_timer_id w i t) = tp_listeners t"
  by (cases w; simp add: set_timer_id_def)+

lemma schedule_timer_fields [simp]:
  "role (fst (pjsip_endpt_schedule_timer t w d)) = role t"
  "tsx_method (fst (pjsip_endpt_schedule_timer t w d)) = tsx_method t"
  "status_code (fst (pjsip_endpt_schedule_timer t w d)) = status_code t"
  "state (fst (pjsip_endpt_schedule_timer t w d)) = state t"
  "state_handler (fst (pjsip_endpt_schedule_timer t w d)) = state_handler t"
  "handle_200resp (fst (pjsip_endpt_schedule_timer t w d)) = handle_200resp t"
  "tsx_user (fst (pjsip_endpt_schedule_timer t w d)) = tsx_user t"
  "transport (fst (pjsip_endpt_schedule_timer t w d)) = transport t"
  "is_reliable (fst (pjsip_endpt_schedule_timer t w d)) = is_reliable t"
  "res_addr_transport (fst (pjsip_endpt_schedule_timer t w d)) = res_addr_transport t"
  "transport_flag (fst (pjsip_endpt_schedule_timer t w d)) = transport_flag t"
  "transport_err (fst (pjsip_endpt_schedule_timer t w d)) = transport_err t"
  "pending_tx (fst (pjsip_endpt_schedule_timer t w d)) = pending_tx t"
  "attached (fst (pjsip_endpt_schedule_timer t w d)) = attached t"
  "last_tx (fst (pjsip_endpt_schedule_timer t w d)) = last_tx t"
  "retransmit_count (fst (pjsip_endpt_schedule_timer t w d)) = retransmit_count t"
  "released (fst (pjsip_endpt_schedule_timer t w d)) = released t"
  "tp_refs (fst (pjsip_endpt_schedule_timer t w d)) = tp_refs t"
  "tp_listeners (fst (pjsip_endpt_schedule_timer t w d)) = tp_listeners t"
  by (cases w; simp add: pjsip_endpt_schedule_timer_def)+

lemma cancel_timer_fields [simp]:
  "role (fst (pjsip_endpt_cancel_timer t w)) = role t"
  "tsx_method (fst (pjsip_endpt_cancel_timer t w)) = tsx_method t"
  "status_code (fst (pjsip_endpt_cancel_timer t w)) = status_code t"
  "state (fst (pjsip_endpt_cancel_timer t w)) = state t"
  "state_handler (fst (pjsip_endpt_cancel_timer t w)) = state_handler t"
  "handle_200resp (fst (pjsip_endpt_cancel_timer t w)) = handle_200resp t"
  "tsx_user (fst (pjsip_endpt_cancel_timer t w)) = tsx_user t"
  "transport (fst (pjsip_endpt_cancel_timer t w)) = transport t"
  "is_reliable (fst (pjsip_endpt_cancel_timer t w)) = is_reliable t"
  "res_addr_transport (fst (pjsip_endpt_cancel_timer t w)) = res_addr_transport t"
  "transport_flag (fst (pjsip_endpt_cancel_timer t w)) = transport_flag t"
  "transport_err (fst (pjsip_endpt_cancel_timer t w)) = transport_err t"
  "pending_tx (fst (pjsip_endpt_cancel_timer t w)) = pending_tx t"
  "attached (fst (pjsip_endpt_cancel_timer t w)) = attached t"
  "last_tx (fst (pjsip_endpt_cancel_timer t w)) = last_tx t"
  "retransmit_count (fst (pjsip_endpt_cancel_timer t w)) = retransmit_count t"
  "released (fst (pjsip_endpt_cancel_timer t w)) = released t"
  "tp_refs (fst (pjsip_endpt_cancel_timer t w)) = tp_refs t"
  "tp_listeners (fst (pjsip_endpt_cancel_timer t w)) = tp_listeners t"
  by (cases w; simp add: pjsip_endpt_cancel_timer_def)+

lemma activate_timer_fields [simp]:
  "role (activate_timer w d t) = role t"
  "tsx_method (activate_timer w d t) = tsx_method t"
  "status_code (activate_timer w d t) = status_code t"
  "state (activate_timer w d t) = state t"
  "state_handler (activate_timer w d t) = state_handler t"
  "handle_200resp (activate_timer w d t) = handle_200resp t"
  "tsx_user (activate_timer w d t) = tsx_user t"
  "transport (activate_timer w d t) = transport t"
  "is_reliable (activate_timer w d t) = is_reliable t"
  "res_addr_transport (activate_timer w d t) = res_addr_transport t"
  "transport_flag (activate_timer w d t) = transport_flag t"
  "transport_err (activate_timer w d t) = transport_err t"
  "pending_tx (activate_timer w d t) = pending_tx t"
  "attached (activate_timer w d t) = attached t"
  "last_tx (activate_timer w d t) = last_tx t"
  "retransmit_count (activate_timer w d t) = retransmit_count t"
  "released (activate_timer w d t) = released t"
  "tp_refs (activate_timer w d t) = tp_refs t"
  "tp_listeners (activate_timer w d t) = tp_listeners t"
  by (simp_all add: activate_timer_def)

lemma cancel_active_timer_fields [simp]:
  "role (cancel_active_timer w t) = role t"
  "tsx_method (cancel_active_timer w t) = tsx_method t"
  "status_code (cancel_active_timer w t) = status_code t"
  "state (cancel_active_timer w t) = state t"
  "state_handler (cancel_active_timer w t) = state_handler t"
  "handle_200resp (cancel_active_timer w t) = handle_200resp t"
  "tsx_user (cancel_active_timer w t) = tsx_user t"
  "transport (cancel_active_timer w t) = transport t"
  "is_reliable (cancel_active_timer w t) = is_reliable t"
  "res_addr_transport (cancel_active_timer w t) = res_addr_transport t"
  "transport_flag (cancel_active_timer w t) = transport_flag t"
  "transport_err (cancel_active_timer w t) = transport_err t"
  "pending_tx (cancel_active_timer w t) = pending_tx t"
  "attached (cancel_active_timer w t) = attached t"
  "last_tx (cancel_active_timer w t) = last_tx t"
  "retransmit_count (cancel_active_timer w t) = retransmit_count t"
  "released (cancel_active_timer w t) = released t"
  "tp_refs (cancel_active_timer w t) = tp_refs t"
  "tp_listeners (cancel_active_timer w t) = tp_listeners t"
  by (simp_all add: cancel_active_timer_def)

lemma timers_other [simp]:
  "retransmit_timer (set_timer_id TIMEOUT_TIMER i t) = retransmit_timer t"
  "timeout_timer (set_timer_id RETRANSMIT_TIMER i t) = timeout_timer t"
  "retransmit_timer (fst (pjsip_endpt_cancel_timer t TIMEOUT_TIMER)) = retransmit_timer t"
  "timeout_timer (fst (pjsip_endpt_cancel_timer t RETRANSMIT_TIMER)) = timeout_timer t"
  "retransmit_timer (activate_timer TIMEOUT_TIMER d t) = retransmit_timer t"
  "timeout_timer (activate_timer RETRANSMIT_TIMER d t) = timeout_timer t"
  "retransmit_timer (cancel_active_timer TIMEOUT_TIMER t) = retransmit_timer t"
  "timeout_timer (cancel_active_timer RETRANSMIT_TIMER t) = timeout_timer t"
  by (simp_all add: set_timer_id_def activate_timer_def cancel_active_timer_def
      pjsip_endpt_schedule_timer_def pjsip_endpt_cancel_timer_def)

lemma timers_own [simp]:
  "timer_of w (set_timer_id w i t) = (timer_of w t)\<lparr>tt_id := i\<rparr>"
  "timer_of w (fst (pjsip_endpt_cancel_timer t w)) = (timer_of w t)\<lparr>tt_delay := None\<rparr>"
  "tt_id (timer_of w (activate_timer w d t)) = 1"
  "tt_delay (timer_of w (activate_timer w d t)) =
     (case tt_delay (timer_of w t) of None \<Rightarrow> Some d | Some e \<Rightarrow> Some e)"
  "tt_id (timer_of w (cancel_active_timer w t)) = 0"
  "tt_delay (timer_of w (cancel_active_timer w t)) =
     (if tt_id (timer_of w t) \<noteq> 0 then None else tt_delay (timer_of w t))"
  by (cases w; simp add: set_timer_id_def activate_timer_def cancel_active_timer_def
      pjsip_endpt_schedule_timer_def pjsip_endpt_cancel_timer_def split: option.split)+

lemmas timers_own_concrete [simp] =
  timers_own [of RETRANSMIT_TIMER, simplified timer_of.simps]
  timers_own [of TIMEOUT_TIMER, simplified timer_of.simps]

lemma set_status_code_fields [simp]:
  "role (tsx_set_status_code t c) = role t"
  "tsx_method (tsx_set_status_code t c) = tsx_method t"
  "state (tsx_set_status_code t c) = state t"
  "state_handler (tsx_set_status_code t c) = state_handler t"
  "handle_200resp (tsx_set_status_code t c) = handle_200resp t"
  "tsx_user (tsx_set_status_code t c) = tsx_user t"
  "transport (tsx_set_status_code t c) = transport t"
  "is_reliable (tsx_set_status_code t c) = is_reliable t"
  "res_addr_transport (tsx_set_status_code t c) = res_addr_transport t"
  "transport_flag (tsx_set_status_code t c) = transport_flag t"
  "transport_err (tsx_set_status_code t c) = transport_err t"
  "pending_tx (tsx_set_status_code t c) = pending_tx t"
  "attached (tsx_set_status_code t c) = attached t"
  "last_tx (tsx_set_status_code t c) = last_tx t"
  "retransmit_count (tsx_set_status_code t c) = retransmit_count t"
  "retransmit_timer (tsx_set_status_code t c) = retransmit_timer t"
  "timeout_timer (tsx_set_status_code t c) = timeout_timer t"
  "released (tsx_set_status_code t c) = released t"
  "tp_refs (tsx_set_status_code t c) = tp_refs t"
  "tp_listeners (tsx_set_status_code t c) = tp_listeners t"
  by (simp_all add: tsx_set_status_code_def)

lemma set_status_code_code [simp]: "status_code (tsx_set_status_code t c) = c"
  by (simp add: tsx_set_status_code_def)

lemma update_transport_fields [simp]:
  "role (tsx_update_transport t tp) = role t"
  "tsx_method (tsx_update_transport t tp) = tsx_method t"
  "status_code (tsx_update_transport t tp) = status_code t"
  "state (tsx_update_transport t tp) = state t"
  "state_handler (tsx_update_transport t tp) = state_handler t"
  "handle_200resp (tsx_update_transport t tp) = handle_200resp t"
  "tsx_user (tsx_update_transport t tp) = tsx_user t"
  "is_reliable (tsx_update_transport t tp) = is_reliable t"
  "res_addr_transport (tsx_update_transport t tp) = res_addr_transport t"
  "transport_flag (tsx_update_transport t tp) = transport_flag t"
  "transport_err (tsx_update_transport t tp) = transport_err t"
  "pending_tx (tsx_update_transport t tp) = pending_tx t"
  "attached (tsx_update_transport t tp) = attached t"
  "last_tx (tsx_update_transport t tp) = last_tx t"
  "retransmit_count (tsx_update_transport t tp) = retransmit_count t"
  "retransmit_timer (tsx_update_transport t tp) = retransmit_timer t"
  "timeout_timer (tsx_update_transport t tp) = timeout_timer t"
  "released (tsx_update_transport t tp) = released t"
  by (simp_all add: tsx_update_transport_def Let_def split: option.split)

lemma update_transport_transport [simp]: "transport (tsx_update_transport t tp) = tp"
  by (simp add: tsx_update_transport_def Let_def split: option.split)

lemma notify_user_fields [simp]:
  "role (notify_user ev s t) = role t"
  "tsx_method (notify_user ev s t) = tsx_method t"
  "status_code (notify_user ev s t) = status_code t"
  "state (notify_user ev s t) = state t"
  "state_handler (notify_user ev s t) = state_handler t"
  "handle_200resp (notify_user ev s t) = handle_200resp t"
  "tsx_user (notify_user ev s t) = tsx_user t"
  "transport (notify_user ev s t) = transport t"
  "is_reliable (notify_user ev s t) = is_reliable t"
  "res_addr_transport (notify_user ev s t) = res_addr_transport t"
  "transport_flag (notify_user ev s t) = transport_flag t"
  "transport_err (notify_user ev s t) = transport_err t"
  "pending_tx (notify_user ev s t) = pending_tx t"
  "attached (notify_user ev s t) = attached t"
  "last_tx (notify_user ev s t) = last_tx t"
  "retransmit_count (notify_user ev s t) = retransmit_count t"
  "retransmit_timer (notify_user ev s t) = retransmit_timer t"
  "timeout_timer (notify_user ev s t) = timeout_timer t"
  "released (notify_user ev s t) = released t"
  "tp_refs (notify_user ev s t) = tp_refs t"
  "tp_listeners (notify_user ev s t) = tp_listeners t"
  by (simp_all add: notify_user_def Let_def split: option.split pjsip_event.split sip_msg.split)

lemma save_last_tx_fields [simp]:
  "role (save_last_tx td t) = role t"
  "tsx_method (save_last_tx td t) = tsx_method t"
  "status_code (save_last_tx td t) = status_code t"
  "state (save_last_tx td t) = state t"
  "state_handler (save_last_tx td t) = state_handler t"
  "handle_200resp (save_last_tx td t) = handle_200resp t"
  "tsx_user (save_last_tx td t) = tsx_user t"
  "transport (save_last_tx td t) = transport t"
  "is_reliable (save_last_tx td t) = is_reliable t"
  "res_addr_transport (save_last_tx td t) = res_addr_transport t"
  "transport_flag (save_last_tx td t) = transport_flag t"
  "transport_err (save_last_tx td t) = transport_err t"
  "pending_tx (save_last_tx td t) = pending_tx t"
  "attached (save_last_tx td t) = attached t"
  "retransmit_count (save_last_tx td t) = retransmit_count t"
  "retransmit_timer (save_last_tx td t) = retransmit_timer t"
  "timeout_timer (save_last_tx td t) = timeout_timer t"
  "released (save_last_tx td t) = released t"
  "tp_refs (save_last_tx td t) = tp_refs t"
  "tp_listeners (save_last_tx td t) = tp_listeners t"
  by (simp_all add: save_last_tx_def)

lemma save_last_tx_last [simp]: "last_tx (save_last_tx td t) = Some td"
  by (simp add: save_last_tx_def)

lemma drop_other_last_tx_fields [simp]:
  "role (drop_other_last_tx td t) = role t"
  "tsx_method (drop_other_last_tx td t) = tsx_method t"
  "status_code (drop_other_last_tx td t) = status_code t"
  "state (drop_other_last_tx td t) = state t"
  "state_handler (drop_other_last_tx td t) = state_handler t"
  "handle_200resp (drop_other_last_tx td t) = handle_200resp t"
  "tsx_user (drop_other_last_tx td t) = tsx_user t"
  "transport (drop_other_last_tx td t) = transport t"
  "is_reliable (drop_other_last_tx td t) = is_reliable t"
  "res_addr_transport (drop_other_last_tx td t) = res_addr_transport t"
  "transport_flag (drop_other_last_tx td t) = transport_flag t"
  "transport_err (drop_other_last_tx td t) = transport_err t"
  "pending_tx (drop_other_last_tx td t) = pending_tx t"
  "attached (drop_other_last_tx td t) = attached t"
  "retransmit_count (drop_other_last_tx td t) = retransmit_count t"
  "retransmit_timer (drop_other_last_tx td t) = retransmit_timer t"
  "timeout_timer (drop_other_last_tx td t) = timeout_timer t"
  "released (drop_other_last_tx td t) = released t"
  "tp_refs (drop_other_last_tx td t) = tp_refs t"
  "tp_listeners (drop_other_last_tx td t) = tp_listeners t"
  by (simp_all add: drop_other_last_tx_def split: option.split)

lemma start_retransmit_fields [simp]:
  "role (start_retransmit d t) = role t"
  "tsx_method (start_retransmit d t) = tsx_method t"
  "status_code (start_retransmit d t) = status_code t"
  "state (start_retransmit d t) = state t"
  "state_handler (start_retransmit d t) = state_handler t"
  "handle_200resp (start_retransmit d t) = handle_200resp t"
  "tsx_user (start_retransmit d t) = tsx_user t"
  "transport (start_retransmit d t) = transport t"
  "is_reliable (start_retransmit d t) = is_reliable t"
  "res_addr_transport (start_retransmit d t) = res_addr_transport t"
  "transport_err (start_retransmit d t) = transport_err t"
  "pending_tx (start_retransmit d t) = pending_tx t"
  "attached (start_retransmit d t) = attached t"
  "last_tx (start_retransmit d t) = last_tx t"
  "timeout_timer (start_retransmit d t) = timeout_timer t"
  "released (start_retransmit d t) = released t"
  "tp_refs (start_retransmit d t) = tp_refs t"
  "tp_listeners (start_retransmit d t) = tp_listeners t"
  by (simp_all add: start_retransmit_def Let_def)

lemma resched_fields [simp]:
  "role (tsx_resched_retransmission env t) = role t"
  "tsx_method (tsx_resched_retransmission env t) = tsx_method t"
  "status_code (tsx_resched_retransmission env t) = status_code t"
  "state (tsx_resched_retransmission env t) = state t"
  "state_handler (tsx_resched_retransmission env t) = state_handler t"
  "handle_200resp (tsx_resched_retransmission env t) = handle_200resp t"
  "tsx_user (tsx_resched_retransmission env t) = tsx_user t"
  "transport (tsx_resched_retransmission env t) = transport t"
  "is_reliable (tsx_resched_retransmission env t) = is_reliable t"
  "res_addr_transport (tsx_resched_retransmission env t) = res_addr_transport t"
  "transport_flag (tsx_resched_retransmission env t) = transport_flag t"
  "transport_err (tsx_resched_retransmission env t) = transport_err t"
  "pending_tx (tsx_resched_retransmission env t) = pending_tx t"
  "attached (tsx_resched_retransmission env t) = attached t"
  "last_tx (tsx_resched_retransmission env t) = last_tx t"
  "retransmit_count (tsx_resched_retransmission env t) = retransmit_count t"
  "timeout_timer (tsx_resched_retransmission env t) = timeout_timer t"
  "released (tsx_resched_retransmission env t) = released t"
  "tp_refs (tsx_resched_retransmission env t) = tp_refs t"
  "tp_listeners (tsx_resched_retransmission env t) = tp_listeners t"
  by (simp_all add: tsx_resched_retransmission_def Let_def)


end
