(* ===== verification/Sip_tsx_inv.thy ===== *)
theory Sip_tsx_inv
  imports Sip_tsx
begin

text \<open>
  The invariant of a transaction and its preservation by the elementary steps, by changes of the
  state, by destruction, by sending a message and by the send callback.
\<close>

section \<open>The invariant of a transaction\<close>

text \<open>
  \<open>tsx_core\<close> holds whenever a transaction is alive: the handler is the one of its state, the
  state is one of its role, a timer known to the heap has an active id (so that destroying the
  transaction cancels it), the transaction is attached to exactly its pending transmit buffer
  and only while the transport is pending, and the references it holds on transports are those
  it will give back.
\<close>

definition tsx_handler_for :: "pjsip_role_e \<Rightarrow> pjsip_tsx_state_e \<Rightarrow> tsx_handler option" where
  "tsx_handler_for r s = (if r = PJSIP_ROLE_UAC then tsx_state_handler_uac s
     else tsx_state_handler_uas s)"

definition state_of_role :: "pjsip_transaction \<Rightarrow> pjsip_tsx_state_e \<Rightarrow> bool" where
  "state_of_role t s \<longleftrightarrow>
     (role t = PJSIP_ROLE_UAC \<longrightarrow> s \<noteq> PJSIP_TSX_STATE_TRYING \<and> s \<noteq> PJSIP_TSX_STATE_CONFIRMED) \<and>
     (role t = PJSIP_ROLE_UAS \<longrightarrow> s \<noteq> PJSIP_TSX_STATE_CALLING) \<and>
     (s = PJSIP_TSX_STATE_CONFIRMED \<longrightarrow> tsx_method t = PJSIP_INVITE_METHOD)"

definition timer_ok :: "tsx_timer \<Rightarrow> bool" where
  "timer_ok e \<longleftrightarrow> (tt_delay e \<noteq> None \<longrightarrow> tt_id e \<noteq> 0)"

definition pending_ok :: "pjsip_transaction \<Rightarrow> bool" where
  "pending_ok t \<longleftrightarrow> attached t = (case pending_tx t of None \<Rightarrow> {} | Some td \<Rightarrow> {td_ptr td}) \<and>
     (pending_tx t \<noteq> None \<longrightarrow> TSX_HAS_PENDING_TRANSPORT \<in> transport_flag t)"

definition refs_ok :: "pjsip_transaction \<Rightarrow> bool" where
  "refs_ok t \<longleftrightarrow> (\<forall>p. tp_refs t p = (if transport t = Some p then 1 else 0) \<and>
     tp_listeners t p = (if transport t = Some p then 1 else 0))"

definition send_flag_ok :: "pjsip_transaction \<Rightarrow> bool" where
  "send_flag_ok t \<longleftrightarrow> (state t \<noteq> PJSIP_TSX_STATE_TERMINATED \<longrightarrow>
     TSX_HAS_PENDING_SEND \<in> transport_flag t \<longrightarrow> TSX_HAS_PENDING_TRANSPORT \<in> transport_flag t)"

definition tsx_base :: "pjsip_transaction \<Rightarrow> bool" where
  "tsx_base t \<longleftrightarrow> state_handler t = tsx_handler_for (role t) (state t) \<and> state_of_role t (state t) \<and>
     timer_ok (retransmit_timer t) \<and> timer_ok (timeout_timer t) \<and> pending_ok t \<and> refs_ok t \<and>
     \<not> released t"

definition tsx_core :: "pjsip_transaction \<Rightarrow> bool" where
  "tsx_core t \<longleftrightarrow> tsx_base t \<and> state t \<noteq> PJSIP_TSX_STATE_DESTROYED \<and>
     TSX_HAS_PENDING_DESTROY \<notin> transport_flag t \<and> send_flag_ok t"

text \<open>
  A transaction in state Destroyed waits for its send callback, or has been freed; then nothing
  in the program refers to it: no timer, no transport listener, no transmit buffer.
\<close>

definition tsx_gone :: "pjsip_transaction \<Rightarrow> bool" where
  "tsx_gone t \<longleftrightarrow> released t \<and> tt_delay (retransmit_timer t) = None \<and>
     tt_delay (timeout_timer t) = None \<and> transport t = None \<and> last_tx t = None \<and>
     attached t = {} \<and> refs_ok t"

definition tsx_freed :: "pjsip_transaction \<Rightarrow> bool" where
  "tsx_freed t \<longleftrightarrow> released t \<and> state t = PJSIP_TSX_STATE_DESTROYED \<and>
     tt_delay (retransmit_timer t) = None \<and> tt_delay (timeout_timer t) = None \<and>
     transport t = None \<and> last_tx t = None \<and> attached t = {} \<and> refs_ok t"

definition tsx_dying :: "pjsip_transaction \<Rightarrow> bool" where
  "tsx_dying t \<longleftrightarrow> tsx_base t \<and> state t = PJSIP_TSX_STATE_DESTROYED \<and>
     TSX_HAS_PENDING_DESTROY \<in> transport_flag t \<and> TSX_HAS_PENDING_TRANSPORT \<in> transport_flag t"

definition tsx_ok :: "pjsip_transaction \<Rightarrow> bool" where
  "tsx_ok t \<longleftrightarrow> tsx_core t \<or> tsx_dying t \<or> tsx_freed t"

lemmas tsx_inv_defs = tsx_core_def tsx_base_def state_of_role_def pending_ok_def refs_ok_def
  send_flag_ok_def

lemma tsx_state_order [simp]:
  "s < PJSIP_TSX_STATE_TERMINATED \<longleftrightarrow> s \<noteq> PJSIP_TSX_STATE_TERMINATED \<and> s \<noteq> PJSIP_TSX_STATE_DESTROYED"
  "PJSIP_TSX_STATE_TERMINATED \<le> s \<longleftrightarrow> s = PJSIP_TSX_STATE_TERMINATED \<or> s = PJSIP_TSX_STATE_DESTROYED"
  "s \<le> PJSIP_TSX_STATE_DESTROYED" "PJSIP_TSX_STATE_NULL \<le> s"
  "s \<le> PJSIP_TSX_STATE_TERMINATED \<longleftrightarrow> s \<noteq> PJSIP_TSX_STATE_DESTROYED"
  "PJSIP_TSX_STATE_DESTROYED \<le> s \<longleftrightarrow> s = PJSIP_TSX_STATE_DESTROYED"
  by (cases s; simp add: less_pjsip_tsx_state_e_def less_eq_pjsip_tsx_state_e_def)+

lemma timer_ok_simps [simp]:
  "timer_ok (retransmit_timer (activate_timer RETRANSMIT_TIMER d t))"
  "timer_ok (timeout_timer (activate_timer TIMEOUT_TIMER d t))"
  "timer_ok e \<Longrightarrow> timer_ok (e\<lparr>tt_delay := None\<rparr>)"
  by (simp_all add: timer_ok_def)

lemma timer_ok_cancel [simp]:
  "timer_ok (retransmit_timer t) \<Longrightarrow> timer_ok (retransmit_timer (cancel_active_timer RETRANSMIT_TIMER t))"
  "timer_ok (timeout_timer t) \<Longrightarrow> timer_ok (timeout_timer (cancel_active_timer TIMEOUT_TIMER t))"
  by (auto simp: timer_ok_def)

lemma cancel_active_none [simp]:
  "timer_ok (retransmit_timer t) \<Longrightarrow> tt_delay (retransmit_timer (cancel_active_timer RETRANSMIT_TIMER t)) = None"
  "timer_ok (timeout_timer t) \<Longrightarrow> tt_delay (timeout_timer (cancel_active_timer TIMEOUT_TIMER t)) = None"
  by (auto simp: timer_ok_def)

lemma timers_ok_any [simp]:
  "timer_ok (retransmit_timer t) \<Longrightarrow> timer_ok (retransmit_timer (activate_timer w d t))"
  "timer_ok (timeout_timer t) \<Longrightarrow> timer_ok (timeout_timer (activate_timer w d t))"
  "timer_ok (retransmit_timer t) \<Longrightarrow> timer_ok (retransmit_timer (cancel_active_timer w t))"
  "timer_ok (timeout_timer t) \<Longrightarrow> timer_ok (timeout_timer (cancel_active_timer w t))"
  "timer_ok (retransmit_timer t) \<Longrightarrow> timer_ok (retransmit_timer (fst (pjsip_endpt_cancel_timer t w)))"
  "timer_ok (timeout_timer t) \<Longrightarrow> timer_ok (timeout_timer (fst (pjsip_endpt_cancel_timer t w)))"
  by (cases w; simp)+

lemma timers_ok_resched [simp]:
  "timer_ok (retransmit_timer t) \<Longrightarrow> timer_ok (retransmit_timer (tsx_resched_retransmission env t))"
  by (simp add: tsx_resched_retransmission_def Let_def)

lemma timers_ok_start [simp]:
  "timer_ok (retransmit_timer t) \<Longrightarrow> timer_ok (retransmit_timer (start_retransmit d t))"
  by (simp add: start_retransmit_def Let_def)

subsection \<open>Elementary steps keep it\<close>

lemma base_step:
  assumes "tsx_base t"
  shows "tp_neutral a \<Longrightarrow> tsx_base (emit a t)" "tsx_base (pj_assert b t)" "tsx_base (set_flag f t)"
    "tsx_base (activate_timer w d t)" "tsx_base (cancel_active_timer w t)"
    "tsx_base (fst (pjsip_endpt_cancel_timer t w))" "tsx_base (tsx_set_status_code t c)"
    "tsx_base (save_last_tx td t)" "tsx_base (drop_other_last_tx td t)"
    "tsx_base (t\<lparr>last_tx := x\<rparr>)" "tsx_base (t\<lparr>retransmit_count := n\<rparr>)"
    "tsx_base (t\<lparr>transport_err := i\<rparr>)" "tsx_base (t\<lparr>is_reliable := b\<rparr>)"
    "tsx_base (t\<lparr>res_addr_transport := y\<rparr>)" "tsx_base (t\<lparr>tsx_user := u\<rparr>)"
    "TSX_HAS_PENDING_TRANSPORT \<notin> fs \<Longrightarrow> tsx_base (clear_flags fs t)"
    "tsx_base (tsx_resched_retransmission env t)"
  using assms by (simp_all add: tsx_base_def state_of_role_def pending_ok_def refs_ok_def)

lemma core_step:
  assumes "tsx_core t"
  shows "tp_neutral a \<Longrightarrow> tsx_core (emit a t)" "tsx_core (pj_assert b t)"
    "f \<noteq> TSX_HAS_PENDING_DESTROY \<Longrightarrow> f \<noteq> TSX_HAS_PENDING_SEND \<Longrightarrow> tsx_core (set_flag f t)"
    "TSX_HAS_PENDING_TRANSPORT \<in> transport_flag t \<Longrightarrow> tsx_core (set_flag TSX_HAS_PENDING_SEND t)"
    "tsx_core (activate_timer w d t)" "tsx_core (cancel_active_timer w t)"
    "tsx_core (fst (pjsip_endpt_cancel_timer t w))" "tsx_core (tsx_set_status_code t c)"
    "tsx_core (save_last_tx td t)" "tsx_core (drop_other_last_tx td t)"
    "tsx_core (t\<lparr>last_tx := x\<rparr>)" "tsx_core (t\<lparr>retransmit_count := n\<rparr>)"
    "tsx_core (t\<lparr>transport_err := i\<rparr>)" "tsx_core (t\<lparr>is_reliable := b\<rparr>)"
    "tsx_core (t\<lparr>res_addr_transport := y\<rparr>)" "tsx_core (t\<lparr>tsx_user := u\<rparr>)"
    "TSX_HAS_PENDING_TRANSPORT \<notin> fs \<Longrightarrow> tsx_core (clear_flags fs t)"
    "tsx_core (tsx_resched_retransmission env t)"
  using assms by (auto simp: tsx_core_def send_flag_ok_def base_step)

lemma core_start_retransmit: "tsx_core t \<Longrightarrow> tsx_core (start_retransmit d t)"
  by (simp add: start_retransmit_def Let_def core_step)

lemma refs_update_transport: "refs_ok t \<Longrightarrow> refs_ok (tsx_update_transport t tp)"
  by (auto simp: refs_ok_def tsx_update_transport_def Let_def tp_counts_emit split: option.splits)

lemma base_update_transport: "tsx_base t \<Longrightarrow> tsx_base (tsx_update_transport t tp)"
  using refs_update_transport [of t tp] by (simp add: tsx_base_def state_of_role_def pending_ok_def)

lemma core_update_transport: "tsx_core t \<Longrightarrow> tsx_core (tsx_update_transport t tp)"
  by (simp add: tsx_core_def base_update_transport send_flag_ok_def)

subsection \<open>Changing the state\<close>

text \<open>Into a state in which the transaction lives on.\<close>

lemma set_state_live:
  assumes "s \<noteq> PJSIP_TSX_STATE_TERMINATED" "s \<noteq> PJSIP_TSX_STATE_DESTROYED"
  shows "state (tsx_set_state t s ev) = s"
    "state_handler (tsx_set_state t s ev) = tsx_handler_for (role t) s"
    "role (tsx_set_state t s ev) = role t" "tsx_method (tsx_set_state t s ev) = tsx_method t"
    "status_code (tsx_set_state t s ev) = status_code t"
    "transport (tsx_set_state t s ev) = transport t" "is_reliable (tsx_set_state t s ev) = is_reliable t"
    "transport_flag (tsx_set_state t s ev) = transport_flag t"
    "transport_err (tsx_set_state t s ev) = transport_err t"
    "pending_tx (tsx_set_state t s ev) = pending_tx t" "attached (tsx_set_state t s ev) = attached t"
    "last_tx (tsx_set_state t s ev) = last_tx t" "released (tsx_set_state t s ev) = released t"
    "retransmit_count (tsx_set_state t s ev) = retransmit_count t"
    "retransmit_timer (tsx_set_state t s ev) = retransmit_timer t"
    "timeout_timer (tsx_set_state t s ev) = timeout_timer t"
    "tp_refs (tsx_set_state t s ev) = tp_refs t" "tp_listeners (tsx_set_state t s ev) = tp_listeners t"
  using assms by (simp_all add: tsx_set_state_def Let_def tsx_handler_for_def)

lemma core_set_state_live:
  assumes "tsx_core t" "s \<noteq> PJSIP_TSX_STATE_TERMINATED" "s \<noteq> PJSIP_TSX_STATE_DESTROYED"
    "state_of_role t s" "state t \<noteq> PJSIP_TSX_STATE_TERMINATED"
  shows "tsx_core (tsx_set_state t s ev)"
  using assms by (simp add: tsx_inv_defs set_state_live)

text \<open>Into Terminated.\<close>

lemma set_state_terminated:
  shows "state (tsx_set_state t PJSIP_TSX_STATE_TERMINATED ev) = PJSIP_TSX_STATE_TERMINATED"
    "state_handler (tsx_set_state t PJSIP_TSX_STATE_TERMINATED ev) = Some on_state_terminated"
    "role (tsx_set_state t PJSIP_TSX_STATE_TERMINATED ev) = role t"
    "tsx_method (tsx_set_state t PJSIP_TSX_STATE_TERMINATED ev) = tsx_method t"
    "status_code (tsx_set_state t PJSIP_TSX_STATE_TERMINATED ev) = status_code t"
    "transport (tsx_set_state t PJSIP_TSX_STATE_TERMINATED ev) = transport t"
    "transport_flag (tsx_set_state t PJSIP_TSX_STATE_TERMINATED ev) =
       transport_flag t - {TSX_HAS_PENDING_TRANSPORT}"
    "transport_err (tsx_set_state t PJSIP_TSX_STATE_TERMINATED ev) = transport_err t"
    "last_tx (tsx_set_state t PJSIP_TSX_STATE_TERMINATED ev) = last_tx t"
    "released (tsx_set_state t PJSIP_TSX_STATE_TERMINATED ev) = released t"
    "retransmit_timer (tsx_set_state t PJSIP_TSX_STATE_TERMINATED ev) = retransmit_timer t"
    "tt_id (timeout_timer (tsx_set_state t PJSIP_TSX_STATE_TERMINATED ev)) = 1"
    "tt_delay (timeout_timer (tsx_set_state t PJSIP_TSX_STATE_TERMINATED ev)) \<noteq> None"
    "timer_ok (timeout_timer t) \<Longrightarrow>
       tt_delay (timeout_timer (tsx_set_state t PJSIP_TSX_STATE_TERMINATED ev)) = Some zero_time"
    "tp_refs (tsx_set_state t PJSIP_TSX_STATE_TERMINATED ev) = tp_refs t"
    "tp_listeners (tsx_set_state t PJSIP_TSX_STATE_TERMINATED ev) = tp_listeners t"
    "pending_ok t \<Longrightarrow> pending_tx (tsx_set_state t PJSIP_TSX_STATE_TERMINATED ev) = None"
    "pending_ok t \<Longrightarrow> attached (tsx_set_state t PJSIP_TSX_STATE_TERMINATED ev) = {}"
  by (auto simp: tsx_set_state_def Let_def tsx_state_handler_uac_def tsx_state_handler_uas_def
      pending_ok_def timer_ok_def split: option.split)

lemma set_state_terminated_pending:
  "pending_ok t \<Longrightarrow> pending_ok (tsx_set_state t PJSIP_TSX_STATE_TERMINATED ev)"
  by (simp add: pending_ok_def set_state_terminated(17,18))

lemma core_set_state_terminated:
  assumes "tsx_core t"
  shows "tsx_core (tsx_set_state t PJSIP_TSX_STATE_TERMINATED ev)"
  using assms set_state_terminated_pending [of t ev]
  by (simp add: tsx_core_def tsx_base_def state_of_role_def refs_ok_def send_flag_ok_def
      set_state_terminated tsx_handler_for_def tsx_state_handler_uac_def tsx_state_handler_uas_def
      timer_ok_def)

text \<open>Destroying.\<close>

lemma tsx_destroy_base:
  assumes "tsx_base t"
  shows "state (fst (tsx_destroy t)) = state t"
    "TSX_HAS_PENDING_TRANSPORT \<in> transport_flag t \<Longrightarrow> tsx_base (fst (tsx_destroy t)) \<and>
      {TSX_HAS_PENDING_DESTROY, TSX_HAS_PENDING_TRANSPORT} \<subseteq> transport_flag (fst (tsx_destroy t))"
    "TSX_HAS_PENDING_TRANSPORT \<notin> transport_flag t \<Longrightarrow> tsx_gone (fst (tsx_destroy t))"
proof -
  define t1 where "t1 = tsx_update_transport t None"
  define t2 where "t2 = (case last_tx t1 of None \<Rightarrow> t1
               | Some td \<Rightarrow> (emit (A_TdDecRef (td_ptr td)) t1)\<lparr>last_tx := None\<rparr>)"
  define t3 where "t3 = cancel_active_timer RETRANSMIT_TIMER (cancel_active_timer TIMEOUT_TIMER t2)"
  define t4 where "t4 = clear_flags {TSX_HAS_PENDING_RESCHED, TSX_HAS_PENDING_SEND} t3"
  have eq: "fst (tsx_destroy t) = (if TSX_HAS_PENDING_TRANSPORT \<in> transport_flag t4
         then (set_flag TSX_HAS_PENDING_DESTROY t4)\<lparr>tsx_user := None\<rparr>
         else (emit A_Release t4)\<lparr>released := True\<rparr>)"
    unfolding tsx_destroy_def Let_def t1_def [symmetric] t2_def [symmetric] t3_def [symmetric]
      t4_def [symmetric] by (simp only: if_distrib [of fst] fst_conv)
  have b: "tsx_base t4"
    unfolding t4_def t3_def t2_def t1_def
    by (auto intro!: base_step base_update_transport assms split: option.split)
  have s: "state t4 = state t" "transport t4 = None" "last_tx t4 = None"
    by (auto simp: t4_def t3_def t2_def t1_def split: option.split)
  have f: "(TSX_HAS_PENDING_TRANSPORT \<in> transport_flag t4) = (TSX_HAS_PENDING_TRANSPORT \<in> transport_flag t)"
    by (auto simp: t4_def t3_def t2_def t1_def split: option.split)
  have "tsx_base t2" unfolding t2_def t1_def
    by (auto intro!: base_step base_update_transport assms split: option.split)
  then have tm: "tt_delay (retransmit_timer t4) = None" "tt_delay (timeout_timer t4) = None"
    by (auto simp: t4_def t3_def tsx_base_def timer_ok_def)
  show "state (fst (tsx_destroy t)) = state t" using s eq by simp
  show "TSX_HAS_PENDING_TRANSPORT \<in> transport_flag t \<Longrightarrow> tsx_base (fst (tsx_destroy t)) \<and>
      {TSX_HAS_PENDING_DESTROY, TSX_HAS_PENDING_TRANSPORT} \<subseteq> transport_flag (fst (tsx_destroy t))"
    using b f eq by (simp add: base_step)
  assume "TSX_HAS_PENDING_TRANSPORT \<notin> transport_flag t"
  with f b have "attached t4 = {}" "refs_ok t4" "TSX_HAS_PENDING_TRANSPORT \<notin> transport_flag t4"
    by (auto simp: tsx_base_def pending_ok_def split: option.splits)
  with s tm f eq show "tsx_gone (fst (tsx_destroy t))"
    by (simp add: tsx_gone_def refs_ok_def)
qed

lemma tsx_destroy_ok:
  assumes "tsx_base t" "state t = PJSIP_TSX_STATE_DESTROYED"
  shows "if TSX_HAS_PENDING_TRANSPORT \<in> transport_flag t then tsx_dying (fst (tsx_destroy t))
         else tsx_freed (fst (tsx_destroy t))"
  using tsx_destroy_base [OF assms(1)] assms(2) by (simp add: tsx_dying_def tsx_freed_def tsx_gone_def)

lemma set_state_destroyed:
  assumes "tsx_base t"
  shows "if TSX_HAS_PENDING_TRANSPORT \<in> transport_flag t
         then tsx_dying (tsx_set_state t PJSIP_TSX_STATE_DESTROYED ev)
         else tsx_freed (tsx_set_state t PJSIP_TSX_STATE_DESTROYED ev)"
proof -
  define u where "u = emit A_Unregister (notify_user ev (state t)
     ((pj_assert (PJSIP_TSX_STATE_DESTROYED \<ge> state t) t)\<lparr>state := PJSIP_TSX_STATE_DESTROYED,
        state_handler := tsx_handler_for (role t) PJSIP_TSX_STATE_DESTROYED\<rparr>))"
  have eq: "tsx_set_state t PJSIP_TSX_STATE_DESTROYED ev = fst (tsx_destroy u)"
    by (simp add: tsx_set_state_def Let_def u_def tsx_handler_for_def pj_assert_def)
  have "tsx_base u" using assms
    by (simp add: u_def tsx_base_def state_of_role_def pending_ok_def refs_ok_def)
  moreover have "state u = PJSIP_TSX_STATE_DESTROYED" by (simp add: u_def)
  moreover have "transport_flag u = transport_flag t" by (simp add: u_def)
  ultimately show ?thesis using tsx_destroy_ok [of u] eq by simp
qed

subsection \<open>Sending keeps it\<close>

text \<open>A send is nested at most once: the nested one goes to a resolved server.\<close>

lemma send_resolve_resolved:
  "TSX_HAS_RESOLVED_SERVER \<in> transport_flag t \<Longrightarrow>
   tsx_send_resolve_with s1 env t td st = tsx_send_resolve_with s2 env t td st"
  by (simp add: tsx_send_resolve_with_def Let_def)

lemma send_resolved:
  "TSX_HAS_RESOLVED_SERVER \<in> transport_flag t \<Longrightarrow>
   tsx_send_msg_with s1 env t tdo = tsx_send_msg_with s2 env t tdo"
  unfolding tsx_send_msg_with_def Let_def
  by (intro option.case_cong if_cong refl send_resolve_resolved) simp_all

lemma callback_nested_cong:
  assumes "\<And>t x. TSX_HAS_RESOLVED_SERVER \<in> transport_flag t \<Longrightarrow> s1 t x = s2 t x"
  shows "send_msg_callback_with s1 env td r t = send_msg_callback_with s2 env td r t"
  unfolding send_msg_callback_with_def Let_def
  by (intro if_cong refl arg_cong [where f = fst] arg_cong2 [where f = Pair]
      arg_cong [where f = "clear_flags {TSX_HAS_PENDING_RESCHED}"] assms) (simp_all add: assms)

lemma send_nested_cong:
  assumes "\<And>t x. TSX_HAS_RESOLVED_SERVER \<in> transport_flag t \<Longrightarrow> s1 t x = s2 t x"
  shows "tsx_send_msg_with s1 env = tsx_send_msg_with s2 env"
proof -
  have c: "send_msg_callback_with s1 env = send_msg_callback_with s2 env"
    by (intro ext callback_nested_cong assms)
  have r: "tsx_send_resolve_with s1 env = tsx_send_resolve_with s2 env"
    unfolding tsx_send_resolve_with_def c by (rule refl)
  show ?thesis unfolding tsx_send_msg_with_def r by (rule refl)
qed

lemma tsx_send_msg_unfold: "tsx_send_msg env = tsx_send_msg_with (tsx_send_msg env) env"
proof -
  have "tsx_send_msg env t x = tsx_send_msg_with (\<lambda>t tdo. (emit A_Recursion t, PJ_EBUG)) env t x"
    if "TSX_HAS_RESOLVED_SERVER \<in> transport_flag t" for t x
    unfolding tsx_send_msg_def by (rule send_resolved [OF that])
  from send_nested_cong [of "tsx_send_msg env", OF this] show ?thesis
    by (simp add: tsx_send_msg_def)
qed

text \<open>What a send, or a send callback, may do to a live transaction.\<close>

definition sends :: "pjsip_transaction \<Rightarrow> pjsip_transaction \<Rightarrow> bool" where
  "sends t t' \<longleftrightarrow> tsx_core t' \<and> role t' = role t \<and> tsx_method t' = tsx_method t \<and>
     (state t' = state t \<or> state t' = PJSIP_TSX_STATE_TERMINATED) \<and>
     (pending_tx t' = None \<or>
        map_option td_ptr (pending_tx t') = map_option td_ptr (pending_tx t)) \<and>
     (tt_delay (timeout_timer t) \<noteq> None \<or>
        (state t' = PJSIP_TSX_STATE_TERMINATED \<and> state t \<noteq> PJSIP_TSX_STATE_TERMINATED) \<longrightarrow>
      tt_delay (timeout_timer t') \<noteq> None)"

lemma sends_refl [simp]: "tsx_core t \<Longrightarrow> sends t t"
  by (simp add: sends_def)

lemma sends_trans [trans]: "sends t t' \<Longrightarrow> sends t' t'' \<Longrightarrow> sends t t''"
  unfolding sends_def by (elim conjE; intro conjI; (elim disjE)?; simp)

lemma sends_emit: "tsx_core t \<Longrightarrow> tp_neutral a \<Longrightarrow> sends t (emit a t)"
  by (simp add: sends_def core_step)

lemma sends_terminated:
  "tsx_core t \<Longrightarrow> sends t (tsx_set_state (tsx_set_status_code t c) PJSIP_TSX_STATE_TERMINATED ev)"
  "tsx_core t \<Longrightarrow> sends t (tsx_set_state t PJSIP_TSX_STATE_TERMINATED ev)"
proof -
  have p: "tsx_core u \<Longrightarrow> pending_ok u" for u by (simp add: tsx_core_def tsx_base_def)
  show "sends t (tsx_set_state t PJSIP_TSX_STATE_TERMINATED ev)" if "tsx_core t"
    using that p [OF that] by (simp add: sends_def core_set_state_terminated set_state_terminated)
  show "sends t (tsx_set_state (tsx_set_status_code t c) PJSIP_TSX_STATE_TERMINATED ev)" if "tsx_core t"
  proof -
    have c: "tsx_core (tsx_set_status_code t c)" using that by (simp add: core_step)
    then show ?thesis
      using p [OF c] by (simp add: sends_def core_set_state_terminated set_state_terminated)
  qed
qed

text \<open>A send to a resolved server.\<close>

lemma send_resolved_sends:
  assumes "tsx_core t" "TSX_HAS_RESOLVED_SERVER \<in> transport_flag t"
  shows "sends t (fst (tsx_send_msg_with s env t tdo))"
proof -
  have res: "sends t (fst (tsx_send_resolve_with s env u td st))"
    if "sends t u" "TSX_HAS_RESOLVED_SERVER \<in> transport_flag u" for u td st
  proof -
    have "tsx_core u" using that(1) by (simp add: sends_def)
    then have "sends u (fst (tsx_send_resolve_with s env u td st))"
      using that(2) by (simp add: tsx_send_resolve_with_def Let_def)
        (intro sends_trans [OF _ sends_terminated(1)] core_step; simp add: sends_def core_step)
    with that(1) show ?thesis by (rule sends_trans)
  qed
  have up: "sends t ((tsx_update_transport (emit a t) None)\<lparr>res_addr_transport := None\<rparr>)"
    if "tp_neutral a" for a
    using that assms(1) by (simp add: sends_def core_step core_update_transport)
  show ?thesis
    using assms res [OF sends_refl] res [OF up] sends_emit [OF assms(1)]
    by (auto simp: tsx_send_msg_with_def Let_def core_step sends_def split: option.split)
qed

lemma base_set_state_terminated:
  assumes "tsx_base t" "TSX_HAS_PENDING_DESTROY \<notin> transport_flag t"
  shows "tsx_core (tsx_set_state t PJSIP_TSX_STATE_TERMINATED ev)"
  using assms set_state_terminated_pending [of t ev]
  by (simp add: tsx_core_def tsx_base_def state_of_role_def refs_ok_def send_flag_ok_def
      set_state_terminated tsx_handler_for_def tsx_state_handler_uac_def tsx_state_handler_uas_def
      timer_ok_def)

text \<open>The two halves of the send callback, after the buffer has been detached.\<close>

definition callback_sent_with ::
  "(pjsip_transaction \<Rightarrow> tdata option \<Rightarrow> pjsip_transaction \<times> pj_status_t) \<Rightarrow> tsx_env \<Rightarrow>
   send_result \<Rightarrow> pjsip_transaction \<Rightarrow> pjsip_transaction" where
  "callback_sent_with send env r t =
     (let t = pj_assert (sr_transport r \<noteq> None) t;
          t = (if transport t \<noteq> sr_transport r then
                 let t = tsx_update_transport t (sr_transport r)
                 in t\<lparr>is_reliable := (case transport t of None \<Rightarrow> False
                                      | Some tp \<Rightarrow> tp_reliable env tp)\<rparr>
               else t);
          t = clear_flags {TSX_HAS_PENDING_TRANSPORT} t;
          t = set_flag TSX_HAS_RESOLVED_SERVER t
      in if TSX_HAS_PENDING_DESTROY \<in> transport_flag t
         then tsx_set_state t PJSIP_TSX_STATE_DESTROYED EV_UNKNOWN
         else
           let t = (if TSX_HAS_PENDING_SEND \<in> transport_flag t then
                      let t = clear_flags {TSX_HAS_PENDING_SEND} t in fst (send t (last_tx t))
                    else t)
           in (if TSX_HAS_PENDING_RESCHED \<in> transport_flag t then
                 let t = clear_flags {TSX_HAS_PENDING_RESCHED} t
                 in if \<not> is_reliable t then tsx_resched_retransmission env t else t
               else t))"

definition callback_failed ::
  "tsx_env \<Rightarrow> tdata \<Rightarrow> send_result \<Rightarrow> pjsip_transaction \<Rightarrow> pjsip_transaction" where
  "callback_failed env td r t =
     (let t = pj_assert (sr_sent r \<noteq> 0) t;
          t = (if sr_transport r = transport t then tsx_update_transport t None else t)
      in if \<not> sr_cont r \<or> TSX_HAS_PENDING_DESTROY \<in> transport_flag t then
           let t = t\<lparr>transport_err := - sr_sent r\<rparr>;
               t = clear_flags {TSX_HAS_PENDING_TRANSPORT} t;
               t = set_flag TSX_HAS_RESOLVED_SERVER t;
               sc = (if - sr_sent r = PJ_ERESOLVE \<or> - sr_sent r = PJLIB_UTIL_EDNS_NXDOMAIN
                     then PJSIP_SC_BAD_GATEWAY else PJSIP_SC_TSX_TRANSPORT_ERROR);
               t = tsx_set_status_code t sc
           in if state t \<noteq> PJSIP_TSX_STATE_TERMINATED \<and> state t \<noteq> PJSIP_TSX_STATE_DESTROYED
              then tsx_set_state t PJSIP_TSX_STATE_TERMINATED EV_TRANSPORT_ERROR
              else if TSX_HAS_PENDING_DESTROY \<in> transport_flag t
              then tsx_set_state t PJSIP_TSX_STATE_DESTROYED EV_TRANSPORT_ERROR
              else t
         else
           let t = t\<lparr>retransmit_count := 0\<rparr>;
               t = (if tt_id (timeout_timer t) \<noteq> 0 then
                      let t = fst (pjsip_endpt_cancel_timer t TIMEOUT_TIMER);
                          t = set_timer_id TIMEOUT_TIMER TIMER_INACTIVE t
                      in activate_timer TIMEOUT_TIMER (timeout_timer_val env) t
                    else t)
           in t\<lparr>attached := insert (td_ptr td) (attached t), pending_tx := Some td\<rparr>)"

lemma callback_halves:
  "fst (send_msg_callback_with send env td r t) =
     (if td_ptr td \<notin> attached t then t
      else let t = t\<lparr>attached := attached t - {td_ptr td}, pending_tx := None\<rparr>
           in if sr_sent r > 0 then callback_sent_with send env r t else callback_failed env td r t)"
  unfolding send_msg_callback_with_def callback_sent_with_def callback_failed_def Let_def
  by (simp only: if_distrib [of fst] fst_conv)

lemma first_delay_some [simp]:
  "\<exists>y. (case x of None \<Rightarrow> Some d | Some z \<Rightarrow> Some z) = Some y"
  by (cases x) auto

lemma activate_some: "tt_delay (timer_of w (activate_timer w d t)) \<noteq> None"
  by (simp split: option.split)

lemmas activate_timeout_some [simp] = activate_some [of TIMEOUT_TIMER, simplified timer_of.simps]

lemma callback_sent_sends:
  assumes core: "tsx_core t" and p: "pending_tx t = None"
    and nested: "\<And>u x. tsx_core u \<Longrightarrow> TSX_HAS_RESOLVED_SERVER \<in> transport_flag u \<Longrightarrow>
                   sends u (fst (send u x))"
  shows "sends t (callback_sent_with send env r t)"
    "TSX_HAS_PENDING_SEND \<notin> transport_flag t \<Longrightarrow>
     state (callback_sent_with send env r t) = state t \<and>
     transport_flag (callback_sent_with send env r t) \<subseteq> insert TSX_HAS_RESOLVED_SERVER (transport_flag t)"
proof -
  define t1 where "t1 = pj_assert (sr_transport r \<noteq> None) t"
  define t2 where "t2 = (if transport t1 \<noteq> sr_transport r then
      (tsx_update_transport t1 (sr_transport r))
        \<lparr>is_reliable := (case transport (tsx_update_transport t1 (sr_transport r)) of None \<Rightarrow> False
            | Some tp \<Rightarrow> tp_reliable env tp)\<rparr> else t1)"
  define t3 where "t3 = set_flag TSX_HAS_RESOLVED_SERVER (clear_flags {TSX_HAS_PENDING_TRANSPORT} t2)"
  define t4 where "t4 = (if TSX_HAS_PENDING_SEND \<in> transport_flag t3
      then clear_flags {TSX_HAS_PENDING_SEND} t3 else t3)"
  define t5 where "t5 = (if TSX_HAS_PENDING_SEND \<in> transport_flag t3 then fst (send t4 (last_tx t4)) else t4)"
  define t6 where "t6 = (if TSX_HAS_PENDING_RESCHED \<in> transport_flag t5 then
      if \<not> is_reliable (clear_flags {TSX_HAS_PENDING_RESCHED} t5)
      then tsx_resched_retransmission env (clear_flags {TSX_HAS_PENDING_RESCHED} t5)
      else clear_flags {TSX_HAS_PENDING_RESCHED} t5 else t5)"
  have c2: "tsx_core t2"
    unfolding t2_def t1_def by (simp add: core core_step core_update_transport)
  have pd: "TSX_HAS_PENDING_DESTROY \<notin> transport_flag t3"
    using core by (simp add: t3_def t2_def t1_def tsx_core_def)
  have eq: "callback_sent_with send env r t = t6"
    unfolding callback_sent_with_def Let_def t1_def [symmetric] t2_def [symmetric] t3_def [symmetric]
    using pd by (simp add: t6_def t5_def t4_def)
  have p2: "pending_tx t2 = None" using p by (simp add: t2_def t1_def)
  have c4: "tsx_core t4"
    using c2 p2 by (auto simp: t4_def t3_def tsx_inv_defs)
  have s4: "sends t t4"
    using c4 by (auto simp: sends_def t4_def t3_def t2_def t1_def p)
  have "TSX_HAS_RESOLVED_SERVER \<in> transport_flag t4" by (simp add: t4_def t3_def)
  with nested [OF c4] have s5: "sends t4 t5" using c4 by (auto simp: t5_def)
  then have "tsx_core t5" by (simp add: sends_def)
  then have s6: "sends t5 t6" by (auto simp: t6_def sends_def core_step)
  from sends_trans [OF s4 sends_trans [OF s5 s6]] eq show "sends t (callback_sent_with send env r t)"
    by simp
  show "state (callback_sent_with send env r t) = state t \<and>
     transport_flag (callback_sent_with send env r t) \<subseteq> insert TSX_HAS_RESOLVED_SERVER (transport_flag t)"
    if "TSX_HAS_PENDING_SEND \<notin> transport_flag t"
    using that unfolding eq by (auto simp: t6_def t5_def t4_def t3_def t2_def t1_def split: if_splits)
qed

lemma callback_failed_sends:
  assumes core: "tsx_core t" and p: "pending_tx t = None"
    and td: "sr_cont r \<Longrightarrow> TSX_HAS_PENDING_TRANSPORT \<in> transport_flag t"
  shows "tsx_core (callback_failed env td r t)" "role (callback_failed env td r t) = role t"
    "tsx_method (callback_failed env td r t) = tsx_method t"
    "state (callback_failed env td r t) =
       (if sr_cont r then state t else PJSIP_TSX_STATE_TERMINATED)"
    "pending_tx (callback_failed env td r t) = (if sr_cont r then Some td else None)"
    "transport_err (callback_failed env td r t) = (if sr_cont r then transport_err t else - sr_sent r)"
    "TSX_HAS_PENDING_SEND \<in> transport_flag (callback_failed env td r t) \<longleftrightarrow>
       TSX_HAS_PENDING_SEND \<in> transport_flag t"
    "tt_delay (timeout_timer t) \<noteq> None \<or> (\<not> sr_cont r \<and> state t \<noteq> PJSIP_TSX_STATE_TERMINATED) \<Longrightarrow>
       tt_delay (timeout_timer (callback_failed env td r t)) \<noteq> None"
proof -
  define t1 where "t1 = pj_assert (sr_sent r \<noteq> 0) t"
  define t2 where "t2 = (if sr_transport r = transport t1 then tsx_update_transport t1 None else t1)"
  define sc :: int where "sc = (if - sr_sent r = PJ_ERESOLVE \<or> - sr_sent r = PJLIB_UTIL_EDNS_NXDOMAIN
                     then PJSIP_SC_BAD_GATEWAY else PJSIP_SC_TSX_TRANSPORT_ERROR)"
  define t3 where "t3 = tsx_set_status_code (set_flag TSX_HAS_RESOLVED_SERVER
      (clear_flags {TSX_HAS_PENDING_TRANSPORT} (t2\<lparr>transport_err := - sr_sent r\<rparr>))) sc"
  define t4 where "t4 = (if tt_id (timeout_timer (t2\<lparr>retransmit_count := 0\<rparr>)) \<noteq> 0 then
      activate_timer TIMEOUT_TIMER (timeout_timer_val env) (set_timer_id TIMEOUT_TIMER TIMER_INACTIVE
        (fst (pjsip_endpt_cancel_timer (t2\<lparr>retransmit_count := 0\<rparr>) TIMEOUT_TIMER)))
      else t2\<lparr>retransmit_count := 0\<rparr>)"
  define t5 where "t5 = t4\<lparr>attached := insert (td_ptr td) (attached t4), pending_tx := Some td\<rparr>"
  have c2: "tsx_core t2" unfolding t2_def t1_def by (simp add: core core_step core_update_transport)
  have pd: "TSX_HAS_PENDING_DESTROY \<notin> transport_flag t2" using c2 by (simp add: tsx_core_def)
  have f: "state t2 = state t" "role t2 = role t" "tsx_method t2 = tsx_method t" "pending_tx t2 = None"
    "transport_flag t2 = transport_flag t" "transport_err t2 = transport_err t"
    "timeout_timer t2 = timeout_timer t"
    by (simp_all add: t2_def t1_def p)
  have st: "state t \<noteq> PJSIP_TSX_STATE_DESTROYED" using core by (simp add: tsx_core_def)
  have eq: "callback_failed env td r t = (if \<not> sr_cont r then
      (if state t3 \<noteq> PJSIP_TSX_STATE_TERMINATED
       then tsx_set_state t3 PJSIP_TSX_STATE_TERMINATED EV_TRANSPORT_ERROR else t3) else t5)"
    unfolding callback_failed_def Let_def t1_def [symmetric] t2_def [symmetric] sc_def [symmetric]
      t3_def [symmetric] t4_def [symmetric] t5_def [symmetric]
    using pd st f by (simp add: t3_def)
  have b3: "tsx_base t3" "TSX_HAS_PENDING_DESTROY \<notin> transport_flag t3" "pending_ok t3"
    using c2 f pd by (auto simp: t3_def tsx_inv_defs)
  have c3: "tsx_core t3" if "state t = PJSIP_TSX_STATE_TERMINATED"
    using b3 that f by (simp add: tsx_core_def send_flag_ok_def t3_def)
  have "attached t2 = {}" using c2 f by (simp add: tsx_inv_defs)
  then have a4: "attached t4 = {}" "transport_flag t4 = transport_flag t" "state t4 = state t"
    "role t4 = role t" "tsx_method t4 = tsx_method t" "transport_err t4 = transport_err t"
    using f by (simp_all add: t4_def)
  have b4: "tsx_base t4"
    using c2 by (auto simp: t4_def tsx_core_def tsx_base_def state_of_role_def pending_ok_def refs_ok_def)
  have d4: "tt_delay (timeout_timer t) \<noteq> None \<Longrightarrow> tt_delay (timeout_timer t4) \<noteq> None"
    using c2 f by (auto simp: t4_def tsx_core_def tsx_base_def timer_ok_def)
  have c5: "tsx_core t5" if "sr_cont r"
    using b4 a4 td [OF that] core
    by (simp add: t5_def tsx_core_def tsx_base_def state_of_role_def pending_ok_def refs_ok_def send_flag_ok_def)
  note T = set_state_terminated
  show "tsx_core (callback_failed env td r t)"
    using eq c5 c3 f base_set_state_terminated [OF b3(1,2)] by (auto simp: t3_def)
  show "role (callback_failed env td r t) = role t" "tsx_method (callback_failed env td r t) = tsx_method t"
    "state (callback_failed env td r t) = (if sr_cont r then state t else PJSIP_TSX_STATE_TERMINATED)"
    "transport_err (callback_failed env td r t) = (if sr_cont r then transport_err t else - sr_sent r)"
    "TSX_HAS_PENDING_SEND \<in> transport_flag (callback_failed env td r t) \<longleftrightarrow>
       TSX_HAS_PENDING_SEND \<in> transport_flag t"
    using eq f a4 by (auto simp: T t5_def t3_def)
  show "pending_tx (callback_failed env td r t) = (if sr_cont r then Some td else None)"
    using eq f T(17) [OF b3(3)] by (auto simp: t5_def t3_def)
  show "tt_delay (timeout_timer (callback_failed env td r t)) \<noteq> None"
    if "tt_delay (timeout_timer t) \<noteq> None \<or> (\<not> sr_cont r \<and> state t \<noteq> PJSIP_TSX_STATE_TERMINATED)"
    using that eq f d4 T(13) [of t3 EV_TRANSPORT_ERROR] by (auto simp: t5_def t3_def)
qed

lemma detached:
  assumes "tsx_core t" "td_ptr td \<in> attached t"
  shows "tsx_core (t\<lparr>attached := attached t - {td_ptr td}, pending_tx := None\<rparr>)"
    "TSX_HAS_PENDING_TRANSPORT \<in> transport_flag t"
    "map_option td_ptr (pending_tx t) = Some (td_ptr td)"
  using assms by (auto simp: tsx_inv_defs split: option.splits)

lemma callback_sends:
  assumes core: "tsx_core t"
    and nested: "\<And>u x. tsx_core u \<Longrightarrow> TSX_HAS_RESOLVED_SERVER \<in> transport_flag u \<Longrightarrow>
                   sends u (fst (send u x))"
  shows "sends t (fst (send_msg_callback_with send env td r t))"
proof (cases "td_ptr td \<in> attached t")
  case False
  then show ?thesis using core by (simp add: callback_halves)
next
  case True
  define t1 where "t1 = t\<lparr>attached := attached t - {td_ptr td}, pending_tx := None\<rparr>"
  note d = detached [OF core True, folded t1_def]
  have p: "pending_tx t1 = None" by (simp add: t1_def)
  have eq: "fst (send_msg_callback_with send env td r t) =
    (if sr_sent r > 0 then callback_sent_with send env r t1 else callback_failed env td r t1)"
    using True by (simp add: callback_halves t1_def)
  have s1: "sends t t1" using d(1) by (simp add: sends_def t1_def)
  show ?thesis
  proof (cases "sr_sent r > 0")
    case True
    with eq sends_trans [OF s1 callback_sent_sends(1) [where send = send, OF d(1) p nested]] show ?thesis by simp
  next
    case False
    have "TSX_HAS_PENDING_TRANSPORT \<in> transport_flag t1" using d(2) by (simp add: t1_def)
    note c = callback_failed_sends [OF d(1) p this]
    show ?thesis
      using False eq c(1-5,8) d(3) by (auto simp: sends_def t1_def)
  qed
qed

text \<open>Like \<open>sends\<close>, but a new buffer may be pending.\<close>

definition sent_by :: "pjsip_transaction \<Rightarrow> pjsip_transaction \<Rightarrow> bool" where
  "sent_by t t' \<longleftrightarrow> tsx_core t' \<and> role t' = role t \<and> tsx_method t' = tsx_method t \<and>
     (state t' = state t \<or> state t' = PJSIP_TSX_STATE_TERMINATED) \<and>
     (tt_delay (timeout_timer t) \<noteq> None \<or>
        (state t' = PJSIP_TSX_STATE_TERMINATED \<and> state t \<noteq> PJSIP_TSX_STATE_TERMINATED) \<longrightarrow>
      tt_delay (timeout_timer t') \<noteq> None)"

lemma sends_sent_by: "sends t t' \<Longrightarrow> sent_by t t'"
  by (simp add: sends_def sent_by_def)

lemma sent_by_trans [trans]: "sent_by t t' \<Longrightarrow> sent_by t' t'' \<Longrightarrow> sent_by t t''"
  unfolding sent_by_def by (elim conjE; intro conjI; (elim disjE)?; simp)

text \<open>The lower layers report a sent message with a positive size, a failure with a negative
  status; never 0.\<close>

definition env_ok :: "tsx_env \<Rightarrow> bool" where
  "env_ok env \<longleftrightarrow> (\<forall>as td. \<forall>r \<in> set (fst (stateless_send env as td)). sr_sent r \<noteq> 0) \<and>
     (\<forall>as tp td. \<forall>r \<in> set (fst (send_response env as tp td)). sr_sent r \<noteq> 0)"

definition callbacks_run :: "pjsip_transaction \<Rightarrow> tdata \<Rightarrow> pjsip_transaction \<Rightarrow> bool" where
  "callbacks_run t0 td t \<longleftrightarrow> sent_by t0 t \<and>
     (pending_tx t = None \<or> map_option td_ptr (pending_tx t) = Some (td_ptr td)) \<and>
     (state t0 \<noteq> PJSIP_TSX_STATE_TERMINATED \<longrightarrow>
        (state t = state t0 \<and> TSX_HAS_PENDING_SEND \<notin> transport_flag t) \<or>
        (state t = PJSIP_TSX_STATE_TERMINATED \<and> transport_err t \<noteq> 0 \<and> pending_tx t = None))"

lemma callbacks_run_step:
  assumes k: "callbacks_run t0 td t" and r: "sr_sent r \<noteq> 0"
    and nested: "\<And>u x. tsx_core u \<Longrightarrow> TSX_HAS_RESOLVED_SERVER \<in> transport_flag u \<Longrightarrow>
                   sends u (fst (send u x))"
  shows "callbacks_run t0 td (fst (send_msg_callback_with send env td r t))"
proof -
  have core: "tsx_core t" using k by (simp add: callbacks_run_def sent_by_def)
  define t' where "t' = fst (send_msg_callback_with send env td r t)"
  have s: "sends t t'" unfolding t'_def by (rule callback_sends [where send = send, OF core nested])
  have 1: "sent_by t0 t'"
    using k sends_sent_by [OF s] sent_by_trans unfolding callbacks_run_def by blast
  have 2: "pending_tx t' = None \<or> map_option td_ptr (pending_tx t') = Some (td_ptr td)"
    using k s by (auto simp: callbacks_run_def sends_def)
  have 3: "(state t' = state t0 \<and> TSX_HAS_PENDING_SEND \<notin> transport_flag t') \<or>
        (state t' = PJSIP_TSX_STATE_TERMINATED \<and> transport_err t' \<noteq> 0 \<and> pending_tx t' = None)"
    if n: "state t0 \<noteq> PJSIP_TSX_STATE_TERMINATED"
  proof (cases "td_ptr td \<in> attached t")
    case False
    then have "t' = t" by (simp add: t'_def callback_halves)
    with k n show ?thesis by (simp add: callbacks_run_def)
  next
    case True
    define t1 where "t1 = t\<lparr>attached := attached t - {td_ptr td}, pending_tx := None\<rparr>"
    note d = detached [OF core True, folded t1_def]
    have p: "pending_tx t1 = None" by (simp add: t1_def)
    have eq: "t' = (if sr_sent r > 0 then callback_sent_with send env r t1 else callback_failed env td r t1)"
      using True by (simp add: t'_def callback_halves t1_def)
    have "pending_tx t \<noteq> None" using d(3) by auto
    with k n have s0: "state t = state t0" "TSX_HAS_PENDING_SEND \<notin> transport_flag t"
      by (auto simp: callbacks_run_def)
    have pt: "TSX_HAS_PENDING_TRANSPORT \<in> transport_flag t1" using d(2) by (simp add: t1_def)
    note c = callback_failed_sends [OF d(1) p pt]
    show ?thesis
    proof (cases "sr_sent r > 0")
      case True
      have "TSX_HAS_PENDING_SEND \<notin> transport_flag t1" using s0 by (simp add: t1_def)
      from callback_sent_sends(2) [where send = send and env = env and r = r, OF d(1) p nested this] True eq s0 show ?thesis
        by (auto simp: t1_def)
    next
      case False
      with r eq c(4-7) s0 show ?thesis by (auto simp: t1_def)
    qed
  qed
  from 1 2 3 show ?thesis by (simp add: callbacks_run_def t'_def)
qed

lemma run_callbacks_ok:
  assumes "callbacks_run t0 td t" "\<forall>r \<in> set rs. sr_sent r \<noteq> 0"
    and "\<And>u x. tsx_core u \<Longrightarrow> TSX_HAS_RESOLVED_SERVER \<in> transport_flag u \<Longrightarrow>
           sends u (fst (send u x))"
  shows "callbacks_run t0 td (run_callbacks (send_msg_callback_with send env) td rs t)"
  using assms(1,2)
proof (induction rs arbitrary: t)
  case Nil
  then show ?case by (simp add: run_callbacks_def)
next
  case (Cons r rs)
  have "callbacks_run t0 td (fst (send_msg_callback_with send env td r t))"
    using Cons.prems by (intro callbacks_run_step [where send = send] assms(3)) auto
  with Cons show ?case by (simp add: run_callbacks_def)
qed

lemma send_resolve_ok:
  assumes core: "tsx_core t" and pt: "TSX_HAS_PENDING_TRANSPORT \<notin> transport_flag t"
    and env: "env_ok env"
    and nested: "\<And>u x. tsx_core u \<Longrightarrow> TSX_HAS_RESOLVED_SERVER \<in> transport_flag u \<Longrightarrow>
                   sends u (fst (send u x))"
  shows "sent_by t (fst (tsx_send_resolve_with send env t td st0))"
    "snd (tsx_send_resolve_with send env t td st0) = 0 \<Longrightarrow>
       state (fst (tsx_send_resolve_with send env t td st0)) = state t"
proof -
  define t1 where "t1 = pj_assert (st0 \<noteq> PJ_SUCCESS \<or> transport t = None) t"
  have c1: "tsx_core t1" "transport_flag t1 = transport_flag t" "state t1 = state t" "role t1 = role t"
    "tsx_method t1 = tsx_method t" "timeout_timer t1 = timeout_timer t" "pending_tx t1 = pending_tx t"
    by (simp_all add: t1_def core core_step)
  have s1: "sends t t1" unfolding t1_def using core by (simp add: sends_def core_step)
  have "sent_by t (fst (tsx_send_resolve_with send env t td st0)) \<and>
    (snd (tsx_send_resolve_with send env t td st0) = 0 \<longrightarrow>
       state (fst (tsx_send_resolve_with send env t td st0)) = state t)"
  proof (cases "TSX_HAS_RESOLVED_SERVER \<in> transport_flag t")
    case True
    have "tsx_core (pj_assert (st0 \<noteq> 0) t1)" using c1 by (simp add: core_step)
    from sends_trans [OF sends_trans [OF s1] sends_terminated(1) [OF this]]
    have "sends t (tsx_set_state (tsx_set_status_code (pj_assert (st0 \<noteq> 0) t1)
        PJSIP_SC_TSX_TRANSPORT_ERROR) PJSIP_TSX_STATE_TERMINATED EV_TRANSPORT_ERROR)"
      using c1 by (simp add: sends_def core_step)
    with True show ?thesis
      by (simp add: tsx_send_resolve_with_def Let_def t1_def sends_sent_by)
  next
    case False
    define t2 where "t2 = emit (A_TdAddRef (td_ptr td)) t1"
    define t3 where "t3 = set_flag TSX_HAS_PENDING_TRANSPORT
      (t2\<lparr>attached := insert (td_ptr td) (attached t2), pending_tx := Some td\<rparr>)"
    define x where "x = (case td_msg td of
                Request me \<Rightarrow> (emit (A_StatelessSend td) t3, stateless_send env (actions t3) td)
              | Response c me \<Rightarrow> (emit (A_SendResponse td) t3,
                                   send_response env (actions t3) (res_addr_transport t3) td))"
    define t5 where "t5 = run_callbacks (send_msg_callback_with send env) td (fst (snd x)) (fst x)"
    define st where "st = (if snd (snd x) = PJ_EPENDING then PJ_SUCCESS else snd (snd x))"
    define t6 where "t6 = (if st \<noteq> PJ_SUCCESS then (emit (A_TdDecRef (td_ptr td)) t5)
                        \<lparr>attached := attached t5 - {td_ptr td}, pending_tx := None\<rparr> else t5)"
    have eq: "tsx_send_resolve_with send env t td st0 =
      (t6, if st = PJ_SUCCESS \<and> state t6 = PJSIP_TSX_STATE_TERMINATED then transport_err t6 else st)"
      unfolding tsx_send_resolve_with_def Let_def t1_def [symmetric] t2_def [symmetric]
        t3_def [symmetric] x_def [symmetric] split_beta t5_def [symmetric] st_def [symmetric]
        t6_def [symmetric]
      using False c1(2) by simp
    have "attached t = {}" "pending_tx t = None" "state t \<noteq> PJSIP_TSX_STATE_TERMINATED \<longrightarrow>
      TSX_HAS_PENDING_SEND \<notin> transport_flag t"
      using core pt by (auto simp: tsx_inv_defs split: option.splits)
    then have a: "attached t2 = {}" "state t1 \<noteq> PJSIP_TSX_STATE_TERMINATED \<longrightarrow>
      TSX_HAS_PENDING_SEND \<notin> transport_flag t3"
      by (simp_all add: t3_def t2_def t1_def)
    have b2: "tsx_core t2" using c1 by (simp add: t2_def core_step)
    then have c3: "tsx_core t3"
      using a by (simp add: t3_def tsx_inv_defs)
    have fx: "fst x = emit (case td_msg td of Request me \<Rightarrow> A_StatelessSend td | Response c me \<Rightarrow> A_SendResponse td) t3"
      by (simp add: x_def split: sip_msg.split)
    have n: "tp_neutral (case td_msg td of Request me \<Rightarrow> A_StatelessSend td | Response c me \<Rightarrow> A_SendResponse td)"
      by (simp split: sip_msg.split)
    have c4: "tsx_core (fst x)" using c3 n by (simp add: fx core_step)
    have k4: "callbacks_run t td (fst x)"
      using c4 a(2) by (auto simp: callbacks_run_def sent_by_def fx t3_def t2_def c1)
    have "\<forall>r \<in> set (fst (snd x)). sr_sent r \<noteq> 0"
      using env by (auto simp: x_def env_ok_def split: sip_msg.split)
    from run_callbacks_ok [where send = send, OF k4 this nested] have k5: "callbacks_run t td t5"
      by (simp add: t5_def)
    have d6: "sent_by t t6 \<and> state t6 = state t5 \<and> transport_err t6 = transport_err t5"
    proof (cases "st = PJ_SUCCESS")
      case True
      then show ?thesis using k5 by (simp add: t6_def callbacks_run_def)
    next
      case no: False
      have "tsx_core t5" using k5 by (simp add: callbacks_run_def sent_by_def)
      then have "attached t5 \<subseteq> {td_ptr td}"
        using k5 by (auto simp: callbacks_run_def tsx_inv_defs split: option.splits)
      with \<open>tsx_core t5\<close> have "tsx_core t6"
        using no by (auto simp: t6_def tsx_inv_defs)
      with no k5 show ?thesis by (simp add: t6_def callbacks_run_def sent_by_def)
    qed
    have "state t6 = state t" if "(if st = PJ_SUCCESS \<and> state t6 = PJSIP_TSX_STATE_TERMINATED
        then transport_err t6 else st) = 0"
      using that k5 d6 by (auto simp: callbacks_run_def sent_by_def split: if_splits)
    with eq d6 show ?thesis by simp
  qed
  then show "sent_by t (fst (tsx_send_resolve_with send env t td st0))"
    "snd (tsx_send_resolve_with send env t td st0) = 0 \<Longrightarrow>
       state (fst (tsx_send_resolve_with send env t td st0)) = state t" by auto
qed

lemma tsx_send_msg_ok:
  assumes core: "tsx_core t" and env: "env_ok env"
  shows "sent_by t (fst (tsx_send_msg env t tdo))"
    "snd (tsx_send_msg env t tdo) = 0 \<Longrightarrow> state (fst (tsx_send_msg env t tdo)) = state t"
proof -
  define send where "send = tsx_send_msg_with (\<lambda>t tdo. (emit A_Recursion t, PJ_EBUG)) env"
  have nested: "sends u (fst (send u x))" if "tsx_core u" "TSX_HAS_RESOLVED_SERVER \<in> transport_flag u" for u x
    unfolding send_def by (rule send_resolved_sends [OF that])
  have id: "sent_by t (emit a t)" if "tp_neutral a" for a
    by (rule sends_sent_by [OF sends_emit [OF core that]])
  have "sent_by t (fst (tsx_send_msg_with send env t tdo)) \<and>
    (snd (tsx_send_msg_with send env t tdo) = 0 \<longrightarrow>
       state (fst (tsx_send_msg_with send env t tdo)) = state t)"
  proof (cases tdo)
    case None
    have "sent_by t (pj_assert False t)" using core by (simp add: sent_by_def core_step)
    with None show ?thesis by (simp add: tsx_send_msg_with_def)
  next
    case (Some td)
    show ?thesis
    proof (cases "TSX_HAS_PENDING_TRANSPORT \<in> transport_flag t")
      case True
      then have "sent_by t (set_flag TSX_HAS_PENDING_SEND t)" using core by (simp add: sent_by_def core_step)
      with True Some show ?thesis by (simp add: tsx_send_msg_with_def)
    next
      case pt: False
      note res = send_resolve_ok [where send = send, OF core pt env nested]
      show ?thesis
      proof (cases "transport t")
        case None
        with Some pt res show ?thesis by (simp add: tsx_send_msg_with_def)
      next
        case tp: (Some tp)
        define st where "st = (if transport_send env (actions t) tp td = PJ_EPENDING then PJ_SUCCESS
           else transport_send env (actions t) tp td)"
        define u where "u = (tsx_update_transport (emit (A_TransportSend tp td) t) None)
           \<lparr>res_addr_transport := None\<rparr>"
        have eq: "tsx_send_msg_with send env t tdo = (if st = PJ_SUCCESS
            then (emit (A_TransportSend tp td) t, PJ_SUCCESS) else tsx_send_resolve_with send env u td st)"
          using Some tp pt by (simp add: tsx_send_msg_with_def Let_def st_def u_def)
        have u: "tsx_core u" "state u = state t" "role u = role t" "tsx_method u = tsx_method t"
          "timeout_timer u = timeout_timer t" "TSX_HAS_PENDING_TRANSPORT \<notin> transport_flag u"
          using core pt by (simp_all add: u_def core_step core_update_transport)
        have tu: "sent_by t u" using u by (simp add: sent_by_def)
        note r = send_resolve_ok [where send = send and td = td and ?st0.0 = st, OF u(1,6) env nested]
        show ?thesis
          using eq sent_by_trans [OF tu r(1)] r(2) u(2) id [of "A_TransportSend tp td"] by auto
      qed
    qed
  qed
  then show "sent_by t (fst (tsx_send_msg env t tdo))"
    "snd (tsx_send_msg env t tdo) = 0 \<Longrightarrow> state (fst (tsx_send_msg env t tdo)) = state t"
    by (auto simp: tsx_send_msg_def send_def)
qed

end
