(* ===== verification/Sip_tsx_machine.thy ===== *)
theory Sip_tsx_machine
  imports Sip_tsx_inv
begin

text \<open>
  The abstract state machine of a SIP transaction (RFC 3261, section 17, with the states of the
  code) and the proof that every state handler, and every step the rest of the program can cause,
  follows it.
\<close>

section \<open>The abstract state machine\<close>

text \<open>
  The transitions of the transaction state machines, as the comments of the source and RFC 3261
  give them: the client goes from Null over Calling and Proceeding to Completed, the server from
  Null over Trying and Proceeding to Completed and, for INVITE, to Confirmed; every live state
  may be terminated, and only a terminated transaction is destroyed.
\<close>

inductive tsx_edge ::
  "pjsip_role_e \<Rightarrow> pjsip_method_e \<Rightarrow> pjsip_tsx_state_e \<Rightarrow> pjsip_tsx_state_e \<Rightarrow> bool" where
  edge_stay: "tsx_edge r m s s"
| edge_calling: "tsx_edge PJSIP_ROLE_UAC m PJSIP_TSX_STATE_NULL PJSIP_TSX_STATE_CALLING"
| edge_trying: "tsx_edge PJSIP_ROLE_UAS m PJSIP_TSX_STATE_NULL PJSIP_TSX_STATE_TRYING"
| edge_uac_proceeding: "tsx_edge PJSIP_ROLE_UAC m PJSIP_TSX_STATE_CALLING PJSIP_TSX_STATE_PROCEEDING"
| edge_uas_proceeding: "tsx_edge PJSIP_ROLE_UAS m PJSIP_TSX_STATE_TRYING PJSIP_TSX_STATE_PROCEEDING"
| edge_uac_completed: "tsx_edge PJSIP_ROLE_UAC m PJSIP_TSX_STATE_CALLING PJSIP_TSX_STATE_COMPLETED"
| edge_uas_completed: "tsx_edge PJSIP_ROLE_UAS m PJSIP_TSX_STATE_TRYING PJSIP_TSX_STATE_COMPLETED"
| edge_completed: "tsx_edge r m PJSIP_TSX_STATE_PROCEEDING PJSIP_TSX_STATE_COMPLETED"
| edge_confirmed: "tsx_edge PJSIP_ROLE_UAS PJSIP_INVITE_METHOD PJSIP_TSX_STATE_COMPLETED PJSIP_TSX_STATE_CONFIRMED"
| edge_terminated: "s < PJSIP_TSX_STATE_TERMINATED \<Longrightarrow> tsx_edge r m s PJSIP_TSX_STATE_TERMINATED"
| edge_destroyed: "tsx_edge r m PJSIP_TSX_STATE_TERMINATED PJSIP_TSX_STATE_DESTROYED"

inductive_cases tsx_edgeE: "tsx_edge r m s s'"

inductive_simps tsx_edge_to_terminated: "tsx_edge r m s PJSIP_TSX_STATE_TERMINATED"
inductive_simps tsx_edge_from_destroyed: "tsx_edge r m PJSIP_TSX_STATE_DESTROYED s"

lemma tsx_edge_mono: "tsx_edge r m s s' \<Longrightarrow> s \<le> s'"
  by (erule tsx_edgeE; cases s; simp add: less_eq_pjsip_tsx_state_e_def)

lemma tsx_edge_role: "tsx_edge (role t) (tsx_method t) s s' \<Longrightarrow> state_of_role t s \<Longrightarrow> state_of_role t s'"
  by (erule tsx_edgeE) (auto simp: state_of_role_def)

section \<open>Every handler follows the abstract machine\<close>

text \<open>
  \<open>moves t t'\<close>: the handler took the transaction along one transition (or left the state) and
  kept the invariant.  \<open>timed\<close>: in the last three states of its life the transaction's timeout
  timer is running, so that it goes on to be destroyed.
\<close>

definition keeps :: "pjsip_transaction \<Rightarrow> pjsip_transaction \<Rightarrow> bool" where
  "keeps t t' \<longleftrightarrow> tsx_core t' \<and> role t' = role t \<and> tsx_method t' = tsx_method t \<and> state t' = state t"

definition moves :: "pjsip_transaction \<Rightarrow> pjsip_transaction \<Rightarrow> bool" where
  "moves t t' \<longleftrightarrow> tsx_core t' \<and> role t' = role t \<and> tsx_method t' = tsx_method t \<and>
     tsx_edge (role t) (tsx_method t) (state t) (state t')"

definition timed :: "pjsip_transaction \<Rightarrow> bool" where
  "timed t \<longleftrightarrow> (state t = PJSIP_TSX_STATE_COMPLETED \<or> state t = PJSIP_TSX_STATE_CONFIRMED \<or>
     state t = PJSIP_TSX_STATE_TERMINATED \<longrightarrow> tt_delay (timeout_timer t) \<noteq> None)"

lemma pj_assert_True [simp]: "pj_assert True t = t"
  by (simp add: pj_assert_def)

lemma keeps_refl [simp]: "tsx_core t \<Longrightarrow> keeps t t"
  by (simp add: keeps_def)

lemma keeps_moves: "keeps t u \<Longrightarrow> moves u v \<Longrightarrow> moves t v"
  by (simp add: keeps_def moves_def)

lemma moves_keeps: "moves t u \<Longrightarrow> keeps u v \<Longrightarrow> moves t v"
  by (simp add: keeps_def moves_def)

lemma keeps_is_move: "keeps t u \<Longrightarrow> moves t u"
  by (simp add: keeps_def moves_def edge_stay)

lemma edge_to_terminated:
  "s \<noteq> PJSIP_TSX_STATE_DESTROYED \<Longrightarrow> tsx_edge r m s PJSIP_TSX_STATE_TERMINATED"
  by (cases "s = PJSIP_TSX_STATE_TERMINATED") (auto intro: edge_stay edge_terminated)

lemma sent_by_moves: "tsx_core t \<Longrightarrow> sent_by t t' \<Longrightarrow> moves t t'"
  using edge_to_terminated [of "state t"] edge_stay
  unfolding sent_by_def moves_def tsx_core_def by metis

lemma sent_by_keeps: "sent_by t t' \<Longrightarrow> state t' = state t \<Longrightarrow> keeps t t'"
  by (simp add: sent_by_def keeps_def)

lemma keeps_step:
  assumes "keeps t u"
  shows "tp_neutral a \<Longrightarrow> keeps t (emit a u)" "keeps t (pj_assert b u)"
    "f \<noteq> TSX_HAS_PENDING_DESTROY \<Longrightarrow> f \<noteq> TSX_HAS_PENDING_SEND \<Longrightarrow> keeps t (set_flag f u)"
    "TSX_HAS_PENDING_TRANSPORT \<in> transport_flag u \<Longrightarrow> keeps t (set_flag TSX_HAS_PENDING_SEND u)"
    "keeps t (activate_timer w d u)" "keeps t (cancel_active_timer w u)"
    "keeps t (fst (pjsip_endpt_cancel_timer u w))" "keeps t (tsx_set_status_code u c)"
    "keeps t (save_last_tx td u)" "keeps t (drop_other_last_tx td u)"
    "keeps t (u\<lparr>last_tx := x\<rparr>)" "keeps t (u\<lparr>retransmit_count := n\<rparr>)"
    "TSX_HAS_PENDING_TRANSPORT \<notin> fs \<Longrightarrow> keeps t (clear_flags fs u)"
    "keeps t (tsx_resched_retransmission env u)" "keeps t (start_retransmit d u)"
    "keeps t (tsx_update_transport u tp)"
  using assms by (auto simp: keeps_def core_step core_start_retransmit core_update_transport)

lemma moves_set_state:
  assumes "tsx_core t" "tsx_edge (role t) (tsx_method t) (state t) s"
    "s \<noteq> PJSIP_TSX_STATE_DESTROYED" "state t \<noteq> PJSIP_TSX_STATE_TERMINATED"
  shows "moves t (tsx_set_state t s ev)"
proof (cases "s = PJSIP_TSX_STATE_TERMINATED")
  case True
  with assms show ?thesis
    by (simp add: moves_def core_set_state_terminated set_state_terminated)
next
  case False
  have "state_of_role t s" using assms tsx_edge_role by (auto simp: tsx_core_def tsx_base_def)
  with assms False show ?thesis
    by (simp add: moves_def core_set_state_live set_state_live)
qed

lemma timed_terminated [simp]: "timed (tsx_set_state t PJSIP_TSX_STATE_TERMINATED ev)"
  by (simp add: timed_def set_state_terminated)

lemma moves_terminated:
  assumes "tsx_core t"
  shows "moves t (tsx_set_state t PJSIP_TSX_STATE_TERMINATED ev)"
  using sent_by_moves [OF assms sends_sent_by [OF sends_terminated(2) [OF assms]]] .

lemma timed_sent_by: "sent_by t t' \<Longrightarrow> timed t \<Longrightarrow> timed t'"
  by (auto simp: sent_by_def timed_def)

lemma timed_live:
  "s \<noteq> PJSIP_TSX_STATE_TERMINATED \<Longrightarrow> s \<noteq> PJSIP_TSX_STATE_DESTROYED \<Longrightarrow>
   timed (tsx_set_state t s ev) \<longleftrightarrow>
     (s = PJSIP_TSX_STATE_COMPLETED \<or> s = PJSIP_TSX_STATE_CONFIRMED \<longrightarrow> tt_delay (timeout_timer t) \<noteq> None)"
  by (simp add: timed_def set_state_live)

text \<open>A result of a handler, for a transaction that is not terminated yet.\<close>

definition handled :: "pjsip_transaction \<Rightarrow> pjsip_transaction \<Rightarrow> bool" where
  "handled t t' \<longleftrightarrow> moves t t' \<and> timed t'"

lemma retransmit_ok:
  assumes core: "tsx_core t" and env: "env_ok env"
  shows "sent_by t (fst (tsx_retransmit env t resched))"
proof (cases "last_tx t = None")
  case True
  then show ?thesis using core by (simp add: tsx_retransmit_def sent_by_def core_step)
next
  case False
  define t1 where "t1 = t\<lparr>retransmit_count := retransmit_count t + 1\<rparr>"
  define t2 where "t2 = (if resched then
                   let t = pj_assert (state t1 \<noteq> PJSIP_TSX_STATE_CONFIRMED) t1
                   in if TSX_HAS_PENDING_TRANSPORT \<in> transport_flag t
                      then set_flag TSX_HAS_PENDING_RESCHED t
                      else tsx_resched_retransmission env t
                 else t1)"
  have "tsx_retransmit env t resched = tsx_send_msg env t2 (last_tx t2)"
  proof -
    have "last_tx t2 = last_tx t" by (simp add: t2_def t1_def Let_def)
    with False show ?thesis
      unfolding tsx_retransmit_def Let_def t1_def [symmetric] t2_def [symmetric, unfolded Let_def]
      by auto
  qed
  moreover have "sent_by t t2"
    using core by (auto simp: t2_def t1_def Let_def sent_by_def core_step)
  ultimately show ?thesis
    using sent_by_trans tsx_send_msg_ok(1) [OF _ env, of t2 "last_tx t2"] by (auto simp: sent_by_def)
qed

lemma null_ok:
  assumes core: "tsx_core t" and env: "env_ok env" and st: "state t = PJSIP_TSX_STATE_NULL"
  shows "handled t (fst (tsx_on_state_null env t ev))"
proof -
  have tm: "timed u" if "state u = PJSIP_TSX_STATE_NULL" for u using that by (simp add: timed_def)
  show ?thesis
  proof (cases "role t = PJSIP_ROLE_UAS")
    case True
    define t1 where "t1 = pj_assert (case ev of EV_RX_MSG (Request me) \<Rightarrow> True | _ \<Rightarrow> False) t"
    have "keeps t t1" using core by (simp add: t1_def keeps_step)
    moreover have "tsx_core t1" "role t1 = PJSIP_ROLE_UAS" "state t1 = PJSIP_TSX_STATE_NULL"
      using core True st by (simp_all add: t1_def core_step)
    then have "moves t1 (tsx_set_state t1 PJSIP_TSX_STATE_TRYING ev)"
      by (intro moves_set_state) (auto intro: tsx_edge.intros)
    ultimately show ?thesis using True st keeps_moves
      by (auto simp: tsx_on_state_null_def Let_def handled_def t1_def [symmetric] timed_live)
  next
    case uac: False
    then have role: "role t = PJSIP_ROLE_UAC" by (cases "role t") auto
    show ?thesis
    proof (cases "\<exists>td. ev = EV_TX_MSG td")
      case False
      have "keeps t (pj_assert False t)" using core by (simp add: keeps_step)
      with False uac st show ?thesis
        by (auto simp: tsx_on_state_null_def Let_def handled_def keeps_is_move tm split: pjsip_event.split)
    next
      case True
      then obtain td where ev: "ev = EV_TX_MSG td" by blast
      define t1 where "t1 = save_last_tx td (drop_other_last_tx td t)"
      define t2 where "t2 = fst (tsx_send_msg env t1 (Some td))"
      define st2 where "st2 = snd (tsx_send_msg env t1 (Some td))"
      define t3 where "t3 = activate_timer TIMEOUT_TIMER (timeout_timer_val env) t2"
      define t4 where "t4 = (if \<not> is_reliable t3 then start_retransmit (t1_timer_val env) t3 else t3)"
      have eq: "fst (tsx_on_state_null env t ev) =
        (if st2 \<noteq> PJ_SUCCESS then t2 else tsx_set_state t4 PJSIP_TSX_STATE_CALLING ev)"
        using uac st ev by (simp add: tsx_on_state_null_def Let_def split_beta t1_def t2_def st2_def t3_def t4_def)
      have k1: "keeps t t1" using core by (simp add: t1_def keeps_step)
      then have c1: "tsx_core t1" "state t1 = PJSIP_TSX_STATE_NULL" using st by (auto simp: keeps_def)
      note s = tsx_send_msg_ok [OF c1(1) env, of "Some td", folded t2_def st2_def]
      show ?thesis
      proof (cases "st2 = 0")
        case False
        have "timed t2" using s(1) c1(2) tm [OF c1(2)] timed_sent_by by blast
        with False eq keeps_moves [OF k1 sent_by_moves [OF c1(1) s(1)]] show ?thesis
          by (simp add: handled_def)
      next
        case True
        have k2: "keeps t1 t2" by (rule sent_by_keeps [OF s(1) s(2) [OF True]])
        have "keeps t2 t4" using k2 by (simp add: t4_def t3_def keeps_step keeps_def core_step core_start_retransmit)
        with k2 k1 have k4: "keeps t t4" by (simp add: keeps_def)
        then have "tsx_core t4" "role t4 = PJSIP_ROLE_UAC" "state t4 = PJSIP_TSX_STATE_NULL"
          using role st by (auto simp: keeps_def)
        then have "moves t4 (tsx_set_state t4 PJSIP_TSX_STATE_CALLING ev)"
          by (intro moves_set_state) (auto intro: tsx_edge.intros)
        from keeps_moves [OF k4 this] True eq show ?thesis by (simp add: handled_def timed_live)
      qed
    qed
  qed
qed

lemma handled_keeps: "keeps t u \<Longrightarrow> handled u v \<Longrightarrow> handled t v"
  using keeps_moves by (auto simp: handled_def)

lemma handled_sent: "tsx_core t \<Longrightarrow> sent_by t t' \<Longrightarrow> timed t \<Longrightarrow> handled t t'"
  using sent_by_moves timed_sent_by by (auto simp: handled_def)

lemma handled_terminated: "tsx_core t \<Longrightarrow> handled t (tsx_set_state t PJSIP_TSX_STATE_TERMINATED ev)"
  by (simp add: handled_def moves_terminated)

lemma handled_set_state:
  assumes "tsx_core t" "tsx_edge (role t) (tsx_method t) (state t) s"
    "s \<noteq> PJSIP_TSX_STATE_DESTROYED" "s \<noteq> PJSIP_TSX_STATE_TERMINATED"
    "state t \<noteq> PJSIP_TSX_STATE_TERMINATED"
    "s = PJSIP_TSX_STATE_COMPLETED \<or> s = PJSIP_TSX_STATE_CONFIRMED \<Longrightarrow> tt_delay (timeout_timer t) \<noteq> None"
  shows "handled t (tsx_set_state t s ev)"
  using assms moves_set_state [OF assms(1,2,3,5)] by (auto simp: handled_def timed_live)

lemma handled_keep: "keeps t t' \<Longrightarrow> timed t' \<Longrightarrow> handled t t'"
  by (simp add: handled_def keeps_is_move)

lemma keeps_core: "keeps t u \<Longrightarrow> tsx_core u" "keeps t u \<Longrightarrow> role u = role t"
  "keeps t u \<Longrightarrow> tsx_method u = tsx_method t" "keeps t u \<Longrightarrow> state u = state t"
  by (simp_all add: keeps_def)

lemma timed_assert [simp]: "timed (pj_assert b t) = timed t" "timed (tsx_set_status_code t c) = timed t"
  by (simp_all add: timed_def)

lemma timed_early:
  "state t = PJSIP_TSX_STATE_NULL \<or> state t = PJSIP_TSX_STATE_CALLING \<or> state t = PJSIP_TSX_STATE_TRYING \<or>
   state t = PJSIP_TSX_STATE_PROCEEDING \<Longrightarrow> timed t"
  by (auto simp: timed_def)

subsection \<open>Client\<close>

definition uac_early :: "pjsip_transaction \<Rightarrow> bool" where
  "uac_early t \<longleftrightarrow> role t = PJSIP_ROLE_UAC \<and>
     (state t = PJSIP_TSX_STATE_CALLING \<or> state t = PJSIP_TSX_STATE_PROCEEDING)"

lemma uac_early_edges:
  assumes "uac_early t"
  shows "tsx_edge (role t) (tsx_method t) (state t) PJSIP_TSX_STATE_PROCEEDING"
    "tsx_edge (role t) (tsx_method t) (state t) PJSIP_TSX_STATE_COMPLETED"
    "state t \<noteq> PJSIP_TSX_STATE_TERMINATED" "timed t"
  using assms by (auto simp: uac_early_def timed_early intro: tsx_edge.intros)

lemma uac_early_keeps: "keeps t u \<Longrightarrow> uac_early t \<Longrightarrow> uac_early u"
  by (auto simp: uac_early_def keeps_def)

lemma proceeding_uac_2xx_ok:
  assumes core: "tsx_core t" and st: "uac_early t"
  shows "handled t (fst (proceeding_uac_2xx env t ev))"
proof -
  define t1 where "t1 = fst (pjsip_endpt_cancel_timer t TIMEOUT_TIMER)"
  define d where "d = (if \<not> is_reliable t1 then
                         (if tsx_method t1 = PJSIP_INVITE_METHOD then td_timer_val env
                          else t4_timer_val env) else zero_time)"
  define t2 where "t2 = cancel_active_timer RETRANSMIT_TIMER (activate_timer TIMEOUT_TIMER d t1)"
  have k1: "keeps t t1" using core by (simp add: t1_def keeps_step)
  then have k2: "keeps t t2" by (simp add: t2_def keeps_step)
  note e = uac_early_edges [OF uac_early_keeps [OF k2 st]]
  have "handled t1 (tsx_set_state t1 PJSIP_TSX_STATE_TERMINATED ev)"
    using k1 by (simp add: handled_terminated keeps_core(1))
  moreover have "handled t2 (tsx_set_state t2 PJSIP_TSX_STATE_COMPLETED ev)"
    using e(2,3) keeps_core(1) [OF k2] by (intro handled_set_state) (simp_all add: t2_def)
  moreover have "fst (proceeding_uac_2xx env t ev) = (if tsx_method t1 = PJSIP_INVITE_METHOD
      then tsx_set_state t1 PJSIP_TSX_STATE_TERMINATED ev
      else tsx_set_state t2 PJSIP_TSX_STATE_COMPLETED ev)"
    by (simp add: proceeding_uac_2xx_def Let_def t1_def [symmetric] t2_def d_def)
  ultimately show ?thesis using handled_keeps [OF k1] handled_keeps [OF k2] by simp
qed

lemma proceeding_uac_complete_ok:
  assumes core: "tsx_core t" and st: "uac_early t"
  shows "handled t (fst (proceeding_uac_complete env t ev ack))"
proof -
  define t1 where "t1 = tsx_set_state t PJSIP_TSX_STATE_COMPLETED ev"
  define t2 where "t2 = (if tsx_method t1 = PJSIP_INVITE_METHOD \<and> ack \<noteq> last_tx t1 then
                 (case last_tx t1 of None \<Rightarrow> t1 | Some old \<Rightarrow> emit (A_TdDecRef (td_ptr old)) t1)
                   \<lparr>last_tx := ack\<rparr> else t1)"
  define d where "d = (if \<not> is_reliable t2 then
                         (if tsx_method t2 = PJSIP_INVITE_METHOD then td_timer_val env
                          else t4_timer_val env) else zero_time)"
  define t3 where "t3 = (if tt_id (timeout_timer t2) \<noteq> 0
                         then fst (pjsip_endpt_cancel_timer t2 TIMEOUT_TIMER) else t2)"
  define t4 where "t4 = activate_timer TIMEOUT_TIMER d t3"
  note e = uac_early_edges [OF st]
  have m1: "moves t t1" unfolding t1_def by (rule moves_set_state [OF core e(2) _ e(3)]) simp
  then have c1: "tsx_core t1" by (simp add: moves_def)
  have "keeps t1 t2" using c1 by (auto simp: t2_def keeps_step split: option.split)
  then have k4: "keeps t1 t4" by (simp add: t4_def t3_def keeps_step)
  have "timed t4" by (simp add: timed_def t4_def)
  with moves_keeps [OF m1 k4] have "handled t t4" by (simp add: handled_def)
  moreover have "fst (proceeding_uac_complete env t ev ack) = t4"
    unfolding proceeding_uac_complete_def Let_def t1_def [symmetric] t2_def [symmetric]
      d_def [symmetric] t3_def [symmetric] t4_def [symmetric] by simp
  ultimately show ?thesis by simp
qed

lemma proceeding_uac_final_ok:
  assumes core: "tsx_core t" and st: "uac_early t" and env: "env_ok env"
  shows "handled t (fst (proceeding_uac_final env t ev m))"
proof -
  define t1 where "t1 = cancel_active_timer RETRANSMIT_TIMER t"
  define t2 where "t2 = fst (pjsip_endpt_cancel_timer (set_timer_id TIMEOUT_TIMER 0 t1) TIMEOUT_TIMER)"
  have c1: "tsx_core t1" using core by (simp add: t1_def core_step)
  have "tsx_core t2"
    using c1 by (simp add: t2_def tsx_inv_defs timer_ok_def)
  then have k2: "keeps t t2" by (simp add: keeps_def t2_def t1_def)
  note e2 = uac_early_keeps [OF k2 st]
  have c2: "tsx_core t2" by (rule keeps_core(1) [OF k2])
  have D: "proceeding_uac_final env t ev m = (if tsx_method t2 = PJSIP_INVITE_METHOD then
           (case create_ack env (last_tx t2) m of
              Inr status \<Rightarrow> (t2, status)
            | Inl ack \<Rightarrow>
                let (t, status) = tsx_send_msg env t2 (Some ack)
                in if status \<noteq> PJ_SUCCESS then (t, status)
                   else proceeding_uac_complete env t ev (Some ack))
         else proceeding_uac_complete env t2 ev None)"
    unfolding proceeding_uac_final_def Let_def t1_def [symmetric] t2_def [symmetric] by (rule refl)
  show ?thesis
  proof (cases "tsx_method t2 = PJSIP_INVITE_METHOD")
    case False
    with D handled_keeps [OF k2 proceeding_uac_complete_ok [OF c2 e2]] show ?thesis by simp
  next
    case True
    show ?thesis
    proof (cases "create_ack env (last_tx t2) m")
      case (Inr status)
      have "handled t t2" using k2 uac_early_edges(4) [OF e2] by (rule handled_keep)
      with D True Inr show ?thesis by simp
    next
      case (Inl ack)
      define t3 where "t3 = fst (tsx_send_msg env t2 (Some ack))"
      define st3 where "st3 = snd (tsx_send_msg env t2 (Some ack))"
      note s = tsx_send_msg_ok [OF c2 env, of "Some ack", folded t3_def st3_def]
      have eq: "fst (proceeding_uac_final env t ev m) =
        (if st3 \<noteq> PJ_SUCCESS then t3 else fst (proceeding_uac_complete env t3 ev (Some ack)))"
        using D True Inl by (simp add: split_beta t3_def st3_def)
      show ?thesis
      proof (cases "st3 = 0")
        case False
        with eq handled_keeps [OF k2 handled_sent [OF c2 s(1) uac_early_edges(4) [OF e2]]] show ?thesis
          by simp
      next
        case ok: True
        have k3: "keeps t2 t3" by (rule sent_by_keeps [OF s(1) s(2) [OF ok]])
        have "keeps t t3" using k2 k3 by (simp add: keeps_def)
        from handled_keeps [OF this proceeding_uac_complete_ok [OF keeps_core(1) [OF k3]
              uac_early_keeps [OF k3 e2]]] eq ok show ?thesis by simp
      qed
    qed
  qed
qed

lemma proceeding_uac_status_ok:
  assumes core: "tsx_core t" and st: "uac_early t" and env: "env_ok env"
  shows "handled t (fst (proceeding_uac_status env t ev))"
proof -
  note e = uac_early_edges [OF st]
  have a: "handled t (pj_assert False t)" using core e(4) by (simp add: handled_keep keeps_step)
  have p: "handled t (tsx_set_state t PJSIP_TSX_STATE_PROCEEDING ev)"
    using core e by (intro handled_set_state) auto
  show ?thesis
    unfolding proceeding_uac_status_def
    using a p proceeding_uac_2xx_ok [OF core st] handled_terminated [OF core]
      proceeding_uac_final_ok [OF core st env]
    by (auto split: pjsip_event.split tsx_timer_id.split)
qed

lemma proceeding_uac_ok:
  assumes core: "tsx_core t" and st: "uac_early t" and env: "env_ok env"
  shows "handled t (fst (tsx_on_state_proceeding_uac env t ev))"
proof -
  define t1 where "t1 = pj_assert (state t = PJSIP_TSX_STATE_PROCEEDING \<or> state t = PJSIP_TSX_STATE_CALLING) t"
  have k1: "keeps t t1" using core by (simp add: t1_def keeps_step)
  have c1: "tsx_core t1" by (rule keeps_core(1) [OF k1])
  note e1 = uac_early_keeps [OF k1 st]
  note T = uac_early_edges(4) [OF e1]
  have sc: "handled t1 (fst (proceeding_uac_status env (tsx_set_status_code t1 c) ev))" for c ev
  proof -
    have k: "keeps t1 (tsx_set_status_code t1 c)" using c1 by (simp add: keeps_step)
    show ?thesis
      by (rule handled_keeps [OF k proceeding_uac_status_ok [OF keeps_core(1) [OF k] uac_early_keeps [OF k e1] env]])
  qed
  have a: "handled t1 (pj_assert False t1)" using c1 T by (simp add: handled_keep keeps_step)
  have r: "handled t1 (fst (tsx_retransmit env t1 True))"
    by (rule handled_sent [OF c1 retransmit_ok [OF c1 env] T])
  have "handled t1 (fst (tsx_on_state_proceeding_uac env t ev))"
    unfolding tsx_on_state_proceeding_uac_def Let_def t1_def [symmetric]
    using sc a r by (auto split: pjsip_event.split tsx_timer_id.split sip_msg.split)
  with k1 show ?thesis by (rule handled_keeps)
qed

lemma calling_rx_timers_keeps: "tsx_core t \<Longrightarrow> keeps t (calling_rx_timers env code t)"
  by (simp add: calling_rx_timers_def Let_def keeps_step)

lemma calling_ok:
  assumes core: "tsx_core t" and st: "state t = PJSIP_TSX_STATE_CALLING" and env: "env_ok env"
  shows "handled t (fst (tsx_on_state_calling env t ev))"
proof -
  have role: "role t = PJSIP_ROLE_UAC" using core st by (cases "role t") (auto simp: tsx_inv_defs)
  have e: "uac_early t" using role st by (simp add: uac_early_def)
  note T = uac_early_edges(4) [OF e]
  have a: "handled t (pj_assert False t)" "handled t t" using core T by (simp_all add: handled_keep keeps_step)
  have r: "handled t (fst (tsx_retransmit env t True))"
    by (rule handled_sent [OF core retransmit_ok [OF core env] T])
  define t1 where "t1 = tsx_set_status_code
      (clear_flags {TSX_HAS_PENDING_RESCHED} (cancel_active_timer RETRANSMIT_TIMER t)) PJSIP_SC_TSX_TIMEOUT"
  have k1: "keeps t t1" using core by (simp add: t1_def keeps_step)
  have to: "handled t (tsx_set_state t1 PJSIP_TSX_STATE_TERMINATED ev)"
    by (rule handled_keeps [OF k1 handled_terminated [OF keeps_core(1) [OF k1]]])
  have rx: "handled t (fst (tsx_on_state_proceeding_uac env
      (clear_flags {TSX_HAS_PENDING_RESCHED} (calling_rx_timers env code t)) ev))" for code
  proof -
    have k: "keeps t (clear_flags {TSX_HAS_PENDING_RESCHED} (calling_rx_timers env code t))"
      using calling_rx_timers_keeps [OF core] by (simp add: keeps_step)
    show ?thesis
      by (rule handled_keeps [OF k proceeding_uac_ok [OF keeps_core(1) [OF k] uac_early_keeps [OF k e] env]])
  qed
  show ?thesis
    unfolding tsx_on_state_calling_def Let_def
    using st role a r to rx t1_def by (auto split: pjsip_event.split tsx_timer_id.split sip_msg.split)
qed

lemma completed_uac_ok:
  assumes core: "tsx_core t" and st: "state t = PJSIP_TSX_STATE_COMPLETED" and env: "env_ok env"
    and tm: "timed t \<or> ev = EV_TIMER TIMEOUT_TIMER"
  shows "handled t (fst (tsx_on_state_completed_uac env t ev))"
proof (cases "\<exists>w. ev = EV_TIMER w")
  case True
  then obtain w where w: "ev = EV_TIMER w" by blast
  have k: "keeps t (pj_assert (w = TIMEOUT_TIMER) t)" using core by (simp add: keeps_step)
  from handled_keeps [OF k handled_terminated [OF keeps_core(1) [OF k]]] st w show ?thesis
    by (simp add: tsx_on_state_completed_uac_def Let_def)
next
  case False
  then have T: "timed t" using tm by auto
  have a: "handled t (pj_assert False t)" "handled t t" "handled t (pj_assert False (pj_assert False t))"
    using core T by (simp_all add: handled_keep keeps_step)
  have r: "handled t (fst (tsx_retransmit env t False))"
    by (rule handled_sent [OF core retransmit_ok [OF core env] T])
  show ?thesis
    unfolding tsx_on_state_completed_uac_def Let_def
    using st False a r by (auto split: pjsip_event.split sip_msg.split)
qed

subsection \<open>Server\<close>

definition uas_early :: "pjsip_transaction \<Rightarrow> bool" where
  "uas_early t \<longleftrightarrow> role t = PJSIP_ROLE_UAS \<and>
     (state t = PJSIP_TSX_STATE_TRYING \<or> state t = PJSIP_TSX_STATE_PROCEEDING)"

lemma uas_early_edges:
  assumes "uas_early t"
  shows "tsx_edge (role t) (tsx_method t) (state t) PJSIP_TSX_STATE_PROCEEDING"
    "tsx_edge (role t) (tsx_method t) (state t) PJSIP_TSX_STATE_COMPLETED"
    "state t \<noteq> PJSIP_TSX_STATE_TERMINATED" "timed t"
  using assms by (auto simp: uas_early_def timed_early intro: tsx_edge.intros)

lemma uas_early_keeps: "keeps t u \<Longrightarrow> uas_early t \<Longrightarrow> uas_early u"
  by (auto simp: uas_early_def keeps_def)

lemma proceeding_uas_1xx_ok:
  assumes core: "tsx_core t" and st: "uas_early t"
  shows "handled t (proceeding_uas_1xx env t td)"
    "state (proceeding_uas_1xx env t td) = PJSIP_TSX_STATE_PROCEEDING"
proof -
  define t1 where "t1 = save_last_tx td t"
  define t2 where "t2 = tsx_set_state t1 PJSIP_TSX_STATE_PROCEEDING (EV_TX_MSG td)"
  define t3 where "t3 = (if PJSIP_TSX_1XX_RETRANS_DELAY > 0 \<and> tsx_method t2 = PJSIP_INVITE_METHOD \<and> status_code t2 > 100
         then start_retransmit (TimeVal PJSIP_TSX_1XX_RETRANS_DELAY 0)
                (cancel_active_timer RETRANSMIT_TIMER t2) else t2)"
  have eq: "proceeding_uas_1xx env t td = t3"
    by (simp add: proceeding_uas_1xx_def Let_def t1_def t2_def t3_def)
  have k1: "keeps t t1" using core by (simp add: t1_def keeps_step)
  note e = uas_early_edges [OF uas_early_keeps [OF k1 st]]
  have m2: "moves t1 t2" unfolding t2_def by (rule moves_set_state [OF keeps_core(1) [OF k1] e(1) _ e(3)]) simp
  then have k3: "keeps t2 t3" by (simp add: t3_def moves_def keeps_step)
  have s: "state t3 = PJSIP_TSX_STATE_PROCEEDING" using k3 by (simp add: keeps_def t2_def set_state_live)
  then show "state (proceeding_uas_1xx env t td) = PJSIP_TSX_STATE_PROCEEDING" by (simp add: eq)
  from s keeps_moves [OF k1 moves_keeps [OF m2 k3]] show "handled t (proceeding_uas_1xx env t td)"
    by (simp add: eq handled_def timed_def)
qed

lemma proceeding_uas_2xx_ok:
  assumes core: "tsx_core t" and st: "uas_early t"
  shows "handled t (proceeding_uas_2xx env t td)"
    "state (proceeding_uas_2xx env t td) \<noteq> PJSIP_TSX_STATE_TRYING"
proof -
  define t1 where "t1 = cancel_active_timer RETRANSMIT_TIMER t"
  define t2 where "t2 = (if tsx_method t1 = PJSIP_INVITE_METHOD
                    then start_retransmit (t1_timer_val env) t1 else t1)"
  define t3 where "t3 = save_last_tx td t2"
  define d where "d = (if tsx_method t3 = PJSIP_INVITE_METHOD then timeout_timer_val env
                          else if \<not> is_reliable t3 then timeout_timer_val env else zero_time)"
  define t4 where "t4 = activate_timer TIMEOUT_TIMER d t3"
  have eq: "proceeding_uas_2xx env t td =
    (if tsx_method t1 = PJSIP_INVITE_METHOD \<and> \<not> handle_200resp t1
     then tsx_set_state t1 PJSIP_TSX_STATE_TERMINATED (EV_TX_MSG td)
     else tsx_set_state t4 PJSIP_TSX_STATE_COMPLETED (EV_TX_MSG td))"
    unfolding proceeding_uas_2xx_def Let_def t1_def [symmetric] t2_def [symmetric] t3_def [symmetric]
      d_def [symmetric] t4_def [symmetric] by (rule refl)
  have k1: "keeps t t1" using core by (simp add: t1_def keeps_step)
  then have k4: "keeps t t4" by (simp add: t4_def t3_def t2_def keeps_step)
  note e = uas_early_edges [OF uas_early_keeps [OF k4 st]]
  have "handled t4 (tsx_set_state t4 PJSIP_TSX_STATE_COMPLETED (EV_TX_MSG td))"
    using e(2,3) keeps_core(1) [OF k4] by (intro handled_set_state) (simp_all add: t4_def)
  with eq handled_keeps [OF k1 handled_terminated [OF keeps_core(1) [OF k1]]] handled_keeps [OF k4]
  show "handled t (proceeding_uas_2xx env t td)" by simp
  show "state (proceeding_uas_2xx env t td) \<noteq> PJSIP_TSX_STATE_TRYING"
    using eq by (simp add: set_state_terminated set_state_live)
qed

lemma proceeding_uas_3xx_ok:
  assumes core: "tsx_core t" and st: "uas_early t"
  shows "handled t (proceeding_uas_3xx env t td m)"
    "state (proceeding_uas_3xx env t td m) = PJSIP_TSX_STATE_COMPLETED"
proof -
  define t1 where "t1 = save_last_tx td (cancel_active_timer RETRANSMIT_TIMER t)"
  define t2 where "t2 = (if tsx_method t1 = PJSIP_INVITE_METHOD
               then activate_timer TIMEOUT_TIMER (timeout_timer_val env) t1
               else if \<not> is_reliable t1
               then activate_timer TIMEOUT_TIMER (timeout_timer_val env) t1
               else activate_timer TIMEOUT_TIMER zero_time t1)"
  define t3 where "t3 = (if \<not> is_reliable t2 \<and> m = PJSIP_INVITE_METHOD
               then start_retransmit (t1_timer_val env) t2 else t2)"
  have eq: "proceeding_uas_3xx env t td m = tsx_set_state t3 PJSIP_TSX_STATE_COMPLETED (EV_TX_MSG td)"
    unfolding proceeding_uas_3xx_def Let_def t1_def [symmetric] t2_def [symmetric] t3_def [symmetric]
    by (rule refl)
  have k3: "keeps t t3" using core by (simp add: t3_def t2_def t1_def keeps_step)
  note e = uas_early_edges [OF uas_early_keeps [OF k3 st]]
  have "handled t3 (tsx_set_state t3 PJSIP_TSX_STATE_COMPLETED (EV_TX_MSG td))"
    using e(2,3) keeps_core(1) [OF k3] by (intro handled_set_state) (simp_all add: t3_def t2_def)
  with eq handled_keeps [OF k3] show "handled t (proceeding_uas_3xx env t td m)" by simp
  show "state (proceeding_uas_3xx env t td m) = PJSIP_TSX_STATE_COMPLETED"
    by (simp add: eq set_state_live)
qed

lemma proceeding_uas_tx_ok:
  assumes core: "tsx_core t" and st: "uas_early t" and env: "env_ok env"
  shows "handled t (fst (proceeding_uas_tx env t td))"
proof (cases "td_msg td")
  case (Request me)
  then show ?thesis
    using core uas_early_edges(4) [OF st] by (simp add: proceeding_uas_tx_def handled_keep keeps_step)
next
  case (Response code me)
  define t1 where "t1 = drop_other_last_tx td (tsx_set_status_code t code)"
  define t2 where "t2 = fst (tsx_send_msg env t1 (Some td))"
  define st2 where "st2 = snd (tsx_send_msg env t1 (Some td))"
  have k1: "keeps t t1" using core by (simp add: t1_def keeps_step)
  have c1: "tsx_core t1" by (rule keeps_core(1) [OF k1])
  note T = uas_early_edges(4) [OF uas_early_keeps [OF k1 st]]
  note s = tsx_send_msg_ok [OF c1 env, of "Some td", folded t2_def st2_def]
  have eq: "fst (proceeding_uas_tx env t td) =
     (if st2 \<noteq> PJ_SUCCESS then t2
      else if PJSIP_IS_STATUS_IN_CLASS (status_code t2) 100 then proceeding_uas_1xx env t2 td
      else if PJSIP_IS_STATUS_IN_CLASS (status_code t2) 200 then proceeding_uas_2xx env t2 td
      else if status_code t2 \<ge> 300 then proceeding_uas_3xx env t2 td me
      else pj_assert False t2)"
    using Response by (simp add: proceeding_uas_tx_def Let_def split_beta t1_def t2_def st2_def)
  show ?thesis
  proof (cases "st2 = 0")
    case False
    with eq handled_keeps [OF k1 handled_sent [OF c1 s(1) T]] show ?thesis by simp
  next
    case True
    have "keeps t1 t2" by (rule sent_by_keeps [OF s(1) s(2) [OF True]])
    with k1 have k2: "keeps t t2" by (simp add: keeps_def)
    have c2: "tsx_core t2" by (rule keeps_core(1) [OF k2])
    note e2 = uas_early_keeps [OF k2 st]
    have "handled t2 (pj_assert False t2)" using c2 uas_early_edges(4) [OF e2] by (simp add: handled_keep keeps_step)
    with handled_keeps [OF k2] proceeding_uas_1xx_ok(1) [OF c2 e2] proceeding_uas_2xx_ok(1) [OF c2 e2]
      proceeding_uas_3xx_ok(1) [OF c2 e2] eq True show ?thesis by simp
  qed
qed

lemma proceeding_uas_ok:
  assumes core: "tsx_core t" and st: "uas_early t" and env: "env_ok env"
  shows "handled t (fst (tsx_on_state_proceeding_uas env t ev))"
proof -
  have r: "role t = PJSIP_ROLE_UAS"
    "(state t = PJSIP_TSX_STATE_PROCEEDING \<or> state t = PJSIP_TSX_STATE_TRYING) = True"
    using st by (auto simp: uas_early_def)
  note T = uas_early_edges(4) [OF st]
  have a: "handled t (pj_assert False t)" using core T by (simp add: handled_keep keeps_step)
  have sf: "handled t (set_flag TSX_HAS_PENDING_SEND t)"
    if "TSX_HAS_PENDING_TRANSPORT \<in> transport_flag t"
  proof -
    have "timed (set_flag TSX_HAS_PENDING_SEND t)" using T by (simp add: timed_def)
    with that core show ?thesis by (simp add: handled_keep keeps_step)
  qed
  have snd: "handled t (fst (tsx_send_msg env t x))" for x
    by (rule handled_sent [OF core tsx_send_msg_ok(1) [OF core env] T])
  have rt: "handled t (fst (tsx_retransmit env u True))" if k: "keeps t u" for u
    by (rule handled_keeps [OF k handled_sent [OF keeps_core(1) [OF k]
          retransmit_ok [OF keeps_core(1) [OF k] env] uas_early_edges(4) [OF uas_early_keeps [OF k st]]]])
  have to: "handled t (tsx_set_state u PJSIP_TSX_STATE_TERMINATED ev)" if k: "keeps t u" for u ev
    by (rule handled_keeps [OF k handled_terminated [OF keeps_core(1) [OF k]]])
  have k: "keeps t (pj_assert b (pj_assert b' t))" "keeps t (tsx_set_status_code (pj_assert b t) c)" for b b' c
    using core by (simp_all add: keeps_step)
  show ?thesis
  proof (cases ev)
    case (EV_TIMER w)
    with r(1) r(2) rt [OF k(1)] to [OF k(2)] show ?thesis
      unfolding tsx_on_state_proceeding_uas_def Let_def r(2) pj_assert_True
      by (cases w) (simp_all only: pjsip_event.case tsx_timer_id.case fst_conv pj_assert_True simp_thms)
  next
    case (EV_RX_MSG m)
    with r a sf snd show ?thesis by (simp add: tsx_on_state_proceeding_uas_def Let_def)
  next
    case (EV_TX_MSG td)
    with r proceeding_uas_tx_ok [OF core st env] show ?thesis
      by (simp add: tsx_on_state_proceeding_uas_def Let_def)
  qed (use r a in \<open>simp_all add: tsx_on_state_proceeding_uas_def Let_def\<close>)
qed

lemma trying_ok:
  assumes core: "tsx_core t" and st: "state t = PJSIP_TSX_STATE_TRYING" and env: "env_ok env"
  shows "handled t (fst (tsx_on_state_trying env t ev))"
proof -
  have role: "role t = PJSIP_ROLE_UAS" using core st by (cases "role t") (auto simp: tsx_inv_defs)
  have e: "uas_early t" using role st by (simp add: uas_early_def)
  have same: "handled t t" using core uas_early_edges(4) [OF e] by (simp add: handled_keep)
  show ?thesis
  proof (cases "\<exists>td. ev = EV_TX_MSG td")
    case False
    with same st role show ?thesis
      by (auto simp: tsx_on_state_trying_def Let_def split: pjsip_event.split)
  next
    case True
    define u where "u = fst (tsx_on_state_proceeding_uas env t ev)"
    define s where "s = snd (tsx_on_state_proceeding_uas env t ev)"
    have h: "handled t u" unfolding u_def by (rule proceeding_uas_ok [OF core e env])
    have eq: "fst (tsx_on_state_trying env t ev) =
      (if s = PJ_SUCCESS \<and> state u = PJSIP_TSX_STATE_TRYING then tsx_set_state u PJSIP_TSX_STATE_PROCEEDING ev else u)"
      using True st role by (auto simp: tsx_on_state_trying_def Let_def split_beta u_def s_def)
    show ?thesis
    proof (cases "s = PJ_SUCCESS \<and> state u = PJSIP_TSX_STATE_TRYING")
      case False
      with h eq show ?thesis by auto
    next
      case ss: True
      then have k: "keeps t u" using h st by (simp add: handled_def moves_def keeps_def)
      note e2 = uas_early_edges [OF uas_early_keeps [OF k e]]
      have "handled u (tsx_set_state u PJSIP_TSX_STATE_PROCEEDING ev)"
        using keeps_core(1) [OF k] e2 by (intro handled_set_state) auto
      with handled_keeps [OF k] ss eq show ?thesis by simp
    qed
  qed
qed

lemma completed_uas_ack_ok:
  assumes core: "tsx_core t" and st: "state t = PJSIP_TSX_STATE_COMPLETED"
    and r: "role t = PJSIP_ROLE_UAS" "tsx_method t = PJSIP_INVITE_METHOD"
  shows "handled t (completed_uas_ack env t ev)"
proof -
  define t1 where "t1 = fst (pjsip_endpt_cancel_timer
      (clear_flags {TSX_HAS_PENDING_RESCHED} (cancel_active_timer RETRANSMIT_TIMER t)) TIMEOUT_TIMER)"
  define d where "d = (if \<not> is_reliable t1 then zero_time else t4_timer_val env)"
  define t2 where "t2 = activate_timer TIMEOUT_TIMER d t1"
  have eq: "completed_uas_ack env t ev = tsx_set_state t2 PJSIP_TSX_STATE_CONFIRMED ev"
    unfolding completed_uas_ack_def Let_def t1_def [symmetric] d_def [symmetric] t2_def [symmetric]
    by (rule refl)
  have k2: "keeps t t2" using core by (simp add: t2_def t1_def keeps_step)
  have "handled t2 (tsx_set_state t2 PJSIP_TSX_STATE_CONFIRMED ev)"
    using keeps_core [OF k2] st r
    by (intro handled_set_state) (simp_all add: t2_def edge_confirmed)
  with handled_keeps [OF k2] eq show ?thesis by simp
qed

lemma completed_uas_ok:
  assumes core: "tsx_core t" and st: "state t = PJSIP_TSX_STATE_COMPLETED" and env: "env_ok env"
    and role: "role t = PJSIP_ROLE_UAS" and tm: "timed t \<or> ev = EV_TIMER TIMEOUT_TIMER"
  shows "handled t (fst (tsx_on_state_completed_uas env t ev))"
proof -
  have k: "keeps t (tsx_set_status_code t PJSIP_SC_TSX_TIMEOUT)" using core by (simp add: keeps_step)
  have to: "handled t (tsx_set_state t PJSIP_TSX_STATE_TERMINATED ev)"
    "handled t (tsx_set_state (tsx_set_status_code t PJSIP_SC_TSX_TIMEOUT) PJSIP_TSX_STATE_TERMINATED ev)"
    using handled_terminated [OF core] handled_keeps [OF k handled_terminated [OF keeps_core(1) [OF k]]]
    by auto
  show ?thesis
  proof (cases "ev = EV_TIMER TIMEOUT_TIMER")
    case True
    with to st show ?thesis by (simp add: tsx_on_state_completed_uas_def Let_def)
  next
    case False
    then have T: "timed t" using tm by simp
    have a: "handled t (pj_assert False t)" "handled t t" using core T by (simp_all add: handled_keep keeps_step)
    have r: "handled t (fst (tsx_retransmit env t b))" for b
      by (rule handled_sent [OF core retransmit_ok [OF core env] T])
    show ?thesis
      using a r False st completed_uas_ack_ok [OF core st role]
      by (auto simp: tsx_on_state_completed_uas_def Let_def
          split: pjsip_event.split tsx_timer_id.split sip_msg.split)
  qed
qed

lemma confirmed_ok:
  assumes core: "tsx_core t" and st: "state t = PJSIP_TSX_STATE_CONFIRMED"
    and tm: "timed t \<or> ev = EV_TIMER TIMEOUT_TIMER"
  shows "handled t (fst (tsx_on_state_confirmed env t ev))"
proof -
  have rm: "role t = PJSIP_ROLE_UAS" "tsx_method t = PJSIP_INVITE_METHOD"
    using core st by (cases "role t"; auto simp: tsx_inv_defs)+
  have to: "handled t (tsx_set_state (pj_assert b t) PJSIP_TSX_STATE_TERMINATED ev)" for b
  proof -
    have k: "keeps t (pj_assert b t)" using core by (simp add: keeps_step)
    show ?thesis by (rule handled_keeps [OF k handled_terminated [OF keeps_core(1) [OF k]]])
  qed
  have a: "handled t (pj_assert b t)" if "timed t" for b
    using core that by (simp add: handled_keep keeps_step)
  show ?thesis
    using st rm to a [of False] a [of True] a tm
    by (auto simp: tsx_on_state_confirmed_def Let_def split: pjsip_event.split sip_msg.split)
qed

section \<open>Steps and runs\<close>

text \<open>
  The events the rest of the program delivers to a transaction, and the step each makes.  A
  transaction that has been freed takes no step.  A timer fires only while it is scheduled, and
  the timer heap has removed its entry before it calls back.  A failure reported by the
  transport for a message already handed over (\<open>transport_callback\<close>) is delivered before the
  transaction is destroyed: the code has no guard of its own there.
\<close>

datatype tsx_event = E_Send "tdata option" | E_Recv sip_msg | E_Timer tsx_timer_id
  | E_SendCallback tdata send_result | E_TransportCallback int | E_TpState bool
  | E_Terminate int | E_StopRetransmit | E_SetTimeout u32 | E_RetransmitNoState "tdata option"

definition timer_fired :: "tsx_timer_id \<Rightarrow> pjsip_transaction \<Rightarrow> pjsip_transaction" where
  "timer_fired w t = set_timer w ((timer_of w t)\<lparr>tt_delay := None\<rparr>) t"

inductive tsx_step :: "tsx_env \<Rightarrow> pjsip_transaction \<Rightarrow> tsx_event \<Rightarrow> pjsip_transaction \<Rightarrow> bool"
  for env where
  step_send: "tsx_step env t (E_Send x) (fst (pjsip_tsx_send_msg env t x))" if "\<not> released t"
| step_recv: "tsx_step env t (E_Recv m) (pjsip_tsx_recv_msg env t m)" if "\<not> released t"
| step_timer: "tsx_step env t (E_Timer w) (tsx_timer_callback env (timer_fired w t) w)"
    if "\<not> released t" "tt_delay (timer_of w t) \<noteq> None"
| step_send_callback: "tsx_step env t (E_SendCallback td r) (fst (send_msg_callback env td r t))"
    if "\<not> released t" "sr_sent r \<noteq> 0"
| step_transport_callback: "tsx_step env t (E_TransportCallback sent) (transport_callback t sent)"
    if "\<not> released t" "state t \<noteq> PJSIP_TSX_STATE_DESTROYED"
| step_tp_state: "tsx_step env t (E_TpState b) (tsx_tp_state_callback t b)" if "\<not> released t"
| step_terminate: "tsx_step env t (E_Terminate code) (fst (pjsip_tsx_terminate t code))"
    if "\<not> released t"
| step_stop: "tsx_step env t E_StopRetransmit (fst (pjsip_tsx_stop_retransmit t))" if "\<not> released t"
| step_set_timeout: "tsx_step env t (E_SetTimeout ms) (fst (pjsip_tsx_set_timeout t ms))"
    if "\<not> released t"
| step_retransmit: "tsx_step env t (E_RetransmitNoState x) (fst (pjsip_tsx_retransmit_no_state env t x))"
    if "\<not> released t"

inductive_cases tsx_step_releasedE: "tsx_step env t e t'"

inductive tsx_run :: "tsx_env \<Rightarrow> pjsip_transaction \<Rightarrow> tsx_event list \<Rightarrow> pjsip_transaction \<Rightarrow> bool"
  for env where
  run_nil: "tsx_run env t [] t"
| run_cons: "tsx_run env t (e # es) t''" if "tsx_step env t e t'" and "tsx_run env t' es t''"

inductive_simps tsx_run_nil [simp]: "tsx_run env t [] t'"
inductive_simps tsx_run_Cons: "tsx_run env t (e # es) t'"

lemma tsx_released_stays: "tsx_step env t e t' \<Longrightarrow> \<not> released t"
  by (erule tsx_step_releasedE) auto

subsection \<open>What a step preserves\<close>

text \<open>The result of a step on a transaction that was not destroyed before.\<close>

definition steps_ok :: "pjsip_transaction \<Rightarrow> pjsip_transaction \<Rightarrow> bool" where
  "steps_ok t t' \<longleftrightarrow> tsx_ok t' \<and>
     tsx_edge (role t) (tsx_method t) (state t) (state t') \<and> timed t'"

lemma handled_steps_ok: "handled t t' \<Longrightarrow> steps_ok t t'"
  by (simp add: handled_def moves_def steps_ok_def tsx_ok_def)

lemma steps_ok_keeps: "keeps t u \<Longrightarrow> steps_ok u v \<Longrightarrow> steps_ok t v"
  by (simp add: keeps_def steps_ok_def)

lemma destroyed_facts:
  "tsx_dying t \<Longrightarrow> state t = PJSIP_TSX_STATE_DESTROYED" "tsx_freed t \<Longrightarrow> state t = PJSIP_TSX_STATE_DESTROYED"
  by (simp_all add: tsx_dying_def tsx_freed_def)

lemma terminated_ok:
  assumes core: "tsx_core t" and st: "state t = PJSIP_TSX_STATE_TERMINATED"
  shows "steps_ok t (fst (tsx_on_state_terminated env t ev))"
proof -
  define t1 where "t1 = pj_assert (case ev of EV_TIMER w \<Rightarrow> True | _ \<Rightarrow> False) t"
  have k1: "keeps t t1" using core by (simp add: t1_def keeps_step)
  have b1: "tsx_base t1" using keeps_core(1) [OF k1] by (simp add: tsx_core_def)
  have "tsx_ok (tsx_set_state t1 PJSIP_TSX_STATE_DESTROYED ev) \<and>
      state (tsx_set_state t1 PJSIP_TSX_STATE_DESTROYED ev) = PJSIP_TSX_STATE_DESTROYED"
    using set_state_destroyed [OF b1, of ev] destroyed_facts
    by (auto simp: tsx_ok_def split: if_splits)
  then have "steps_ok t (tsx_set_state t1 PJSIP_TSX_STATE_DESTROYED ev)"
    using st by (simp add: steps_ok_def timed_def edge_destroyed)
  then show ?thesis using st by (simp add: tsx_on_state_terminated_def Let_def t1_def)
qed

lemma call_handler_ok:
  assumes core: "tsx_core t" and env: "env_ok env" and tm: "timed t \<or> ev = EV_TIMER TIMEOUT_TIMER"
  shows "steps_ok t (fst (call_state_handler env t ev))"
proof -
  have h: "state_handler t = tsx_handler_for (role t) (state t)" "state_of_role t (state t)"
    using core by (simp_all add: tsx_core_def tsx_base_def)
  have nd: "state t \<noteq> PJSIP_TSX_STATE_DESTROYED" using core by (simp add: tsx_core_def)
  show ?thesis
  proof (cases "role t")
    case PJSIP_ROLE_UAC
    then have uac: "uac_early t" if "state t = PJSIP_TSX_STATE_PROCEEDING"
      using that by (simp add: uac_early_def)
    show ?thesis
      using PJSIP_ROLE_UAC h nd null_ok [OF core env] calling_ok [OF core _ env]
        proceeding_uac_ok [OF core uac env] completed_uac_ok [OF core _ env tm]
        confirmed_ok [OF core _ tm] terminated_ok [OF core]
      by (cases "state t") (simp_all add: call_state_handler_def tsx_handler_for_def
          tsx_state_handler_uac_def state_of_role_def handled_steps_ok)
  next
    case PJSIP_ROLE_UAS
    then have uas: "uas_early t" if "state t = PJSIP_TSX_STATE_PROCEEDING"
      using that by (simp add: uas_early_def)
    show ?thesis
      using PJSIP_ROLE_UAS h nd null_ok [OF core env] trying_ok [OF core _ env]
        proceeding_uas_ok [OF core uas env] completed_uas_ok [OF core _ env _ tm]
        confirmed_ok [OF core _ tm] terminated_ok [OF core]
      by (cases "state t") (simp_all add: call_state_handler_def tsx_handler_for_def
          tsx_state_handler_uas_def state_of_role_def handled_steps_ok)
  qed
qed

text \<open>A step that only adds a neutral action to the result.\<close>

lemma freed_emit: "tsx_freed t \<Longrightarrow> tp_neutral a \<Longrightarrow> tsx_freed (emit a t)"
  by (simp add: tsx_freed_def refs_ok_def)

lemma dying_emit: "tsx_dying t \<Longrightarrow> tp_neutral a \<Longrightarrow> tsx_dying (emit a t)"
  by (simp add: tsx_dying_def base_step)

lemma steps_ok_emit: "steps_ok t u \<Longrightarrow> tp_neutral a \<Longrightarrow> steps_ok t (emit a u)"
  by (auto simp: steps_ok_def tsx_ok_def core_step freed_emit dying_emit timed_def)

lemma timer_fired_fields:
  "state (timer_fired w t) = state t" "role (timer_fired w t) = role t"
  "tsx_method (timer_fired w t) = tsx_method t"
  by (cases w; simp add: timer_fired_def)+

lemma fired_core:
  assumes "tsx_core t"
  shows "tsx_core (set_timer_id w 0 (timer_fired w t))"
  using assms
  by (cases w) (simp_all add: timer_fired_def set_timer_id_def tsx_inv_defs timer_ok_def tp_refs_def tp_listeners_def)

lemma fired_timed:
  "timed t \<Longrightarrow> timed (set_timer_id RETRANSMIT_TIMER 0 (timer_fired RETRANSMIT_TIMER t))"
  by (simp add: timer_fired_def set_timer_id_def timed_def)

end
