(* ===== verification/Sip_tsx_run.thy ===== *)
theory Sip_tsx_run
  imports Sip_tsx_machine
begin

text \<open>
  Steps and runs of a transaction: every step keeps the invariant and follows the abstract
  machine; from creation on, every run is safe, and a terminated transaction is destroyed and
  freed by the events that are still to come.
\<close>

section \<open>Every step keeps the invariant\<close>

text \<open>
  A live transaction first, one lemma per event that does not go to the state handler.
\<close>

lemma nested_send_ok:
  assumes "tsx_core u" "TSX_HAS_RESOLVED_SERVER \<in> transport_flag u"
  shows "sends u (fst (tsx_send_msg env u x))"
  unfolding tsx_send_msg_def by (rule send_resolved_sends [OF assms])

lemma handled_same: "tsx_core t \<Longrightarrow> timed t \<Longrightarrow> handled t t"
  by (simp add: handled_keep)

lemma send_callback_ok:
  assumes "tsx_core t" "timed t"
  shows "handled t (fst (send_msg_callback env td r t))"
  unfolding send_msg_callback_def
  by (rule handled_sent [OF assms(1) sends_sent_by assms(2)])
    (rule callback_sends [where send = "tsx_send_msg env", OF assms(1) nested_send_ok])

lemma transport_callback_ok:
  assumes "tsx_core t" "timed t"
  shows "handled t (transport_callback t sent)"
proof -
  define u where "u = tsx_set_status_code
     (tsx_update_transport (t\<lparr>transport_err := - sent\<rparr>) None) PJSIP_SC_TSX_TRANSPORT_ERROR"
  have "keeps t u"
    using assms(1) by (simp add: u_def keeps_def core_step core_update_transport)
  then have "handled t (tsx_set_state u PJSIP_TSX_STATE_TERMINATED EV_TRANSPORT_ERROR)"
    using handled_keeps handled_terminated keeps_core(1) by blast
  with assms show ?thesis by (simp add: transport_callback_def Let_def u_def handled_same)
qed

lemma handled_set_status_terminated:
  assumes "tsx_core t"
  shows "handled t (tsx_set_state (tsx_set_status_code t c) PJSIP_TSX_STATE_TERMINATED ev)"
proof -
  have k: "keeps t (tsx_set_status_code t c)" using assms by (simp add: keeps_step)
  show ?thesis by (rule handled_keeps [OF k handled_terminated [OF keeps_core(1) [OF k]]])
qed

lemma tp_state_callback_ok:
  assumes "tsx_core t" "timed t"
  shows "handled t (tsx_tp_state_callback t b)"
  using assms handled_set_status_terminated [OF assms(1)]
  by (simp add: tsx_tp_state_callback_def handled_same)

lemma timed_assert_same: "tsx_core t \<Longrightarrow> timed t \<Longrightarrow> handled t (pj_assert b t)"
  by (simp add: handled_keep keeps_step)

lemma terminate_ok:
  assumes "tsx_core t" "timed t"
  shows "handled t (fst (pjsip_tsx_terminate t code))"
  using assms handled_set_status_terminated [OF assms(1)]
  by (simp add: pjsip_tsx_terminate_def handled_same timed_assert_same del: tsx_state_order)

lemma stop_retransmit_ok:
  assumes "tsx_core t" "timed t"
  shows "handled t (fst (pjsip_tsx_stop_retransmit t))"
proof -
  have "handled t (cancel_active_timer RETRANSMIT_TIMER t)"
    using assms by (intro handled_keep) (simp_all add: keeps_step timed_def)
  with assms show ?thesis by (simp add: pjsip_tsx_stop_retransmit_def timed_assert_same)
qed

lemma set_timeout_ok:
  assumes "tsx_core t" "timed t"
  shows "handled t (fst (pjsip_tsx_set_timeout t ms))"
proof -
  have "handled t (activate_timer TIMEOUT_TIMER d (cancel_active_timer TIMEOUT_TIMER t))" for d
    using assms by (intro handled_keep) (simp_all add: keeps_step timed_def)
  with assms show ?thesis
    by (simp add: pjsip_tsx_set_timeout_def Let_def timed_assert_same handled_same)
qed

lemma handled_emit: "handled t u \<Longrightarrow> tp_neutral a \<Longrightarrow> handled t (emit a u)"
  by (simp add: handled_def moves_def core_step timed_def)

lemma retransmit_no_state_ok:
  assumes "tsx_core t" "timed t" "env_ok env"
  shows "handled t (fst (pjsip_tsx_retransmit_no_state env t x))"
proof -
  have "handled t (fst (tsx_send_msg env t y))" for y
    by (rule handled_sent [OF assms(1) tsx_send_msg_ok(1) [OF assms(1,3)] assms(2)])
  then show ?thesis
    by (simp add: pjsip_tsx_retransmit_no_state_def Let_def split_beta handled_emit split: option.split)
qed

lemma fst_send_msg:
  "fst (pjsip_tsx_send_msg env t x) =
    (case (if x = None then last_tx t else x) of None \<Rightarrow> pj_assert False t
     | Some td \<Rightarrow> if snd (call_state_handler env t (EV_TX_MSG td)) = PJ_SUCCESS
         then emit (A_TdDecRef (td_ptr td)) (fst (call_state_handler env t (EV_TX_MSG td)))
         else fst (call_state_handler env t (EV_TX_MSG td)))"
  by (simp add: pjsip_tsx_send_msg_def Let_def split_beta split: option.split)

lemma core_step_ok:
  assumes step: "tsx_step env t e t'" and core: "tsx_core t" and tm: "timed t" and env: "env_ok env"
  shows "steps_ok t t'"
  using step
proof cases
  case (step_send x)
  have a: "steps_ok t (pj_assert False t)"
    by (rule handled_steps_ok [OF timed_assert_same [OF core tm]])
  have "steps_ok t (fst (call_state_handler env t (EV_TX_MSG td)))" for td
    using call_handler_ok [OF core env] tm by blast
  then show ?thesis
    using a step_send by (simp add: fst_send_msg steps_ok_emit split: option.split)
next
  case (step_recv m)
  then show ?thesis using call_handler_ok [OF core env] tm by (simp add: pjsip_tsx_recv_msg_def)
next
  case (step_timer w)
  define u where "u = set_timer_id w 0 (timer_fired w t)"
  have f: "state u = state t" "role u = role t" "tsx_method u = tsx_method t"
    by (cases w; simp add: u_def set_timer_id_def timer_fired_def)+
  have "timed u \<or> EV_TIMER w = EV_TIMER TIMEOUT_TIMER"
    using fired_timed [OF tm] by (cases w) (simp_all add: u_def)
  from call_handler_ok [OF fired_core [OF core] env this [unfolded u_def]]
  have "steps_ok u t'" using step_timer by (simp add: tsx_timer_callback_def u_def)
  with f show ?thesis by (simp add: steps_ok_def)
qed (simp_all add: handled_steps_ok send_callback_ok transport_callback_ok tp_state_callback_ok
      terminate_ok stop_retransmit_ok set_timeout_ok retransmit_no_state_ok core tm env)

text \<open>A destroyed transaction that waits for its send callback.\<close>

lemma dying_step:
  assumes "tsx_dying t"
  shows "tsx_dying (pj_assert b t)" "tsx_dying (activate_timer w d t)"
    "tsx_dying (cancel_active_timer w t)" "tsx_dying (set_flag f t)"
  using assms by (simp_all add: tsx_dying_def base_step)

lemma fired_dying: "tsx_dying t \<Longrightarrow> tsx_dying (set_timer_id w 0 (timer_fired w t))"
  by (cases w) (simp_all add: timer_fired_def set_timer_id_def tsx_dying_def tsx_base_def
      state_of_role_def pending_ok_def refs_ok_def timer_ok_def tp_refs_def tp_listeners_def)

lemma dying_handler: "tsx_dying t \<Longrightarrow> call_state_handler env t ev = (pj_assert False t, PJ_EBUG)"
  by (cases "role t") (simp_all add: tsx_dying_def tsx_base_def call_state_handler_def
      tsx_handler_for_def tsx_state_handler_uac_def tsx_state_handler_uas_def
      tsx_on_state_destroyed_def)

lemma freed_after_callback:
  assumes "tsx_base t" "TSX_HAS_PENDING_TRANSPORT \<notin> transport_flag t"
  shows "tsx_ok (tsx_set_state t PJSIP_TSX_STATE_DESTROYED ev)"
  using set_state_destroyed [OF assms(1), of ev] assms(2) by (simp add: tsx_ok_def)

lemma more_actions:
  "length (actions t) \<le> length (actions (tsx_update_transport t x))"
  "length (actions t) \<le> length (actions (pj_assert b t))"
  "actions (set_flag fl t) = actions t" "actions (clear_flags fs t) = actions t"
  "actions (tsx_set_status_code t sc) = actions t"
  by (simp_all add: tsx_update_transport_def Let_def emit_def pj_assert_def set_flag_def clear_flags_def
      tsx_set_status_code_def split: option.split)

lemma dying_callback_destroys:
  assumes d: "tsx_dying t" and a: "td_ptr td \<in> attached t"
  obtains u ev where "fst (send_msg_callback env td r t) = tsx_set_state u PJSIP_TSX_STATE_DESTROYED ev"
    "tsx_base u" "TSX_HAS_PENDING_TRANSPORT \<notin> transport_flag u" "length (actions t) \<le> length (actions u)"
proof -
  define t1 where "t1 = t\<lparr>attached := attached t - {td_ptr td}, pending_tx := None\<rparr>"
  have b1: "tsx_base t1" and f1: "state t1 = PJSIP_TSX_STATE_DESTROYED"
    "TSX_HAS_PENDING_DESTROY \<in> transport_flag t1" "pending_tx t1 = None"
    using d a by (auto simp: t1_def tsx_dying_def tsx_base_def state_of_role_def pending_ok_def
        refs_ok_def split: option.splits)
  have eq: "fst (send_msg_callback env td r t) =
    (if sr_sent r > 0 then callback_sent_with (tsx_send_msg env) env r t1 else callback_failed env td r t1)"
    using a by (simp add: send_msg_callback_def callback_halves t1_def)
  define t2 where "t2 = pj_assert (sr_transport r \<noteq> None) t1"
  define t3 where "t3 = (if transport t2 \<noteq> sr_transport r then
      (tsx_update_transport t2 (sr_transport r))
        \<lparr>is_reliable := (case transport (tsx_update_transport t2 (sr_transport r)) of None \<Rightarrow> False
            | Some tp \<Rightarrow> tp_reliable env tp)\<rparr> else t2)"
  have b3: "tsx_base t3" "TSX_HAS_PENDING_DESTROY \<in> transport_flag t3" "pending_tx t3 = None"
    using b1 f1 by (simp_all add: t3_def t2_def base_step base_update_transport)
  have s: "callback_sent_with (tsx_send_msg env) env r t1 = tsx_set_state
     (set_flag TSX_HAS_RESOLVED_SERVER (clear_flags {TSX_HAS_PENDING_TRANSPORT} t3))
       PJSIP_TSX_STATE_DESTROYED EV_UNKNOWN"
    unfolding callback_sent_with_def Let_def t2_def [symmetric] t3_def [symmetric]
    using b3 by simp
  define t4 where "t4 = pj_assert (sr_sent r \<noteq> 0) t1"
  define t5 where "t5 = (if sr_transport r = transport t4 then tsx_update_transport t4 None else t4)"
  have b5: "tsx_base t5" "TSX_HAS_PENDING_DESTROY \<in> transport_flag t5" "pending_tx t5 = None"
    "state t5 = PJSIP_TSX_STATE_DESTROYED"
    using b1 f1 by (simp_all add: t5_def t4_def base_step base_update_transport)
  obtain sc where f: "callback_failed env td r t1 = tsx_set_state (tsx_set_status_code
      (set_flag TSX_HAS_RESOLVED_SERVER (clear_flags {TSX_HAS_PENDING_TRANSPORT}
         (t5\<lparr>transport_err := - sr_sent r\<rparr>))) sc) PJSIP_TSX_STATE_DESTROYED EV_TRANSPORT_ERROR"
    unfolding callback_failed_def Let_def t4_def [symmetric] t5_def [symmetric]
    using b5 by simp
  have "tsx_base (set_flag TSX_HAS_RESOLVED_SERVER (clear_flags {TSX_HAS_PENDING_TRANSPORT} t3))"
    "tsx_base (tsx_set_status_code (set_flag TSX_HAS_RESOLVED_SERVER
       (clear_flags {TSX_HAS_PENDING_TRANSPORT} (t5\<lparr>transport_err := - sr_sent r\<rparr>))) sc)"
    using b3 b5 by (auto simp: tsx_base_def state_of_role_def pending_ok_def refs_ok_def)
  moreover have l: "actions t1 = actions t" by (simp add: t1_def)
  moreover have "length (actions t1) \<le> length (actions t2)" "length (actions t1) \<le> length (actions t4)"
    unfolding t2_def t4_def by (rule more_actions)+
  then have "length (actions t1) \<le> length (actions t3)" "length (actions t1) \<le> length (actions t5)"
    by (simp_all add: t3_def t5_def order_trans [OF _ more_actions(1)])
  ultimately show thesis
    using that eq by (cases "sr_sent r > 0") (fastforce simp: f s more_actions)+
qed

lemma dying_callback:
  assumes "tsx_dying t" "td_ptr td \<in> attached t"
  shows "tsx_freed (fst (send_msg_callback env td r t))"
proof -
  obtain u ev where u: "fst (send_msg_callback env td r t) = tsx_set_state u PJSIP_TSX_STATE_DESTROYED ev"
    "tsx_base u" "TSX_HAS_PENDING_TRANSPORT \<notin> transport_flag u"
    by (rule dying_callback_destroys [OF assms])
  then show ?thesis using set_state_destroyed [of u ev] by simp
qed

text \<open>
  It keeps waiting for the buffers attached to it, whatever else happens, and attaches no new one.
\<close>

lemma dying_stays:
  assumes step: "tsx_step env t e t'" and d: "tsx_dying t"
    and other: "\<And>td r. e = E_SendCallback td r \<Longrightarrow> td_ptr td \<notin> attached t"
  shows "tsx_dying t' \<and> attached t' = attached t"
  using step
proof cases
  case (step_send x)
  then show ?thesis using d by (simp add: fst_send_msg dying_handler dying_step split: option.split)
next
  case (step_recv m)
  then show ?thesis using d by (simp add: pjsip_tsx_recv_msg_def dying_handler dying_step)
next
  case (step_timer w)
  have "attached (set_timer_id w 0 (timer_fired w t)) = attached t"
    by (cases w) (simp_all add: timer_fired_def set_timer_id_def)
  then show ?thesis using step_timer fired_dying [OF d, of w]
    by (simp add: tsx_timer_callback_def dying_handler dying_step)
next
  case (step_send_callback r td)
  then show ?thesis using other d by (simp add: send_msg_callback_def callback_halves)
next
  case (step_transport_callback sent)
  then show ?thesis using d by (simp add: tsx_dying_def)
next
  case (step_tp_state b)
  then show ?thesis using d by (simp add: tsx_tp_state_callback_def tsx_dying_def)
next
  case (step_terminate code)
  then show ?thesis using d dying_step(1) [OF d] by (simp add: pjsip_tsx_terminate_def destroyed_facts)
next
  case step_stop
  then show ?thesis using d by (simp add: pjsip_tsx_stop_retransmit_def dying_step)
next
  case (step_set_timeout ms)
  then show ?thesis using d by (simp add: pjsip_tsx_set_timeout_def Let_def dying_step)
next
  case (step_retransmit x)
  have p: "TSX_HAS_PENDING_TRANSPORT \<in> transport_flag t" using d by (simp add: tsx_dying_def)
  then have "tsx_dying (fst (tsx_send_msg env t y)) \<and> attached (fst (tsx_send_msg env t y)) = attached t" for y
    using d by (simp add: tsx_send_msg_def tsx_send_msg_with_def dying_step split: option.split)
  then show ?thesis using step_retransmit
    by (simp add: pjsip_tsx_retransmit_no_state_def Let_def split_beta dying_emit split: option.split)
qed

lemma dying_step_ok:
  assumes step: "tsx_step env t e t'" and d: "tsx_dying t"
  shows "tsx_ok t' \<and> state t' = PJSIP_TSX_STATE_DESTROYED"
proof (cases "\<exists>td r. e = E_SendCallback td r \<and> td_ptr td \<in> attached t")
  case True
  with step dying_callback [OF d] have "tsx_freed t'" by (auto elim!: tsx_step_releasedE)
  then show ?thesis by (simp add: tsx_ok_def destroyed_facts)
next
  case False
  with dying_stays [OF step d] have "tsx_dying t'" by blast
  then show ?thesis by (simp add: tsx_ok_def destroyed_facts)
qed


theorem step_ok:
  assumes step: "tsx_step env t e t'" and ok: "tsx_ok t" and tm: "timed t" and env: "env_ok env"
  shows "steps_ok t t'"
proof -
  from ok consider "tsx_core t" | "tsx_dying t" | "tsx_freed t" by (auto simp: tsx_ok_def)
  then show ?thesis
  proof cases
    case 1
    from core_step_ok [OF step 1 tm env] show ?thesis .
  next
    case 2
    from dying_step_ok [OF step 2] 2 show ?thesis
      by (simp add: steps_ok_def timed_def destroyed_facts edge_stay)
  next
    case 3
    with tsx_released_stays [OF step] show ?thesis by (simp add: tsx_freed_def)
  qed
qed

section \<open>Runs from creation\<close>

inductive tsx_created :: "tsx_env \<Rightarrow> pjsip_transaction \<Rightarrow> bool" for env where
  created_uac: "tsx_created env t"
    if "pjsip_tsx_create_uac user td has_cseq dest reg = (Some t, PJ_SUCCESS)"
| created_uas: "tsx_created env t"
    if "pjsip_tsx_create_uas env user m has_cseq has_via cseq_method key res_addr reg = (Some t, PJ_SUCCESS)"

lemma create_core: "tsx_base (tsx_create user\<lparr>role := r, tsx_method := m,
    state := PJSIP_TSX_STATE_NULL, state_handler := Some on_state_null\<rparr>)"
  by (simp add: tsx_create_def tsx_base_def tsx_handler_for_def tsx_state_handler_uac_def
      tsx_state_handler_uas_def state_of_role_def timer_ok_def pending_ok_def refs_ok_def
      tp_refs_def tp_listeners_def)

lemma create_flags [simp]: "transport_flag (tsx_create user) = {}"
  by (simp add: tsx_create_def)

lemma created_ok:
  assumes "tsx_created env t"
  shows "tsx_core t" "timed t" "state t = PJSIP_TSX_STATE_NULL"
proof -
  have "tsx_core t \<and> state t = PJSIP_TSX_STATE_NULL"
    using assms
  proof cases
    case created_uac
    then show ?thesis
      using create_core [of _ PJSIP_ROLE_UAC]
      by (auto simp: pjsip_tsx_create_uac_def Let_def tsx_core_def send_flag_ok_def base_step
          split: sip_msg.splits if_splits)
  next
    case created_uas
    then show ?thesis
      using create_core [of _ PJSIP_ROLE_UAS]
      by (auto simp: pjsip_tsx_create_uas_def Let_def tsx_core_def send_flag_ok_def base_step
          base_update_transport
          split: sip_msg.splits if_splits prod.splits option.splits)
  qed
  then show "tsx_core t" "timed t" "state t = PJSIP_TSX_STATE_NULL" by (simp_all add: timed_def)
qed

lemma run_ok:
  assumes "tsx_run env t es t'" "env_ok env" "tsx_ok t" "timed t"
  shows "tsx_ok t' \<and> timed t' \<and> state t \<le> state t'"
  using assms
proof (induction rule: tsx_run.induct)
  case (run_nil t)
  then show ?case by simp
next
  case (run_cons t e t' es t'')
  then have "steps_ok t t'" using step_ok by blast
  with run_cons show ?case by (auto simp: steps_ok_def dest: tsx_edge_mono)
qed

lemma ok_handler: "tsx_ok t \<Longrightarrow> \<not> released t \<Longrightarrow> state_handler t \<noteq> None"
  by (cases "state t"; cases "role t")
    (auto simp: tsx_ok_def tsx_core_def tsx_dying_def tsx_freed_def tsx_base_def state_of_role_def tsx_handler_for_def
      tsx_state_handler_uac_def tsx_state_handler_uas_def)

lemma ok_refs: "tsx_ok t \<Longrightarrow> refs_ok t"
  by (auto simp: tsx_ok_def tsx_core_def tsx_dying_def tsx_freed_def tsx_base_def)

definition ex_env :: tsx_env where
  "ex_env = \<lparr>cfg_t1 = 500, cfg_t2 = 4000, cfg_t4 = 5000, cfg_td = 32000,
     tp_reliable = (\<lambda>p. p = 2), transport_send = (\<lambda>as tp td. if tp = 3 then 120001 else PJ_SUCCESS),
     stateless_send = (\<lambda>as td. ([\<lparr>sr_sent = 400, sr_transport = Some 1, sr_cont = False\<rparr>], PJ_SUCCESS)),
     send_response = (\<lambda>as tp td. ([\<lparr>sr_sent = 400, sr_transport = Some 1, sr_cont = False\<rparr>], PJ_SUCCESS)),
     create_ack = (\<lambda>td m. Inl \<lparr>td_ptr = 9, td_msg = Request PJSIP_ACK_METHOD\<rparr>)\<rparr>"

lemma ex_env_ok: "env_ok ex_env"
  by (simp add: env_ok_def ex_env_def)

definition ex_user :: "pjsip_module option" where
  "ex_user = Some \<lparr>on_rx_response = True, on_tsx_state = True\<rparr>"

definition ex_invite :: tdata where
  "ex_invite = \<lparr>td_ptr = 1, td_msg = Request PJSIP_INVITE_METHOD\<rparr>"

definition ex_uac :: pjsip_transaction where
  "ex_uac = the (fst (pjsip_tsx_create_uac ex_user ex_invite True (PJ_SUCCESS, False) PJ_SUCCESS))"

definition ex_calling :: pjsip_transaction where
  "ex_calling = fst (pjsip_tsx_send_msg ex_env ex_uac None)"


text \<open>
  C1: From its creation on, whatever sequence of sends, receptions, timer expiries, send and
  transport callbacks and user calls a transaction gets, it keeps its invariant: the state
  handler is never NULL, the transaction holds one reference and one listener on exactly its
  current transport, the timeout timer is scheduled in Completed, Confirmed and Terminated, and
  once the transaction has been freed nothing refers to it any more: no scheduled timer, no
  transport listener, no transmit buffer.
\<close>

theorem tsx_run_safe:
  assumes "tsx_created env t0" "env_ok env" "tsx_run env t0 es t"
  shows "tsx_ok t \<and> (\<not> released t \<longrightarrow> state_handler t \<noteq> None) \<and>
    (\<forall>p. tp_refs t p = (if transport t = Some p then 1 else 0) \<and>
         tp_listeners t p = (if transport t = Some p then 1 else 0)) \<and>
    (state t = PJSIP_TSX_STATE_COMPLETED \<or> state t = PJSIP_TSX_STATE_CONFIRMED \<or>
     state t = PJSIP_TSX_STATE_TERMINATED \<longrightarrow> tt_delay (timeout_timer t) \<noteq> None) \<and>
    (released t \<longrightarrow> tt_delay (retransmit_timer t) = None \<and> tt_delay (timeout_timer t) = None \<and>
       transport t = None \<and> last_tx t = None \<and> attached t = {})"
proof -
  have "tsx_ok t0" using created_ok(1) [OF assms(1)] by (simp add: tsx_ok_def)
  with run_ok [OF assms(3,2)] created_ok(2) [OF assms(1)] have t: "tsx_ok t" "timed t" by auto
  then have "released t \<longrightarrow> tsx_freed t"
    by (auto simp: tsx_ok_def tsx_core_def tsx_dying_def tsx_base_def)
  then show ?thesis
    using t ok_handler [OF t(1)] ok_refs [OF t(1)] by (simp add: refs_ok_def timed_def tsx_freed_def)
qed

lemma ex_created: "tsx_created ex_env ex_uac"
  by (rule created_uac [where user = ex_user and td = ex_invite and has_cseq = True
        and dest = "(PJ_SUCCESS, False)" and reg = PJ_SUCCESS]) code_simp

definition ex_answer :: sip_msg where
  "ex_answer = Response 200 PJSIP_INVITE_METHOD"

definition ex_answered :: pjsip_transaction where
  "ex_answered = pjsip_tsx_recv_msg ex_env ex_calling ex_answer"

definition ex_destroyed :: pjsip_transaction where
  "ex_destroyed = tsx_timer_callback ex_env (timer_fired TIMEOUT_TIMER ex_answered) TIMEOUT_TIMER"

lemma ex_steps:
  "tsx_step ex_env ex_uac (E_Send None) ex_calling"
  "tsx_step ex_env ex_calling (E_Recv ex_answer) ex_answered"
  "tsx_step ex_env ex_answered (E_Timer TIMEOUT_TIMER) ex_destroyed"
proof -
  have "\<not> released ex_uac" "\<not> released ex_calling" "\<not> released ex_answered"
    "tt_delay (timer_of TIMEOUT_TIMER ex_answered) \<noteq> None"
    by code_simp+
  then show "tsx_step ex_env ex_uac (E_Send None) ex_calling"
    "tsx_step ex_env ex_calling (E_Recv ex_answer) ex_answered"
    "tsx_step ex_env ex_answered (E_Timer TIMEOUT_TIMER) ex_destroyed"
    using step_send [of ex_uac ex_env None] step_recv [of ex_calling ex_env ex_answer]
      step_timer [of ex_answered TIMEOUT_TIMER ex_env]
    by (simp_all only: ex_calling_def ex_answered_def ex_destroyed_def simp_thms)
qed

lemmas ex_run = run_cons [OF ex_steps(1) run_cons [OF ex_steps(2) run_cons [OF ex_steps(3) run_nil]]]

theorem tsx_run_safe_witness:
  "released ex_destroyed \<and> tt_delay (timeout_timer ex_destroyed) = None \<and> transport ex_destroyed = None"
proof -
  have "released ex_destroyed" by code_simp
  with tsx_run_safe [OF ex_created ex_env_ok ex_run] show ?thesis by simp
qed

text \<open>
  C2: Every step of every run refines the abstract state machine of the protocol: the pair of
  states before and after it is a transition allowed for the role and the method (or no change
  at all), and the states only advance.
\<close>

theorem tsx_refines_machine:
  assumes "tsx_created env t0" "env_ok env" "tsx_run env t0 es t" "tsx_step env t e t'"
  shows "tsx_edge (role t) (tsx_method t) (state t) (state t') \<and> state t \<le> state t'"
proof -
  have "tsx_ok t0" using created_ok(1) [OF assms(1)] by (simp add: tsx_ok_def)
  with run_ok [OF assms(3,2)] created_ok(2) [OF assms(1)] have t: "tsx_ok t" "timed t" by auto
  from step_ok [OF assms(4) t assms(2)] show ?thesis by (auto simp: steps_ok_def dest: tsx_edge_mono)
qed

theorem tsx_refines_machine_witness:
  "tsx_edge PJSIP_ROLE_UAC PJSIP_INVITE_METHOD PJSIP_TSX_STATE_NULL PJSIP_TSX_STATE_CALLING"
proof -
  have "role ex_uac = PJSIP_ROLE_UAC" "tsx_method ex_uac = PJSIP_INVITE_METHOD"
    "state ex_uac = PJSIP_TSX_STATE_NULL" "state ex_calling = PJSIP_TSX_STATE_CALLING"
    by code_simp+
  then show ?thesis
    using tsx_refines_machine [OF ex_created ex_env_ok run_nil ex_steps(1)] by simp
qed








end
