(* ===== verification/Sip_tsx_correct.thy ===== *)
theory Sip_tsx_correct
  imports Sip_tsx_run
begin

text \<open>
  The behaviour of a SIP transaction: what the client and the server INVITE transactions do with
  the messages and timers of the protocol, the retransmission intervals, transport failures and
  deferred sends, and two situations in which a transaction gets stuck.
\<close>

section \<open>Actions of the elementary steps\<close>

text \<open>What the user of the transaction is told on a change from \<open>s\<close> to \<open>s'\<close>.\<close>

definition told ::
  "pjsip_module option \<Rightarrow> pjsip_event \<Rightarrow> pjsip_tsx_state_e \<Rightarrow> pjsip_tsx_state_e \<Rightarrow> tsx_action list" where
  "told user ev s s' = (case user of None \<Rightarrow> []
     | Some u \<Rightarrow> (case ev of EV_RX_MSG (Response c me) \<Rightarrow>
                    if on_rx_response u then [A_RxResponse (Response c me)] else [] | _ \<Rightarrow> [])
                @ (if on_tsx_state u then [A_TsxState s s'] else []))"

lemma actions_emit [simp]: "actions (emit a t) = actions t @ [a]"
  by (simp add: emit_def)

lemma actions_silent [simp]:
  "actions (set_flag f t) = actions t" "actions (clear_flags fs t) = actions t"
  "actions (set_timer w e t) = actions t" "actions (set_timer_id w i t) = actions t"
  "actions (fst (pjsip_endpt_schedule_timer t w d)) = actions t"
  "actions (fst (pjsip_endpt_cancel_timer t w)) = actions t"
  "actions (activate_timer w d t) = actions t" "actions (cancel_active_timer w t) = actions t"
  "actions (tsx_set_status_code t c) = actions t" "actions (start_retransmit d t) = actions t"
  by (cases w; simp add: set_flag_def clear_flags_def set_timer_id_def pjsip_endpt_schedule_timer_def
      pjsip_endpt_cancel_timer_def activate_timer_def cancel_active_timer_def tsx_set_status_code_def
      start_retransmit_def Let_def)+

lemma notify_user_told: "actions (notify_user ev s t) = actions t @ told (tsx_user t) ev s (state t)"
  by (auto simp: notify_user_def told_def Let_def split: option.split pjsip_event.split sip_msg.split)

lemma actions_set_state:
  assumes "s' \<noteq> PJSIP_TSX_STATE_DESTROYED" "state t \<le> s'"
  shows "actions (tsx_set_state t s' ev) = actions t @ told (tsx_user t) ev (state t) s'"
  using assms by (auto simp: tsx_set_state_def Let_def notify_user_told split: option.split)

section \<open>Status codes\<close>

lemma status_class:
  assumes "0 \<le> c"
  shows "PJSIP_IS_STATUS_IN_CLASS c 100 \<longleftrightarrow> 100 \<le> c \<and> c < 200"
    "PJSIP_IS_STATUS_IN_CLASS c 200 \<longleftrightarrow> 200 \<le> c \<and> c < 300"
proof -
  have "c sdiv 100 = c div 100" using assms by (simp add: signed_divide_int_def sgn_if)
  then show "PJSIP_IS_STATUS_IN_CLASS c 100 \<longleftrightarrow> 100 \<le> c \<and> c < 200"
    "PJSIP_IS_STATUS_IN_CLASS c 200 \<longleftrightarrow> 200 \<le> c \<and> c < 300"
    using assms by (auto simp: PJSIP_IS_STATUS_IN_CLASS_def signed_divide_int_def)
qed

lemma core_timers: "tsx_core t \<Longrightarrow> timer_ok (retransmit_timer t) \<and> timer_ok (timeout_timer t)"
  by (simp add: tsx_core_def tsx_base_def)

lemma core_state_handler:
  "tsx_core t \<Longrightarrow> role t = PJSIP_ROLE_UAC \<Longrightarrow> state_handler t = tsx_state_handler_uac (state t)"
  "tsx_core t \<Longrightarrow> role t = PJSIP_ROLE_UAS \<Longrightarrow> state_handler t = tsx_state_handler_uas (state t)"
  by (simp_all add: tsx_core_def tsx_base_def tsx_handler_for_def)

text \<open>
  The mutual recursion of \<open>tsx_send_msg\<close> and its send callback is well founded: the model,
  which unrolls it twice, is the one and only solution of the code's recursive equation.
\<close>

theorem tsx_send_msg_unique:
  "f = tsx_send_msg_with f env \<longleftrightarrow> f = tsx_send_msg env"
proof
  assume f: "f = tsx_send_msg_with f env"
  have r: "f t x = tsx_send_msg env t x" if "TSX_HAS_RESOLVED_SERVER \<in> transport_flag t" for t x
  proof -
    have "f t x = tsx_send_msg_with f env t x" using f by metis
    also have "\<dots> = tsx_send_msg_with (tsx_send_msg env) env t x" by (rule send_resolved [OF that])
    also have "\<dots> = tsx_send_msg env t x" by (metis tsx_send_msg_unfold)
    finally show ?thesis .
  qed
  have "f = tsx_send_msg_with f env" by (rule f)
  also have "\<dots> = tsx_send_msg_with (tsx_send_msg env) env" by (rule send_nested_cong [OF r])
  also have "\<dots> = tsx_send_msg env" by (rule tsx_send_msg_unfold [symmetric])
  finally show "f = tsx_send_msg env" .
next
  assume "f = tsx_send_msg env"
  then show "f = tsx_send_msg_with f env" using tsx_send_msg_unfold [of env] by simp
qed

section \<open>A client INVITE\<close>

text \<open>
  A 2xx answer to an INVITE ends the client transaction: it goes to Terminated with that
  status and a zero timeout, and all it does to the outside is to tell its user (the ACK of a 2xx
  is not the transaction's); in Calling the retransmissions stop.
\<close>

theorem invite_answered:
  assumes core: "tsx_core t" and t: "role t = PJSIP_ROLE_UAC" "tsx_method t = PJSIP_INVITE_METHOD"
    and st: "state t = PJSIP_TSX_STATE_CALLING \<or> state t = PJSIP_TSX_STATE_PROCEEDING"
    and code: "200 \<le> code" "code < 300"
    and u: "u = pjsip_tsx_recv_msg env t (Response code me)"
  shows "state u = PJSIP_TSX_STATE_TERMINATED \<and> status_code u = code \<and>
    timeout_timer u = \<lparr>tt_id = 1, tt_delay = Some zero_time\<rparr> \<and>
    actions u = actions t @ told (tsx_user t) (EV_RX_MSG (Response code me)) (state t) PJSIP_TSX_STATE_TERMINATED \<and>
    (state t = PJSIP_TSX_STATE_CALLING \<longrightarrow> tt_delay (retransmit_timer u) = None)"
proof -
  define v where "v = (if state t = PJSIP_TSX_STATE_CALLING
     then clear_flags {TSX_HAS_PENDING_RESCHED} (calling_rx_timers env code t) else t)"
  define w where "w = fst (pjsip_endpt_cancel_timer (tsx_set_status_code v code) TIMEOUT_TIMER)"
  have c: "PJSIP_IS_STATUS_IN_CLASS code 200" "\<not> PJSIP_IS_STATUS_IN_CLASS code 100"
    using code by (simp_all add: status_class)
  have f: "state v = state t" "role v = role t" "tsx_method v = tsx_method t" "actions v = actions t"
    "tsx_user v = tsx_user t" "timer_ok (timeout_timer v)" "timer_ok (retransmit_timer v)"
    using core_timers [OF core] code by (simp_all add: v_def calling_rx_timers_def)
  have r: "state t = PJSIP_TSX_STATE_CALLING \<longrightarrow> tt_delay (retransmit_timer v) = None"
    using core_timers [OF core] code by (auto simp: v_def calling_rx_timers_def timer_ok_def)
  have "fst (tsx_on_state_proceeding_uac env v (EV_RX_MSG (Response code me))) =
     tsx_set_state w PJSIP_TSX_STATE_TERMINATED (EV_RX_MSG (Response code me))"
    using c f st t
    by (auto simp: tsx_on_state_proceeding_uac_def Let_def proceeding_uac_status_def
        proceeding_uac_2xx_def w_def)
  moreover have "u = fst (tsx_on_state_proceeding_uac env v (EV_RX_MSG (Response code me)))"
    using st core_state_handler(1) [OF core t(1)] t(1) u
    by (auto simp: pjsip_tsx_recv_msg_def call_state_handler_def tsx_state_handler_uac_def
        tsx_on_state_calling_def Let_def v_def)
  ultimately have "u = tsx_set_state w PJSIP_TSX_STATE_TERMINATED (EV_RX_MSG (Response code me))" by simp
  moreover have "state w = state t" "actions w = actions t" "tsx_user w = tsx_user t" "status_code w = code"
    "retransmit_timer w = retransmit_timer v" "timer_ok (timeout_timer w)"
    using f by (simp_all add: w_def)
  ultimately show ?thesis
    using st r set_state_terminated [of w] actions_set_state [of PJSIP_TSX_STATE_TERMINATED w]
    by (auto intro!: tsx_timer.equality)
qed

lemma ex_calling_core: "tsx_core ex_calling"
proof -
  have "state ex_calling \<noteq> PJSIP_TSX_STATE_DESTROYED" by code_simp
  moreover have "tsx_ok ex_calling"
    using run_ok [OF run_cons [OF ex_steps(1) run_nil] ex_env_ok] created_ok [OF ex_created]
    by (simp add: tsx_ok_def)
  ultimately show ?thesis by (auto simp: tsx_ok_def destroyed_facts)
qed

lemma ex_calling_state:
  "role ex_calling = PJSIP_ROLE_UAC" "tsx_method ex_calling = PJSIP_INVITE_METHOD"
  "state ex_calling = PJSIP_TSX_STATE_CALLING"
  by code_simp+

theorem invite_answered_witness:
  "state (pjsip_tsx_recv_msg ex_env ex_calling (Response 200 PJSIP_INVITE_METHOD)) =
   PJSIP_TSX_STATE_TERMINATED"
  using invite_answered [OF ex_calling_core ex_calling_state(1,2) disjI1 [OF ex_calling_state(3)] _ _ refl,
      of 200 ex_env PJSIP_INVITE_METHOD]
  by simp

lemma tsx_send_msg_direct:
  assumes "transport t = Some tp" "TSX_HAS_PENDING_TRANSPORT \<notin> transport_flag t"
    "transport_send env (actions t) tp td \<in> {PJ_SUCCESS, PJ_EPENDING}"
  shows "tsx_send_msg env t (Some td) = (emit (A_TransportSend tp td) t, PJ_SUCCESS)"
  using assms unfolding tsx_send_msg_def
  by (subst tsx_send_msg_with_def) (auto simp: Let_def)

text \<open>A transport that takes the message, at once or later.\<close>

definition takes :: "tsx_env \<Rightarrow> pjsip_transaction \<Rightarrow> nat \<Rightarrow> tdata \<Rightarrow> bool" where
  "takes env t tp td \<longleftrightarrow> transport t = Some tp \<and> TSX_HAS_PENDING_TRANSPORT \<notin> transport_flag t \<and>
     (\<forall>as. transport_send env as tp td \<in> {PJ_SUCCESS, PJ_EPENDING})"

lemma takes_send: "takes env t tp td \<Longrightarrow>
    tsx_send_msg env t (Some td) = (emit (A_TransportSend tp td) t, PJ_SUCCESS)"
  by (rule tsx_send_msg_direct) (auto simp: takes_def)

text \<open>
  C26: A 3xx to 6xx answer to an INVITE is acknowledged: the ACK made for it is sent, on
  a transport that takes it, the transaction waits in Completed, for timer D on an unreliable transport and no time at all on a
  reliable one, with the ACK kept as its last message; and when the answer is received again the
  same ACK is sent again and nothing else happens.
\<close>

theorem invite_rejected:
  assumes core: "tsx_core t" and t: "role t = PJSIP_ROLE_UAC" "tsx_method t = PJSIP_INVITE_METHOD"
    and st: "state t = PJSIP_TSX_STATE_CALLING \<or> state t = PJSIP_TSX_STATE_PROCEEDING"
    and code: "300 \<le> code" "code \<le> 699" and code2: "200 \<le> code2"
    and ack: "create_ack env (last_tx t) (Response code me) = Inl ack" and tp: "takes env t tp ack"
    and u: "u = pjsip_tsx_recv_msg env t (Response code me)"
    and w: "w = pjsip_tsx_recv_msg env u (Response code2 me2)"
  shows "state u = PJSIP_TSX_STATE_COMPLETED \<and> status_code u = code \<and> last_tx u = Some ack \<and>
    timeout_timer u = \<lparr>tt_id = 1,
      tt_delay = Some (if is_reliable t then zero_time else td_timer_val env)\<rparr> \<and>
    tt_delay (retransmit_timer u) = None \<and>
    (\<exists>refs. actions u = actions t @ [A_TransportSend tp ack] @
       told (tsx_user t) (EV_RX_MSG (Response code me)) (state t) PJSIP_TSX_STATE_COMPLETED @ refs \<and>
       (\<forall>a \<in> set refs. \<exists>p. a = A_TdDecRef p)) \<and>
    state w = PJSIP_TSX_STATE_COMPLETED \<and> actions w = actions u @ [A_TransportSend tp ack]"
proof -
  define ev where "ev = EV_RX_MSG (Response code me)"
  define v where "v = (if state t = PJSIP_TSX_STATE_CALLING
     then clear_flags {TSX_HAS_PENDING_RESCHED} (calling_rx_timers env code t) else t)"
  define t1 where "t1 = cancel_active_timer RETRANSMIT_TIMER (tsx_set_status_code v code)"
  define t2 where "t2 = fst (pjsip_endpt_cancel_timer (set_timer_id TIMEOUT_TIMER 0 t1) TIMEOUT_TIMER)"
  define t3 where "t3 = emit (A_TransportSend tp ack) t2"
  define t4 where "t4 = tsx_set_state t3 PJSIP_TSX_STATE_COMPLETED ev"
  define refs where "refs = (case last_tx t of None \<Rightarrow> []
    | Some old \<Rightarrow> if old = ack then [] else [A_TdDecRef (td_ptr old)])"
  define t5 where "t5 = (if tsx_method t4 = PJSIP_INVITE_METHOD \<and> Some ack \<noteq> last_tx t4 then
                 (case last_tx t4 of None \<Rightarrow> t4 | Some old \<Rightarrow> emit (A_TdDecRef (td_ptr old)) t4)
                   \<lparr>last_tx := Some ack\<rparr> else t4)"
  have c: "\<not> PJSIP_IS_STATUS_IN_CLASS code 200" "\<not> PJSIP_IS_STATUS_IN_CLASS code 100"
    using code by (simp_all add: status_class)
  have fv: "state v = state t" "role v = role t" "tsx_method v = tsx_method t" "actions v = actions t"
    "tsx_user v = tsx_user t" "timer_ok (retransmit_timer v)" "transport v = transport t"
    "last_tx v = last_tx t" "is_reliable v = is_reliable t"
    "TSX_HAS_PENDING_TRANSPORT \<notin> transport_flag v"
    using core_timers [OF core] code tp by (simp_all add: v_def calling_rx_timers_def takes_def)
  have f2: "state t2 = state t" "role t2 = role t" "tsx_method t2 = tsx_method t" "actions t2 = actions t"
    "tsx_user t2 = tsx_user t" "tt_delay (retransmit_timer t2) = None" "transport t2 = transport t"
    "last_tx t2 = last_tx t" "is_reliable t2 = is_reliable t" "status_code t2 = code"
    "timeout_timer t2 = \<lparr>tt_id = 0, tt_delay = None\<rparr>"
    "TSX_HAS_PENDING_TRANSPORT \<notin> transport_flag t2"
    using fv by (auto simp: t2_def t1_def timer_ok_def)
  have snd: "tsx_send_msg env t2 (Some ack) = (t3, PJ_SUCCESS)"
    unfolding t3_def using tp f2 by (intro takes_send) (simp add: takes_def)
  have f4: "state t4 = PJSIP_TSX_STATE_COMPLETED" "role t4 = role t" "tsx_method t4 = tsx_method t"
    "tt_delay (retransmit_timer t4) = None" "transport t4 = transport t" "last_tx t4 = last_tx t"
    "is_reliable t4 = is_reliable t" "status_code t4 = code" "tsx_user t3 = tsx_user t" "state t3 = state t"
    "timeout_timer t4 = \<lparr>tt_id = 0, tt_delay = None\<rparr>" "state_handler t4 = Some on_state_completed_uac"
    "TSX_HAS_PENDING_TRANSPORT \<notin> transport_flag t4"
    using f2 t(1) by (simp_all add: t4_def t3_def set_state_live tsx_handler_for_def tsx_state_handler_uac_def)
  have a4: "actions t4 = actions t @ [A_TransportSend tp ack] @ told (tsx_user t) ev (state t) PJSIP_TSX_STATE_COMPLETED"
    using st f2 f4 unfolding t4_def
    by (subst actions_set_state) (auto simp: t3_def less_eq_pjsip_tsx_state_e_def)
  have a5: "actions t5 = actions t4 @ refs" "state t5 = state t4" "timeout_timer t5 = timeout_timer t4"
    "last_tx t5 = Some ack" "is_reliable t5 = is_reliable t" "state_handler t5 = state_handler t4"
    "transport t5 = transport t" "role t5 = role t" "tsx_method t5 = tsx_method t" "status_code t5 = code"
    "retransmit_timer t5 = retransmit_timer t4" "transport_flag t5 = transport_flag t4"
    using f4 t(2) by (auto simp: t5_def refs_def split: option.split)
  have "proceeding_uac_complete env t3 ev (Some ack) =
      (activate_timer TIMEOUT_TIMER (if \<not> is_reliable t then td_timer_val env else zero_time) t5, PJ_SUCCESS)"
    unfolding proceeding_uac_complete_def Let_def t4_def [symmetric] t5_def [symmetric]
    using t a5 f4 by simp
  then have "proceeding_uac_final env (tsx_set_status_code v code) ev (Response code me) =
      (activate_timer TIMEOUT_TIMER (if \<not> is_reliable t then td_timer_val env else zero_time) t5, PJ_SUCCESS)"
    unfolding proceeding_uac_final_def Let_def t1_def [symmetric] t2_def [symmetric] snd
    using t f2 ack by (simp add: snd)
  moreover have "u = fst (tsx_on_state_proceeding_uac env v ev)"
    using st core_state_handler(1) [OF core t(1)] t(1) u
    by (auto simp: pjsip_tsx_recv_msg_def call_state_handler_def tsx_state_handler_uac_def
        tsx_on_state_calling_def Let_def v_def ev_def)
  moreover have "fst (tsx_on_state_proceeding_uac env v ev) =
      fst (proceeding_uac_final env (tsx_set_status_code v code) ev (Response code me))"
    using c fv st code by (auto simp: tsx_on_state_proceeding_uac_def Let_def proceeding_uac_status_def ev_def)
  ultimately have u5: "u = activate_timer TIMEOUT_TIMER (if \<not> is_reliable t then td_timer_val env else zero_time) t5"
    by simp
  have "takes env (u\<lparr>retransmit_count := n\<rparr>) tp ack" for n
    using tp f4 a5 by (simp add: takes_def u5)
  from takes_send [OF this] have w5: "w = emit (A_TransportSend tp ack) (u\<lparr>retransmit_count := retransmit_count u + 1\<rparr>)"
    using code2 t a5 f4
    by (simp add: w u5 pjsip_tsx_recv_msg_def call_state_handler_def tsx_on_state_completed_uac_def
        Let_def tsx_retransmit_def)
  have "\<forall>a \<in> set refs. \<exists>p. a = A_TdDecRef p" by (auto simp: refs_def split: option.split)
  then show ?thesis
    using a4 a5 f4 by (auto simp: u5 w5 ev_def intro!: tsx_timer.equality)
qed

definition ex_ack :: tdata where
  "ex_ack = \<lparr>td_ptr = 9, td_msg = Request PJSIP_ACK_METHOD\<rparr>"

lemma ex_takes: "transport t = Some 1 \<Longrightarrow> TSX_HAS_PENDING_TRANSPORT \<notin> transport_flag t \<Longrightarrow>
    takes ex_env t 1 td"
  by (simp add: takes_def ex_env_def)

lemma ex_calling_transport:
  "transport ex_calling = Some 1" "TSX_HAS_PENDING_TRANSPORT \<notin> transport_flag ex_calling"
  by code_simp+

theorem invite_rejected_witness:
  "last_tx (pjsip_tsx_recv_msg ex_env ex_calling (Response 486 PJSIP_INVITE_METHOD)) = Some ex_ack"
proof -
  have "create_ack ex_env x m = Inl ex_ack" for x m by (simp add: ex_env_def ex_ack_def)
  from invite_rejected [OF ex_calling_core ex_calling_state(1,2) disjI1 [OF ex_calling_state(3)] _ _ _
      this ex_takes [OF ex_calling_transport] refl refl, of 486 486]
  show ?thesis by simp
qed

text \<open>
  When nobody answers, the timeout in Calling ends the transaction with status 408: no
  retransmission stays scheduled, the user is told, and the transaction will be destroyed.
\<close>

theorem calling_timeout:
  assumes core: "tsx_core t" and t: "role t = PJSIP_ROLE_UAC" "state t = PJSIP_TSX_STATE_CALLING"
    and u: "u = tsx_timer_callback env (timer_fired TIMEOUT_TIMER t) TIMEOUT_TIMER"
  shows "state u = PJSIP_TSX_STATE_TERMINATED \<and> status_code u = PJSIP_SC_TSX_TIMEOUT \<and>
    tt_delay (retransmit_timer u) = None \<and> tt_delay (timeout_timer u) = Some zero_time \<and>
    actions u = actions t @ told (tsx_user t) (EV_TIMER TIMEOUT_TIMER) PJSIP_TSX_STATE_CALLING
      PJSIP_TSX_STATE_TERMINATED"
proof -
  define v where "v = set_timer_id TIMEOUT_TIMER 0 (timer_fired TIMEOUT_TIMER t)"
  define w where "w = tsx_set_status_code (clear_flags {TSX_HAS_PENDING_RESCHED}
      (cancel_active_timer RETRANSMIT_TIMER v)) PJSIP_SC_TSX_TIMEOUT"
  have c: "tsx_core v" unfolding v_def by (rule fired_core [OF core])
  have f: "state v = state t" "role v = role t" "actions v = actions t" "tsx_user v = tsx_user t"
    by (simp_all add: v_def set_timer_id_def timer_fired_def)
  have "u = tsx_set_state w PJSIP_TSX_STATE_TERMINATED (EV_TIMER TIMEOUT_TIMER)"
    using c f t core_state_handler(1) [OF c]
    by (simp add: u tsx_timer_callback_def call_state_handler_def tsx_state_handler_uac_def
        tsx_on_state_calling_def Let_def w_def flip: v_def)
  moreover have "state w = state t" "actions w = actions t" "tsx_user w = tsx_user t"
    "status_code w = PJSIP_SC_TSX_TIMEOUT" "tt_delay (retransmit_timer w) = None"
    "timer_ok (timeout_timer w)"
    using f core_timers [OF c] by (auto simp: w_def timer_ok_def)
  ultimately show ?thesis
    using t set_state_terminated [of w] actions_set_state [of PJSIP_TSX_STATE_TERMINATED w] by simp
qed

theorem calling_timeout_witness:
  "status_code (tsx_timer_callback ex_env (timer_fired TIMEOUT_TIMER ex_calling) TIMEOUT_TIMER) = 408"
  using calling_timeout [OF ex_calling_core ex_calling_state(1,3) refl, of ex_env] by simp

section \<open>A server INVITE\<close>

lemma set_state_user: "s \<noteq> PJSIP_TSX_STATE_TERMINATED \<Longrightarrow> s \<noteq> PJSIP_TSX_STATE_DESTROYED \<Longrightarrow>
    tsx_user (tsx_set_state t s ev) = tsx_user t"
  by (auto simp: tsx_set_state_def Let_def notify_user_def emit_def split: option.split pjsip_event.split sip_msg.split)

text \<open>
  The ACK of a final response.  The wait of the Confirmed state, timer I, is zero on an unreliable
  transport and T4 on a reliable one; the comment beside the code asks for the opposite.
\<close>

lemma ack_received:
  assumes core: "tsx_core t" and t: "role t = PJSIP_ROLE_UAS" "tsx_method t = PJSIP_INVITE_METHOD"
    "state t = PJSIP_TSX_STATE_COMPLETED"
    and u: "u = pjsip_tsx_recv_msg env t (Request PJSIP_ACK_METHOD)"
  shows "state u = PJSIP_TSX_STATE_CONFIRMED" "tt_delay (retransmit_timer u) = None"
    "TSX_HAS_PENDING_RESCHED \<notin> transport_flag u" "role u = PJSIP_ROLE_UAS"
    "tsx_method u = PJSIP_INVITE_METHOD" "tsx_user u = tsx_user t" "last_tx u = last_tx t"
    "state_handler u = Some on_state_confirmed" "status_code u = status_code t"
    "tt_delay (timeout_timer u) = Some (if is_reliable t then t4_timer_val env else zero_time)"
    "actions u = actions t @ told (tsx_user t) (EV_RX_MSG (Request PJSIP_ACK_METHOD))
      PJSIP_TSX_STATE_COMPLETED PJSIP_TSX_STATE_CONFIRMED"
proof -
  define v where "v = fst (pjsip_endpt_cancel_timer (clear_flags {TSX_HAS_PENDING_RESCHED}
      (cancel_active_timer RETRANSMIT_TIMER t)) TIMEOUT_TIMER)"
  define d where "d = (if \<not> is_reliable v then zero_time else t4_timer_val env)"
  define w where "w = activate_timer TIMEOUT_TIMER d v"
  have "u = completed_uas_ack env t (EV_RX_MSG (Request PJSIP_ACK_METHOD))"
    using t core_state_handler(2) [OF core]
    by (simp add: u pjsip_tsx_recv_msg_def call_state_handler_def tsx_state_handler_uas_def
        tsx_on_state_completed_uas_def Let_def)
  also have "\<dots> = tsx_set_state w PJSIP_TSX_STATE_CONFIRMED (EV_RX_MSG (Request PJSIP_ACK_METHOD))"
    unfolding completed_uas_ack_def Let_def v_def [symmetric] d_def [symmetric] w_def [symmetric]
    by (rule refl)
  finally have eq: "u = tsx_set_state w PJSIP_TSX_STATE_CONFIRMED (EV_RX_MSG (Request PJSIP_ACK_METHOD))" .
  have f: "state w = PJSIP_TSX_STATE_COMPLETED" "actions w = actions t" "tsx_user w = tsx_user t"
    "tt_delay (retransmit_timer w) = None" "tt_delay (timeout_timer w) = Some d" "last_tx w = last_tx t"
    "TSX_HAS_PENDING_RESCHED \<notin> transport_flag w" "is_reliable v = is_reliable t" "role w = role t"
    "tsx_method w = tsx_method t" "status_code w = status_code t"
    using t core_timers [OF core] by (auto simp: w_def v_def timer_ok_def)
  then show "state u = PJSIP_TSX_STATE_CONFIRMED" "tt_delay (retransmit_timer u) = None"
    "TSX_HAS_PENDING_RESCHED \<notin> transport_flag u" "role u = PJSIP_ROLE_UAS"
    "tsx_method u = PJSIP_INVITE_METHOD" "tsx_user u = tsx_user t" "last_tx u = last_tx t"
    "state_handler u = Some on_state_confirmed" "status_code u = status_code t"
    "tt_delay (timeout_timer u) = Some (if is_reliable t then t4_timer_val env else zero_time)"
    "actions u = actions t @ told (tsx_user t) (EV_RX_MSG (Request PJSIP_ACK_METHOD))
      PJSIP_TSX_STATE_COMPLETED PJSIP_TSX_STATE_CONFIRMED"
    using t by (auto simp: eq set_state_live set_state_user actions_set_state d_def less_eq_pjsip_tsx_state_e_def
        tsx_handler_for_def tsx_state_handler_uas_def)
qed

text \<open>
  C40: The ACK of a final response confirms a server INVITE: its retransmission is stopped, also
  one that waits for the transport, the timeout timer is running, and the user is told.  From then on
  repeated ACKs and late retransmissions of the INVITE are absorbed without any effect, and when the timer
  fires the transaction ends in Terminated, nothing more having been sent, with the status of the response.
\<close>

theorem ack_confirms:
  assumes core: "tsx_core t" and t: "role t = PJSIP_ROLE_UAS" "tsx_method t = PJSIP_INVITE_METHOD"
    "state t = PJSIP_TSX_STATE_COMPLETED"
    and u: "u = pjsip_tsx_recv_msg env t (Request PJSIP_ACK_METHOD)"
  shows "state u = PJSIP_TSX_STATE_CONFIRMED \<and> tt_delay (retransmit_timer u) = None \<and>
    TSX_HAS_PENDING_RESCHED \<notin> transport_flag u \<and> tt_delay (timeout_timer u) \<noteq> None \<and>
    actions u = actions t @ told (tsx_user t) (EV_RX_MSG (Request PJSIP_ACK_METHOD))
      PJSIP_TSX_STATE_COMPLETED PJSIP_TSX_STATE_CONFIRMED \<and>
    (\<forall>me \<in> {PJSIP_ACK_METHOD, PJSIP_INVITE_METHOD}. pjsip_tsx_recv_msg env u (Request me) = u) \<and>
    (let v = tsx_timer_callback env (timer_fired TIMEOUT_TIMER u) TIMEOUT_TIMER
     in state v = PJSIP_TSX_STATE_TERMINATED \<and> tt_delay (retransmit_timer v) = None \<and>
       tt_delay (timeout_timer v) = Some zero_time \<and> status_code v = status_code t \<and>
       actions v = actions u @ told (tsx_user t) (EV_TIMER TIMEOUT_TIMER)
         PJSIP_TSX_STATE_CONFIRMED PJSIP_TSX_STATE_TERMINATED)"
proof -
  note a = ack_received [OF core t u]
  define x where "x = set_timer_id TIMEOUT_TIMER 0 (timer_fired TIMEOUT_TIMER u)"
  have f: "state x = PJSIP_TSX_STATE_CONFIRMED" "role x = PJSIP_ROLE_UAS" "tsx_method x = PJSIP_INVITE_METHOD"
    "state_handler x = Some on_state_confirmed" "tsx_user x = tsx_user t" "actions x = actions u"
    "retransmit_timer x = retransmit_timer u" "status_code x = status_code t"
    "timer_ok (timeout_timer x)"
    using a by (simp_all add: x_def set_timer_id_def timer_fired_def timer_ok_def)
  have "tsx_timer_callback env (timer_fired TIMEOUT_TIMER u) TIMEOUT_TIMER =
      tsx_set_state x PJSIP_TSX_STATE_TERMINATED (EV_TIMER TIMEOUT_TIMER)"
    using f by (simp add: tsx_timer_callback_def call_state_handler_def tsx_on_state_confirmed_def Let_def
        flip: x_def)
  then have "let v = tsx_timer_callback env (timer_fired TIMEOUT_TIMER u) TIMEOUT_TIMER
     in state v = PJSIP_TSX_STATE_TERMINATED \<and> tt_delay (retransmit_timer v) = None \<and>
       tt_delay (timeout_timer v) = Some zero_time \<and> status_code v = status_code t \<and>
       actions v = actions u @ told (tsx_user t) (EV_TIMER TIMEOUT_TIMER)
         PJSIP_TSX_STATE_CONFIRMED PJSIP_TSX_STATE_TERMINATED"
    using f a(2) by (simp add: Let_def set_state_terminated actions_set_state less_eq_pjsip_tsx_state_e_def)
  moreover have "pjsip_tsx_recv_msg env u (Request me) = u" if "me \<in> {PJSIP_ACK_METHOD, PJSIP_INVITE_METHOD}" for me
    using a(1,4,5,8) that
    by (auto simp: pjsip_tsx_recv_msg_def call_state_handler_def tsx_on_state_confirmed_def Let_def)
  ultimately show ?thesis using a(1-3,10,11) by simp
qed

definition ex_server_run :: "int \<Rightarrow> pjsip_transaction" where
  "ex_server_run code =
     fst (pjsip_tsx_send_msg ex_env
       (pjsip_tsx_recv_msg ex_env
         (the (fst (pjsip_tsx_create_uas ex_env ex_user (Request PJSIP_INVITE_METHOD) True True
            PJSIP_INVITE_METHOD PJ_SUCCESS (PJ_SUCCESS, Some 1, False) PJ_SUCCESS)))
         (Request PJSIP_INVITE_METHOD))
       (Some \<lparr>td_ptr = 5, td_msg = Response code PJSIP_INVITE_METHOD\<rparr>))"

definition ex_completed :: pjsip_transaction where
  "ex_completed = ex_server_run 486"

lemma ex_completed_state:
  "role ex_completed = PJSIP_ROLE_UAS" "tsx_method ex_completed = PJSIP_INVITE_METHOD"
  "state ex_completed = PJSIP_TSX_STATE_COMPLETED" "status_code ex_completed = 486"
  "last_tx ex_completed = Some \<lparr>td_ptr = 5, td_msg = Response 486 PJSIP_INVITE_METHOD\<rparr>"
  "transport ex_completed = Some 1" "retransmit_count ex_completed = 0"
  "TSX_HAS_PENDING_TRANSPORT \<notin> transport_flag ex_completed"
  by code_simp+

lemma ex_completed_core: "tsx_core ex_completed"
proof -
  define t0 where "t0 = the (fst (pjsip_tsx_create_uas ex_env ex_user (Request PJSIP_INVITE_METHOD) True True
            PJSIP_INVITE_METHOD PJ_SUCCESS (PJ_SUCCESS, Some 1, False) PJ_SUCCESS))"
  define t1 where "t1 = pjsip_tsx_recv_msg ex_env t0 (Request PJSIP_INVITE_METHOD)"
  have "pjsip_tsx_create_uas ex_env ex_user (Request PJSIP_INVITE_METHOD) True True
            PJSIP_INVITE_METHOD PJ_SUCCESS (PJ_SUCCESS, Some 1, False) PJ_SUCCESS = (Some t0, PJ_SUCCESS)"
    unfolding t0_def by code_simp
  then have cr: "tsx_created ex_env t0" by (rule created_uas)
  have "\<not> released t0" unfolding t0_def by code_simp
  then have s1: "tsx_step ex_env t0 (E_Recv (Request PJSIP_INVITE_METHOD)) t1"
    unfolding t1_def by (rule step_recv)
  have "\<not> released t1" unfolding t1_def t0_def by code_simp
  then have s2: "tsx_step ex_env t1 (E_Send (Some \<lparr>td_ptr = 5, td_msg = Response 486 PJSIP_INVITE_METHOD\<rparr>))
      ex_completed"
    unfolding ex_completed_def ex_server_run_def t0_def [symmetric] t1_def [symmetric] by (rule step_send)
  have "tsx_ok ex_completed"
    using run_ok [OF run_cons [OF s1 run_cons [OF s2 run_nil]] ex_env_ok] created_ok [OF cr]
    by (simp add: tsx_ok_def)
  then show ?thesis using ex_completed_state(3) by (auto simp: tsx_ok_def destroyed_facts)
qed

theorem ack_confirms_witness:
  "state (pjsip_tsx_recv_msg ex_env ex_completed (Request PJSIP_ACK_METHOD)) = PJSIP_TSX_STATE_CONFIRMED \<and>
   tt_delay (retransmit_timer (pjsip_tsx_recv_msg ex_env ex_completed (Request PJSIP_ACK_METHOD))) = None"
  using ack_confirms [OF ex_completed_core ex_completed_state(1-3) refl, of ex_env] by simp

lemma timer_i_reversed:
  "tt_delay (timeout_timer (pjsip_tsx_recv_msg ex_env ex_completed (Request PJSIP_ACK_METHOD))) = Some zero_time"
proof -
  have "\<not> is_reliable ex_completed" by code_simp
  with ack_received(10) [OF ex_completed_core ex_completed_state(1-3) refl, of ex_env] show ?thesis by simp
qed

section \<open>Retransmission\<close>

lemma unat_shifted:
  assumes "2 ^ n * unat x < 2 ^ 32"
  shows "unat (push_bit n 1 * (x :: u32)) = 2 ^ n * unat x"
proof -
  have "push_bit n 1 * x = of_nat (2 ^ n * unat x)" by (simp add: push_bit_eq_mult)
  then have "unat (push_bit n 1 * x) = (2 ^ n * unat x) mod 2 ^ 32"
    by (simp only: unat_of_nat) simp
  with assms show ?thesis by simp
qed

text \<open>
  The interval to the next retransmission, while the doubled value fits 32 bits.
\<close>

lemma retransmit_interval:
  assumes "2 ^ retransmit_count t * unat (cfg_t1 env) < 2 ^ 32"
  shows "unat (tsx_retransmit_delay env t) =
    (if role t = PJSIP_ROLE_UAC then
       (if status_code t \<ge> 100 then unat (cfg_t2 env)
        else if tsx_method t = PJSIP_INVITE_METHOD then 2 ^ retransmit_count t * unat (cfg_t1 env)
        else min (2 ^ retransmit_count t * unat (cfg_t1 env)) (unat (cfg_t2 env)))
     else if status_code t < 200 then 60000
     else min (2 ^ retransmit_count t * unat (cfg_t1 env)) (unat (cfg_t2 env)))"
  using unat_shifted [OF assms]
  by (auto simp: tsx_retransmit_delay_def Let_def word_less_nat_alt PJSIP_TSX_1XX_RETRANS_DELAY_def)

text \<open>
  When the retransmission timer of a completed server transaction fires, the final response
  is sent again on the transport and the timer is started with the doubled interval, at most T2.
\<close>

lemma response_retransmission:
  assumes core: "tsx_core t" and t: "role t = PJSIP_ROLE_UAS" "state t = PJSIP_TSX_STATE_COMPLETED"
    and code: "200 \<le> status_code t" and td: "last_tx t = Some td" "takes env t tp td"
    and n: "n = retransmit_count t + 1" "2 ^ n * unat (cfg_t1 env) < 2 ^ 32"
    and cfg: "0 < unat (cfg_t1 env)" "0 < unat (cfg_t2 env)"
    and u: "u = tsx_timer_callback env (timer_fired RETRANSMIT_TIMER t) RETRANSMIT_TIMER"
  shows "state u = PJSIP_TSX_STATE_COMPLETED \<and> retransmit_count u = n \<and>
    retransmit_timer u = \<lparr>tt_id = 1,
      tt_delay = Some (msec_time_val (of_nat (min (2 ^ n * unat (cfg_t1 env)) (unat (cfg_t2 env)))))\<rparr> \<and>
    actions u = actions t @ [A_TransportSend tp td] \<and> role u = PJSIP_ROLE_UAS \<and> tsx_method u = tsx_method t \<and>
    status_code u = status_code t \<and> last_tx u = Some td \<and> transport u = transport t \<and>
    transport_flag u = transport_flag t \<and> tsx_user u = tsx_user t"
proof -
  define v where "v = set_timer_id RETRANSMIT_TIMER 0 (timer_fired RETRANSMIT_TIMER t)"
  define w where "w = v\<lparr>retransmit_count := retransmit_count v + 1\<rparr>"
  define d where "d = tsx_retransmit_delay env w"
  define x where "x = activate_timer RETRANSMIT_TIMER (msec_time_val d) w"
  have c: "tsx_core v" unfolding v_def by (rule fired_core [OF core])
  have f: "state v = state t" "role v = role t" "actions v = actions t" "last_tx v = last_tx t"
    "transport v = transport t" "transport_flag v = transport_flag t" "retransmit_count v = retransmit_count t"
    "status_code v = status_code t" "tt_delay (retransmit_timer v) = None" "tsx_method v = tsx_method t"
    "tsx_user v = tsx_user t"
    by (simp_all add: v_def set_timer_id_def timer_fired_def)
  have dn: "unat d = min (2 ^ n * unat (cfg_t1 env)) (unat (cfg_t2 env))"
    unfolding d_def using n code t f by (subst retransmit_interval) (simp_all add: w_def)
  have "of_nat (unat d) = d" by simp
  then have d1: "d = of_nat (min (2 ^ n * unat (cfg_t1 env)) (unat (cfg_t2 env)))" by (simp only: dn)
  have "unat d \<noteq> 0" using cfg unfolding dn by (simp add: min_def)
  then have d: "d \<noteq> 0" by auto
  have wf: "role w = PJSIP_ROLE_UAS" "TSX_HAS_PENDING_TRANSPORT \<notin> transport_flag w"
    "state w = PJSIP_TSX_STATE_COMPLETED" "last_tx v = Some td" "last_tx x = Some td"
    using f t td by (simp_all add: w_def x_def takes_def)
  have "tsx_resched_retransmission env w = x"
    using d wf unfolding tsx_resched_retransmission_def Let_def x_def by (simp flip: d_def)
  moreover have "tsx_send_msg env x (Some td) = (emit (A_TransportSend tp td) x, PJ_SUCCESS)"
    using td(2) f by (intro takes_send) (simp add: takes_def x_def w_def)
  ultimately have "tsx_retransmit env v True = (emit (A_TransportSend tp td) x, PJ_SUCCESS)"
    using wf unfolding tsx_retransmit_def Let_def w_def [symmetric] by simp
  then have "u = emit (A_TransportSend tp td) x"
    using c f t core_state_handler(2) [OF c]
    by (simp add: u tsx_timer_callback_def call_state_handler_def tsx_state_handler_uas_def
        tsx_on_state_completed_uas_def Let_def flip: v_def)
  then show ?thesis
    unfolding d1 [symmetric] using f n t td(1) by (auto simp: x_def w_def intro!: tsx_timer.equality)
qed

lemma core_live: "tsx_core t \<Longrightarrow> \<not> released t"
  by (simp add: tsx_core_def tsx_base_def)

lemma response_timeout:
  assumes core: "tsx_core t" and t: "role t = PJSIP_ROLE_UAS" "state t = PJSIP_TSX_STATE_COMPLETED"
    and u: "u = tsx_timer_callback env (timer_fired TIMEOUT_TIMER t) TIMEOUT_TIMER"
  shows "state u = PJSIP_TSX_STATE_TERMINATED \<and>
    status_code u = (if tsx_method t = PJSIP_INVITE_METHOD then PJSIP_SC_TSX_TIMEOUT else status_code t) \<and>
    actions u = actions t @ told (tsx_user t) (EV_TIMER TIMEOUT_TIMER) PJSIP_TSX_STATE_COMPLETED
      PJSIP_TSX_STATE_TERMINATED"
proof -
  define v where "v = set_timer_id TIMEOUT_TIMER 0 (timer_fired TIMEOUT_TIMER t)"
  define w where "w = (if tsx_method t = PJSIP_INVITE_METHOD then tsx_set_status_code v PJSIP_SC_TSX_TIMEOUT else v)"
  have c: "tsx_core v" unfolding v_def by (rule fired_core [OF core])
  have f: "state v = state t" "role v = role t" "actions v = actions t" "tsx_user v = tsx_user t"
    "tsx_method v = tsx_method t" "status_code v = status_code t"
    by (simp_all add: v_def set_timer_id_def timer_fired_def)
  have "u = tsx_set_state w PJSIP_TSX_STATE_TERMINATED (EV_TIMER TIMEOUT_TIMER)"
    using c f t core_state_handler(2) [OF c]
    by (simp add: u tsx_timer_callback_def call_state_handler_def tsx_state_handler_uas_def
        tsx_on_state_completed_uas_def Let_def w_def flip: v_def)
  then show ?thesis
    using f t set_state_terminated(1,5) [of w] actions_set_state [of PJSIP_TSX_STATE_TERMINATED w]
    by (simp add: w_def less_eq_pjsip_tsx_state_e_def)
qed

text \<open>
  C29: The final response of a server transaction is sent again every time the retransmission timer
  fires, on a transport that takes it: after n expiries it has been sent n more times and nothing else was done,
  and the timer runs again with the interval T1 doubled with every retransmission, at most T2.  Retransmission ends
  when the timeout timer fires: the transaction is Terminated, for an INVITE with status 408.
  The transaction satisfies its invariant, its retransmission timer is running, the intervals T1 and T2 are not
  zero, and the doubled T1 fits in 32 bits.
\<close>

theorem response_retransmissions:
  assumes core: "tsx_core t" "timed t" "env_ok env"
    and t: "role t = PJSIP_ROLE_UAS" "state t = PJSIP_TSX_STATE_COMPLETED" "200 \<le> status_code t"
    and td: "last_tx t = Some td" "takes env t tp td" "tt_delay (retransmit_timer t) \<noteq> None"
    and cfg: "2 ^ (retransmit_count t + n) * unat (cfg_t1 env) < 2 ^ 32" "0 < unat (cfg_t1 env)" "0 < unat (cfg_t2 env)"
  shows "\<exists>u. tsx_run env t (replicate n (E_Timer RETRANSMIT_TIMER)) u \<and> state u = PJSIP_TSX_STATE_COMPLETED \<and>
    retransmit_count u = retransmit_count t + n \<and>
    actions u = actions t @ replicate n (A_TransportSend tp td) \<and>
    (0 < n \<longrightarrow> tt_delay (retransmit_timer u) =
       Some (msec_time_val (of_nat (min (2 ^ (retransmit_count t + n) * unat (cfg_t1 env)) (unat (cfg_t2 env)))))) \<and>
    (\<exists>v. tsx_step env u (E_Timer TIMEOUT_TIMER) v \<and> state v = PJSIP_TSX_STATE_TERMINATED \<and>
       status_code v = (if tsx_method t = PJSIP_INVITE_METHOD then PJSIP_SC_TSX_TIMEOUT else status_code t) \<and>
       actions v = actions u @ told (tsx_user t) (EV_TIMER TIMEOUT_TIMER) PJSIP_TSX_STATE_COMPLETED
         PJSIP_TSX_STATE_TERMINATED)"
  using assms
proof (induction n arbitrary: t)
  case 0
  then have "tt_delay (timer_of TIMEOUT_TIMER t) \<noteq> None" by (simp add: timed_def)
  then have "tsx_step env t (E_Timer TIMEOUT_TIMER) (tsx_timer_callback env (timer_fired TIMEOUT_TIMER t) TIMEOUT_TIMER)"
    using core_live 0 by (intro step_timer)
  with response_timeout [OF 0(1,4,5) refl, of env] 0(5) show ?case by auto
next
  case (Suc n)
  define u where "u = tsx_timer_callback env (timer_fired RETRANSMIT_TIMER t) RETRANSMIT_TIMER"
  have step: "tsx_step env t (E_Timer RETRANSMIT_TIMER) u"
    unfolding u_def using Suc.prems core_live by (intro step_timer) simp_all
  have "2 ^ (retransmit_count t + 1) * unat (cfg_t1 env) \<le> 2 ^ (retransmit_count t + Suc n) * unat (cfg_t1 env)"
    by (intro mult_right_mono power_increasing) simp_all
  then have "2 ^ (retransmit_count t + 1) * unat (cfg_t1 env) < 2 ^ 32" using Suc.prems(10) by (rule le_less_trans)
  note f = response_retransmission [OF Suc.prems(1,4-8) refl this Suc.prems(11,12) u_def]
  have "tsx_ok u" "timed u"
    using step_ok [OF step] Suc.prems(1-3) by (simp_all add: steps_ok_def tsx_ok_def)
  then have core: "tsx_core u" "timed u" using f by (auto simp: tsx_ok_def destroyed_facts)
  have "takes env u tp td" using f Suc.prems(8) by (simp add: takes_def)
  with Suc.IH [OF core Suc.prems(3)] f Suc.prems(6,10-12) obtain v where
    v: "tsx_run env u (replicate n (E_Timer RETRANSMIT_TIMER)) v" and
    rest: "state v = PJSIP_TSX_STATE_COMPLETED \<and> retransmit_count v = retransmit_count u + n \<and>
    actions v = actions u @ replicate n (A_TransportSend tp td) \<and>
    (0 < n \<longrightarrow> tt_delay (retransmit_timer v) =
       Some (msec_time_val (of_nat (min (2 ^ (retransmit_count u + n) * unat (cfg_t1 env)) (unat (cfg_t2 env)))))) \<and>
    (\<exists>w. tsx_step env v (E_Timer TIMEOUT_TIMER) w \<and> state w = PJSIP_TSX_STATE_TERMINATED \<and>
       status_code w = (if tsx_method u = PJSIP_INVITE_METHOD then PJSIP_SC_TSX_TIMEOUT else status_code u) \<and>
       actions w = actions v @ told (tsx_user u) (EV_TIMER TIMEOUT_TIMER) PJSIP_TSX_STATE_COMPLETED
         PJSIP_TSX_STATE_TERMINATED)"
    by auto
  have "v = u" if "n = 0" using v that by simp
  then show ?case
    using run_cons [OF step v] rest f by (intro exI [of _ v]) (cases n; auto)
qed

theorem response_retransmissions_witness:
  "\<exists>u. tsx_run ex_env ex_completed (replicate 3 (E_Timer RETRANSMIT_TIMER)) u \<and>
    tt_delay (retransmit_timer u) = Some (TimeVal 4 0)"
proof -
  have "timed ex_completed" "tt_delay (retransmit_timer ex_completed) \<noteq> None" by code_simp+
  from response_retransmissions [OF ex_completed_core this(1) ex_env_ok ex_completed_state(1,3) _ ex_completed_state(5)
      ex_takes [OF ex_completed_state(6,8)] this(2), of 3]
  show ?thesis by (auto simp: ex_completed_state ex_env_def msec_time_val_def)
qed

section \<open>Transport errors\<close>

text \<open>
  C27: When the lower layers give up sending a message of a transaction that is not terminated,
  the send callback ends it: status 502 when the destination could not be resolved and 503
  otherwise, the error kept in \<open>transport_err\<close>, no buffer pending, the user told, and the
  transaction about to be destroyed.
\<close>

theorem send_failure_terminates:
  assumes core: "tsx_core t" and st: "state t \<noteq> PJSIP_TSX_STATE_TERMINATED"
    and r: "td_ptr td \<in> attached t" "sr_sent r < 0" "\<not> sr_cont r"
    and u: "u = fst (send_msg_callback env td r t)"
  shows "state u = PJSIP_TSX_STATE_TERMINATED \<and> transport_err u = - sr_sent r \<and>
    status_code u = (if - sr_sent r = PJ_ERESOLVE \<or> - sr_sent r = PJLIB_UTIL_EDNS_NXDOMAIN
      then PJSIP_SC_BAD_GATEWAY else PJSIP_SC_TSX_TRANSPORT_ERROR) \<and>
    attached u = {} \<and> pending_tx u = None \<and> tt_delay (timeout_timer u) = Some zero_time \<and>
    actions u = actions (if sr_transport r = transport t then tsx_update_transport t None else t) @
      told (tsx_user t) EV_TRANSPORT_ERROR (state t) PJSIP_TSX_STATE_TERMINATED"
proof -
  define t1 where "t1 = t\<lparr>attached := attached t - {td_ptr td}, pending_tx := None\<rparr>"
  define t2 where "t2 = (if sr_transport r = transport t1 then tsx_update_transport t1 None else t1)"
  define c :: int where "c = (if - sr_sent r = PJ_ERESOLVE \<or> - sr_sent r = PJLIB_UTIL_EDNS_NXDOMAIN
      then PJSIP_SC_BAD_GATEWAY else PJSIP_SC_TSX_TRANSPORT_ERROR)"
  define t3 where "t3 = tsx_set_status_code (set_flag TSX_HAS_RESOLVED_SERVER
      (clear_flags {TSX_HAS_PENDING_TRANSPORT} (t2\<lparr>transport_err := - sr_sent r\<rparr>))) c"
  note d = detached [OF core r(1), folded t1_def]
  have nd: "state t \<noteq> PJSIP_TSX_STATE_DESTROYED" using core by (simp add: tsx_core_def)
  have up: "actions (tsx_update_transport (s\<lparr>attached := A, pending_tx := B\<rparr>) tp) =
      actions (tsx_update_transport s tp)" for s A B tp
    by (simp add: tsx_update_transport_def Let_def emit_def split: option.split)
  have f2: "state t2 = state t" "tsx_user t2 = tsx_user t" "attached t1 = {}" "pending_tx t1 = None"
    "actions t2 = actions (if sr_transport r = transport t then tsx_update_transport t None else t)"
    using core r(1) by (auto simp: t2_def t1_def tsx_inv_defs up split: option.splits)
  have f3: "state t3 = state t" "tsx_user t3 = tsx_user t" "transport_err t3 = - sr_sent r"
    "status_code t3 = c" "actions t3 = actions t2" "pending_ok t3" "timer_ok (timeout_timer t3)"
    using f2 d(1) by (simp_all add: t3_def pending_ok_def t2_def tsx_core_def tsx_base_def)
  have assert: "pj_assert (sr_sent r \<noteq> 0) t1 = t1" using r by simp
  have eq: "callback_failed env td r t1 = tsx_set_state t3 PJSIP_TSX_STATE_TERMINATED EV_TRANSPORT_ERROR"
    unfolding callback_failed_def Let_def assert t2_def [symmetric] c_def [symmetric] t3_def [symmetric]
    using r st nd f3 by simp
  moreover have "u = callback_failed env td r t1"
    using r by (simp add: u send_msg_callback_def callback_halves t1_def)
  ultimately show ?thesis
    using f2 f3 nd set_state_terminated [of t3 EV_TRANSPORT_ERROR] c_def
      actions_set_state [of PJSIP_TSX_STATE_TERMINATED t3 EV_TRANSPORT_ERROR] by simp
qed

text \<open>An environment in which requests wait for the resolution of their destination.\<close>

definition ex_slow :: tsx_env where
  "ex_slow = ex_env\<lparr>stateless_send := (\<lambda>as td. ([], PJ_EPENDING))\<rparr>"

lemma ex_slow_ok: "env_ok ex_slow"
  using ex_env_ok by (simp add: ex_slow_def env_ok_def)

definition ex_waiting :: pjsip_transaction where
  "ex_waiting = fst (pjsip_tsx_send_msg ex_slow ex_uac None)"

lemma ex_waiting_state:
  "state ex_waiting = PJSIP_TSX_STATE_CALLING" "td_ptr ex_invite \<in> attached ex_waiting"
  "TSX_HAS_PENDING_TRANSPORT \<in> transport_flag ex_waiting" "last_tx ex_waiting = Some ex_invite"
  "role ex_waiting = PJSIP_ROLE_UAC" "tsx_method ex_waiting = PJSIP_INVITE_METHOD"
  by code_simp+

lemma ex_waiting_core: "tsx_core ex_waiting"
proof -
  have "pjsip_tsx_create_uac ex_user ex_invite True (PJ_SUCCESS, False) PJ_SUCCESS = (Some ex_uac, PJ_SUCCESS)"
    by code_simp
  then have c: "tsx_created ex_slow ex_uac" by (rule created_uac)
  have "\<not> released ex_uac" by code_simp
  then have "tsx_step ex_slow ex_uac (E_Send None) ex_waiting"
    unfolding ex_waiting_def by (rule step_send)
  then have "tsx_ok ex_waiting"
    using run_ok [OF run_cons [OF _ run_nil] ex_slow_ok] created_ok [OF c] by (simp add: tsx_ok_def)
  then show ?thesis using ex_waiting_state(1) by (auto simp: tsx_ok_def destroyed_facts)
qed

theorem send_failure_terminates_witness:
  "status_code (fst (send_msg_callback ex_slow ex_invite
     \<lparr>sr_sent = -70018, sr_transport = None, sr_cont = False\<rparr> ex_waiting)) = PJSIP_SC_BAD_GATEWAY"
  using send_failure_terminates [OF ex_waiting_core _ ex_waiting_state(2) _ _ refl,
      of "\<lparr>sr_sent = -70018, sr_transport = None, sr_cont = False\<rparr>" ex_slow]
  by (simp add: ex_waiting_state)

text \<open>
  While the transport of a transaction is still being looked for, sending succeeds at once
  and only leaves a note; the callback that brings the transport then takes it over and sends the
  last message on it, once, and clears the notes.
\<close>

theorem deferred_send:
  assumes core: "tsx_core t" and p: "TSX_HAS_PENDING_TRANSPORT \<in> transport_flag t"
    "td_ptr td \<in> attached t" "TSX_HAS_PENDING_RESCHED \<notin> transport_flag t"
    and r: "0 < sr_sent r" "sr_transport r = Some tp" and m: "last_tx t = Some m"
    and tp: "\<forall>as. transport_send env as tp m \<in> {PJ_SUCCESS, PJ_EPENDING}"
    and v: "v = fst (send_msg_callback env td r (fst (tsx_send_msg env t (Some m'))))"
  shows "tsx_send_msg env t (Some m') = (set_flag TSX_HAS_PENDING_SEND t, PJ_SUCCESS) \<and>
    transport v = Some tp \<and> attached v = {} \<and> state v = state t \<and>
    transport_flag v = transport_flag t - {TSX_HAS_PENDING_TRANSPORT, TSX_HAS_PENDING_SEND}
      \<union> {TSX_HAS_RESOLVED_SERVER} \<and>
    actions v = actions (if transport t \<noteq> Some tp then tsx_update_transport t (Some tp) else t)
      @ [A_TransportSend tp m]"
proof -
  have s: "tsx_send_msg env t (Some m') = (set_flag TSX_HAS_PENDING_SEND t, PJ_SUCCESS)"
    using p(1) unfolding tsx_send_msg_def by (subst tsx_send_msg_with_def) simp
  define t1 where "t1 = set_flag TSX_HAS_PENDING_SEND t"
  define t2 where "t2 = t1\<lparr>attached := attached t1 - {td_ptr td}, pending_tx := None\<rparr>"
  define t3 where "t3 = (if transport t2 \<noteq> Some tp then (tsx_update_transport t2 (Some tp))
       \<lparr>is_reliable := (case transport (tsx_update_transport t2 (Some tp)) of None \<Rightarrow> False
          | Some tp \<Rightarrow> tp_reliable env tp)\<rparr> else t2)"
  define t4 where "t4 = set_flag TSX_HAS_RESOLVED_SERVER (clear_flags {TSX_HAS_PENDING_TRANSPORT} t3)"
  define t5 where "t5 = clear_flags {TSX_HAS_PENDING_SEND} t4"
  have up: "actions (tsx_update_transport (s\<lparr>transport_flag := F, attached := A, pending_tx := B\<rparr>) tp) =
      actions (tsx_update_transport s tp)" for s F A B tp
    by (simp add: tsx_update_transport_def Let_def emit_def split: option.split)
  have nd: "TSX_HAS_PENDING_DESTROY \<notin> transport_flag t" using core by (simp add: tsx_core_def)
  have a3: "actions t3 = actions (if transport t \<noteq> Some tp then tsx_update_transport t (Some tp) else t)"
    by (simp add: t3_def t2_def t1_def set_flag_def up)
  have f: "transport_flag t3 = insert TSX_HAS_PENDING_SEND (transport_flag t)" "transport t3 = Some tp"
    "last_tx t3 = Some m" "state t3 = state t" "attached t3 = {}"
    using m core p(2) by (auto simp: t3_def t2_def t1_def tsx_inv_defs split: option.splits)
  have f4: "TSX_HAS_PENDING_DESTROY \<notin> transport_flag t4" "TSX_HAS_PENDING_SEND \<in> transport_flag t4"
    using f nd by (simp_all add: t4_def)
  have "takes env t5 tp m" using f tp by (simp add: t5_def t4_def takes_def)
  then have s5: "tsx_send_msg env t5 (last_tx t5) = (emit (A_TransportSend tp m) t5, PJ_SUCCESS)"
    using f by (simp add: takes_send t5_def t4_def)
  have ra: "pj_assert (sr_transport r \<noteq> None) t2 = t2" using r by simp
  have "callback_sent_with (tsx_send_msg env) env r t2 = emit (A_TransportSend tp m) t5"
    unfolding callback_sent_with_def Let_def ra unfolding r(2) t3_def [symmetric] t4_def [symmetric]
      t5_def [symmetric] s5
    using f4 p(3) f by (simp add: t5_def t4_def)
  then have "v = emit (A_TransportSend tp m) t5"
    using p(2) r(1) by (simp add: v s send_msg_callback_def callback_halves t2_def t1_def)
  then show ?thesis using s f a3 by (auto simp: t5_def t4_def)
qed

theorem deferred_send_witness:
  "state (fst (send_msg_callback ex_slow ex_invite
     \<lparr>sr_sent = 400, sr_transport = Some 2, sr_cont = False\<rparr>
     (fst (tsx_send_msg ex_slow (clear_flags {TSX_HAS_PENDING_RESCHED} ex_waiting) (Some ex_invite))))) =
   PJSIP_TSX_STATE_CALLING"
proof -
  define t where "t = clear_flags {TSX_HAS_PENDING_RESCHED} ex_waiting"
  define r where "r = \<lparr>sr_sent = 400, sr_transport = Some 2, sr_cont = False\<rparr>"
  have c: "tsx_core t" using ex_waiting_core by (simp add: t_def core_step)
  have p: "TSX_HAS_PENDING_TRANSPORT \<in> transport_flag t" "td_ptr ex_invite \<in> attached t"
    "TSX_HAS_PENDING_RESCHED \<notin> transport_flag t" "last_tx t = Some ex_invite"
    by (simp_all add: t_def ex_waiting_state)
  have r: "0 < sr_sent r" "sr_transport r = Some 2" by (simp_all add: r_def)
  have tp: "\<forall>as. transport_send ex_slow as 2 ex_invite \<in> {PJ_SUCCESS, PJ_EPENDING}"
    by (simp add: ex_slow_def ex_env_def)
  have "state (fst (send_msg_callback ex_slow ex_invite r
     (fst (tsx_send_msg ex_slow t (Some ex_invite))))) = state t"
    using deferred_send [OF c p(1-3) r p(4) tp refl, of ex_invite] by (elim conjE)
  then show ?thesis unfolding t_def r_def by (simp only: clear_flags_fields ex_waiting_state)
qed

section \<open>Two weak spots\<close>

text \<open>
  When the stateless send of a request fails at once, without any callback, the note that a
  transport is pending stays set: every later message of the transaction is accepted with
  success and never sent.
\<close>

theorem failed_send_blocks:
  assumes t: "transport t = None" "TSX_HAS_PENDING_TRANSPORT \<notin> transport_flag t"
    "TSX_HAS_RESOLVED_SERVER \<notin> transport_flag t" and td: "td_msg td = Request me"
    and fail: "\<forall>as. stateless_send env as td = ([], st)" "st \<noteq> PJ_SUCCESS" "st \<noteq> PJ_EPENDING"
    and u: "u = fst (tsx_send_msg env t (Some td))"
  shows "snd (tsx_send_msg env t (Some td)) = st \<and> pending_tx u = None \<and> state u = state t \<and>
    tsx_send_msg env u (Some td') = (set_flag TSX_HAS_PENDING_SEND u, PJ_SUCCESS)"
proof -
  define v where "v = tsx_send_msg env t (Some td)"
  have eq: "v = tsx_send_msg_with (tsx_send_msg env) env t (Some td)"
    unfolding v_def by (metis tsx_send_msg_unfold)
  have "snd v = st \<and> TSX_HAS_PENDING_TRANSPORT \<in> transport_flag (fst v) \<and>
      pending_tx (fst v) = None \<and> state (fst v) = state t"
    using t td fail
    by (simp add: eq tsx_send_msg_with_def tsx_send_resolve_with_def Let_def run_callbacks_def)
  then show ?thesis
    unfolding u v_def [symmetric] unfolding tsx_send_msg_def by (subst tsx_send_msg_with_def) simp
qed

theorem failed_send_blocks_witness:
  "snd (tsx_send_msg (ex_env\<lparr>stateless_send := \<lambda>as td. ([], 70018)\<rparr>) ex_uac (Some ex_invite)) = 70018"
proof -
  have "transport ex_uac = None" "transport_flag ex_uac = {}" by code_simp+
  then show ?thesis
    using failed_send_blocks [of ex_uac ex_invite PJSIP_INVITE_METHOD
        "ex_env\<lparr>stateless_send := \<lambda>as td. ([], 70018)\<rparr>" 70018 _ ex_invite, OF _ _ _ _ _ _ _ refl]
    by (simp add: ex_invite_def)
qed

text \<open>
  A response whose status code is 700 or more makes a calling client transaction stop all
  its timers and stay in Calling: no timer is left that could ever time it out.
\<close>

theorem odd_status_stalls:
  assumes core: "tsx_core t" and t: "role t = PJSIP_ROLE_UAC" "state t = PJSIP_TSX_STATE_CALLING"
    and code: "700 \<le> code" and u: "u = pjsip_tsx_recv_msg env t (Response code me)"
  shows "state u = PJSIP_TSX_STATE_CALLING \<and> tt_delay (retransmit_timer u) = None \<and>
    tt_delay (timeout_timer u) = None"
proof -
  define v where "v = clear_flags {TSX_HAS_PENDING_RESCHED} (calling_rx_timers env code t)"
  have c: "\<not> PJSIP_IS_STATUS_IN_CLASS code 200" "\<not> PJSIP_IS_STATUS_IN_CLASS code 100"
    using code by (simp_all add: status_class)
  have f: "state v = state t" "tt_delay (retransmit_timer v) = None" "tt_delay (timeout_timer v) = None"
    using core_timers [OF core] code by (auto simp: v_def calling_rx_timers_def timer_ok_def)
  have "u = fst (tsx_on_state_proceeding_uac env v (EV_RX_MSG (Response code me)))"
    using core_state_handler(1) [OF core t(1)] t
    by (auto simp: u pjsip_tsx_recv_msg_def call_state_handler_def tsx_state_handler_uac_def
        tsx_on_state_calling_def Let_def v_def)
  then show ?thesis
    using c f t code by (simp add: tsx_on_state_proceeding_uac_def Let_def proceeding_uac_status_def)
qed

theorem odd_status_stalls_witness:
  "tt_delay (timeout_timer (pjsip_tsx_recv_msg ex_env ex_calling (Response 799 PJSIP_INVITE_METHOD))) = None"
  using odd_status_stalls [OF ex_calling_core ex_calling_state(1,3) _ refl, of 799 ex_env] by simp

end
