(* ===== verification/Pj_string.thy ===== *)
theory Pj_string
  imports Prelude "HOL-Library.Char_ord"
begin

unbundle bit_operations_syntax

text \<open>
  Number conversion and trimming of \<open>pjlib/src/pj/string.c\<close>.  An \<open>unsigned long\<close> has 32 bits on
  the device.  Strings (\<open>pj_str_t\<close>) are lists of characters; a buffer a function fills is the
  list of the characters it leaves there.
\<close>

definition pj_isdigit :: "char \<Rightarrow> bool" where
  "pj_isdigit c = (48 \<le> (of_char c :: nat) \<and> (of_char c :: nat) \<le> 57)"

definition pj_isspace :: "char \<Rightarrow> bool" where
  "pj_isspace c = ((of_char c :: nat) = 32 \<or> 9 \<le> (of_char c :: nat) \<and> (of_char c :: nat) \<le> 13)"

definition pj_isxdigit :: "char \<Rightarrow> bool" where
  "pj_isxdigit c = (pj_isdigit c \<or> 65 \<le> (of_char c :: nat) \<and> (of_char c :: nat) \<le> 70 \<or>
     97 \<le> (of_char c :: nat) \<and> (of_char c :: nat) \<le> 102)"

definition pj_hex_digit_to_val :: "char \<Rightarrow> u32" where
  "pj_hex_digit_to_val c =
     (if (of_char c :: nat) \<le> 57 then (of_nat (of_char c) - 48) AND 0x0F
      else if (of_char c :: nat) \<le> 70 then (of_nat (of_char c) - 65 + 10) AND 0x0F
      else (of_nat (of_char c) - 97 + 10) AND 0x0F)"

fun pj_strltrim :: "string \<Rightarrow> string" where
  "pj_strltrim [] = []"
| "pj_strltrim (c # s) = (if pj_isspace c then pj_strltrim s else c # s)"

text \<open>The scan of \<open>pj_strrtrim\<close> goes backwards from the end.\<close>

definition pj_strrtrim :: "string \<Rightarrow> string" where
  "pj_strrtrim s = rev (pj_strltrim (rev s))"

fun strtoul_loop :: "u32 \<Rightarrow> string \<Rightarrow> u32" where
  "strtoul_loop v [] = v"
| "strtoul_loop v (c # s) =
     (if \<not> pj_isdigit c then v else strtoul_loop (v * 10 + of_nat (of_char c - 48)) s)"

definition pj_strtoul :: "string \<Rightarrow> u32" where
  "pj_strtoul s = strtoul_loop 0 s"

text \<open>\<open>pj_strtoul2\<close> returns the value and the rest of the string (\<open>endptr\<close>).  The digit
  \<open>str->ptr[i] - '0'\<close> is an unsigned value, so a character below \<open>'0'\<close> is no digit.\<close>

fun strtoul2_dec :: "u32 \<Rightarrow> u32 \<Rightarrow> string \<Rightarrow> u32 \<times> string" where
  "strtoul2_dec base v [] = (v, [])"
| "strtoul2_dec base v (c # s) =
     (let d = of_nat (of_char c) - 48
      in if d \<ge> base then (v, c # s) else strtoul2_dec base (v * base + d) s)"

fun strtoul2_hex :: "u32 \<Rightarrow> string \<Rightarrow> u32 \<times> string" where
  "strtoul2_hex v [] = (v, [])"
| "strtoul2_hex v (c # s) =
     (if \<not> pj_isxdigit c then (v, c # s) else strtoul2_hex (v * 16 + pj_hex_digit_to_val c) s)"

definition pj_strtoul2 :: "string \<Rightarrow> u32 \<Rightarrow> u32 \<times> string" where
  "pj_strtoul2 s base =
     (if base \<le> 10 then strtoul2_dec base 0 s
      else if base = 16 then strtoul2_hex 0 s
      else (0xFFFFFFFF, s))"

text \<open>The digits, least significant first, as the first loop of \<open>pj_utoa_pad\<close> writes them.\<close>

function utoa_digits :: "u32 \<Rightarrow> string" where
  "utoa_digits val =
     (let digval = val mod 10; val = val div 10
      in char_of (unat digval + 48) # (if val > 0 then utoa_digits val else []))"
  by pat_completeness auto
termination
  by (relation "measure unat")
    (auto simp: word_less_nat_alt unat_div)

declare utoa_digits.simps [simp del]

text \<open>The last loop reverses the buffer by swapping its ends.\<close>

function swap_ends :: "'a list \<Rightarrow> nat \<Rightarrow> nat \<Rightarrow> 'a list" where
  "swap_ends b i j =
     (let b = b[j := b ! i, i := b ! j]
      in if i + 1 < j - 1 then swap_ends b (i + 1) (j - 1) else b)"
  by pat_completeness auto
termination by (relation "measure (\<lambda>(b, i, j). j - i)") auto

declare swap_ends.simps [simp del]

definition pj_utoa_pad :: "u32 \<Rightarrow> nat \<Rightarrow> char \<Rightarrow> string" where
  "pj_utoa_pad val min_dig pad =
     (let buf = utoa_digits val;
          buf = buf @ replicate (min_dig - length buf) pad
      in swap_ends buf 0 (length buf - 1))"

definition pj_utoa :: "u32 \<Rightarrow> string" where
  "pj_utoa val = pj_utoa_pad val 0 (CHR 0x00)"

section \<open>Facts\<close>

lemma swap_ends_length [simp]: "length (swap_ends b i j) = length b"
  by (induction b i j rule: swap_ends.induct) (subst swap_ends.simps, simp add: Let_def)

lemma swap_ends_nth:
  "i \<le> j \<Longrightarrow> j < length b \<Longrightarrow> k < length b \<Longrightarrow>
   swap_ends b i j ! k = (if i \<le> k \<and> k \<le> j then b ! (i + j - k) else b ! k)"
proof (induction b i j arbitrary: k rule: swap_ends.induct)
  case (1 b i j)
  define c where "c = b[j := b ! i, i := b ! j]"
  have len: "length c = length b" by (simp add: c_def)
  have cn: "c ! m = (if m = i then b ! j else if m = j then b ! i else b ! m)" if "m < length b" for m
    using that "1.prems"(1,2) by (auto simp: c_def nth_list_update)
  have eq: "swap_ends b i j = (if i + 1 < j - 1 then swap_ends c (i + 1) (j - 1) else c)"
    by (subst swap_ends.simps) (simp add: Let_def c_def)
  show ?case
  proof (cases "i + 1 < j - 1")
    case True
    then have "swap_ends b i j ! k = (if i + 1 \<le> k \<and> k \<le> j - 1 then c ! (i + 1 + (j - 1) - k) else c ! k)"
      using "1.IH" [OF c_def True, of k] "1.prems" len eq by simp
    then show ?thesis using True "1.prems" cn by auto
  next
    case False
    then have "j = i \<or> j = i + 1 \<or> j = i + 2" using "1.prems"(1) by linarith
    then show ?thesis using False "1.prems" cn [of k] eq by (cases "k = i + 1") auto
  qed
qed

lemma swap_ends_rev: "b \<noteq> [] \<Longrightarrow> swap_ends b 0 (length b - 1) = rev b"
  by (rule nth_equalityI) (auto simp: swap_ends_nth rev_nth)

lemma utoa_digits_ne [simp]: "utoa_digits v \<noteq> []"
  by (subst utoa_digits.simps) (simp add: Let_def)

lemma pj_utoa_pad_rev:
  "pj_utoa_pad val n pad = replicate (n - length (utoa_digits val)) pad @ rev (utoa_digits val)"
  using swap_ends_rev [of "utoa_digits val @ replicate (n - length (utoa_digits val)) pad"]
  by (simp add: pj_utoa_pad_def Let_def)

lemma pj_utoa_rev: "pj_utoa val = rev (utoa_digits val)"
  by (simp add: pj_utoa_def pj_utoa_pad_rev)

lemma digit_char:
  assumes "v < 10"
  shows "pj_isdigit (char_of (unat (v :: u32) + 48))"
    "of_nat (of_char (char_of (unat v + 48) :: char) - 48) = v"
proof -
  have "unat v < 10" using assms by (simp add: word_less_nat_alt)
  then have "of_char (char_of (unat v + 48) :: char) = unat v + 48" by (simp add: of_char_of)
  with \<open>unat v < 10\<close> show "pj_isdigit (char_of (unat v + 48))"
    "of_nat (of_char (char_of (unat v + 48) :: char) - 48) = v"
    by (simp_all add: pj_isdigit_def)
qed

lemma mod_ten: "(v :: u32) mod 10 < 10"
  by (simp add: word_less_nat_alt unat_mod)

lemma utoa_digits_isdigit: "c \<in> set (utoa_digits v) \<Longrightarrow> pj_isdigit c"
proof (induction v rule: utoa_digits.induct)
  case (1 v)
  then show ?case
    by (subst (asm) (2) utoa_digits.simps) (auto simp: Let_def digit_char mod_ten split: if_splits)
qed

lemma strtoul_loop_append:
  "\<forall>c \<in> set s. pj_isdigit c \<Longrightarrow> strtoul_loop v (s @ s') = strtoul_loop (strtoul_loop v s) s'"
  by (induction s arbitrary: v) auto

lemma strtoul_digits: "strtoul_loop 0 (rev (utoa_digits v)) = v"
proof (induction v rule: utoa_digits.induct)
  case (1 v)
  define d where "d = char_of (unat (v mod 10) + 48)"
  have d: "pj_isdigit d" "of_nat (of_char d - 48) = v mod 10"
    unfolding d_def by (rule digit_char [OF mod_ten])+
  have eq: "utoa_digits v = d # (if v div 10 > 0 then utoa_digits (v div 10) else [])"
    by (subst utoa_digits.simps) (simp add: Let_def d_def)
  show ?case
  proof (cases "v div 10 > 0")
    case True
    have "strtoul_loop 0 (rev (utoa_digits v)) = strtoul_loop (v div 10) [d]"
      using eq True "1.IH" [OF refl refl] utoa_digits_isdigit [of _ "v div 10"]
      by (simp add: strtoul_loop_append)
    also have "\<dots> = v" using d by (simp add: div_mult_mod_eq)
    finally show ?thesis .
  next
    case False
    then have "v div 10 = 0" by (simp add: word_greater_zero_iff)
    then have "v mod 10 = v" by (metis add_0 div_mult_mod_eq mult_zero_left)
    with eq False d show ?thesis by simp
  qed
qed

text \<open>The number of digits.\<close>

lemma utoa_digits_bound: "unat v < 10 ^ n \<Longrightarrow> 0 < n \<Longrightarrow> length (utoa_digits v) \<le> n"
proof (induction v arbitrary: n rule: utoa_digits.induct)
  case (1 v)
  show ?case
  proof (cases "v div 10 > 0")
    case True
    then have "10 \<le> unat v" by (simp add: word_less_nat_alt unat_div div_greater_zero_iff)
    with "1.prems" have "1 < n" by (cases n; cases "n - 1") auto
    then obtain m where m: "n = Suc m" "0 < m" by (cases n) auto
    have "unat (v div 10) < 10 ^ m" using "1.prems" m by (simp add: unat_div less_mult_imp_div_less mult.commute)
    with "1.IH" [OF refl refl True, of m] m True show ?thesis
      by (subst utoa_digits.simps) (simp add: Let_def)
  next
    case False
    with "1.prems" show ?thesis by (subst utoa_digits.simps) (simp add: Let_def)
  qed
qed

lemma pj_utoa_length: "unat v < 10 ^ n \<Longrightarrow> 0 < n \<Longrightarrow> length (pj_utoa v) \<le> n"
  by (simp add: pj_utoa_rev utoa_digits_bound)

lemma pj_utoa_length10: "length (pj_utoa v) \<le> 10"
  using unsigned_less [of v, where 'a = nat] by (intro pj_utoa_length) (simp_all add: less_trans)

lemma pj_utoa_ne [simp]: "pj_utoa v \<noteq> []"
  by (simp add: pj_utoa_rev)

lemma pj_utoa_isdigit: "c \<in> set (pj_utoa v) \<Longrightarrow> pj_isdigit c"
  by (simp add: pj_utoa_rev utoa_digits_isdigit)

text \<open>
  A number printed by \<open>pj_utoa\<close>, with any characters after it that are not digits, is read
  back by \<open>pj_strtoul\<close> and by \<open>pj_strtoul2\<close>, which also returns those characters.
\<close>

theorem utoa_strtoul_roundtrip:
  assumes "\<forall>c s'. s = c # s' \<longrightarrow> \<not> pj_isdigit c"
  shows "pj_strtoul (pj_utoa v @ s) = v \<and> pj_strtoul2 (pj_utoa v @ s) 10 = (v, s)"
proof -
  have dec: "strtoul2_dec 10 a (ds @ s) = (strtoul_loop a ds, s)" if "\<forall>c \<in> set ds. pj_isdigit c" for a ds
    using that
  proof (induction ds arbitrary: a)
    case Nil
    show ?case
    proof (cases s)
      case (Cons c s')
      then have "\<not> pj_isdigit c" using assms by simp
      have small: "of_char c mod 4294967296 = (of_char c :: nat)"
        using nat_of_char_less_256 [of c] by (intro mod_less) linarith
      from \<open>\<not> pj_isdigit c\<close> have "10 \<le> (of_nat (of_char c) - 48 :: u32)"
        by (simp add: word_le_nat_alt unat_sub_if' unat_of_nat pj_isdigit_def small) arith
      with Cons show ?thesis by simp
    qed simp
  next
    case (Cons c ds)
    then have "(of_nat (of_char c) - 48 :: u32) = of_nat (of_char c - 48)" "of_char c - 48 < (10 :: nat)"
      by (auto simp: pj_isdigit_def of_nat_diff)
    then show ?case using Cons by (simp add: word_le_nat_alt unat_of_nat)
  qed
  have "strtoul_loop v s = v" using assms by (cases s) auto
  then show ?thesis
    using dec [of "pj_utoa v" 0] pj_utoa_isdigit
    by (simp add: pj_strtoul_def pj_strtoul2_def strtoul_loop_append pj_utoa_rev strtoul_digits utoa_digits_isdigit)
qed

theorem utoa_strtoul_roundtrip_witness:
  "pj_strtoul (pj_utoa 5060 @ ''$'') = 5060 \<and> pj_strtoul2 (pj_utoa 5060 @ ''$'') 10 = (5060, ''$'')"
  by (rule utoa_strtoul_roundtrip) (auto simp: pj_isdigit_def)

end
