(* ===== verification/Hash_Table.thy ===== *)
theory Hash_Table
  imports Prelude
begin

unbundle bit_operations_syntax

text \<open>
  The hash table of \<open>pjlib/src/pj/hash.c\<close>: chains of entries in an array of \<open>2^n\<close> rows, and its
  iterators.  A chain is the list of its entries in the order of the \<open>next\<close> pointers; a pointer to
  a pointer to an entry (\<open>p_entry\<close>) is the index of the row and the position in the chain; an
  iterator's pointer to an entry is the row and the key of the entry, which identify it.  A key
  given with its length is a list of bytes, a key given as a C string is the memory at its
  address.  The table does not copy the key of an entry that is stored in the caller's buffer, so
  the caller leaves it unchanged.
\<close>

section \<open>Model\<close>

definition PJ_HASH_MULTIPLIER :: u32 where
  "PJ_HASH_MULTIPLIER = 33"

datatype hash_key = Key_Mem "u8 list" | Key_String "u8 list"

fun key_bytes :: "hash_key \<Rightarrow> u8 list" where
  "key_bytes (Key_Mem k) = k"
| "key_bytes (Key_String k) = takeWhile (\<lambda>c. c \<noteq> 0) k"

record 'v pj_hash_entry =
  he_key :: "u8 list"
  he_hash :: u32
  he_value :: 'v

record 'v pj_hash_table_t =
  ht_table :: "'v pj_hash_entry list list"
  ht_count :: u32
  ht_rows :: u32

fun hash_loop :: "u32 \<Rightarrow> u8 list \<Rightarrow> u32" where
  "hash_loop hash [] = hash"
| "hash_loop hash (c # s) = hash_loop (hash * PJ_HASH_MULTIPLIER + ucast c) s"

definition pj_hash_calc :: "u32 \<Rightarrow> hash_key \<Rightarrow> u32" where
  "pj_hash_calc hash key = hash_loop hash (key_bytes key)"

text \<open>\<open>pj_tolower\<close> on the bytes of the C locale; a \<open>char\<close> is signed.\<close>

definition pj_tolower :: "u8 \<Rightarrow> u8" where
  "pj_tolower c = (if 65 \<le> c \<and> c \<le> 90 then c + 32 else c)"

fun pj_hash_calc_tolower :: "u32 \<Rightarrow> u8 list \<Rightarrow> u32 \<times> u8 list" where
  "pj_hash_calc_tolower hval [] = (hval, [])"
| "pj_hash_calc_tolower hval (c # s) =
     (let r = pj_tolower c;
          (h, rs) = pj_hash_calc_tolower (hval * PJ_HASH_MULTIPLIER + scast r) s
      in (h, r # rs))"

text \<open>The size is doubled until it is large enough; doubling \<open>2^31\<close> gives 0.\<close>

partial_function (option) table_size_loop :: "u32 \<Rightarrow> u32 \<Rightarrow> u32 option" where
  "table_size_loop table_size sz =
     (let table_size = push_bit 1 table_size
      in if table_size < sz then table_size_loop table_size sz else Some table_size)"

definition pj_hash_create :: "u32 \<Rightarrow> 'v pj_hash_table_t option" where
  "pj_hash_create sz =
     (case table_size_loop 8 sz of None \<Rightarrow> None
      | Some table_size \<Rightarrow>
          let table_size = table_size - 1
          in Some \<lparr>ht_table = replicate (unat (table_size + 1)) [], ht_count = 0, ht_rows = table_size\<rparr>)"

fun scan_chain :: "u32 \<Rightarrow> u8 list \<Rightarrow> 'v pj_hash_entry list \<Rightarrow> nat" where
  "scan_chain hash key [] = 0"
| "scan_chain hash key (e # es) =
     (if he_hash e = hash \<and> length (he_key e) = length key \<and> he_key e = key then 0
      else Suc (scan_chain hash key es))"

definition row_of :: "'v pj_hash_table_t \<Rightarrow> u32 \<Rightarrow> nat" where
  "row_of ht hash = unat (hash AND ht_rows ht)"

text \<open>
  \<open>find_entry\<close> returns the table (with a new entry, when a value is given and none is found), the
  hash value and the position found.  It returns NULL, here \<open>None\<close>, when a new entry is needed and
  there is neither a pool nor a buffer for it.
\<close>

definition find_entry ::
  "bool \<Rightarrow> 'v pj_hash_table_t \<Rightarrow> hash_key \<Rightarrow> 'v option \<Rightarrow> u32 \<Rightarrow> bool \<Rightarrow>
   ('v pj_hash_table_t \<times> u32 \<times> nat \<times> nat) option" where
  "find_entry pool ht key val hval entry_buf =
     (let hash = (if hval \<noteq> 0 then hval else pj_hash_calc 0 key);
          row = row_of ht hash;
          chain = ht_table ht ! row;
          pos = scan_chain hash (key_bytes key) chain
      in case val of
           None \<Rightarrow> Some (ht, hash, row, pos)
         | Some v \<Rightarrow>
             if pos < length chain then Some (ht, hash, row, pos)
             else if \<not> entry_buf \<and> \<not> pool then None
             else
               let entry = \<lparr>he_key = key_bytes key, he_hash = hash, he_value = v\<rparr>
               in Some (ht\<lparr>ht_table := (ht_table ht)[row := chain @ [entry]],
                           ht_count := ht_count ht + 1\<rparr>, hash, row, pos))"

text \<open>\<open>pj_hash_get\<close> also reports the hash value it used.\<close>

definition pj_hash_get :: "'v pj_hash_table_t \<Rightarrow> hash_key \<Rightarrow> u32 \<Rightarrow> 'v option \<times> u32" where
  "pj_hash_get ht key hval =
     (case find_entry False ht key None hval False of
        None \<Rightarrow> (None, hval)
      | Some (ht, hash, row, pos) \<Rightarrow>
          (if pos < length (ht_table ht ! row) then Some (he_value (ht_table ht ! row ! pos)) else None,
           hash))"

definition set_entry :: "'v pj_hash_table_t \<Rightarrow> nat \<Rightarrow> nat \<Rightarrow> 'v option \<Rightarrow> 'v pj_hash_table_t" where
  "set_entry ht row pos val =
     (let chain = ht_table ht ! row
      in if pos < length chain then
           (case val of
              None \<Rightarrow> ht\<lparr>ht_table := (ht_table ht)[row := take pos chain @ drop (pos + 1) chain],
                         ht_count := ht_count ht - 1\<rparr>
            | Some v \<Rightarrow> ht\<lparr>ht_table :=
                (ht_table ht)[row := chain[pos := (chain ! pos)\<lparr>he_value := v\<rparr>]]\<rparr>)
         else ht)"

definition pj_hash_set ::
  "bool \<Rightarrow> 'v pj_hash_table_t \<Rightarrow> hash_key \<Rightarrow> u32 \<Rightarrow> 'v option \<Rightarrow> 'v pj_hash_table_t option" where
  "pj_hash_set pool ht key hval val =
     (case find_entry pool ht key val hval False of None \<Rightarrow> None
      | Some (ht, hash, row, pos) \<Rightarrow> Some (set_entry ht row pos val))"

definition pj_hash_set_np ::
  "'v pj_hash_table_t \<Rightarrow> hash_key \<Rightarrow> u32 \<Rightarrow> 'v option \<Rightarrow> 'v pj_hash_table_t option" where
  "pj_hash_set_np ht key hval val =
     (case find_entry False ht key val hval True of None \<Rightarrow> None
      | Some (ht, hash, row, pos) \<Rightarrow> Some (set_entry ht row pos val))"

definition pj_hash_count :: "'v pj_hash_table_t \<Rightarrow> u32" where
  "pj_hash_count ht = ht_count ht"

type_synonym hash_iterator = "nat \<times> u8 list"

function hash_scan :: "'v pj_hash_table_t \<Rightarrow> nat \<Rightarrow> hash_iterator option" where
  "hash_scan ht index =
     (if index \<le> unat (ht_rows ht) then
        (case ht_table ht ! index of
           e # es \<Rightarrow> Some (index, he_key e)
         | [] \<Rightarrow> hash_scan ht (index + 1))
      else None)"
  by pat_completeness auto
termination by (relation "measure (\<lambda>(ht, i). Suc (unat (ht_rows ht)) - i)") auto

declare hash_scan.simps [simp del]

definition pj_hash_first :: "'v pj_hash_table_t \<Rightarrow> hash_iterator option" where
  "pj_hash_first ht = hash_scan ht 0"

definition pj_hash_next :: "'v pj_hash_table_t \<Rightarrow> hash_iterator \<Rightarrow> hash_iterator option" where
  "pj_hash_next ht it =
     (case tl (dropWhile (\<lambda>e. he_key e \<noteq> snd it) (ht_table ht ! fst it)) of
        e # es \<Rightarrow> Some (fst it, he_key e)
      | [] \<Rightarrow> hash_scan ht (fst it + 1))"

definition pj_hash_this :: "'v pj_hash_table_t \<Rightarrow> hash_iterator \<Rightarrow> 'v option" where
  "pj_hash_this ht it =
     map_option he_value (find (\<lambda>e. he_key e = snd it) (ht_table ht ! fst it))"

section \<open>Invariant and abstraction\<close>

text \<open>
  Every entry is in the row of its hash value, which is that of its key, and no key is stored
  twice; the counter is the number of entries.  The abstract table is a map from keys to values.
\<close>

definition chain_ok :: "u32 \<Rightarrow> nat \<Rightarrow> 'v pj_hash_entry list \<Rightarrow> bool" where
  "chain_ok rows i es \<longleftrightarrow> distinct (map he_key es) \<and>
     (\<forall>e \<in> set es. he_hash e = hash_loop 0 (he_key e) \<and> unat (he_hash e AND rows) = i)"

definition hash_ok :: "'v pj_hash_table_t \<Rightarrow> bool" where
  "hash_ok ht \<longleftrightarrow> length (ht_table ht) = Suc (unat (ht_rows ht)) \<and>
     (\<forall>i < length (ht_table ht). chain_ok (ht_rows ht) i (ht_table ht ! i)) \<and>
     ht_count ht = of_nat (length (concat (ht_table ht)))"

definition chain_map :: "'v pj_hash_entry list \<Rightarrow> u8 list \<rightharpoonup> 'v" where
  "chain_map es = map_of (map (\<lambda>e. (he_key e, he_value e)) es)"

definition hash_abs :: "'v pj_hash_table_t \<Rightarrow> u8 list \<rightharpoonup> 'v" where
  "hash_abs ht k = chain_map (ht_table ht ! row_of ht (hash_loop 0 k)) k"

definition hval_ok :: "u32 \<Rightarrow> hash_key \<Rightarrow> bool" where
  "hval_ok hval key \<longleftrightarrow> hval = 0 \<or> hval = pj_hash_calc 0 key"

lemma row_bound: "hash_ok ht \<Longrightarrow> row_of ht h < length (ht_table ht)"
  using word_and_le1 [of h "ht_rows ht"] by (simp add: hash_ok_def row_of_def word_le_nat_alt less_Suc_eq_le)

lemma chain_map_simps [simp]:
  "chain_map [] = Map.empty"
  "chain_map (e # es) = (chain_map es)(he_key e \<mapsto> he_value e)"
  by (simp_all add: chain_map_def)

lemma chain_map_none: "chain_map es k = None \<longleftrightarrow> k \<notin> he_key ` set es"
  by (induction es) auto

lemma scan_found:
  assumes "\<forall>e \<in> set es. he_hash e = hash_loop 0 (he_key e)"
  shows "scan_chain (hash_loop 0 k) k es < length es \<longleftrightarrow> k \<in> he_key ` set es"
    "k \<in> he_key ` set es \<Longrightarrow> he_key (es ! scan_chain (hash_loop 0 k) k es) = k"
    "k \<in> he_key ` set es \<Longrightarrow> chain_map es k = Some (he_value (es ! scan_chain (hash_loop 0 k) k es))"
proof -
  have step: "scan_chain (hash_loop 0 k) k (e # es) =
      (if he_key e = k then 0 else Suc (scan_chain (hash_loop 0 k) k es))"
    if "he_hash e = hash_loop 0 (he_key e)" for e and es :: "'a pj_hash_entry list"
    using that by auto
  show "scan_chain (hash_loop 0 k) k es < length es \<longleftrightarrow> k \<in> he_key ` set es"
    using assms by (induction es) (auto simp: step simp del: scan_chain.simps)
  show "k \<in> he_key ` set es \<Longrightarrow> he_key (es ! scan_chain (hash_loop 0 k) k es) = k"
    using assms by (induction es) (auto simp: step simp del: scan_chain.simps)
  show "k \<in> he_key ` set es \<Longrightarrow>
      chain_map es k = Some (he_value (es ! scan_chain (hash_loop 0 k) k es))"
    using assms by (induction es) (auto simp: step simp del: scan_chain.simps)
qed

lemma scan_le: "scan_chain h k es \<le> length es"
  by (induction es) auto

lemma chain_map_append:
  "he_key e \<notin> he_key ` set es \<Longrightarrow> chain_map (es @ [e]) = (chain_map es)(he_key e \<mapsto> he_value e)"
  by (induction es) (auto simp: fun_upd_twist)

lemma chain_map_update:
  assumes "distinct (map he_key es)" "p < length es"
  shows "chain_map (es[p := (es ! p)\<lparr>he_value := v\<rparr>]) = (chain_map es)(he_key (es ! p) \<mapsto> v)"
  using assms
proof (induction es arbitrary: p)
  case (Cons e es)
  have "he_key e \<noteq> he_key (es ! q)" if "q < length es" for q
    using Cons.prems that by auto
  with Cons show ?case by (cases p) (auto simp: fun_eq_iff)
qed simp

lemma chain_map_delete:
  assumes "distinct (map he_key es)" "p < length es"
  shows "chain_map (take p es @ drop (Suc p) es) = (chain_map es)(he_key (es ! p) := None)"
  using assms
proof (induction es arbitrary: p)
  case (Cons e es)
  show ?case
  proof (cases p)
    case 0
    have "chain_map es (he_key e) = None" using Cons.prems chain_map_none by auto
    with 0 show ?thesis by (auto simp: fun_eq_iff)
  next
    case (Suc q)
    with Cons.prems have "he_key e \<noteq> he_key (es ! q)" by auto
    with Suc Cons show ?thesis by (auto simp: fun_eq_iff)
  qed
qed simp

lemma concat_update_length:
  "i < length xss \<Longrightarrow> length (concat (xss[i := ys])) + length (xss ! i) = length (concat xss) + length ys"
  by (induction xss arbitrary: i) (auto split: nat.split)

section \<open>The operations\<close>

lemma calc_key: "pj_hash_calc 0 key = hash_loop 0 (key_bytes key)"
  by (simp add: pj_hash_calc_def)

lemma used_hash: "hval_ok hval key \<Longrightarrow>
    (if hval \<noteq> 0 then hval else pj_hash_calc 0 key) = hash_loop 0 (key_bytes key)"
  by (auto simp: hval_ok_def calc_key)

lemma chain_hashed:
  assumes "hash_ok ht"
  shows "chain_ok (ht_rows ht) (row_of ht h) (ht_table ht ! row_of ht h)"
    "\<forall>e \<in> set (ht_table ht ! row_of ht h). he_hash e = hash_loop 0 (he_key e)"
    "distinct (map he_key (ht_table ht ! row_of ht h))"
proof -
  show "chain_ok (ht_rows ht) (row_of ht h) (ht_table ht ! row_of ht h)"
    using assms row_bound [OF assms, of h] by (simp add: hash_ok_def)
  then show "\<forall>e \<in> set (ht_table ht ! row_of ht h). he_hash e = hash_loop 0 (he_key e)"
    "distinct (map he_key (ht_table ht ! row_of ht h))"
    by (simp_all add: chain_ok_def)
qed

lemma hash_get_abs:
  assumes "hash_ok ht" "hval_ok hval key"
  shows "pj_hash_get ht key hval = (hash_abs ht (key_bytes key), hash_loop 0 (key_bytes key))"
proof -
  define k where "k = key_bytes key"
  define es where "es = ht_table ht ! row_of ht (hash_loop 0 k)"
  note f = scan_found [OF chain_hashed(2) [OF assms(1), of "hash_loop 0 k", folded es_def], of k]
  have "hash_abs ht k = chain_map es k" by (simp add: hash_abs_def es_def)
  then show ?thesis
    using used_hash [OF assms(2)] f chain_map_none [of es k]
    by (simp add: pj_hash_get_def find_entry_def Let_def flip: k_def es_def) (metis not_None_eq)
qed

text \<open>Replacing the chain of one row.\<close>

definition put_chain :: "'v pj_hash_table_t \<Rightarrow> nat \<Rightarrow> 'v pj_hash_entry list \<Rightarrow> 'v pj_hash_table_t" where
  "put_chain ht row es = ht\<lparr>ht_table := (ht_table ht)[row := es],
     ht_count := ht_count ht + of_nat (length es) - of_nat (length (ht_table ht ! row))\<rparr>"

lemma put_chain_ok:
  assumes ok: "hash_ok ht" and row: "row < length (ht_table ht)" and es: "chain_ok (ht_rows ht) row es"
  shows "hash_ok (put_chain ht row es)"
proof -
  have "length (concat ((ht_table ht)[row := es])) + length (ht_table ht ! row) =
      length (concat (ht_table ht)) + length es"
    by (rule concat_update_length [OF row])
  then have "of_nat (length (concat ((ht_table ht)[row := es]))) + of_nat (length (ht_table ht ! row)) =
      (of_nat (length (concat (ht_table ht))) + of_nat (length es) :: u32)"
    by (simp only: flip: of_nat_add)
  then have "ht_count (put_chain ht row es) = of_nat (length (concat ((ht_table ht)[row := es])))"
    using ok by (simp add: put_chain_def hash_ok_def algebra_simps)
  with assms show ?thesis
    by (auto simp: hash_ok_def put_chain_def nth_list_update)
qed

lemma put_chain_abs:
  assumes ok: "hash_ok ht" and row: "row = row_of ht (hash_loop 0 k)"
    and es: "chain_map es = (chain_map (ht_table ht ! row))(k := x)"
  shows "hash_abs (put_chain ht row es) = (hash_abs ht)(k := x)"
proof
  fix j
  have r: "row_of (put_chain ht row es) h = row_of ht h" for h by (simp add: row_of_def put_chain_def)
  have b: "row < length (ht_table ht)" using row_bound [OF ok] row by simp
  show "hash_abs (put_chain ht row es) j = ((hash_abs ht)(k := x)) j"
  proof (cases "row_of ht (hash_loop 0 j) = row")
    case True
    then show ?thesis using b es by (simp add: hash_abs_def r) (simp add: put_chain_def)
  next
    case False
    then have "j \<noteq> k" using row by auto
    with False show ?thesis by (simp add: hash_abs_def r) (simp add: put_chain_def)
  qed
qed

text \<open>Both ways of setting an entry replace one chain.\<close>

lemma hash_set_chain:
  assumes ok: "hash_ok ht" and hv: "hval_ok hval key" and p: "pool \<or> buf \<or> val = None"
  shows "\<exists>ht' hash row pos. find_entry pool ht key val hval buf = Some (ht', hash, row, pos) \<and>
    hash_ok (set_entry ht' row pos val) \<and>
    hash_abs (set_entry ht' row pos val) = (hash_abs ht)(key_bytes key := val)"
proof -
  define k where "k = key_bytes key"
  define hash where "hash = hash_loop 0 k"
  define row where "row = row_of ht hash"
  define es where "es = ht_table ht ! row"
  define pos where "pos = scan_chain hash k es"
  note c = chain_hashed [OF ok, of hash, folded row_def, folded es_def]
  note f = scan_found [OF c(2), of k, folded hash_def, folded pos_def]
  have b: "row < length (ht_table ht)" using row_bound [OF ok] row_def by simp
  have u: "(if hval \<noteq> 0 then hval else pj_hash_calc 0 key) = hash"
    using used_hash [OF hv] by (simp add: hash_def k_def)
  have repl: "hash_ok (put_chain ht row es') \<and> hash_abs (put_chain ht row es') = (hash_abs ht)(k := val)"
    if "chain_ok (ht_rows ht) row es'" "chain_map es' = (chain_map es)(k := val)" for es'
    using put_chain_ok [OF ok b that(1)] put_chain_abs [OF ok _ that(2) [unfolded es_def]]
    by (simp add: row_def hash_def)
  show ?thesis
  proof (cases "pos < length es")
    case True
    then have hk: "he_key (es ! pos) = k" using f by simp
    have fe: "find_entry pool ht key val hval buf = Some (ht, hash, row, pos)"
      using True by (cases val) (simp_all add: find_entry_def Let_def u flip: k_def row_def es_def pos_def)
    define es' where "es' = (case val of None \<Rightarrow> take pos es @ drop (Suc pos) es
       | Some v \<Rightarrow> es[pos := (es ! pos)\<lparr>he_value := v\<rparr>])"
    have len: "of_nat (length es') = (of_nat (length es) - (if val = None then 1 else 0) :: u32)"
      using True by (cases val) (auto simp: es'_def)
    have se: "set_entry ht row pos val = put_chain ht row es'"
      using True len by (cases val) (simp_all add: set_entry_def put_chain_def es'_def Let_def flip: es_def)
    have "distinct (map he_key (take pos es @ es ! pos # drop (Suc pos) es))"
      using c(3) id_take_nth_drop [OF True] by simp
    moreover have "map he_key (es[pos := (es ! pos)\<lparr>he_value := v\<rparr>]) = map he_key es" for v
      using True by (simp add: map_update list_update_same_conv)
    ultimately have "distinct (map he_key es')"
      using c(3) by (cases val) (auto simp: es'_def)
    moreover have "\<forall>e \<in> set es'. \<exists>e' \<in> set es. he_key e = he_key e' \<and> he_hash e = he_hash e'"
    proof (cases val)
      case None
      then have "set es' \<subseteq> set es"
        using set_take_subset [of pos es] set_drop_subset [of "Suc pos" es] by (auto simp: es'_def)
      then show ?thesis by auto
    next
      case (Some v)
      then have "set es' \<subseteq> insert ((es ! pos)\<lparr>he_value := v\<rparr>) (set es)"
        by (simp add: es'_def set_update_subset_insert)
      moreover have "es ! pos \<in> set es" using True by simp
      ultimately show ?thesis by (metis (no_types, lifting) insertE pj_hash_entry.select_convs(1,2)
          pj_hash_entry.surjective pj_hash_entry.update_convs(3) subsetD)
    qed
    ultimately have "chain_ok (ht_rows ht) row es'" using c(1) by (fastforce simp: chain_ok_def)
    moreover have "chain_map es' = (chain_map es)(k := val)"
      using True c(3) hk by (cases val) (simp_all add: es'_def chain_map_update chain_map_delete)
    ultimately show ?thesis using repl fe se by (auto simp: k_def)
  next
    case False
    then have nk: "k \<notin> he_key ` set es" using f by simp
    then have cn: "chain_map es k = None" by (simp add: chain_map_none)
    show ?thesis
    proof (cases val)
      case None
      then have fe: "find_entry pool ht key val hval buf = Some (ht, hash, row, pos)"
        by (simp add: find_entry_def Let_def u flip: k_def row_def es_def pos_def)
      have "set_entry ht row pos val = put_chain ht row es"
        using False by (simp add: set_entry_def put_chain_def es_def)
      with fe repl [OF c(1)] cn None show ?thesis by (auto simp: k_def fun_upd_idem)
    next
      case (Some v)
      define e where "e = \<lparr>he_key = k, he_hash = hash, he_value = v\<rparr>"
      define ht' where "ht' = put_chain ht row (es @ [e])"
      have "ht\<lparr>ht_table := (ht_table ht)[row := es @ [e]], ht_count := ht_count ht + 1\<rparr> = ht'"
        by (simp add: ht'_def put_chain_def es_def)
      then have fe: "find_entry pool ht key val hval buf = Some (ht', hash, row, pos)"
        using False Some p by (auto simp: find_entry_def Let_def u e_def simp flip: k_def row_def es_def pos_def)
      have "pos = length es" using False scan_le [of hash k es] by (simp add: pos_def)
      then have "set_entry ht' row pos val = ht'"
        using Some b by (simp add: set_entry_def ht'_def put_chain_def e_def)
      moreover have "chain_ok (ht_rows ht) row (es @ [e])"
        using c(1) nk by (auto simp: chain_ok_def e_def hash_def row_def row_of_def)
      moreover have "chain_map (es @ [e]) = (chain_map es)(k := val)"
        using nk Some by (simp add: chain_map_append e_def)
      ultimately show ?thesis using fe repl [of "es @ [e]"] by (auto simp: k_def ht'_def)
    qed
  qed
qed

lemma hash_set_abs:
  assumes "hash_ok ht" "hval_ok hval key"
  shows "\<exists>ht'. pj_hash_set True ht key hval val = Some ht' \<and> hash_ok ht' \<and>
      hash_abs ht' = (hash_abs ht)(key_bytes key := val)"
    "\<exists>ht'. pj_hash_set_np ht key hval val = Some ht' \<and> hash_ok ht' \<and>
      hash_abs ht' = (hash_abs ht)(key_bytes key := val)"
  using hash_set_chain [OF assms, of True False val] hash_set_chain [OF assms, of False True val]
  by (auto simp: pj_hash_set_def pj_hash_set_np_def)

subsection \<open>Creation\<close>

lemma double_power: "push_bit 1 (2 ^ k :: u32) = 2 ^ Suc k"
  by (simp add: push_bit_eq_mult)

lemma table_size_step: "table_size_loop (2 ^ k) sz =
    (if 2 ^ Suc k < sz then table_size_loop (2 ^ Suc k) sz else Some (2 ^ Suc k))"
  by (subst table_size_loop.simps) (simp only: Let_def double_power)

lemma table_size_loop_some:
  assumes "k \<le> 30" "sz \<le> 2 ^ 31"
  shows "\<exists>m. k < m \<and> m \<le> 31 \<and> table_size_loop (2 ^ k) sz = Some (2 ^ m) \<and> sz \<le> 2 ^ m"
  using assms
proof (induction "30 - k" arbitrary: k)
  case 0
  then have k: "k = 30" by simp
  have "\<not> (2 ^ 31 :: u32) < sz" using 0 by (simp add: linorder_not_less)
  then have "table_size_loop (2 ^ 30) sz = Some (2 ^ 31)"
    unfolding table_size_step [of 30] by simp
  with 0 k show ?case by (intro exI [of _ 31]) simp
next
  case (Suc n)
  then have "n = 30 - Suc k" "Suc k \<le> 30" by simp_all
  from Suc.hyps(1) [OF this Suc.prems(2)] obtain m where
    m: "Suc k < m" "m \<le> 31" "table_size_loop (2 ^ Suc k) sz = Some (2 ^ m)" "sz \<le> 2 ^ m" by auto
  show ?case
  proof (cases "(2 ^ Suc k :: u32) < sz")
    case True
    then show ?thesis
      using m by (intro exI [of _ m]) (simp add: table_size_step [of k] del: power_Suc)
  next
    case False
    then show ?thesis using Suc.prems \<open>Suc k \<le> 30\<close>
      by (intro exI [of _ "Suc k"]) (auto simp: table_size_step [of k] simp del: power_Suc)
  qed
qed

lemma power_le_31: "k \<le> 31 \<Longrightarrow> (2 ^ k :: u32) \<le> 2 ^ 31"
proof -
  assume k: "k \<le> 31"
  then have le: "(2 :: nat) ^ k \<le> 2 ^ 31" by (rule power_increasing) simp
  have "unat (of_nat (2 ^ k) :: u32) = 2 ^ k mod 2 ^ 32" by (simp only: unat_of_nat) simp
  with le have "unat (2 ^ k :: u32) = 2 ^ k" by simp
  moreover note le
  ultimately show "(2 ^ k :: u32) \<le> 2 ^ 31" by (simp add: word_le_nat_alt)
qed

lemma table_size_loop_none:
  assumes "table_size_loop ts sz = Some y" "ts = 0 \<or> (\<exists>k \<le> 31. ts = 2 ^ k)"
  shows "sz \<le> 2 ^ 31"
  using assms
proof (induction rule: table_size_loop.raw_induct [rotated, consumes 1])
  case (1 loop ts sz y)
  have two: "push_bit 1 ts = 0 \<or> (\<exists>k \<le> 31. push_bit 1 ts = 2 ^ k)"
  proof (cases "ts = 0")
    case False
    with 1(3) obtain k where k: "k \<le> 31" "ts = 2 ^ k" by auto
    show ?thesis
    proof (cases "k = 31")
      case True
      with k show ?thesis by (simp add: double_power del: power_Suc)
    next
      case False
      with k have "Suc k \<le> 31" by simp
      moreover have "push_bit 1 ts = 2 ^ Suc k" unfolding k(2) by (rule double_power)
      ultimately show ?thesis by blast
    qed
  qed simp
  show ?case
  proof (cases "push_bit 1 ts < sz")
    case True
    with 1 two show ?thesis by (simp add: Let_def)
  next
    case False
    then have "sz \<le> push_bit 1 ts" by (simp add: linorder_not_less)
    with two power_le_31 show ?thesis by (auto intro: order_trans)
  qed
qed

lemma create_some:
  assumes "sz \<le> 2 ^ 31"
  shows "\<exists>ht m. pj_hash_create sz = Some ht \<and> hash_ok ht \<and> hash_abs ht = Map.empty \<and>
    ht_count ht = 0 \<and> ht_rows ht = 2 ^ m - 1 \<and> m \<le> 31 \<and> sz \<le> 2 ^ m"
proof -
  obtain m where m: "m \<le> 31" "table_size_loop 8 sz = Some (2 ^ m)" "sz \<le> 2 ^ m"
    using table_size_loop_some [of 3 sz] assms by auto
  define ht :: "'a pj_hash_table_t" where
    "ht = \<lparr>ht_table = replicate (unat (2 ^ m - 1 + 1 :: u32)) [], ht_count = 0, ht_rows = 2 ^ m - 1\<rparr>"
  have "(2 :: nat) ^ m < 2 ^ 32" using m(1) by (intro power_strict_increasing) simp_all
  moreover have "unat (of_nat (2 ^ m) :: u32) = 2 ^ m mod 2 ^ 32" by (simp only: unat_of_nat) simp
  ultimately have p: "unat (2 ^ m :: u32) = 2 ^ m" by simp
  then have "(2 ^ m :: u32) \<noteq> 0" by (metis power_not_zero unsigned_0 zero_neq_numeral)
  then have "unat (2 ^ m - 1 :: u32) = 2 ^ m - 1" using p by (simp add: unat_minus_one)
  then have len: "length (ht_table ht) = Suc (unat (ht_rows ht))"
    using p by (simp add: ht_def)
  have "ht_table ht ! i = []" if "i < length (ht_table ht)" for i
    using that by (simp add: ht_def)
  then have ok: "hash_ok ht"
    unfolding hash_ok_def using len by (simp add: chain_ok_def) (simp add: ht_def)
  have "hash_abs ht = Map.empty"
    using row_bound [OF ok] by (auto simp: hash_abs_def fun_eq_iff ht_def)
  moreover have "pj_hash_create sz = Some ht"
    using m(2) by (simp add: pj_hash_create_def ht_def)
  ultimately show ?thesis
    using ok m by (intro exI [of _ ht] exI [of _ m]) (simp add: ht_def)
qed

subsection \<open>The number of entries\<close>

lemma chain_at: "hash_ok ht \<Longrightarrow> i < length (ht_table ht) \<Longrightarrow> chain_ok (ht_rows ht) i (ht_table ht ! i)"
  by (simp add: hash_ok_def)

lemma row_disjoint:
  assumes "hash_ok ht" "i < length (ht_table ht)" "e \<in> set (ht_table ht ! i)"
  shows "row_of ht (hash_loop 0 (he_key e)) = i"
proof -
  have "chain_ok (ht_rows ht) i (ht_table ht ! i)" using assms(1,2) by (rule chain_at)
  with assms(3) have "he_hash e = hash_loop 0 (he_key e)" "unat (he_hash e AND ht_rows ht) = i"
    unfolding chain_ok_def by blast+
  then show ?thesis by (simp add: row_of_def)
qed

lemma dom_hash_abs:
  assumes "hash_ok ht"
  shows "dom (hash_abs ht) = set (map he_key (concat (ht_table ht)))"
proof (rule set_eqI)
  fix k
  define r where "r = row_of ht (hash_loop 0 k)"
  have b: "r < length (ht_table ht)" unfolding r_def by (rule row_bound [OF assms])
  have "k \<in> dom (hash_abs ht) \<longleftrightarrow> k \<in> he_key ` set (ht_table ht ! r)"
    using chain_map_none [of "ht_table ht ! r" k] by (auto simp: hash_abs_def dom_def r_def)
  also have "\<dots> \<longleftrightarrow> k \<in> set (map he_key (concat (ht_table ht)))"
  proof
    assume "k \<in> he_key ` set (ht_table ht ! r)"
    then show "k \<in> set (map he_key (concat (ht_table ht)))" using nth_mem [OF b] by auto
  next
    assume "k \<in> set (map he_key (concat (ht_table ht)))"
    then obtain e i where e: "i < length (ht_table ht)" "e \<in> set (ht_table ht ! i)" "k = he_key e"
      by (auto simp: in_set_conv_nth [of _ "ht_table ht"])
    with row_disjoint [OF assms e(1,2)] show "k \<in> he_key ` set (ht_table ht ! r)"
      by (auto simp: r_def)
  qed
  finally show "k \<in> dom (hash_abs ht) \<longleftrightarrow> k \<in> set (map he_key (concat (ht_table ht)))" .
qed

lemma distinct_concat_rows:
  assumes "\<And>i. i < length xss \<Longrightarrow> distinct (map f (xss ! i))"
    and "\<And>i x. i < length xss \<Longrightarrow> x \<in> set (xss ! i) \<Longrightarrow> g (f x) = n + i"
  shows "distinct (map f (concat xss))"
  using assms
proof (induction xss arbitrary: n)
  case (Cons xs xss)
  have "distinct (map f (concat xss))"
    by (rule Cons.IH [of "Suc n"]) (use Cons.prems(1,2) [of "Suc _"] in auto)
  moreover have "distinct (map f xs)" using Cons.prems(1) [of 0] by simp
  moreover have "f ` set xs \<inter> f ` set (concat xss) = {}"
  proof -
    have "g y = n" if "y \<in> f ` set xs" for y using that Cons.prems(2) [of 0] by auto
    moreover have "g y \<noteq> n" if "y \<in> f ` set (concat xss)" for y
    proof -
      from that obtain x i where "i < length xss" "x \<in> set (xss ! i)" "y = f x"
        by (auto simp: in_set_conv_nth [of _ xss])
      with Cons.prems(2) [of "Suc i" x] show ?thesis by simp
    qed
    ultimately show ?thesis by blast
  qed
  ultimately show ?case by (auto simp: distinct_append)
qed simp

lemma distinct_keys: "hash_ok ht \<Longrightarrow> distinct (map he_key (concat (ht_table ht)))"
  by (rule distinct_concat_rows [where n = 0 and g = "\<lambda>k. row_of ht (hash_loop 0 k)"])
    (simp_all add: row_disjoint chain_at [unfolded chain_ok_def])

lemma hash_count_dom:
  assumes "hash_ok ht"
  shows "pj_hash_count ht = of_nat (card (dom (hash_abs ht)))" "finite (dom (hash_abs ht))"
proof -
  have "card (dom (hash_abs ht)) = length (concat (ht_table ht))"
    unfolding dom_hash_abs [OF assms] using distinct_card [OF distinct_keys [OF assms]] by simp
  with assms show "pj_hash_count ht = of_nat (card (dom (hash_abs ht)))"
    by (simp add: hash_ok_def pj_hash_count_def)
  show "finite (dom (hash_abs ht))" unfolding dom_hash_abs [OF assms] by simp
qed

subsection \<open>Iteration\<close>

partial_function (option) hash_walk ::
  "'v pj_hash_table_t \<Rightarrow> hash_iterator option \<Rightarrow> hash_iterator list option" where
  "hash_walk ht it =
     (case it of None \<Rightarrow> Some []
      | Some i \<Rightarrow> Option.bind (hash_walk ht (pj_hash_next ht i)) (\<lambda>is. Some (i # is)))"

lemma drop_to_entry:
  assumes "distinct (map he_key (pre @ e # es))"
  shows "dropWhile (\<lambda>x. he_key x \<noteq> he_key e) (pre @ e # es) = e # es"
  using assms by (induction pre) auto

lemma walk_row:
  assumes "distinct (map he_key (ht_table ht ! i))" "ht_table ht ! i = pre @ e # es"
    and "hash_walk ht (hash_scan ht (i + 1)) = Some rest"
  shows "hash_walk ht (Some (i, he_key e)) = Some (map (\<lambda>x. (i, he_key x)) (e # es) @ rest)"
  using assms(2)
proof (induction es arbitrary: pre e)
  case Nil
  then have "pj_hash_next ht (i, he_key e) = hash_scan ht (i + 1)"
    using drop_to_entry [of pre e "[]"] assms(1) by (simp add: pj_hash_next_def)
  with assms(3) show ?case by (subst hash_walk.simps) simp
next
  case (Cons f es)
  then have "pj_hash_next ht (i, he_key e) = Some (i, he_key f)"
    using drop_to_entry [of pre e "f # es"] assms(1) by (simp add: pj_hash_next_def)
  moreover have "ht_table ht ! i = (pre @ [e]) @ f # es" using Cons.prems by simp
  ultimately show ?case using Cons.IH [of "pre @ [e]" f] by (subst hash_walk.simps) simp
qed

lemma walk_scan:
  assumes "hash_ok ht" "i \<le> length (ht_table ht)"
  shows "hash_walk ht (hash_scan ht i) =
    Some (concat (map (\<lambda>r. map (\<lambda>x. (r, he_key x)) (ht_table ht ! r)) [i..<length (ht_table ht)]))"
  using assms(2)
proof (induction "length (ht_table ht) - i" arbitrary: i)
  case 0
  then have "i = length (ht_table ht)" by simp
  with assms(1) show ?case
    by (subst hash_scan.simps) (simp add: hash_ok_def hash_walk.simps [of ht None])
next
  case (Suc n)
  then have i: "i < length (ht_table ht)" "n = length (ht_table ht) - Suc i" by simp_all
  from Suc.hyps(1) [OF i(2)] i have rest: "hash_walk ht (hash_scan ht (i + 1)) =
    Some (concat (map (\<lambda>r. map (\<lambda>x. (r, he_key x)) (ht_table ht ! r)) [Suc i..<length (ht_table ht)]))"
    by simp
  have c: "distinct (map he_key (ht_table ht ! i))" "i \<le> unat (ht_rows ht)"
    using assms(1) i by (auto simp: hash_ok_def chain_ok_def)
  show ?case
  proof (cases "ht_table ht ! i")
    case Nil
    then have "hash_scan ht i = hash_scan ht (i + 1)" using c(2) by (subst hash_scan.simps) simp
    with rest i Nil show ?thesis by (simp add: upt_conv_Cons)
  next
    case (Cons e es)
    then have "hash_scan ht i = Some (i, he_key e)" using c(2) by (subst hash_scan.simps) simp
    with walk_row [OF c(1), of "[]" e es] Cons rest i show ?thesis by (simp add: upt_conv_Cons)
  qed
qed

lemma find_unique:
  "distinct (map f es) \<Longrightarrow> e \<in> set es \<Longrightarrow> find (\<lambda>x. f x = f e) es = Some e"
  by (induction es) (auto simp: image_iff)

lemma chain_map_in: "distinct (map he_key es) \<Longrightarrow> e \<in> set es \<Longrightarrow> chain_map es (he_key e) = Some (he_value e)"
  by (induction es) (auto intro: rev_image_eqI)

section \<open>The service of a table of keys\<close>

text \<open>
  What the users of the table rely on: an invariant kept by every update, and contents that are a
  map from keys to values, with the number of its keys.
\<close>

locale key_table =
  fixes ok :: "'t \<Rightarrow> bool"
    and lookup :: "'t \<Rightarrow> 'k \<Rightarrow> 'v option"
    and put :: "'t \<Rightarrow> 'k \<Rightarrow> 'v option \<Rightarrow> 't"
    and entries_num :: "'t \<Rightarrow> u32"
  assumes ok_put: "ok t \<Longrightarrow> ok (put t k x)"
    and lookup_put: "ok t \<Longrightarrow> lookup (put t k x) = (lookup t)(k := x)"
    and num_card: "ok t \<Longrightarrow> finite (dom (lookup t)) \<and> entries_num t = of_nat (card (dom (lookup t)))"
begin

lemma put_same: "ok t \<Longrightarrow> lookup (put t k x) k = x"
  by (simp add: lookup_put)

lemma put_other: "ok t \<Longrightarrow> j \<noteq> k \<Longrightarrow> lookup (put t k x) j = lookup t j"
  by (simp add: lookup_put)

lemma put_remove: "ok t \<Longrightarrow> lookup t k = None \<Longrightarrow> lookup (put (put t k (Some v)) k None) = lookup t"
  by (simp add: lookup_put ok_put fun_upd_idem)

lemma num_insert:
  assumes "ok t" "lookup t k = None"
  shows "entries_num (put t k (Some v)) = entries_num t + 1"
proof -
  have "dom (lookup (put t k (Some v))) = insert k (dom (lookup t))" using assms by (simp add: lookup_put)
  moreover have "k \<notin> dom (lookup t)" using assms(2) by (simp add: domIff)
  ultimately show ?thesis using num_card [OF assms(1)] num_card [OF ok_put [OF assms(1)], of k "Some v"] by simp
qed

lemma num_remove:
  assumes "ok t" "lookup t k \<noteq> None"
  shows "entries_num (put t k None) = entries_num t - 1"
proof -
  have "dom (lookup (put t k None)) = dom (lookup t) - {k}" using assms by (simp add: lookup_put)
  moreover have "card (dom (lookup t)) = Suc (card (dom (lookup t) - {k}))"
    using assms num_card [OF assms(1)] by (intro card.remove) auto
  ultimately show ?thesis using num_card [OF assms(1)] num_card [OF ok_put [OF assms(1)], of k None] by simp
qed

lemma puts:
  assumes "ok t"
  shows "ok (foldl (\<lambda>t (k, x). put t k x) t kvs) \<and>
    lookup (foldl (\<lambda>t (k, x). put t k x) t kvs) = foldl (\<lambda>m (k, x). m(k := x)) (lookup t) kvs"
  using assms by (induction kvs arbitrary: t) (auto simp: ok_put lookup_put split_beta)

end

text \<open>Users of the model give the key as memory with its length and the hash value of the key.\<close>

definition hash_put :: "'v pj_hash_table_t \<Rightarrow> u8 list \<Rightarrow> 'v option \<Rightarrow> 'v pj_hash_table_t" where
  "hash_put ht k x = the (pj_hash_set True ht (Key_Mem k) (pj_hash_calc 0 (Key_Mem k)) x)"

lemma hash_put_abs:
  assumes "hash_ok ht"
  shows "hash_ok (hash_put ht k x)" "hash_abs (hash_put ht k x) = (hash_abs ht)(k := x)"
    "pj_hash_set True ht (Key_Mem k) (pj_hash_calc 0 (Key_Mem k)) x = Some (hash_put ht k x)"
  using hash_set_abs(1) [OF assms, of "pj_hash_calc 0 (Key_Mem k)" "Key_Mem k" x]
  by (auto simp: hash_put_def hval_ok_def)

interpretation ht: key_table hash_ok hash_abs hash_put pj_hash_count
  by unfold_locales (simp_all add: hash_put_abs hash_count_dom)

text \<open>Removing the entry an iterator points to: the iteration goes on with the first of the rest.\<close>

lemma scan_some:
  assumes "hash_scan ht i = Some it"
  shows "i \<le> fst it \<and> fst it \<le> unat (ht_rows ht) \<and> (\<forall>r. i \<le> r \<longrightarrow> r < fst it \<longrightarrow> ht_table ht ! r = []) \<and>
    (\<exists>e es. ht_table ht ! fst it = e # es \<and> snd it = he_key e)"
  using assms
proof (induction ht i rule: hash_scan.induct)
  case (1 ht i)
  then have i: "i \<le> unat (ht_rows ht)" by (subst (asm) hash_scan.simps) (simp split: if_splits)
  show ?case
  proof (cases "ht_table ht ! i")
    case Nil
    then have "hash_scan ht (i + 1) = Some it"
      using "1.prems" i by (subst (asm) hash_scan.simps) simp
    note IH = "1.IH" [OF i Nil this]
    have "ht_table ht ! r = []" if "i \<le> r" "r < fst it" for r
      using IH Nil that by (cases "r = i") auto
    with IH show ?thesis by auto
  next
    case (Cons e es)
    then have "it = (i, he_key e)" using "1.prems" i by (subst (asm) hash_scan.simps) simp
    with i Cons show ?thesis by auto
  qed
qed

lemma scan_cong:
  assumes "ht_rows ht' = ht_rows ht" "\<And>r. i \<le> r \<Longrightarrow> ht_table ht' ! r = ht_table ht ! r"
  shows "hash_scan ht' i = hash_scan ht i"
  using assms
proof (induction ht i rule: hash_scan.induct)
  case (1 ht i)
  have "hash_scan ht' (i + 1) = hash_scan ht (i + 1)"
    if "i \<le> unat (ht_rows ht)" "ht_table ht ! i = []"
    using "1.IH" [OF that] "1.prems" by simp
  then show ?case
    unfolding hash_scan.simps [of ht' i] hash_scan.simps [of ht i] using "1.prems"
    by (auto split: list.split)
qed

lemma scan_skip:
  assumes "i \<le> j" "j \<le> Suc (unat (ht_rows ht))" "\<And>r. i \<le> r \<Longrightarrow> r < j \<Longrightarrow> ht_table ht ! r = []"
  shows "hash_scan ht i = hash_scan ht j"
  using assms
proof (induction "j - i" arbitrary: i)
  case (Suc n)
  then have "n = j - Suc i" "i < j" "ht_table ht ! i = []" "i \<le> unat (ht_rows ht)" by auto
  with Suc.hyps(1) [of "Suc i"] Suc.prems show ?case by (subst hash_scan.simps) simp
qed simp

lemma remove_first:
  assumes ok: "hash_ok ht" and it: "pj_hash_first ht = Some it"
  shows "pj_hash_next ht it = pj_hash_first (hash_put ht (snd it) None)"
    "pj_hash_this ht it = hash_abs ht (snd it)" "hash_abs ht (snd it) \<noteq> None"
proof -
  from scan_some [OF it [unfolded pj_hash_first_def]] obtain i e es where
    i: "i \<le> unat (ht_rows ht)" "\<And>r. r < i \<Longrightarrow> ht_table ht ! r = []" "ht_table ht ! i = e # es" "it = (i, he_key e)"
    by (cases it) auto
  have len: "length (ht_table ht) = Suc (unat (ht_rows ht))" using ok by (simp add: hash_ok_def)
  then have b: "i < length (ht_table ht)" using i(1) by simp
  have e: "e \<in> set (ht_table ht ! i)" using i(3) by simp
  have row: "row_of ht (hash_loop 0 (he_key e)) = i" by (rule row_disjoint [OF ok b e])
  have d: "distinct (map he_key (ht_table ht ! i))" and hh: "he_hash e = hash_loop 0 (he_key e)"
    using chain_at [OF ok b] e unfolding chain_ok_def by blast+
  show "pj_hash_this ht it = hash_abs ht (snd it)"
    using find_unique [OF d e] chain_map_in [OF d e] row i(4) by (simp add: pj_hash_this_def hash_abs_def)
  show "hash_abs ht (snd it) \<noteq> None" using chain_map_in [OF d e] row i(4) by (simp add: hash_abs_def)
  define ht' where "ht' = hash_put ht (he_key e) None"
  have put: "ht' = ht\<lparr>ht_table := (ht_table ht)[i := es], ht_count := ht_count ht - 1\<rparr>"
    using row i(3) hh by (simp add: ht'_def hash_put_def pj_hash_set_def find_entry_def Let_def set_entry_def
        used_hash hval_ok_def pj_hash_calc_def)
  have "pj_hash_next ht it = (case es of f # fs \<Rightarrow> Some (i, he_key f) | [] \<Rightarrow> hash_scan ht (i + 1))"
    using i(3,4) by (cases es) (simp_all add: pj_hash_next_def)
  also have "hash_scan ht (i + 1) = hash_scan ht' (i + 1)"
    by (rule sym, rule scan_cong) (simp_all add: put)
  also have "(case es of f # fs \<Rightarrow> Some (i, he_key f) | [] \<Rightarrow> hash_scan ht' (i + 1)) = hash_scan ht' i"
    using i(1) b by (subst hash_scan.simps) (simp add: put split: list.split)
  also have "\<dots> = hash_scan ht' 0"
    by (rule sym, rule scan_skip) (use i(1,2) in \<open>auto simp: put\<close>)
  finally show "pj_hash_next ht it = pj_hash_first (hash_put ht (snd it) None)"
    using i(4) by (simp add: pj_hash_first_def ht'_def)
qed

section \<open>Properties\<close>

text \<open>A sequence of updates, by \<open>pj_hash_set\<close> or with the caller's buffer by \<open>pj_hash_set_np\<close>.\<close>

fun hash_run :: "'v pj_hash_table_t \<Rightarrow> (bool \<times> hash_key \<times> u32 \<times> 'v option) list \<Rightarrow> 'v pj_hash_table_t option"
  where
  "hash_run ht [] = Some ht"
| "hash_run ht ((np, key, hval, x) # us) =
     (case (if np then pj_hash_set_np ht key hval x else pj_hash_set True ht key hval x) of
        None \<Rightarrow> None | Some ht \<Rightarrow> hash_run ht us)"

lemma hash_run_ok:
  assumes "hash_ok ht" "\<forall>(np, key, hval, x) \<in> set us. hval_ok hval key"
  shows "\<exists>ht'. hash_run ht us = Some ht' \<and> hash_ok ht' \<and>
    hash_abs ht' = foldl (\<lambda>m (np, key, hval, x). m(key_bytes key := x)) (hash_abs ht) us"
  using assms
proof (induction us arbitrary: ht)
  case (Cons u us)
  obtain np key hval x where u: "u = (np, key, hval, x)" by (cases u)
  with Cons.prems have hv: "hval_ok hval key" by simp
  obtain ht1 where "(if np then pj_hash_set_np ht key hval x else pj_hash_set True ht key hval x) = Some ht1"
    "hash_ok ht1" "hash_abs ht1 = (hash_abs ht)(key_bytes key := x)"
    using hash_set_abs [OF Cons.prems(1) hv, of x] by (cases np) auto
  with Cons.IH [of ht1] Cons.prems(2) u show ?case by simp
qed simp

text \<open>
  C16: From the creation of a table of a size up to \<open>2 ^ 31\<close>, any sequence of updates with correct (or no) hash values, for
  keys given with their length or as C strings, behaves as updates of a map: a lookup finds what
  the map holds and reports the hash value of the key, and the counter is the number of keys.
\<close>

theorem hash_refines_map:
  fixes us :: "(bool \<times> hash_key \<times> u32 \<times> 'v option) list"
  assumes "sz \<le> 2 ^ 31" "\<forall>(np, key, hval, x) \<in> set us. hval_ok hval key" "hval_ok hv key"
    and "m = foldl (\<lambda>m (np, key, hval, x). m(key_bytes key := x)) Map.empty us"
  shows "\<exists>ht ht'. pj_hash_create sz = Some ht \<and> hash_run ht us = Some ht' \<and>
    pj_hash_get ht' key hv = (m (key_bytes key), pj_hash_calc 0 key) \<and>
    pj_hash_count ht' = of_nat (card (dom m))"
proof -
  obtain ht :: "'v pj_hash_table_t"
    where ht: "pj_hash_create sz = Some ht" "hash_ok ht" "hash_abs ht = Map.empty"
    using create_some [OF assms(1)] by auto
  obtain ht' where "hash_run ht us = Some ht'" "hash_ok ht'" "hash_abs ht' = m"
    using hash_run_ok [OF ht(2) assms(2)] ht(3) assms(4) by auto
  then show ?thesis
    using ht(1) hash_get_abs [of ht' hv key] hash_count_dom(1) [of ht'] assms(3) by (auto simp: calc_key)
qed

theorem hash_refines_map_witness:
  "\<exists>ht ht'. pj_hash_create 31 = Some ht \<and>
    hash_run ht [(False, Key_Mem [1, 2], 0, Some True), (True, Key_String [7, 0, 9], 7, Some False),
       (False, Key_Mem [1, 2], 35, None)] = Some ht' \<and>
    pj_hash_get ht' (Key_Mem [7]) 0 = (Some False, 7) \<and> pj_hash_count ht' = 1"
proof -
  have "{a. \<exists>y. (if a = [7 :: u8] then Some False else None) = Some y} = {[7]}" by auto
  then show ?thesis
  using hash_refines_map [of 31 "[(False, Key_Mem [1, 2], 0, Some True),
      (True, Key_String [7, 0, 9], 7, Some False), (False, Key_Mem [1, 2], 35, None)]" 0 "Key_Mem [7]",
      OF _ _ _ refl]
  by (simp add: hval_ok_def pj_hash_calc_def PJ_HASH_MULTIPLIER_def dom_def del: hash_run.simps)
qed

lemma hash_walk_all:
  assumes "hash_ok ht"
  shows "\<exists>its. hash_walk ht (pj_hash_first ht) = Some its \<and> distinct (map snd its) \<and>
    set (map snd its) = dom (hash_abs ht) \<and> (\<forall>it \<in> set its. pj_hash_this ht it = hash_abs ht (snd it))"
proof -
  define its where "its = concat (map (\<lambda>r. map (\<lambda>x. (r, he_key x)) (ht_table ht ! r)) [0..<length (ht_table ht)])"
  have w: "hash_walk ht (pj_hash_first ht) = Some its"
    using walk_scan [OF assms, of 0] by (simp add: pj_hash_first_def its_def)
  have "map (\<lambda>r. ht_table ht ! r) [0..<length (ht_table ht)] = ht_table ht" by (rule map_nth)
  then have keys: "map snd its = map he_key (concat (ht_table ht))"
    by (simp add: its_def map_concat comp_def) (metis (no_types, lifting) comp_def map_map map_cong)
  have "pj_hash_this ht it = hash_abs ht (snd it)" if "it \<in> set its" for it
  proof -
    from that obtain r e where e: "r < length (ht_table ht)" "e \<in> set (ht_table ht ! r)" "it = (r, he_key e)"
      by (auto simp: its_def)
    have d: "distinct (map he_key (ht_table ht ! r))"
      using chain_at [OF assms e(1)] by (simp add: chain_ok_def)
    show ?thesis
      using find_unique [OF d e(2)] chain_map_in [OF d e(2)] row_disjoint [OF assms e(1,2)] e(3)
      by (simp add: pj_hash_this_def hash_abs_def)
  qed
  moreover have "distinct (map snd its)" "set (map snd its) = dom (hash_abs ht)"
    unfolding keys using distinct_keys [OF assms] dom_hash_abs [OF assms] by simp_all
  ultimately show ?thesis using w by blast
qed

text \<open>
  The iterator visits every entry of the table exactly once, ends, and gives the value stored
  under each key.
\<close>

theorem hash_iteration_complete:
  assumes "hash_ok ht"
  shows "\<exists>its. hash_walk ht (pj_hash_first ht) = Some its \<and> distinct (map snd its) \<and>
    set (map snd its) = dom (hash_abs ht) \<and> (\<forall>it \<in> set its. pj_hash_this ht it = hash_abs ht (snd it))"
  using hash_walk_all [OF assms] .

lemma create_bound:
  assumes "pj_hash_create sz = Some ht"
  shows "sz \<le> 2 ^ 31"
proof -
  obtain y where "table_size_loop 8 sz = Some y"
    using assms by (auto simp: pj_hash_create_def split: option.splits)
  moreover have "\<exists>k \<le> 31. (8 :: u32) = 2 ^ k" by (rule exI [of _ 3]) simp
  ultimately show ?thesis using table_size_loop_none by blast
qed

text \<open>
  Creating a table for up to \<open>2^31\<close> entries ends with a table of a power of two of rows, at
  least as many as asked for; for a larger size the doubling of the number of rows wraps to 0 and
  the loop never ends.
\<close>

theorem hash_create_terminates:
  "((pj_hash_create sz :: 'v pj_hash_table_t option) \<noteq> None) = (sz \<le> 2 ^ 31) \<and>
   (\<forall>ht :: 'v pj_hash_table_t. pj_hash_create sz = Some ht \<longrightarrow> (\<exists>m. ht_rows ht = 2 ^ m - 1 \<and> sz \<le> 2 ^ m) \<and>
      hash_ok ht \<and> pj_hash_count ht = 0)"
proof (cases "sz \<le> 2 ^ 31")
  case True
  from create_some [OF this, where 'a = 'v] show ?thesis using True by (auto simp: pj_hash_count_def)
next
  case False
  then have "(pj_hash_create sz :: 'v pj_hash_table_t option) = None"
    using create_bound [of sz, where 'a = 'v] by (cases "pj_hash_create sz :: 'v pj_hash_table_t option") auto
  with False show ?thesis by simp
qed

theorem hash_create_terminates_witness:
  "\<exists>ht :: nat pj_hash_table_t. pj_hash_create 1023 = Some ht \<and> hash_ok ht \<and> pj_hash_count ht = 0"
proof -
  have "(pj_hash_create 1023 :: nat pj_hash_table_t option) \<noteq> None"
    using hash_create_terminates [of 1023, where 'v = nat] by simp
  then show ?thesis using hash_create_terminates [of 1023, where 'v = nat] by blast
qed

text \<open>Witnesses are computed on a small table.\<close>

definition ex_table :: "nat pj_hash_table_t" where
  "ex_table = foldl (\<lambda>t (k, x). hash_put t k x) (the (pj_hash_create 16))
     [([1, 2], Some 10), ([3], Some 20), ([], Some 30)]"

lemma ex_table_ok: "hash_ok ex_table"
proof -
  obtain ht :: "nat pj_hash_table_t" where "pj_hash_create 16 = Some ht" "hash_ok ht"
    using create_some [of 16, where 'a = nat] by auto
  then show ?thesis by (simp add: ex_table_def ht.ok_put)
qed

theorem hash_iteration_complete_witness:
  "\<exists>its. hash_walk ex_table (pj_hash_first ex_table) = Some its \<and> distinct (map snd its)"
  using hash_iteration_complete [OF ex_table_ok] by blast

end
