(* ===== verification/Tsx_Layer.thy ===== *)
theory Tsx_Layer
  imports Sip_tsx_correct Pj_string Hash_Table
begin

text \<open>
  The transaction layer of \<open>sip_transaction.c\<close>: the keys that match messages to transactions, and
  the hash table in which the transactions are registered (theory \<open>Hash_Table\<close>), with the
  reception of messages and the shutdown of the layer.
\<close>

section \<open>Transaction keys\<close>

record pjsip_method =
  method_id :: pjsip_method_e
  method_name :: string

text \<open>
  What the key functions read of a received message: the branch parameter and the sent-by host
  and port of the top Via, the CSeq number, the From tag (\<open>None\<close> when there is no From header),
  and the Call-ID.  The callers have read the Via and the CSeq header before.
\<close>

record pjsip_rx_data =
  rx_branch :: string
  rx_cseq :: u32
  rx_method :: pjsip_method
  rx_from_tag :: "string option"
  rx_call_id :: string
  rx_host :: string
  rx_port :: u32
  rx_msg :: sip_msg

definition PJSIP_RFC3261_BRANCH_ID :: string where
  "PJSIP_RFC3261_BRANCH_ID = ''z9hG4bK''"

definition SEPARATOR :: char where
  "SEPARATOR = CHR ''$''"

definition role_char :: "pjsip_role_e \<Rightarrow> char" where
  "role_char r = (if r = PJSIP_ROLE_UAC then CHR ''c'' else CHR ''s'')"

definition key_method :: "pjsip_method \<Rightarrow> string" where
  "key_method m =
     (if method_id m \<noteq> PJSIP_INVITE_METHOD \<and> method_id m \<noteq> PJSIP_ACK_METHOD
      then method_name m @ [SEPARATOR] else [])"

definition key_2543_required :: "pjsip_rx_data \<Rightarrow> nat" where
  "key_2543_required rx = 9 + length (the (rx_from_tag rx)) + length (rx_call_id rx) +
     length (rx_host rx) + 9 + 16"

text \<open>
  \<open>create_tsx_key_2543\<close>: the status, or the bytes written, from the start of a buffer of
  \<open>key_2543_required\<close> bytes.
\<close>

definition create_tsx_key_2543 ::
  "pjsip_role_e \<Rightarrow> pjsip_method \<Rightarrow> pjsip_rx_data \<Rightarrow> pj_status_t + string" where
  "create_tsx_key_2543 r m rx =
     (case rx_from_tag rx of None \<Rightarrow> Inl PJSIP_EMISSINGHDR
      | Some tag \<Rightarrow> Inr ([role_char r, SEPARATOR] @ key_method m @
          pj_utoa (rx_cseq rx) @ [SEPARATOR] @ tag @ [SEPARATOR] @ rx_call_id rx @ [SEPARATOR] @
          rx_host rx @ [CHR '':''] @ pj_utoa (rx_port rx) @ [SEPARATOR] @ [CHR 0x00]))"

definition create_tsx_key_3261 :: "pjsip_role_e \<Rightarrow> pjsip_method \<Rightarrow> string \<Rightarrow> string" where
  "create_tsx_key_3261 r m branch = [role_char r, SEPARATOR] @ key_method m @ branch"

definition rfc3261 :: "string \<Rightarrow> bool" where
  "rfc3261 branch = (take (length PJSIP_RFC3261_BRANCH_ID) branch = PJSIP_RFC3261_BRANCH_ID)"

definition pjsip_tsx_create_key ::
  "pjsip_role_e \<Rightarrow> pjsip_method \<Rightarrow> pjsip_rx_data \<Rightarrow> pj_status_t + string" where
  "pjsip_tsx_create_key r m rx =
     (if rfc3261 (rx_branch rx) then Inr (create_tsx_key_3261 r m (rx_branch rx))
      else create_tsx_key_2543 r m rx)"

section \<open>The layer\<close>

text \<open>
  Transactions are objects in a store; the table holds pointers to them.  \<open>tl_registered\<close> is False
  after the endpoint has unregistered the module (it sets \<open>mod.id\<close> to -1), \<open>tl_endpt\<close> is False when
  \<open>endpt\<close> is NULL.
\<close>

record tsx_layer =
  tl_table :: "nat pj_hash_table_t"
  tl_tsx :: "nat \<Rightarrow> pjsip_transaction"
  tl_key :: "nat \<Rightarrow> string"
  tl_registered :: bool
  tl_endpt :: bool

definition key_mem :: "string \<Rightarrow> u8 list" where
  "key_mem s = map of_char s"

text \<open>
  Initialisation; the failures of allocations and of the registration with the endpoint are left
  out.  The creation of a table for more than \<open>2^31\<close> transactions does not end (\<open>None\<close>).
\<close>

definition pjsip_tsx_layer_init_module :: "u32 \<Rightarrow> tsx_layer \<Rightarrow> (tsx_layer \<times> pj_status_t) option" where
  "pjsip_tsx_layer_init_module max_count l =
     (if tl_endpt l then Some (l, PJ_EINVALIDOP)
      else case pj_hash_create max_count of
             None \<Rightarrow> None
           | Some ht \<Rightarrow> Some (l\<lparr>tl_endpt := True, tl_table := ht, tl_registered := True\<rparr>, PJ_SUCCESS))"

definition mod_tsx_layer_register_tsx :: "tsx_layer \<Rightarrow> nat \<Rightarrow> tsx_layer \<times> pj_status_t" where
  "mod_tsx_layer_register_tsx l p =
     (let key = Key_Mem (key_mem (tl_key l p))
      in if fst (pj_hash_get (tl_table l) key 0) \<noteq> None then (l, PJ_EEXISTS)
         else (l\<lparr>tl_table := the (pj_hash_set True (tl_table l) key (pj_hash_calc 0 key) (Some p))\<rparr>,
               PJ_SUCCESS))"

definition mod_tsx_layer_unregister_tsx :: "tsx_layer \<Rightarrow> nat \<Rightarrow> tsx_layer" where
  "mod_tsx_layer_unregister_tsx l p =
     (if \<not> tl_registered l then l
      else
        let key = Key_Mem (key_mem (tl_key l p))
        in l\<lparr>tl_table := the (pj_hash_set False (tl_table l) key (pj_hash_calc 0 key) None)\<rparr>)"

definition pjsip_tsx_layer_get_tsx_count :: "tsx_layer \<Rightarrow> u32" where
  "pjsip_tsx_layer_get_tsx_count l = (if \<not> tl_endpt l then 0 else pj_hash_count (tl_table l))"

definition pjsip_tsx_layer_find_tsx :: "tsx_layer \<Rightarrow> string \<Rightarrow> nat option" where
  "pjsip_tsx_layer_find_tsx l key = fst (pj_hash_get (tl_table l) (Key_Mem (key_mem key)) 0)"

text \<open>
  Storing what an operation did to a transaction; if the operation destroyed it, it has
  unregistered itself.
\<close>

definition update_tsx :: "tsx_layer \<Rightarrow> nat \<Rightarrow> pjsip_transaction \<Rightarrow> tsx_layer" where
  "update_tsx l p t =
     (let l1 = l\<lparr>tl_tsx := (tl_tsx l)(p := t)\<rparr>
      in if A_Unregister \<in> set (drop (length (actions (tl_tsx l p))) (actions t))
         then mod_tsx_layer_unregister_tsx l1 p else l1)"

text \<open>
  Reception.  The transport has refused messages without From, Call-ID, Via or CSeq before, so the
  creation of the key does not fail here; the code does not look at its status.
\<close>

definition layer_rx :: "tsx_env \<Rightarrow> tsx_layer \<Rightarrow> pj_status_t + string \<Rightarrow> sip_msg \<Rightarrow> tsx_layer \<times> bool" where
  "layer_rx env l key m =
     (case (case key of Inl e \<Rightarrow> None | Inr k \<Rightarrow> pjsip_tsx_layer_find_tsx l k) of
        None \<Rightarrow> (l, False)
      | Some p \<Rightarrow>
          if state (tl_tsx l p) = PJSIP_TSX_STATE_TERMINATED then (l, False)
          else (update_tsx l p (pjsip_tsx_recv_msg env (tl_tsx l p) m), True))"

definition mod_tsx_layer_on_rx_request :: "tsx_env \<Rightarrow> tsx_layer \<Rightarrow> pjsip_rx_data \<Rightarrow> tsx_layer \<times> bool" where
  "mod_tsx_layer_on_rx_request env l rx =
     layer_rx env l (pjsip_tsx_create_key PJSIP_ROLE_UAS (rx_method rx) rx) (rx_msg rx)"

definition mod_tsx_layer_on_rx_response :: "tsx_env \<Rightarrow> tsx_layer \<Rightarrow> pjsip_rx_data \<Rightarrow> tsx_layer \<times> bool" where
  "mod_tsx_layer_on_rx_response env l rx =
     layer_rx env l (pjsip_tsx_create_key PJSIP_ROLE_UAC (rx_method rx) rx) (rx_msg rx)"

text \<open>
  Creation of a transaction, with its key: the registration is the last step, whose status the
  creation returns.
\<close>

definition register_new :: "tsx_layer \<Rightarrow> nat \<Rightarrow> string \<Rightarrow>
    (pj_status_t \<Rightarrow> pjsip_transaction option \<times> pj_status_t) \<Rightarrow> tsx_layer \<times> pj_status_t" where
  "register_new l p key create =
     (let (l1, reg) = mod_tsx_layer_register_tsx (l\<lparr>tl_key := (tl_key l)(p := key)\<rparr>) p
      in case create reg of
           (None, st) \<Rightarrow> (l, st)
         | (Some t, st) \<Rightarrow> (l1\<lparr>tl_tsx := (tl_tsx l1)(p := t)\<rparr>, st))"

text \<open>
  A server transaction gets the key of the request it is created for (whose method is that of the
  CSeq header), a client transaction the key of the branch of its request.
\<close>

definition layer_create_uas :: "tsx_env \<Rightarrow> tsx_layer \<Rightarrow> nat \<Rightarrow> pjsip_module option \<Rightarrow> pjsip_rx_data \<Rightarrow>
    pj_status_t \<times> nat option \<times> bool \<Rightarrow> tsx_layer \<times> pj_status_t" where
  "layer_create_uas env l p user rx res_addr =
     (let create = (\<lambda>key reg. pjsip_tsx_create_uas env user (rx_msg rx) True True (method_id (rx_method rx))
                      key res_addr reg)
      in case pjsip_tsx_create_key PJSIP_ROLE_UAS (rx_method rx) rx of
           Inl e \<Rightarrow> (l, snd (create e PJ_SUCCESS))
         | Inr key \<Rightarrow> register_new l p key (create PJ_SUCCESS))"

definition layer_create_uac :: "tsx_layer \<Rightarrow> nat \<Rightarrow> pjsip_module option \<Rightarrow> tdata \<Rightarrow> string \<Rightarrow> string \<Rightarrow>
    bool \<Rightarrow> pj_status_t \<times> bool \<Rightarrow> tsx_layer \<times> pj_status_t" where
  "layer_create_uac l p user td name branch has_cseq dest =
     (let create = pjsip_tsx_create_uac user td has_cseq dest
      in case td_msg td of
           Response c me \<Rightarrow> (l, snd (create PJ_SUCCESS))
         | Request me \<Rightarrow>
             register_new l p (create_tsx_key_3261 PJSIP_ROLE_UAC \<lparr>method_id = me, method_name = name\<rparr> branch)
               create)"

text \<open>The shutdown of the layer terminates, unregisters and destroys every transaction.\<close>

definition shut_tsx :: "tsx_layer \<Rightarrow> nat \<Rightarrow> tsx_layer" where
  "shut_tsx l p =
     (let l = l\<lparr>tl_tsx := (tl_tsx l)(p := fst (pjsip_tsx_terminate (tl_tsx l p) 503))\<rparr>;
          l = mod_tsx_layer_unregister_tsx l p
      in l\<lparr>tl_tsx := (tl_tsx l)(p := fst (tsx_destroy (tl_tsx l p)))\<rparr>)"

partial_function (option) stop_loop :: "tsx_layer \<Rightarrow> hash_iterator option \<Rightarrow> tsx_layer option" where
  "stop_loop l it =
     (case it of None \<Rightarrow> Some l
      | Some i \<Rightarrow>
          let tsx = pj_hash_this (tl_table l) i;
              next_it = pj_hash_next (tl_table l) i;
              l = (case tsx of None \<Rightarrow> l | Some p \<Rightarrow> shut_tsx l p)
          in stop_loop l next_it)"

definition mod_tsx_layer_stop :: "tsx_layer \<Rightarrow> tsx_layer option" where
  "mod_tsx_layer_stop l = stop_loop l (pj_hash_first (tl_table l))"

definition mod_tsx_layer_unload :: "tsx_layer \<Rightarrow> tsx_layer \<times> pj_status_t" where
  "mod_tsx_layer_unload l =
     (if pj_hash_count (tl_table l) \<noteq> 0 then (l, PJ_EBUSY)
      else (l\<lparr>tl_endpt := False\<rparr>, PJ_SUCCESS))"

section \<open>Keys identify transactions\<close>

lemma split_at_sep:
  assumes "c \<notin> set a" "c \<notin> set b"
  shows "a @ c # r = b @ c # s \<longleftrightarrow> a = b \<and> r = s"
proof
  assume eq: "a @ c # r = b @ c # s"
  have "takeWhile (\<lambda>x. x \<noteq> c) (a @ c # r) = a" using assms(1) by (subst takeWhile_append2) auto
  moreover have "takeWhile (\<lambda>x. x \<noteq> c) (b @ c # s) = b" using assms(2) by (subst takeWhile_append2) auto
  ultimately show "a = b \<and> r = s" using eq by auto
qed simp

lemma split_at_last:
  assumes "c \<notin> set r" "c \<notin> set s"
  shows "a @ c # r = b @ c # s \<longleftrightarrow> a = b \<and> r = s"
proof -
  have "a @ c # r = b @ c # s \<longleftrightarrow> rev r @ c # rev a = rev s @ c # rev b"
    by (metis append.assoc append_Cons append_Nil rev.simps(2) rev_append rev_rev_ident)
  then show ?thesis using split_at_sep [of c "rev r" "rev s"] assms by auto
qed

lemma no_sep_in: "c \<notin> set a \<Longrightarrow> a \<noteq> b @ c # r"
  by auto

lemma utoa_no_sep: "SEPARATOR \<notin> set (pj_utoa v)" "CHR '':'' \<notin> set (pj_utoa v)"
  using pj_utoa_isdigit [of SEPARATOR v] pj_utoa_isdigit [of "CHR '':''" v]
  by (auto simp: SEPARATOR_def pj_isdigit_def)

lemma utoa_inj [simp]: "pj_utoa v = pj_utoa w \<longleftrightarrow> v = w"
  by (metis pj_utoa_rev strtoul_digits)

text \<open>
  What the fields of a key must not contain.  The parser takes a method by \<open>pjsip_TOKEN_SPEC\<close>, which does not have
  the separator; that it begins neither with a digit nor with the mark of an RFC 3261 branch is an
  assumption.  Nothing is asked of the branch, of the Call-ID, or of messages with an RFC 3261 branch; in the
  others the separator must not be in the From tag and the sent-by host, where the parser lets it
  through in brackets or as \<open>%24\<close>.
\<close>

definition method_ok :: "string \<Rightarrow> bool" where
  "method_ok name \<longleftrightarrow> SEPARATOR \<notin> set name \<and> name \<noteq> [] \<and> \<not> pj_isdigit (hd name) \<and> \<not> rfc3261 name"

definition rx_clean :: "pjsip_method \<Rightarrow> pjsip_rx_data \<Rightarrow> bool" where
  "rx_clean m rx \<longleftrightarrow> method_ok (method_name m) \<and>
     (\<not> rfc3261 (rx_branch rx) \<longrightarrow> SEPARATOR \<notin> set (rx_host rx) \<and>
       (\<exists>tag. rx_from_tag rx = Some tag \<and> SEPARATOR \<notin> set tag))"

definition method_class :: "pjsip_method \<Rightarrow> string option" where
  "method_class m = (if method_id m = PJSIP_INVITE_METHOD \<or> method_id m = PJSIP_ACK_METHOD then None
     else Some (method_name m))"

definition same_tsx :: "pjsip_rx_data \<Rightarrow> pjsip_rx_data \<Rightarrow> bool" where
  "same_tsx a b \<longleftrightarrow>
     (if rfc3261 (rx_branch a) \<or> rfc3261 (rx_branch b) then rx_branch a = rx_branch b
      else rx_cseq a = rx_cseq b \<and> rx_from_tag a = rx_from_tag b \<and> rx_call_id a = rx_call_id b \<and>
        rx_host a = rx_host b \<and> rx_port a = rx_port b)"

text \<open>The rest of a key, after the role and the separator.\<close>

definition key_2543_rest :: "pjsip_rx_data \<Rightarrow> string \<Rightarrow> string" where
  "key_2543_rest rx tag = pj_utoa (rx_cseq rx) @ SEPARATOR # tag @ SEPARATOR # rx_call_id rx @ SEPARATOR #
     (rx_host rx @ CHR '':'' # pj_utoa (rx_port rx)) @ SEPARATOR # [CHR 0x00]"

lemma host_no_sep: "SEPARATOR \<notin> set (rx_host rx) \<Longrightarrow> SEPARATOR \<notin> set (rx_host rx @ CHR '':'' # pj_utoa (rx_port rx))"
  by (auto simp: utoa_no_sep) (simp add: SEPARATOR_def)

lemma rest_eq:
  assumes "SEPARATOR \<notin> set ta" "SEPARATOR \<notin> set tb" "SEPARATOR \<notin> set (rx_host a)" "SEPARATOR \<notin> set (rx_host b)"
  shows "key_2543_rest a ta = key_2543_rest b tb \<longleftrightarrow> rx_cseq a = rx_cseq b \<and> ta = tb \<and>
    rx_call_id a = rx_call_id b \<and> rx_host a = rx_host b \<and> rx_port a = rx_port b"
proof -
  note h = host_no_sep [OF assms(3)] host_no_sep [OF assms(4)]
  have tail: "c @ SEPARATOR # hp @ SEPARATOR # [CHR 0x00] = d @ SEPARATOR # hq @ SEPARATOR # [CHR 0x00] \<longleftrightarrow>
      c @ SEPARATOR # hp = d @ SEPARATOR # hq" for c d hp hq
    using append_same_eq [of "c @ SEPARATOR # hp" "[SEPARATOR, CHR 0x00]" "d @ SEPARATOR # hq"] by simp
  show ?thesis unfolding key_2543_rest_def
    by (simp only: split_at_sep [OF utoa_no_sep(1) utoa_no_sep(1)] split_at_sep [OF assms(1,2)] tail
        split_at_last [OF h] split_at_last [OF utoa_no_sep(2) utoa_no_sep(2)] utoa_inj simp_thms conj_assoc)
qed

definition key_id :: "pjsip_rx_data \<Rightarrow> string" where
  "key_id rx = (if rfc3261 (rx_branch rx) then rx_branch rx else key_2543_rest rx (the (rx_from_tag rx)))"

lemma key_shape:
  assumes "rx_clean m rx"
  shows "pjsip_tsx_create_key r m' rx = Inr (role_char r # SEPARATOR # key_method m' @ key_id rx)"
  using assms
  by (auto simp: pjsip_tsx_create_key_def create_tsx_key_2543_def create_tsx_key_3261_def key_id_def
      key_2543_rest_def rx_clean_def)

text \<open>An identification begins with the mark of a branch or with a digit, a method name with neither.\<close>

lemma key_id_start:
  "rfc3261 (rx_branch rx) \<Longrightarrow> rfc3261 (key_id rx)"
  "\<not> rfc3261 (rx_branch rx) \<Longrightarrow> \<exists>d ds. key_id rx = d # ds \<and> pj_isdigit d"
proof -
  show "rfc3261 (rx_branch rx) \<Longrightarrow> rfc3261 (key_id rx)" by (simp add: key_id_def)
  obtain d ds where "pj_utoa (rx_cseq rx) = d # ds" by (cases "pj_utoa (rx_cseq rx)") auto
  moreover from this have "pj_isdigit d" using pj_utoa_isdigit [of d "rx_cseq rx"] by simp
  ultimately show "\<not> rfc3261 (rx_branch rx) \<Longrightarrow> \<exists>d ds. key_id rx = d # ds \<and> pj_isdigit d"
    by (simp add: key_id_def key_2543_rest_def)
qed

lemma rfc3261_not_digit: "rfc3261 (d # ds) \<Longrightarrow> \<not> pj_isdigit d"
  by (auto simp: rfc3261_def PJSIP_RFC3261_BRANCH_ID_def pj_isdigit_def)

lemma method_not_mark:
  assumes "method_ok x"
  shows "\<not> rfc3261 (x @ SEPARATOR # r)"
proof
  assume mark: "rfc3261 (x @ SEPARATOR # r)"
  have len: "length PJSIP_RFC3261_BRANCH_ID = 7" by (simp add: PJSIP_RFC3261_BRANCH_ID_def)
  show False
  proof (cases "7 \<le> length x")
    case True
    then show ?thesis using assms mark by (simp add: method_ok_def rfc3261_def PJSIP_RFC3261_BRANCH_ID_def)
  next
    case False
    then have "SEPARATOR \<in> set (take 7 (x @ SEPARATOR # r))" by (simp add: take_Cons')
    also have "take 7 (x @ SEPARATOR # r) = PJSIP_RFC3261_BRANCH_ID"
      using mark unfolding rfc3261_def by (simp only: len)
    finally show False by (simp add: SEPARATOR_def PJSIP_RFC3261_BRANCH_ID_def)
  qed
qed

lemma id_not_longer:
  assumes "method_ok x"
  shows "key_id rx \<noteq> x @ SEPARATOR # r"
proof (cases "rfc3261 (rx_branch rx)")
  case True
  then show ?thesis using key_id_start(1) [OF True] method_not_mark [OF assms, of r] by metis
next
  case False
  then show ?thesis using key_id_start(2) [OF False] assms by (cases x) (auto simp: method_ok_def)
qed

lemma id_eq:
  assumes "rx_clean m a" "rx_clean m' b"
  shows "key_id a = key_id b \<longleftrightarrow> same_tsx a b"
proof (cases "rfc3261 (rx_branch a) \<or> rfc3261 (rx_branch b)")
  case True
  then show ?thesis
    using key_id_start [of a] key_id_start [of b] rfc3261_not_digit
    by (cases "rfc3261 (rx_branch a)"; cases "rfc3261 (rx_branch b)") (auto simp: key_id_def same_tsx_def)
next
  case False
  then obtain ta tb where "rx_from_tag a = Some ta" "SEPARATOR \<notin> set ta" "rx_from_tag b = Some tb" "SEPARATOR \<notin> set tb"
    "SEPARATOR \<notin> set (rx_host a)" "SEPARATOR \<notin> set (rx_host b)"
    using assms by (auto simp: rx_clean_def)
  then show ?thesis using rest_eq [of ta tb a b] False by (simp add: key_id_def same_tsx_def)
qed

lemma key_identifies:
  assumes "rx_clean m a" "rx_clean m' b"
  shows "pjsip_tsx_create_key r m a = pjsip_tsx_create_key r' m' b \<longleftrightarrow>
    r = r' \<and> method_class m = method_class m' \<and> same_tsx a b"
proof -
  have m: "method_ok (method_name m)" "method_ok (method_name m')"
    using assms by (simp_all add: rx_clean_def)
  then have n: "SEPARATOR \<notin> set (method_name m)" "SEPARATOR \<notin> set (method_name m')"
    by (simp_all add: method_ok_def)
  have role: "role_char r = role_char r' \<longleftrightarrow> r = r'"
    by (cases r; cases r') (simp_all add: role_char_def)
  have "key_method m @ key_id a = key_method m' @ key_id b \<longleftrightarrow>
      method_class m = method_class m' \<and> key_id a = key_id b"
    using id_not_longer [OF m(2), of a "key_id b"] id_not_longer [OF m(1), of b "key_id a"]
    by (auto simp: key_method_def method_class_def split_at_sep [OF n])
  then show ?thesis
    using id_eq [OF assms] role by (simp add: key_shape [OF assms(1)] key_shape [OF assms(2)])
qed

text \<open>
  C15: Two messages get the same transaction key exactly when they are handled in the same role, their
  methods are equal or both one of INVITE and ACK, and they have the same branch or, when none of the
  two branches is one of RFC 3261, the same CSeq number, From tag, Call-ID and sent-by address; provided that
  the method names begin neither with a digit nor with the mark of a branch, and that From tag and sent-by
  host of a message without RFC 3261 branch do not contain the separator (\<open>rx_clean\<close>).
\<close>

theorem tsx_key_identifies:
  assumes "rx_clean m a" "rx_clean m' b"
  shows "pjsip_tsx_create_key r m a = pjsip_tsx_create_key r' m' b \<longleftrightarrow>
    r = r' \<and> method_class m = method_class m' \<and> same_tsx a b"
  by (rule key_identifies [OF assms])

definition ex_rx :: "string \<Rightarrow> pjsip_rx_data" where
  "ex_rx branch = \<lparr>rx_branch = branch, rx_cseq = 1, rx_method = \<lparr>method_id = PJSIP_BYE_METHOD, method_name = ''BYE''\<rparr>,
     rx_from_tag = Some ''t'', rx_call_id = ''c'', rx_host = ''h'', rx_port = 5060,
     rx_msg = Request PJSIP_BYE_METHOD\<rparr>"

theorem tsx_key_identifies_witness:
  "pjsip_tsx_create_key PJSIP_ROLE_UAS (rx_method (ex_rx ''z9hG4bKa'')) (ex_rx ''z9hG4bKa'') \<noteq>
    pjsip_tsx_create_key PJSIP_ROLE_UAS (rx_method (ex_rx ''z9hG4bKb'')) (ex_rx ''z9hG4bKb'')"
  using tsx_key_identifies [of "rx_method (ex_rx ''z9hG4bKa'')" "ex_rx ''z9hG4bKa''"
      "rx_method (ex_rx ''z9hG4bKb'')" "ex_rx ''z9hG4bKb''" PJSIP_ROLE_UAS PJSIP_ROLE_UAS]
  by (simp add: rx_clean_def method_ok_def pj_isdigit_def ex_rx_def same_tsx_def rfc3261_def
      PJSIP_RFC3261_BRANCH_ID_def SEPARATOR_def)

text \<open>A From tag with the separator, which the parser accepts in brackets, makes two different messages the same.\<close>

lemma tsx_key_collision:
  fixes a b :: pjsip_rx_data
  defines "a \<equiv> (ex_rx ''old'')\<lparr>rx_from_tag := Some ''a$b'', rx_call_id := ''c''\<rparr>"
    and "b \<equiv> (ex_rx ''old'')\<lparr>rx_from_tag := Some ''a'', rx_call_id := ''b$c''\<rparr>"
  shows "pjsip_tsx_create_key r m a = pjsip_tsx_create_key r m b \<and> \<not> same_tsx a b"
  by (simp add: a_def b_def ex_rx_def pjsip_tsx_create_key_def create_tsx_key_2543_def same_tsx_def rfc3261_def
      PJSIP_RFC3261_BRANCH_ID_def SEPARATOR_def)

lemma key_2543_length:
  assumes "create_tsx_key_2543 r m rx = Inr key"
  shows "length key + 26 = key_2543_required rx + length (key_method m) + length (pj_utoa (rx_cseq rx)) +
    length (pj_utoa (rx_port rx))"
  using assms
  by (auto simp: create_tsx_key_2543_def key_2543_required_def split: option.splits)

text \<open>
  The key of RFC 2543 messages fits into its buffer when the method name has at most 10
  characters and the port is below 65536, but the size of the buffer does not count the method
  name: with a method name of 26 characters or more the key is written beyond the end.
\<close>

theorem key_2543_buffer:
  assumes "create_tsx_key_2543 r m rx = Inr key"
  shows "(length (method_name m) \<le> 10 \<and> rx_port rx < 65536 \<longrightarrow> length key \<le> key_2543_required rx) \<and>
    (26 \<le> length (method_name m) \<and> method_class m \<noteq> None \<longrightarrow> key_2543_required rx < length key)"
proof -
  note len = key_2543_length [OF assms]
  have m: "length (key_method m) \<le> Suc (length (method_name m))" by (simp add: key_method_def)
  have "length (pj_utoa (rx_port rx)) \<le> 5" if "rx_port rx < 65536"
    using that by (intro pj_utoa_length) (simp_all add: word_less_nat_alt)
  moreover have "length (key_method m) = Suc (length (method_name m))" if "method_class m \<noteq> None"
    using that by (simp add: key_method_def method_class_def split: if_splits)
  moreover have "length (pj_utoa x) > 0" for x by simp
  ultimately show ?thesis using len m pj_utoa_length10 [of "rx_cseq rx"] by fastforce
qed

theorem key_2543_buffer_witness:
  "\<exists>key. create_tsx_key_2543 PJSIP_ROLE_UAS \<lparr>method_id = PJSIP_OTHER_METHOD, method_name = replicate 40 CHR ''X''\<rparr>
      (ex_rx ''old'') = Inr key \<and> key_2543_required (ex_rx ''old'') < length key"
proof -
  define m where "m = \<lparr>method_id = PJSIP_OTHER_METHOD, method_name = replicate 40 CHR ''X''\<rparr>"
  obtain key where k: "create_tsx_key_2543 PJSIP_ROLE_UAS m (ex_rx ''old'') = Inr key"
    by (simp add: create_tsx_key_2543_def ex_rx_def)
  have "26 \<le> length (method_name m) \<and> method_class m \<noteq> None" by (simp add: m_def method_class_def)
  with k key_2543_buffer [OF k] show ?thesis unfolding m_def by blast
qed

section \<open>Registration and shutdown\<close>

text \<open>
  The layer rests on the service of the hash table (\<open>key_table\<close>).  Its invariant: the table is well
  formed and every entry is filed under the key of its transaction.
\<close>

definition layer_ok :: "tsx_layer \<Rightarrow> bool" where
  "layer_ok l \<longleftrightarrow> hash_ok (tl_table l) \<and>
     (\<forall>k p. hash_abs (tl_table l) k = Some p \<longrightarrow> k = key_mem (tl_key l p))"

lemma key_mem_inj [simp]: "key_mem a = key_mem b \<longleftrightarrow> a = b"
proof -
  have "inj (of_char :: char \<Rightarrow> u8)"
  proof (rule injI)
    fix x y :: char
    assume "(of_char x :: u8) = of_char y"
    then have "unat (of_nat (of_char x) :: u8) = unat (of_nat (of_char y) :: u8)"
      by (simp only: of_nat_of_char)
    then show "x = y" using nat_of_char_less_256 [of x] nat_of_char_less_256 [of y]
      by (simp add: unat_of_nat)
  qed
  then show ?thesis by (simp add: key_mem_def inj_map_eq_map)
qed

lemma find_abs: "hash_ok (tl_table l) \<Longrightarrow>
    pjsip_tsx_layer_find_tsx l key = hash_abs (tl_table l) (key_mem key)"
  by (simp add: pjsip_tsx_layer_find_tsx_def hash_get_abs hval_ok_def)

lemma register_eq: "hash_ok (tl_table l) \<Longrightarrow> mod_tsx_layer_register_tsx l p =
    (if hash_abs (tl_table l) (key_mem (tl_key l p)) \<noteq> None then (l, PJ_EEXISTS)
     else (l\<lparr>tl_table := hash_put (tl_table l) (key_mem (tl_key l p)) (Some p)\<rparr>, PJ_SUCCESS))"
  by (simp add: mod_tsx_layer_register_tsx_def hash_get_abs hval_ok_def hash_put_abs)

lemma unregister_abs:
  assumes "hash_ok ht"
  shows "the (pj_hash_set False ht (Key_Mem k) (pj_hash_calc 0 (Key_Mem k)) None) = hash_put ht k None"
  by (simp add: hash_put_def pj_hash_set_def find_entry_def)

lemma unregister_eq: "hash_ok (tl_table l) \<Longrightarrow> mod_tsx_layer_unregister_tsx l p =
    (if tl_registered l then l\<lparr>tl_table := hash_put (tl_table l) (key_mem (tl_key l p)) None\<rparr> else l)"
  by (simp add: mod_tsx_layer_unregister_tsx_def unregister_abs)

text \<open>The events of the layer.  A new transaction is placed where no registered one is.\<close>

definition tsx_used :: "tsx_layer \<Rightarrow> nat set" where
  "tsx_used l = ran (hash_abs (tl_table l))"

inductive layer_step :: "tsx_env \<Rightarrow> tsx_layer \<Rightarrow> tsx_layer \<Rightarrow> bool" for env where
  layer_uas: "layer_step env l (fst (layer_create_uas env l p user rx res_addr))" if "p \<notin> tsx_used l"
| layer_uac: "layer_step env l (fst (layer_create_uac l p user td name branch has_cseq dest))"
    if "p \<notin> tsx_used l"
| layer_request: "layer_step env l (fst (mod_tsx_layer_on_rx_request env l rx))"
| layer_response: "layer_step env l (fst (mod_tsx_layer_on_rx_response env l rx))"
| layer_tsx: "layer_step env l (update_tsx l p t)" if "tsx_step env (tl_tsx l p) e t"

inductive layer_run :: "tsx_env \<Rightarrow> tsx_layer \<Rightarrow> tsx_layer \<Rightarrow> bool" for env where
  layer_start: "layer_run env l0 l" if "pjsip_tsx_layer_init_module max_count l0 = Some (l, PJ_SUCCESS)"
| layer_next: "layer_run env l0 l'" if "layer_run env l0 l" "layer_step env l l'"

definition layer_inv :: "tsx_layer \<Rightarrow> bool" where
  "layer_inv l \<longleftrightarrow> layer_ok l \<and> tl_registered l \<and> tl_endpt l \<and>
     (\<forall>p \<in> tsx_used l. tsx_core (tl_tsx l p) \<and> timed (tl_tsx l p))"

lemma layer_inv_hash: "layer_inv l \<Longrightarrow> hash_ok (tl_table l)"
  by (simp add: layer_inv_def layer_ok_def)

lemma layer_ok_key: "layer_ok l \<Longrightarrow> hash_abs (tl_table l) k = Some p \<Longrightarrow> k = key_mem (tl_key l p)"
  by (simp add: layer_ok_def)

lemma used_iff: "layer_ok l \<Longrightarrow> p \<in> tsx_used l \<longleftrightarrow> hash_abs (tl_table l) (key_mem (tl_key l p)) = Some p"
  by (auto simp: tsx_used_def ran_def layer_ok_def)

text \<open>A transaction that is destroyed by a step unregisters itself.\<close>

abbreviation new_actions :: "pjsip_transaction \<Rightarrow> pjsip_transaction \<Rightarrow> tsx_action list" where
  "new_actions t t' \<equiv> drop (length (actions t)) (actions t')"

lemma set_state_unregisters:
  "\<exists>as bs. actions (tsx_set_state t PJSIP_TSX_STATE_DESTROYED ev) = actions t @ as @ A_Unregister # bs"
proof -
  define u where "u = notify_user ev (state t)
     ((pj_assert (PJSIP_TSX_STATE_DESTROYED \<ge> state t) t)\<lparr>state := PJSIP_TSX_STATE_DESTROYED,
        state_handler := tsx_handler_for (role t) PJSIP_TSX_STATE_DESTROYED\<rparr>)"
  have eq: "tsx_set_state t PJSIP_TSX_STATE_DESTROYED ev = fst (tsx_destroy (emit A_Unregister u))"
    by (simp add: tsx_set_state_def Let_def u_def tsx_handler_for_def pj_assert_def)
  have "\<exists>as. actions u = actions t @ as" by (simp add: u_def notify_user_told pj_assert_def)
  moreover have "\<exists>bs. actions (fst (tsx_destroy v)) = actions v @ bs" for v
    by (simp add: tsx_destroy_def Let_def tsx_update_transport_def split: option.split)
  ultimately show ?thesis by (metis actions_emit append.assoc append_Cons append_Nil eq)
qed

lemma step_unregisters:
  assumes step: "tsx_step env t e t'" and core: "tsx_core t" and tm: "timed t" and env: "env_ok env"
    and d: "state t' = PJSIP_TSX_STATE_DESTROYED"
  shows "A_Unregister \<in> set (new_actions t t')"
proof -
  have "steps_ok t t'" by (rule core_step_ok [OF step core tm env])
  then have "tsx_edge (role t) (tsx_method t) (state t) PJSIP_TSX_STATE_DESTROYED"
    using d by (simp add: steps_ok_def)
  then have s: "state t = PJSIP_TSX_STATE_TERMINATED"
    using core by (auto elim: tsx_edgeE simp: tsx_core_def)
  have live: "state v = PJSIP_TSX_STATE_TERMINATED" if "handled t v" for v
    using that s by (auto simp: handled_def moves_def tsx_core_def elim: tsx_edgeE)
  have handler: "A_Unregister \<in> set (new_actions t (fst (call_state_handler env u ev)))"
    if "tsx_core u" "state u = PJSIP_TSX_STATE_TERMINATED" "actions u = actions t" for u ev
  proof -
    have "state_handler u = Some on_state_terminated"
      using that by (cases "role u") (simp_all add: core_state_handler tsx_state_handler_uac_def
          tsx_state_handler_uas_def)
    then have "fst (call_state_handler env u ev) = fst (tsx_on_state_terminated env u ev)"
      by (simp add: call_state_handler_def)
    then obtain b c where "fst (call_state_handler env u ev) =
        tsx_set_state (pj_assert b (pj_assert c u)) PJSIP_TSX_STATE_DESTROYED ev"
      by (simp add: tsx_on_state_terminated_def Let_def)
    moreover obtain as bs where "actions (tsx_set_state (pj_assert b (pj_assert c u))
        PJSIP_TSX_STATE_DESTROYED ev) = actions (pj_assert b (pj_assert c u)) @ as @ A_Unregister # bs"
      using set_state_unregisters by blast
    ultimately show ?thesis using that(3) by (auto simp: pj_assert_def)
  qed
  show ?thesis
    using step
  proof cases
    case (step_send x)
    show ?thesis
    proof (cases "if x = None then last_tx t else x")
      case None
      then have "state t' = state t" using step_send by (simp add: fst_send_msg pj_assert_def)
      then show ?thesis using d s by simp
    next
      case (Some td)
      have "fst (pjsip_tsx_send_msg env t x) = fst (call_state_handler env t (EV_TX_MSG td)) \<or>
          fst (pjsip_tsx_send_msg env t x) = emit (A_TdDecRef (td_ptr td)) (fst (call_state_handler env t (EV_TX_MSG td)))"
        using Some by (simp add: fst_send_msg)
      then show ?thesis using handler [OF core s refl, of "EV_TX_MSG td"] step_send(2) by auto
    qed
  next
    case (step_recv m)
    then show ?thesis using handler [OF core s refl] by (simp add: pjsip_tsx_recv_msg_def)
  next
    case (step_timer w)
    define u where "u = set_timer_id w 0 (timer_fired w t)"
    have "tsx_core u" unfolding u_def by (rule fired_core [OF core])
    moreover have "state u = PJSIP_TSX_STATE_TERMINATED" "actions u = actions t"
      using s by (cases w; simp add: u_def set_timer_id_def timer_fired_def)+
    ultimately show ?thesis using handler step_timer by (simp add: tsx_timer_callback_def u_def)
  qed (use live [of t'] d in \<open>simp add: send_callback_ok transport_callback_ok tp_state_callback_ok terminate_ok stop_retransmit_ok
      set_timeout_ok retransmit_no_state_ok core tm env\<close>)+
qed

text \<open>How the operations change the table.\<close>

lemma update_fields:
  assumes "hash_ok (tl_table l)" "tl_registered l"
  shows "tl_table (update_tsx l p t) =
      (if A_Unregister \<in> set (new_actions (tl_tsx l p) t)
       then hash_put (tl_table l) (key_mem (tl_key l p)) None else tl_table l)"
    "tl_tsx (update_tsx l p t) = (tl_tsx l)(p := t)" "tl_key (update_tsx l p t) = tl_key l"
    "tl_registered (update_tsx l p t)" "tl_endpt (update_tsx l p t) = tl_endpt l"
  using assms by (simp_all add: update_tsx_def Let_def unregister_eq)

lemma update_inv:
  assumes inv: "layer_inv l"
    and t: "p \<in> tsx_used l \<Longrightarrow> A_Unregister \<notin> set (new_actions (tl_tsx l p) t) \<Longrightarrow> tsx_core t \<and> timed t"
  shows "layer_inv (update_tsx l p t)"
proof -
  note f = update_fields [OF layer_inv_hash [OF inv], of p t]
  have r: "tl_registered l" "tl_endpt l" "layer_ok l" using inv by (simp_all add: layer_inv_def)
  have h: "hash_ok (tl_table l)" by (rule layer_inv_hash [OF inv])
  have h': "hash_ok (tl_table (update_tsx l p t))"
    using f(1) [OF r(1)] hash_put_abs(1) [OF h] h by simp
  have abs: "hash_abs (tl_table (update_tsx l p t)) = (if A_Unregister \<in> set (new_actions (tl_tsx l p) t)
      then (hash_abs (tl_table l))(key_mem (tl_key l p) := None) else hash_abs (tl_table l))"
    using f(1) [OF r(1)] hash_put_abs(2) [OF h] by simp
  have sub: "hash_abs (tl_table l) k = Some q \<and> (q = p \<longrightarrow> A_Unregister \<notin> set (new_actions (tl_tsx l p) t))"
    if "hash_abs (tl_table (update_tsx l p t)) k = Some q" for k q
    using that layer_ok_key [OF r(3), of k q] unfolding abs by (auto split: if_splits)
  have "layer_ok (update_tsx l p t)"
    unfolding layer_ok_def f(3) [OF r(1)] using h' sub layer_ok_key [OF r(3)] by blast
  moreover have "tsx_core (tl_tsx (update_tsx l p t) q) \<and> timed (tl_tsx (update_tsx l p t) q)"
    if "q \<in> tsx_used (update_tsx l p t)" for q
  proof -
    from that obtain k where "hash_abs (tl_table (update_tsx l p t)) k = Some q"
      by (auto simp: tsx_used_def ran_def)
    from sub [OF this] have "q \<in> tsx_used l" "q = p \<longrightarrow> A_Unregister \<notin> set (new_actions (tl_tsx l p) t)"
      by (auto simp: tsx_used_def intro: ranI)
    then show ?thesis using t inv r by (auto simp: f layer_inv_def)
  qed
  ultimately show ?thesis using f r by (simp add: layer_inv_def)
qed

text \<open>A creation function that needs the registration to succeed.\<close>

definition creates :: "(pj_status_t \<Rightarrow> pjsip_transaction option \<times> pj_status_t) \<Rightarrow> bool" where
  "creates create \<longleftrightarrow> (\<forall>reg t st. create reg = (Some t, st) \<longrightarrow>
     reg = PJ_SUCCESS \<and> st = PJ_SUCCESS \<and> tsx_core t \<and> timed t \<and> state t = PJSIP_TSX_STATE_NULL) \<and>
     (\<forall>reg. create reg \<noteq> (None, PJ_SUCCESS)) \<and>
     (\<forall>t reg. create PJ_SUCCESS = (Some t, PJ_SUCCESS) \<longrightarrow> reg \<noteq> PJ_SUCCESS \<longrightarrow> create reg = (None, reg))"

lemma creates_some:
  assumes "creates create" "create reg = (Some t, st)"
  shows "reg = PJ_SUCCESS" "st = PJ_SUCCESS" "tsx_core t" "timed t" "state t = PJSIP_TSX_STATE_NULL"
  using assms unfolding creates_def by blast+

lemma creates_none:
  assumes "creates create"
  shows "create reg \<noteq> (None, PJ_SUCCESS)"
    "create PJ_SUCCESS = (Some t, PJ_SUCCESS) \<Longrightarrow> reg \<noteq> PJ_SUCCESS \<Longrightarrow> create reg = (None, reg)"
  using assms unfolding creates_def by blast+

lemma creates_uas: "creates (pjsip_tsx_create_uas env user m has_cseq has_via me key res_addr)"
proof -
  have "reg = PJ_SUCCESS \<and> st = PJ_SUCCESS"
    if "pjsip_tsx_create_uas env user m has_cseq has_via me key res_addr reg = (Some t, st)" for reg t st
    using that by (auto simp: pjsip_tsx_create_uas_def Let_def split: sip_msg.splits if_splits prod.splits)
  moreover have "pjsip_tsx_create_uas env user m has_cseq has_via me key res_addr reg \<noteq> (None, PJ_SUCCESS)" for reg
    by (auto simp: pjsip_tsx_create_uas_def Let_def split: sip_msg.split if_split prod.split)
  moreover have "pjsip_tsx_create_uas env user m has_cseq has_via me key res_addr reg = (None, reg)"
    if "pjsip_tsx_create_uas env user m has_cseq has_via me key res_addr PJ_SUCCESS = (Some t, PJ_SUCCESS)" "reg \<noteq> PJ_SUCCESS" for t reg
    using that by (auto simp: pjsip_tsx_create_uas_def Let_def split: sip_msg.splits if_splits prod.splits)
  ultimately show ?thesis unfolding creates_def using created_ok created_uas by metis
qed

lemma creates_uac: "creates (pjsip_tsx_create_uac user td has_cseq dest)"
proof -
  have "reg = PJ_SUCCESS \<and> st = PJ_SUCCESS"
    if "pjsip_tsx_create_uac user td has_cseq dest reg = (Some t, st)" for reg t st
    using that by (auto simp: pjsip_tsx_create_uac_def Let_def split: sip_msg.splits if_splits)
  moreover have "pjsip_tsx_create_uac user td has_cseq dest reg \<noteq> (None, PJ_SUCCESS)" for reg
    by (auto simp: pjsip_tsx_create_uac_def Let_def split: sip_msg.split if_split)
  moreover have "pjsip_tsx_create_uac user td has_cseq dest reg = (None, reg)"
    if "pjsip_tsx_create_uac user td has_cseq dest PJ_SUCCESS = (Some t, PJ_SUCCESS)" "reg \<noteq> PJ_SUCCESS" for t reg
    using that by (auto simp: pjsip_tsx_create_uac_def Let_def split: sip_msg.splits if_splits)
  ultimately show ?thesis unfolding creates_def using created_ok created_uac by metis
qed

lemma register_new_cases:
  assumes c: "creates create" and h: "hash_ok (tl_table l)"
  shows "(\<exists>t. register_new l p key create =
        (l\<lparr>tl_key := (tl_key l)(p := key), tl_table := hash_put (tl_table l) (key_mem key) (Some p),
           tl_tsx := (tl_tsx l)(p := t)\<rparr>, PJ_SUCCESS) \<and>
        create PJ_SUCCESS = (Some t, PJ_SUCCESS) \<and> hash_abs (tl_table l) (key_mem key) = None) \<or>
    (\<exists>reg st. register_new l p key create = (l, st) \<and> create reg = (None, st) \<and>
       reg = (if hash_abs (tl_table l) (key_mem key) = None then PJ_SUCCESS else PJ_EEXISTS))"
proof -
  define l0 where "l0 = l\<lparr>tl_key := (tl_key l)(p := key)\<rparr>"
  have r: "mod_tsx_layer_register_tsx l0 p =
    (if hash_abs (tl_table l) (key_mem key) \<noteq> None then (l0, PJ_EEXISTS)
     else (l0\<lparr>tl_table := hash_put (tl_table l) (key_mem key) (Some p)\<rparr>, PJ_SUCCESS))"
    using register_eq [of l0 p] h by (simp add: l0_def)
  show ?thesis
  proof (cases "hash_abs (tl_table l) (key_mem key)")
    case None
    then have "mod_tsx_layer_register_tsx l0 p = (l0\<lparr>tl_table := hash_put (tl_table l) (key_mem key) (Some p)\<rparr>, PJ_SUCCESS)"
      using r by simp
    then have e: "register_new l p key create = (case create PJ_SUCCESS of (None, st) \<Rightarrow> (l, st)
      | (Some t, st) \<Rightarrow> (l0\<lparr>tl_table := hash_put (tl_table l) (key_mem key) (Some p), tl_tsx := (tl_tsx l)(p := t)\<rparr>, st))"
      unfolding register_new_def by (simp add: l0_def split: prod.split option.split)
    obtain x st where x: "create PJ_SUCCESS = (x, st)" by force
    show ?thesis using creates_some(2) [OF c] None e x by (cases x) (auto simp: l0_def)
  next
    case (Some q)
    then have "mod_tsx_layer_register_tsx l0 p = (l0, PJ_EEXISTS)" using r by simp
    then have e: "register_new l p key create = (case create PJ_EEXISTS of (None, st) \<Rightarrow> (l, st)
      | (Some t, st) \<Rightarrow> (l0\<lparr>tl_tsx := (tl_tsx l)(p := t)\<rparr>, st))"
      unfolding register_new_def by (simp add: l0_def split: prod.split option.split)
    obtain x st where x: "create PJ_EEXISTS = (x, st)" by force
    moreover have "x = None" using creates_some(1) [OF c, of PJ_EEXISTS] x by (cases x) force+
    ultimately show ?thesis using Some e by auto
  qed
qed

lemma register_new_inv:
  assumes inv: "layer_inv l" and c: "creates create" and p: "p \<notin> tsx_used l"
  shows "layer_inv (fst (register_new l p key create))"
  using register_new_cases [OF c layer_inv_hash [OF inv], of p key]
proof (elim disjE exE conjE)
  fix t
  define l1 where "l1 = l\<lparr>tl_key := (tl_key l)(p := key), tl_table := hash_put (tl_table l) (key_mem key) (Some p),
           tl_tsx := (tl_tsx l)(p := t)\<rparr>"
  assume reg: "register_new l p key create = (l\<lparr>tl_key := (tl_key l)(p := key),
      tl_table := hash_put (tl_table l) (key_mem key) (Some p), tl_tsx := (tl_tsx l)(p := t)\<rparr>, PJ_SUCCESS)"
    and t: "create PJ_SUCCESS = (Some t, PJ_SUCCESS)"
  have abs: "hash_abs (tl_table l1) = (hash_abs (tl_table l))(key_mem key \<mapsto> p)" "hash_ok (tl_table l1)"
    using layer_inv_hash [OF inv] by (simp_all add: l1_def hash_put_abs)
  have np: "hash_abs (tl_table l) k \<noteq> Some p" for k using p by (auto simp: tsx_used_def intro: ranI)
  have ok: "layer_ok l1"
    using inv np by (auto simp: layer_ok_def abs layer_inv_def) (auto simp: l1_def)
  have used: "tsx_used l1 \<subseteq> insert p (tsx_used l)" by (auto simp: tsx_used_def ran_def abs)
  have "tsx_core t \<and> timed t" using creates_some(3,4) [OF c t] by simp
  then have "\<forall>q \<in> tsx_used l1. tsx_core (tl_tsx l1 q) \<and> timed (tl_tsx l1 q)"
    using used inv by (auto simp: l1_def layer_inv_def)
  with ok inv have "layer_inv l1" by (simp add: layer_inv_def) (simp add: l1_def)
  with reg show ?thesis by (simp add: l1_def)
qed (use inv in simp)

lemma rx_inv:
  assumes inv: "layer_inv l" and env: "env_ok env"
  shows "layer_inv (fst (layer_rx env l key m))"
proof -
  have "layer_inv (update_tsx l p (pjsip_tsx_recv_msg env (tl_tsx l p) m))" for p
  proof (rule update_inv [OF inv])
    assume "p \<in> tsx_used l" and u: "A_Unregister \<notin> set (new_actions (tl_tsx l p) (pjsip_tsx_recv_msg env (tl_tsx l p) m))"
    then have c: "tsx_core (tl_tsx l p)" "timed (tl_tsx l p)" using inv by (simp_all add: layer_inv_def)
    then have "tsx_step env (tl_tsx l p) (E_Recv m) (pjsip_tsx_recv_msg env (tl_tsx l p) m)"
      by (intro step_recv) (simp add: tsx_core_def tsx_base_def)
    from step_unregisters [OF this c env] u core_step_ok [OF this c env]
    show "tsx_core (pjsip_tsx_recv_msg env (tl_tsx l p) m) \<and> timed (pjsip_tsx_recv_msg env (tl_tsx l p) m)"
      by (auto simp: steps_ok_def tsx_ok_def tsx_dying_def tsx_freed_def)
  qed
  then show ?thesis using inv by (simp add: layer_rx_def split: option.split)
qed

lemma layer_step_inv:
  assumes step: "layer_step env l l'" and inv: "layer_inv l" and env: "env_ok env"
  shows "layer_inv l'"
  using step
proof cases
  case (layer_uas p user rx res_addr)
  then show ?thesis
    using inv register_new_inv [OF inv creates_uas layer_uas(2)]
    by (simp add: layer_create_uas_def Let_def split: sum.split)
next
  case (layer_uac p user td name branch has_cseq dest)
  then show ?thesis
    using inv register_new_inv [OF inv creates_uac layer_uac(2)]
    by (simp add: layer_create_uac_def Let_def split: sip_msg.split)
next
  case (layer_tsx p e t)
  show ?thesis
    unfolding layer_tsx(1)
  proof (rule update_inv [OF inv])
    assume "p \<in> tsx_used l" and u: "A_Unregister \<notin> set (new_actions (tl_tsx l p) t)"
    then have c: "tsx_core (tl_tsx l p)" "timed (tl_tsx l p)" using inv by (simp_all add: layer_inv_def)
    from step_unregisters [OF layer_tsx(2) c env] u core_step_ok [OF layer_tsx(2) c env]
    show "tsx_core t \<and> timed t" by (auto simp: steps_ok_def tsx_ok_def tsx_dying_def tsx_freed_def)
  qed
qed (simp_all add: mod_tsx_layer_on_rx_request_def mod_tsx_layer_on_rx_response_def rx_inv inv env)

lemma layer_init_inv:
  assumes "pjsip_tsx_layer_init_module max_count l0 = Some (l, PJ_SUCCESS)"
  shows "layer_inv l" "hash_abs (tl_table l) = Map.empty"
proof -
  obtain ht where ht: "pj_hash_create max_count = Some ht" "\<not> tl_endpt l0"
    "l = l0\<lparr>tl_endpt := True, tl_table := ht, tl_registered := True\<rparr>"
    using assms by (auto simp: pjsip_tsx_layer_init_module_def split: if_splits option.splits)
  from create_bound [OF this(1)] have "max_count \<le> 2 ^ 31" .
  from create_some [OF this, where 'a = nat] ht have "hash_ok ht \<and> hash_abs ht = Map.empty" by auto
  with ht show "layer_inv l" "hash_abs (tl_table l) = Map.empty"
    by (simp_all add: layer_inv_def layer_ok_def tsx_used_def)
qed

lemma layer_run_inv: "layer_run env l0 l \<Longrightarrow> env_ok env \<Longrightarrow> layer_inv l"
  by (induction rule: layer_run.induct) (auto simp: layer_init_inv layer_step_inv)

subsection \<open>Shutdown\<close>

lemma fun_upd_None_ran: "m k = Some p \<Longrightarrow> ran m = insert p (ran (m(k := None)))"
  by (auto simp: ran_def) (metis option.inject)

definition shut :: "pjsip_transaction \<Rightarrow> pjsip_transaction" where
  "shut t = fst (tsx_destroy (fst (pjsip_tsx_terminate t 503)))"

lemma shut_gone:
  assumes "tsx_core t"
  shows "if state t = PJSIP_TSX_STATE_TERMINATED \<and> TSX_HAS_PENDING_TRANSPORT \<in> transport_flag t
    then \<not> released (shut t) \<and> TSX_HAS_PENDING_DESTROY \<in> transport_flag (shut t) else tsx_gone (shut t)"
proof (cases "state t = PJSIP_TSX_STATE_TERMINATED")
  case True
  then have "shut t = fst (tsx_destroy t)" by (simp add: shut_def pjsip_tsx_terminate_def)
  then show ?thesis using True assms tsx_destroy_base(2,3) [of t] by (auto simp: tsx_core_def tsx_base_def)
next
  case False
  then have lt: "\<not> state t \<ge> PJSIP_TSX_STATE_TERMINATED"
    using assms by (cases "state t") (auto simp: tsx_core_def)
  define u where "u = tsx_set_state (tsx_set_status_code t 503) PJSIP_TSX_STATE_TERMINATED EV_USER"
  have "shut t = fst (tsx_destroy u)" using lt by (simp add: shut_def pjsip_tsx_terminate_def u_def)
  moreover have "tsx_core (tsx_set_status_code t 503)" using assms by (simp add: core_step)
  then have "tsx_base u"
    unfolding u_def using core_set_state_terminated by (simp add: tsx_core_def)
  moreover have "TSX_HAS_PENDING_TRANSPORT \<notin> transport_flag u" by (simp add: u_def set_state_terminated)
  ultimately show ?thesis using tsx_destroy_base(3) [of u] False by simp
qed

lemma shut_tsx_eq:
  assumes "hash_ok (tl_table l)" "tl_registered l"
  shows "shut_tsx l p = l\<lparr>tl_tsx := (tl_tsx l)(p := shut (tl_tsx l p)),
    tl_table := hash_put (tl_table l) (key_mem (tl_key l p)) None\<rparr>"
  using assms by (simp add: shut_tsx_def Let_def unregister_eq shut_def)

lemma stop_loop_all:
  assumes "layer_ok l" "tl_registered l"
  shows "\<exists>l'. stop_loop l (pj_hash_first (tl_table l)) = Some l' \<and> hash_ok (tl_table l') \<and>
    hash_abs (tl_table l') = Map.empty \<and>
    tl_tsx l' = (\<lambda>q. if q \<in> tsx_used l then shut (tl_tsx l q) else tl_tsx l q) \<and> tl_endpt l' = tl_endpt l"
  using assms
proof (induction "card (dom (hash_abs (tl_table l)))" arbitrary: l rule: less_induct)
  case less
  have h: "hash_ok (tl_table l)" using less.prems(1) by (simp add: layer_ok_def)
  show ?case
  proof (cases "pj_hash_first (tl_table l)")
    case None
    obtain its where "hash_walk (tl_table l) None = Some its" "set (map snd its) = dom (hash_abs (tl_table l))"
      using hash_walk_all [OF h] None by auto
    then have "dom (hash_abs (tl_table l)) = {}" by (simp add: hash_walk.simps)
    then have "hash_abs (tl_table l) = Map.empty" by simp
    then show ?thesis using None h by (simp add: stop_loop.simps [of l None] tsx_used_def)
  next
    case (Some it)
    note r = remove_first [OF h Some]
    obtain p where p: "hash_abs (tl_table l) (snd it) = Some p" using r(3) by auto
    then have k: "snd it = key_mem (tl_key l p)" by (rule layer_ok_key [OF less.prems(1)])
    define l1 where "l1 = shut_tsx l p"
    have l1: "l1 = l\<lparr>tl_tsx := (tl_tsx l)(p := shut (tl_tsx l p)), tl_table := hash_put (tl_table l) (snd it) None\<rparr>"
      unfolding l1_def k by (rule shut_tsx_eq [OF h less.prems(2)])
    have abs: "hash_abs (tl_table l1) = (hash_abs (tl_table l))(snd it := None)" "hash_ok (tl_table l1)"
      using hash_put_abs [OF h] by (simp_all add: l1)
    have loop: "stop_loop l (Some it) = stop_loop l1 (pj_hash_first (tl_table l1))"
      using r(1,2) p by (subst stop_loop.simps) (simp add: Let_def l1_def [symmetric], simp add: l1)
    have u: "tsx_used l = insert p (tsx_used l1)" "p \<notin> tsx_used l1"
    proof -
      have "k' = snd it" if "hash_abs (tl_table l) k' = Some p" for k'
        using layer_ok_key [OF less.prems(1) that] k by simp
      then show "p \<notin> tsx_used l1" by (auto simp: tsx_used_def ran_def abs)
      show "tsx_used l = insert p (tsx_used l1)"
        unfolding tsx_used_def abs(1) using p by (rule fun_upd_None_ran)
    qed
    have "dom (hash_abs (tl_table l1)) = dom (hash_abs (tl_table l)) - {snd it}" by (auto simp: abs)
    moreover have "finite (dom (hash_abs (tl_table l)))" using hash_count_dom [OF h] by simp
    moreover have "snd it \<in> dom (hash_abs (tl_table l))" using p by auto
    ultimately have smaller: "card (dom (hash_abs (tl_table l1))) < card (dom (hash_abs (tl_table l)))"
      by (metis card_Diff1_less)
    have "layer_ok l1" using less.prems(1) by (simp add: layer_ok_def abs) (simp add: l1)
    moreover have "tl_registered l1" using less.prems(2) by (simp add: l1)
    ultimately obtain l' where l': "stop_loop l1 (pj_hash_first (tl_table l1)) = Some l'" "hash_ok (tl_table l')"
      "hash_abs (tl_table l') = Map.empty" "tl_endpt l' = tl_endpt l1"
      "tl_tsx l' = (\<lambda>q. if q \<in> tsx_used l1 then shut (tl_tsx l1 q) else tl_tsx l1 q)"
      using less.hyps [OF smaller] by blast
    have "tl_tsx l' = (\<lambda>q. if q \<in> tsx_used l then shut (tl_tsx l q) else tl_tsx l q)"
      using u by (simp add: l'(5) fun_eq_iff) (simp add: l1)
    moreover have "stop_loop l (pj_hash_first (tl_table l)) = Some l'" using loop l'(1) Some by simp
    moreover have "tl_endpt l' = tl_endpt l" using l'(4) by (simp add: l1)
    ultimately show ?thesis using l'(2,3) by blast
  qed
qed

subsection \<open>An example\<close>

definition ex_l0 :: tsx_layer where
  "ex_l0 = \<lparr>tl_table = \<lparr>ht_table = [], ht_count = 0, ht_rows = 0\<rparr>, tl_tsx = (\<lambda>p. tsx_create None),
     tl_key = (\<lambda>p. ''''), tl_registered = False, tl_endpt = False\<rparr>"

definition ex_addr :: "pj_status_t \<times> nat option \<times> bool" where
  "ex_addr = (PJ_SUCCESS, Some 2, False)"

lemma ex_rx_clean: "rx_clean (rx_method (ex_rx branch)) (ex_rx branch)"
  by (simp add: rx_clean_def method_ok_def ex_rx_def SEPARATOR_def pj_isdigit_def rfc3261_def PJSIP_RFC3261_BRANCH_ID_def)

lemma ex_start: "\<exists>l. pjsip_tsx_layer_init_module 16 ex_l0 = Some (l, PJ_SUCCESS)"
  using create_some [of 16, where 'a = nat] by (auto simp: pjsip_tsx_layer_init_module_def ex_l0_def)

lemma ex_create:
  assumes "hash_ok (tl_table l)" "hash_abs (tl_table l) = Map.empty"
  shows "\<exists>l'. layer_create_uas ex_env l 1 ex_user (ex_rx ''z9hG4bKa'') ex_addr = (l', PJ_SUCCESS)"
proof -
  define create where "create = pjsip_tsx_create_uas ex_env ex_user (rx_msg (ex_rx ''z9hG4bKa'')) True True
     (method_id (rx_method (ex_rx ''z9hG4bKa''))) PJ_SUCCESS ex_addr"
  have cr: "creates create" unfolding create_def by (rule creates_uas)
  have "\<exists>t. create PJ_SUCCESS = (Some t, PJ_SUCCESS)"
    by (simp add: create_def pjsip_tsx_create_uas_def ex_rx_def ex_addr_def Let_def)
  then have "\<exists>l'. register_new l 1 key create = (l', PJ_SUCCESS)" for key
    using register_new_cases [OF cr assms(1), of 1 key] assms(2) by auto
  then show ?thesis
    by (simp add: layer_create_uas_def Let_def key_shape [OF ex_rx_clean] flip: create_def)
qed

lemma ex_layer:
  obtains l l' where "layer_run ex_env ex_l0 l" "hash_abs (tl_table l) = Map.empty"
    "layer_create_uas ex_env l 1 ex_user (ex_rx ''z9hG4bKa'') ex_addr = (l', PJ_SUCCESS)"
    "layer_run ex_env ex_l0 l'"
proof -
  obtain l where l: "pjsip_tsx_layer_init_module 16 ex_l0 = Some (l, PJ_SUCCESS)" using ex_start by auto
  note i = layer_init_inv [OF l]
  obtain l' where l': "layer_create_uas ex_env l 1 ex_user (ex_rx ''z9hG4bKa'') ex_addr = (l', PJ_SUCCESS)"
    using ex_create [OF layer_inv_hash [OF i(1)] i(2)] by auto
  have run: "layer_run ex_env ex_l0 l" using l by (rule layer_start)
  have "layer_step ex_env l (fst (layer_create_uas ex_env l 1 ex_user (ex_rx ''z9hG4bKa'') ex_addr))"
    by (rule layer_uas) (simp add: tsx_used_def i(2))
  then have "layer_run ex_env ex_l0 l'" using run l' layer_next by fastforce
  then show thesis using that run i(2) l' by blast
qed

subsection \<open>Properties of the layer\<close>

text \<open>
  C6: In every state the layer reaches from its initialisation by creating transactions, receiving
  messages and the events of its transactions, a transaction that is found under a key has that
  key, has not been destroyed or freed, and has a state handler; and the number of transactions
  reported is that of the transactions found.
\<close>

theorem layer_run_safe:
  assumes "layer_run env l0 l" "env_ok env"
  shows "(\<forall>key p. pjsip_tsx_layer_find_tsx l key = Some p \<longrightarrow> tl_key l p = key \<and> \<not> released (tl_tsx l p) \<and>
      state (tl_tsx l p) \<noteq> PJSIP_TSX_STATE_DESTROYED \<and> state_handler (tl_tsx l p) \<noteq> None) \<and>
    pjsip_tsx_layer_get_tsx_count l = of_nat (card {p. \<exists>key. pjsip_tsx_layer_find_tsx l key = Some p})"
proof (intro conjI allI impI)
  have inv: "layer_inv l" by (rule layer_run_inv [OF assms])
  then have ok: "layer_ok l" and h: "hash_ok (tl_table l)" by (simp_all add: layer_inv_def layer_ok_def)
  note find = find_abs [OF h]
  fix key p
  assume "pjsip_tsx_layer_find_tsx l key = Some p"
  then have a: "hash_abs (tl_table l) (key_mem key) = Some p" by (simp add: find)
  then have c: "tsx_core (tl_tsx l p)" using inv by (auto simp: layer_inv_def tsx_used_def intro: ranI)
  show "tl_key l p = key" using layer_ok_key [OF ok a] by simp
  show "\<not> released (tl_tsx l p)" "state (tl_tsx l p) \<noteq> PJSIP_TSX_STATE_DESTROYED"
    using c by (simp_all add: tsx_core_def tsx_base_def)
  then show "state_handler (tl_tsx l p) \<noteq> None" using c by (intro ok_handler) (simp_all add: tsx_ok_def)
next
  have inv: "layer_inv l" by (rule layer_run_inv [OF assms])
  then have ok: "layer_ok l" and h: "hash_ok (tl_table l)" by (simp_all add: layer_inv_def layer_ok_def)
  define m where "m = hash_abs (tl_table l)"
  have key: "m k = Some p \<Longrightarrow> k = key_mem (tl_key l p)" for k p
    unfolding m_def by (rule layer_ok_key [OF ok])
  then have inj: "inj_on (the \<circ> m) (dom m)" by (intro inj_onI) (auto, metis)
  have "{p. \<exists>key. pjsip_tsx_layer_find_tsx l key = Some p} = ran m"
    using key by (auto simp: find_abs [OF h] m_def ran_def)
  also have "ran m = (the \<circ> m) ` dom m" by (force simp: ran_def dom_def image_iff)
  finally have "card {p. \<exists>key. pjsip_tsx_layer_find_tsx l key = Some p} = card (dom m)"
    using card_image [OF inj] by simp
  with hash_count_dom [OF h] inv
  show "pjsip_tsx_layer_get_tsx_count l = of_nat (card {p. \<exists>key. pjsip_tsx_layer_find_tsx l key = Some p})"
    by (simp add: pjsip_tsx_layer_get_tsx_count_def m_def layer_inv_def)
qed

theorem layer_run_safe_witness:
  "\<exists>l. layer_run ex_env ex_l0 l \<and>
    pjsip_tsx_layer_get_tsx_count l = of_nat (card {p. \<exists>key. pjsip_tsx_layer_find_tsx l key = Some p})"
  using ex_layer layer_run_safe [OF _ ex_env_ok] by metis

text \<open>The states of the layer from the creation of a transaction on, as long as it is registered.\<close>

inductive layer_while :: "tsx_env \<Rightarrow> nat \<Rightarrow> tsx_layer \<Rightarrow> tsx_layer \<Rightarrow> bool" for env p where
  while_start: "layer_while env p l l" if "p \<in> tsx_used l"
| while_next: "layer_while env p l l2" if "layer_while env p l l1" "layer_step env l1 l2" "p \<in> tsx_used l2"

lemma register_new_key:
  assumes "layer_inv l" "creates create" "p \<noteq> q"
  shows "tl_key (fst (register_new l q key create)) p = tl_key l p"
  using register_new_cases [OF assms(2) layer_inv_hash [OF assms(1)], of q key] assms(3) by auto

lemma layer_step_key:
  assumes inv: "layer_inv l" and p: "p \<in> tsx_used l" and step: "layer_step env l l'"
  shows "tl_key l' p = tl_key l p"
proof -
  have r: "hash_ok (tl_table l)" "tl_registered l" using inv by (simp_all add: layer_inv_def layer_ok_def)
  have rx: "tl_key (fst (layer_rx env l key m)) p = tl_key l p" for key m
    using update_fields(3) [OF r] by (simp add: layer_rx_def split: option.split)
  show ?thesis
    using step
  proof cases
    case (layer_uas q user rx res_addr)
    then have "p \<noteq> q" using p by blast
    from register_new_key [OF inv creates_uas this] layer_uas(1) show ?thesis
      by (cases "pjsip_tsx_create_key PJSIP_ROLE_UAS (rx_method rx) rx") (simp_all add: layer_create_uas_def Let_def)
  next
    case (layer_uac q user td name branch has_cseq dest)
    then have "p \<noteq> q" using p by blast
    from register_new_key [OF inv creates_uac this] layer_uac(1) show ?thesis
      by (cases "td_msg td") (simp_all add: layer_create_uac_def Let_def)
  next
    case (layer_tsx q t e)
    then show ?thesis using update_fields(3) [OF r] by simp
  qed (simp_all add: mod_tsx_layer_on_rx_request_def mod_tsx_layer_on_rx_response_def rx)
qed

lemma layer_while_key:
  assumes "layer_while env p l l2" "layer_inv l" "env_ok env"
  shows "layer_inv l2 \<and> p \<in> tsx_used l2 \<and> tl_key l2 p = tl_key l p"
  using assms by (induction rule: layer_while.induct) (auto simp: layer_step_inv layer_step_key)

text \<open>A request goes to the transaction registered under its key, unless that is Terminated, and to no other.\<close>

lemma rx_request_to:
  assumes inv: "layer_inv l" and p: "p \<in> tsx_used l" and key: "pjsip_tsx_create_key PJSIP_ROLE_UAS (rx_method rx) rx = Inr k"
  shows "if k = tl_key l p
    then mod_tsx_layer_on_rx_request env l rx =
      (if state (tl_tsx l p) = PJSIP_TSX_STATE_TERMINATED then (l, False)
       else (update_tsx l p (pjsip_tsx_recv_msg env (tl_tsx l p) (rx_msg rx)), True))
    else tl_tsx (fst (mod_tsx_layer_on_rx_request env l rx)) p = tl_tsx l p"
proof -
  have r: "hash_ok (tl_table l)" "tl_registered l" and ok: "layer_ok l"
    using inv by (simp_all add: layer_inv_def layer_ok_def)
  have "hash_abs (tl_table l) (key_mem (tl_key l p)) = Some p" using p used_iff [OF ok] by simp
  moreover have "q \<noteq> p" if "hash_abs (tl_table l) (key_mem k) = Some q" "k \<noteq> tl_key l p" for q
    using layer_ok_key [OF ok that(1)] that(2) by auto
  ultimately show ?thesis
    using update_fields(2) [OF r]
    by (auto simp: mod_tsx_layer_on_rx_request_def layer_rx_def key find_abs [OF r(1)] split: option.split)
qed

text \<open>
  C7: A server transaction created for a request is counted, and a second creation for the request is refused
  without any change.  From then on, in every state of the layer as long as the transaction is registered, every
  request with the same identification is given to it, except that a Terminated transaction takes no
  more requests, and no request with another identification touches it.  The requests are those whose keys are
  unambiguous (\<open>rx_clean\<close>).
\<close>

theorem uas_receives_retransmissions:
  assumes "layer_run env l0 l" "env_ok env" "p \<notin> tsx_used l" "rx_clean (rx_method rx) rx"
    and "layer_create_uas env l p user rx res_addr = (l', PJ_SUCCESS)"
  shows "(\<forall>l2 rx2. layer_while env p l' l2 \<and> rx_clean (rx_method rx2) rx2 \<longrightarrow>
      (if method_class (rx_method rx2) = method_class (rx_method rx) \<and> same_tsx rx2 rx
       then mod_tsx_layer_on_rx_request env l2 rx2 =
         (if state (tl_tsx l2 p) = PJSIP_TSX_STATE_TERMINATED then (l2, False)
          else (update_tsx l2 p (pjsip_tsx_recv_msg env (tl_tsx l2 p) (rx_msg rx2)), True))
       else tl_tsx (fst (mod_tsx_layer_on_rx_request env l2 rx2)) p = tl_tsx l2 p)) \<and>
    layer_while env p l' l' \<and> state (tl_tsx l' p) = PJSIP_TSX_STATE_NULL \<and>
    pjsip_tsx_layer_get_tsx_count l' = pjsip_tsx_layer_get_tsx_count l + 1 \<and>
    layer_create_uas env l' q user rx res_addr = (l', PJ_EEXISTS)"
proof -
  define key where "key = role_char PJSIP_ROLE_UAS # SEPARATOR # key_method (rx_method rx) @ key_id rx"
  define create where "create = pjsip_tsx_create_uas env user (rx_msg rx) True True (method_id (rx_method rx))
     PJ_SUCCESS res_addr"
  have cr: "creates create" unfolding create_def by (rule creates_uas)
  have eq: "layer_create_uas env l1 q1 user rx res_addr = register_new l1 q1 key create" for l1 q1
    by (simp add: layer_create_uas_def Let_def key_shape [OF assms(4)] key_def create_def)
  have inv: "layer_inv l" by (rule layer_run_inv [OF assms(1,2)])
  then have h: "hash_ok (tl_table l)" and e: "tl_endpt l" by (simp_all add: layer_inv_def layer_ok_def)
  from register_new_cases [OF cr h, of p key] assms(5) creates_none(1) [OF cr] obtain t where
    l': "l' = l\<lparr>tl_key := (tl_key l)(p := key), tl_table := hash_put (tl_table l) (key_mem key) (Some p),
           tl_tsx := (tl_tsx l)(p := t)\<rparr>"
    and t: "create PJ_SUCCESS = (Some t, PJ_SUCCESS)" and new: "hash_abs (tl_table l) (key_mem key) = None"
    unfolding eq by auto
  have abs: "hash_abs (tl_table l') = (hash_abs (tl_table l))(key_mem key \<mapsto> p)" "hash_ok (tl_table l')"
    using h by (simp_all add: l' hash_put_abs)
  have st: "state (tl_tsx l' p) = PJSIP_TSX_STATE_NULL" using creates_some(5) [OF cr t] by (simp add: l')
  have used: "p \<in> tsx_used l'" by (simp add: tsx_used_def abs(1) ran_def) (metis fun_upd_same)
  have inv': "layer_inv l'" using register_new_inv [OF inv cr assms(3), of key] assms(5) by (simp add: eq)
  have key2: "pjsip_tsx_create_key PJSIP_ROLE_UAS (rx_method rx2) rx2 = Inr key \<longleftrightarrow>
      method_class (rx_method rx2) = method_class (rx_method rx) \<and> same_tsx rx2 rx"
    if "rx_clean (rx_method rx2) rx2" for rx2
    using key_identifies [OF that assms(4), of PJSIP_ROLE_UAS PJSIP_ROLE_UAS] key_shape [OF assms(4)]
    by (simp add: key_def)
  have later: "if method_class (rx_method rx2) = method_class (rx_method rx) \<and> same_tsx rx2 rx
       then mod_tsx_layer_on_rx_request env l2 rx2 =
         (if state (tl_tsx l2 p) = PJSIP_TSX_STATE_TERMINATED then (l2, False)
          else (update_tsx l2 p (pjsip_tsx_recv_msg env (tl_tsx l2 p) (rx_msg rx2)), True))
       else tl_tsx (fst (mod_tsx_layer_on_rx_request env l2 rx2)) p = tl_tsx l2 p"
    if "layer_while env p l' l2" "rx_clean (rx_method rx2) rx2" for l2 rx2
  proof -
    have l2: "layer_inv l2" "p \<in> tsx_used l2" "tl_key l2 p = key"
      using layer_while_key [OF that(1) inv' assms(2)] by (simp_all add: l')
    show ?thesis
      using rx_request_to [OF l2(1,2) key_shape [OF that(2)], of env] key2 [OF that(2)] key_shape [OF that(2)]
      by (simp add: l2(3))
  qed
  have count: "pjsip_tsx_layer_get_tsx_count l' = pjsip_tsx_layer_get_tsx_count l + 1"
    using ht.num_insert [OF h new, of p] e by (simp add: pjsip_tsx_layer_get_tsx_count_def l')
  have "register_new l' q key create = (l', PJ_EEXISTS)"
    using register_new_cases [OF cr abs(2), of q key] creates_none(2) [OF cr t, of PJ_EEXISTS]
    by (auto simp: abs(1))
  with later count st while_start [OF used] show ?thesis unfolding eq by blast
qed

theorem uas_receives_retransmissions_witness:
  "\<exists>l l'. layer_create_uas ex_env l 1 ex_user (ex_rx ''z9hG4bKa'') ex_addr = (l', PJ_SUCCESS) \<and>
    snd (mod_tsx_layer_on_rx_request ex_env l' (ex_rx ''z9hG4bKa'')) \<and>
    pjsip_tsx_layer_get_tsx_count l' = pjsip_tsx_layer_get_tsx_count l + 1"
proof -
  have c: "rx_clean (rx_method (ex_rx ''z9hG4bKa'')) (ex_rx ''z9hG4bKa'')"
    by (rule ex_rx_clean)
  obtain l l' where l: "layer_run ex_env ex_l0 l" "hash_abs (tl_table l) = Map.empty"
    "layer_create_uas ex_env l 1 ex_user (ex_rx ''z9hG4bKa'') ex_addr = (l', PJ_SUCCESS)"
    by (rule ex_layer)
  have u: "1 \<notin> tsx_used l" by (simp add: tsx_used_def l(2))
  have s: "same_tsx (ex_rx ''z9hG4bKa'') (ex_rx ''z9hG4bKa'')" by (simp add: same_tsx_def)
  note all = uas_receives_retransmissions [OF l(1) ex_env_ok u c l(3)]
  then have "layer_while ex_env 1 l' l'" "state (tl_tsx l' 1) = PJSIP_TSX_STATE_NULL" by blast+
  then have "snd (mod_tsx_layer_on_rx_request ex_env l' (ex_rx ''z9hG4bKa''))" using all c s by force
  then show ?thesis using all l(3) by blast
qed

text \<open>
  C8: The shutdown of the layer ends with an empty table.  Every registered transaction is destroyed: it is freed and
  nothing refers to it, except exactly those already Terminated with a transmission outstanding, which refuse and
  keep the mark of the pending destruction.  Other transactions are not touched.  The table being empty,
  the unloading that follows is not refused, not even when a transaction is left waiting.
\<close>

theorem layer_stop_destroys:
  assumes "layer_run env l0 l" "env_ok env"
  shows "\<exists>l'. mod_tsx_layer_stop l = Some l' \<and> pjsip_tsx_layer_get_tsx_count l' = 0 \<and>
    (\<forall>key. pjsip_tsx_layer_find_tsx l' key = None) \<and>
    snd (mod_tsx_layer_unload l') = PJ_SUCCESS \<and>
    (\<forall>p. if p \<notin> tsx_used l then tl_tsx l' p = tl_tsx l p
      else if state (tl_tsx l p) = PJSIP_TSX_STATE_TERMINATED \<and> TSX_HAS_PENDING_TRANSPORT \<in> transport_flag (tl_tsx l p)
      then \<not> released (tl_tsx l' p) \<and> TSX_HAS_PENDING_DESTROY \<in> transport_flag (tl_tsx l' p)
      else tsx_gone (tl_tsx l' p))"
proof -
  have inv: "layer_inv l" by (rule layer_run_inv [OF assms])
  then obtain l' where l': "stop_loop l (pj_hash_first (tl_table l)) = Some l'" "hash_ok (tl_table l')"
    "hash_abs (tl_table l') = Map.empty" "tl_endpt l' = tl_endpt l"
    "tl_tsx l' = (\<lambda>q. if q \<in> tsx_used l then shut (tl_tsx l q) else tl_tsx l q)"
    using stop_loop_all [of l] by (auto simp: layer_inv_def)
  have n: "pj_hash_count (tl_table l') = 0" using hash_count_dom [OF l'(2)] l'(3) by simp
  have "if p \<notin> tsx_used l then tl_tsx l' p = tl_tsx l p
      else if state (tl_tsx l p) = PJSIP_TSX_STATE_TERMINATED \<and> TSX_HAS_PENDING_TRANSPORT \<in> transport_flag (tl_tsx l p)
      then \<not> released (tl_tsx l' p) \<and> TSX_HAS_PENDING_DESTROY \<in> transport_flag (tl_tsx l' p)
      else tsx_gone (tl_tsx l' p)" for p
    using inv shut_gone [of "tl_tsx l p"] by (auto simp: l'(5) layer_inv_def)
  moreover have "mod_tsx_layer_stop l = Some l'" "pjsip_tsx_layer_get_tsx_count l' = 0"
    "\<forall>key. pjsip_tsx_layer_find_tsx l' key = None" "snd (mod_tsx_layer_unload l') = PJ_SUCCESS"
    using l'(1-3) n
    by (simp_all add: mod_tsx_layer_stop_def pjsip_tsx_layer_get_tsx_count_def find_abs mod_tsx_layer_unload_def)
  ultimately show ?thesis by blast
qed

theorem layer_stop_destroys_witness:
  "\<exists>l l'. layer_run ex_env ex_l0 l \<and> mod_tsx_layer_stop l = Some l' \<and> pjsip_tsx_layer_get_tsx_count l' = 0"
  using ex_layer layer_stop_destroys [OF _ ex_env_ok] by metis

text \<open>
  The example for the next property: a client transaction is terminated, its last message is sent
  again while the destination is being looked for, and it is destroyed; then a second transaction
  is created with the same branch.
\<close>

definition ex_d1 :: pjsip_transaction where
  "ex_d1 = fst (pjsip_tsx_terminate ex_uac 408)"

definition ex_d2 :: pjsip_transaction where
  "ex_d2 = fst (pjsip_tsx_retransmit_no_state ex_slow ex_d1 None)"

definition ex_d3 :: pjsip_transaction where
  "ex_d3 = tsx_timer_callback ex_slow (timer_fired TIMEOUT_TIMER ex_d2) TIMEOUT_TIMER"

lemma ex_dying_steps:
  "tsx_step ex_slow ex_uac (E_Terminate 408) ex_d1"
  "tsx_step ex_slow ex_d1 (E_RetransmitNoState None) ex_d2"
  "tsx_step ex_slow ex_d2 (E_Timer TIMEOUT_TIMER) ex_d3"
proof -
  have "\<not> released ex_uac" "\<not> released ex_d1" "\<not> released ex_d2"
    "tt_delay (timer_of TIMEOUT_TIMER ex_d2) \<noteq> None"
    by code_simp+
  then show "tsx_step ex_slow ex_uac (E_Terminate 408) ex_d1"
    "tsx_step ex_slow ex_d1 (E_RetransmitNoState None) ex_d2"
    "tsx_step ex_slow ex_d2 (E_Timer TIMEOUT_TIMER) ex_d3"
    using step_terminate [of ex_uac ex_slow 408] step_retransmit [of ex_d1 ex_slow None]
      step_timer [of ex_d2 TIMEOUT_TIMER ex_slow]
    by (simp_all only: ex_d1_def ex_d2_def ex_d3_def simp_thms)
qed

lemma ex_dying: "tsx_dying ex_d3" "td_ptr ex_invite \<in> attached ex_d3"
proof -
  have "pjsip_tsx_create_uac ex_user ex_invite True (PJ_SUCCESS, False) PJ_SUCCESS = (Some ex_uac, PJ_SUCCESS)"
    by code_simp
  then have c: "tsx_created ex_slow ex_uac" by (rule created_uac)
  have "tsx_ok ex_d3"
    using run_ok [OF run_cons [OF ex_dying_steps(1) run_cons [OF ex_dying_steps(2)
      run_cons [OF ex_dying_steps(3) run_nil]]] ex_slow_ok] created_ok [OF c] by (simp add: tsx_ok_def)
  moreover have "\<not> released ex_d3" "state ex_d3 = PJSIP_TSX_STATE_DESTROYED" by code_simp+
  ultimately show "tsx_dying ex_d3" by (simp add: tsx_ok_def tsx_core_def tsx_freed_def)
  show "td_ptr ex_invite \<in> attached ex_d3" by code_simp
qed

lemma late_callback:
  assumes inv: "layer_inv l" and q: "pjsip_tsx_layer_find_tsx l (tl_key l p) = Some q"
    and d: "tsx_dying (tl_tsx l p)" "td_ptr td \<in> attached (tl_tsx l p)" "sr_sent r \<noteq> 0"
    and t_def: "t = fst (send_msg_callback env td r (tl_tsx l p))"
  shows "tsx_step env (tl_tsx l p) (E_SendCallback td r) t \<and>
    pjsip_tsx_layer_find_tsx (update_tsx l p t) (tl_key l p) = None \<and>
    tl_tsx (update_tsx l p t) q = tl_tsx l q \<and> tsx_core (tl_tsx l q)"
proof -
  have h: "hash_ok (tl_table l)" and r: "tl_registered l"
    using inv by (simp_all add: layer_inv_def layer_ok_def)
  have "hash_abs (tl_table l) (key_mem (tl_key l p)) = Some q" using q by (simp add: find_abs [OF h])
  then have core: "tsx_core (tl_tsx l q)" using inv by (auto simp: layer_inv_def tsx_used_def intro: ranI)
  then have qp: "q \<noteq> p" using d(1) by (auto simp: tsx_core_def tsx_dying_def)
  obtain u ev where u: "t = tsx_set_state u PJSIP_TSX_STATE_DESTROYED ev"
    "length (actions (tl_tsx l p)) \<le> length (actions u)"
    unfolding t_def by (rule dying_callback_destroys [OF d(1,2)])
  obtain as bs where "actions t = actions u @ as @ A_Unregister # bs"
    using set_state_unregisters u(1) by blast
  then have "A_Unregister \<in> set (new_actions (tl_tsx l p) t)" using u(2) by simp
  with update_fields(1) [OF h r, of p t]
  have tab: "tl_table (update_tsx l p t) = hash_put (tl_table l) (key_mem (tl_key l p)) None" by simp
  have "pjsip_tsx_layer_find_tsx (update_tsx l p t) (tl_key l p) = None"
    using find_abs [of "update_tsx l p t"] hash_put_abs [OF h] by (simp add: tab)
  moreover have "tsx_step env (tl_tsx l p) (E_SendCallback td r) t"
    unfolding t_def by (rule step_send_callback) (use d in \<open>simp_all add: tsx_dying_def tsx_base_def\<close>)
  ultimately show ?thesis using core qp update_fields(2) [OF h r] by simp
qed

definition ex_key :: string where
  "ex_key = create_tsx_key_3261 PJSIP_ROLE_UAC \<lparr>method_id = PJSIP_INVITE_METHOD, method_name = ''INVITE''\<rparr> ''z9hG4bKa''"

lemma ex_create_uac:
  assumes "hash_ok (tl_table l)" "hash_abs (tl_table l) (key_mem ex_key) = None"
  shows "layer_create_uac l p ex_user ex_invite ''INVITE'' ''z9hG4bKa'' True (PJ_SUCCESS, False) =
    (l\<lparr>tl_key := (tl_key l)(p := ex_key), tl_table := hash_put (tl_table l) (key_mem ex_key) (Some p),
       tl_tsx := (tl_tsx l)(p := ex_uac)\<rparr>, PJ_SUCCESS)"
proof -
  have c: "pjsip_tsx_create_uac ex_user ex_invite True (PJ_SUCCESS, False) PJ_SUCCESS = (Some ex_uac, PJ_SUCCESS)"
    by code_simp
  then show ?thesis
    using register_new_cases [OF creates_uac [of ex_user ex_invite True "(PJ_SUCCESS, False)"] assms(1), of p ex_key] assms(2)
    by (auto simp: layer_create_uac_def Let_def ex_invite_def ex_key_def)
qed

lemma ex_run_tsx:
  assumes run: "layer_run ex_slow l0 m" and step: "tsx_step ex_slow t e t'"
    and m: "tl_tsx m p = t" "tl_key m p = ex_key" "q \<notin> tsx_used m"
  shows "layer_run ex_slow l0 (update_tsx m p t') \<and> tl_tsx (update_tsx m p t') p = t' \<and>
    tl_key (update_tsx m p t') p = ex_key \<and> q \<notin> tsx_used (update_tsx m p t') \<and>
    (A_Unregister \<in> set (new_actions t t') \<longrightarrow>
       hash_abs (tl_table (update_tsx m p t')) (key_mem ex_key) = None)"
proof -
  have inv: "layer_inv m" by (rule layer_run_inv [OF run ex_slow_ok])
  then have r: "hash_ok (tl_table m)" "tl_registered m" by (simp_all add: layer_inv_def layer_ok_def)
  note f = update_fields [OF r, of p t'] and abs = hash_put_abs(2) [OF r(1)]
  have "layer_step ex_slow m (update_tsx m p t')" by (rule layer_tsx) (use step m in simp)
  moreover have "q \<notin> tsx_used (update_tsx m p t')"
    using m(3) by (auto simp: f(1) abs tsx_used_def ran_def split: if_splits)
  ultimately show ?thesis using run f m abs by (auto intro: layer_next)
qed

lemma ex_late: "\<exists>l. layer_run ex_slow ex_l0 l \<and> tl_key l 1 = ex_key \<and>
    pjsip_tsx_layer_find_tsx l ex_key = Some 2 \<and> tl_tsx l 1 = ex_d3"
proof -
  obtain l where l: "pjsip_tsx_layer_init_module 16 ex_l0 = Some (l, PJ_SUCCESS)" using ex_start by auto
  note i = layer_init_inv [OF l]
  note h = layer_inv_hash [OF i(1)]
  define l1 where "l1 = fst (layer_create_uac l 1 ex_user ex_invite ''INVITE'' ''z9hG4bKa'' True (PJ_SUCCESS, False))"
  define l2 where "l2 = update_tsx l1 1 ex_d1"
  define l3 where "l3 = update_tsx l2 1 ex_d2"
  define l4 where "l4 = update_tsx l3 1 ex_d3"
  define l5 where "l5 = fst (layer_create_uac l4 2 ex_user ex_invite ''INVITE'' ''z9hG4bKa'' True (PJ_SUCCESS, False))"
  have "layer_run ex_slow ex_l0 l" using l by (rule layer_start)
  moreover have "layer_step ex_slow l l1" unfolding l1_def by (rule layer_uac) (simp add: tsx_used_def i(2))
  ultimately have "layer_run ex_slow ex_l0 l1" by (rule layer_next)
  moreover have "tl_tsx l1 1 = ex_uac" "tl_key l1 1 = ex_key" "2 \<notin> tsx_used l1"
    using ex_create_uac [OF h] i(2) hash_put_abs(2) [OF h]
    by (auto simp: l1_def tsx_used_def ran_def)
  ultimately have "layer_run ex_slow ex_l0 l2 \<and> tl_tsx l2 1 = ex_d1 \<and> tl_key l2 1 = ex_key \<and> 2 \<notin> tsx_used l2"
    using ex_run_tsx [OF _ ex_dying_steps(1), of ex_l0 l1 1 2] unfolding l2_def by blast
  then have "layer_run ex_slow ex_l0 l3 \<and> tl_tsx l3 1 = ex_d2 \<and> tl_key l3 1 = ex_key \<and> 2 \<notin> tsx_used l3"
    using ex_run_tsx [OF _ ex_dying_steps(2), of ex_l0 l2 1 2] unfolding l3_def by blast
  moreover have "A_Unregister \<in> set (new_actions ex_d2 ex_d3)" by code_simp
  ultimately have l4: "layer_run ex_slow ex_l0 l4" "tl_tsx l4 1 = ex_d3" "tl_key l4 1 = ex_key"
    "2 \<notin> tsx_used l4" "hash_abs (tl_table l4) (key_mem ex_key) = None"
    using ex_run_tsx [OF _ ex_dying_steps(3), of ex_l0 l3 1 2] unfolding l4_def by blast+
  have "layer_step ex_slow l4 l5" unfolding l5_def by (rule layer_uac [OF l4(4)])
  with l4(1) have r5: "layer_run ex_slow ex_l0 l5" by (rule layer_next)
  note h4 = layer_inv_hash [OF layer_run_inv [OF l4(1) ex_slow_ok]]
  have "hash_abs (tl_table l5) (key_mem ex_key) = Some 2" "tl_key l5 1 = ex_key" "tl_tsx l5 1 = ex_d3"
    using ex_create_uac [OF h4 l4(5)] hash_put_abs(2) [OF h4] l4(2,3) by (simp_all add: l5_def)
  then show ?thesis
    using r5 find_abs [OF layer_inv_hash [OF layer_run_inv [OF r5 ex_slow_ok]]] by auto
qed

text \<open>
  A destroyed transaction that still waits for a send callback unregisters its key once more
  when the callback comes: if a new transaction has been registered under that key since, it is
  removed from the table although it is alive.
\<close>

theorem late_callback_unregisters:
  assumes "layer_run env l0 l" "env_ok env" "pjsip_tsx_layer_find_tsx l (tl_key l p) = Some q"
    "tsx_dying (tl_tsx l p)" "td_ptr td \<in> attached (tl_tsx l p)" "sr_sent r \<noteq> 0"
  shows "\<exists>t. tsx_step env (tl_tsx l p) (E_SendCallback td r) t \<and>
    pjsip_tsx_layer_find_tsx (update_tsx l p t) (tl_key l p) = None \<and>
    tl_tsx (update_tsx l p t) q = tl_tsx l q \<and>
    \<not> released (tl_tsx l q) \<and> state (tl_tsx l q) \<noteq> PJSIP_TSX_STATE_DESTROYED"
  using late_callback [OF layer_run_inv [OF assms(1,2)] assms(3-6) refl, of env]
  by (auto simp: tsx_core_def tsx_base_def)

theorem late_callback_unregisters_witness:
  "\<exists>l t. layer_run ex_slow ex_l0 l \<and> pjsip_tsx_layer_find_tsx l ex_key = Some 2 \<and>
    pjsip_tsx_layer_find_tsx (update_tsx l 1 t) ex_key = None \<and> \<not> released (tl_tsx l 2)"
proof -
  obtain l where l: "layer_run ex_slow ex_l0 l" "tl_key l 1 = ex_key"
    "pjsip_tsx_layer_find_tsx l ex_key = Some 2" "tl_tsx l 1 = ex_d3"
    using ex_late by blast
  have "sr_sent \<lparr>sr_sent = 400, sr_transport = Some 1, sr_cont = False\<rparr> \<noteq> 0" by simp
  from late_callback_unregisters [OF l(1) ex_slow_ok, of 1 2 ex_invite, OF _ _ _ this] l ex_dying
  show ?thesis by auto
qed

end
