(* ===== verification/Rtp.thy ===== *)
theory Rtp
  imports Prelude
begin

unbundle bit_operations_syntax

text \<open>
  RTP sessions (\<open>pjmedia/src/pjmedia/rtp.c\<close>): the header of outgoing packets, the decoding of
  received packets, and the tracking of sequence numbers.  The machine is little-endian, so that
  \<open>pj_htons\<close> and \<open>pj_htonl\<close> swap bytes; the header fields \<open>seq\<close>, \<open>ts\<close> and \<open>ssrc\<close> are kept in
  network order, as in the code.  Random numbers are arguments.
\<close>

section \<open>Byte order and memory\<close>

definition pj_htons :: "u16 \<Rightarrow> u16" where
  "pj_htons x = push_bit 8 x OR drop_bit 8 x"

definition pj_htonl :: "u32 \<Rightarrow> u32" where
  "pj_htonl x = push_bit 24 (take_bit 8 x) OR push_bit 16 (take_bit 8 (drop_bit 8 x)) OR
     push_bit 8 (take_bit 8 (drop_bit 16 x)) OR take_bit 8 (drop_bit 24 x)"

abbreviation pj_ntohs :: "u16 \<Rightarrow> u16" where "pj_ntohs \<equiv> pj_htons"

abbreviation pj_ntohl :: "u32 \<Rightarrow> u32" where "pj_ntohl \<equiv> pj_htonl"

text \<open>Reads of a block of memory; \<open>None\<close> is a read beyond its end.\<close>

definition rd8 :: "u8 list \<Rightarrow> nat \<Rightarrow> u8 option" where
  "rd8 mem i = (if i < length mem then Some (mem ! i) else None)"

definition rd16 :: "u8 list \<Rightarrow> nat \<Rightarrow> u16 option" where
  "rd16 mem i = do { a \<leftarrow> rd8 mem i; b \<leftarrow> rd8 mem (i + 1); Some (ucast a OR push_bit 8 (ucast b)) }"

definition rd32 :: "u8 list \<Rightarrow> nat \<Rightarrow> u32 option" where
  "rd32 mem i = do { a \<leftarrow> rd16 mem i; b \<leftarrow> rd16 mem (i + 2); Some (ucast a OR push_bit 16 (ucast b)) }"

definition wr16 :: "u16 \<Rightarrow> u8 list" where
  "wr16 x = [ucast x, ucast (drop_bit 8 x)]"

definition wr32 :: "u32 \<Rightarrow> u8 list" where
  "wr32 x = wr16 (ucast x) @ wr16 (ucast (drop_bit 16 x))"

section \<open>Model\<close>

abbreviation (input) PJMEDIA_RTP_EINVER :: int where "PJMEDIA_RTP_EINVER \<equiv> 220122"
abbreviation (input) PJMEDIA_RTP_EINLEN :: int where "PJMEDIA_RTP_EINLEN \<equiv> 220125"

definition RTP_VERSION :: nat where "RTP_VERSION = 2"
definition RTP_SEQ_MOD :: nat where "RTP_SEQ_MOD = 65536"
definition RTP_MAX_DROPOUT :: nat where "RTP_MAX_DROPOUT = 3000"
definition RTP_MAX_MISORDER :: nat where "RTP_MAX_MISORDER = 100"
definition MIN_SEQUENTIAL :: nat where "MIN_SEQUENTIAL = 2"

record pjmedia_rtp_hdr =
  hdr_cc :: "4 word"
  hdr_x :: "1 word"
  hdr_p :: "1 word"
  hdr_v :: "2 word"
  hdr_pt :: "7 word"
  hdr_m :: "1 word"
  hdr_seq :: u16
  hdr_ts :: u32
  hdr_ssrc :: u32

text \<open>The bytes of a header in memory, and the header at the start of a block.\<close>

definition hdr_bytes :: "pjmedia_rtp_hdr \<Rightarrow> u8 list" where
  "hdr_bytes h =
     [ucast (hdr_cc h) OR push_bit 4 (ucast (hdr_x h)) OR push_bit 5 (ucast (hdr_p h)) OR
        push_bit 6 (ucast (hdr_v h)),
      ucast (hdr_pt h) OR push_bit 7 (ucast (hdr_m h))] @
     wr16 (hdr_seq h) @ wr32 (hdr_ts h) @ wr32 (hdr_ssrc h)"

definition hdr_read :: "u8 list \<Rightarrow> pjmedia_rtp_hdr option" where
  "hdr_read mem = do {
     a \<leftarrow> rd8 mem 0; b \<leftarrow> rd8 mem 1; s \<leftarrow> rd16 mem 2; t \<leftarrow> rd32 mem 4; c \<leftarrow> rd32 mem 8;
     Some \<lparr>hdr_cc = ucast a, hdr_x = ucast (drop_bit 4 a), hdr_p = ucast (drop_bit 5 a),
           hdr_v = ucast (drop_bit 6 a), hdr_pt = ucast b, hdr_m = ucast (drop_bit 7 b),
           hdr_seq = s, hdr_ts = t, hdr_ssrc = c\<rparr> }"

record pjmedia_rtp_seq_session =
  max_seq :: u16
  cycles :: u32
  base_seq :: u32
  bad_seq :: u32
  probation :: u32

record pjmedia_rtp_session =
  out_hdr :: pjmedia_rtp_hdr
  seq_ctrl :: pjmedia_rtp_seq_session
  out_pt :: u16
  out_extseq :: u32
  peer_ssrc :: u32
  received :: u32

record pjmedia_rtp_status =
  st_bad :: bool
  st_badpt :: bool
  st_badssrc :: bool
  st_dup :: bool
  st_outorder :: bool
  st_probation :: bool
  st_restart :: bool
  st_diff :: u16

definition status_zero :: pjmedia_rtp_status where
  "status_zero = \<lparr>st_bad = False, st_badpt = False, st_badssrc = False, st_dup = False, st_outorder = False,
     st_probation = False, st_restart = False, st_diff = 0\<rparr>"

record pjmedia_rtp_session_setting =
  set_flags :: u8
  set_default_pt :: int
  set_sender_ssrc :: u32
  set_seq :: u16
  set_ts :: u32

definition seq_zero :: pjmedia_rtp_seq_session where
  "seq_zero = \<lparr>max_seq = 0, cycles = 0, base_seq = 0, bad_seq = 0, probation = 0\<rparr>"

text \<open>The arguments \<open>rand1\<close> and \<open>rand2\<close> are the results of the calls of \<open>pj_rand\<close>.\<close>

definition pjmedia_rtp_session_init :: "u32 \<Rightarrow> u32 \<Rightarrow> int \<Rightarrow> u32 \<Rightarrow> pjmedia_rtp_session" where
  "pjmedia_rtp_session_init rand1 rand2 default_pt sender_ssrc =
     (let sender_ssrc = (if sender_ssrc = 0 \<or> sender_ssrc = - 1 then pj_htonl rand1
                         else pj_htonl sender_ssrc);
          extseq = rand2 AND 0x7FFF;
          hdr = \<lparr>hdr_cc = 0, hdr_x = 0, hdr_p = 0, hdr_v = of_nat RTP_VERSION,
                 hdr_pt = ucast (word_of_int default_pt :: u8), hdr_m = 0,
                 hdr_seq = pj_htons (ucast extseq), hdr_ts = 0, hdr_ssrc = sender_ssrc\<rparr>
      in \<lparr>out_hdr = hdr, seq_ctrl = seq_zero, out_pt = word_of_int default_pt, out_extseq = extseq,
          peer_ssrc = 0, received = 0\<rparr>)"

definition pjmedia_rtp_session_init2 ::
  "u32 \<Rightarrow> u32 \<Rightarrow> pjmedia_rtp_session_setting \<Rightarrow> pjmedia_rtp_session" where
  "pjmedia_rtp_session_init2 rand1 rand2 settings =
     (let pt = (if set_flags settings AND 1 \<noteq> 0 then set_default_pt settings else 0);
          sender_ssrc = (if set_flags settings AND 2 \<noteq> 0 then set_sender_ssrc settings else 0);
          ses = pjmedia_rtp_session_init rand1 rand2 pt sender_ssrc;
          ses = (if set_flags settings AND 4 \<noteq> 0 then
                   let ses = ses\<lparr>out_extseq := ucast (set_seq settings)\<rparr>
                   in ses\<lparr>out_hdr := (out_hdr ses)\<lparr>hdr_seq := pj_htons (ucast (out_extseq ses))\<rparr>\<rparr>
                 else ses)
      in if set_flags settings AND 8 \<noteq> 0
         then ses\<lparr>out_hdr := (out_hdr ses)\<lparr>hdr_ts := pj_htonl (set_ts settings)\<rparr>\<rparr> else ses)"

text \<open>The header is returned unless the payload is empty (\<open>rtphdr\<close> and \<open>hdrlen\<close> are not set).\<close>

definition pjmedia_rtp_encode_rtp ::
  "pjmedia_rtp_session \<Rightarrow> int \<Rightarrow> int \<Rightarrow> int \<Rightarrow> int \<Rightarrow> pjmedia_rtp_session \<times> pjmedia_rtp_hdr option" where
  "pjmedia_rtp_encode_rtp ses pt m payload_len ts_len =
     (let ses = ses\<lparr>out_hdr := (out_hdr ses)\<lparr>hdr_ts :=
                  pj_htonl (pj_ntohl (hdr_ts (out_hdr ses)) + word_of_int ts_len)\<rparr>\<rparr>
      in if payload_len = 0 then (ses, None)
         else
           let ses = ses\<lparr>out_extseq := out_extseq ses + 1\<rparr>;
               hdr = (out_hdr ses)
                 \<lparr>hdr_pt := ucast (if pt = - 1 then ucast (out_pt ses) else word_of_int pt :: u8),
                  hdr_m := ucast (word_of_int m :: u16),
                  hdr_seq := pj_htons (ucast (out_extseq ses))\<rparr>
           in (ses\<lparr>out_hdr := hdr\<rparr>, Some hdr))"

text \<open>
  \<open>mem\<close> is the memory at the packet.  The result is \<open>None\<close> when the code reads beyond it, else
  the error, or the offset and the length of the payload; the header is at the start.
\<close>

definition rtp_payload :: "u8 list \<Rightarrow> int \<Rightarrow> u8 \<Rightarrow> nat \<Rightarrow> (int + nat \<times> nat) option" where
  "rtp_payload mem pkt_len b0 offset =
     (if int offset > pkt_len then Some (Inl PJMEDIA_RTP_EINLEN)
      else
        let payloadlen = nat (pkt_len - int offset)
        in if (ucast (drop_bit 5 b0) :: 1 word) \<noteq> 0 \<and> payloadlen > 0 then do {
             pad_len \<leftarrow> rd8 mem (offset + payloadlen - 1);
             Some (Inr (offset, if unat pad_len \<le> payloadlen then payloadlen - unat pad_len else payloadlen))
           }
           else Some (Inr (offset, payloadlen)))"

definition pjmedia_rtp_decode_rtp :: "u8 list \<Rightarrow> int \<Rightarrow> (int + nat \<times> nat) option" where
  "pjmedia_rtp_decode_rtp mem pkt_len = do {
     b0 \<leftarrow> rd8 mem 0;
     if unat (ucast (drop_bit 6 b0) :: 2 word) \<noteq> RTP_VERSION then Some (Inl PJMEDIA_RTP_EINVER)
     else do {
       let offset = 12 + unat (ucast b0 :: 4 word) * 4;
       offset \<leftarrow> (if (ucast (drop_bit 4 b0) :: 1 word) \<noteq> 0
                  then do { len \<leftarrow> rd16 mem (offset + 2); Some (offset + (unat (pj_ntohs len) + 1) * 4) }
                  else Some offset);
       rtp_payload mem pkt_len b0 offset
     }
   }"

definition pjmedia_rtp_seq_restart :: "pjmedia_rtp_seq_session \<Rightarrow> u16 \<Rightarrow> pjmedia_rtp_seq_session" where
  "pjmedia_rtp_seq_restart sess seq =
     sess\<lparr>base_seq := ucast seq, max_seq := seq, bad_seq := of_nat (RTP_SEQ_MOD + 1), cycles := 0\<rparr>"

definition pjmedia_rtp_seq_init :: "pjmedia_rtp_seq_session \<Rightarrow> u16 \<Rightarrow> pjmedia_rtp_seq_session" where
  "pjmedia_rtp_seq_init sess seq =
     (pjmedia_rtp_seq_restart sess seq)\<lparr>max_seq := seq - 1, probation := of_nat MIN_SEQUENTIAL\<rparr>"

text \<open>
  In the comparison \<open>seq == sess->max_seq + 1\<close> the addition is on \<open>int\<close>, without wrap-around.
\<close>

definition pjmedia_rtp_seq_update ::
  "pjmedia_rtp_seq_session \<Rightarrow> u16 \<Rightarrow> pjmedia_rtp_seq_session \<times> pjmedia_rtp_status" where
  "pjmedia_rtp_seq_update sess seq =
     (let udelta = seq - max_seq sess; st = status_zero
      in if probation sess \<noteq> 0 then
           let st = st\<lparr>st_probation := True\<rparr>
           in if unat seq = unat (max_seq sess) + 1 then
                let st = st\<lparr>st_diff := 1\<rparr>;
                    sess = sess\<lparr>probation := probation sess - 1, max_seq := seq\<rparr>
                in (sess, if probation sess = 0 then st\<lparr>st_probation := False\<rparr> else st)
              else
                let st = st\<lparr>st_diff := 0, st_bad := True\<rparr>;
                    st = (if seq = max_seq sess then st\<lparr>st_dup := True\<rparr> else st\<lparr>st_outorder := True\<rparr>)
                in (sess\<lparr>probation := of_nat (MIN_SEQUENTIAL - 1), max_seq := seq\<rparr>, st)
         else if udelta = 0 then (sess, st\<lparr>st_dup := True\<rparr>)
         else if unat udelta < RTP_MAX_DROPOUT then
           let sess = (if seq < max_seq sess then sess\<lparr>cycles := cycles sess + of_nat RTP_SEQ_MOD\<rparr> else sess);
               sess = sess\<lparr>max_seq := seq\<rparr>
           in (sess, st\<lparr>st_diff := udelta\<rparr>)
         else if unat udelta \<le> RTP_SEQ_MOD - RTP_MAX_MISORDER then
           if ucast seq = bad_seq sess then
             (pjmedia_rtp_seq_restart sess seq, st\<lparr>st_restart := True, st_probation := True, st_diff := 1\<rparr>)
           else
             (sess\<lparr>bad_seq := of_nat (unat seq + 1) AND of_nat (RTP_SEQ_MOD - 1)\<rparr>,
              st\<lparr>st_bad := True, st_outorder := True\<rparr>)
         else (sess, st\<lparr>st_outorder := True\<rparr>))"

text \<open>
  \<open>p_seq_st\<close> is \<open>None\<close> when the pointer is NULL, else the previous contents of the structure it
  points to.
\<close>

definition pjmedia_rtp_session_update2 ::
  "pjmedia_rtp_session \<Rightarrow> pjmedia_rtp_hdr \<Rightarrow> pjmedia_rtp_status option \<Rightarrow> bool \<Rightarrow>
   pjmedia_rtp_session \<times> pjmedia_rtp_status option" where
  "pjmedia_rtp_session_update2 ses hdr p_seq_st check_pt =
     (let seq_st = status_zero;
          ssrc = pj_ntohl (hdr_ssrc hdr);
          ses = (if peer_ssrc ses = 0 then ses\<lparr>peer_ssrc := ssrc\<rparr> else ses);
          (ses, seq_st) = (if ssrc \<noteq> peer_ssrc ses
                           then (ses\<lparr>peer_ssrc := ssrc\<rparr>, seq_st\<lparr>st_badssrc := True\<rparr>)
                           else (ses, seq_st))
      in if check_pt \<and> ucast (hdr_pt hdr) \<noteq> out_pt ses then
           (ses, map_option (\<lambda>p. seq_st\<lparr>st_diff := st_diff p, st_bad := True, st_badpt := True\<rparr>) p_seq_st)
         else
           let seq = pj_ntohs (hdr_seq hdr);
               ses = (if received ses = 0 then ses\<lparr>seq_ctrl := pjmedia_rtp_seq_init (seq_ctrl ses) seq\<rparr>
                      else ses);
               (ctrl, seq_st) = pjmedia_rtp_seq_update (seq_ctrl ses) seq;
               ses = ses\<lparr>seq_ctrl := ctrl\<rparr>;
               ses = (if st_restart seq_st then ses\<lparr>received := received ses + 1\<rparr>
                      else if \<not> st_bad seq_st then ses\<lparr>received := received ses + 1\<rparr>
                      else ses)
           in (ses, map_option (\<lambda>p. seq_st) p_seq_st))"

definition pjmedia_rtp_session_update ::
  "pjmedia_rtp_session \<Rightarrow> pjmedia_rtp_hdr \<Rightarrow> pjmedia_rtp_status option \<Rightarrow>
   pjmedia_rtp_session \<times> pjmedia_rtp_status option" where
  "pjmedia_rtp_session_update ses hdr p_seq_st = pjmedia_rtp_session_update2 ses hdr p_seq_st True"

section \<open>Fields in memory\<close>

lemma htons_htons [simp]: "pj_htons (pj_htons x) = x"
  by (rule bit_word_eqI) (auto simp: pj_htons_def bit_simps)

lemma bit_htonl:
  assumes "n < 32"
  shows "bit (pj_htonl x) n = bit x (24 + n mod 8 - n div 8 * 8)"
proof -
  consider "n < 8" | "8 \<le> n" "n < 16" | "16 \<le> n" "n < 24" | "24 \<le> n" "n < 32" using assms by linarith
  then show ?thesis
  proof cases
    case 1
    then show ?thesis by (auto simp: pj_htonl_def bit_simps)
  next
    case 2
    then have "n div 8 = 1" "n mod 8 = n - 8" by (auto simp: div_nat_eqI mod_if)
    with 2 show ?thesis by (auto simp: pj_htonl_def bit_simps)
  next
    case 3
    then have "n div 8 = 2" "n mod 8 = n - 16" by (auto simp: div_nat_eqI mod_if)
    with 3 show ?thesis by (auto simp: pj_htonl_def bit_simps)
  next
    case 4
    then have "n div 8 = 3" "n mod 8 = n - 24" by (auto simp: div_nat_eqI mod_if)
    with 4 show ?thesis by (auto simp: pj_htonl_def bit_simps)
  qed
qed

lemma htonl_htonl [simp]: "pj_htonl (pj_htonl x) = x"
proof (rule bit_word_eqI)
  fix n
  assume "n < LENGTH(32)"
  then have n: "n < 32" by simp
  define k where "k = 24 + n mod 8 - n div 8 * 8"
  have d: "n div 8 \<le> 3" using n by linarith
  have k: "k = 8 * (3 - n div 8) + n mod 8" unfolding k_def using d by linarith
  have "n mod 8 < 8" by simp
  then have kd: "k div 8 = 3 - n div 8" "k mod 8 = n mod 8" unfolding k by (simp_all add: div_mult_self1)
  have "k < 32" using k d \<open>n mod 8 < 8\<close> by linarith
  moreover have "24 + k mod 8 - k div 8 * 8 = n" unfolding kd using d by presburger
  ultimately show "bit (pj_htonl (pj_htonl x)) n = bit x n"
    using bit_htonl [OF n, of "pj_htonl x"] bit_htonl [of k x] by (simp add: k_def)
qed

text \<open>What the writers and readers of fields promise.\<close>

locale field_codec =
  fixes wr :: "'a \<Rightarrow> u8 list" and rd :: "u8 list \<Rightarrow> nat \<Rightarrow> 'a option" and width :: nat
  assumes length_wr: "length (wr x) = width"
    and rd_wr: "rd (pre @ wr x @ post) (length pre) = Some x"
begin

lemma rd_at: "length pre = i \<Longrightarrow> rd (pre @ wr x @ post) i = Some x"
  using rd_wr by blast

lemma rd_next:
  assumes "length pre = i"
  shows "drop (i + width) (pre @ wr x @ post) = post" "take i (pre @ wr x @ post) = pre"
  using assms by (simp_all add: length_wr)

end

lemma join16: "(ucast (ucast x :: u8) OR push_bit 8 (ucast (ucast (drop_bit 8 x) :: u8)) :: u16) = x"
  by (rule bit_word_eqI) (auto simp: bit_simps)

lemma join32: "(ucast (ucast x :: u16) OR push_bit 16 (ucast (ucast (drop_bit 16 x) :: u16)) :: u32) = x"
  by (rule bit_word_eqI) (auto simp: bit_simps)

interpretation c8: field_codec "\<lambda>x. [x]" rd8 1
  by unfold_locales (simp_all add: rd8_def)

interpretation c16: field_codec wr16 rd16 2
  by unfold_locales (simp_all add: wr16_def rd16_def rd8_def nth_append join16)

interpretation c32: field_codec wr32 rd32 4
proof
  fix pre post and x :: u32
  have "rd16 (pre @ wr16 (ucast x) @ (wr16 (ucast (drop_bit 16 x)) @ post)) (length pre) = Some (ucast x)"
    by (rule c16.rd_wr)
  moreover have "rd16 ((pre @ wr16 (ucast x)) @ wr16 (ucast (drop_bit 16 x)) @ post) (length pre + 2) =
      Some (ucast (drop_bit 16 x))"
    by (rule c16.rd_at) (simp add: c16.length_wr)
  ultimately show "rd32 (pre @ wr32 x @ post) (length pre) = Some x"
    by (simp add: rd32_def wr32_def join32)
qed (simp add: wr32_def c16.length_wr)

lemma hdr_bits:
  fixes cc :: "4 word" and x :: "1 word" and p :: "1 word" and v :: "2 word"
  defines "a \<equiv> ucast cc OR push_bit 4 (ucast x) OR push_bit 5 (ucast p) OR push_bit 6 (ucast v) :: u8"
  shows "ucast a = cc" "ucast (drop_bit 4 a) = x" "ucast (drop_bit 5 a) = p" "ucast (drop_bit 6 a) = v"
  unfolding a_def
  by (rule bit_word_eqI; auto simp: bit_simps dest: bit_imp_le_length)+

lemma hdr_bits2:
  fixes pt :: "7 word" and m :: "1 word"
  defines "b \<equiv> ucast pt OR push_bit 7 (ucast m) :: u8"
  shows "ucast b = pt" "ucast (drop_bit 7 b) = m"
  unfolding b_def
  by (rule bit_word_eqI; auto simp: bit_simps dest: bit_imp_le_length)+

lemma hdr_length [simp]: "length (hdr_bytes h) = 12"
  by (simp add: hdr_bytes_def c16.length_wr c32.length_wr)

lemma hdr_read_bytes: "hdr_read (hdr_bytes h @ payload) = Some h"
proof -
  define a :: u8 where "a = ucast (hdr_cc h) OR push_bit 4 (ucast (hdr_x h)) OR push_bit 5 (ucast (hdr_p h)) OR
        push_bit 6 (ucast (hdr_v h))"
  define b :: u8 where "b = ucast (hdr_pt h) OR push_bit 7 (ucast (hdr_m h))"
  have e: "hdr_bytes h = [a, b] @ wr16 (hdr_seq h) @ wr32 (hdr_ts h) @ wr32 (hdr_ssrc h)"
    by (simp add: hdr_bytes_def a_def b_def)
  have s: "rd16 (hdr_bytes h @ payload) 2 = Some (hdr_seq h)"
    unfolding e append_assoc by (rule c16.rd_at) simp
  have t: "rd32 (([a, b] @ wr16 (hdr_seq h)) @ wr32 (hdr_ts h) @ (wr32 (hdr_ssrc h) @ payload)) 4 = Some (hdr_ts h)"
    by (rule c32.rd_at) (simp add: c16.length_wr)
  have c: "rd32 (([a, b] @ wr16 (hdr_seq h) @ wr32 (hdr_ts h)) @ wr32 (hdr_ssrc h) @ payload) 8 = Some (hdr_ssrc h)"
    by (rule c32.rd_at) (simp add: c16.length_wr c32.length_wr)
  have "rd8 (hdr_bytes h @ payload) 0 = Some a" "rd8 (hdr_bytes h @ payload) 1 = Some b"
    by (simp_all add: e rd8_def)
  then show ?thesis
    using s t c hdr_bits [of "hdr_cc h" "hdr_x h" "hdr_p h" "hdr_v h", folded a_def]
      hdr_bits2 [of "hdr_pt h" "hdr_m h", folded b_def]
    by (simp add: hdr_read_def e)
qed

lemma decode_plain:
  assumes "hdr_v h = 2" "hdr_cc h = 0" "hdr_x h = 0" "hdr_p h = 0"
  shows "pjmedia_rtp_decode_rtp (hdr_bytes h @ payload) (int (12 + length payload)) = Some (Inr (12, length payload))"
proof -
  define a :: u8 where "a = ucast (hdr_cc h) OR push_bit 4 (ucast (hdr_x h)) OR push_bit 5 (ucast (hdr_p h)) OR
        push_bit 6 (ucast (hdr_v h))"
  have "rd8 (hdr_bytes h @ payload) 0 = Some a" by (simp add: hdr_bytes_def rd8_def a_def)
  moreover note hdr_bits [of "hdr_cc h" "hdr_x h" "hdr_p h" "hdr_v h", folded a_def]
  ultimately show ?thesis
    using assms by (simp add: pjmedia_rtp_decode_rtp_def rtp_payload_def Let_def RTP_VERSION_def)
qed

section \<open>Tracking of sequence numbers\<close>

definition seq_ext :: "pjmedia_rtp_seq_session \<Rightarrow> u32" where
  "seq_ext s = cycles s + ucast (max_seq s)"

lemma unat_add16: "unat (a + of_nat d :: u16) = (unat a + d) mod 65536"
  by (simp add: unat_word_ariths unat_of_nat mod_add_right_eq)

lemma seq_forward:
  assumes "probation s = 0" "0 < d" "d < 3000" "seq = max_seq s + of_nat d"
  shows "pjmedia_rtp_seq_update s seq =
      (s\<lparr>cycles := cycles s + (if seq < max_seq s then 65536 else 0), max_seq := seq\<rparr>, status_zero\<lparr>st_diff := of_nat d\<rparr>)"
    "seq_ext (fst (pjmedia_rtp_seq_update s seq)) = seq_ext s + of_nat d"
proof -
  have u: "unat (of_nat d :: u16) = d" using assms by (simp add: unat_of_nat)
  then have "(of_nat d :: u16) \<noteq> 0" using assms(2) by (metis unsigned_0 less_numeral_extra(3))
  then show eq: "pjmedia_rtp_seq_update s seq =
      (s\<lparr>cycles := cycles s + (if seq < max_seq s then 65536 else 0), max_seq := seq\<rparr>, status_zero\<lparr>st_diff := of_nat d\<rparr>)"
    using assms u by (simp add: pjmedia_rtp_seq_update_def Let_def RTP_MAX_DROPOUT_def RTP_SEQ_MOD_def)
  have m: "unat (max_seq s) < 65536" using unsigned_less [of "max_seq s", where 'a = nat] by simp
  have sq: "unat seq = (unat (max_seq s) + d) mod 65536" unfolding assms(4) by (rule unat_add16)
  have "unat seq + (if seq < max_seq s then 65536 else 0) = unat (max_seq s) + d"
  proof (cases "unat (max_seq s) + d < 65536")
    case True
    then show ?thesis using sq by (simp add: word_less_nat_alt)
  next
    case False
    then have "unat seq = unat (max_seq s) + d - 65536" using sq m assms(3) by (simp add: mod_if)
    then show ?thesis using False assms(3) by (simp add: word_less_nat_alt)
  qed
  then have "(of_nat (unat seq + (if seq < max_seq s then 65536 else 0)) :: u32) = of_nat (unat (max_seq s) + d)"
    by simp
  then have "(ucast seq :: u32) + (if seq < max_seq s then 65536 else 0) = ucast (max_seq s) + of_nat d"
    by (simp add: of_nat_unat split: if_splits)
  then show "seq_ext (fst (pjmedia_rtp_seq_update s seq)) = seq_ext s + of_nat d"
    by (simp add: eq seq_ext_def algebra_simps split: if_splits)
qed

text \<open>
  The abstract tracker: the highest packet number heard, as an unbounded number.  A packet is near
  when it is less than \<open>RTP_MAX_DROPOUT\<close> ahead and less than \<open>RTP_MAX_MISORDER\<close> behind.
\<close>

definition near :: "nat \<Rightarrow> nat \<Rightarrow> bool" where
  "near high num \<longleftrightarrow> num < high + RTP_MAX_DROPOUT \<and> high < num + RTP_MAX_MISORDER"

definition track_status :: "nat \<Rightarrow> nat \<Rightarrow> pjmedia_rtp_status" where
  "track_status high num =
     (if num = high then status_zero\<lparr>st_dup := True\<rparr>
      else if high < num then status_zero\<lparr>st_diff := of_nat (num - high)\<rparr>
      else status_zero\<lparr>st_outorder := True\<rparr>)"

definition tracks :: "pjmedia_rtp_seq_session \<Rightarrow> nat \<Rightarrow> bool" where
  "tracks s high \<longleftrightarrow> probation s = 0 \<and> max_seq s = of_nat high \<and> seq_ext s = of_nat high"

lemma seq_near:
  assumes t: "tracks s high" and n: "near high num"
  shows "tracks (fst (pjmedia_rtp_seq_update s (of_nat num))) (max high num)"
    "snd (pjmedia_rtp_seq_update s (of_nat num)) = track_status high num"
proof -
  have p: "probation s = 0" and m: "max_seq s = of_nat high" and e: "seq_ext s = of_nat high"
    using t by (simp_all add: tracks_def)
  have "tracks (fst (pjmedia_rtp_seq_update s (of_nat num))) (max high num) \<and>
    snd (pjmedia_rtp_seq_update s (of_nat num)) = track_status high num"
  proof (cases num high rule: linorder_cases)
    case equal
    then show ?thesis using t by (simp add: pjmedia_rtp_seq_update_def Let_def p m track_status_def)
  next
    case greater
    define d where "d = num - high"
    have d: "0 < d" "d < 3000" "num = high + d" using greater n by (simp_all add: d_def near_def RTP_MAX_DROPOUT_def)
    note f = seq_forward [OF p d(1,2), of "of_nat num"]
    have q: "(of_nat num :: u16) = max_seq s + of_nat d" by (simp add: m d(3))
    from f(1) [OF q] f(2) [OF q] greater show ?thesis
      using p e d(1) unfolding d(3) by (simp add: tracks_def track_status_def)
  next
    case less
    define d where "d = high - num"
    have d: "0 < d" "d < 100" "high = num + d" using less n by (simp_all add: d_def near_def RTP_MAX_MISORDER_def)
    define u where "u = (of_nat num - max_seq s :: u16)"
    have "u + of_nat d = 0" by (simp add: u_def m d(3))
    then have "(unat u + d) mod 65536 = 0" using unat_add16 [of u d] by simp
    moreover have "unat u < 65536" using unsigned_less [of u, where 'a = nat] by simp
    ultimately have u: "unat u = 65536 - d" using d(1,2) by (auto simp: mod_if split: if_splits)
    then have "u \<noteq> 0" "\<not> unat u < 3000" "\<not> unat u \<le> 65436" using d(2) by auto
    with p less t show ?thesis
      by (simp add: pjmedia_rtp_seq_update_def Let_def u_def [symmetric] RTP_MAX_DROPOUT_def RTP_MAX_MISORDER_def
          RTP_SEQ_MOD_def track_status_def)
  qed
  then show "tracks (fst (pjmedia_rtp_seq_update s (of_nat num))) (max high num)"
    "snd (pjmedia_rtp_seq_update s (of_nat num)) = track_status high num" by blast+
qed

text \<open>A sequence of packets, by the code and by the abstract tracker.\<close>

fun seq_updates :: "pjmedia_rtp_seq_session \<Rightarrow> u16 list \<Rightarrow> pjmedia_rtp_seq_session \<times> pjmedia_rtp_status list" where
  "seq_updates s [] = (s, [])"
| "seq_updates s (q # qs) =
     (let (s, st) = pjmedia_rtp_seq_update s q; (s, sts) = seq_updates s qs in (s, st # sts))"

fun all_near :: "nat \<Rightarrow> nat list \<Rightarrow> bool" where
  "all_near high [] = True"
| "all_near high (n # ns) = (near high n \<and> all_near (max high n) ns)"

fun track_all :: "nat \<Rightarrow> nat list \<Rightarrow> pjmedia_rtp_status list" where
  "track_all high [] = []"
| "track_all high (n # ns) = track_status high n # track_all (max high n) ns"

text \<open>
  C23: Sequence number tracking refines counting without wrap-around: for any packets whose numbers
  stay near the highest one heard, the highest sequence number with its cycle count is that highest
  number (modulo \<open>2^32\<close>), and every packet is classified as new, with its distance to the highest
  one, as a duplicate, or as out of order, exactly as its number says.
\<close>

theorem seq_tracking_exact:
  assumes "tracks s high" "all_near high nums"
  shows "seq_ext (fst (seq_updates s (map of_nat nums))) = of_nat (foldl max high nums) \<and>
    snd (seq_updates s (map of_nat nums)) = track_all high nums"
proof -
  have "tracks (fst (seq_updates s (map of_nat nums))) (foldl max high nums) \<and>
    snd (seq_updates s (map of_nat nums)) = track_all high nums"
    using assms
  proof (induction nums arbitrary: s high)
    case (Cons n ns)
    then show ?case
      using seq_near [of s high n] by (simp add: Let_def split_beta)
  qed simp
  then show ?thesis by (simp add: tracks_def)
qed

definition ex_seq :: pjmedia_rtp_seq_session where
  "ex_seq = \<lparr>max_seq = 65534, cycles = 0, base_seq = 100, bad_seq = 65537, probation = 0\<rparr>"

theorem seq_tracking_exact_witness:
  "seq_ext (fst (seq_updates ex_seq (map of_nat [65535, 65537, 65536, 65537, 65540 :: nat]))) = 65540"
proof -
  have "tracks ex_seq 65534" by (simp add: tracks_def ex_seq_def seq_ext_def)
  moreover have "all_near 65534 [65535, 65537, 65536, 65537, 65540]"
    by (simp add: near_def RTP_MAX_DROPOUT_def RTP_MAX_MISORDER_def)
  ultimately show ?thesis
    using seq_tracking_exact [of ex_seq 65534 "[65535, 65537, 65536, 65537, 65540]"] by simp
qed

lemma of_nat_mod_16: "(of_nat (k mod 65536) :: u32) = of_nat k AND 65535"
proof -
  have "(of_nat k :: u32) AND 65535 = take_bit 16 (of_nat k)"
    by (simp add: take_bit_eq_mask mask_eq_exp_minus_1)
  also have "\<dots> = of_nat (k mod 65536)"
    by (simp add: take_bit_of_nat) (simp add: take_bit_eq_mod)
  finally show ?thesis by simp
qed

text \<open>
  A packet far from the highest sequence number is reported as bad and otherwise only
  remembered: the tracking goes on as before; but if the next packet follows it in sequence, the
  session restarts with it.
\<close>

theorem seq_jump_restarts:
  assumes "probation s = 0" "RTP_MAX_DROPOUT \<le> unat (seq - max_seq s)"
    and "unat (seq - max_seq s) \<le> RTP_SEQ_MOD - RTP_MAX_MISORDER" "ucast seq \<noteq> bad_seq s"
    and s1: "(s1, st1) = pjmedia_rtp_seq_update s seq"
  shows "st_bad st1 \<and> \<not> st_restart st1 \<and> max_seq s1 = max_seq s \<and> cycles s1 = cycles s \<and> probation s1 = 0 \<and>
    (unat (seq - max_seq s) < RTP_SEQ_MOD - RTP_MAX_MISORDER \<longrightarrow>
      pjmedia_rtp_seq_update s1 (seq + 1) =
        (pjmedia_rtp_seq_restart s1 (seq + 1), status_zero\<lparr>st_restart := True, st_probation := True, st_diff := 1\<rparr>))"
proof -
  define u where "u = seq - max_seq s"
  have u: "3000 \<le> unat u" "unat u \<le> 65436" using assms(2,3)
    by (simp_all add: u_def RTP_MAX_DROPOUT_def RTP_MAX_MISORDER_def RTP_SEQ_MOD_def)
  then have u0: "u \<noteq> 0" by auto
  have e: "(s1, st1) = (s\<lparr>bad_seq := of_nat (unat seq + 1) AND 65535\<rparr>, status_zero\<lparr>st_bad := True, st_outorder := True\<rparr>)"
    unfolding s1 using assms(1,4) u u0
    by (simp add: pjmedia_rtp_seq_update_def Let_def u_def [symmetric] RTP_MAX_DROPOUT_def RTP_MAX_MISORDER_def RTP_SEQ_MOD_def)
  have "pjmedia_rtp_seq_update s1 (seq + 1) =
        (pjmedia_rtp_seq_restart s1 (seq + 1), status_zero\<lparr>st_restart := True, st_probation := True, st_diff := 1\<rparr>)"
    if "unat u < 65436"
  proof -
    define v where "v = seq + 1 - max_seq s"
    have "v = u + 1" by (simp add: v_def u_def)
    then have v: "unat v = unat u + 1" using that by (simp add: unat_word_ariths)
    then have v0: "v \<noteq> 0" by auto
    have "(ucast (seq + 1) :: u32) = of_nat (unat seq + 1) AND 65535"
    proof -
      have "unat (seq + 1) = (unat seq + 1) mod 65536" by (simp add: unat_word_ariths)
      then have "(ucast (seq + 1) :: u32) = of_nat ((unat seq + 1) mod 65536)" by (metis of_nat_unat)
      also have "\<dots> = of_nat (unat seq + 1) AND 65535" by (rule of_nat_mod_16)
      finally show ?thesis .
    qed
    then show ?thesis
      using e v v0 that u assms(1)
      by (simp add: pjmedia_rtp_seq_update_def Let_def v_def [symmetric] RTP_MAX_DROPOUT_def RTP_MAX_MISORDER_def RTP_SEQ_MOD_def)
  qed
  then show ?thesis using e assms(1)
    by (simp add: status_zero_def RTP_MAX_MISORDER_def RTP_SEQ_MOD_def u_def)
qed

section \<open>Received packets\<close>

lemma payload_bounds: "rtp_payload pkt (int (length pkt)) b off \<noteq> None \<and>
    (rtp_payload pkt (int (length pkt)) b off = Some (Inr (off', len)) \<longrightarrow> off' = off \<and> off + len \<le> length pkt)"
proof -
  have "nat (int (length pkt) - int off) = length pkt - off" by linarith
  then show ?thesis by (auto simp: rtp_payload_def Let_def rd8_def split: if_splits)
qed

lemma rd16_None: "rd16 mem i = None \<longleftrightarrow> length mem < i + 2"
  by (auto simp: rd16_def rd8_def)

text \<open>
  C37: The payload found in a received packet lies within it, after the fixed header; the decoder
  reads beyond the packet exactly when it is empty, or is of version 2 with the extension flag and
  ends before the length of the extension.
\<close>

theorem rtp_decode_bounds:
  assumes "pjmedia_rtp_decode_rtp pkt (int (length pkt)) = res"
  shows "(res = None \<longleftrightarrow> pkt = [] \<or>
      ((ucast (drop_bit 6 (hd pkt)) :: 2 word) = 2 \<and> (ucast (drop_bit 4 (hd pkt)) :: 1 word) \<noteq> 0 \<and>
       length pkt < 16 + 4 * unat (ucast (hd pkt) :: 4 word))) \<and>
    (\<forall>off len. res = Some (Inr (off, len)) \<longrightarrow> 12 \<le> off \<and> off + len \<le> length pkt)"
proof (cases pkt)
  case Nil
  then show ?thesis using assms by (auto simp: pjmedia_rtp_decode_rtp_def rd8_def)
next
  case (Cons b bs)
  define v :: "2 word" where "v = ucast (drop_bit 6 (hd pkt))"
  define x :: "1 word" where "x = ucast (drop_bit 4 (hd pkt))"
  define off where "off = 12 + unat (ucast (hd pkt) :: 4 word) * 4"
  define rest where "rest = rtp_payload pkt (int (length pkt)) (hd pkt)"
  have rest: "rest o1 \<noteq> None" "rest o1 = Some (Inr (o2, len)) \<Longrightarrow> o2 = o1 \<and> o1 + len \<le> length pkt" for o1 o2 len
    unfolding rest_def using payload_bounds by blast+
  have v2: "unat v = RTP_VERSION \<longleftrightarrow> v = 2"
    using word_unat_eq_iff [of v 2] by (simp add: RTP_VERSION_def)
  have "rd8 pkt 0 = Some (hd pkt)" using Cons by (simp add: rd8_def)
  then have eq: "res = (if v \<noteq> 2 then Some (Inl PJMEDIA_RTP_EINVER)
    else if x = 0 then rest off
    else Option.bind (rd16 pkt (off + 2)) (\<lambda>len. rest (off + (unat (pj_ntohs len) + 1) * 4)))"
    using v2 unfolding assms [symmetric] pjmedia_rtp_decode_rtp_def
    by (simp add: v_def [symmetric] x_def [symmetric] off_def [symmetric] rest_def Let_def)
  have "off + 4 = 16 + 4 * unat (ucast (hd pkt) :: 4 word)" "12 \<le> off" by (simp_all add: off_def)
  moreover have "pkt \<noteq> []" using Cons by simp
  ultimately show ?thesis
    using rest rd16_None [of pkt "off + 2"] unfolding eq v_def [symmetric] x_def [symmetric]
    by (cases "rd16 pkt (off + 2)") (auto dest: rest(2))
qed

text \<open>
  The first packet of a session is accepted, as in probation, unless its sequence number is 0:
  then it is reported as bad, since the successor of 65535 is compared without wrap-around.
\<close>

theorem first_packet_accepted:
  assumes "received ses = 0" "\<not> check_pt \<or> ucast (hdr_pt hdr) = out_pt ses"
  shows "\<exists>st. snd (pjmedia_rtp_session_update2 ses hdr (Some st0) check_pt) = Some st \<and> st_probation st \<and>
    (st_bad st \<longleftrightarrow> pj_ntohs (hdr_seq hdr) = 0) \<and>
    received (fst (pjmedia_rtp_session_update2 ses hdr (Some st0) check_pt)) =
      (if pj_ntohs (hdr_seq hdr) = 0 then 0 else 1)"
proof -
  define q where "q = pj_ntohs (hdr_seq hdr)"
  have "unat q = unat (q - 1) + 1 \<longleftrightarrow> q \<noteq> 0"
    by (cases "q = 0") (auto simp: unat_minus_one unat_gt_0)
  then show ?thesis
    using assms
    by (auto simp: pjmedia_rtp_session_update2_def Let_def q_def [symmetric] pjmedia_rtp_seq_update_def
        pjmedia_rtp_seq_init_def pjmedia_rtp_seq_restart_def MIN_SEQUENTIAL_def status_zero_def split_beta)
qed

text \<open>
  A changed synchronization source is never reported for a packet with the expected payload
  type: the check of the sequence number overwrites the flag \<open>badssrc\<close>.
\<close>

theorem badssrc_lost:
  assumes "\<not> check_pt \<or> ucast (hdr_pt hdr) = out_pt ses"
  shows "\<exists>st. snd (pjmedia_rtp_session_update2 ses hdr (Some st0) check_pt) = Some st \<and> \<not> st_badssrc st \<and>
    peer_ssrc (fst (pjmedia_rtp_session_update2 ses hdr (Some st0) check_pt)) = pj_ntohl (hdr_ssrc hdr)"
proof -
  have "\<not> st_badssrc (snd (pjmedia_rtp_seq_update s q))" for s q
    by (simp add: pjmedia_rtp_seq_update_def Let_def status_zero_def)
  then show ?thesis
    using assms by (auto simp: pjmedia_rtp_session_update2_def Let_def split_beta)
qed

section \<open>A stream from sender to receiver\<close>

text \<open>A frame is its payload type, marker, payload and duration; frames without payload send nothing.\<close>

type_synonym rtp_frame = "int \<times> int \<times> u8 list \<times> int"

fun rtp_send :: "pjmedia_rtp_session \<Rightarrow> rtp_frame list \<Rightarrow> pjmedia_rtp_session \<times> u8 list list" where
  "rtp_send ses [] = (ses, [])"
| "rtp_send ses ((pt, m, payload, ts_len) # fs) =
     (let (ses, hdr) = pjmedia_rtp_encode_rtp ses pt m (int (length payload)) ts_len;
          (ses, pkts) = rtp_send ses fs
      in (ses, case hdr of None \<Rightarrow> pkts | Some h \<Rightarrow> (hdr_bytes h @ payload) # pkts))"

fun rtp_receive :: "pjmedia_rtp_session \<Rightarrow> u8 list list \<Rightarrow>
    (pjmedia_rtp_session \<times> (u8 list \<times> u32 \<times> pjmedia_rtp_status) list) option" where
  "rtp_receive ses [] = Some (ses, [])"
| "rtp_receive ses (pkt # pkts) = do {
     res \<leftarrow> pjmedia_rtp_decode_rtp pkt (int (length pkt));
     hdr \<leftarrow> hdr_read pkt;
     case res of
       Inl e \<Rightarrow> None
     | Inr (off, len) \<Rightarrow> do {
         let (ses, st) = pjmedia_rtp_session_update2 ses hdr (Some status_zero) False;
         (ses, outs) \<leftarrow> rtp_receive ses pkts;
         Some (ses, (take len (drop off pkt), pj_ntohl (hdr_ts hdr), the st) # outs)
       }
   }"

text \<open>The payloads and timestamps of the frames that are sent.\<close>

fun sent_frames :: "u32 \<Rightarrow> rtp_frame list \<Rightarrow> (u8 list \<times> u32) list" where
  "sent_frames ts [] = []"
| "sent_frames ts ((pt, m, payload, ts_len) # fs) =
     (let ts = ts + word_of_int ts_len
      in (if payload = [] then [] else [(payload, ts)]) @ sent_frames ts fs)"

definition plain_hdr :: "pjmedia_rtp_hdr \<Rightarrow> bool" where
  "plain_hdr h \<longleftrightarrow> hdr_v h = 2 \<and> hdr_cc h = 0 \<and> hdr_x h = 0 \<and> hdr_p h = 0"

definition receiving :: "pjmedia_rtp_session \<Rightarrow> nat \<Rightarrow> nat \<Rightarrow> bool" where
  "receiving ses n num \<longleftrightarrow> received ses = of_nat n \<and>
     (n = 1 \<longrightarrow> probation (seq_ctrl ses) = 1 \<and> cycles (seq_ctrl ses) = 0 \<and>
        max_seq (seq_ctrl ses) = of_nat num \<and> num < 65535) \<and>
     (1 < n \<longrightarrow> tracks (seq_ctrl ses) num)"

lemma receive_next:
  assumes r: "receiving ses n num" and n: "n < 2 ^ 32" and first: "n = 0 \<longrightarrow> num < 65534"
    and q: "pj_ntohs (hdr_seq hdr) = of_nat (Suc num)"
  shows "\<exists>ses' st. pjmedia_rtp_session_update2 ses hdr (Some st0) False = (ses', Some st) \<and>
    \<not> st_bad st \<and> \<not> st_dup st \<and> \<not> st_outorder st \<and> st_diff st = 1 \<and> receiving ses' (Suc n) (Suc num)"
proof -
  define s where "s = seq_ctrl ses"
  define q' :: u16 where "q' = of_nat (Suc num)"
  have res: "\<exists>ses'. pjmedia_rtp_session_update2 ses hdr (Some st0) False =
      (ses', Some (snd (pjmedia_rtp_seq_update s1 q'))) \<and> seq_ctrl ses' = fst (pjmedia_rtp_seq_update s1 q') \<and>
      received ses' = of_nat (Suc n)"
    if "\<not> st_bad (snd (pjmedia_rtp_seq_update s1 q'))"
      "s1 = (if n = 0 then pjmedia_rtp_seq_init s q' else s)" for s1
  proof -
    have "received ses = 0 \<longleftrightarrow> n = 0"
      using r n unat_of_nat [of n, where 'a = 32] by (auto simp: receiving_def)
    then show ?thesis
      using that r by (auto simp: pjmedia_rtp_session_update2_def Let_def split_beta q q'_def s_def receiving_def)
  qed
  consider "n = 0" | "n = 1" | "1 < n" by linarith
  then show ?thesis
  proof cases
    case 1
    define s1 where "s1 = pjmedia_rtp_seq_init s q'"
    have u: "unat q' = Suc num" using first 1 by (simp add: q'_def unat_of_nat del: of_nat_Suc)
    then have "q' \<noteq> 0" by auto
    then have "unat q' = unat (q' - 1) + 1" using u by (simp add: unat_minus_one)
    then have e: "pjmedia_rtp_seq_update s1 q' =
        (s1\<lparr>probation := 1, max_seq := q'\<rparr>, status_zero\<lparr>st_probation := True, st_diff := 1\<rparr>)"
      by (simp add: s1_def pjmedia_rtp_seq_update_def Let_def pjmedia_rtp_seq_init_def pjmedia_rtp_seq_restart_def
          MIN_SEQUENTIAL_def)
    moreover have "cycles s1 = 0" by (simp add: s1_def pjmedia_rtp_seq_init_def pjmedia_rtp_seq_restart_def)
    ultimately show ?thesis
      using res [of s1] 1 first
      by (auto simp: s1_def receiving_def status_zero_def q'_def)
  next
    case 2
    then have p: "probation s = 1" "cycles s = 0" "max_seq s = of_nat num" "num < 65535"
      using r by (simp_all add: receiving_def s_def)
    then have "unat q' = unat (max_seq s) + 1" by (simp add: q'_def unat_of_nat del: of_nat_Suc)
    then have e: "pjmedia_rtp_seq_update s q' = (s\<lparr>probation := 0, max_seq := q'\<rparr>, status_zero\<lparr>st_diff := 1\<rparr>)"
      using p by (simp add: pjmedia_rtp_seq_update_def Let_def status_zero_def)
    have "(ucast q' :: u32) = of_nat (unat q')" by (simp add: of_nat_unat)
    also have "unat q' = Suc num" using p(4) by (simp add: q'_def unat_of_nat del: of_nat_Suc)
    finally have "tracks (s\<lparr>probation := 0, max_seq := q'\<rparr>) (Suc num)"
      using p by (simp add: tracks_def seq_ext_def q'_def)
    then show ?thesis
      using res [of s] e 2 by (auto simp: receiving_def status_zero_def)
  next
    case 3
    then have t: "tracks s num" using r by (simp add: receiving_def s_def)
    have "near num (Suc num)" by (simp add: near_def RTP_MAX_DROPOUT_def RTP_MAX_MISORDER_def)
    note f = seq_near [OF t this, folded q'_def]
    have "snd (pjmedia_rtp_seq_update s q') = status_zero\<lparr>st_diff := 1\<rparr>"
      using f(2) by (simp add: track_status_def)
    then show ?thesis
      using res [of s] f(1) 3 by (auto simp: receiving_def status_zero_def)
  qed
qed

lemma ucast_of_nat16: "(ucast (of_nat k :: u32) :: u16) = of_nat k"
  by (rule bit_word_eqI) (auto simp: bit_simps)

lemma encode_header:
  assumes "plain_hdr (out_hdr ses)" "len \<noteq> 0"
  shows "\<exists>ses' h. pjmedia_rtp_encode_rtp ses pt m len ts_len = (ses', Some h) \<and> plain_hdr h \<and> plain_hdr (out_hdr ses') \<and>
    out_extseq ses' = out_extseq ses + 1 \<and> pj_ntohs (hdr_seq h) = ucast (out_extseq ses + 1) \<and>
    pj_ntohl (hdr_ts h) = pj_ntohl (hdr_ts (out_hdr ses)) + word_of_int ts_len \<and> hdr_ts (out_hdr ses') = hdr_ts h"
  using assms by (simp add: pjmedia_rtp_encode_rtp_def plain_hdr_def Let_def)

lemma encode_silent:
  "\<exists>ses'. pjmedia_rtp_encode_rtp ses pt m 0 ts_len = (ses', None) \<and>
    (plain_hdr (out_hdr ses) \<longrightarrow> plain_hdr (out_hdr ses')) \<and> out_extseq ses' = out_extseq ses \<and>
    pj_ntohl (hdr_ts (out_hdr ses')) = pj_ntohl (hdr_ts (out_hdr ses)) + word_of_int ts_len"
  by (simp add: pjmedia_rtp_encode_rtp_def plain_hdr_def Let_def)

lemma rtp_stream:
  assumes "plain_hdr (out_hdr ses)" "out_extseq ses = of_nat num" "receiving rcv n num"
    and "n + length fs < 2 ^ 32" "n = 0 \<longrightarrow> num < 65534"
  shows "\<exists>ses' pkts rcv' outs. rtp_send ses fs = (ses', pkts) \<and> rtp_receive rcv pkts = Some (rcv', outs) \<and>
    map (\<lambda>(pl, ts, st). (pl, ts)) outs = sent_frames (pj_ntohl (hdr_ts (out_hdr ses))) fs \<and>
    (\<forall>(pl, ts, st) \<in> set outs. \<not> st_bad st \<and> \<not> st_dup st \<and> \<not> st_outorder st \<and> st_diff st = 1) \<and>
    receiving rcv' (n + length outs) (num + length outs) \<and> out_extseq ses' = of_nat (num + length outs)"
  using assms
proof (induction fs arbitrary: ses rcv n num)
  case Nil
  then show ?case by simp
next
  case (Cons f fs)
  obtain pt m payload ts_len where f: "f = (pt, m, payload, ts_len)" by (cases f) auto
  show ?case
  proof (cases "payload = []")
    case True
    from encode_silent [of ses pt m ts_len] obtain ses1 where
      1: "pjmedia_rtp_encode_rtp ses pt m 0 ts_len = (ses1, None)" "plain_hdr (out_hdr ses1)"
        "out_extseq ses1 = of_nat num"
        "pj_ntohl (hdr_ts (out_hdr ses1)) = pj_ntohl (hdr_ts (out_hdr ses)) + word_of_int ts_len"
      using Cons.prems by auto
    have "n + length fs < 2 ^ 32" using Cons.prems by simp
    from Cons.IH [OF 1(2,3) Cons.prems(3) this Cons.prems(5)] show ?thesis
      using 1 True by (auto simp: f Let_def)
  next
    case False
    from encode_header [OF Cons.prems(1), of "int (length payload)" pt m ts_len] False obtain ses1 h where
      1: "pjmedia_rtp_encode_rtp ses pt m (int (length payload)) ts_len = (ses1, Some h)" "plain_hdr h"
        "plain_hdr (out_hdr ses1)" "out_extseq ses1 = of_nat (Suc num)"
        "pj_ntohs (hdr_seq h) = ucast (of_nat num + 1 :: u32)"
        "pj_ntohl (hdr_ts h) = pj_ntohl (hdr_ts (out_hdr ses)) + word_of_int ts_len"
        "hdr_ts (out_hdr ses1) = hdr_ts h"
      using Cons.prems(2) by (auto simp: add.commute)
    have q: "pj_ntohs (hdr_seq h) = of_nat (Suc num)"
      using 1(5) ucast_of_nat16 [of "Suc num"] by (simp add: add.commute)
    have n: "n < 2 ^ 32" "Suc n + length fs < 2 ^ 32" using Cons.prems(4) by simp_all
    from receive_next [OF Cons.prems(3) n(1) Cons.prems(5) q, of status_zero] obtain rcv1 st where
      2: "pjmedia_rtp_session_update2 rcv h (Some status_zero) False = (rcv1, Some st)"
        "\<not> st_bad st \<and> \<not> st_dup st \<and> \<not> st_outorder st \<and> st_diff st = 1" "receiving rcv1 (Suc n) (Suc num)"
      by auto
    from Cons.IH [OF 1(3,4) 2(3) n(2)] obtain ses' pkts rcv' outs where
      3: "rtp_send ses1 fs = (ses', pkts)" "rtp_receive rcv1 pkts = Some (rcv', outs)"
        "map (\<lambda>(pl, ts, st). (pl, ts)) outs = sent_frames (pj_ntohl (hdr_ts (out_hdr ses1))) fs"
        "\<forall>(pl, ts, st) \<in> set outs. \<not> st_bad st \<and> \<not> st_dup st \<and> \<not> st_outorder st \<and> st_diff st = 1"
        "receiving rcv' (Suc n + length outs) (Suc num + length outs)"
        "out_extseq ses' = of_nat (Suc num + length outs)"
      by auto
    have d: "pjmedia_rtp_decode_rtp (hdr_bytes h @ payload) (int (length (hdr_bytes h @ payload))) =
        Some (Inr (12, length payload))"
      using decode_plain [of h payload] 1(2) by (simp add: plain_hdr_def)
    have "rtp_send ses (f # fs) = (ses', (hdr_bytes h @ payload) # pkts)"
      using 1(1) 3(1) by (simp add: f Let_def)
    moreover have "rtp_receive rcv ((hdr_bytes h @ payload) # pkts) =
        Some (rcv', (payload, pj_ntohl (hdr_ts h), st) # outs)"
      using d 2(1) 3(2) by (simp add: hdr_read_bytes Let_def)
    moreover define outs' where "outs' = (payload, pj_ntohl (hdr_ts h), st) # outs"
    moreover have "map (\<lambda>(pl, ts, st). (pl, ts)) outs' = sent_frames (pj_ntohl (hdr_ts (out_hdr ses))) (f # fs)"
      using 3(3) 1(6,7) False by (simp add: outs'_def f Let_def)
    moreover have "\<forall>(pl, ts, st) \<in> set outs'. \<not> st_bad st \<and> \<not> st_dup st \<and> \<not> st_outorder st \<and> st_diff st = 1"
      using 3(4) 2(2) by (simp add: outs'_def)
    moreover have "receiving rcv' (n + length outs') (num + length outs')"
      "out_extseq ses' = of_nat (num + length outs')"
      using 3(5,6) by (simp_all add: outs'_def)
    ultimately show ?thesis
      by (intro exI [of _ ses'] exI [of _ "(hdr_bytes h @ payload) # pkts"] exI [of _ rcv'] exI [of _ outs'] conjI)
        (simp_all only: outs'_def)
  qed
qed

text \<open>
  C22: A stream from an initialised sender to a new receiver: every frame with a payload arrives
  with its payload and its timestamp (the durations of all frames up to it), in order; no packet is
  reported as bad, duplicate, or out of order, each is the successor of the one before; and in the
  end the receiver's highest sequence number with its cycles is the sender's extended one.
\<close>

theorem rtp_stream_roundtrip:
  assumes "received rcv = 0" "length fs < 2 ^ 32"
    and "ses = pjmedia_rtp_session_init rand1 rand2 pt ssrc"
  shows "\<exists>ses' pkts rcv' outs. rtp_send ses fs = (ses', pkts) \<and> rtp_receive rcv pkts = Some (rcv', outs) \<and>
    map (\<lambda>(pl, ts, st). (pl, ts)) outs = sent_frames 0 fs \<and>
    (\<forall>(pl, ts, st) \<in> set outs. \<not> st_bad st \<and> \<not> st_dup st \<and> \<not> st_outorder st \<and> st_diff st = 1) \<and>
    (2 \<le> length outs \<longrightarrow> seq_ext (seq_ctrl rcv') = out_extseq ses')"
proof -
  define num where "num = unat (rand2 AND 0x7FFF)"
  have "rand2 AND 0x7FFF \<le> 0x7FFF" by (rule word_and_le1)
  then have num: "num < 65534" by (simp add: num_def word_le_nat_alt)
  have s: "plain_hdr (out_hdr ses)" "out_extseq ses = of_nat num" "hdr_ts (out_hdr ses) = 0"
    by (simp_all add: assms(3) pjmedia_rtp_session_init_def Let_def plain_hdr_def RTP_VERSION_def num_def)
  have r: "receiving rcv 0 num" using assms(1) by (simp add: receiving_def)
  have z: "pj_ntohl 0 = 0" by (simp add: pj_htonl_def)
  have "0 + length fs < 2 ^ 32" "(0 :: nat) = 0 \<longrightarrow> num < 65534" using assms(2) num by simp_all
  from rtp_stream [OF s(1,2) r this] obtain ses' pkts rcv' outs where
    o: "rtp_send ses fs = (ses', pkts)" "rtp_receive rcv pkts = Some (rcv', outs)"
      "map (\<lambda>(pl, ts, st). (pl, ts)) outs = sent_frames 0 fs"
      "\<forall>(pl, ts, st) \<in> set outs. \<not> st_bad st \<and> \<not> st_dup st \<and> \<not> st_outorder st \<and> st_diff st = 1"
      "receiving rcv' (length outs) (num + length outs)" "out_extseq ses' = of_nat (num + length outs)"
    unfolding s(3) z add_0 by blast
  have "seq_ext (seq_ctrl rcv') = out_extseq ses'" if "2 \<le> length outs"
    using o(5,6) that by (simp add: receiving_def tracks_def)
  with o(1-4) show ?thesis
    by (intro exI [of _ ses'] exI [of _ pkts] exI [of _ rcv'] exI [of _ outs] conjI impI)
qed

definition ex_frames :: "rtp_frame list" where
  "ex_frames = [(0, 1, [1, 2, 3], 160), (0, 0, [], 160), (0, 0, [4, 5], 160)]"

definition ex_rcv :: pjmedia_rtp_session where
  "ex_rcv = pjmedia_rtp_session_init 1 2 0 5"

theorem rtp_stream_roundtrip_witness:
  "\<exists>pkts rcv' outs. snd (rtp_send (pjmedia_rtp_session_init 7 0x7FFF 0 9) ex_frames) = pkts \<and>
    rtp_receive ex_rcv pkts = Some (rcv', outs) \<and>
    map (\<lambda>(pl, ts, st). (pl, ts)) outs = [([1, 2, 3], 160), ([4, 5], 480)]"
proof -
  have "received ex_rcv = 0" by (simp add: ex_rcv_def pjmedia_rtp_session_init_def Let_def)
  moreover have "length ex_frames < 2 ^ 32" by (simp add: ex_frames_def)
  moreover have "sent_frames 0 ex_frames = [([1, 2, 3], 160), ([4, 5], 480)]" by (simp add: ex_frames_def)
  ultimately show ?thesis
    using rtp_stream_roundtrip [of ex_rcv ex_frames _ 7 "0x7FFF" 0 9, OF _ _ refl] by fastforce
qed

theorem seq_jump_restarts_witness:
  "st_restart (snd (pjmedia_rtp_seq_update (fst (pjmedia_rtp_seq_update ex_seq 10000)) 10001))"
proof -
  obtain s1 st1 where s: "(s1, st1) = pjmedia_rtp_seq_update ex_seq 10000" by (metis surj_pair)
  have u: "unat (10000 - max_seq ex_seq) = 10002" by (simp add: ex_seq_def)
  have "probation ex_seq = 0" "ucast (10000 :: u16) \<noteq> bad_seq ex_seq" by (simp_all add: ex_seq_def)
  from seq_jump_restarts [OF this(1) _ _ this(2) s] u
  have "pjmedia_rtp_seq_update s1 (10000 + 1) = (pjmedia_rtp_seq_restart s1 (10000 + 1),
      status_zero\<lparr>st_restart := True, st_probation := True, st_diff := 1\<rparr>)"
    by (simp add: RTP_MAX_DROPOUT_def RTP_MAX_MISORDER_def RTP_SEQ_MOD_def)
  then show ?thesis by (simp flip: s)
qed

definition ex_hdr :: pjmedia_rtp_hdr where
  "ex_hdr = \<lparr>hdr_cc = 0, hdr_x = 0, hdr_p = 0, hdr_v = 2, hdr_pt = 0, hdr_m = 0, hdr_seq = 0, hdr_ts = 0,
     hdr_ssrc = 0x01000000\<rparr>"

theorem rtp_decode_bounds_witness:
  "pjmedia_rtp_decode_rtp (0x90 # replicate 11 0) 12 = None"
  using rtp_decode_bounds [of "0x90 # replicate 11 0", OF refl] by simp

theorem first_packet_accepted_witness:
  "\<exists>st. snd (pjmedia_rtp_session_update2 ex_rcv ex_hdr (Some status_zero) True) = Some st \<and> st_bad st"
proof -
  have "received ex_rcv = 0" "ucast (hdr_pt ex_hdr) = out_pt ex_rcv" "pj_ntohs (hdr_seq ex_hdr) = 0"
    by (simp_all add: ex_rcv_def ex_hdr_def pjmedia_rtp_session_init_def Let_def pj_htons_def)
  with first_packet_accepted [of ex_rcv True ex_hdr status_zero] show ?thesis by auto
qed

theorem badssrc_lost_witness:
  "\<exists>st. snd (pjmedia_rtp_session_update2 (ex_rcv\<lparr>peer_ssrc := 5\<rparr>) ex_hdr (Some status_zero) True) = Some st \<and>
    \<not> st_badssrc st"
proof -
  have "ucast (hdr_pt ex_hdr) = out_pt (ex_rcv\<lparr>peer_ssrc := 5\<rparr>)"
    by (simp add: ex_rcv_def ex_hdr_def pjmedia_rtp_session_init_def Let_def)
  with badssrc_lost [of True ex_hdr "ex_rcv\<lparr>peer_ssrc := 5\<rparr>" status_zero] show ?thesis by auto
qed

end
