(* ===== verification/Scanner.thy ===== *)
theory Scanner
  imports Pj_string
begin

unbundle bit_operations_syntax

text \<open>
  The text scanner of \<open>pjlib-util/src/pjlib-util/scanner.c\<close>, with its character classes
  (\<open>pj_cis_t\<close>, both implementations \<open>scanner_cis_bitwise\<close> and \<open>scanner_cis_uint\<close>), and the
  escaping of \<open>pjlib-util/src/pjlib-util/string.c\<close>.

  A scanner (\<open>pj_scanner\<close>) holds the memory from \<open>begin\<close> on as a list, which goes beyond \<open>end\<close>:
  the byte at \<open>end\<close> is the terminating 0 the scanner relies on.  Pointers are positions in the
  list.  A syntax error calls the scanner's callback, which throws an exception in every parser
  (\<open>on_scanner_error\<close>, \<open>on_syntax_error\<close>): the operation then has no result (\<open>None\<close>), and it has
  not changed the scanner.  A string an operation returns (\<open>out\<close>, a pointer and a length into the
  buffer) is the list of its characters.
\<close>

section \<open>Character classes\<close>

text \<open>
  The operations \<open>pj_cis_*\<close> are written over the macros \<open>PJ_CIS_SET\<close>, \<open>PJ_CIS_CLR\<close> and
  \<open>PJ_CIS_ISSET\<close>, which each implementation defines.  They are arguments here.  A store \<open>'s\<close> holds
  several classes, named by numbers.  The loops over a range run from \<open>cstart\<close> to \<open>cend\<close>, which
  no caller gives in the wrong order.
\<close>

definition cis_add_range :: "('s \<Rightarrow> nat \<Rightarrow> nat \<Rightarrow> 's) \<Rightarrow> 's \<Rightarrow> nat \<Rightarrow> nat \<Rightarrow> nat \<Rightarrow> 's" where
  "cis_add_range cset s i cstart cend = fold (\<lambda>c s. cset s i c) [cstart..<cend] s"

definition cis_add_alpha :: "('s \<Rightarrow> nat \<Rightarrow> nat \<Rightarrow> 's) \<Rightarrow> 's \<Rightarrow> nat \<Rightarrow> 's" where
  "cis_add_alpha cset s i = cis_add_range cset (cis_add_range cset s i 97 (122 + 1)) i 65 (90 + 1)"

definition cis_add_num :: "('s \<Rightarrow> nat \<Rightarrow> nat \<Rightarrow> 's) \<Rightarrow> 's \<Rightarrow> nat \<Rightarrow> 's" where
  "cis_add_num cset s i = cis_add_range cset s i 48 (57 + 1)"

text \<open>
  A string is given by its characters up to the terminating 0.  The index is the character as an \<open>int\<close>, and
  \<open>char\<close> is signed on this machine: the characters from 128 on have negative indices, and the access is
  outside the array (\<open>None\<close>).
\<close>

definition cis_str_chars :: "string \<Rightarrow> nat list option" where
  "cis_str_chars str =
     (let cs = map of_char (takeWhile (\<lambda>c. c \<noteq> CHR 0x00) str)
      in if \<forall>c \<in> set cs. c < 128 then Some cs else None)"

definition cis_add_str :: "('s \<Rightarrow> nat \<Rightarrow> nat \<Rightarrow> 's) \<Rightarrow> 's \<Rightarrow> nat \<Rightarrow> string \<Rightarrow> 's option" where
  "cis_add_str cset s i str = map_option (\<lambda>cs. fold (\<lambda>c s. cset s i c) cs s) (cis_str_chars str)"

definition cis_add_cis :: "('s \<Rightarrow> nat \<Rightarrow> nat \<Rightarrow> 's) \<Rightarrow> ('s \<Rightarrow> nat \<Rightarrow> nat \<Rightarrow> bool) \<Rightarrow> 's \<Rightarrow> nat \<Rightarrow> nat \<Rightarrow> 's" where
  "cis_add_cis cset isset s i rhs =
     fold (\<lambda>c s. if isset s rhs c then cset s i c else s) [0..<256] s"

definition cis_del_range :: "('s \<Rightarrow> nat \<Rightarrow> nat \<Rightarrow> 's) \<Rightarrow> 's \<Rightarrow> nat \<Rightarrow> nat \<Rightarrow> nat \<Rightarrow> 's" where
  "cis_del_range cclr s i cstart cend = fold (\<lambda>c s. cclr s i c) [cstart..<cend] s"

definition cis_del_str :: "('s \<Rightarrow> nat \<Rightarrow> nat \<Rightarrow> 's) \<Rightarrow> 's \<Rightarrow> nat \<Rightarrow> string \<Rightarrow> 's option" where
  "cis_del_str cclr s i str = map_option (\<lambda>cs. fold (\<lambda>c s. cclr s i c) cs s) (cis_str_chars str)"

definition cis_invert ::
  "('s \<Rightarrow> nat \<Rightarrow> nat \<Rightarrow> 's) \<Rightarrow> ('s \<Rightarrow> nat \<Rightarrow> nat \<Rightarrow> 's) \<Rightarrow> ('s \<Rightarrow> nat \<Rightarrow> nat \<Rightarrow> bool) \<Rightarrow> 's \<Rightarrow> nat \<Rightarrow> 's" where
  "cis_invert cset cclr isset s i =
     fold (\<lambda>c s. if isset s i c then cclr s i c else cset s i c) [1..<256] s"

text \<open>The bitwise implementation: 32 classes share one array of 256 masks.\<close>

record cis_buf =
  cb_bits :: "u32 list"
  cb_mask :: u32

definition bw_set :: "cis_buf \<Rightarrow> nat \<Rightarrow> nat \<Rightarrow> cis_buf" where
  "bw_set b i c = b\<lparr>cb_bits := (cb_bits b)[c := (cb_bits b ! c) OR push_bit i 1]\<rparr>"

definition bw_clr :: "cis_buf \<Rightarrow> nat \<Rightarrow> nat \<Rightarrow> cis_buf" where
  "bw_clr b i c = b\<lparr>cb_bits := (cb_bits b)[c := (cb_bits b ! c) AND NOT (push_bit i 1)]\<rparr>"

definition bw_isset :: "cis_buf \<Rightarrow> nat \<Rightarrow> nat \<Rightarrow> bool" where
  "bw_isset b i c = ((cb_bits b ! c) AND push_bit i 1 \<noteq> 0)"

definition bw_buf_init :: cis_buf where
  "bw_buf_init = \<lparr>cb_bits = replicate 256 0, cb_mask = 0\<rparr>"

text \<open>\<open>pj_cis_init\<close> takes the first free number; when all are taken the number is 32.\<close>

fun bw_find_free :: "u32 \<Rightarrow> nat list \<Rightarrow> nat option" where
  "bw_find_free m [] = None"
| "bw_find_free m (i # ks) =
     (if m AND push_bit i 1 = 0 then Some i else bw_find_free m ks)"

definition bw_cis_init :: "cis_buf \<Rightarrow> bool \<times> nat \<times> cis_buf" where
  "bw_cis_init b = (case bw_find_free (cb_mask b) [0..<32] of
     Some i \<Rightarrow> (True, i, b\<lparr>cb_mask := cb_mask b OR push_bit i 1\<rparr>)
   | None \<Rightarrow> (False, 32, b))"

definition bw_cis_dup :: "cis_buf \<Rightarrow> nat \<Rightarrow> bool \<times> nat \<times> cis_buf" where
  "bw_cis_dup b ex = (case bw_cis_init b of (ok, i, b1) \<Rightarrow>
     if \<not> ok then (False, i, b1)
     else (True, i, fold (\<lambda>c b. if bw_isset b ex c then bw_set b i c else bw_clr b i c) [0..<256] b1))"

text \<open>The other implementation: every class has its own array of 256 numbers.\<close>

definition ui_set :: "nat list list \<Rightarrow> nat \<Rightarrow> nat \<Rightarrow> nat list list" where
  "ui_set s i c = s[i := (s ! i)[c := 1]]"

definition ui_clr :: "nat list list \<Rightarrow> nat \<Rightarrow> nat \<Rightarrow> nat list list" where
  "ui_clr s i c = s[i := (s ! i)[c := 0]]"

definition ui_isset :: "nat list list \<Rightarrow> nat \<Rightarrow> nat \<Rightarrow> bool" where
  "ui_isset s i c = (s ! i ! c \<noteq> 0)"

definition ui_cis_init :: "nat list list \<Rightarrow> nat \<Rightarrow> nat list list" where
  "ui_cis_init s i = s[i := replicate 256 0]"

definition ui_cis_dup :: "nat list list \<Rightarrow> nat \<Rightarrow> nat \<Rightarrow> nat list list" where
  "ui_cis_dup s i ex = s[i := s ! ex]"

text \<open>
  What a character class promises: setting and clearing change one character of one class.
  \<open>fine s i\<close> says that the store \<open>s\<close> has a class \<open>i\<close>.
\<close>

locale char_class =
  fixes cset cclr :: "'s \<Rightarrow> nat \<Rightarrow> nat \<Rightarrow> 's" and isset :: "'s \<Rightarrow> nat \<Rightarrow> nat \<Rightarrow> bool"
    and fine :: "'s \<Rightarrow> nat \<Rightarrow> bool"
  assumes fine_set: "fine s i \<Longrightarrow> fine s j \<Longrightarrow> c < 256 \<Longrightarrow> fine (cset s i c) j"
    and fine_clr: "fine s i \<Longrightarrow> fine s j \<Longrightarrow> c < 256 \<Longrightarrow> fine (cclr s i c) j"
    and isset_set: "fine s i \<Longrightarrow> fine s j \<Longrightarrow> c < 256 \<Longrightarrow> d < 256 \<Longrightarrow>
          isset (cset s i c) j d = (j = i \<and> d = c \<or> isset s j d)"
    and isset_clr: "fine s i \<Longrightarrow> fine s j \<Longrightarrow> c < 256 \<Longrightarrow> d < 256 \<Longrightarrow>
          isset (cclr s i c) j d = (\<not> (j = i \<and> d = c) \<and> isset s j d)"
begin

lemma set_all:
  assumes "fine s i" "fine s j" "\<forall>c \<in> set cs. c < 256"
  shows "fine (fold (\<lambda>c s. cset s i c) cs s) j \<and>
    (\<forall>d < 256. isset (fold (\<lambda>c s. cset s i c) cs s) j d = (j = i \<and> d \<in> set cs \<or> isset s j d))"
  using assms by (induction cs arbitrary: s) (auto simp: fine_set isset_set)

lemma clr_all:
  assumes "fine s i" "fine s j" "\<forall>c \<in> set cs. c < 256"
  shows "fine (fold (\<lambda>c s. cclr s i c) cs s) j \<and>
    (\<forall>d < 256. isset (fold (\<lambda>c s. cclr s i c) cs s) j d = (\<not> (j = i \<and> d \<in> set cs) \<and> isset s j d))"
  using assms by (induction cs arbitrary: s) (auto simp: fine_clr isset_clr)

lemma add_cis_all:
  assumes "fine s i" "fine s j" "fine s r" "\<forall>c \<in> set cs. c < 256"
  shows "fine (fold (\<lambda>c s. if isset s r c then cset s i c else s) cs s) j \<and>
    (\<forall>d < 256. isset (fold (\<lambda>c s. if isset s r c then cset s i c else s) cs s) j d =
      (j = i \<and> d \<in> set cs \<and> isset s r d \<or> isset s j d))"
  using assms by (induction cs arbitrary: s) (auto simp: fine_set isset_set)

lemma invert_all:
  assumes "fine s i" "fine s j" "\<forall>c \<in> set cs. c < 256" "distinct cs"
  shows "fine (fold (\<lambda>c s. if isset s i c then cclr s i c else cset s i c) cs s) j \<and>
    (\<forall>d < 256. isset (fold (\<lambda>c s. if isset s i c then cclr s i c else cset s i c) cs s) j d =
      (if j = i \<and> d \<in> set cs then \<not> isset s i d else isset s j d))"
  using assms by (induction cs arbitrary: s) (auto simp: fine_set isset_set fine_clr isset_clr)

lemmas class_loops = set_all clr_all add_cis_all invert_all

end

lemma and_pow_zero: "i < 32 \<Longrightarrow> ((w :: u32) AND 2 ^ i = 0) = (\<not> bit w i)"
proof -
  assume i: "i < 32"
  have "w AND 2 ^ i = (if bit w i then 2 ^ i else 0)"
    by (rule bit_word_eqI) (auto simp: bit_simps)
  with i show ?thesis by simp
qed

lemma bw_isset_bit: "i < 32 \<Longrightarrow> bw_isset b i c = bit (cb_bits b ! c) i"
  by (simp add: bw_isset_def and_pow_zero)

lemma bit_or_pow: "i < 32 \<Longrightarrow> j < 32 \<Longrightarrow> bit ((w :: u32) OR 2 ^ i) j = (j = i \<or> bit w j)"
  by (auto simp: bit_simps)

lemma bit_andnot_pow: "i < 32 \<Longrightarrow> j < 32 \<Longrightarrow> bit ((w :: u32) AND NOT (2 ^ i)) j = (j \<noteq> i \<and> bit w j)"
  by (auto simp: bit_simps)

interpretation bw: char_class bw_set bw_clr bw_isset "\<lambda>b i. length (cb_bits b) = 256 \<and> i < 32"
  by unfold_locales
    (auto simp: bw_set_def bw_clr_def bw_isset_bit nth_list_update bit_or_pow bit_andnot_pow)

interpretation ui: char_class ui_set ui_clr ui_isset "\<lambda>s i. i < length s \<and> length (s ! i) = 256"
  by unfold_locales (auto simp: ui_set_def ui_clr_def ui_isset_def nth_list_update)


text \<open>The operations as data, what each does, and its meaning on sets of character codes.\<close>

datatype cis_op =
    Cis_range nat nat nat | Cis_str nat string | Cis_cis nat nat
  | Cis_unrange nat nat nat | Cis_unstr nat string | Cis_invert nat

fun cis_apply ::
  "('s \<Rightarrow> nat \<Rightarrow> nat \<Rightarrow> 's) \<Rightarrow> ('s \<Rightarrow> nat \<Rightarrow> nat \<Rightarrow> 's) \<Rightarrow> ('s \<Rightarrow> nat \<Rightarrow> nat \<Rightarrow> bool) \<Rightarrow> cis_op \<Rightarrow> 's \<Rightarrow> 's option" where
  "cis_apply cset cclr isset (Cis_range i a b) s = Some (cis_add_range cset s i a b)"
| "cis_apply cset cclr isset (Cis_str i str) s = cis_add_str cset s i str"
| "cis_apply cset cclr isset (Cis_cis i r) s = Some (cis_add_cis cset isset s i r)"
| "cis_apply cset cclr isset (Cis_unrange i a b) s = Some (cis_del_range cclr s i a b)"
| "cis_apply cset cclr isset (Cis_unstr i str) s = cis_del_str cclr s i str"
| "cis_apply cset cclr isset (Cis_invert i) s = Some (cis_invert cset cclr isset s i)"

fun cis_run ::
  "('s \<Rightarrow> nat \<Rightarrow> nat \<Rightarrow> 's) \<Rightarrow> ('s \<Rightarrow> nat \<Rightarrow> nat \<Rightarrow> 's) \<Rightarrow> ('s \<Rightarrow> nat \<Rightarrow> nat \<Rightarrow> bool) \<Rightarrow> cis_op list \<Rightarrow> 's \<Rightarrow> 's option" where
  "cis_run cset cclr isset [] s = Some s"
| "cis_run cset cclr isset (op # ops) s = Option.bind (cis_apply cset cclr isset op s) (cis_run cset cclr isset ops)"

fun cis_spec :: "cis_op \<Rightarrow> (nat \<Rightarrow> nat set) \<Rightarrow> nat \<Rightarrow> nat set" where
  "cis_spec (Cis_range i a b) A = A(i := A i \<union> {a..<b})"
| "cis_spec (Cis_str i str) A = A(i := A i \<union> of_char ` set str)"
| "cis_spec (Cis_cis i r) A = A(i := A i \<union> A r)"
| "cis_spec (Cis_unrange i a b) A = A(i := A i - {a..<b})"
| "cis_spec (Cis_unstr i str) A = A(i := A i - of_char ` set str)"
| "cis_spec (Cis_invert i) A = A(i := A i \<inter> {0} \<union> ({1..<256} - A i))"

fun cis_op_classes :: "cis_op \<Rightarrow> nat set" where
  "cis_op_classes (Cis_range i a b) = {i}"
| "cis_op_classes (Cis_str i str) = {i}"
| "cis_op_classes (Cis_cis i r) = {i, r}"
| "cis_op_classes (Cis_unrange i a b) = {i}"
| "cis_op_classes (Cis_unstr i str) = {i}"
| "cis_op_classes (Cis_invert i) = {i}"

text \<open>What a call gives: a range of codes in order (the code asserts that none added is 0), a string without its 0.\<close>

fun cis_op_codes :: "cis_op \<Rightarrow> bool" where
  "cis_op_codes (Cis_range i a b) = (0 < a \<and> a \<le> b \<and> b \<le> 256)"
| "cis_op_codes (Cis_unrange i a b) = (a \<le> b \<and> b \<le> 256)"
| "cis_op_codes (Cis_str i str) = (CHR 0x00 \<notin> set str)"
| "cis_op_codes (Cis_unstr i str) = (CHR 0x00 \<notin> set str)"
| "cis_op_codes _ = True"

fun cis_op_ascii :: "cis_op \<Rightarrow> bool" where
  "cis_op_ascii (Cis_str i str) = (\<forall>c \<in> set str. (of_char c :: nat) < 128)"
| "cis_op_ascii (Cis_unstr i str) = (\<forall>c \<in> set str. (of_char c :: nat) < 128)"
| "cis_op_ascii _ = True"

definition cis_members :: "('s \<Rightarrow> nat \<Rightarrow> nat \<Rightarrow> bool) \<Rightarrow> 's \<Rightarrow> nat \<Rightarrow> nat set" where
  "cis_members isset s i = {c. c < 256 \<and> isset s i c}"

lemma cis_str_chars_eq:
  assumes "CHR 0x00 \<notin> set str"
  shows "cis_str_chars str = (if \<forall>c \<in> set str. (of_char c :: nat) < 128 then Some (map of_char str) else None)"
proof -
  have "takeWhile (\<lambda>c. c \<noteq> CHR 0x00) str = str" by (rule takeWhile_eq_all_conv [THEN iffD2]) (use assms in metis)
  then show ?thesis unfolding cis_str_chars_def Let_def by (simp only:) simp
qed

context char_class
begin

lemma apply_spec:
  assumes "\<forall>k \<in> cis_op_classes op. fine s k" "fine s j" "cis_op_codes op" "cis_apply cset cclr isset op s = Some s'"
  shows "fine s' j \<and> cis_members isset s' j = cis_spec op (cis_members isset s) j"
proof (cases op)
  case (Cis_range i a b)
  with assms set_all [of s i j "[a..<b]"] show ?thesis
    by (auto simp: cis_add_range_def cis_members_def)
next
  case (Cis_str i str)
  with assms set_all [of s i j "map of_char str"] show ?thesis
    by (auto simp: cis_add_str_def cis_members_def cis_str_chars_eq split: if_splits)
next
  case (Cis_cis i r)
  with assms add_cis_all [of s i j r "[0..<256]"] show ?thesis
    by (auto simp: cis_add_cis_def cis_members_def)
next
  case (Cis_unrange i a b)
  with assms clr_all [of s i j "[a..<b]"] show ?thesis
    by (auto simp: cis_del_range_def cis_members_def)
next
  case (Cis_unstr i str)
  with assms clr_all [of s i j "map of_char str"] show ?thesis
    by (auto simp: cis_del_str_def cis_members_def cis_str_chars_eq split: if_splits)
next
  case (Cis_invert i)
  with assms invert_all [of s i j "[1..<256]"] show ?thesis
    by (auto simp: cis_invert_def cis_members_def split: if_splits)
qed

lemma apply_ascii: "cis_op_codes op \<Longrightarrow> (cis_apply cset cclr isset op s = None) = (\<not> cis_op_ascii op)"
  by (cases op) (auto simp: cis_add_str_def cis_del_str_def cis_str_chars_eq)

lemma run_spec_aux:
  assumes "\<forall>k < n. fine s k" "\<forall>op \<in> set ops. cis_op_classes op \<subseteq> {..<n} \<and> cis_op_codes op"
    and "\<forall>k < n. A k = cis_members isset s k" "j < n"
  shows "case cis_run cset cclr isset ops s of
      None \<Rightarrow> \<exists>op \<in> set ops. \<not> cis_op_ascii op
    | Some s' \<Rightarrow> (\<forall>op \<in> set ops. cis_op_ascii op) \<and> cis_members isset s' j = fold cis_spec ops A j"
  using assms
proof (induction ops arbitrary: s A)
  case Nil
  then show ?case by simp
next
  case (Cons op ops)
  have codes: "cis_op_codes op" using Cons.prems(2) by simp
  show ?case
  proof (cases "cis_apply cset cclr isset op s")
    case None
    then show ?thesis using apply_ascii [OF codes] by simp
  next
    case (Some s1)
    then have ascii: "cis_op_ascii op" using apply_ascii [OF codes, of s] by simp
    have step: "fine s1 k \<and> cis_members isset s1 k = cis_spec op (cis_members isset s) k" if "k < n" for k
      using Cons.prems that Some by (intro apply_spec) auto
    have "cis_spec op A k = cis_spec op (cis_members isset s) k" if "k < n" for k
      using Cons.prems(2,3) that by (cases op) auto
    with step have "\<forall>k < n. cis_spec op A k = cis_members isset s1 k" by simp
    from Cons.IH [OF _ _ this Cons.prems(4)] step Cons.prems(2) ascii Some show ?thesis
      by (auto split: option.splits)
  qed
qed

end

text \<open>
  C34: Any sequence of additions, deletions and inversions on the 32 classes of the bitwise
  implementation, which share one array, acts on each of them as on a set of characters of its
  own, and stays inside the array exactly if every string given has only characters below 128.  The
  ranges are in order and within 256.
\<close>

theorem cis_refines_sets:
  assumes "\<forall>op \<in> set ops. cis_op_classes op \<subseteq> {..<32} \<and> cis_op_codes op" and "i < 32"
    and "length (cb_bits b) = 256"
  shows "case cis_run bw_set bw_clr bw_isset ops b of
      None \<Rightarrow> \<exists>op \<in> set ops. \<not> cis_op_ascii op
    | Some b' \<Rightarrow> (\<forall>op \<in> set ops. cis_op_ascii op) \<and>
        cis_members bw_isset b' i = fold cis_spec ops (cis_members bw_isset b) i"
  using bw.run_spec_aux [of 32 b ops "cis_members bw_isset b" i] assms by simp

theorem cis_refines_sets_witness:
  "case cis_run bw_set bw_clr bw_isset [Cis_range 3 48 58, Cis_cis 5 3, Cis_unstr 5 ''0123456'', Cis_invert 3] bw_buf_init of
     None \<Rightarrow> False | Some b \<Rightarrow> cis_members bw_isset b 5 = {55, 56, 57}"
proof -
  let ?ops = "[Cis_range 3 48 58, Cis_cis 5 3, Cis_unstr 5 ''0123456'', Cis_invert 3]"
  have "cis_members bw_isset bw_buf_init k = {}" if "k < 32" for k
    using that by (auto simp: cis_members_def bw_isset_bit bw_buf_init_def)
  then have "fold cis_spec ?ops (cis_members bw_isset bw_buf_init) 5 = {55, 56, 57}"
    by (simp, auto, presburger)
  then show ?thesis
    using cis_refines_sets [of ?ops 5 bw_buf_init]
    by (simp add: bw_buf_init_def split: option.splits)
qed

text \<open>The other implementation.\<close>

lemma ui_refines_sets:
  assumes "\<forall>op \<in> set ops. cis_op_classes op \<subseteq> {..<n} \<and> cis_op_codes op" and "i < n"
    and "n \<le> length s" "\<forall>k < n. length (s ! k) = 256"
  shows "case cis_run ui_set ui_clr ui_isset ops s of
      None \<Rightarrow> \<exists>op \<in> set ops. \<not> cis_op_ascii op
    | Some s' \<Rightarrow> (\<forall>op \<in> set ops. cis_op_ascii op) \<and>
        cis_members ui_isset s' i = fold cis_spec ops (cis_members ui_isset s) i"
  using ui.run_spec_aux [of n s ops "cis_members ui_isset s" i] assms by simp

lemma bw_find_free_some: "bw_find_free m ks = Some i \<Longrightarrow> \<forall>k \<in> set ks. k < 32 \<Longrightarrow> i \<in> set ks \<and> \<not> bit m i"
  by (induction ks) (auto simp: and_pow_zero split: if_splits)

text \<open>A new class has a number no class has.\<close>

lemma bw_cis_init_fresh:
  "bw_cis_init b = (True, i, b') \<Longrightarrow> i < 32 \<and> \<not> bit (cb_mask b) i \<and> bit (cb_mask b') i \<and> cb_bits b' = cb_bits b"
  using bw_find_free_some [of "cb_mask b" "[0..<32]" i]
  by (auto simp: bw_cis_init_def bit_or_pow split: option.splits)

section \<open>The scanner\<close>

record scanner =
  sc_mem :: string
  sc_end :: nat
  sc_cur :: nat
  sc_line :: nat
  sc_start :: nat
  sc_skip :: u32

definition mem_at :: "string \<Rightarrow> nat \<Rightarrow> char" where
  "mem_at m i = (if i < length m then m ! i else CHR 0x00)"

abbreviation sc_at :: "scanner \<Rightarrow> nat \<Rightarrow> char" where
  "sc_at sc i \<equiv> mem_at (sc_mem sc) i"

definition is_sp :: "char \<Rightarrow> bool" where
  "is_sp c = (c = CHR '' '' \<or> c = CHR 0x09)"

definition is_nl :: "char \<Rightarrow> bool" where
  "is_nl c = (c = CHR 0x0D \<or> c = CHR 0x0A)"

text \<open>\<open>PJ_SCAN_IS_PROBABLY_SPACE\<close> compares a signed character with 32.\<close>

definition is_prob_sp :: "char \<Rightarrow> bool" where
  "is_prob_sp c = ((of_char c :: nat) \<le> 32 \<or> 128 \<le> (of_char c :: nat))"

text \<open>\<open>adv p xs\<close> is how far the loop \<open>while (p(*s)) ++s\<close> goes in the memory \<open>xs\<close>.  The loops that also
  test \<open>PJ_SCAN_CHECK_EOF\<close> go at most to \<open>end\<close>.\<close>

fun adv :: "(char \<Rightarrow> bool) \<Rightarrow> string \<Rightarrow> nat" where
  "adv p [] = 0"
| "adv p (c # cs) = (if p c then Suc (adv p cs) else 0)"

definition sc_run :: "(char \<Rightarrow> bool) \<Rightarrow> scanner \<Rightarrow> nat \<Rightarrow> nat" where
  "sc_run p sc i = i + adv p (drop i (sc_mem sc))"

definition sc_run_eof :: "(char \<Rightarrow> bool) \<Rightarrow> scanner \<Rightarrow> nat \<Rightarrow> nat" where
  "sc_run_eof p sc i = i + adv p (take (sc_end sc - i) (drop i (sc_mem sc)))"

definition sc_text :: "scanner \<Rightarrow> nat \<Rightarrow> nat \<Rightarrow> string" where
  "sc_text sc i j = mem_read (sc_mem sc) i (j - i)"

text \<open>The loop over newlines and spaces of \<open>pj_scan_skip_whitespace\<close> on the memory from \<open>s\<close> on: it
  returns the position it stops at and the new \<open>line\<close> and \<open>start_line\<close>.\<close>

fun skip_newlines :: "string \<Rightarrow> nat \<Rightarrow> nat \<Rightarrow> nat \<Rightarrow> nat \<times> nat \<times> nat" where
  "skip_newlines [] s line start = (s, line, start)"
| "skip_newlines (c # cs) s line start =
     (if c = CHR 0x0D then
        (case cs of
           d # ds \<Rightarrow> if d = CHR 0x0A then skip_newlines ds (s + 2) (line + 1) (s + 2)
                     else skip_newlines cs (s + 1) (line + 1) (s + 1)
         | [] \<Rightarrow> (s + 1, line + 1, s + 1))
      else if c = CHR 0x0A then skip_newlines cs (s + 1) (line + 1) (s + 1)
      else if is_sp c then skip_newlines cs (s + 1) line start
      else (s, line, start))"

definition skip_ws_lines :: "scanner \<Rightarrow> nat \<times> scanner" where
  "skip_ws_lines sc =
     (let s = sc_run is_sp sc (sc_cur sc)
      in if is_nl (sc_at sc s) \<and> sc_skip sc AND 4 \<noteq> 0 then
           (case skip_newlines (drop s (sc_mem sc)) s (sc_line sc) (sc_start sc) of
              (s', line, start) \<Rightarrow> (s', sc\<lparr>sc_line := line, sc_start := start, sc_cur := start\<rparr>))
         else (s, sc))"

definition skip_ws_header :: "nat \<Rightarrow> scanner \<Rightarrow> scanner" where
  "skip_ws_header s sc =
     (if is_nl (sc_at sc s) \<and> sc_skip sc AND 3 = 3 then
        (let s1 = (if sc_at sc s = CHR 0x0D then s + 1 else s);
             s2 = (if sc_at sc s1 = CHR 0x0A then s1 + 1 else s1)
         in if is_sp (sc_at sc s2) then
              sc\<lparr>sc_start := s2, sc_line := sc_line sc + 1, sc_cur := sc_run is_sp sc (s2 + 1)\<rparr>
            else sc\<lparr>sc_cur := s, sc_start := s2\<rparr>)
      else sc\<lparr>sc_cur := s\<rparr>)"

definition pj_scan_skip_whitespace :: "scanner \<Rightarrow> scanner" where
  "pj_scan_skip_whitespace sc = (case skip_ws_lines sc of (s, sc') \<Rightarrow> skip_ws_header s sc')"

text \<open>What most operations end with: move the cursor, and skip white space if the scanner does.\<close>

definition sc_move :: "scanner \<Rightarrow> nat \<Rightarrow> bool \<Rightarrow> scanner" where
  "sc_move sc s skip =
     (let sc = sc\<lparr>sc_cur := s\<rparr>
      in if is_prob_sp (sc_at sc s) \<and> skip then pj_scan_skip_whitespace sc else sc)"

definition pj_scan_init :: "string \<Rightarrow> nat \<Rightarrow> u32 \<Rightarrow> scanner" where
  "pj_scan_init m buflen options =
     (let sc = \<lparr>sc_mem = m, sc_end = buflen, sc_cur = 0, sc_line = 1, sc_start = 0, sc_skip = options\<rparr>
      in if options \<noteq> 0 then pj_scan_skip_whitespace sc else sc)"

definition pj_scan_is_eof :: "scanner \<Rightarrow> bool" where
  "pj_scan_is_eof sc = (sc_cur sc \<ge> sc_end sc)"

text \<open>\<open>strchr\<close> searches up to the first 0.\<close>

definition pj_scan_skip_line :: "scanner \<Rightarrow> scanner" where
  "pj_scan_skip_line sc =
     (let s = sc_run (\<lambda>c. c \<noteq> CHR 0x0A \<and> c \<noteq> CHR 0x00) sc (sc_cur sc)
      in if sc_at sc s = CHR 0x00 then sc\<lparr>sc_cur := sc_end sc\<rparr>
         else sc\<lparr>sc_cur := s + 1, sc_start := s + 1, sc_line := sc_line sc + 1\<rparr>)"

definition pj_scan_peek :: "(char \<Rightarrow> bool) \<Rightarrow> scanner \<Rightarrow> (char \<times> string) option" where
  "pj_scan_peek spec sc =
     (if sc_cur sc \<ge> sc_end sc then None
      else let s = sc_run spec sc (sc_cur sc) in Some (sc_at sc s, sc_text sc (sc_cur sc) s))"

definition pj_scan_peek_n :: "nat \<Rightarrow> scanner \<Rightarrow> (char \<times> string) option" where
  "pj_scan_peek_n len sc =
     (if sc_cur sc + len > sc_end sc then None
      else Some (sc_at sc (sc_cur sc + len), sc_text sc (sc_cur sc) (sc_cur sc + len)))"

definition pj_scan_peek_until :: "(char \<Rightarrow> bool) \<Rightarrow> scanner \<Rightarrow> (char \<times> string) option" where
  "pj_scan_peek_until spec sc =
     (if sc_cur sc \<ge> sc_end sc then None
      else let s = sc_run_eof (\<lambda>c. \<not> spec c) sc (sc_cur sc)
           in Some (sc_at sc s, sc_text sc (sc_cur sc) s))"

definition pj_scan_get :: "(char \<Rightarrow> bool) \<Rightarrow> scanner \<Rightarrow> (string \<times> scanner) option" where
  "pj_scan_get spec sc =
     (if \<not> spec (sc_at sc (sc_cur sc)) then None
      else let s = sc_run spec sc (sc_cur sc + 1)
           in Some (sc_text sc (sc_cur sc) s, sc_move sc s (sc_skip sc \<noteq> 0)))"

text \<open>
  \<open>pj_scan_get_unescape\<close> rewrites the buffer in place, from the cursor on.  The write position never
  passes the read position, so what the loop reads is the memory as it was; \<open>unescape_loop\<close>
  returns the characters written and how many were read.  \<open>left\<close> is the distance to \<open>end\<close>.  The
  class \<open>spec\<close> does not contain \<open>%\<close> (the code asserts it).
\<close>

definition hex_pair :: "char \<Rightarrow> char \<Rightarrow> char" where
  "hex_pair a b =
     char_of (unat ((push_bit 4 (pj_hex_digit_to_val a) + pj_hex_digit_to_val b) AND 0xFF))"

fun unescape_loop :: "(char \<Rightarrow> bool) \<Rightarrow> nat \<Rightarrow> string \<Rightarrow> string \<times> nat" where
  "unescape_loop spec left [] = ([], 0)"
| "unescape_loop spec left (c # cs) =
     (if c = CHR ''%'' then
        (case cs of
           a # b # ds \<Rightarrow>
             if 3 \<le> left \<and> pj_isxdigit a \<and> pj_isxdigit b then
               (case unescape_loop spec (left - 3) ds of (out, n) \<Rightarrow> (hex_pair a b # out, n + 3))
             else ([c, a], 2)
         | _ \<Rightarrow> ([c, mem_at cs 0], 2))
      else if spec c then
        (case unescape_loop spec (left - 1) cs of (out, n) \<Rightarrow> (c # out, n + 1))
      else ([], 0))"

definition pj_scan_get_unescape :: "(char \<Rightarrow> bool) \<Rightarrow> scanner \<Rightarrow> (string \<times> scanner) option" where
  "pj_scan_get_unescape spec sc =
     (if \<not> spec (sc_at sc (sc_cur sc)) \<and> sc_at sc (sc_cur sc) \<noteq> CHR ''%'' then None
      else case unescape_loop spec (sc_end sc - sc_cur sc) (drop (sc_cur sc) (sc_mem sc)) of
        (out, n) \<Rightarrow> Some (out, sc_move (sc\<lparr>sc_mem := mem_write (sc_mem sc) (sc_cur sc) out\<rparr>)
                              (sc_cur sc + n) (sc_skip sc \<noteq> 0)))"

text \<open>
  Quoted strings.  \<open>find_quote\<close> is the loop over \<open>begin_quote\<close>; \<open>back_slashes\<close> is the inner loop
  that goes back over backslashes; \<open>quote_loop\<close> returns the position at which the search for the end
  quote stops.  A begin quote is not a backslash, so a backslash is never the first character of
  the buffer there.
\<close>

fun find_quote :: "string \<Rightarrow> string \<Rightarrow> char \<Rightarrow> char option" where
  "find_quote (b # bs) (e # es) c = (if c = b then Some e else find_quote bs es c)"
| "find_quote _ _ c = None"

fun back_slashes :: "string \<Rightarrow> nat \<Rightarrow> nat" where
  "back_slashes m 0 = 0"
| "back_slashes m (Suc r) = (if mem_at m (Suc r) = CHR 0x5C then back_slashes m r else Suc r)"

lemma adv_le: "adv p xs \<le> length xs"
  by (induction xs) auto

function quote_loop :: "scanner \<Rightarrow> char \<Rightarrow> nat \<Rightarrow> nat" where
  "quote_loop sc eq s =
     (let s1 = sc_run_eof (\<lambda>c. c \<noteq> CHR 0x0A \<and> c \<noteq> eq) sc s
      in if s1 < length (sc_mem sc) \<and> sc_at sc s1 = eq then
           (if sc_at sc (s1 - 1) = CHR 0x5C then
              (if s1 = 2 then s1
               else let q = s1 - 2; r = back_slashes (sc_mem sc) q
                    in if odd (q - r) then s1 + 1 else quote_loop sc eq (s1 + 1))
            else s1)
         else s1)"
  by auto
termination
  by (relation "measure (\<lambda>(sc, eq, s). length (sc_mem sc) - s)") (auto simp: sc_run_eof_def)

declare quote_loop.simps [simp del]

definition pj_scan_get_quotes :: "string \<Rightarrow> string \<Rightarrow> scanner \<Rightarrow> (string \<times> scanner) option" where
  "pj_scan_get_quotes begin_quote end_quote sc =
     (case find_quote begin_quote end_quote (sc_at sc (sc_cur sc)) of
        None \<Rightarrow> None
      | Some eq \<Rightarrow>
          (let s = quote_loop sc eq (sc_cur sc + 1)
           in if sc_at sc s \<noteq> eq then None
              else Some (sc_text sc (sc_cur sc) (s + 1), sc_move sc (s + 1) (sc_skip sc \<noteq> 0))))"

definition pj_scan_get_quote :: "char \<Rightarrow> char \<Rightarrow> scanner \<Rightarrow> (string \<times> scanner) option" where
  "pj_scan_get_quote b e sc = pj_scan_get_quotes [b] [e] sc"

definition pj_scan_get_n :: "nat \<Rightarrow> scanner \<Rightarrow> (string \<times> scanner) option" where
  "pj_scan_get_n n sc =
     (if sc_cur sc + n > sc_end sc then None
      else Some (sc_text sc (sc_cur sc) (sc_cur sc + n), sc_move sc (sc_cur sc + n) (sc_skip sc \<noteq> 0)))"

definition pj_scan_get_char :: "scanner \<Rightarrow> (char \<times> scanner) option" where
  "pj_scan_get_char sc =
     (if sc_at sc (sc_cur sc) = CHR 0x00 then None
      else Some (sc_at sc (sc_cur sc), sc_move sc (sc_cur sc + 1) (sc_skip sc \<noteq> 0)))"

definition pj_scan_get_newline :: "scanner \<Rightarrow> scanner option" where
  "pj_scan_get_newline sc =
     (if \<not> is_nl (sc_at sc (sc_cur sc)) then None
      else let s = sc_cur sc;
               s = (if sc_at sc s = CHR 0x0D then s + 1 else s);
               s = (if sc_at sc s = CHR 0x0A then s + 1 else s)
           in Some (sc\<lparr>sc_cur := s, sc_line := sc_line sc + 1, sc_start := s\<rparr>))"

text \<open>The three operations that read up to a delimiter differ only in its test.\<close>

definition sc_get_until :: "(char \<Rightarrow> bool) \<Rightarrow> scanner \<Rightarrow> (string \<times> scanner) option" where
  "sc_get_until stop sc =
     (if sc_cur sc \<ge> sc_end sc then None
      else let s = sc_run_eof (\<lambda>c. \<not> stop c) sc (sc_cur sc)
           in Some (sc_text sc (sc_cur sc) s, sc_move sc s (sc_skip sc \<noteq> 0)))"

definition pj_scan_get_until :: "(char \<Rightarrow> bool) \<Rightarrow> scanner \<Rightarrow> (string \<times> scanner) option" where
  "pj_scan_get_until spec sc = sc_get_until spec sc"

definition pj_scan_get_until_ch :: "char \<Rightarrow> scanner \<Rightarrow> (string \<times> scanner) option" where
  "pj_scan_get_until_ch ch sc = sc_get_until (\<lambda>c. c = ch) sc"

definition pj_scan_get_until_chr :: "string \<Rightarrow> scanner \<Rightarrow> (string \<times> scanner) option" where
  "pj_scan_get_until_chr chs sc = sc_get_until (\<lambda>c. c \<in> set chs) sc"

definition pj_scan_advance_n :: "nat \<Rightarrow> bool \<Rightarrow> scanner \<Rightarrow> scanner option" where
  "pj_scan_advance_n n skip sc =
     (if sc_cur sc + n > sc_end sc then None else Some (sc_move sc (sc_cur sc + n) skip))"

text \<open>The C library's \<open>strncmp\<close> and \<open>strncasecmp\<close>, on memory that ends with the list.\<close>

fun c_strncmp :: "(char \<Rightarrow> nat) \<Rightarrow> nat \<Rightarrow> string \<Rightarrow> string \<Rightarrow> int" where
  "c_strncmp f 0 xs ys = 0"
| "c_strncmp f (Suc n) xs ys =
     (let a = mem_at xs 0; b = mem_at ys 0
      in if f a \<noteq> f b then int (f a) - int (f b)
         else if a = CHR 0x00 then 0
         else c_strncmp f n (tl xs) (tl ys))"

definition lower_code :: "char \<Rightarrow> nat" where
  "lower_code c = (if 65 \<le> (of_char c :: nat) \<and> (of_char c :: nat) \<le> 90 then of_char c + 32 else of_char c)"

definition pj_scan_strcmp :: "string \<Rightarrow> nat \<Rightarrow> scanner \<Rightarrow> int option" where
  "pj_scan_strcmp s len sc =
     (if sc_cur sc + len > sc_end sc then None
      else Some (c_strncmp of_char len (drop (sc_cur sc) (sc_mem sc)) s))"

definition pj_scan_stricmp :: "string \<Rightarrow> nat \<Rightarrow> scanner \<Rightarrow> int option" where
  "pj_scan_stricmp s len sc =
     (if sc_cur sc + len > sc_end sc then None
      else Some (c_strncmp lower_code len (drop (sc_cur sc) (sc_mem sc)) s))"

record scan_state =
  ss_cur :: nat
  ss_line :: nat
  ss_start :: nat

definition pj_scan_save_state :: "scanner \<Rightarrow> scan_state" where
  "pj_scan_save_state sc = \<lparr>ss_cur = sc_cur sc, ss_line = sc_line sc, ss_start = sc_start sc\<rparr>"

definition pj_scan_restore_state :: "scanner \<Rightarrow> scan_state \<Rightarrow> scanner" where
  "pj_scan_restore_state sc st = sc\<lparr>sc_cur := ss_cur st, sc_line := ss_line st, sc_start := ss_start st\<rparr>"

section \<open>Escaping\<close>

definition pj_val_to_hex_digit :: "char \<Rightarrow> string" where
  "pj_val_to_hex_digit c =
     (let d = ''0123456789abcdef'' in [d ! (of_char c div 16 mod 16), d ! (of_char c mod 16)])"

text \<open>\<open>left\<close> is the room in the destination (\<open>dst_end - dst\<close>).  The result is the characters written
  and whether the whole source was.\<close>

fun escape_loop :: "(char \<Rightarrow> bool) \<Rightarrow> nat \<Rightarrow> string \<Rightarrow> string \<times> bool" where
  "escape_loop unres left [] = ([], True)"
| "escape_loop unres left (c # cs) =
     (if left = 0 then ([], False)
      else if unres c then (case escape_loop unres (left - 1) cs of (o', d) \<Rightarrow> (c # o', d))
      else if 2 < left then
        (case escape_loop unres (left - 3) cs of (o', d) \<Rightarrow> (CHR ''%'' # pj_val_to_hex_digit c @ o', d))
      else ([], False))"

definition pj_strncpy2_escape :: "string \<Rightarrow> nat \<Rightarrow> (char \<Rightarrow> bool) \<Rightarrow> string option" where
  "pj_strncpy2_escape src room unres =
     (if room < length src then None
      else case escape_loop unres room src of (out, done) \<Rightarrow> if done then Some out else None)"

definition pj_strncpy_escape :: "string \<Rightarrow> nat \<Rightarrow> (char \<Rightarrow> bool) \<Rightarrow> string option" where
  "pj_strncpy_escape src room unres = pj_strncpy2_escape src room unres"

fun unescape_str :: "string \<Rightarrow> string" where
  "unescape_str [] = []"
| "unescape_str (c # cs) =
     (case cs of
        a # b # ds \<Rightarrow>
          if c = CHR ''%'' \<and> pj_isxdigit a \<and> pj_isxdigit b then hex_pair a b # unescape_str ds
          else c # unescape_str cs
      | _ \<Rightarrow> c # unescape_str cs)"

definition pj_str_unescape :: "string \<Rightarrow> string" where
  "pj_str_unescape src = (if CHR ''%'' \<notin> set src then src else unescape_str src)"

text \<open>\<open>pj_strcpy_unescape\<close> does not check the digits.\<close>

fun pj_strcpy_unescape :: "string \<Rightarrow> string" where
  "pj_strcpy_unescape [] = []"
| "pj_strcpy_unescape (c # cs) =
     (case cs of
        a # b # ds \<Rightarrow>
          if c = CHR ''%'' then hex_pair a b # pj_strcpy_unescape ds
          else c # pj_strcpy_unescape cs
      | _ \<Rightarrow> c # pj_strcpy_unescape cs)"

section \<open>The scanner stays in its buffer\<close>

text \<open>A well-formed scanner: the byte at \<open>end\<close> is 0 and the cursor is not behind it.\<close>

definition scan_ok :: "scanner \<Rightarrow> bool" where
  "scan_ok sc = (sc_end sc < length (sc_mem sc) \<and> sc_mem sc ! sc_end sc = CHR 0x00 \<and>
     sc_cur sc \<le> sc_end sc \<and> sc_start sc \<le> sc_end sc)"

text \<open>An operation has moved the cursor to \<open>s\<close> or further, in the same text.\<close>

definition moved_to :: "scanner \<Rightarrow> nat \<Rightarrow> scanner \<Rightarrow> bool" where
  "moved_to sc s sc' = (scan_ok sc' \<and> sc_mem sc' = sc_mem sc \<and> sc_end sc' = sc_end sc \<and>
     sc_skip sc' = sc_skip sc \<and> s \<le> sc_cur sc')"

lemma moved_to_mono: "moved_to sc s sc' \<Longrightarrow> s0 \<le> s \<Longrightarrow> moved_to sc s0 sc'"
  by (auto simp: moved_to_def)

lemma moved_to_trans: "moved_to sc s sc' \<Longrightarrow> moved_to sc' s' sc'' \<Longrightarrow> moved_to sc s' sc''"
  by (auto simp: moved_to_def)

lemma adv_bound: "k < length xs \<Longrightarrow> \<not> p (xs ! k) \<Longrightarrow> adv p xs \<le> k"
proof (induction xs arbitrary: k)
  case (Cons x xs)
  then show ?case by (cases k) auto
qed simp

lemma adv_nth: "i < adv p xs \<Longrightarrow> p (xs ! i)"
proof (induction xs arbitrary: i)
  case (Cons x xs)
  then show ?case by (cases i) (auto split: if_splits)
qed simp

lemma adv_stop: "adv p xs < length xs \<Longrightarrow> \<not> p (xs ! adv p xs)"
  by (induction xs) auto

lemma adv_append: "\<forall>x \<in> set xs. p x \<Longrightarrow> \<not> p y \<Longrightarrow> adv p (xs @ y # ys) = length xs"
  by (induction xs) auto

lemma adv_append_end: "\<forall>x \<in> set xs. p x \<Longrightarrow> adv p xs = length xs"
  by (induction xs) auto

lemma sc_run_ge: "i \<le> sc_run p sc i" "i \<le> sc_run_eof p sc i"
  by (simp_all add: sc_run_def sc_run_eof_def)

lemma sc_run_le: "scan_ok sc \<Longrightarrow> i \<le> sc_end sc \<Longrightarrow> \<not> p (CHR 0x00) \<Longrightarrow> sc_run p sc i \<le> sc_end sc"
  using adv_bound [of "sc_end sc - i" "drop i (sc_mem sc)" p]
  by (auto simp: sc_run_def scan_ok_def diff_less_mono)

lemma sc_run_eof_le: "i \<le> sc_end sc \<Longrightarrow> sc_run_eof p sc i \<le> sc_end sc"
  using adv_le [of p "take (sc_end sc - i) (drop i (sc_mem sc))"] by (auto simp: sc_run_eof_def)

lemmas sc_run_bounds = sc_run_ge sc_run_le sc_run_eof_le

lemma mem_at_end [simp]: "scan_ok sc \<Longrightarrow> sc_at sc (sc_end sc) = CHR 0x00"
  by (simp add: scan_ok_def mem_at_def)

lemma sc_at_less: "scan_ok sc \<Longrightarrow> s \<le> sc_end sc \<Longrightarrow> sc_at sc s \<noteq> CHR 0x00 \<Longrightarrow> s < sc_end sc"
  by (metis le_neq_implies_less mem_at_end)

lemma no_space_zero [simp]: "\<not> is_sp (CHR 0x00)" "\<not> is_nl (CHR 0x00)"
  by (simp_all add: is_sp_def is_nl_def)

text \<open>One step of the loop reads one or two characters; after a newline \<open>start\<close> is the position reached.\<close>

lemma skip_newlines_step:
  "skip_newlines (c # cs) s line start = (s, line, start) \<or>
   (\<exists>l st. skip_newlines (c # cs) s line start = skip_newlines cs (s + 1) l st \<and> (st = start \<or> st = s + 1) \<and>
      c \<noteq> CHR 0x00) \<or>
   (\<exists>ds l. cs = CHR 0x0A # ds \<and> skip_newlines (c # cs) s line start = skip_newlines ds (s + 2) l (s + 2) \<and>
      c \<noteq> CHR 0x00)"
  unfolding skip_newlines.simps(2) [of c cs s line start]
  by (auto simp: is_sp_def simp del: skip_newlines.simps(2) split: list.split)

lemma skip_newlines_bounds:
  assumes "k < length xs" "xs ! k = CHR 0x00" "start \<le> s + k"
  shows "s \<le> fst (skip_newlines xs s line start) \<and> fst (skip_newlines xs s line start) \<le> s + k \<and>
    snd (snd (skip_newlines xs s line start)) \<le> s + k"
  using assms
proof (induction xs arbitrary: k s line start rule: length_induct)
  case (1 xs)
  then obtain c cs where xs: "xs = c # cs" by (cases xs) auto
  consider (stop) "skip_newlines (c # cs) s line start = (s, line, start)"
    | (one) l st where "skip_newlines (c # cs) s line start = skip_newlines cs (s + 1) l st"
        "st = start \<or> st = s + 1" "c \<noteq> CHR 0x00"
    | (two) ds l where "cs = CHR 0x0A # ds" "c \<noteq> CHR 0x00"
        "skip_newlines (c # cs) s line start = skip_newlines ds (s + 2) l (s + 2)"
    using skip_newlines_step [of c cs s line start] by blast
  then show ?case
  proof cases
    case stop
    then show ?thesis using 1 xs by simp
  next
    case one
    then obtain k1 where "k = Suc k1" using 1 xs by (cases k) auto
    then show ?thesis
      using "1.IH" [rule_format, of cs k1 st "s + 1" l] "1.prems" one(2) unfolding xs one(1) by auto
  next
    case two
    then obtain k1 where "k = Suc (Suc k1)" using 1 xs by (cases k; cases "k - 1") auto
    then show ?thesis
      using "1.IH" [rule_format, of ds k1 "s + 2" "s + 2" l] "1.prems" unfolding xs two(3) by (auto simp: two(1))
  qed
qed

lemma scan_ok_update [simp]:
  "scan_ok (sc\<lparr>sc_line := l\<rparr>) = scan_ok sc"
  "scan_ok (sc\<lparr>sc_skip := f\<rparr>) = scan_ok sc"
  by (simp_all add: scan_ok_def)

lemma skip_ws_lines_bounds:
  assumes ok: "scan_ok sc" and eq: "skip_ws_lines sc = (s, sc')"
  shows "sc_cur sc \<le> s \<and> s \<le> sc_end sc \<and> scan_ok sc' \<and> sc_mem sc' = sc_mem sc \<and>
    sc_end sc' = sc_end sc \<and> sc_skip sc' = sc_skip sc"
proof -
  define a where "a = sc_run is_sp sc (sc_cur sc)"
  have a: "sc_cur sc \<le> a" "a \<le> sc_end sc"
    using ok by (auto simp: a_def intro!: sc_run_bounds simp: scan_ok_def)
  then have "sc_end sc - a < length (sc_mem sc) - a"
    using ok by (simp add: scan_ok_def diff_less_mono)
  then have "a \<le> fst r \<and> fst r \<le> sc_end sc \<and> snd (snd r) \<le> sc_end sc"
    if "r = skip_newlines (drop a (sc_mem sc)) a (sc_line sc) (sc_start sc)" for r
    using skip_newlines_bounds [of "sc_end sc - a" "drop a (sc_mem sc)" "sc_start sc" a "sc_line sc"] ok a that
    by (simp add: scan_ok_def)
  then show ?thesis
    using eq ok a unfolding skip_ws_lines_def Let_def a_def [symmetric]
    by (auto simp: scan_ok_def split: if_splits prod.splits)
qed

lemma nl_bound:
  assumes "scan_ok sc" "s \<le> sc_end sc"
  shows "(if sc_at sc s = c \<and> c \<noteq> CHR 0x00 then s + 1 else s) \<le> sc_end sc"
  using assms sc_at_less [OF assms] by auto

lemma skip_ws_header_moved:
  assumes ok: "scan_ok sc" and s: "s \<le> sc_end sc"
  shows "moved_to sc s (skip_ws_header s sc)"
proof -
  define s1 where "s1 = (if sc_at sc s = CHR 0x0D then s + 1 else s)"
  define s2 where "s2 = (if sc_at sc s1 = CHR 0x0A then s1 + 1 else s1)"
  have s1: "s \<le> s1" "s1 \<le> sc_end sc" using nl_bound [OF ok s, of "CHR 0x0D"] by (auto simp: s1_def)
  have s2: "s1 \<le> s2" "s2 \<le> sc_end sc" using nl_bound [OF ok s1(2), of "CHR 0x0A"] by (auto simp: s2_def)
  have run: "s2 + 1 \<le> sc_run is_sp sc (s2 + 1)" "is_sp (sc_at sc s2) \<Longrightarrow> sc_run is_sp sc (s2 + 1) \<le> sc_end sc"
    using sc_at_less [OF ok s2(2)] ok sc_run_ge(1) [of "s2 + 1" is_sp sc]
    by (cases "sc_at sc s2 = CHR 0x00"; auto intro!: sc_run_le simp: Suc_le_eq)+
  show ?thesis
    using ok s s1 s2 run unfolding skip_ws_header_def Let_def s1_def [symmetric] s2_def [symmetric]
    by (auto simp: moved_to_def scan_ok_def)
qed

lemma skip_whitespace_moved:
  assumes ok: "scan_ok sc"
  shows "moved_to sc (sc_cur sc) (pj_scan_skip_whitespace sc)"
proof -
  obtain s sc' where eq: "skip_ws_lines sc = (s, sc')" by (cases "skip_ws_lines sc") auto
  from skip_ws_lines_bounds [OF ok eq] skip_ws_header_moved [of sc' s] show ?thesis
    by (auto simp: pj_scan_skip_whitespace_def eq moved_to_def)
qed

lemma sc_move_moved:
  assumes "scan_ok sc" "s \<le> sc_end sc"
  shows "moved_to sc s (sc_move sc s b)"
  using assms skip_whitespace_moved [of "sc\<lparr>sc_cur := s\<rparr>"]
  by (auto simp: sc_move_def Let_def moved_to_def scan_ok_def)

lemma sc_move_moved_from:
  assumes "scan_ok sc" "s \<le> sc_end sc" "sc_cur sc \<le> s"
  shows "moved_to sc (sc_cur sc) (sc_move sc s b)"
  using sc_move_moved [OF assms(1,2)] assms(3) by (rule moved_to_mono)

text \<open>Each operation in turn.\<close>

lemma scan_init_ok:
  "n < length m \<Longrightarrow> m ! n = CHR 0x00 \<Longrightarrow> scan_ok (pj_scan_init m n f)"
  using skip_whitespace_moved [of "\<lparr>sc_mem = m, sc_end = n, sc_cur = 0, sc_line = 1, sc_start = 0, sc_skip = f\<rparr>"]
  by (auto simp: pj_scan_init_def Let_def moved_to_def scan_ok_def)

lemma skip_line_moved: "scan_ok sc \<Longrightarrow> moved_to sc (sc_cur sc) (pj_scan_skip_line sc)"
proof -
  assume ok: "scan_ok sc"
  define s where "s = sc_run (\<lambda>c. c \<noteq> CHR 0x0A \<and> c \<noteq> CHR 0x00) sc (sc_cur sc)"
  have "sc_cur sc \<le> s" "s \<le> sc_end sc"
    using ok by (auto simp: s_def intro!: sc_run_bounds simp: scan_ok_def)
  with sc_at_less [OF ok, of s] ok show ?thesis
    unfolding pj_scan_skip_line_def Let_def s_def [symmetric]
    by (auto simp: moved_to_def scan_ok_def)
qed

lemma scan_get_moved:
  assumes ok: "scan_ok sc" and "\<not> spec (CHR 0x00)" and eq: "pj_scan_get spec sc = Some (out, sc')"
  shows "moved_to sc (sc_cur sc + 1) sc'"
proof -
  from eq have "spec (sc_at sc (sc_cur sc))" by (auto simp: pj_scan_get_def split: if_splits)
  then have "sc_cur sc < sc_end sc"
    using assms(2) ok by (intro sc_at_less) (auto simp: scan_ok_def)
  then have "sc_run spec sc (sc_cur sc + 1) \<le> sc_end sc" "sc_cur sc + 1 \<le> sc_run spec sc (sc_cur sc + 1)"
    using ok assms(2) by (auto intro!: sc_run_bounds)
  with eq ok show ?thesis
    by (auto simp: pj_scan_get_def Let_def split: if_splits intro: moved_to_mono [OF sc_move_moved])
qed

lemma get_until_moved:
  assumes ok: "scan_ok sc" and eq: "sc_get_until stop sc = Some (out, sc')"
  shows "moved_to sc (sc_cur sc) sc'"
  using assms sc_run_eof_le [of "sc_cur sc" sc] sc_run_ge(2) [of "sc_cur sc" _ sc]
  by (auto simp: sc_get_until_def Let_def split: if_splits intro!: sc_move_moved_from)

lemma get_n_moved:
  "scan_ok sc \<Longrightarrow> pj_scan_get_n n sc = Some (out, sc') \<Longrightarrow> moved_to sc (sc_cur sc + n) sc'"
  by (auto simp: pj_scan_get_n_def split: if_splits intro!: sc_move_moved)

lemma advance_n_moved:
  "scan_ok sc \<Longrightarrow> pj_scan_advance_n n b sc = Some sc' \<Longrightarrow> moved_to sc (sc_cur sc + n) sc'"
  by (auto simp: pj_scan_advance_n_def split: if_splits intro!: sc_move_moved)

lemma get_char_moved:
  assumes ok: "scan_ok sc" and eq: "pj_scan_get_char sc = Some (c, sc')"
  shows "moved_to sc (sc_cur sc + 1) sc'"
proof -
  have "sc_cur sc < sc_end sc"
    using eq ok sc_at_less [OF ok, of "sc_cur sc"] by (auto simp: pj_scan_get_char_def scan_ok_def split: if_splits)
  with eq ok show ?thesis by (auto simp: pj_scan_get_char_def split: if_splits intro!: sc_move_moved)
qed

lemma get_newline_moved:
  assumes ok: "scan_ok sc" and eq: "pj_scan_get_newline sc = Some sc'"
  shows "moved_to sc (sc_cur sc + 1) sc'"
proof -
  define s1 where "s1 = (if sc_at sc (sc_cur sc) = CHR 0x0D then sc_cur sc + 1 else sc_cur sc)"
  define s2 where "s2 = (if sc_at sc s1 = CHR 0x0A then s1 + 1 else s1)"
  have nl: "is_nl (sc_at sc (sc_cur sc))" using eq by (auto simp: pj_scan_get_newline_def split: if_splits)
  have s1: "s1 \<le> sc_end sc" using nl_bound [OF ok, of "sc_cur sc" "CHR 0x0D"] ok by (auto simp: s1_def scan_ok_def)
  have s2: "sc_cur sc + 1 \<le> s2" "s2 \<le> sc_end sc"
    using nl nl_bound [OF ok s1, of "CHR 0x0A"] by (auto simp: s2_def s1_def is_nl_def)
  with eq ok show ?thesis
    unfolding pj_scan_get_newline_def Let_def s1_def [symmetric] s2_def [symmetric]
    by (auto simp: moved_to_def scan_ok_def split: if_splits)
qed

lemma quote_loop_bounds:
  assumes "scan_ok sc" "s \<le> sc_end sc" "eq \<noteq> CHR 0x00"
  shows "s \<le> quote_loop sc eq s \<and> quote_loop sc eq s \<le> sc_end sc"
  using assms
proof (induction sc eq s rule: quote_loop.induct)
  case (1 sc eq s)
  define s1 where "s1 = sc_run_eof (\<lambda>c. c \<noteq> CHR 0x0A \<and> c \<noteq> eq) sc s"
  have s1: "s \<le> s1" "s1 \<le> sc_end sc" using "1.prems" by (auto simp: s1_def intro!: sc_run_bounds)
  have less: "s1 + 1 \<le> sc_end sc" if "sc_at sc s1 = eq"
    using sc_at_less [of sc s1] that "1.prems" s1 by auto
  define q where "q = s1 - 2"
  define go where "go = (s1 < length (sc_mem sc) \<and> sc_at sc s1 = eq \<and> sc_at sc (s1 - 1) = CHR 0x5C \<and> s1 \<noteq> 2)"
  have ql: "quote_loop sc eq s =
      (if go then (if odd (q - back_slashes (sc_mem sc) q) then s1 + 1 else quote_loop sc eq (s1 + 1)) else s1)"
    by (subst quote_loop.simps) (simp add: Let_def s1_def [symmetric] q_def [symmetric] go_def)
  show ?case
  proof (cases "go \<and> even (q - back_slashes (sc_mem sc) q)")
    case True
    then have "quote_loop sc eq s = quote_loop sc eq (s1 + 1)" using ql by simp
    moreover have "s1 + 1 \<le> quote_loop sc eq (s1 + 1) \<and> quote_loop sc eq (s1 + 1) \<le> sc_end sc"
      using True "1.prems" less unfolding go_def
      by (intro "1.IH" [OF s1_def _ _ _ q_def refl]) auto
    ultimately show ?thesis using s1 by simp
  next
    case False
    then show ?thesis using ql s1 less by (auto simp: go_def)
  qed
qed

lemma get_quotes_moved:
  assumes ok: "scan_ok sc" and z: "CHR 0x00 \<notin> set bs" "CHR 0x00 \<notin> set es"
    and eq: "pj_scan_get_quotes bs es sc = Some (out, sc')"
  shows "moved_to sc (sc_cur sc + 1) sc'"
proof -
  have fq: "c \<in> set bs \<and> e \<in> set es" if "find_quote bs es c = Some e" for c e
    using that by (induction bs es c rule: find_quote.induct) (auto split: if_splits)
  from eq obtain e where e: "find_quote bs es (sc_at sc (sc_cur sc)) = Some e"
      "sc_at sc (quote_loop sc e (sc_cur sc + 1)) = e"
      "sc' = sc_move sc (quote_loop sc e (sc_cur sc + 1) + 1) (sc_skip sc \<noteq> 0)"
    by (auto simp: pj_scan_get_quotes_def Let_def split: option.splits if_splits)
  from fq [OF e(1)] z have nz: "e \<noteq> CHR 0x00" "sc_at sc (sc_cur sc) \<noteq> CHR 0x00" by metis+
  then have "sc_cur sc + 1 \<le> sc_end sc" using sc_at_less [OF ok, of "sc_cur sc"] ok by (auto simp: scan_ok_def)
  from quote_loop_bounds [OF ok this nz(1)] sc_at_less [OF ok, of "quote_loop sc e (sc_cur sc + 1)"] e(2) nz
  have "sc_cur sc + 1 \<le> quote_loop sc e (sc_cur sc + 1)" "quote_loop sc e (sc_cur sc + 1) + 1 \<le> sc_end sc"
    by auto
  then show ?thesis unfolding e(3) by (intro moved_to_mono [OF sc_move_moved [OF ok]]) auto
qed

text \<open>\<open>pj_scan_get_unescape\<close> never writes more than it reads, and stays before \<open>end\<close> unless the text
  ends in the middle of an escape.\<close>

lemma unescape_loop_out:
  "unescape_loop spec left xs = (out, n) \<Longrightarrow> length out \<le> n \<and> (length out = n \<longrightarrow> n \<le> length xs \<longrightarrow> out = take n xs)"
proof (induction spec left xs arbitrary: out n rule: unescape_loop.induct)
  case (2 spec left c cs)
  show ?case
  proof (cases "c = CHR ''%''")
    case True
    show ?thesis
    proof (cases cs)
      case Nil
      then show ?thesis using True "2.prems" by auto
    next
      case (Cons a ds')
      show ?thesis
      proof (cases ds')
        case Nil
        then show ?thesis using True Cons "2.prems" by (auto simp: mem_at_def)
      next
        case (Cons b ds)
        note cs = \<open>cs = a # ds'\<close> this
        obtain out1 n1 where u: "unescape_loop spec (left - 3) ds = (out1, n1)" by fastforce
        then show ?thesis
          using True cs "2.prems" "2.IH"(1) [OF True cs(1) cs(2) _ u] by (auto split: if_splits)
      qed
    qed
  next
    case False
    obtain out1 n1 where u: "unescape_loop spec (left - 1) cs = (out1, n1)" by fastforce
    then show ?thesis using False "2.prems" "2.IH"(2) [OF False _ u] by (auto split: if_splits)
  qed
qed simp

lemma unescape_loop_end:
  assumes "unescape_loop spec left xs = (out, n)" "left < length xs" "xs ! left = CHR 0x00"
    and "\<not> spec (CHR 0x00)" "0 < left \<longrightarrow> xs ! (left - 1) \<noteq> CHR ''%''"
  shows "n \<le> left"
  using assms
proof (induction spec left xs arbitrary: out n rule: unescape_loop.induct)
  case (2 spec left c cs)
  have pos: "0 < left" if "c \<noteq> CHR 0x00" using "2.prems"(3) that by (cases left) auto
  show ?case
  proof (cases "c = CHR ''%''")
    case True
    then have "0 < left" using pos by simp
    then have two: "2 \<le> left" using "2.prems"(5) True by (cases "left = 1") auto
    obtain a b ds where cs: "cs = a # b # ds" using "2.prems"(2) two by (cases cs; cases "tl cs") auto
    show ?thesis
    proof (cases "3 \<le> left \<and> pj_isxdigit a \<and> pj_isxdigit b")
      case esc: True
      then obtain k where k: "left = k + 3" by (metis le_add_diff_inverse2)
      obtain out1 n1 where u: "unescape_loop spec k ds = (out1, n1)" by (metis surj_pair)
      have n: "n = n1 + 3" using "2.prems"(1) True esc cs u k by simp
      have 1: "k < length ds" "ds ! k = CHR 0x00" using "2.prems"(2,3) unfolding cs k by simp_all
      have 2: "0 < k \<longrightarrow> ds ! (k - 1) \<noteq> CHR ''%''"
        using "2.prems"(5) unfolding cs k by (cases k) simp_all
      have "n1 \<le> left - 3"
        using u 1 2 "2.prems"(4) by (intro "2.IH"(1) [OF True cs refl esc]) (simp_all add: k)
      then show ?thesis using n k by simp
    next
      case False
      then show ?thesis using True cs two "2.prems"(1) by (simp split: if_splits)
    qed
  next
    case False
    show ?thesis
    proof (cases "spec c")
      case True
      with "2.prems"(4) pos obtain k where k: "left = Suc k" by (metis gr0_implies_Suc)
      obtain out1 n1 where u: "unescape_loop spec k cs = (out1, n1)" by (metis surj_pair)
      have n: "n = n1 + 1" using "2.prems"(1) True False u k by simp
      have 1: "k < length cs" "cs ! k = CHR 0x00" using "2.prems"(2,3) unfolding k by simp_all
      have 2: "0 < k \<longrightarrow> cs ! (k - 1) \<noteq> CHR ''%''"
        using "2.prems"(5) unfolding k by (cases k) simp_all
      have "n1 \<le> left - 1"
        using u 1 2 "2.prems"(4) by (intro "2.IH"(2) [OF False True]) (simp_all add: k)
      then show ?thesis using n k by simp
    next
      case False
      then show ?thesis using \<open>c \<noteq> CHR ''%''\<close> "2.prems"(1) by simp
    qed
  qed
qed simp

text \<open>A text that does not end in \<open>%\<close> stays one, and \<open>end\<close> stays out of reach.\<close>

definition no_cut_escape :: "scanner \<Rightarrow> bool" where
  "no_cut_escape sc = (0 < sc_end sc \<longrightarrow> sc_mem sc ! (sc_end sc - 1) \<noteq> CHR ''%'')"

text \<open>What a step keeps: the scanner is well formed, the memory from \<open>end\<close> on is unchanged, and the
  cursor has not gone back.\<close>

definition scan_kept :: "scanner \<Rightarrow> scanner \<Rightarrow> bool" where
  "scan_kept sc sc' = (scan_ok sc' \<and> no_cut_escape sc' \<and> sc_end sc' = sc_end sc \<and>
     drop (sc_end sc) (sc_mem sc') = drop (sc_end sc) (sc_mem sc) \<and> sc_cur sc \<le> sc_cur sc')"

lemma scan_kept_moved: "moved_to sc s sc' \<Longrightarrow> sc_cur sc \<le> s \<Longrightarrow> no_cut_escape sc \<Longrightarrow> scan_kept sc sc'"
  by (auto simp: scan_kept_def moved_to_def no_cut_escape_def)

lemma scan_kept_trans: "scan_kept a b \<Longrightarrow> scan_kept b c \<Longrightarrow> scan_kept a c"
  by (auto simp: scan_kept_def)

lemma mem_write_take: "off + n \<le> length xs \<Longrightarrow> mem_write xs off (take n (drop off xs)) = xs"
  by (simp add: mem_write_def min_def) (metis add.commute append_take_drop_id drop_drop)

lemma get_unescape_kept:
  assumes ok: "scan_ok sc" and nc: "no_cut_escape sc" and z: "\<not> spec (CHR 0x00)"
    and eq: "pj_scan_get_unescape spec sc = Some (out, sc')"
  shows "scan_kept sc sc'"
proof -
  let ?left = "sc_end sc - sc_cur sc" and ?xs = "drop (sc_cur sc) (sc_mem sc)"
  obtain n where u: "unescape_loop spec ?left ?xs = (out, n)"
      and sc': "sc' = sc_move (sc\<lparr>sc_mem := mem_write (sc_mem sc) (sc_cur sc) out\<rparr>) (sc_cur sc + n) (sc_skip sc \<noteq> 0)"
    using eq by (auto simp: pj_scan_get_unescape_def split: if_splits prod.splits)
  have len: "sc_cur sc \<le> sc_end sc" "sc_end sc < length (sc_mem sc)" "sc_mem sc ! sc_end sc = CHR 0x00"
    "sc_start sc \<le> sc_end sc" using ok by (auto simp: scan_ok_def)
  have "0 < ?left \<longrightarrow> ?xs ! (?left - 1) \<noteq> CHR ''%''"
    using nc len by (auto simp: no_cut_escape_def)
  then have n: "n \<le> ?left"
    using len z by (intro unescape_loop_end [OF u]) (auto simp: diff_less_mono)
  from unescape_loop_out [OF u] have out: "length out \<le> n" "length out = n \<Longrightarrow> out = take n ?xs"
    using n len by auto
  define m where "m = mem_write (sc_mem sc) (sc_cur sc) out"
  have lm: "length m = length (sc_mem sc)" using n len out(1) by (simp add: m_def)
  have m_end: "m ! i = sc_mem sc ! i" if "sc_end sc \<le> i" "i < length (sc_mem sc)" for i
  proof -
    have "sc_cur sc + length out \<le> i" using that(1) n len(1) out(1) by linarith
    then show ?thesis using that(2) by (auto simp: m_def nth_mem_write)
  qed
  then have drop_m: "drop (sc_end sc) m = drop (sc_end sc) (sc_mem sc)"
    using lm by (intro nth_equalityI) auto
  have "m ! (sc_end sc - 1) = sc_mem sc ! (sc_end sc - 1)" if "0 < sc_end sc"
  proof (cases "length out = n")
    case True
    then have "m = sc_mem sc" unfolding m_def out(2) [OF True] using n len by (intro mem_write_take) simp
    then show ?thesis by simp
  next
    case False
    then have "sc_cur sc + length out \<le> sc_end sc - 1" using that n len(1) out(1) by linarith
    then show ?thesis using that len by (auto simp: m_def nth_mem_write)
  qed
  then have nc1: "no_cut_escape (sc\<lparr>sc_mem := m\<rparr>)" using nc by (simp add: no_cut_escape_def)
  have ok1: "scan_ok (sc\<lparr>sc_mem := m\<rparr>)" using len lm m_end by (auto simp: scan_ok_def)
  have "moved_to (sc\<lparr>sc_mem := m\<rparr>) (sc_cur sc + n) sc'"
    unfolding sc' m_def [symmetric] using ok1 n len by (intro sc_move_moved) auto
  from scan_kept_moved [OF this _ nc1] drop_m show ?thesis by (auto simp: scan_kept_def)
qed

text \<open>Runs of operations: an operation that fails throws, and the run ends there.\<close>

datatype scan_op =
    Op_skip_whitespace | Op_skip_line | Op_get "char \<Rightarrow> bool" | Op_get_unescape "char \<Rightarrow> bool"
  | Op_get_quotes string string | Op_get_n nat | Op_get_char | Op_get_newline
  | Op_get_until "char \<Rightarrow> bool" | Op_get_until_ch char | Op_get_until_chr string | Op_advance_n nat bool

fun scan_step :: "scan_op \<Rightarrow> scanner \<Rightarrow> scanner option" where
  "scan_step Op_skip_whitespace sc = Some (pj_scan_skip_whitespace sc)"
| "scan_step Op_skip_line sc = Some (pj_scan_skip_line sc)"
| "scan_step (Op_get spec) sc = map_option snd (pj_scan_get spec sc)"
| "scan_step (Op_get_unescape spec) sc = map_option snd (pj_scan_get_unescape spec sc)"
| "scan_step (Op_get_quotes bs es) sc = map_option snd (pj_scan_get_quotes bs es sc)"
| "scan_step (Op_get_n n) sc = map_option snd (pj_scan_get_n n sc)"
| "scan_step Op_get_char sc = map_option snd (pj_scan_get_char sc)"
| "scan_step Op_get_newline sc = pj_scan_get_newline sc"
| "scan_step (Op_get_until spec) sc = map_option snd (pj_scan_get_until spec sc)"
| "scan_step (Op_get_until_ch c) sc = map_option snd (pj_scan_get_until_ch c sc)"
| "scan_step (Op_get_until_chr cs) sc = map_option snd (pj_scan_get_until_chr cs sc)"
| "scan_step (Op_advance_n n b) sc = pj_scan_advance_n n b sc"

text \<open>What the operations ask of their callers: no class or quote contains the terminating 0.\<close>

fun scan_op_ok :: "scan_op \<Rightarrow> bool" where
  "scan_op_ok (Op_get spec) = (\<not> spec (CHR 0x00))"
| "scan_op_ok (Op_get_unescape spec) = (\<not> spec (CHR 0x00))"
| "scan_op_ok (Op_get_quotes bs es) = (CHR 0x00 \<notin> set bs \<and> CHR 0x00 \<notin> set es)"
| "scan_op_ok _ = True"

lemma scan_step_kept:
  assumes ok: "scan_ok sc" and nc: "no_cut_escape sc" and op: "scan_op_ok op"
    and eq: "scan_step op sc = Some sc'"
  shows "scan_kept sc sc'"
proof (cases op)
  case (Op_get_unescape spec)
  then show ?thesis using assms get_unescape_kept [OF ok nc] by auto
qed (use assms in \<open>auto intro: scan_kept_moved skip_whitespace_moved skip_line_moved scan_get_moved
    get_quotes_moved get_n_moved get_char_moved get_newline_moved get_until_moved advance_n_moved
    simp: pj_scan_get_until_def pj_scan_get_until_ch_def pj_scan_get_until_chr_def\<close>)

text \<open>A parser may also save the state of the scanner and restore one it has saved, by its number from the last.\<close>

datatype scan_event = Do scan_op | Save | Restore nat

fun scan_event_step :: "scan_event \<Rightarrow> scanner \<times> scan_state list \<Rightarrow> (scanner \<times> scan_state list) option" where
  "scan_event_step (Do op) (sc, saved) = map_option (\<lambda>sc. (sc, saved)) (scan_step op sc)"
| "scan_event_step Save (sc, saved) = Some (sc, pj_scan_save_state sc # saved)"
| "scan_event_step (Restore k) (sc, saved) =
     (if k < length saved then Some (pj_scan_restore_state sc (saved ! k), saved) else None)"

fun scan_run :: "scan_event list \<Rightarrow> scanner \<times> scan_state list \<Rightarrow> (scanner \<times> scan_state list) option" where
  "scan_run [] s = Some s"
| "scan_run (e # es) s = Option.bind (scan_event_step e s) (scan_run es)"

fun scan_event_ok :: "scan_event \<Rightarrow> bool" where
  "scan_event_ok (Do op) = scan_op_ok op"
| "scan_event_ok _ = True"

definition is_restore :: "scan_event \<Rightarrow> bool" where "is_restore e = (case e of Restore _ \<Rightarrow> True | _ \<Rightarrow> False)"

text \<open>The scanner is well formed, in its text, and so are the saved states.\<close>

definition scan_within :: "nat \<Rightarrow> string \<Rightarrow> scanner \<times> scan_state list \<Rightarrow> bool" where
  "scan_within n behind s = (scan_ok (fst s) \<and> no_cut_escape (fst s) \<and> sc_end (fst s) = n \<and>
     drop n (sc_mem (fst s)) = behind \<and> (\<forall>st \<in> set (snd s). ss_cur st \<le> n \<and> ss_start st \<le> n))"

lemma scan_event_step_within:
  assumes "scan_within n behind s" "scan_event_ok e" "scan_event_step e s = Some s'"
  shows "scan_within n behind s' \<and> (\<not> is_restore e \<longrightarrow> sc_cur (fst s) \<le> sc_cur (fst s'))"
proof (cases e)
  case (Do op)
  then obtain sc' where "scan_step op (fst s) = Some sc'" "s' = (sc', snd s)" using assms(3) by (cases s) auto
  then show ?thesis using assms(1,2) Do scan_step_kept [of "fst s" op sc']
    by (auto simp: scan_within_def scan_kept_def is_restore_def)
next
  case Save
  then show ?thesis using assms(1,3) by (cases s) (auto simp: scan_within_def scan_ok_def pj_scan_save_state_def)
next
  case (Restore k)
  then have k: "k < length (snd s)" "s' = (pj_scan_restore_state (fst s) (snd s ! k), snd s)"
    using assms(3) by (cases s, auto split: if_splits)+
  then have "snd s ! k \<in> set (snd s)" by simp
  then show ?thesis using assms(1) k(2) Restore
    by (auto simp: scan_within_def scan_ok_def no_cut_escape_def pj_scan_restore_state_def is_restore_def)
qed

lemma scan_run_within:
  assumes "scan_within n behind s" "\<forall>e \<in> set es. scan_event_ok e" "scan_run es s = Some s'"
  shows "scan_within n behind s' \<and> ((\<forall>e \<in> set es. \<not> is_restore e) \<longrightarrow> sc_cur (fst s) \<le> sc_cur (fst s'))"
  using assms
proof (induction es arbitrary: s)
  case (Cons e es)
  then obtain s1 where s1: "scan_event_step e s = Some s1" "scan_run es s1 = Some s'"
    by (auto simp: bind_eq_Some_conv)
  then show ?case using Cons.IH [of s1] Cons.prems scan_event_step_within [OF Cons.prems(1) _ s1(1)] by auto
qed simp

lemma scan_run_append: "scan_run (es @ es') s = Option.bind (scan_run es s) (scan_run es')"
  by (induction es arbitrary: s) (auto simp: Option.bind_assoc split: Option.bind_splits)

text \<open>
  C14: A scanner started on a 0-terminated text that does not end in the middle of an escape stays
  inside it, whatever operations follow, saving and restoring its state included: the cursor never passes the
  end, nothing at or behind the end is written, and the cursor moves back only by restoring a saved state.
  No class or quote given to an operation contains the character 0 (\<open>scan_op_ok\<close>).
\<close>

theorem scan_run_safe:
  assumes "n < length m" "m ! n = CHR 0x00" "0 < n \<longrightarrow> m ! (n - 1) \<noteq> CHR ''%''"
    and "\<forall>e \<in> set (es @ es'). scan_event_ok e"
    and "scan_run (es @ es') (pj_scan_init m n f, []) = Some (sc, saved)"
  shows "sc_cur sc \<le> n \<and> sc_end sc = n \<and> drop n (sc_mem sc) = drop n m \<and>
    (\<exists>sc1 saved1. scan_run es (pj_scan_init m n f, []) = Some (sc1, saved1) \<and>
      ((\<forall>e \<in> set es'. \<not> is_restore e) \<longrightarrow> sc_cur sc1 \<le> sc_cur sc))"
proof -
  let ?s = "pj_scan_init m n f"
  have m0: "moved_to \<lparr>sc_mem = m, sc_end = n, sc_cur = 0, sc_line = 1, sc_start = 0, sc_skip = f\<rparr> 0 ?s"
    using skip_whitespace_moved [of "\<lparr>sc_mem = m, sc_end = n, sc_cur = 0, sc_line = 1, sc_start = 0, sc_skip = f\<rparr>"]
      assms(1,2) by (auto simp: pj_scan_init_def Let_def moved_to_def scan_ok_def)
  then have s: "scan_within n (drop n m) (?s, [])"
    using assms(3) by (auto simp: moved_to_def no_cut_escape_def scan_within_def)
  from assms(5) obtain s1 where s1: "scan_run es (?s, []) = Some s1" "scan_run es' s1 = Some (sc, saved)"
    by (auto simp: scan_run_append bind_eq_Some_conv)
  have "scan_within n (drop n m) s1" using scan_run_within [OF s _ s1(1)] assms(4) by simp
  then have "scan_within n (drop n m) (sc, saved) \<and> ((\<forall>e \<in> set es'. \<not> is_restore e) \<longrightarrow> sc_cur (fst s1) \<le> sc_cur sc)"
    using scan_run_within [OF _ _ s1(2)] assms(4) by simp
  then show ?thesis using s1(1) by (cases s1) (auto simp: scan_within_def scan_ok_def)
qed

theorem scan_run_safe_witness:
  "\<exists>sc saved. scan_run ([Save, Do (Op_get pj_isdigit)] @ [Do (Op_get_quotes [CHR 0x22] [CHR 0x22]), Restore 0])
      (pj_scan_init (''42 \"x\" '' @ [CHR 0x00]) 7 1, []) = Some (sc, saved) \<and>
     sc_cur sc \<le> 7 \<and> sc_end sc = 7"
proof -
  have "scan_run ([Save, Do (Op_get pj_isdigit)] @ [Do (Op_get_quotes [CHR 0x22] [CHR 0x22]), Restore 0])
      (pj_scan_init (''42 \"x\" '' @ [CHR 0x00]) 7 1, []) \<noteq> None"
    by code_simp
  then obtain sc saved where r: "scan_run ([Save, Do (Op_get pj_isdigit)] @ [Do (Op_get_quotes [CHR 0x22] [CHR 0x22]), Restore 0])
      (pj_scan_init (''42 \"x\" '' @ [CHR 0x00]) 7 1, []) = Some (sc, saved)" by auto
  from scan_run_safe [OF _ _ _ _ r] r show ?thesis by (auto simp: pj_isdigit_def)
qed

text \<open>
  On a text that ends in \<open>%\<close>, \<open>pj_scan_get_unescape\<close> leaves the buffer: it takes the terminating
  0 for a character, returns it, and leaves the cursor behind it, where the scanner reads on.
\<close>

theorem unescape_overruns:
  assumes "scan_ok sc" "\<forall>c \<in> set t. spec c" "\<not> spec (CHR ''%'')" "sc_skip sc = 0"
    and "sc_text sc (sc_cur sc) (sc_end sc) = t @ ''%''" and "CHR ''%'' \<notin> set t"
  shows "\<exists>sc'. pj_scan_get_unescape spec sc = Some (t @ [CHR ''%'', CHR 0x00], sc') \<and>
    sc_cur sc' = sc_end sc' + 1 \<and> \<not> scan_ok sc'"
proof -
  have "drop (sc_cur sc) (sc_mem sc) = (t @ ''%'') @ drop (sc_end sc) (sc_mem sc)"
    using assms(1,5) by (simp add: sc_text_def mem_read_def scan_ok_def)
      (metis append_assoc append_take_drop_id append_Cons append_Nil drop_drop le_add_diff_inverse2)
  moreover have "drop (sc_end sc) (sc_mem sc) = CHR 0x00 # drop (Suc (sc_end sc)) (sc_mem sc)"
    using assms(1) by (metis Cons_nth_drop_Suc scan_ok_def)
  ultimately have xs: "drop (sc_cur sc) (sc_mem sc) = t @ CHR ''%'' # CHR 0x00 # drop (Suc (sc_end sc)) (sc_mem sc)"
    by simp
  have len: "sc_end sc = sc_cur sc + length t + 1"
  proof -
    have "length (sc_text sc (sc_cur sc) (sc_end sc)) = sc_end sc - sc_cur sc"
      using assms(1) by (simp add: sc_text_def scan_ok_def)
    with assms(1,5) show ?thesis by (simp add: scan_ok_def)
  qed
  have loop: "unescape_loop spec (length ys + 1) (ys @ CHR ''%'' # CHR 0x00 # zs) = (ys @ [CHR ''%'', CHR 0x00], length ys + 2)"
    if "\<forall>c \<in> set ys. spec c" "CHR ''%'' \<notin> set ys" for ys zs
    using that
  proof (induction ys)
    case Nil
    show ?case by (cases zs) (simp_all add: mem_at_def)
  qed auto
  have at: "spec (sc_at sc (sc_cur sc)) \<or> sc_at sc (sc_cur sc) = CHR ''%''"
  proof -
    have "sc_at sc (sc_cur sc) = drop (sc_cur sc) (sc_mem sc) ! 0"
      using assms(1) by (auto simp: mem_at_def scan_ok_def)
    with xs assms(2) show ?thesis by (cases t) auto
  qed
  have "unescape_loop spec (sc_end sc - sc_cur sc) (drop (sc_cur sc) (sc_mem sc)) = (t @ [CHR ''%'', CHR 0x00], length t + 2)"
    unfolding xs using loop [OF assms(2,6)] len by simp
  then show ?thesis
    using at assms(4) len by (auto simp: pj_scan_get_unescape_def sc_move_def scan_ok_def)
qed

theorem unescape_overruns_witness:
  "\<exists>sc'. pj_scan_get_unescape pj_isdigit (pj_scan_init (''12%'' @ [CHR 0x00, CHR ''x'']) 3 0) =
      Some (''12%'' @ [CHR 0x00], sc') \<and> sc_cur sc' = sc_end sc' + 1 \<and> \<not> scan_ok sc'"
  using unescape_overruns [of "pj_scan_init (''12%'' @ [CHR 0x00, CHR ''x'']) 3 0" "''12''" pj_isdigit]
  by (simp add: pj_scan_init_def scan_ok_def pj_isdigit_def sc_text_def mem_read_def)

section \<open>Escaping is undone\<close>

lemma hex_digit_val:
  "n < 16 \<Longrightarrow> pj_hex_digit_to_val (''0123456789abcdef'' ! n) = of_nat n \<and> pj_isxdigit (''0123456789abcdef'' ! n)"
proof -
  assume "n < 16"
  then have "n \<in> set [0..<16]" by simp
  moreover have "\<forall>n \<in> set [0..<16]. pj_hex_digit_to_val (''0123456789abcdef'' ! n) = of_nat n \<and>
      pj_isxdigit (''0123456789abcdef'' ! n)"
    by code_simp
  ultimately show ?thesis by blast
qed

lemma hex_pair_digit:
  assumes "pj_val_to_hex_digit c = [a, b]"
  shows "hex_pair a b = c" "pj_isxdigit a" "pj_isxdigit b"
proof -
  define k :: nat where "k = of_char c"
  have k: "k < 256" unfolding k_def by (rule nat_of_char_less_256)
  then have d: "k div 16 mod 16 = k div 16" "k div 16 < 16" "k mod 16 < 16" by auto
  have a: "a = ''0123456789abcdef'' ! (k div 16)" "b = ''0123456789abcdef'' ! (k mod 16)"
    using assms d unfolding pj_val_to_hex_digit_def k_def [symmetric] Let_def by simp_all
  then show "pj_isxdigit a" "pj_isxdigit b" using hex_digit_val d by simp_all
  have "push_bit 4 (of_nat (k div 16) :: u32) + of_nat (k mod 16) = of_nat (16 * (k div 16) + k mod 16)"
    by (simp only: push_bit_eq_mult of_nat_add of_nat_mult) simp
  also have "\<dots> = of_nat k" unfolding mult_div_mod_eq ..
  finally have sum: "push_bit 4 (of_nat (k div 16) :: u32) + of_nat (k mod 16) = of_nat k" .
  have "(of_nat k :: u32) AND 0xFF = of_nat k"
  proof -
    have "(of_nat k :: u32) AND mask 8 = of_nat k"
      using k by (simp only: flip: take_bit_eq_mask) (simp add: take_bit_of_nat take_bit_nat_eq_self)
    then show ?thesis by (simp add: mask_eq_exp_minus_1)
  qed
  then have "hex_pair a b = char_of (unat (of_nat k :: u32))"
    using hex_digit_val d unfolding hex_pair_def a by (simp add: sum)
  also have "\<dots> = char_of k" using k by (simp add: unat_of_nat)
  also have "\<dots> = c" by (simp add: k_def)
  finally show "hex_pair a b = c" .
qed

text \<open>What escaping produces consists of the characters of the class and of escapes.\<close>

lemma escape_unescape_loop:
  assumes "escape_loop unres room src = (out, True)"
    and "\<forall>c. unres c \<longrightarrow> spec c" "\<not> spec (CHR ''%'')"
    and "left = length out + extra" "rest = [] \<or> \<not> spec (hd rest) \<and> hd rest \<noteq> CHR ''%''"
  shows "unescape_loop spec left (out @ rest) = (src, length out)"
  using assms
proof (induction unres room src arbitrary: out left rule: escape_loop.induct)
  case (1 unres room)
  then show ?case by (cases rest) auto
next
  case (2 unres room c cs)
  have room: "room \<noteq> 0" using "2.prems"(1) by (auto split: if_splits)
  show ?case
  proof (cases "unres c")
    case True
    obtain o1 where o1: "escape_loop unres (room - 1) cs = (o1, True)" "out = c # o1"
      using "2.prems"(1) room True by (auto split: prod.splits)
    then have "unescape_loop spec (left - 1) (o1 @ rest) = (cs, length o1)"
      using "2.prems" by (intro "2.IH"(1) [OF room True]) auto
    then show ?thesis using o1(2) True "2.prems"(2,3) by auto
  next
    case False
    then have room2: "2 < room" using "2.prems"(1) room by (auto split: if_splits)
    obtain o1 where o1: "escape_loop unres (room - 3) cs = (o1, True)"
        "out = CHR ''%'' # pj_val_to_hex_digit c @ o1"
      using "2.prems"(1) room False room2 by (auto split: prod.splits)
    obtain a b where ab: "pj_val_to_hex_digit c = [a, b]" by (simp add: pj_val_to_hex_digit_def Let_def)
    have "unescape_loop spec (left - 3) (o1 @ rest) = (cs, length o1)"
      using "2.prems" o1 ab by (intro "2.IH"(2) [OF room False room2]) auto
    then show ?thesis using o1(2) ab hex_pair_digit [OF ab] "2.prems"(4) by simp
  qed
qed

text \<open>
  C30: What \<open>pj_strncpy2_escape\<close> writes for a text that is not empty, \<open>pj_scan_get_unescape\<close> reads back, whatever the characters,
  when the scanner's class contains the unreserved characters and not \<open>%\<close>, and what follows is
  outside of it; and the cursor is then at what follows.
\<close>

theorem escape_scan_roundtrip:
  assumes "pj_strncpy2_escape src room unres = Some out" and "src \<noteq> []"
    and "\<forall>c. unres c \<longrightarrow> spec c" "\<not> spec (CHR ''%'')"
    and "\<not> spec (hd (rest @ [CHR 0x00])) \<and> hd (rest @ [CHR 0x00]) \<noteq> CHR ''%''"
    and "sc = \<lparr>sc_mem = pre @ out @ rest @ [CHR 0x00], sc_end = length (pre @ out @ rest), sc_cur = length pre,
      sc_line = line, sc_start = 0, sc_skip = 0\<rparr>"
  shows "\<exists>sc'. pj_scan_get_unescape spec sc = Some (src, sc') \<and>
    drop (sc_cur sc') (sc_mem sc') = rest @ [CHR 0x00]"
proof -
  have esc: "escape_loop unres room src = (out, True)"
    using assms(1) by (auto simp: pj_strncpy2_escape_def split: if_splits prod.splits)
  have u: "unescape_loop spec (length (out @ rest)) (out @ rest @ [CHR 0x00]) = (src, length out)"
    using assms(3-5) by (intro escape_unescape_loop [OF esc, where extra = "length rest"]) auto
  have "out \<noteq> []" using esc assms(2) by (cases src) (auto split: if_splits prod.splits)
  then obtain c cs where out: "out = c # cs" by (cases out) auto
  have "spec c \<or> c = CHR ''%''"
    using u assms(2) unfolding out by (auto split: if_splits)
  then have "spec (sc_at sc (sc_cur sc)) \<or> sc_at sc (sc_cur sc) = CHR ''%''"
    by (simp add: assms(6) mem_at_def out nth_append)
  moreover have "length src \<le> length out" using unescape_loop_out [OF u] by simp
  ultimately show ?thesis
    using u by (auto simp: pj_scan_get_unescape_def assms(6) sc_move_def mem_write_def)
qed

theorem escape_scan_roundtrip_witness:
  "\<exists>sc'. pj_scan_get_unescape pj_isdigit
      \<lparr>sc_mem = ''%40%3a1@h'' @ [CHR 0x00], sc_end = 9, sc_cur = 0, sc_line = 1, sc_start = 0, sc_skip = 0\<rparr> =
        Some (''@:1'', sc') \<and> drop (sc_cur sc') (sc_mem sc') = ''@h'' @ [CHR 0x00]"
proof -
  have "pj_strncpy2_escape ''@:1'' 20 pj_isdigit = Some ''%40%3a1''" by code_simp
  from escape_scan_roundtrip [OF this, of pj_isdigit "''@h''" _ "[]" 1] show ?thesis
    by (simp add: pj_isdigit_def numeral_eq_Suc)
qed

section \<open>Quoted strings\<close>

lemma sc_run_eof_text:
  assumes "sc_mem sc = pre @ t @ c # rest" "\<forall>x \<in> set t. p x" "\<not> p c" "length pre + length t < sc_end sc"
  shows "sc_run_eof p sc (length pre) = length pre + length t"
proof -
  have "take (sc_end sc - length pre) (drop (length pre) (sc_mem sc)) =
      t @ c # take (sc_end sc - length pre - length t - 1) rest"
    using assms(1,4) by (simp add: take_Cons')
  then show ?thesis using adv_append [OF assms(2,3)] by (simp add: sc_run_eof_def)
qed

lemma sc_text_mid: "sc_mem sc = pre @ t @ rest \<Longrightarrow> sc_text sc (length pre) (length pre + length t) = t"
  by (simp add: sc_text_def mem_read_def)

lemma mem_at_append: "n = length xs \<Longrightarrow> mem_at (xs @ y # ys) n = y"
  by (simp add: mem_at_def)

lemma mem_at_last:
  assumes "ys \<noteq> []" "n + 1 = length xs + length ys"
  shows "mem_at (xs @ ys @ zs) n = last ys"
proof -
  have "n < length (xs @ ys @ zs)" "n = length xs + (length ys - 1)" using assms by (cases ys; simp)+
  then show ?thesis using assms(1) by (simp add: mem_at_def nth_append last_conv_nth)
qed

text \<open>
  A quoted string without backslashes is read whole; one that ends in an escaped backslash,
  which is a complete quoted string of RFC 3261, is refused, because the loop steps over the end
  quote before it looks for it.
\<close>

theorem quoted_backslash_refused:
  assumes "\<forall>x \<in> set t. x \<noteq> CHR 0x22 \<and> x \<noteq> CHR 0x0A \<and> x \<noteq> CHR 0x5C" "c \<noteq> CHR 0x22" "bs \<in> {[], [CHR 0x5C, CHR 0x5C]}"
    and "sc_mem sc = pre @ CHR 0x22 # (t @ bs) @ CHR 0x22 # c # rest" "sc_cur sc = length pre" "sc_skip sc = 0"
    and "length pre + length t + length bs + 2 \<le> sc_end sc"
  shows "pj_scan_get_quote (CHR 0x22) (CHR 0x22) sc =
    (if bs = [] then Some (CHR 0x22 # t @ [CHR 0x22], sc\<lparr>sc_cur := length pre + length t + 2\<rparr>) else None)"
proof -
  define w where "w = t @ bs"
  define s1 where "s1 = length pre + 1 + length w"
  have mem: "sc_mem sc = pre @ CHR 0x22 # w @ CHR 0x22 # c # rest"
    "sc_mem sc = (pre @ [CHR 0x22]) @ w @ CHR 0x22 # c # rest"
    "sc_mem sc = (pre @ CHR 0x22 # w) @ CHR 0x22 # c # rest"
    "sc_mem sc = (pre @ CHR 0x22 # w @ [CHR 0x22]) @ c # rest"
    "sc_mem sc = pre @ (CHR 0x22 # w) @ CHR 0x22 # c # rest"
    "sc_mem sc = pre @ (CHR 0x22 # w @ [CHR 0x22]) @ c # rest"
    unfolding assms(4) w_def by simp_all
  have plain: "\<forall>x \<in> set w. x \<noteq> CHR 0x0A \<and> x \<noteq> CHR 0x22"
  proof
    fix x assume "x \<in> set w"
    moreover have "set bs \<subseteq> {CHR 0x5C}" using assms(3) by (elim insertE) simp_all
    ultimately consider "x \<in> set t" | "x = CHR 0x5C" unfolding w_def set_append by blast
    then show "x \<noteq> CHR 0x0A \<and> x \<noteq> CHR 0x22" by cases (use assms(1) in blast, simp)
  qed
  have room: "length (pre @ [CHR 0x22]) + length w < sc_end sc" using assms(7) by (simp add: w_def)
  have len1: "length (pre @ [CHR 0x22]) = length pre + 1" "length pre + 1 + length w = s1"
    by (simp_all add: s1_def)
  have run: "sc_run_eof (\<lambda>x. x \<noteq> CHR 0x0A \<and> x \<noteq> CHR 0x22) sc (length pre + 1) = s1"
    using sc_run_eof_text [of sc "pre @ [CHR 0x22]" w "CHR 0x22" "c # rest"
        "\<lambda>x. x \<noteq> CHR 0x0A \<and> x \<noteq> CHR 0x22", OF mem(2) plain _ room]
    unfolding len1 by blast
  have at0: "sc_at sc (length pre) = CHR 0x22" unfolding mem(1) by (rule mem_at_append) simp
  have at1: "sc_at sc s1 = CHR 0x22" unfolding mem(3) by (rule mem_at_append) (simp add: s1_def)
  have at2: "sc_at sc (s1 + 1) = c" unfolding mem(4) by (rule mem_at_append) (simp add: s1_def)
  have len: "s1 < length (sc_mem sc)" unfolding mem(1) by (simp add: s1_def)
  have last: "sc_at sc (s1 - 1) = last (CHR 0x22 # w)" unfolding mem(5) by (rule mem_at_last) (simp_all add: s1_def)
  have out: "sc_text sc (length pre) (s1 + 1) = CHR 0x22 # w @ [CHR 0x22]"
    using sc_text_mid [OF mem(6)] by (simp add: s1_def)
  have ql: "quote_loop sc (CHR 0x22) (length pre + 1) = (if bs = [] then s1 else s1 + 1)"
  proof (cases "bs = []")
    case True
    then have "last (CHR 0x22 # w) \<noteq> CHR 0x5C" using assms(1) by (cases "t = []") (simp_all add: w_def)
    with last have "sc_at sc (s1 - 1) \<noteq> CHR 0x5C" by simp
    then show ?thesis unfolding quote_loop.simps [of sc "CHR 0x22" "length pre + 1"] run Let_def
      using at1 len True by simp
  next
    case False
    then have bs: "bs = [CHR 0x5C, CHR 0x5C]" using assms(3) by simp
    define q where "q = length pre + 1 + length t"
    have q: "s1 = q + 2" by (simp add: s1_def q_def w_def bs)
    have mem_q: "sc_mem sc = (pre @ CHR 0x22 # t) @ CHR 0x5C # CHR 0x5C # CHR 0x22 # c # rest"
      "sc_mem sc = pre @ (CHR 0x22 # t) @ CHR 0x5C # CHR 0x5C # CHR 0x22 # c # rest"
      unfolding mem(1) w_def bs by simp_all
    have 1: "sc_at sc q = CHR 0x5C" unfolding mem_q(1) by (rule mem_at_append) (simp add: q_def)
    have "sc_at sc (q - 1) = last (CHR 0x22 # t)" unfolding mem_q(2) by (rule mem_at_last) (simp_all add: q_def)
    moreover have "last (CHR 0x22 # t) \<noteq> CHR 0x5C" using assms(1) by (cases "t = []") simp_all
    ultimately have 2: "sc_at sc (q - 1) \<noteq> CHR 0x5C" by simp
    obtain k where k: "q = Suc k" by (simp add: q_def)
    then have "back_slashes (sc_mem sc) q = k" using 1 2 by (cases k) simp_all
    moreover have "sc_at sc (s1 - 1) = CHR 0x5C" unfolding last by (simp add: w_def bs)
    ultimately show ?thesis unfolding quote_loop.simps [of sc "CHR 0x22" "length pre + 1"] run Let_def
      using at1 len False by (simp add: q k)
  qed
  show ?thesis
  proof (cases "bs = []")
    case True
    then show ?thesis
      using at0 at1 out ql assms(5,6)
      by (simp add: pj_scan_get_quote_def pj_scan_get_quotes_def sc_move_def s1_def w_def)
  next
    case False
    then show ?thesis using at0 at2 ql assms(2,5) by (simp add: pj_scan_get_quote_def pj_scan_get_quotes_def)
  qed
qed

theorem quoted_backslash_refused_witness:
  "pj_scan_get_quote (CHR 0x22) (CHR 0x22) (pj_scan_init (CHR 0x22 # ''ab'' @ [CHR 0x5C, CHR 0x5C, CHR 0x22, CHR 0x00]) 6 0) = None"
  by (subst quoted_backslash_refused [where t = "''ab''" and pre = "[]" and bs = "[CHR 0x5C, CHR 0x5C]" and c = "CHR 0x00" and rest = "[]"])
    (auto simp: pj_scan_init_def)

end
