(* ===== verification/Scan_text.thy ===== *)
theory Scan_text
  imports Scanner
begin

unbundle bit_operations_syntax

text \<open>
  What the scanner's operations return on a text that is known: \<open>at_text sc xs\<close> says that the
  scanner is well formed and that \<open>xs\<close> is what is left of its text.  The lemmas, in the collection
  \<open>scan_texts\<close>, give the result of each operation and the rest it leaves; \<open>skip_sp\<close> is the white
  space the scanner skips when its flag is \<open>PJ_SCAN_AUTOSKIP_WS\<close>.
\<close>

named_theorems scan_texts "results of scanner operations on a known text"

definition at_text :: "scanner \<Rightarrow> string \<Rightarrow> bool" where
  "at_text sc xs = (sc_skip sc \<in> {0, 1} \<and> sc_start sc \<le> sc_end sc \<and>
     (\<exists>pre post. sc_mem sc = pre @ xs @ CHR 0x00 # post \<and> sc_cur sc = length pre \<and>
       sc_end sc = length pre + length xs))"

definition skip_sp :: "u32 \<Rightarrow> string \<Rightarrow> string" where
  "skip_sp f xs = (if f = 0 then xs else dropWhile is_sp xs)"

lemma skip_sp_0 [simp]: "skip_sp 0 xs = xs"
  by (simp add: skip_sp_def)

lemma skip_sp_1: "skip_sp 1 xs = dropWhile is_sp xs"
  by (simp add: skip_sp_def)

lemma dropWhile_adv: "dropWhile p xs = drop (adv p xs) xs"
  by (induction xs) auto

lemma adv_take_while: "takeWhile p xs = take (adv p xs) xs"
  by (induction xs) auto

lemma at_textI:
  assumes "sc_mem sc = pre @ xs @ CHR 0x00 # post" "sc_cur sc = length pre"
    "sc_end sc = length pre + length xs" "sc_skip sc \<in> {0, 1}" "sc_start sc \<le> sc_end sc"
  shows "at_text sc xs"
  unfolding at_text_def using assms by blast

lemma at_text_length: "at_text sc xs \<Longrightarrow> sc_end sc = sc_cur sc + length xs"
  by (auto simp: at_text_def)

lemma at_text_ok: "at_text sc xs \<Longrightarrow> scan_ok sc"
  by (auto simp: at_text_def scan_ok_def nth_append)

lemma at_text_mem:
  assumes "at_text sc xs" "i \<le> length xs"
  obtains post where "drop (sc_cur sc + i) (sc_mem sc) = drop i xs @ CHR 0x00 # post"
  using assms by (auto simp: at_text_def)

lemma at_text_nth:
  assumes "at_text sc xs" "i \<le> length xs"
  shows "sc_at sc (sc_cur sc + i) = mem_at xs i"
  using assms by (auto simp: at_text_def mem_at_def nth_append)

lemma at_text_hd: "at_text sc xs \<Longrightarrow> sc_at sc (sc_cur sc) = mem_at xs 0"
  using at_text_nth [of sc xs 0] by simp

lemma at_text_drop:
  assumes "at_text sc xs" "i \<le> length xs"
  shows "at_text (sc\<lparr>sc_cur := sc_cur sc + i\<rparr>) (drop i xs)"
proof -
  obtain pre post where s: "sc_mem sc = pre @ xs @ CHR 0x00 # post" "sc_cur sc = length pre"
      "sc_end sc = length pre + length xs"
    using assms(1) by (auto simp: at_text_def)
  then have "sc_mem sc = (pre @ take i xs) @ drop i xs @ CHR 0x00 # post" by simp
  moreover have "sc_cur sc + i = length (pre @ take i xs)" using s assms(2) by simp
  ultimately show ?thesis
    using s assms by (intro at_textI [of _ "pre @ take i xs" _ post]) (auto simp: at_text_def)
qed

lemma at_text_run:
  assumes "at_text sc xs" "i \<le> length xs" "\<not> p (CHR 0x00)"
  shows "sc_run p sc (sc_cur sc + i) = sc_cur sc + (i + adv p (drop i xs))"
proof -
  obtain post where d: "drop (sc_cur sc + i) (sc_mem sc) = drop i xs @ CHR 0x00 # post"
    by (rule at_text_mem [OF assms(1,2)])
  have "adv p (ys @ CHR 0x00 # post) = adv p ys" for ys using assms(3) by (induction ys) auto
  then show ?thesis unfolding sc_run_def d by simp
qed

lemma at_text_run_eof:
  assumes "at_text sc xs" "i \<le> length xs"
  shows "sc_run_eof p sc (sc_cur sc + i) = sc_cur sc + (i + adv p (drop i xs))"
proof -
  obtain post where d: "drop (sc_cur sc + i) (sc_mem sc) = drop i xs @ CHR 0x00 # post"
    by (rule at_text_mem [OF assms])
  then have "take (sc_end sc - (sc_cur sc + i)) (drop (sc_cur sc + i) (sc_mem sc)) = drop i xs"
    using at_text_length [OF assms(1)] by simp
  then show ?thesis by (simp add: sc_run_eof_def)
qed

lemma at_text_sub:
  assumes "at_text sc xs" "i \<le> j" "j \<le> length xs"
  shows "sc_text sc (sc_cur sc + i) (sc_cur sc + j) = take (j - i) (drop i xs)"
proof -
  obtain post where d: "drop (sc_cur sc + i) (sc_mem sc) = drop i xs @ CHR 0x00 # post"
    by (rule at_text_mem [OF assms(1) le_trans [OF assms(2,3)]])
  show ?thesis using assms(2,3) by (simp add: sc_text_def mem_read_def d)
qed

lemma flag_bits: "f \<in> {0, 1} \<Longrightarrow> (f :: u32) AND 4 = 0" "f \<in> {0, 1} \<Longrightarrow> (f :: u32) AND 3 \<noteq> 3"
  by auto

lemma skip_whitespace_plain:
  assumes "sc_skip sc \<in> {0, 1}"
  shows "pj_scan_skip_whitespace sc = sc\<lparr>sc_cur := sc_run is_sp sc (sc_cur sc)\<rparr>"
  using flag_bits [OF assms]
  by (simp add: pj_scan_skip_whitespace_def skip_ws_lines_def skip_ws_header_def Let_def)

lemma at_text_move:
  assumes at: "at_text sc xs" and i: "i \<le> length xs"
  shows "at_text (sc_move sc (sc_cur sc + i) (sc_skip sc \<noteq> 0)) (skip_sp (sc_skip sc) (drop i xs))"
    and "sc_skip (sc_move sc (sc_cur sc + i) b) = sc_skip sc"
proof -
  let ?sc = "sc\<lparr>sc_cur := sc_cur sc + i\<rparr>"
  have at': "at_text ?sc (drop i xs)" using at i by (rule at_text_drop)
  have sp: "pj_scan_skip_whitespace ?sc = ?sc\<lparr>sc_cur := sc_cur ?sc + adv is_sp (drop i xs)\<rparr>"
    using at_text_run [OF at', of 0 is_sp] at by (simp add: skip_whitespace_plain at_text_def)
  have "adv is_sp (drop i xs) = 0" if "\<not> is_prob_sp (sc_at sc (sc_cur sc + i))"
  proof (cases "drop i xs")
    case (Cons c cs)
    then have "sc_at sc (sc_cur sc + i) = c"
      using at_text_hd [OF at'] by (simp add: mem_at_def)
    with that Cons show ?thesis by (auto simp: is_prob_sp_def is_sp_def)
  qed simp
  then show "at_text (sc_move sc (sc_cur sc + i) (sc_skip sc \<noteq> 0)) (skip_sp (sc_skip sc) (drop i xs))"
    using at' at_text_drop [OF at', of "adv is_sp (drop i xs)"] adv_le [of is_sp "drop i xs"] sp
    by (cases "is_prob_sp (sc_at sc (sc_cur sc + i))")
      (auto simp: sc_move_def Let_def skip_sp_def dropWhile_adv)
  show "sc_skip (sc_move sc (sc_cur sc + i) b) = sc_skip sc"
    using sp by (auto simp: sc_move_def Let_def)
qed

text \<open>The operations.\<close>

lemma at_text_init:
  assumes "f \<in> {0, 1}"
  shows "at_text (pj_scan_init (xs @ CHR 0x00 # post) (length xs) f) (skip_sp f xs)"
    "sc_skip (pj_scan_init (xs @ CHR 0x00 # post) (length xs) f) = f"
proof -
  let ?sc = "\<lparr>sc_mem = xs @ CHR 0x00 # post, sc_end = length xs, sc_cur = 0, sc_line = 1, sc_start = 0, sc_skip = f\<rparr>"
  have at: "at_text ?sc xs" using assms by (intro at_textI [of _ "[]" _ post]) simp_all
  then have run: "pj_scan_skip_whitespace ?sc = ?sc\<lparr>sc_cur := sc_cur ?sc + adv is_sp xs\<rparr>"
    using at_text_run [OF at, of 0 is_sp] assms by (simp add: skip_whitespace_plain)
  show "sc_skip (pj_scan_init (xs @ CHR 0x00 # post) (length xs) f) = f"
    using run by (simp add: pj_scan_init_def Let_def)
  show "at_text (pj_scan_init (xs @ CHR 0x00 # post) (length xs) f) (skip_sp f xs)"
    using at at_text_drop [OF at adv_le [of is_sp]] run assms
    by (auto simp: pj_scan_init_def Let_def skip_sp_def dropWhile_adv)
qed

lemma at_text_eof [scan_texts]: "at_text sc xs \<Longrightarrow> pj_scan_is_eof sc = (xs = [])"
  by (auto simp: pj_scan_is_eof_def at_text_length)

text \<open>The result of an operation: its value, the scanner at the rest, and its unchanged flag.\<close>

definition scans :: "('a \<times> scanner) option \<Rightarrow> 'a \<Rightarrow> u32 \<Rightarrow> string \<Rightarrow> bool" where
  "scans r v f xs = (\<exists>sc. r = Some (v, sc) \<and> at_text sc xs \<and> sc_skip sc = f)"

lemma scansE:
  assumes "scans r v f xs"
  obtains sc where "r = Some (v, sc)" "at_text sc xs" "sc_skip sc = f"
  using assms by (auto simp: scans_def)

lemma get_text [scan_texts]:
  assumes at: "at_text sc (t @ r)" and t: "t \<noteq> []" "\<forall>c \<in> set t. spec c"
    and r: "r = [] \<or> \<not> spec (hd r)" and z: "\<not> spec (CHR 0x00)"
  shows "scans (pj_scan_get spec sc) t (sc_skip sc) (skip_sp (sc_skip sc) r)"
proof -
  obtain c cs where c: "t = c # cs" using t(1) by (cases t) auto
  have hd: "spec (sc_at sc (sc_cur sc))" using at_text_hd [OF at] c t(2) by (simp add: mem_at_def)
  have "adv spec (cs @ r) = length cs"
    using adv_append [of cs spec "hd r" "tl r"] adv_append_end [of cs spec] t(2) r c by (cases r) auto
  then have "sc_run spec sc (sc_cur sc + 1) = sc_cur sc + length t"
    using at_text_run [OF at, of 1 spec] z c by simp
  moreover have "sc_text sc (sc_cur sc) (sc_cur sc + length t) = t"
    using at_text_sub [OF at, of 0 "length t"] by simp
  ultimately show ?thesis
    using hd at_text_move [OF at, of "length t"] by (simp add: scans_def pj_scan_get_def)
qed

lemma get_fails [scan_texts]: "at_text sc xs \<Longrightarrow> \<not> spec (mem_at xs 0) \<Longrightarrow> pj_scan_get spec sc = None"
  by (simp add: pj_scan_get_def at_text_hd)

lemma get_char_text [scan_texts]:
  assumes at: "at_text sc (c # r)" and "c \<noteq> CHR 0x00"
  shows "scans (pj_scan_get_char sc) c (sc_skip sc) (skip_sp (sc_skip sc) r)"
  using assms(2) at_text_hd [OF at] at_text_move [OF at, of 1]
  by (simp add: scans_def pj_scan_get_char_def mem_at_def)

lemma get_until_text:
  assumes at: "at_text sc (t @ r)" and t: "\<forall>c \<in> set t. \<not> stop c" and r: "r = [] \<or> stop (hd r)"
    and ne: "t @ r \<noteq> []"
  shows "scans (sc_get_until stop sc) t (sc_skip sc) (skip_sp (sc_skip sc) r)"
proof -
  have "adv (\<lambda>c. \<not> stop c) (t @ r) = length t"
    using adv_append [of t "\<lambda>c. \<not> stop c" "hd r" "tl r"] adv_append_end [of t "\<lambda>c. \<not> stop c"] t r
    by (cases r) auto
  then have "sc_run_eof (\<lambda>c. \<not> stop c) sc (sc_cur sc) = sc_cur sc + length t"
    using at_text_run_eof [OF at, of 0] by simp
  moreover have "sc_text sc (sc_cur sc) (sc_cur sc + length t) = t"
    using at_text_sub [OF at, of 0 "length t"] by simp
  moreover have "\<not> sc_end sc \<le> sc_cur sc" using at_text_length [OF at] ne by (cases t; cases r) auto
  ultimately show ?thesis
    using at_text_move [OF at, of "length t"] by (simp add: scans_def sc_get_until_def)
qed

lemma get_until_ch_text [scan_texts]:
  "at_text sc (t @ c # r) \<Longrightarrow> c \<notin> set t \<Longrightarrow>
   scans (pj_scan_get_until_ch c sc) t (sc_skip sc) (skip_sp (sc_skip sc) (c # r))"
  unfolding pj_scan_get_until_ch_def by (rule get_until_text) auto

lemma get_until_chr_text [scan_texts]:
  "at_text sc (t @ c # r) \<Longrightarrow> c \<in> set cs \<Longrightarrow> set t \<inter> set cs = {} \<Longrightarrow>
   scans (pj_scan_get_until_chr cs sc) t (sc_skip sc) (skip_sp (sc_skip sc) (c # r))"
  unfolding pj_scan_get_until_chr_def by (rule get_until_text) auto

lemma advance_text [scan_texts]:
  assumes at: "at_text sc (t @ r)" and n: "n = length t"
  shows "\<exists>sc'. pj_scan_advance_n n False sc = Some sc' \<and> at_text sc' r \<and> sc_skip sc' = sc_skip sc"
  using at_text_drop [OF at, of n] at_text_length [OF at] n
  by (simp add: pj_scan_advance_n_def sc_move_def)

lemma skip_line_text [scan_texts]:
  assumes at: "at_text sc (t @ CHR 0x0A # r)" and t: "CHR 0x0A \<notin> set t" "CHR 0x00 \<notin> set t"
  shows "at_text (pj_scan_skip_line sc) r" "sc_skip (pj_scan_skip_line sc) = sc_skip sc"
proof -
  let ?p = "\<lambda>c. c \<noteq> CHR 0x0A \<and> c \<noteq> CHR 0x00"
  have "adv ?p (t @ CHR 0x0A # r) = length t" using t by (intro adv_append) auto
  then have run: "sc_run ?p sc (sc_cur sc) = sc_cur sc + length t"
    using at_text_run [OF at, of 0 ?p] by simp
  have "sc_at sc (sc_cur sc + length t) = CHR 0x0A"
    using at_text_nth [OF at, of "length t"] by (simp add: mem_at_def)
  then have eq: "pj_scan_skip_line sc =
      sc\<lparr>sc_cur := sc_cur sc + (length t + 1), sc_start := sc_cur sc + length t + 1, sc_line := sc_line sc + 1\<rparr>"
    unfolding pj_scan_skip_line_def Let_def run by simp
  have "at_text (sc\<lparr>sc_cur := sc_cur sc + (length t + 1)\<rparr>) r" using at_text_drop [OF at, of "length t + 1"] by simp
  then show "at_text (pj_scan_skip_line sc) r"
    unfolding eq using at_text_length [OF at] by (auto simp: at_text_def)
  show "sc_skip (pj_scan_skip_line sc) = sc_skip sc" unfolding eq by simp
qed

lemma get_newline_text [scan_texts]:
  assumes at: "at_text sc (CHR 0x0D # CHR 0x0A # r)"
  shows "\<exists>sc'. pj_scan_get_newline sc = Some sc' \<and> at_text sc' r \<and> sc_skip sc' = sc_skip sc"
proof -
  have "sc_at sc (sc_cur sc) = CHR 0x0D" "sc_at sc (sc_cur sc + 1) = CHR 0x0A"
    using at_text_nth [OF at, of 0] at_text_nth [OF at, of 1] by (simp_all add: mem_at_def)
  then have eq: "pj_scan_get_newline sc =
      Some (sc\<lparr>sc_cur := sc_cur sc + 2, sc_line := sc_line sc + 1, sc_start := sc_cur sc + 2\<rparr>)"
    by (simp add: pj_scan_get_newline_def Let_def is_nl_def)
  have "at_text (sc\<lparr>sc_cur := sc_cur sc + 2\<rparr>) r" using at_text_drop [OF at, of 2] by simp
  then show ?thesis unfolding eq using at_text_length [OF at] by (auto simp: at_text_def)
qed

text \<open>What is left of the text, as a string.\<close>

lemma rest_text [scan_texts]: "at_text sc xs \<Longrightarrow> sc_text sc (sc_cur sc) (sc_end sc) = xs"
  using at_text_sub [of sc xs 0 "length xs"] by (simp add: at_text_length)

end
