(* ===== verification/Sdp.thy ===== *)
theory Sdp
  imports Scan_text
begin

unbundle bit_operations_syntax

text \<open>
  Session descriptions of \<open>pjmedia/src/pjmedia/sdp.c\<close>: the data of \<open>pjmedia_sdp_session\<close>, the attribute
  operations, the attributes \<open>rtpmap\<close>, \<open>fmtp\<close> and \<open>rtcp\<close>, cloning, validation, deactivation.

  An array with its count is a list; its bound is checked where the code checks it.  A pointer to
  an attribute of an array is its index: no array holds the same attribute twice.  A pointer that
  may be NULL is an option.  Strings are lists of characters; the characters of an attribute value
  are followed by a 0 in memory, as \<open>pj_strdup_with_null\<close> leaves them.
\<close>

definition PJMEDIA_MAX_SDP_FMT :: nat where "PJMEDIA_MAX_SDP_FMT = 32"
definition PJMEDIA_MAX_SDP_ATTR :: nat where "PJMEDIA_MAX_SDP_ATTR = PJMEDIA_MAX_SDP_FMT * 2 + 4"
definition PJMEDIA_MAX_SDP_MEDIA :: nat where "PJMEDIA_MAX_SDP_MEDIA = 16"

datatype sdp_status =
    SDP_SUCCESS | SDP_EINVAL | SDP_ETOOMANY | SDP_ENOTFOUND | SDP_EINVALIDOP | SDP_EBUG | SDP_EEXISTS
  | PJMEDIA_SDP_EINSDP | PJMEDIA_SDP_EINVER | PJMEDIA_SDP_EINORIGIN | PJMEDIA_SDP_EINTIME
  | PJMEDIA_SDP_EINNAME | PJMEDIA_SDP_EINCONN | PJMEDIA_SDP_EMISSINGCONN | PJMEDIA_SDP_EINATTR
  | PJMEDIA_SDP_EINRTPMAP | PJMEDIA_SDP_ERTPMAPTOOLONG | PJMEDIA_SDP_EMISSINGRTPMAP
  | PJMEDIA_SDP_EINMEDIA | PJMEDIA_SDP_ENOFMT | PJMEDIA_SDP_EINPT | PJMEDIA_SDP_EINFMTP
  | PJMEDIA_SDP_EINRTCP | PJMEDIA_SDP_ETPORTNOTEQUAL | PJMEDIA_SDP_EFORMATNOTEQUAL
  | PJMEDIA_SDPNEG_EINSTATE | PJMEDIA_SDPNEG_ENOINITIAL | PJMEDIA_SDPNEG_ENOACTIVE
  | PJMEDIA_SDPNEG_ENONEG | PJMEDIA_SDPNEG_ENOMEDIA | PJMEDIA_SDPNEG_EINVANSMEDIA
  | PJMEDIA_SDPNEG_EINVANSTP | PJMEDIA_SDPNEG_EANSNOMEDIA | PJMEDIA_SDPNEG_NOANSCODEC
  | PJMEDIA_SDPNEG_NOANSUNKNOWN

record sdp_attr =
  at_name :: string
  at_value :: string

record sdp_rtpmap =
  rm_pt :: string
  rm_enc_name :: string
  rm_clock_rate :: u32
  rm_param :: string

record sdp_fmtp =
  fp_fmt :: string
  fp_param :: string

record sdp_rtcp_attr =
  rc_port :: u32
  rc_net_type :: string
  rc_addr_type :: string
  rc_addr :: string

record sdp_conn =
  cn_net_type :: string
  cn_addr_type :: string
  cn_addr :: string

record sdp_bandw =
  bw_modifier :: string
  bw_value :: u32

record sdp_media =
  md_media :: string
  md_port :: u16
  md_port_count :: u32
  md_transport :: string
  md_fmt :: "string list"
  md_conn :: "sdp_conn option"
  md_bandw :: "sdp_bandw list"
  md_attr :: "sdp_attr list"

record sdp_session =
  or_user :: string
  or_id :: u32
  or_version :: u32
  or_net_type :: string
  or_addr_type :: string
  or_addr :: string
  ss_name :: string
  ss_conn :: "sdp_conn option"
  ss_time_start :: u32
  ss_time_stop :: u32
  ss_attr :: "sdp_attr list"
  ss_media :: "sdp_media list"

section \<open>Strings and arrays\<close>

text \<open>\<open>pj_strcmp\<close> and \<open>pj_strcmp2\<close> are 0 exactly for equal strings, and are written as equality.
  \<open>pj_stricmp\<close> compares without case, up to the length of the shorter string or a 0.\<close>

definition pj_stricmp :: "string \<Rightarrow> string \<Rightarrow> int" where
  "pj_stricmp a b =
     (if length a = 0 then (if length b = 0 then 0 else - 1)
      else if length b = 0 then 1
      else let m = (if length a < length b then length a else length b);
               res = c_strncmp lower_code m a b
           in if res = 0 then (if length a < length b then - 1 else if length a = length b then 0 else 1)
              else res)"

definition array_erase :: "'a list \<Rightarrow> nat \<Rightarrow> 'a list" where
  "array_erase xs pos = take pos xs @ drop (Suc pos) xs"

text \<open>\<open>pj_array_insert\<close> on an array whose first \<open>count\<close> elements are shifted; the element at \<open>count\<close> is
  overwritten when there is one.\<close>

definition array_insert :: "'a list \<Rightarrow> nat \<Rightarrow> nat \<Rightarrow> 'a \<Rightarrow> 'a list" where
  "array_insert xs count pos v =
     take pos xs @ [v] @ take (count - pos) (drop pos xs) @ drop (Suc count) xs"

section \<open>Attributes\<close>

definition sdp_attr_create :: "string \<Rightarrow> string option \<Rightarrow> sdp_attr" where
  "sdp_attr_create name value =
     \<lparr>at_name = name, at_value = (case value of None \<Rightarrow> [] | Some v \<Rightarrow> v)\<rparr>"

definition sdp_attr_clone :: "sdp_attr \<Rightarrow> sdp_attr" where
  "sdp_attr_clone rhs = \<lparr>at_name = at_name rhs, at_value = at_value rhs\<rparr>"

fun attr_find_from :: "nat \<Rightarrow> sdp_attr list \<Rightarrow> string \<Rightarrow> u32 option \<Rightarrow> nat option" where
  "attr_find_from i [] name pt = None"
| "attr_find_from i (a # as) name pt =
     (if at_name a = name then
        (case pt of
           Some p \<Rightarrow> if fst (pj_strtoul2 (at_value a) 10) = p then Some i
                     else attr_find_from (Suc i) as name pt
         | None \<Rightarrow> Some i)
      else attr_find_from (Suc i) as name pt)"

definition sdp_attr_find :: "sdp_attr list \<Rightarrow> string \<Rightarrow> string option \<Rightarrow> nat option" where
  "sdp_attr_find as name fmt = attr_find_from 0 as name (map_option pj_strtoul fmt)"

definition sdp_attr_add :: "sdp_attr list \<Rightarrow> sdp_attr \<Rightarrow> sdp_status \<times> sdp_attr list" where
  "sdp_attr_add as a =
     (if length as < PJMEDIA_MAX_SDP_ATTR then (SDP_SUCCESS, as @ [a]) else (SDP_ETOOMANY, as))"

text \<open>The loop of \<open>pjmedia_sdp_attr_remove_all\<close>; it returns the number of attributes removed.\<close>

function attr_remove_all_from :: "nat \<Rightarrow> sdp_attr list \<Rightarrow> string \<Rightarrow> nat \<Rightarrow> nat \<times> sdp_attr list" where
  "attr_remove_all_from i as name removed =
     (if i < length as then
        (if at_name (as ! i) = name
         then attr_remove_all_from i (array_erase as i) name (removed + 1)
         else attr_remove_all_from (i + 1) as name removed)
      else (removed, as))"
  by auto
termination
  by (relation "measure (\<lambda>(i, as, _). length as - i)") (auto simp: array_erase_def min_def)

declare attr_remove_all_from.simps [simp del]

definition sdp_attr_remove_all :: "sdp_attr list \<Rightarrow> string \<Rightarrow> nat \<times> sdp_attr list" where
  "sdp_attr_remove_all as name = attr_remove_all_from 0 as name 0"

definition sdp_attr_remove :: "sdp_attr list \<Rightarrow> nat \<Rightarrow> sdp_status \<times> sdp_attr list" where
  "sdp_attr_remove as i =
     (if i < length as then (SDP_SUCCESS, array_erase as i) else (SDP_ENOTFOUND, as))"

text \<open>The same on a media line and on a session.\<close>

definition sdp_media_find_attr :: "sdp_media \<Rightarrow> string \<Rightarrow> string option \<Rightarrow> nat option" where
  "sdp_media_find_attr m name fmt = sdp_attr_find (md_attr m) name fmt"

definition sdp_media_add_attr :: "sdp_media \<Rightarrow> sdp_attr \<Rightarrow> sdp_media" where
  "sdp_media_add_attr m a = m\<lparr>md_attr := snd (sdp_attr_add (md_attr m) a)\<rparr>"

definition sdp_media_remove_all_attr :: "sdp_media \<Rightarrow> string \<Rightarrow> sdp_media" where
  "sdp_media_remove_all_attr m name = m\<lparr>md_attr := snd (sdp_attr_remove_all (md_attr m) name)\<rparr>"

definition sdp_media_remove_attr :: "sdp_media \<Rightarrow> nat \<Rightarrow> sdp_media" where
  "sdp_media_remove_attr m i = m\<lparr>md_attr := snd (sdp_attr_remove (md_attr m) i)\<rparr>"

definition sdp_session_add_attr :: "sdp_session \<Rightarrow> sdp_attr \<Rightarrow> sdp_session" where
  "sdp_session_add_attr s a = s\<lparr>ss_attr := snd (sdp_attr_add (ss_attr s) a)\<rparr>"

section \<open>Character classes of the parser\<close>

definition sdp_TOKEN :: string where
  "sdp_TOKEN = ''!#$%&'' @ [CHR 0x27] @ ''*+-.^_`{|}~''"

text \<open>\<open>init_sdp_parser\<close>: class 0 is \<open>cs_token\<close>, class 1 is \<open>cs_digit\<close>.\<close>

definition init_sdp_parser :: "cis_buf option" where
  "init_sdp_parser =
     (let b0 = bw_buf_init;
          (_, tok, b1) = bw_cis_init b0;
          b2 = cis_add_alpha bw_set b1 tok;
          b3 = cis_add_num bw_set b2 tok
      in do {
        b4 \<leftarrow> cis_add_str bw_set b3 tok sdp_TOKEN;
        let (_, dig, b5) = bw_cis_init b4;
        Some (cis_add_num bw_set b5 dig) })"

definition cs_token :: "char \<Rightarrow> bool" where
  "cs_token c = bw_isset (the init_sdp_parser) 0 (of_char c)"

definition cs_digit :: "char \<Rightarrow> bool" where
  "cs_digit c = bw_isset (the init_sdp_parser) 1 (of_char c)"

lemma bw_cis_init_first:
  "bw_cis_init bw_buf_init = (True, 0, bw_buf_init\<lparr>cb_mask := 1\<rparr>)"
  "cb_mask b = 1 \<Longrightarrow> bw_cis_init b = (True, 1, b\<lparr>cb_mask := 3\<rparr>)"
  by (simp_all add: bw_cis_init_def bw_buf_init_def upt_conv_Cons)

text \<open>The same as a sequence of class operations; each class is then a set of characters.\<close>

lemma bw_range_members:
  assumes "length (cb_bits b) = 256" "i < 32" "0 < a" "a \<le> e" "e \<le> 256"
  shows "length (cb_bits (cis_add_range bw_set b i a e)) = 256"
    "j < 32 \<Longrightarrow> cis_members bw_isset (cis_add_range bw_set b i a e) j =
      (if j = i then cis_members bw_isset b j \<union> {a..<e} else cis_members bw_isset b j)"
  using bw.apply_spec [of "Cis_range i a e" b i] bw.apply_spec [of "Cis_range i a e" b j] assms by simp_all

lemma bw_str_members:
  assumes "length (cb_bits b) = 256" "i < 32" "\<forall>c \<in> set s. c \<noteq> CHR 0x00 \<and> (of_char c :: nat) < 128"
  shows "\<exists>b'. cis_add_str bw_set b i s = Some b' \<and> length (cb_bits b') = 256 \<and> cb_mask b' = cb_mask b \<and>
    (\<forall>j < 32. cis_members bw_isset b' j =
      (if j = i then cis_members bw_isset b j \<union> of_char ` set s else cis_members bw_isset b j))"
proof -
  have codes: "cis_op_codes (Cis_str i s)" "cis_op_ascii (Cis_str i s)" using assms(3) by auto
  then obtain b' where b': "cis_add_str bw_set b i s = Some b'"
    using bw.apply_ascii [OF codes(1), of b] by auto
  have "cb_mask (fold (\<lambda>c s. bw_set s i c) xs b) = cb_mask b" for xs
    by (induction xs arbitrary: b) (simp_all add: bw_set_def)
  then have "cb_mask b' = cb_mask b" using b' by (auto simp: cis_add_str_def)
  moreover have "length (cb_bits b') = 256 \<and> cis_members bw_isset b' j =
      (if j = i then cis_members bw_isset b j \<union> of_char ` set s else cis_members bw_isset b j)" if "j < 32" for j
    using bw.apply_spec [of "Cis_str i s" b j b'] assms that b' codes by simp
  ultimately show ?thesis using b' assms(2) by blast
qed

lemma bw_mask_members [simp]: "cis_members bw_isset (b\<lparr>cb_mask := m\<rparr>) i = cis_members bw_isset b i"
  by (simp add: cis_members_def bw_isset_def)

lemma bw_mask_kept: "cb_mask (cis_add_range bw_set b i a e) = cb_mask b"
proof -
  have "cb_mask (fold (\<lambda>c s. bw_set s i c) xs b) = cb_mask b" for xs
    by (induction xs arbitrary: b) (simp_all add: bw_set_def)
  then show ?thesis by (simp add: cis_add_range_def)
qed

lemma bw_empty_members: "i < 32 \<Longrightarrow> cis_members bw_isset bw_buf_init i = {}"
  by (auto simp: cis_members_def bw_isset_bit bw_buf_init_def)

lemma bw_buf_init_length: "length (cb_bits bw_buf_init) = 256"
  by (simp add: bw_buf_init_def)

text \<open>The two classes, as sets.\<close>

lemma sdp_classes:
  "\<exists>b. init_sdp_parser = Some b \<and>
    cis_members bw_isset b 0 = {97..<123} \<union> {65..<91} \<union> {48..<58} \<union> of_char ` set sdp_TOKEN \<and>
    cis_members bw_isset b 1 = {48..<58}"
proof -
  let ?b3 = "cis_add_num bw_set (cis_add_alpha bw_set (bw_buf_init\<lparr>cb_mask := 1\<rparr>) 0) 0"
  have b3: "length (cb_bits ?b3) = 256" "cb_mask ?b3 = 1"
    "cis_members bw_isset ?b3 0 = {97..<123} \<union> {65..<91} \<union> {48..<58}" "cis_members bw_isset ?b3 1 = {}"
    by (simp_all add: cis_add_alpha_def cis_add_num_def bw_range_members bw_mask_kept bw_empty_members bw_buf_init_length)
  have "\<forall>c \<in> set sdp_TOKEN. c \<noteq> CHR 0x00 \<and> (of_char c :: nat) < 128" by (simp add: sdp_TOKEN_def)
  from bw_str_members [OF b3(1) _ this, of 0] obtain b4 where b4: "cis_add_str bw_set ?b3 0 sdp_TOKEN = Some b4"
    "length (cb_bits b4) = 256" "cb_mask b4 = 1"
    "\<forall>j < 32. cis_members bw_isset b4 j =
      (if j = 0 then cis_members bw_isset ?b3 j \<union> of_char ` set sdp_TOKEN else cis_members bw_isset ?b3 j)"
    using b3(2) by auto
  have "init_sdp_parser = Some (cis_add_num bw_set (b4\<lparr>cb_mask := 3\<rparr>) 1)"
    by (simp add: init_sdp_parser_def Let_def bw_cis_init_first(1) b4(1) bw_cis_init_first(2) [OF b4(3)])
  moreover have "cis_members bw_isset (cis_add_num bw_set (b4\<lparr>cb_mask := 3\<rparr>) 1) 0 =
      {97..<123} \<union> {65..<91} \<union> {48..<58} \<union> of_char ` set sdp_TOKEN"
    "cis_members bw_isset (cis_add_num bw_set (b4\<lparr>cb_mask := 3\<rparr>) 1) 1 = {48..<58}"
    using b4(2,4) b3(3,4) by (simp_all add: cis_add_num_def bw_range_members)
  ultimately show ?thesis by blast
qed

lemma cs_token_iff [code]:
  "cs_token c = (let k = of_char c :: nat in 97 \<le> k \<and> k < 123 \<or> 65 \<le> k \<and> k < 91 \<or> 48 \<le> k \<and> k < 58 \<or>
     c \<in> set sdp_TOKEN)"
proof -
  obtain b where b: "init_sdp_parser = Some b"
    "cis_members bw_isset b 0 = {97..<123} \<union> {65..<91} \<union> {48..<58} \<union> of_char ` set sdp_TOKEN"
    using sdp_classes by blast
  have "cs_token c = (of_char c \<in> cis_members bw_isset b 0)"
    by (simp add: cs_token_def cis_members_def nat_of_char_less_256 b(1))
  then show ?thesis by (auto simp: b(2) Let_def)
qed

lemma cs_digit_iff [code]: "cs_digit c = pj_isdigit c"
proof -
  obtain b where b: "init_sdp_parser = Some b" "cis_members bw_isset b 1 = {48..<58}"
    using sdp_classes by blast
  have "cs_digit c = (of_char c \<in> cis_members bw_isset b 1)"
    by (simp add: cs_digit_def cis_members_def nat_of_char_less_256 b(1))
  then show ?thesis by (auto simp: b(2) [unfolded One_nat_def] pj_isdigit_def)
qed

section \<open>The attributes rtpmap, fmtp and rtcp\<close>

text \<open>
  \<open>pjmedia_sdp_attr_get_rtpmap\<close> fills the structure \<open>r0\<close> step by step, and a failing step leaves what
  the earlier ones stored; the callers go on with it.  The last component says whether the
  function returns with its exception handler still installed: the jump to \<open>on_return\<close> leaves the
  \<open>PJ_TRY\<close> block without \<open>PJ_END\<close>.
\<close>

definition sdp_scanner :: "string \<Rightarrow> scanner" where
  "sdp_scanner v = pj_scan_init (v @ [CHR 0x00]) (length v) 1"

definition rtpmap_after_slash :: "scanner \<Rightarrow> sdp_rtpmap \<Rightarrow> sdp_status \<times> sdp_rtpmap \<times> bool" where
  "rtpmap_after_slash sc r =
     (case pj_scan_get cs_digit sc of
        None \<Rightarrow> (PJMEDIA_SDP_EINRTPMAP, r, False)
      | Some (token, sc) \<Rightarrow>
          (let r = r\<lparr>rm_clock_rate := pj_strtoul token\<rparr>
           in if sc_at sc (sc_cur sc) = CHR ''/'' then
                (case pj_scan_get_char sc of
                   None \<Rightarrow> (PJMEDIA_SDP_EINRTPMAP, r, False)
                 | Some (_, sc) \<Rightarrow> (SDP_SUCCESS, r\<lparr>rm_param := sc_text sc (sc_cur sc) (sc_end sc)\<rparr>, False))
              else (SDP_SUCCESS, r\<lparr>rm_param := []\<rparr>, False)))"

definition sdp_attr_get_rtpmap :: "sdp_attr \<Rightarrow> sdp_rtpmap \<Rightarrow> sdp_status \<times> sdp_rtpmap \<times> bool" where
  "sdp_attr_get_rtpmap a r0 =
     (if at_name a \<noteq> ''rtpmap'' then (SDP_EINVALIDOP, r0, False)
      else if length (at_value a) = 0 then (PJMEDIA_SDP_EINATTR, r0, False)
      else
        let r = r0\<lparr>rm_pt := [], rm_param := [], rm_enc_name := [], rm_clock_rate := 0\<rparr>
        in case pj_scan_get cs_token (sdp_scanner (at_value a)) of
          None \<Rightarrow> (PJMEDIA_SDP_EINRTPMAP, r, False)
        | Some (pt, sc) \<Rightarrow>
            (let r = r\<lparr>rm_pt := pt\<rparr>
             in case pj_scan_get cs_token sc of
               None \<Rightarrow> (PJMEDIA_SDP_EINRTPMAP, r, False)
             | Some (enc, sc) \<Rightarrow>
                 (let r = r\<lparr>rm_enc_name := enc\<rparr>
                  in case pj_scan_get_char sc of
                    None \<Rightarrow> (PJMEDIA_SDP_EINRTPMAP, r, False)
                  | Some (c, sc) \<Rightarrow>
                      if c \<noteq> CHR ''/'' then (PJMEDIA_SDP_EINRTPMAP, r, True)
                      else rtpmap_after_slash sc r)))"

text \<open>The structure the callers that ignore the status use; \<open>r0\<close> is what was on their stack.\<close>

definition rtpmap_of :: "sdp_rtpmap \<Rightarrow> sdp_attr \<Rightarrow> sdp_rtpmap" where
  "rtpmap_of r0 a = fst (snd (sdp_attr_get_rtpmap a r0))"

definition sdp_attr_get_fmtp :: "sdp_attr \<Rightarrow> sdp_status + sdp_fmtp" where
  "sdp_attr_get_fmtp a =
     (let v = at_value a; n = adv pj_isdigit v
      in if at_name a \<noteq> ''fmtp'' then Inl SDP_EINVALIDOP
         else if n = 0 then Inl PJMEDIA_SDP_EINFMTP
         else if mem_at v n \<noteq> CHR '' '' then Inl PJMEDIA_SDP_EINFMTP
         else Inr \<lparr>fp_fmt = take n v, fp_param = drop (n + 1) v\<rparr>)"

definition sdp_attr_get_rtcp :: "sdp_attr \<Rightarrow> sdp_rtcp_attr \<Rightarrow> sdp_status \<times> sdp_rtcp_attr" where
  "sdp_attr_get_rtcp a r0 =
     (if at_name a \<noteq> ''rtcp'' then (SDP_EINVALIDOP, r0)
      else
        let r = r0\<lparr>rc_net_type := [], rc_addr_type := [], rc_addr := []\<rparr>
        in case pj_scan_get cs_token (sdp_scanner (at_value a)) of
          None \<Rightarrow> (PJMEDIA_SDP_EINRTCP, r)
        | Some (token, sc) \<Rightarrow>
            (let r = r\<lparr>rc_port := pj_strtoul token\<rparr>
             in if pj_scan_is_eof sc then (SDP_SUCCESS, r)
                else case pj_scan_get cs_token sc of
                  None \<Rightarrow> (PJMEDIA_SDP_EINRTCP, r)
                | Some (nt, sc) \<Rightarrow>
                    (let r = r\<lparr>rc_net_type := nt\<rparr>
                     in case pj_scan_get cs_token sc of
                       None \<Rightarrow> (PJMEDIA_SDP_EINRTCP, r)
                     | Some (atype, sc) \<Rightarrow>
                         (let r = r\<lparr>rc_addr_type := atype\<rparr>
                          in case pj_scan_get cs_token sc of
                            None \<Rightarrow> (PJMEDIA_SDP_EINRTCP, r)
                          | Some (addr, sc) \<Rightarrow> (SDP_SUCCESS, r\<lparr>rc_addr := addr\<rparr>)))))"

text \<open>The address is printed by the operating system (\<open>pj_inet_ntoa\<close>, \<open>pj_sockaddr_print\<close>); its text
  is the argument.  The buffer has room for every address.\<close>

datatype sock_addr = Sock_v4 u16 string | Sock_v6 u16 string

fun sdp_attr_create_rtcp :: "sock_addr \<Rightarrow> sdp_attr" where
  "sdp_attr_create_rtcp (Sock_v4 port addr) =
     \<lparr>at_name = ''rtcp'', at_value = pj_utoa (ucast port) @ '' IN IP4 '' @ addr\<rparr>"
| "sdp_attr_create_rtcp (Sock_v6 port addr) =
     \<lparr>at_name = ''rtcp'', at_value = pj_utoa (ucast port) @ '' IN IP6 '' @ addr\<rparr>"

text \<open>
  \<open>pj_ansi_snprintf (buf, len, ...)\<close>: the characters of \<open>%.*s\<close> end at a 0; what is stored is cut to
  \<open>len - 1\<close> characters and ended with a 0; the value is the full length.  \<open>stored s n\<close> is the \<open>n\<close>
  characters in the buffer after a call that printed \<open>s\<close>, with \<open>n = length s \<le> len\<close>.
\<close>

definition c_str :: "string \<Rightarrow> string" where
  "c_str s = takeWhile (\<lambda>c. c \<noteq> CHR 0x00) s"

definition snprintf_stored :: "string \<Rightarrow> nat \<Rightarrow> string" where
  "snprintf_stored s len = (if length s < len then s else take (len - 1) s @ [CHR 0x00])"

definition sdp_rtpmap_to_attr :: "sdp_rtpmap \<Rightarrow> sdp_status + sdp_attr" where
  "sdp_rtpmap_to_attr r =
     (if length (rm_enc_name r) = 0 \<or> rm_clock_rate r = 0 then Inl PJMEDIA_SDP_EINRTPMAP
      else
        let s = c_str (rm_pt r) @ '' '' @ c_str (rm_enc_name r) @ ''/'' @ pj_utoa (rm_clock_rate r) @
                (if length (rm_param r) \<noteq> 0 then ''/'' else []) @ c_str (rm_param r)
        in if length s < 1 \<or> length s > 128 then Inl PJMEDIA_SDP_ERTPMAPTOOLONG
           else Inr \<lparr>at_name = ''rtpmap'', at_value = snprintf_stored s 128\<rparr>)"

section \<open>Cloning\<close>

definition sdp_conn_clone :: "sdp_conn \<Rightarrow> sdp_conn" where
  "sdp_conn_clone c = \<lparr>cn_net_type = cn_net_type c, cn_addr_type = cn_addr_type c, cn_addr = cn_addr c\<rparr>"

definition sdp_bandw_clone :: "sdp_bandw \<Rightarrow> sdp_bandw" where
  "sdp_bandw_clone b = \<lparr>bw_modifier = bw_modifier b, bw_value = bw_value b\<rparr>"

definition sdp_media_clone :: "sdp_media \<Rightarrow> sdp_media" where
  "sdp_media_clone m =
     \<lparr>md_media = md_media m, md_port = md_port m, md_port_count = md_port_count m,
      md_transport = md_transport m, md_fmt = md_fmt m, md_conn = map_option sdp_conn_clone (md_conn m),
      md_bandw = map sdp_bandw_clone (md_bandw m), md_attr = map sdp_attr_clone (md_attr m)\<rparr>"

definition sdp_session_clone :: "sdp_session \<Rightarrow> sdp_session" where
  "sdp_session_clone s =
     \<lparr>or_user = or_user s, or_id = or_id s, or_version = or_version s, or_net_type = or_net_type s,
      or_addr_type = or_addr_type s, or_addr = or_addr s, ss_name = ss_name s,
      ss_conn = map_option sdp_conn_clone (ss_conn s), ss_time_start = ss_time_start s,
      ss_time_stop = ss_time_stop s, ss_attr = map sdp_attr_clone (ss_attr s),
      ss_media = map sdp_media_clone (ss_media s)\<rparr>"

section \<open>Validation and deactivation\<close>

definition validate_sdp_conn :: "sdp_conn \<Rightarrow> sdp_status" where
  "validate_sdp_conn c =
     (if cn_net_type c \<noteq> ''IN'' then PJMEDIA_SDP_EINCONN
      else if \<not> (cn_addr_type c = ''IP4'' \<or> cn_addr_type c = ''IP6'') then PJMEDIA_SDP_EINCONN
      else if length (cn_addr c) = 0 then PJMEDIA_SDP_EINCONN
      else SDP_SUCCESS)"

text \<open>A format's first character is read without a test of its length; the parser's formats are not
  empty, and the byte behind an empty string is a 0 otherwise.\<close>

fun validate_fmts :: "sdp_media \<Rightarrow> string list \<Rightarrow> sdp_status" where
  "validate_fmts m [] = SDP_SUCCESS"
| "validate_fmts m (f # fs) =
     (if pj_isdigit (mem_at f 0) then
        (let pt = pj_strtoul f
         in if \<not> pt \<le> 127 then PJMEDIA_SDP_EINPT
            else if md_port m \<noteq> 0 \<and> pt \<ge> 96 \<and> sdp_media_find_attr m ''rtpmap'' (Some f) = None
            then PJMEDIA_SDP_EMISSINGRTPMAP
            else validate_fmts m fs)
      else validate_fmts m fs)"

definition validate_media :: "sdp_session \<Rightarrow> sdp_media \<Rightarrow> sdp_status" where
  "validate_media s m =
     (if length (md_media m) = 0 then PJMEDIA_SDP_EINMEDIA
      else if length (md_transport m) = 0 then PJMEDIA_SDP_EINMEDIA
      else if \<not> (length (md_fmt m) \<noteq> 0 \<or> md_port m = 0) then PJMEDIA_SDP_ENOFMT
      else case md_conn m of
        Some c \<Rightarrow> if validate_sdp_conn c \<noteq> SDP_SUCCESS then validate_sdp_conn c
                  else validate_fmts m (md_fmt m)
      | None \<Rightarrow> if ss_conn s = None then PJMEDIA_SDP_EMISSINGCONN else validate_fmts m (md_fmt m))"

fun validate_medias :: "sdp_session \<Rightarrow> sdp_media list \<Rightarrow> sdp_status" where
  "validate_medias s [] = SDP_SUCCESS"
| "validate_medias s (m # ms) =
     (if validate_media s m \<noteq> SDP_SUCCESS then validate_media s m else validate_medias s ms)"

definition sdp_validate :: "sdp_session \<Rightarrow> sdp_status" where
  "sdp_validate s =
     (if length (or_user s) = 0 then PJMEDIA_SDP_EINORIGIN
      else if or_net_type s \<noteq> ''IN'' then PJMEDIA_SDP_EINORIGIN
      else if \<not> (or_addr_type s = ''IP4'' \<or> or_addr_type s = ''IP6'') then PJMEDIA_SDP_EINORIGIN
      else if length (or_addr s) = 0 then PJMEDIA_SDP_EINORIGIN
      else if length (ss_name s) = 0 then PJMEDIA_SDP_EINNAME
      else case ss_conn s of
        Some c \<Rightarrow> if validate_sdp_conn c \<noteq> SDP_SUCCESS then validate_sdp_conn c
                  else validate_medias s (ss_media s)
      | None \<Rightarrow> validate_medias s (ss_media s))"

definition sdp_transport_cmp :: "string \<Rightarrow> string \<Rightarrow> sdp_status" where
  "sdp_transport_cmp t1 t2 =
     (if pj_stricmp t1 t2 = 0 then SDP_SUCCESS
      else if (pj_stricmp t1 ''RTP/AVP'' = 0 \<or> pj_stricmp t1 ''RTP/SAVP'' = 0) \<and>
              (pj_stricmp t2 ''RTP/AVP'' = 0 \<or> pj_stricmp t2 ''RTP/SAVP'' = 0) then SDP_SUCCESS
      else PJMEDIA_SDP_ETPORTNOTEQUAL)"

definition sdp_media_deactivate :: "sdp_media \<Rightarrow> sdp_media" where
  "sdp_media_deactivate m = m\<lparr>md_port := 0, md_attr := []\<rparr>"

definition sdp_media_clone_deactivate :: "sdp_media \<Rightarrow> sdp_media" where
  "sdp_media_clone_deactivate rhs =
     sdp_media_deactivate (rhs\<lparr>md_conn := map_option sdp_conn_clone (md_conn rhs),
       md_bandw := map sdp_bandw_clone (md_bandw rhs)\<rparr>)"

section \<open>Facts of the operations\<close>

text \<open>Clones are equal to their originals.\<close>

lemma clone_id [simp]:
  "sdp_attr_clone a = a" "sdp_conn_clone c = c" "sdp_bandw_clone b = b"
  by (simp_all add: sdp_attr_clone_def sdp_conn_clone_def sdp_bandw_clone_def)

lemma clone_ids [simp]: "sdp_media_clone m = m" "sdp_session_clone s = s"
proof -
  have ids: "sdp_attr_clone = id" "sdp_conn_clone = id" "sdp_bandw_clone = id" by (auto simp: fun_eq_iff)
  then have m: "sdp_media_clone = id" by (simp add: fun_eq_iff sdp_media_clone_def ids option.map_id0)
  then show "sdp_media_clone m = m" "sdp_session_clone s = s"
    by (simp_all add: sdp_session_clone_def ids option.map_id0)
qed

lemma clone_deactivate_eq [simp]: "sdp_media_clone_deactivate m = m\<lparr>md_port := 0, md_attr := []\<rparr>"
proof -
  have ids: "sdp_conn_clone = id" "sdp_bandw_clone = id" by (auto simp: fun_eq_iff)
  show ?thesis by (simp add: sdp_media_clone_deactivate_def sdp_media_deactivate_def ids option.map_id0)
qed

text \<open>Searching returns the first attribute with the name and, if asked for, the payload type.\<close>

definition attr_matches :: "string \<Rightarrow> string option \<Rightarrow> sdp_attr \<Rightarrow> bool" where
  "attr_matches name fmt a = (at_name a = name \<and>
     (case fmt of None \<Rightarrow> True | Some f \<Rightarrow> fst (pj_strtoul2 (at_value a) 10) = pj_strtoul f))"

lemma attr_find_from_spec:
  "attr_find_from i as name (map_option pj_strtoul fmt) =
     (if \<exists>a \<in> set as. attr_matches name fmt a
      then Some (i + length (takeWhile (\<lambda>a. \<not> attr_matches name fmt a) as)) else None)"
  by (induction as arbitrary: i) (auto simp: attr_matches_def split: option.splits)

lemma attr_find_Some:
  assumes "sdp_attr_find as name fmt = Some i"
  shows "i < length as" "attr_matches name fmt (as ! i)" "\<forall>j < i. \<not> attr_matches name fmt (as ! j)"
proof -
  let ?n = "length (takeWhile (\<lambda>a. \<not> attr_matches name fmt a) as)"
  have ex: "\<exists>a \<in> set as. attr_matches name fmt a" and i: "i = ?n"
    using assms by (auto simp: sdp_attr_find_def attr_find_from_spec split: if_splits)
  have "?n < length as" using ex by (induction as) auto
  then show "i < length as" "attr_matches name fmt (as ! i)" using nth_length_takeWhile i by blast+
  show "\<forall>j < i. \<not> attr_matches name fmt (as ! j)"
    using i by (metis (no_types, lifting) nth_mem set_takeWhileD takeWhile_nth)
qed

lemma attr_find_None: "(sdp_attr_find as name fmt = None) = (\<forall>a \<in> set as. \<not> attr_matches name fmt a)"
  by (auto simp: sdp_attr_find_def attr_find_from_spec)

lemma array_erase_length [simp]: "i < length xs \<Longrightarrow> length (array_erase xs i) = length xs - 1"
  by (simp add: array_erase_def)

lemma set_array_erase: "set (array_erase xs i) \<subseteq> set xs"
  by (auto simp: array_erase_def dest: in_set_takeD in_set_dropD)

lemma attr_remove_all_from_filter:
  assumes "i \<le> length as" "\<forall>a \<in> set (take i as). at_name a \<noteq> name"
  shows "snd (attr_remove_all_from i as name n) = filter (\<lambda>a. at_name a \<noteq> name) as \<and>
    fst (attr_remove_all_from i as name n) = n + length (filter (\<lambda>a. at_name a = name) as)"
  using assms
proof (induction i as name n rule: attr_remove_all_from.induct)
  case (1 i as name removed)
  show ?case
  proof (cases "i < length as")
    case True
    then have split: "as = take i as @ as ! i # drop (Suc i) as" by (simp add: id_take_nth_drop)
    have filt: "filter P as = filter P (take i as) @ (if P (as ! i) then [as ! i] else []) @ filter P (drop (Suc i) as)" for P
      by (subst split) simp
    show ?thesis
    proof (cases "at_name (as ! i) = name")
      case eq: True
      have erase: "take i (array_erase as i) = take i as" "i \<le> length (array_erase as i)"
        using True by (simp_all add: array_erase_def)
      have "filter P (array_erase as i) = filter P (take i as) @ filter P (drop (Suc i) as)" for P
        by (simp add: array_erase_def)
      then show ?thesis
        using "1.IH"(1) [OF True eq] erase "1.prems"(2) True eq filt
        by (subst (1 2) attr_remove_all_from.simps) simp
    next
      case False
      have "\<forall>a \<in> set (take (i + 1) as). at_name a \<noteq> name"
        using "1.prems"(2) False True by (auto simp: take_Suc_conv_app_nth)
      then show ?thesis
        using "1.IH"(2) [OF True False] True False by (subst (1 2) attr_remove_all_from.simps) simp
    qed
  next
    case False
    then show ?thesis
      using "1.prems" by (subst (1 2) attr_remove_all_from.simps) (auto simp: filter_empty_conv)
  qed
qed

lemma attr_remove_all_filter:
  "sdp_attr_remove_all as name =
     (length (filter (\<lambda>a. at_name a = name) as), filter (\<lambda>a. at_name a \<noteq> name) as)"
  using attr_remove_all_from_filter [of 0 as name 0] by (simp add: sdp_attr_remove_all_def prod_eq_iff)

text \<open>Validation.\<close>

lemma validate_fmts_iff:
  "validate_fmts m fs = SDP_SUCCESS \<longleftrightarrow>
     (\<forall>f \<in> set fs. pj_isdigit (mem_at f 0) \<longrightarrow> pj_strtoul f \<le> 127 \<and>
        (md_port m \<noteq> 0 \<longrightarrow> 96 \<le> pj_strtoul f \<longrightarrow> sdp_media_find_attr m ''rtpmap'' (Some f) \<noteq> None))"
  by (induction fs) (auto simp: Let_def)

lemma validate_medias_iff:
  "validate_medias s ms = SDP_SUCCESS \<longleftrightarrow> (\<forall>m \<in> set ms. validate_media s m = SDP_SUCCESS)"
  by (induction ms) auto

lemma validate_media_fmts: "validate_media s m = SDP_SUCCESS \<Longrightarrow> validate_fmts m (md_fmt m) = SDP_SUCCESS"
  by (auto simp: validate_media_def split: if_splits option.splits)

lemma validate_session_media: "sdp_validate s = SDP_SUCCESS \<Longrightarrow> m \<in> set (ss_media s) \<Longrightarrow> validate_media s m = SDP_SUCCESS"
  by (auto simp: sdp_validate_def validate_medias_iff split: if_splits option.splits)

text \<open>What the negotiator relies on: in a valid session every dynamic payload type of an active media has
  its \<open>rtpmap\<close>.\<close>

lemma validate_rtpmap:
  "sdp_validate s = SDP_SUCCESS \<Longrightarrow> m \<in> set (ss_media s) \<Longrightarrow> md_port m \<noteq> 0 \<Longrightarrow> f \<in> set (md_fmt m) \<Longrightarrow>
   pj_isdigit (mem_at f 0) \<Longrightarrow> 96 \<le> pj_strtoul f \<Longrightarrow> sdp_media_find_attr m ''rtpmap'' (Some f) \<noteq> None"
  using validate_media_fmts [OF validate_session_media, of s m] by (auto simp: validate_fmts_iff)

section \<open>Rtpmap round trip\<close>

lemma cs_token_simps [simp]:
  "\<not> cs_token (CHR 0x00)" "\<not> cs_token (CHR '' '')" "\<not> cs_token (CHR ''/'')" "\<not> cs_token (CHR 0x0D)"
  "\<not> cs_token (CHR 0x0A)" "\<not> cs_token (CHR '':'')" "\<not> cs_token (CHR 0x09)"
  by code_simp+

lemma cs_digit_zero [simp]: "\<not> cs_digit (CHR 0x00)" "\<not> cs_digit (CHR ''/'')"
  by (simp_all add: cs_digit_iff pj_isdigit_def)

lemma token_not_special: "cs_token c \<Longrightarrow> c \<noteq> CHR 0x00 \<and> \<not> is_sp c \<and> \<not> is_nl c"
  by (auto simp: is_sp_def is_nl_def)

lemma token_c_str: "\<forall>c \<in> set s. cs_token c \<Longrightarrow> c_str s = s"
  by (auto simp: c_str_def takeWhile_eq_all_conv)

lemma skip_sp_token: "(\<forall>c \<in> set s. cs_token c) \<Longrightarrow> s \<noteq> [] \<Longrightarrow> skip_sp f (s @ r) = s @ r"
  using token_not_special by (cases s) (auto simp: skip_sp_def)

definition is_token_str :: "string \<Rightarrow> bool" where
  "is_token_str s = (s \<noteq> [] \<and> (\<forall>c \<in> set s. cs_token c))"

lemma strtoul_utoa [simp]: "pj_strtoul (pj_utoa v) = v"
  by (simp add: pj_strtoul_def pj_utoa_rev strtoul_digits)

lemma digit_token: "cs_digit c \<Longrightarrow> cs_token c"
  by (simp add: cs_digit_iff cs_token_iff pj_isdigit_def Let_def)

lemma utoa_digit_str: "\<forall>c \<in> set (pj_utoa v). cs_digit c"
  by (auto simp: cs_digit_iff pj_utoa_isdigit)

text \<open>A parameter that survives: no 0, and it does not begin with white space.\<close>

definition rtpmap_ok :: "sdp_rtpmap \<Rightarrow> bool" where
  "rtpmap_ok r = (is_token_str (rm_pt r) \<and> is_token_str (rm_enc_name r) \<and> rm_clock_rate r \<noteq> 0 \<and>
     CHR 0x00 \<notin> set (rm_param r) \<and> \<not> is_sp (mem_at (rm_param r) 0))"

definition rtpmap_text :: "sdp_rtpmap \<Rightarrow> string" where
  "rtpmap_text r = rm_pt r @ '' '' @ rm_enc_name r @ ''/'' @ pj_utoa (rm_clock_rate r) @
     (if rm_param r = [] then [] else ''/'' @ rm_param r)"

lemma get_rtpmap_text:
  assumes ok: "rtpmap_ok r" and a: "at_name a = ''rtpmap''" "at_value a = rtpmap_text r"
  shows "sdp_attr_get_rtpmap a r0 = (SDP_SUCCESS, r, False)"
proof -
  let ?p = "if rm_param r = [] then [] else ''/'' @ rm_param r"
  let ?t3 = "pj_utoa (rm_clock_rate r) @ ?p"
  let ?t2 = "rm_enc_name r @ ''/'' @ ?t3"
  have pt: "rm_pt r \<noteq> []" "\<forall>c \<in> set (rm_pt r). cs_token c"
    and enc: "rm_enc_name r \<noteq> []" "\<forall>c \<in> set (rm_enc_name r). cs_token c"
    using ok by (auto simp: rtpmap_ok_def is_token_str_def)
  have sp2: "skip_sp 1 ('' '' @ ?t2) = ?t2"
    using skip_sp_token [OF enc(2,1), of 1] by (simp add: skip_sp_def is_sp_def)
  have no_sp: "skip_sp 1 (c # xs) = c # xs" if "\<not> is_sp c" for c xs using that by (simp add: skip_sp_def)
  have sp3: "skip_sp 1 ?t3 = ?t3"
    using pj_utoa_isdigit [of "hd (pj_utoa (rm_clock_rate r))" "rm_clock_rate r"]
    by (cases "pj_utoa (rm_clock_rate r)") (auto simp: pj_isdigit_def skip_sp_def is_sp_def)
  have sp4: "skip_sp 1 (rm_param r) = rm_param r"
    using ok by (cases "rm_param r") (simp_all add: rtpmap_ok_def mem_at_def skip_sp_def)
  have sp5: "skip_sp 1 ?p = ?p"
    by (cases "rm_param r = []") (simp_all add: skip_sp_def is_sp_def)
  have val_eq: "at_value a = rm_pt r @ '' '' @ ?t2" by (simp add: a(2) rtpmap_text_def)
  have at0: "at_text (sdp_scanner (at_value a)) (rm_pt r @ '' '' @ ?t2)"
    and f0: "sc_skip (sdp_scanner (at_value a)) = 1"
    using at_text_init [of 1 "at_value a" "[]"] skip_sp_token [OF pt(2,1), of 1 "'' '' @ ?t2"]
    by (simp_all add: sdp_scanner_def val_eq)
  have "scans (pj_scan_get cs_token (sdp_scanner (at_value a))) (rm_pt r) 1 ?t2"
    using get_text [OF at0 pt] by (simp only: f0 sp2) simp
  then obtain sc1 where 1: "pj_scan_get cs_token (sdp_scanner (at_value a)) = Some (rm_pt r, sc1)"
      "at_text sc1 ?t2" "sc_skip sc1 = 1" by (rule scansE)
  have "scans (pj_scan_get cs_token sc1) (rm_enc_name r) 1 (''/'' @ ?t3)"
    using get_text [OF 1(2) enc] by (simp add: 1(3) no_sp is_sp_def)
  then obtain sc2 where 2: "pj_scan_get cs_token sc1 = Some (rm_enc_name r, sc2)" "at_text sc2 (''/'' @ ?t3)"
      "sc_skip sc2 = 1" by (rule scansE)
  have "scans (pj_scan_get_char sc2) (CHR ''/'') 1 ?t3"
    using get_char_text [of sc2 "CHR ''/''" ?t3] 2(2) by (simp only: 2(3) sp3) simp
  then obtain sc3 where 3: "pj_scan_get_char sc2 = Some (CHR ''/'', sc3)" "at_text sc3 ?t3" "sc_skip sc3 = 1"
    by (rule scansE)
  have "scans (pj_scan_get cs_digit sc3) (pj_utoa (rm_clock_rate r)) 1 ?p"
    using get_text [OF 3(2) pj_utoa_ne utoa_digit_str] by (simp only: 3(3) sp5) simp
  then obtain sc4 where 4: "pj_scan_get cs_digit sc3 = Some (pj_utoa (rm_clock_rate r), sc4)" "at_text sc4 ?p"
      "sc_skip sc4 = 1" by (rule scansE)
  have r0: "r0\<lparr>rm_param := [], rm_clock_rate := 0, rm_pt := rm_pt r, rm_enc_name := rm_enc_name r\<rparr> =
      r\<lparr>rm_clock_rate := 0, rm_param := []\<rparr>" by (cases r0; cases r) simp
  have "rtpmap_after_slash sc3 (r\<lparr>rm_clock_rate := 0, rm_param := []\<rparr>) = (SDP_SUCCESS, r, False)"
  proof (cases "rm_param r = []")
    case True
    have "sc_at sc4 (sc_cur sc4) = CHR 0x00" using at_text_hd [OF 4(2)] True by (simp add: mem_at_def)
    then show ?thesis using 4(1) True by (simp add: rtpmap_after_slash_def)
  next
    case False
    then have at4: "at_text sc4 (CHR ''/'' # rm_param r)" using 4(2) by simp
    have hd: "sc_at sc4 (sc_cur sc4) = CHR ''/''" using at_text_hd [OF at4] by (simp add: mem_at_def)
    have "scans (pj_scan_get_char sc4) (CHR ''/'') 1 (rm_param r)"
      using get_char_text [OF at4] by (simp only: 4(3) sp4) simp
    then obtain sc5 where 5: "pj_scan_get_char sc4 = Some (CHR ''/'', sc5)" "at_text sc5 (rm_param r)"
      by (rule scansE)
    show ?thesis using 4(1) hd 5(1) rest_text [OF 5(2)] by (simp add: rtpmap_after_slash_def)
  qed
  then have "rtpmap_after_slash sc3 (r0\<lparr>rm_param := [], rm_clock_rate := 0, rm_pt := rm_pt r,
      rm_enc_name := rm_enc_name r\<rparr>) = (SDP_SUCCESS, r, False)"
    by (subst r0)
  moreover have "length (at_value a) \<noteq> 0" using val_eq pt(1) by simp
  ultimately show ?thesis
    using a(1) 1(1) 2(1) 3(1) by (simp add: sdp_attr_get_rtpmap_def)
qed

text \<open>
  C36: The \<open>rtpmap\<close> attribute \<open>pjmedia_sdp_rtpmap_to_attr\<close> makes of a well-formed \<open>rtpmap\<close> is read back by
  \<open>pjmedia_sdp_attr_get_rtpmap\<close> unchanged, whatever the structure held, when its text is shorter than the 128
  bytes of the buffer; a text of exactly 128 bytes is accepted with its last character replaced by
  a 0; a longer one is refused.
\<close>

theorem rtpmap_roundtrip:
  assumes "rtpmap_ok r"
  shows "case sdp_rtpmap_to_attr r of
      Inr a \<Rightarrow> (if length (rtpmap_text r) < 128 then sdp_attr_get_rtpmap a r0 = (SDP_SUCCESS, r, False)
               else length (rtpmap_text r) = 128 \<and> at_value a = butlast (rtpmap_text r) @ [CHR 0x00])
    | Inl e \<Rightarrow> e = PJMEDIA_SDP_ERTPMAPTOOLONG \<and> 128 < length (rtpmap_text r)"
proof -
  have "c_str (rm_param r) = rm_param r"
    using assms by (auto simp: rtpmap_ok_def c_str_def takeWhile_eq_all_conv)
  then have val_eq: "c_str (rm_pt r) @ '' '' @ c_str (rm_enc_name r) @ ''/'' @ pj_utoa (rm_clock_rate r) @
      (if length (rm_param r) \<noteq> 0 then ''/'' else []) @ c_str (rm_param r) = rtpmap_text r"
    using assms by (auto simp: rtpmap_ok_def is_token_str_def token_c_str rtpmap_text_def)
  have "0 < length (rtpmap_text r)" "length (rm_enc_name r) \<noteq> 0" "rm_clock_rate r \<noteq> 0"
    using assms by (auto simp: rtpmap_ok_def is_token_str_def rtpmap_text_def)
  then have attr: "sdp_rtpmap_to_attr r = (if 128 < length (rtpmap_text r) then Inl PJMEDIA_SDP_ERTPMAPTOOLONG
      else Inr \<lparr>at_name = ''rtpmap'', at_value = snprintf_stored (rtpmap_text r) 128\<rparr>)"
    unfolding sdp_rtpmap_to_attr_def val_eq by simp
  show ?thesis
    unfolding attr using get_rtpmap_text [OF assms]
    by (auto simp: snprintf_stored_def butlast_conv_take)
qed

theorem rtpmap_roundtrip_witness:
  "sdp_attr_get_rtpmap \<lparr>at_name = ''rtpmap'', at_value = ''98 L16/16000/2''\<rparr>
      \<lparr>rm_pt = ''x'', rm_enc_name = ''y'', rm_clock_rate = 1, rm_param = ''z''\<rparr> =
     (SDP_SUCCESS, \<lparr>rm_pt = ''98'', rm_enc_name = ''L16'', rm_clock_rate = 16000, rm_param = ''2''\<rparr>, False)"
proof -
  let ?r = "\<lparr>rm_pt = ''98'', rm_enc_name = ''L16'', rm_clock_rate = 16000, rm_param = ''2''\<rparr>"
  let ?old = "\<lparr>rm_pt = ''x'', rm_enc_name = ''y'', rm_clock_rate = 1, rm_param = ''z''\<rparr>"
  have "rtpmap_ok ?r" by code_simp
  moreover have "sdp_rtpmap_to_attr ?r = Inr \<lparr>at_name = ''rtpmap'', at_value = ''98 L16/16000/2''\<rparr>"
    "length (rtpmap_text ?r) < 128" by code_simp+
  ultimately show ?thesis using rtpmap_roundtrip [of ?r ?old] by simp
qed

text \<open>
  An \<open>rtpmap\<close> whose encoding name is not followed by a slash (a space instead, say) is
  refused, and the function returns with its exception handler still installed, although its
  stack frame is gone.
\<close>

theorem rtpmap_leaks_handler:
  assumes "is_token_str p" "is_token_str e" "at_name a = ''rtpmap''"
    and "at_value a = p @ '' '' @ e @ '' '' @ c # r" and "c \<noteq> CHR 0x00" "\<not> is_sp c" "c \<noteq> CHR ''/''"
  shows "fst (sdp_attr_get_rtpmap a r0) = PJMEDIA_SDP_EINRTPMAP \<and> snd (snd (sdp_attr_get_rtpmap a r0))"
proof -
  have p: "p \<noteq> []" "\<forall>c \<in> set p. cs_token c" and e: "e \<noteq> []" "\<forall>c \<in> set e. cs_token c"
    using assms(1,2) by (auto simp: is_token_str_def)
  have "at_text (sdp_scanner (at_value a)) (p @ '' '' @ e @ '' '' @ c # r)"
    and f0: "sc_skip (sdp_scanner (at_value a)) = 1"
    using at_text_init [of 1 "at_value a" "[]"] skip_sp_token [OF p(2,1), of 1]
    by (simp_all add: sdp_scanner_def assms(4))
  from get_text [OF this(1) p] have "scans (pj_scan_get cs_token (sdp_scanner (at_value a))) p 1 (e @ '' '' @ c # r)"
    using skip_sp_token [OF e(2,1), of 1] by (simp add: f0 skip_sp_1 is_sp_def)
  then obtain sc1 where 1: "pj_scan_get cs_token (sdp_scanner (at_value a)) = Some (p, sc1)"
      "at_text sc1 (e @ '' '' @ c # r)" "sc_skip sc1 = 1" by (rule scansE)
  have "scans (pj_scan_get cs_token sc1) e 1 (c # r)"
    using get_text [OF 1(2) e] assms(6) by (simp add: 1(3) skip_sp_1 is_sp_def)
  then obtain sc2 where 2: "pj_scan_get cs_token sc1 = Some (e, sc2)" "at_text sc2 (c # r)" by (rule scansE)
  obtain sc3 where 3: "pj_scan_get_char sc2 = Some (c, sc3)"
    using get_char_text [OF 2(2) assms(5)] by (rule scansE)
  have "at_value a \<noteq> []" by (simp add: assms(4))
  then show ?thesis using 1(1) 2(1) 3 assms(3,7) by (simp add: sdp_attr_get_rtpmap_def)
qed

theorem rtpmap_leaks_handler_witness:
  "snd (snd (sdp_attr_get_rtpmap \<lparr>at_name = ''rtpmap'', at_value = ''98 L16 16000''\<rparr>
      \<lparr>rm_pt = [], rm_enc_name = [], rm_clock_rate = 0, rm_param = []\<rparr>))"
proof -
  have "is_token_str ''98''" "is_token_str ''L16''" by code_simp+
  from rtpmap_leaks_handler [OF this, of "\<lparr>at_name = ''rtpmap'', at_value = ''98 L16 16000''\<rparr>" "CHR ''1''" "''6000''"]
  show ?thesis by (simp add: is_sp_def)
qed

section \<open>The rtcp attribute\<close>

text \<open>
  The \<open>rtcp\<close> attribute made for an IPv4 address is read back whole.  For an IPv6 address only
  the part before its first colon comes back, and the attribute is accepted: a colon is not a
  token character.
\<close>

theorem rtcp_attr_roundtrip:
  assumes "is_token_str addr"
  shows "sdp_attr_get_rtcp (sdp_attr_create_rtcp (Sock_v4 port addr)) r0 =
      (SDP_SUCCESS, \<lparr>rc_port = ucast port, rc_net_type = ''IN'', rc_addr_type = ''IP4'', rc_addr = addr\<rparr>) \<and>
    sdp_attr_get_rtcp (sdp_attr_create_rtcp (Sock_v6 port (addr @ '':'' @ rest))) r0 =
      (SDP_SUCCESS, \<lparr>rc_port = ucast port, rc_net_type = ''IN'', rc_addr_type = ''IP6'', rc_addr = addr\<rparr>)"
proof -
  have a: "addr \<noteq> []" "\<forall>c \<in> set addr. cs_token c" using assms(1) by (auto simp: is_token_str_def)
  have main: "sdp_attr_get_rtcp \<lparr>at_name = ''rtcp'', at_value = pj_utoa (ucast port) @ '' IN '' @ ty @ '' '' @ addr @ r\<rparr> r0 =
      (SDP_SUCCESS, \<lparr>rc_port = ucast port, rc_net_type = ''IN'', rc_addr_type = ty, rc_addr = addr\<rparr>)"
    if ty: "ty \<noteq> []" "\<forall>c \<in> set ty. cs_token c" and r: "r = [] \<or> \<not> cs_token (hd r)" for ty r
  proof -
    let ?port = "pj_utoa (ucast port :: u32)"
    let ?v = "?port @ '' IN '' @ ty @ '' '' @ addr @ r"
    have port: "?port \<noteq> []" "\<forall>c \<in> set ?port. cs_token c"
      using utoa_digit_str digit_token by auto
    have at0: "at_text (sdp_scanner ?v) (?port @ '' IN '' @ ty @ '' '' @ addr @ r)" and f0: "sc_skip (sdp_scanner ?v) = 1"
      using at_text_init [of 1 ?v "[]"] skip_sp_token [OF port(2,1), of 1] by (simp_all add: sdp_scanner_def)
    have "scans (pj_scan_get cs_token (sdp_scanner ?v)) ?port 1 (''IN'' @ '' '' @ ty @ '' '' @ addr @ r)"
      using get_text [OF at0 port, unfolded f0] by (simp add: skip_sp_1 is_sp_def)
    then obtain sc1 where 1: "pj_scan_get cs_token (sdp_scanner ?v) = Some (?port, sc1)"
        "at_text sc1 (''IN'' @ '' '' @ ty @ '' '' @ addr @ r)" "sc_skip sc1 = 1" by (rule scansE)
    have IN: "''IN'' \<noteq> []" "\<forall>c \<in> set ''IN''. cs_token c" by code_simp+
    have "scans (pj_scan_get cs_token sc1) ''IN'' 1 (ty @ '' '' @ addr @ r)"
      using get_text [OF 1(2) IN] skip_sp_token [OF ty(2,1), of 1] by (simp add: 1(3) skip_sp_1 is_sp_def)
    then obtain sc2 where 2: "pj_scan_get cs_token sc1 = Some (''IN'', sc2)"
        "at_text sc2 (ty @ '' '' @ addr @ r)" "sc_skip sc2 = 1" by (rule scansE)
    have "scans (pj_scan_get cs_token sc2) ty 1 (addr @ r)"
      using get_text [OF 2(2) ty] skip_sp_token [OF a(2,1), of 1] by (simp add: 2(3) skip_sp_1 is_sp_def)
    then obtain sc3 where 3: "pj_scan_get cs_token sc2 = Some (ty, sc3)" "at_text sc3 (addr @ r)" by (rule scansE)
    obtain sc4 where 4: "pj_scan_get cs_token sc3 = Some (addr, sc4)"
      using get_text [OF 3(2) a r] by (rule scansE) simp_all
    show ?thesis
      using 1(1) 2(1) 3(1) 4 at_text_eof [OF 1(2)] by (simp add: sdp_attr_get_rtcp_def)
  qed
  have IP: "\<forall>c \<in> set ''IP4''. cs_token c" "\<forall>c \<in> set ''IP6''. cs_token c" by code_simp+
  from main [of "''IP4''" "[]"] main [of "''IP6''" "'':'' @ rest"] IP show ?thesis by simp
qed

theorem rtcp_attr_roundtrip_witness:
  "sdp_attr_get_rtcp (sdp_attr_create_rtcp (Sock_v6 4001 (''fe80'' @ '':'' @ '':1'')))
      \<lparr>rc_port = 0, rc_net_type = [], rc_addr_type = [], rc_addr = []\<rparr> =
    (SDP_SUCCESS, \<lparr>rc_port = 4001, rc_net_type = ''IN'', rc_addr_type = ''IP6'', rc_addr = ''fe80''\<rparr>)"
proof -
  have "is_token_str ''fe80''" by code_simp
  from rtcp_attr_roundtrip [OF this, of 4001 _ "'':1''"] show ?thesis by simp
qed

end
