(* ===== verification/Sdp_text.thy ===== *)
theory Sdp_text
  imports Sdp
begin

unbundle bit_operations_syntax

text \<open>
  The text of session descriptions: printing (\<open>print_session\<close> and its parts) and parsing
  (\<open>pjmedia_sdp_parse\<close> and the line parsers) of \<open>pjmedia/src/pjmedia/sdp.c\<close>.

  Printing goes into a buffer of a given size.  A printer takes what has been written so far and
  returns whether it succeeded and what has been written then; the write position \<open>p - buf\<close> is the
  length of what has been written.  Nothing keeps it below the size of the buffer but the tests
  the code makes, so a result longer than the buffer is an overflow.
\<close>

section \<open>Printing\<close>

definition crlf :: string where
  "crlf = [CHR 0x0D, CHR 0x0A]"

definition room :: "nat \<Rightarrow> string \<Rightarrow> int" where
  "room cap w = int cap - int (length w)"

text \<open>\<open>snprintf\<close> gets the remaining length as an unsigned number, so a negative one is no limit.\<close>

definition print_connection_info :: "sdp_conn \<Rightarrow> nat \<Rightarrow> string \<Rightarrow> bool \<times> string" where
  "print_connection_info c cap w =
     (let s = ''c='' @ c_str (cn_net_type c) @ '' '' @ c_str (cn_addr_type c) @ '' '' @ c_str (cn_addr c) @ crlf;
          len = room cap w
      in if len < 0 then (False, w @ s @ [CHR 0x00])
         else if int (length s) < 1 \<or> int (length s) > len
         then (False, w @ (if len = 0 then [] else snprintf_stored s (nat len)))
         else (True, w @ snprintf_stored s (nat len)))"

definition print_bandw :: "sdp_bandw \<Rightarrow> nat \<Rightarrow> string \<Rightarrow> bool \<times> string" where
  "print_bandw b cap w =
     (if room cap w < int (length (bw_modifier b)) + 10 + 5 then (False, w)
      else (True, w @ ''b='' @ bw_modifier b @ '':'' @ pj_utoa (bw_value b) @ crlf))"

definition print_attr :: "sdp_attr \<Rightarrow> nat \<Rightarrow> string \<Rightarrow> bool \<times> string" where
  "print_attr a cap w =
     (if room cap w < int (length (at_name a)) + int (length (at_value a)) + 10 then (False, w)
      else (True, w @ ''a='' @ at_name a @
             (if length (at_value a) \<noteq> 0 then '':'' @ at_value a else []) @ crlf))"

text \<open>A printer after another, and over an array: the first failure ends it.\<close>

definition print_then :: "(nat \<Rightarrow> string \<Rightarrow> bool \<times> string) \<Rightarrow> (nat \<Rightarrow> string \<Rightarrow> bool \<times> string) \<Rightarrow>
    nat \<Rightarrow> string \<Rightarrow> bool \<times> string" where
  "print_then p q cap w = (case p cap w of (ok, w') \<Rightarrow> if ok then q cap w' else (False, w'))"

fun print_all :: "('a \<Rightarrow> nat \<Rightarrow> string \<Rightarrow> bool \<times> string) \<Rightarrow> 'a list \<Rightarrow> nat \<Rightarrow> string \<Rightarrow> bool \<times> string" where
  "print_all p [] cap w = (True, w)"
| "print_all p (x # xs) cap w = print_then (p x) (print_all p xs) cap w"

definition print_opt :: "('a \<Rightarrow> nat \<Rightarrow> string \<Rightarrow> bool \<times> string) \<Rightarrow> 'a option \<Rightarrow> nat \<Rightarrow> string \<Rightarrow> bool \<times> string" where
  "print_opt p x cap w = (case x of None \<Rightarrow> (True, w) | Some y \<Rightarrow> p y cap w)"

definition m_line :: "sdp_media \<Rightarrow> string" where
  "m_line m = ''m='' @ md_media m @ '' '' @ pj_utoa (ucast (md_port m)) @
     (if md_port_count m > 1 then ''/'' @ pj_utoa (md_port_count m) else []) @ '' '' @
     md_transport m @ concat (map (\<lambda>f. '' '' @ f) (md_fmt m)) @ crlf"

definition print_media_line :: "sdp_media \<Rightarrow> nat \<Rightarrow> string \<Rightarrow> bool \<times> string" where
  "print_media_line m cap w =
     (if room cap w < int (length (md_media m)) + int (length (md_transport m)) + 12 + 24 then (False, w)
      else (True, w @ m_line m))"

definition print_media_desc :: "sdp_media \<Rightarrow> nat \<Rightarrow> string \<Rightarrow> bool \<times> string" where
  "print_media_desc m =
     print_then (print_media_line m)
       (print_then (print_opt print_connection_info (md_conn m))
         (print_then (print_all print_bandw (md_bandw m)) (print_all print_attr (md_attr m))))"

definition o_line :: "sdp_session \<Rightarrow> string" where
  "o_line s = ''o='' @ or_user s @ '' '' @ pj_utoa (or_id s) @ '' '' @ pj_utoa (or_version s) @ '' '' @
     or_net_type s @ '' '' @ or_addr_type s @ '' '' @ or_addr s @ crlf"

definition print_origin :: "sdp_session \<Rightarrow> nat \<Rightarrow> string \<Rightarrow> bool \<times> string" where
  "print_origin s cap w =
     (if room cap w < 5 + 2 + int (length (or_user s)) + 18 + int (length (or_net_type s)) +
           int (length (or_addr s)) + 2 then (False, w)
      else (True, w @ ''v=0'' @ crlf @ o_line s))"

definition print_name :: "sdp_session \<Rightarrow> nat \<Rightarrow> string \<Rightarrow> bool \<times> string" where
  "print_name s cap w =
     (if room cap w < 8 + int (length (ss_name s)) then (False, w)
      else (True, w @ ''s='' @ ss_name s @ crlf))"

definition print_time :: "sdp_session \<Rightarrow> nat \<Rightarrow> string \<Rightarrow> bool \<times> string" where
  "print_time s cap w =
     (if room cap w < 24 then (False, w)
      else (True, w @ ''t='' @ pj_utoa (ss_time_start s) @ '' '' @ pj_utoa (ss_time_stop s) @ crlf))"

definition print_session :: "sdp_session \<Rightarrow> nat \<Rightarrow> string \<Rightarrow> bool \<times> string" where
  "print_session s =
     print_then (print_origin s)
       (print_then (print_name s)
         (print_then (print_opt print_connection_info (ss_conn s))
           (print_then (print_time s)
             (print_then (print_all print_attr (ss_attr s)) (print_all print_media_desc (ss_media s))))))"

text \<open>The result of \<open>pjmedia_sdp_print\<close> is the length, or -1.\<close>

definition sdp_print :: "sdp_session \<Rightarrow> nat \<Rightarrow> int \<times> string" where
  "sdp_print s cap = (case print_session s cap [] of (ok, w) \<Rightarrow> (if ok then int (length w) else - 1, w))"

section \<open>Parsing\<close>

text \<open>
  A line parser has no result (\<open>None\<close>) when it throws.  The error it leaves in \<open>last_error\<close> is the
  one it sets at its beginning; \<open>parse_line\<close> adds it.  The operations read with a scanner that
  skips no white space, so \<open>SKIP_WS\<close> (0) is \<open>False\<close>.
\<close>

definition eq_sign :: "scanner \<Rightarrow> bool" where
  "eq_sign sc = (sc_at sc (sc_cur sc + 1) = CHR ''='')"

definition parse_version :: "scanner \<Rightarrow> scanner option" where
  "parse_version sc =
     (if \<not> eq_sign sc then None
      else if sc_at sc (sc_cur sc + 2) \<noteq> CHR ''0'' then None
      else Some (pj_scan_skip_line sc))"

text \<open>A field that ends with a space, and the space.\<close>

definition get_field :: "scanner \<Rightarrow> (string \<times> scanner) option" where
  "get_field sc = do {
     (s, sc) \<leftarrow> pj_scan_get_until_ch (CHR '' '') sc;
     (_, sc) \<leftarrow> pj_scan_get_char sc;
     Some (s, sc) }"

definition parse_origin :: "scanner \<Rightarrow> sdp_session \<Rightarrow> (sdp_session \<times> scanner) option" where
  "parse_origin sc s =
     (if \<not> eq_sign sc then None else do {
        sc \<leftarrow> pj_scan_advance_n 2 False sc;
        (user, sc) \<leftarrow> get_field sc;
        (id', sc) \<leftarrow> get_field sc;
        (version, sc) \<leftarrow> get_field sc;
        (net_type, sc) \<leftarrow> get_field sc;
        (addr_type, sc) \<leftarrow> get_field sc;
        (addr, sc) \<leftarrow> pj_scan_get_until_chr [CHR '' '', CHR 0x09, CHR 0x0D, CHR 0x0A] sc;
        Some (s\<lparr>or_user := user, or_id := pj_strtoul id', or_version := pj_strtoul version,
                or_net_type := net_type, or_addr_type := addr_type, or_addr := addr\<rparr>,
              pj_scan_skip_line sc) })"

definition parse_time :: "scanner \<Rightarrow> sdp_session \<Rightarrow> (sdp_session \<times> scanner) option" where
  "parse_time sc s =
     (if \<not> eq_sign sc then None else do {
        sc \<leftarrow> pj_scan_advance_n 2 False sc;
        (start, sc) \<leftarrow> get_field sc;
        (stop, sc) \<leftarrow> pj_scan_get_until_chr [CHR '' '', CHR 0x09, CHR 0x0D, CHR 0x0A] sc;
        Some (s\<lparr>ss_time_start := pj_strtoul start, ss_time_stop := pj_strtoul stop\<rparr>, pj_scan_skip_line sc) })"

definition parse_generic_line :: "scanner \<Rightarrow> (string \<times> scanner) option" where
  "parse_generic_line sc =
     (if \<not> eq_sign sc then None else do {
        sc \<leftarrow> pj_scan_advance_n 2 False sc;
        (str, sc) \<leftarrow> pj_scan_get_until_chr [CHR 0x0D, CHR 0x0A] sc;
        sc \<leftarrow> pj_scan_get_newline sc;
        Some (str, sc) })"

definition parse_connection_info :: "scanner \<Rightarrow> (sdp_conn \<times> scanner) option" where
  "parse_connection_info sc = do {
     sc \<leftarrow> pj_scan_advance_n 2 False sc;
     (net_type, sc) \<leftarrow> get_field sc;
     (addr_type, sc) \<leftarrow> get_field sc;
     (addr, sc) \<leftarrow> pj_scan_get_until_chr [CHR ''/'', CHR '' '', CHR 0x09, CHR 0x0D, CHR 0x0A] sc;
     Some (\<lparr>cn_net_type = net_type, cn_addr_type = addr_type, cn_addr = addr\<rparr>, pj_scan_skip_line sc) }"

text \<open>No operation moves the cursor back, on any memory: the loops of the parser end.\<close>

definition not_back :: "scanner \<Rightarrow> nat \<Rightarrow> scanner \<Rightarrow> bool" where
  "not_back sc n sc' = (sc_mem sc' = sc_mem sc \<and> sc_end sc' = sc_end sc \<and> sc_cur sc + n \<le> sc_cur sc')"

lemma skip_newlines_not_back: "s \<le> fst (skip_newlines xs s line start)"
proof (induction xs arbitrary: s line start rule: length_induct)
  case (1 xs)
  show ?case
  proof (cases xs)
    case (Cons c cs)
    consider (stop) "skip_newlines xs s line start = (s, line, start)"
      | (one) l st where "skip_newlines xs s line start = skip_newlines cs (s + 1) l st"
      | (two) ds l where "cs = CHR 0x0A # ds" "skip_newlines xs s line start = skip_newlines ds (s + 2) l (s + 2)"
      using skip_newlines_step [of c cs s line start] unfolding Cons by blast
    then show ?thesis
    proof cases
      case one
      have "s + 1 \<le> fst (skip_newlines cs (s + 1) l st)" using "1.IH" Cons by simp
      then show ?thesis unfolding one by simp
    next
      case two
      have "s + 2 \<le> fst (skip_newlines ds (s + 2) l (s + 2))" using "1.IH" Cons two(1) by simp
      then show ?thesis unfolding two(2) by simp
    qed simp
  qed simp
qed

lemma skip_whitespace_not_back: "not_back sc 0 (pj_scan_skip_whitespace sc)"
proof -
  obtain s sc' where eq: "skip_ws_lines sc = (s, sc')" by (cases "skip_ws_lines sc") auto
  define a where "a = sc_run is_sp sc (sc_cur sc)"
  have "sc_cur sc \<le> a" unfolding a_def by (rule sc_run_ge)
  moreover have "a \<le> s \<and> sc_end sc' = sc_end sc \<and> sc_mem sc' = sc_mem sc"
    using eq skip_newlines_not_back [of a "drop a (sc_mem sc)" "sc_line sc" "sc_start sc"]
    unfolding skip_ws_lines_def Let_def a_def [symmetric] by (auto split: if_splits prod.splits)
  moreover have "s \<le> sc_cur (skip_ws_header s sc') \<and> sc_end (skip_ws_header s sc') = sc_end sc' \<and>
      sc_mem (skip_ws_header s sc') = sc_mem sc'"
  proof -
    define s1 where "s1 = (if sc_at sc' s = CHR 0x0D then s + 1 else s)"
    define s2 where "s2 = (if sc_at sc' s1 = CHR 0x0A then s1 + 1 else s1)"
    have "s \<le> s2" "s2 + 1 \<le> sc_run is_sp sc' (s2 + 1)"
      using sc_run_ge(1) [of "s2 + 1" is_sp sc'] by (simp_all add: s1_def s2_def)
    then show ?thesis
      unfolding skip_ws_header_def Let_def s1_def [symmetric] s2_def [symmetric] by auto
  qed
  ultimately show ?thesis by (simp add: not_back_def pj_scan_skip_whitespace_def eq)
qed

lemma sc_move_not_back: "sc_cur sc + n \<le> s \<Longrightarrow> not_back sc n (sc_move sc s b)"
  using skip_whitespace_not_back [of "sc\<lparr>sc_cur := s\<rparr>"] by (auto simp: sc_move_def Let_def not_back_def)

lemma not_back_trans: "not_back sc n sc' \<Longrightarrow> not_back sc' m sc'' \<Longrightarrow> not_back sc (n + m) sc''"
  by (auto simp: not_back_def)

lemma not_back_weaken: "not_back sc n sc' \<Longrightarrow> m \<le> n \<Longrightarrow> not_back sc m sc'"
  by (auto simp: not_back_def)

lemma scan_get_not_back: "pj_scan_get spec sc = Some (s, sc') \<Longrightarrow> not_back sc 1 sc'"
  using sc_run_ge(1) [of "sc_cur sc + 1" spec sc]
  by (auto simp: pj_scan_get_def Let_def split: if_splits intro!: sc_move_not_back)

lemma get_char_not_back: "pj_scan_get_char sc = Some (c, sc') \<Longrightarrow> not_back sc 1 sc'"
  by (auto simp: pj_scan_get_char_def split: if_splits intro!: sc_move_not_back)

lemma get_until_not_back: "sc_get_until stop sc = Some (s, sc') \<Longrightarrow> not_back sc 0 sc'"
  using sc_run_ge(2) [of "sc_cur sc" "\<lambda>c. \<not> stop c" sc]
  by (auto simp: sc_get_until_def Let_def split: if_splits intro!: sc_move_not_back)

lemma advance_not_back: "pj_scan_advance_n n b sc = Some sc' \<Longrightarrow> not_back sc n sc'"
  by (auto simp: pj_scan_advance_n_def split: if_splits intro!: sc_move_not_back)

lemma get_newline_not_back: "pj_scan_get_newline sc = Some sc' \<Longrightarrow> not_back sc 0 sc'"
  by (auto simp: pj_scan_get_newline_def Let_def not_back_def split: if_splits)

lemma skip_line_not_back:
  "sc_cur sc < sc_end sc \<Longrightarrow> not_back sc 0 sc1 \<Longrightarrow> not_back sc 1 (pj_scan_skip_line sc1)"
  using sc_run_ge(1) [of "sc_cur sc1" "\<lambda>c. c \<noteq> CHR 0x0A \<and> c \<noteq> CHR 0x00" sc1]
  by (auto simp: pj_scan_skip_line_def Let_def not_back_def)

lemma get_field_not_back: "get_field sc = Some (s, sc') \<Longrightarrow> not_back sc 1 sc'"
  by (auto simp: get_field_def pj_scan_get_until_ch_def bind_eq_Some_conv
      dest!: get_until_not_back get_char_not_back intro: not_back_trans [where n = 0, simplified])

text \<open>The list of formats of a media line: at most \<open>PJMEDIA_MAX_SDP_FMT\<close> are kept.\<close>

function parse_fmts :: "scanner \<Rightarrow> string list \<Rightarrow> (string list \<times> scanner) option" where
  "parse_fmts sc fmts =
     (if sc_at sc (sc_cur sc) = CHR '' '' then
        (case pj_scan_get_char sc of
           None \<Rightarrow> None
         | Some (_, sc1) \<Rightarrow>
             if is_nl (sc_at sc1 (sc_cur sc1)) then Some (fmts, sc1)
             else (case pj_scan_get cs_token sc1 of
                 None \<Rightarrow> None
               | Some (fmt, sc2) \<Rightarrow>
                   parse_fmts sc2 (if length fmts < PJMEDIA_MAX_SDP_FMT then fmts @ [fmt] else fmts)))
      else Some (fmts, sc))"
  by auto
termination
  by (relation "measure (\<lambda>(sc, fmts). length (sc_mem sc) - sc_cur sc)")
    (auto dest!: get_char_not_back scan_get_not_back simp: not_back_def mem_at_def split: if_splits)

declare parse_fmts.simps [simp del]

lemma parse_fmts_not_back: "parse_fmts sc fmts = Some (fs, sc') \<Longrightarrow> not_back sc 0 sc'"
proof (induction sc fmts arbitrary: fs rule: parse_fmts.induct)
  case (1 sc fmts)
  show ?case
  proof (cases "sc_at sc (sc_cur sc) = CHR '' ''")
    case False
    then show ?thesis using "1.prems" by (simp add: parse_fmts.simps [of sc] not_back_def)
  next
    case True
    then obtain c sc1 where 1: "pj_scan_get_char sc = Some (c, sc1)"
      using "1.prems" by (auto simp: parse_fmts.simps [of sc] split: option.splits)
    show ?thesis
    proof (cases "is_nl (sc_at sc1 (sc_cur sc1))")
      case nl: True
      then show ?thesis
        using "1.prems" True 1 get_char_not_back [OF 1] by (auto simp: parse_fmts.simps [of sc] not_back_def)
    next
      case False
      then obtain fmt sc2 where 2: "pj_scan_get cs_token sc1 = Some (fmt, sc2)"
          "parse_fmts sc2 (if length fmts < PJMEDIA_MAX_SDP_FMT then fmts @ [fmt] else fmts) = Some (fs, sc')"
        using "1.prems" True 1 by (auto simp: parse_fmts.simps [of sc] split: option.splits)
      have "not_back sc2 0 sc'" using "1.IH" [OF True 1 refl False 2(1) refl 2(2)] .
      with get_char_not_back [OF 1] scan_get_not_back [OF 2(1)] show ?thesis by (auto simp: not_back_def)
    qed
  qed
qed

text \<open>The port and, behind a slash, the number of ports.\<close>

definition parse_ports :: "scanner \<Rightarrow> (u16 \<times> u32 \<times> scanner) option" where
  "parse_ports sc = do {
     (str, sc) \<leftarrow> pj_scan_get cs_token sc;
     let port = ucast (pj_strtoul str);
     if sc_at sc (sc_cur sc) = CHR ''/'' then do {
       (_, sc) \<leftarrow> pj_scan_get_char sc;
       (str, sc) \<leftarrow> pj_scan_get cs_token sc;
       Some (port, pj_strtoul str, sc) }
     else Some (port, 0, sc) }"

definition new_media :: sdp_media where
  "new_media = \<lparr>md_media = [], md_port = 0, md_port_count = 0, md_transport = [], md_fmt = [], md_conn = None,
     md_bandw = [], md_attr = []\<rparr>"

definition parse_media :: "scanner \<Rightarrow> (sdp_media \<times> scanner) option" where
  "parse_media sc =
     (if \<not> eq_sign sc then None else do {
        sc \<leftarrow> pj_scan_advance_n 2 False sc;
        (media, sc) \<leftarrow> get_field sc;
        (port, count, sc) \<leftarrow> parse_ports sc;
        (c, sc) \<leftarrow> pj_scan_get_char sc;
        if c \<noteq> CHR '' '' then None else do {
          (transport, sc) \<leftarrow> pj_scan_get_until_chr [CHR '' '', CHR 0x09, CHR 0x0D, CHR 0x0A] sc;
          (fmts, sc) \<leftarrow> parse_fmts sc [];
          Some (new_media\<lparr>md_media := media, md_port := port, md_port_count := count,
                  md_transport := transport, md_fmt := fmts\<rparr>, pj_scan_skip_line sc) } })"

definition parse_attr_value :: "scanner \<Rightarrow> (string \<times> scanner) option" where
  "parse_attr_value sc =
     (if sc_at sc (sc_cur sc) \<noteq> CHR 0x00 \<and> \<not> is_nl (sc_at sc (sc_cur sc)) then do {
        sc \<leftarrow> (if sc_at sc (sc_cur sc) = CHR '':'' then map_option snd (pj_scan_get_char sc) else Some sc);
        if \<not> is_nl (sc_at sc (sc_cur sc)) then pj_scan_get_until_chr [CHR 0x0D, CHR 0x0A] sc
        else Some ([], sc) }
      else Some ([], sc))"

definition parse_attr :: "scanner \<Rightarrow> (sdp_attr \<times> scanner) option" where
  "parse_attr sc =
     (if \<not> eq_sign sc then None else do {
        sc \<leftarrow> pj_scan_advance_n 2 False sc;
        (name, sc) \<leftarrow> pj_scan_get cs_token sc;
        (val, sc) \<leftarrow> parse_attr_value sc;
        Some (\<lparr>at_name = name, at_value = val\<rparr>, pj_scan_skip_line sc) })"

text \<open>
  The state of \<open>pjmedia_sdp_parse\<close>: the session, and where \<open>media\<close> points to: nowhere, to the last media
  line of the session, or to a media line that did not fit into the session and is lost.
\<close>

datatype media_ptr = No_media | Last_media | Lost_media

record sdp_parse =
  ps_session :: sdp_session
  ps_media :: media_ptr

definition map_last :: "('a \<Rightarrow> 'a) \<Rightarrow> 'a list \<Rightarrow> 'a list" where
  "map_last f xs = (if xs = [] then [] else butlast xs @ [f (last xs)])"

definition upd_last_media :: "(sdp_media \<Rightarrow> sdp_media) \<Rightarrow> sdp_session \<Rightarrow> sdp_session" where
  "upd_last_media f s = s\<lparr>ss_media := map_last f (ss_media s)\<rparr>"

definition store_attr :: "sdp_attr \<Rightarrow> sdp_parse \<Rightarrow> sdp_parse" where
  "store_attr a st = (case ps_media st of
     No_media \<Rightarrow> st\<lparr>ps_session := sdp_session_add_attr (ps_session st) a\<rparr>
   | Last_media \<Rightarrow> st\<lparr>ps_session := upd_last_media (\<lambda>m. sdp_media_add_attr m a) (ps_session st)\<rparr>
   | Lost_media \<Rightarrow> st)"

definition store_conn :: "sdp_conn \<Rightarrow> sdp_parse \<Rightarrow> sdp_parse" where
  "store_conn c st = (case ps_media st of
     No_media \<Rightarrow> st\<lparr>ps_session := (ps_session st)\<lparr>ss_conn := Some c\<rparr>\<rparr>
   | Last_media \<Rightarrow> st\<lparr>ps_session := upd_last_media (\<lambda>m. m\<lparr>md_conn := Some c\<rparr>) (ps_session st)\<rparr>
   | Lost_media \<Rightarrow> st)"

definition store_media :: "sdp_media \<Rightarrow> sdp_parse \<Rightarrow> sdp_parse" where
  "store_media m st =
     (if length (ss_media (ps_session st)) < PJMEDIA_MAX_SDP_MEDIA
      then st\<lparr>ps_session := (ps_session st)\<lparr>ss_media := ss_media (ps_session st) @ [m]\<rparr>, ps_media := Last_media\<rparr>
      else st\<lparr>ps_media := Lost_media\<rparr>)"

text \<open>Newlines at the end of the message: nothing but newlines may follow the first.\<close>

definition parse_empty_lines :: "scanner \<Rightarrow> scanner option" where
  "parse_empty_lines sc =
     (let s = sc_run_eof is_nl sc (sc_cur sc + 1)
      in if s < sc_end sc then None else Some (sc\<lparr>sc_cur := s\<rparr>))"

definition or_error :: "sdp_status \<Rightarrow> 'a option \<Rightarrow> sdp_status + 'a" where
  "or_error e x = (case x of None \<Rightarrow> Inl e | Some v \<Rightarrow> Inr v)"

definition parse_line :: "scanner \<Rightarrow> sdp_parse \<Rightarrow> sdp_status + (sdp_parse \<times> scanner)" where
  "parse_line sc st =
     (let c = sc_at sc (sc_cur sc); s = ps_session st
      in if c = CHR ''a'' then
           or_error PJMEDIA_SDP_EINATTR (map_option (map_prod (\<lambda>a. store_attr a st) id) (parse_attr sc))
         else if c = CHR ''o'' then
           or_error PJMEDIA_SDP_EINORIGIN (map_option (map_prod (\<lambda>s. st\<lparr>ps_session := s\<rparr>) id) (parse_origin sc s))
         else if c = CHR ''s'' then
           or_error PJMEDIA_SDP_EINSDP
             (map_option (map_prod (\<lambda>n. st\<lparr>ps_session := s\<lparr>ss_name := n\<rparr>\<rparr>) id) (parse_generic_line sc))
         else if c = CHR ''c'' then
           or_error PJMEDIA_SDP_EINCONN (map_option (map_prod (\<lambda>c. store_conn c st) id) (parse_connection_info sc))
         else if c = CHR ''t'' then
           or_error PJMEDIA_SDP_EINTIME (map_option (map_prod (\<lambda>s. st\<lparr>ps_session := s\<rparr>) id) (parse_time sc s))
         else if c = CHR ''m'' then
           or_error PJMEDIA_SDP_EINMEDIA (map_option (map_prod (\<lambda>m. store_media m st) id) (parse_media sc))
         else if c = CHR ''v'' then
           or_error PJMEDIA_SDP_EINVER (map_option (\<lambda>sc. (st, sc)) (parse_version sc))
         else if is_nl c then
           or_error PJMEDIA_SDP_EINSDP (map_option (\<lambda>sc. (st, sc)) (parse_empty_lines sc))
         else if 97 \<le> (of_char c :: nat) \<and> (of_char c :: nat) \<le> 122 then
           or_error PJMEDIA_SDP_EINSDP (map_option (map_prod (\<lambda>_. st) id) (parse_generic_line sc))
         else Inl PJMEDIA_SDP_EINSDP)"

text \<open>Every line moves the cursor.\<close>

lemmas not_back_ops = get_until_not_back get_char_not_back scan_get_not_back advance_not_back
  get_newline_not_back get_field_not_back parse_fmts_not_back

lemma parse_ports_not_back: "parse_ports sc = Some (p, n, sc') \<Longrightarrow> not_back sc 0 sc'"
  by (auto simp: parse_ports_def Let_def bind_eq_Some_conv not_back_def split: if_splits dest!: not_back_ops)

lemma parse_attr_value_not_back: "parse_attr_value sc = Some (v, sc') \<Longrightarrow> not_back sc 0 sc'"
  by (auto simp: parse_attr_value_def pj_scan_get_until_chr_def bind_eq_Some_conv not_back_def
      split: if_splits dest!: not_back_ops)

lemma parse_lines_not_back:
  "parse_version sc = Some sc' \<Longrightarrow> sc_cur sc < sc_end sc \<Longrightarrow> not_back sc 1 sc'"
  "parse_origin sc s = Some (s', sc') \<Longrightarrow> sc_cur sc < sc_end sc \<Longrightarrow> not_back sc 1 sc'"
  "parse_time sc s = Some (s', sc') \<Longrightarrow> sc_cur sc < sc_end sc \<Longrightarrow> not_back sc 1 sc'"
  "parse_generic_line sc = Some (str, sc') \<Longrightarrow> not_back sc 1 sc'"
  "parse_connection_info sc = Some (c, sc') \<Longrightarrow> sc_cur sc < sc_end sc \<Longrightarrow> not_back sc 1 sc'"
  "parse_media sc = Some (m, sc') \<Longrightarrow> sc_cur sc < sc_end sc \<Longrightarrow> not_back sc 1 sc'"
  "parse_attr sc = Some (a, sc') \<Longrightarrow> sc_cur sc < sc_end sc \<Longrightarrow> not_back sc 1 sc'"
  "parse_empty_lines sc = Some sc' \<Longrightarrow> not_back sc 1 sc'"
proof -
  note ops = not_back_ops [unfolded not_back_def] parse_ports_not_back [unfolded not_back_def]
    parse_attr_value_not_back [unfolded not_back_def]
  have line: "not_back sc (Suc 0) (pj_scan_skip_line sc1)"
    if "sc_cur sc < sc_end sc" "sc_mem sc1 = sc_mem sc" "sc_end sc1 = sc_end sc" "sc_cur sc \<le> sc_cur sc1" for sc1
    using that by (intro skip_line_not_back [unfolded One_nat_def]) (simp_all add: not_back_def)
  show "parse_version sc = Some sc' \<Longrightarrow> sc_cur sc < sc_end sc \<Longrightarrow> not_back sc 1 sc'"
    by (auto simp: parse_version_def intro: line split: if_splits)
  show "parse_origin sc s = Some (s', sc') \<Longrightarrow> sc_cur sc < sc_end sc \<Longrightarrow> not_back sc 1 sc'"
    by (auto simp: parse_origin_def pj_scan_get_until_chr_def bind_eq_Some_conv split: if_splits
        intro!: line dest!: ops)
  show "parse_time sc s = Some (s', sc') \<Longrightarrow> sc_cur sc < sc_end sc \<Longrightarrow> not_back sc 1 sc'"
    by (auto simp: parse_time_def pj_scan_get_until_chr_def bind_eq_Some_conv split: if_splits
        intro!: line dest!: ops)
  show "parse_generic_line sc = Some (str, sc') \<Longrightarrow> not_back sc 1 sc'"
    by (auto simp: parse_generic_line_def pj_scan_get_until_chr_def bind_eq_Some_conv not_back_def split: if_splits
        dest!: ops)
  show "parse_connection_info sc = Some (c, sc') \<Longrightarrow> sc_cur sc < sc_end sc \<Longrightarrow> not_back sc 1 sc'"
    by (auto simp: parse_connection_info_def pj_scan_get_until_chr_def bind_eq_Some_conv split: if_splits
        intro!: line dest!: ops)
  show "parse_media sc = Some (m, sc') \<Longrightarrow> sc_cur sc < sc_end sc \<Longrightarrow> not_back sc 1 sc'"
    by (auto simp: parse_media_def pj_scan_get_until_chr_def bind_eq_Some_conv split: if_splits
        intro!: line dest!: ops)
  show "parse_attr sc = Some (a, sc') \<Longrightarrow> sc_cur sc < sc_end sc \<Longrightarrow> not_back sc 1 sc'"
    by (auto simp: parse_attr_def bind_eq_Some_conv split: if_splits intro!: line dest!: ops)
  show "parse_empty_lines sc = Some sc' \<Longrightarrow> not_back sc 1 sc'"
    using sc_run_ge(2) [of "sc_cur sc + 1" is_nl sc]
    by (auto simp: parse_empty_lines_def Let_def not_back_def split: if_splits)
qed

lemma or_error_Inr: "or_error e x = Inr v \<Longrightarrow> x = Some v"
  by (auto simp: or_error_def split: option.splits)

lemma parse_line_not_back:
  assumes "parse_line sc st = Inr (st', sc')" "sc_cur sc < sc_end sc"
  shows "not_back sc 1 sc'"
  using assms
  by (auto simp: parse_line_def Let_def split: if_splits dest!: or_error_Inr intro: parse_lines_not_back [unfolded One_nat_def])

function parse_lines :: "scanner \<Rightarrow> sdp_parse \<Rightarrow> sdp_status + sdp_parse" where
  "parse_lines sc st =
     (if pj_scan_is_eof sc then Inr st
      else case parse_line sc st of
        Inl e \<Rightarrow> Inl e
      | Inr (st', sc') \<Rightarrow> parse_lines sc' st')"
  by auto
termination
  by (relation "measure (\<lambda>(sc, st). sc_end sc - sc_cur sc)")
    (auto simp: pj_scan_is_eof_def not_back_def dest!: parse_line_not_back)

declare parse_lines.simps [simp del]

definition is_dir_name :: "string \<Rightarrow> bool" where
  "is_dir_name n = (n = ''sendonly'' \<or> n = ''recvonly'' \<or> n = ''inactive'')"

fun first_index :: "('a \<Rightarrow> bool) \<Rightarrow> 'a list \<Rightarrow> nat option" where
  "first_index p [] = None"
| "first_index p (x # xs) = (if p x then Some 0 else map_option Suc (first_index p xs))"

definition apply_media_direction :: "sdp_session \<Rightarrow> sdp_session" where
  "apply_media_direction s =
     (case first_index (\<lambda>a. is_dir_name (at_name a)) (ss_attr s) of
        None \<Rightarrow> s
      | Some i \<Rightarrow>
          (let dir = ss_attr s ! i
           in s\<lparr>ss_attr := snd (sdp_attr_remove (ss_attr s) i),
                ss_media := map (\<lambda>m.
                  if \<exists>a \<in> set (md_attr m). at_name a = ''sendrecv'' \<or> is_dir_name (at_name a) then m
                  else sdp_media_add_attr m dir) (ss_media s)\<rparr>))"

definition new_session :: sdp_session where
  "new_session = \<lparr>or_user = [], or_id = 0, or_version = 0, or_net_type = [], or_addr_type = [], or_addr = [],
     ss_name = [], ss_conn = None, ss_time_start = 0, ss_time_stop = 0, ss_attr = [], ss_media = []\<rparr>"

text \<open>The text is followed by a 0 in memory.  Leading newlines are ignored.\<close>

definition sdp_parse :: "string \<Rightarrow> sdp_status + sdp_session" where
  "sdp_parse buf =
     (let sc = pj_scan_init (buf @ [CHR 0x00]) (length buf) 0;
          sc = sc\<lparr>sc_cur := sc_run is_nl sc (sc_cur sc)\<rparr>
      in case parse_lines sc \<lparr>ps_session = new_session, ps_media = No_media\<rparr> of
           Inl e \<Rightarrow> Inl e
         | Inr st \<Rightarrow> Inr (apply_media_direction (ps_session st)))"

section \<open>Printing stays in its buffer\<close>

definition in_cap :: "(nat \<Rightarrow> string \<Rightarrow> bool \<times> string) \<Rightarrow> bool" where
  "in_cap p = (\<forall>cap w. length w \<le> cap \<longrightarrow> length (snd (p cap w)) \<le> cap)"

lemma in_cap_then [intro]: "in_cap p \<Longrightarrow> in_cap q \<Longrightarrow> in_cap (print_then p q)"
  by (auto simp: in_cap_def print_then_def split: prod.splits) (metis snd_conv)+

lemma in_cap_all [intro]: "(\<And>x. x \<in> set xs \<Longrightarrow> in_cap (p x)) \<Longrightarrow> in_cap (print_all p xs)"
proof (induction xs)
  case Nil
  then show ?case by (simp add: in_cap_def)
next
  case (Cons x xs)
  have "print_all p (x # xs) = print_then (p x) (print_all p xs)" by (simp add: fun_eq_iff)
  then show ?case using Cons by auto
qed

lemma in_cap_opt [intro]: "(\<And>y. x = Some y \<Longrightarrow> in_cap (p y)) \<Longrightarrow> in_cap (print_opt p x)"
  by (cases x) (auto simp: in_cap_def print_opt_def)

lemma in_cap_conn [intro]: "in_cap (print_connection_info c)"
  by (auto simp: in_cap_def print_connection_info_def Let_def room_def snprintf_stored_def)

lemma in_cap_attr [intro]: "in_cap (print_attr a)"
  by (auto simp: in_cap_def print_attr_def room_def crlf_def)

lemma in_cap_bandw [intro]: "in_cap (print_bandw b)"
proof -
  have "length (pj_utoa (bw_value b)) \<le> 10" by (rule pj_utoa_length10)
  then show ?thesis by (auto simp: in_cap_def print_bandw_def room_def crlf_def)
qed

lemma in_cap_name [intro]: "in_cap (print_name s)"
  by (auto simp: in_cap_def print_name_def room_def crlf_def)

text \<open>The numbers of a media line, of the origin and of the time are short enough.\<close>

definition m_short :: "sdp_media \<Rightarrow> bool" where
  "m_short m = ((if md_port_count m > 1 then 1 + length (pj_utoa (md_port_count m)) else 0) +
     sum_list (map (\<lambda>f. 1 + length f) (md_fmt m)) \<le> 14)"

definition print_short :: "sdp_session \<Rightarrow> bool" where
  "print_short s =
     (length (pj_utoa (or_id s)) + length (pj_utoa (or_version s)) + length (or_addr_type s) \<le> 13 \<and>
      length (pj_utoa (ss_time_start s)) + length (pj_utoa (ss_time_stop s)) \<le> 19 \<and>
      (\<forall>m \<in> set (ss_media s). m_short m))"

lemma length_concat_fmts: "length (concat (map ((#) c) fs)) = sum_list (map (\<lambda>f. Suc (length f)) fs)"
  by (induction fs) auto

lemma in_cap_media_line: "m_short m \<Longrightarrow> in_cap (print_media_line m)"
proof -
  assume m: "m_short m"
  have "unat (ucast (md_port m) :: u32) < 10 ^ 5"
    using unsigned_less [of "md_port m", where 'a = nat] by (simp add: unsigned_ucast_eq) (rule le_less_trans [OF take_bit_nat_less_eq_self], simp)
  then have "length (pj_utoa (ucast (md_port m))) \<le> 5" by (intro pj_utoa_length) simp_all
  with m have "length (m_line m) \<le> length (md_media m) + length (md_transport m) + 36"
    by (auto simp: m_short_def m_line_def crlf_def length_concat_fmts)
  then show ?thesis by (auto simp: in_cap_def print_media_line_def room_def)
qed

lemma in_cap_media: "m_short m \<Longrightarrow> in_cap (print_media_desc m)"
  unfolding print_media_desc_def by (intro in_cap_then in_cap_opt in_cap_all in_cap_media_line in_cap_conn
      in_cap_attr in_cap_bandw)

text \<open>
  C35: Printing a session whose numbers and format lists are short never writes behind the end of
  the buffer, whether it succeeds or not: at most 13 characters for the session id, its version
  and the address type together, 19 for the two times, and 14 for the formats of each media
  line with their spaces and the number of ports.
\<close>

theorem sdp_print_in_bounds:
  assumes "print_short s"
  shows "length (snd (sdp_print s cap)) \<le> cap \<and> fst (sdp_print s cap) \<le> int cap"
proof -
  have "in_cap (print_origin s)"
    using assms by (auto simp: print_short_def in_cap_def print_origin_def room_def o_line_def crlf_def)
  moreover have "in_cap (print_time s)"
    using assms by (auto simp: print_short_def in_cap_def print_time_def room_def crlf_def)
  moreover have "in_cap (print_all print_media_desc (ss_media s))"
    using assms in_cap_media by (intro in_cap_all) (simp add: print_short_def)
  ultimately have "in_cap (print_session s)"
    unfolding print_session_def
    by (intro in_cap_then in_cap_opt in_cap_name in_cap_conn in_cap_all [OF in_cap_attr])
  then have "length (snd (print_session s cap [])) \<le> cap" by (simp add: in_cap_def)
  then show ?thesis by (auto simp: sdp_print_def split: prod.splits)
qed

definition sample_session :: "u32 \<Rightarrow> string list \<Rightarrow> sdp_session" where
  "sample_session n fmts =
     new_session\<lparr>or_user := ''-'', or_id := n, or_version := n, or_net_type := ''IN'', or_addr_type := ''IP4'',
       or_addr := ''10.0.0.1'', ss_name := ''pjmedia'',
       ss_conn := Some \<lparr>cn_net_type = ''IN'', cn_addr_type = ''IP4'', cn_addr = ''10.0.0.1''\<rparr>,
       ss_media := [new_media\<lparr>md_media := ''audio'', md_port := 4000, md_transport := ''RTP/AVP'', md_fmt := fmts\<rparr>]\<rparr>"

theorem sdp_print_in_bounds_witness:
  "length (snd (sdp_print (sample_session 1 [''0'', ''8'', ''18'']) 100)) \<le> 100"
proof -
  have "print_short (sample_session 1 [''0'', ''8'', ''18''])" by code_simp
  from sdp_print_in_bounds [OF this] show ?thesis by simp
qed

definition long_fmts :: "string list" where
  "long_fmts = [''0'', ''1'', ''2'', ''3'', ''4'', ''5'', ''6'', ''7'', ''8'', ''9'',
     ''10'', ''11'', ''12'', ''13'', ''14'', ''15'', ''16'', ''17'', ''18'']"

text \<open>
  Beyond these lengths it does: a valid session with 19 static formats, printed into a buffer
  of 115 bytes, is reported as printed with 136 bytes; with session ids made from the clock, the
  origin line alone writes 10 bytes behind the end of a buffer of 38 bytes.
\<close>

theorem sdp_print_overruns:
  "sdp_validate (sample_session 1 long_fmts) = SDP_SUCCESS \<and>
   fst (sdp_print (sample_session 1 long_fmts) 115) = 136 \<and>
   sdp_validate (sample_session 3780000000 [''0'']) = SDP_SUCCESS \<and>
   sdp_print (sample_session 3780000000 [''0'']) 38 =
     (- 1, ''v=0'' @ crlf @ o_line (sample_session 3780000000 [''0''])) \<and>
   length (''v=0'' @ crlf @ o_line (sample_session 3780000000 [''0''])) = 48"
  by code_simp

end
