(* ===== verification/Sdp_roundtrip.thy ===== *)
theory Sdp_roundtrip
  imports Sdp_text
begin

text \<open>
  Parsing undoes printing: \<open>sdp_text s\<close> is the text of a session, \<open>prints p t\<close> says that a printer
  writes \<open>t\<close> when there is room, \<open>reads st t st'\<close> that the parser, in the state \<open>st\<close> before the
  text \<open>t\<close>, goes to the state \<open>st'\<close> behind it.  Both are closed under concatenation, so the round
  trip is proved line by line.
\<close>

section \<open>What is printed\<close>

definition prints :: "(nat \<Rightarrow> string \<Rightarrow> bool \<times> string) \<Rightarrow> string \<Rightarrow> bool" where
  "prints p t = (\<forall>cap w. length w + length t + 36 \<le> cap \<longrightarrow> p cap w = (True, w @ t))"

lemma prints_then [intro]: "prints p t \<Longrightarrow> prints q u \<Longrightarrow> prints (print_then p q) (t @ u)"
  by (simp add: prints_def print_then_def)

lemma prints_all [intro]: "(\<And>x. x \<in> set xs \<Longrightarrow> prints (p x) (f x)) \<Longrightarrow> prints (print_all p xs) (concat (map f xs))"
proof (induction xs)
  case Nil
  then show ?case by (simp add: prints_def)
next
  case (Cons x xs)
  have "print_all p (x # xs) = print_then (p x) (print_all p xs)" by (simp add: fun_eq_iff)
  then show ?case using Cons by auto
qed

definition c_line :: "sdp_conn \<Rightarrow> string" where
  "c_line c = ''c='' @ cn_net_type c @ '' '' @ cn_addr_type c @ '' '' @ cn_addr c @ crlf"

definition b_line :: "sdp_bandw \<Rightarrow> string" where
  "b_line b = ''b='' @ bw_modifier b @ '':'' @ pj_utoa (bw_value b) @ crlf"

definition a_line :: "sdp_attr \<Rightarrow> string" where
  "a_line a = ''a='' @ at_name a @ (if at_value a = [] then [] else '':'' @ at_value a) @ crlf"

definition opt_line :: "('a \<Rightarrow> string) \<Rightarrow> 'a option \<Rightarrow> string" where
  "opt_line f x = (case x of None \<Rightarrow> [] | Some y \<Rightarrow> f y)"

definition media_text :: "sdp_media \<Rightarrow> string" where
  "media_text m = m_line m @ opt_line c_line (md_conn m) @ concat (map b_line (md_bandw m)) @
     concat (map a_line (md_attr m))"

definition s_line :: "sdp_session \<Rightarrow> string" where
  "s_line s = ''s='' @ ss_name s @ crlf"

definition t_line :: "sdp_session \<Rightarrow> string" where
  "t_line s = ''t='' @ pj_utoa (ss_time_start s) @ '' '' @ pj_utoa (ss_time_stop s) @ crlf"

definition sdp_text :: "sdp_session \<Rightarrow> string" where
  "sdp_text s = (''v=0'' @ crlf @ o_line s) @ s_line s @ opt_line c_line (ss_conn s) @ t_line s @
     concat (map a_line (ss_attr s)) @ concat (map media_text (ss_media s))"

text \<open>The characters that end the fields of a line do not occur in them.\<close>

definition without :: "string \<Rightarrow> string \<Rightarrow> bool" where
  "without cs s = (set cs \<inter> set s = {})"

definition sp_eol :: string where
  "sp_eol = [CHR '' '', CHR 0x09, CHR 0x0D, CHR 0x0A]"

definition eol :: string where
  "eol = [CHR 0x0D, CHR 0x0A]"

definition conn_ok :: "sdp_conn \<Rightarrow> bool" where
  "conn_ok c = (without ('' '' @ [CHR 0x00]) (cn_net_type c) \<and> without ('' '' @ [CHR 0x00]) (cn_addr_type c) \<and>
     without (''/'' @ sp_eol @ [CHR 0x00]) (cn_addr c))"

definition attr_ok :: "sdp_attr \<Rightarrow> bool" where
  "attr_ok a = (is_token_str (at_name a) \<and> without eol (at_value a))"

definition media_ok :: "sdp_media \<Rightarrow> bool" where
  "media_ok m = (without '' '' (md_media m) \<and> md_port_count m \<noteq> 1 \<and> without sp_eol (md_transport m) \<and>
     (\<forall>f \<in> set (md_fmt m). is_token_str f) \<and> length (md_fmt m) \<le> PJMEDIA_MAX_SDP_FMT \<and>
     pred_option conn_ok (md_conn m) \<and> (\<forall>b \<in> set (md_bandw m). without eol (bw_modifier b)) \<and>
     (\<forall>a \<in> set (md_attr m). attr_ok a) \<and> length (md_attr m) \<le> PJMEDIA_MAX_SDP_ATTR)"

definition session_ok :: "sdp_session \<Rightarrow> bool" where
  "session_ok s = (without '' '' (or_user s) \<and> without '' '' (or_net_type s) \<and> without '' '' (or_addr_type s) \<and>
     without sp_eol (or_addr s) \<and> without eol (ss_name s) \<and> pred_option conn_ok (ss_conn s) \<and>
     (\<forall>a \<in> set (ss_attr s). attr_ok a) \<and> length (ss_attr s) \<le> PJMEDIA_MAX_SDP_ATTR \<and>
     (\<forall>m \<in> set (ss_media s). media_ok m) \<and> length (ss_media s) \<le> PJMEDIA_MAX_SDP_MEDIA)"

lemma c_str_without: "without cs s \<Longrightarrow> CHR 0x00 \<in> set cs \<Longrightarrow> c_str s = s"
  by (auto simp: without_def c_str_def takeWhile_eq_all_conv)

lemma prints_conn: "conn_ok c \<Longrightarrow> prints (print_connection_info c) (c_line c)"
  by (auto simp: prints_def print_connection_info_def Let_def room_def snprintf_stored_def conn_ok_def
      c_str_without c_line_def)

lemma prints_opt_conn: "pred_option conn_ok c \<Longrightarrow> prints (print_opt print_connection_info c) (opt_line c_line c)"
  using prints_conn by (cases c) (auto simp: prints_def print_opt_def opt_line_def)

lemma prints_bandw: "prints (print_bandw b) (b_line b)"
  by (auto simp: prints_def print_bandw_def room_def b_line_def)

lemma prints_attr: "prints (print_attr a) (a_line a)"
  by (auto simp: prints_def print_attr_def room_def a_line_def)

lemma prints_media_line: "prints (print_media_line m) (m_line m)"
  by (auto simp: prints_def print_media_line_def room_def m_line_def crlf_def)

lemma prints_media: "media_ok m \<Longrightarrow> prints (print_media_desc m) (media_text m)"
  unfolding print_media_desc_def media_text_def
  by (intro prints_then prints_media_line prints_opt_conn prints_all prints_bandw prints_attr)
    (simp add: media_ok_def)

lemma prints_session:
  assumes "session_ok s"
  shows "prints (print_session s) (sdp_text s)"
proof -
  have "prints (print_origin s) (''v=0'' @ crlf @ o_line s)"
    by (auto simp: prints_def print_origin_def room_def o_line_def crlf_def)
  moreover have "prints (print_name s) (s_line s)"
    by (auto simp: prints_def print_name_def room_def s_line_def crlf_def)
  moreover have "prints (print_time s) (t_line s)"
    by (auto simp: prints_def print_time_def room_def t_line_def crlf_def)
  moreover have "prints (print_all print_media_desc (ss_media s)) (concat (map media_text (ss_media s)))"
    using assms by (intro prints_all prints_media) (simp add: session_ok_def)
  moreover have "prints (print_opt print_connection_info (ss_conn s)) (opt_line c_line (ss_conn s))"
    using assms by (intro prints_opt_conn) (simp add: session_ok_def)
  ultimately show ?thesis
    unfolding print_session_def sdp_text_def by (intro prints_then prints_all [OF prints_attr])
qed

section \<open>What is read\<close>

lemma get_field_text:
  assumes at: "at_text sc (t @ CHR '' '' # r)" and f: "sc_skip sc = 0" and t: "CHR '' '' \<notin> set t"
  shows "scans (get_field sc) t 0 r"
proof -
  obtain sc1 where 1: "pj_scan_get_until_ch (CHR '' '') sc = Some (t, sc1)" "at_text sc1 (CHR '' '' # r)" "sc_skip sc1 = 0"
    using get_until_ch_text [OF at t] by (auto simp: f elim!: scansE)
  obtain sc2 where "pj_scan_get_char sc1 = Some (CHR '' '', sc2)" "at_text sc2 r" "sc_skip sc2 = 0"
    using get_char_text [OF 1(2)] by (auto simp: 1(3) elim!: scansE)
  with 1(1) show ?thesis by (simp add: get_field_def scans_def)
qed

lemma skip_crlf:
  assumes "at_text sc (crlf @ r)" "sc_skip sc = 0"
  shows "at_text (pj_scan_skip_line sc) r" "sc_skip (pj_scan_skip_line sc) = 0"
  using skip_line_text [of sc "[CHR 0x0D]" r] assms by (simp_all add: crlf_def)

lemma until_eol_text:
  assumes "at_text sc (t @ crlf @ r)" "sc_skip sc = 0" "CHR 0x0D \<in> set cs" "without cs t"
  shows "scans (pj_scan_get_until_chr cs sc) t 0 (crlf @ r)"
  using get_until_chr_text [of sc t "CHR 0x0D" "CHR 0x0A # r" cs] assms
  by (auto simp: crlf_def without_def)

text \<open>The first two characters of a line are read in place.\<close>

lemma line_start:
  assumes "at_text sc (x # CHR ''='' # r)" "sc_skip sc = 0"
  shows "sc_at sc (sc_cur sc) = x" "eq_sign sc"
    "\<exists>sc'. pj_scan_advance_n 2 False sc = Some sc' \<and> at_text sc' r \<and> sc_skip sc' = 0"
  using at_text_hd [OF assms(1)] at_text_nth [OF assms(1), of 1] advance_text [of sc "[x, CHR ''='']" r 2] assms
  by (simp_all add: mem_at_def eq_sign_def)

lemma without_subset: "without cs t \<Longrightarrow> set ds \<subseteq> set cs \<Longrightarrow> without ds t"
  by (auto simp: without_def)

lemma without_mem: "without cs t \<Longrightarrow> c \<in> set cs \<Longrightarrow> c \<notin> set t"
  by (auto simp: without_def)

lemma without_utoa: "without sp_eol (pj_utoa v)" "CHR '' '' \<notin> set (pj_utoa v)"
  by (auto simp: without_def sp_eol_def pj_isdigit_def dest!: pj_utoa_isdigit)

lemma parse_version_text:
  assumes at: "at_text sc (''v=0'' @ crlf @ r)" and f: "sc_skip sc = 0"
  shows "\<exists>sc'. parse_version sc = Some sc' \<and> at_text sc' r \<and> sc_skip sc' = 0"
proof -
  have at': "at_text sc (CHR ''v'' # CHR ''='' # ''0'' @ crlf @ r)" using at by simp
  have "sc_at sc (sc_cur sc + 2) = CHR ''0''" using at_text_nth [OF at, of 2] by (simp add: mem_at_def)
  moreover have "at_text sc (''v=0'' @ [CHR 0x0D] @ CHR 0x0A # r)" using at by (simp add: crlf_def)
  then have "at_text (pj_scan_skip_line sc) r" "sc_skip (pj_scan_skip_line sc) = 0"
    using skip_line_text [of sc "''v=0'' @ [CHR 0x0D]" r] f by simp_all
  ultimately show ?thesis using line_start(2) [OF at' f] by (simp add: parse_version_def)
qed

lemma parse_origin_text:
  assumes at: "at_text sc (o_line s @ r)" and f: "sc_skip sc = 0" and s: "session_ok s"
  shows "scans (parse_origin sc x) (x\<lparr>or_user := or_user s, or_id := or_id s, or_version := or_version s,
    or_net_type := or_net_type s, or_addr_type := or_addr_type s, or_addr := or_addr s\<rparr>) 0 r"
proof -
  have sp: "CHR '' '' \<notin> set (or_user s)" "CHR '' '' \<notin> set (or_net_type s)" "CHR '' '' \<notin> set (or_addr_type s)"
    "without sp_eol (or_addr s)"
    using s by (auto simp: session_ok_def without_def)
  have at': "at_text sc (CHR ''o'' # CHR ''='' # or_user s @ CHR '' '' # pj_utoa (or_id s) @ CHR '' '' #
      pj_utoa (or_version s) @ CHR '' '' # or_net_type s @ CHR '' '' # or_addr_type s @ CHR '' '' # or_addr s @ crlf @ r)"
    using at by (simp add: o_line_def)
  obtain sc0 where 0: "pj_scan_advance_n 2 False sc = Some sc0"
      "at_text sc0 (or_user s @ CHR '' '' # pj_utoa (or_id s) @ CHR '' '' #
      pj_utoa (or_version s) @ CHR '' '' # or_net_type s @ CHR '' '' # or_addr_type s @ CHR '' '' # or_addr s @ crlf @ r)"
      "sc_skip sc0 = 0"
    using line_start(3) [OF at' f] by blast
  obtain sc1 where 1: "get_field sc0 = Some (or_user s, sc1)"
      "at_text sc1 (pj_utoa (or_id s) @ CHR '' '' # pj_utoa (or_version s) @ CHR '' '' # or_net_type s @ CHR '' '' #
        or_addr_type s @ CHR '' '' # or_addr s @ crlf @ r)" "sc_skip sc1 = 0"
    using get_field_text [OF 0(2,3) sp(1)] by (rule scansE)
  obtain sc2 where 2: "get_field sc1 = Some (pj_utoa (or_id s), sc2)"
      "at_text sc2 (pj_utoa (or_version s) @ CHR '' '' # or_net_type s @ CHR '' '' #
        or_addr_type s @ CHR '' '' # or_addr s @ crlf @ r)" "sc_skip sc2 = 0"
    using get_field_text [OF 1(2,3) without_utoa(2)] by (rule scansE)
  obtain sc3 where 3: "get_field sc2 = Some (pj_utoa (or_version s), sc3)"
      "at_text sc3 (or_net_type s @ CHR '' '' # or_addr_type s @ CHR '' '' # or_addr s @ crlf @ r)" "sc_skip sc3 = 0"
    using get_field_text [OF 2(2,3) without_utoa(2)] by (rule scansE)
  obtain sc4 where 4: "get_field sc3 = Some (or_net_type s, sc4)"
      "at_text sc4 (or_addr_type s @ CHR '' '' # or_addr s @ crlf @ r)" "sc_skip sc4 = 0"
    using get_field_text [OF 3(2,3) sp(2)] by (rule scansE)
  obtain sc5 where 5: "get_field sc4 = Some (or_addr_type s, sc5)" "at_text sc5 (or_addr s @ crlf @ r)" "sc_skip sc5 = 0"
    using get_field_text [OF 4(2,3) sp(3)] by (rule scansE)
  obtain sc6 where 6: "pj_scan_get_until_chr sp_eol sc5 = Some (or_addr s, sc6)" "at_text sc6 (crlf @ r)" "sc_skip sc6 = 0"
    using until_eol_text [OF 5(2,3) _ sp(4)] by (rule scansE) (simp add: sp_eol_def)
  show ?thesis
    using line_start(2) [OF at' f] 0(1) 1(1) 2(1) 3(1) 4(1) 5(1) 6(1) [unfolded sp_eol_def] skip_crlf [OF 6(2,3)]
    by (simp add: parse_origin_def scans_def)
qed

lemma parse_time_text:
  assumes at: "at_text sc (t_line s @ r)" and f: "sc_skip sc = 0"
  shows "scans (parse_time sc x) (x\<lparr>ss_time_start := ss_time_start s, ss_time_stop := ss_time_stop s\<rparr>) 0 r"
proof -
  have at': "at_text sc (CHR ''t'' # CHR ''='' # pj_utoa (ss_time_start s) @ CHR '' '' # pj_utoa (ss_time_stop s) @ crlf @ r)"
    using at by (simp add: t_line_def)
  obtain sc0 where 0: "pj_scan_advance_n 2 False sc = Some sc0"
      "at_text sc0 (pj_utoa (ss_time_start s) @ CHR '' '' # pj_utoa (ss_time_stop s) @ crlf @ r)" "sc_skip sc0 = 0"
    using line_start(3) [OF at' f] by blast
  obtain sc1 where 1: "get_field sc0 = Some (pj_utoa (ss_time_start s), sc1)"
      "at_text sc1 (pj_utoa (ss_time_stop s) @ crlf @ r)" "sc_skip sc1 = 0"
    using get_field_text [OF 0(2,3) without_utoa(2)] by (rule scansE)
  obtain sc2 where 2: "pj_scan_get_until_chr sp_eol sc1 = Some (pj_utoa (ss_time_stop s), sc2)" "at_text sc2 (crlf @ r)" "sc_skip sc2 = 0"
    using until_eol_text [OF 1(2,3) _ without_utoa(1)] by (rule scansE) (simp add: sp_eol_def)
  show ?thesis
    using line_start(2) [OF at' f] 0(1) 1(1) 2(1) [unfolded sp_eol_def] skip_crlf [OF 2(2,3)]
    by (simp add: parse_time_def scans_def)
qed

lemma parse_generic_text:
  assumes at: "at_text sc (c # CHR ''='' # t @ crlf @ r)" and f: "sc_skip sc = 0" and t: "without eol t"
  shows "scans (parse_generic_line sc) t 0 r"
proof -
  obtain sc0 where 0: "pj_scan_advance_n 2 False sc = Some sc0" "at_text sc0 (t @ crlf @ r)" "sc_skip sc0 = 0"
    using line_start(3) [OF at f] by blast
  obtain sc1 where 1: "pj_scan_get_until_chr eol sc0 = Some (t, sc1)" "at_text sc1 (crlf @ r)" "sc_skip sc1 = 0"
    using until_eol_text [OF 0(2,3) _ t] by (rule scansE) (simp add: eol_def)
  obtain sc2 where "pj_scan_get_newline sc1 = Some sc2" "at_text sc2 r" "sc_skip sc2 = 0"
    using get_newline_text [of sc1 r] 1(2,3) by (auto simp: crlf_def)
  then show ?thesis
    using line_start(2) [OF at f] 0(1) 1(1) [unfolded eol_def] by (simp add: parse_generic_line_def scans_def)
qed

lemma parse_conn_text:
  assumes at: "at_text sc (c_line c @ r)" and f: "sc_skip sc = 0" and c: "conn_ok c"
  shows "scans (parse_connection_info sc) c 0 r"
proof -
  let ?cs = "CHR ''/'' # sp_eol"
  have sp: "CHR '' '' \<notin> set (cn_net_type c)" "CHR '' '' \<notin> set (cn_addr_type c)" "without ?cs (cn_addr c)"
    using c by (auto simp: conn_ok_def without_def)
  have at': "at_text sc (CHR ''c'' # CHR ''='' # cn_net_type c @ CHR '' '' # cn_addr_type c @ CHR '' '' # cn_addr c @ crlf @ r)"
    using at by (simp add: c_line_def)
  obtain sc0 where 0: "pj_scan_advance_n 2 False sc = Some sc0"
      "at_text sc0 (cn_net_type c @ CHR '' '' # cn_addr_type c @ CHR '' '' # cn_addr c @ crlf @ r)" "sc_skip sc0 = 0"
    using line_start(3) [OF at' f] by blast
  obtain sc1 where 1: "get_field sc0 = Some (cn_net_type c, sc1)"
      "at_text sc1 (cn_addr_type c @ CHR '' '' # cn_addr c @ crlf @ r)" "sc_skip sc1 = 0"
    using get_field_text [OF 0(2,3) sp(1)] by (rule scansE)
  obtain sc2 where 2: "get_field sc1 = Some (cn_addr_type c, sc2)" "at_text sc2 (cn_addr c @ crlf @ r)" "sc_skip sc2 = 0"
    using get_field_text [OF 1(2,3) sp(2)] by (rule scansE)
  obtain sc3 where 3: "pj_scan_get_until_chr ?cs sc2 = Some (cn_addr c, sc3)" "at_text sc3 (crlf @ r)" "sc_skip sc3 = 0"
    using until_eol_text [OF 2(2,3) _ sp(3)] by (rule scansE) (simp add: sp_eol_def)
  show ?thesis
    using 0(1) 1(1) 2(1) 3(1) [unfolded sp_eol_def] skip_crlf [OF 3(2,3)]
    by (simp add: parse_connection_info_def scans_def)
qed

lemma parse_attr_text:
  assumes at: "at_text sc (a_line a @ r)" and f: "sc_skip sc = 0" and a: "attr_ok a"
  shows "scans (parse_attr sc) a 0 r"
proof -
  let ?v = "(if at_value a = [] then [] else CHR '':'' # at_value a)"
  have nm: "at_name a \<noteq> []" "\<forall>c \<in> set (at_name a). cs_token c" and v: "without eol (at_value a)"
    using a by (auto simp: attr_ok_def is_token_str_def)
  have at': "at_text sc (CHR ''a'' # CHR ''='' # at_name a @ ?v @ crlf @ r)"
    using at by (cases "at_value a = []") (simp_all add: a_line_def)
  obtain sc0 where 0: "pj_scan_advance_n 2 False sc = Some sc0" "at_text sc0 (at_name a @ ?v @ crlf @ r)" "sc_skip sc0 = 0"
    using line_start(3) [OF at' f] by blast
  have "?v @ crlf @ r = [] \<or> \<not> cs_token (hd (?v @ crlf @ r))" by (simp add: crlf_def)
  then obtain sc1 where 1: "pj_scan_get cs_token sc0 = Some (at_name a, sc1)" "at_text sc1 (?v @ crlf @ r)" "sc_skip sc1 = 0"
    using get_text [OF 0(2) nm] by (rule_tac scansE) (simp_all add: 0(3))
  have "scans (parse_attr_value sc1) (at_value a) 0 (crlf @ r)"
  proof (cases "at_value a = []")
    case True
    then have "sc_at sc1 (sc_cur sc1) = CHR 0x0D" using at_text_hd [OF 1(2)] by (simp add: mem_at_def crlf_def)
    then show ?thesis using True 1(2,3) by (simp add: parse_attr_value_def is_nl_def scans_def)
  next
    case False
    then have at1: "at_text sc1 (CHR '':'' # at_value a @ crlf @ r)" using 1(2) by simp
    obtain sc2 where 2: "pj_scan_get_char sc1 = Some (CHR '':'', sc2)" "at_text sc2 (at_value a @ crlf @ r)" "sc_skip sc2 = 0"
      using get_char_text [OF at1] by (rule_tac scansE) (simp_all add: 1(3))
    have "\<not> is_nl (sc_at sc2 (sc_cur sc2))"
      using at_text_hd [OF 2(2)] False v by (cases "at_value a") (auto simp: mem_at_def is_nl_def without_def eol_def)
    moreover have "scans (pj_scan_get_until_chr eol sc2) (at_value a) 0 (crlf @ r)"
      using until_eol_text [OF 2(2,3) _ v] by (simp add: eol_def)
    ultimately show ?thesis
      using at_text_hd [OF at1] 2(1) by (simp add: parse_attr_value_def is_nl_def mem_at_def eol_def)
  qed
  then obtain sc3 where 3: "parse_attr_value sc1 = Some (at_value a, sc3)" "at_text sc3 (crlf @ r)" "sc_skip sc3 = 0"
    by (rule scansE)
  show ?thesis
    using line_start(2) [OF at' f] 0(1) 1(1) 3(1) skip_crlf [OF 3(2,3)] by (simp add: parse_attr_def scans_def)
qed

lemma parse_fmts_text:
  assumes "at_text sc (concat (map ((#) (CHR '' '')) fs) @ crlf @ r)" "sc_skip sc = 0"
    and "\<forall>f \<in> set fs. is_token_str f" "length acc + length fs \<le> PJMEDIA_MAX_SDP_FMT"
  shows "scans (parse_fmts sc acc) (acc @ fs) 0 (crlf @ r)"
  using assms
proof (induction fs arbitrary: sc acc)
  case Nil
  then have "sc_at sc (sc_cur sc) = CHR 0x0D" using at_text_hd [of sc] by (auto simp: mem_at_def crlf_def)
  then show ?case using Nil by (simp add: parse_fmts.simps [of sc] scans_def)
next
  case (Cons f fs)
  let ?r = "concat (map ((#) (CHR '' '')) fs) @ crlf @ r"
  have f: "f \<noteq> []" "\<forall>c \<in> set f. cs_token c" using Cons.prems(3) by (auto simp: is_token_str_def)
  have at: "at_text sc (CHR '' '' # f @ ?r)" using Cons.prems(1) by simp
  have hd: "sc_at sc (sc_cur sc) = CHR '' ''" using at_text_hd [OF at] by (simp add: mem_at_def)
  obtain sc1 where 1: "pj_scan_get_char sc = Some (CHR '' '', sc1)" "at_text sc1 (f @ ?r)" "sc_skip sc1 = 0"
    using get_char_text [OF at] Cons.prems(2) by (rule_tac scansE) simp_all
  have "sc_at sc1 (sc_cur sc1) = hd f" using at_text_hd [OF 1(2)] f(1) by (simp add: mem_at_def nth_append hd_conv_nth)
  then have nl: "\<not> is_nl (sc_at sc1 (sc_cur sc1))" using f token_not_special [of "hd f"] by simp
  have "?r = [] \<or> \<not> cs_token (hd ?r)" by (cases fs) (simp_all add: crlf_def)
  then obtain sc2 where 2: "pj_scan_get cs_token sc1 = Some (f, sc2)" "at_text sc2 ?r" "sc_skip sc2 = 0"
    using get_text [OF 1(2) f] by (rule_tac scansE) (simp_all add: 1(3))
  have "scans (parse_fmts sc2 (acc @ [f])) ((acc @ [f]) @ fs) 0 (crlf @ r)"
    using Cons.prems(3,4) by (intro Cons.IH [OF 2(2,3)]) simp_all
  then show ?case using hd 1(1) nl 2(1) Cons.prems(4) by (simp add: parse_fmts.simps [of sc])
qed

lemma parse_ports_text:
  assumes at: "at_text sc (pj_utoa (ucast p) @ (if n > 1 then CHR ''/'' # pj_utoa n else []) @ CHR '' '' # r)"
    and f: "sc_skip sc = 0" and n: "n \<noteq> 1"
  shows "\<exists>sc'. parse_ports sc = Some (p, n, sc') \<and> at_text sc' (CHR '' '' # r) \<and> sc_skip sc' = 0"
proof -
  have dig: "\<forall>c \<in> set (pj_utoa v). cs_token c" for v using utoa_digit_str digit_token by auto
  have "scans (pj_scan_get cs_token sc) (pj_utoa (ucast p)) 0 ((if n > 1 then CHR ''/'' # pj_utoa n else []) @ CHR '' '' # r)"
    using get_text [OF at pj_utoa_ne dig] by (simp add: f split: if_splits)
  then obtain sc1 where 1: "pj_scan_get cs_token sc = Some (pj_utoa (ucast p), sc1)"
      "at_text sc1 ((if n > 1 then CHR ''/'' # pj_utoa n else []) @ CHR '' '' # r)" "sc_skip sc1 = 0"
    by (rule scansE)
  have port: "ucast (ucast p :: u32) = p" by (rule bit_word_eqI) (auto simp: bit_simps dest: bit_imp_le_length)
  show ?thesis
  proof (cases "n > 1")
    case True
    then have at1: "at_text sc1 (CHR ''/'' # pj_utoa n @ CHR '' '' # r)" using 1(2) by simp
    obtain sc2 where 2: "pj_scan_get_char sc1 = Some (CHR ''/'', sc2)" "at_text sc2 (pj_utoa n @ CHR '' '' # r)" "sc_skip sc2 = 0"
      using get_char_text [OF at1] by (rule_tac scansE) (simp_all add: 1(3))
    obtain sc3 where 3: "pj_scan_get cs_token sc2 = Some (pj_utoa n, sc3)" "at_text sc3 (CHR '' '' # r)" "sc_skip sc3 = 0"
      using get_text [OF 2(2) pj_utoa_ne dig] by (rule_tac scansE) (simp_all add: 2(3))
    show ?thesis
      using 1(1) 2(1) 3 at_text_hd [OF at1] port by (simp add: parse_ports_def mem_at_def)
  next
    case False
    with n have n0: "n = 0" by (auto simp: word_less_nat_alt word_unat_eq_iff)
    have at1: "at_text sc1 (CHR '' '' # r)" using 1(2) False by simp
    show ?thesis using 1(1,3) at1 at_text_hd [OF at1] port n0 by (simp add: parse_ports_def mem_at_def)
  qed
qed

lemma parse_media_text:
  assumes at: "at_text sc (m_line m @ r)" and f: "sc_skip sc = 0" and m: "media_ok m"
  shows "scans (parse_media sc) (m\<lparr>md_conn := None, md_bandw := [], md_attr := []\<rparr>) 0 r"
proof -
  let ?fm = "concat (map ((#) (CHR '' '')) (md_fmt m)) @ crlf @ r"
  let ?po = "pj_utoa (ucast (md_port m)) @ (if md_port_count m > 1 then CHR ''/'' # pj_utoa (md_port_count m) else []) @
     CHR '' '' # md_transport m @ ?fm"
  have sp: "CHR '' '' \<notin> set (md_media m)" "without sp_eol (md_transport m)" using m by (auto simp: media_ok_def without_def)
  have at': "at_text sc (CHR ''m'' # CHR ''='' # md_media m @ CHR '' '' # ?po)"
    using at by (cases "md_port_count m > 1") (simp_all add: m_line_def)
  obtain sc0 where 0: "pj_scan_advance_n 2 False sc = Some sc0" "at_text sc0 (md_media m @ CHR '' '' # ?po)" "sc_skip sc0 = 0"
    using line_start(3) [OF at' f] by blast
  obtain sc1 where 1: "get_field sc0 = Some (md_media m, sc1)" "at_text sc1 ?po" "sc_skip sc1 = 0"
    using get_field_text [OF 0(2,3) sp(1)] by (rule scansE)
  obtain sc2 where 2: "parse_ports sc1 = Some (md_port m, md_port_count m, sc2)"
      "at_text sc2 (CHR '' '' # md_transport m @ ?fm)" "sc_skip sc2 = 0"
    using parse_ports_text [OF 1(2,3)] m by (auto simp: media_ok_def)
  obtain sc3 where 3: "pj_scan_get_char sc2 = Some (CHR '' '', sc3)" "at_text sc3 (md_transport m @ ?fm)" "sc_skip sc3 = 0"
    using get_char_text [OF 2(2)] by (rule_tac scansE) (simp_all add: 2(3))
  have "hd ?fm \<in> set sp_eol \<and> ?fm \<noteq> []" by (cases "md_fmt m") (simp_all add: crlf_def sp_eol_def)
  then have "scans (pj_scan_get_until_chr sp_eol sc3) (md_transport m) 0 ?fm"
    using get_until_text [OF 3(2), of "\<lambda>c. c \<in> set sp_eol"] sp(2)
    by (auto simp: pj_scan_get_until_chr_def 3(3) without_def)
  then obtain sc4 where 4: "pj_scan_get_until_chr sp_eol sc3 = Some (md_transport m, sc4)" "at_text sc4 ?fm" "sc_skip sc4 = 0"
    by (rule scansE)
  obtain sc5 where 5: "parse_fmts sc4 [] = Some (md_fmt m, sc5)" "at_text sc5 (crlf @ r)" "sc_skip sc5 = 0"
    using parse_fmts_text [OF 4(2,3), of "[]"] m by (rule_tac scansE) (simp_all add: media_ok_def)
  have "new_media\<lparr>md_media := md_media m, md_port := md_port m, md_port_count := md_port_count m,
      md_transport := md_transport m, md_fmt := md_fmt m\<rparr> = m\<lparr>md_conn := None, md_bandw := [], md_attr := []\<rparr>"
    by (cases m) (simp add: new_media_def)
  then show ?thesis
    using line_start(2) [OF at' f] 0(1) 1(1) 2(1) 3(1) 4(1) [unfolded sp_eol_def] 5(1) skip_crlf [OF 5(2,3)]
    by (simp add: parse_media_def scans_def)
qed

section \<open>The round trip\<close>

definition reads :: "sdp_parse \<Rightarrow> string \<Rightarrow> sdp_parse \<Rightarrow> bool" where
  "reads st t st' = (\<forall>sc r. sc_skip sc = 0 \<longrightarrow> at_text sc (t @ r) \<longrightarrow>
     (\<exists>sc'. parse_lines sc st = parse_lines sc' st' \<and> at_text sc' r \<and> sc_skip sc' = 0))"

lemma reads_nil [simp]: "reads st [] st"
  by (auto simp: reads_def)

lemma reads_append: "reads st t st1 \<Longrightarrow> reads st1 u st2 \<Longrightarrow> reads st (t @ u) st2"
  unfolding reads_def by (metis append_assoc)

lemma reads_line:
  assumes "t \<noteq> []"
    and "\<And>sc r. sc_skip sc = 0 \<Longrightarrow> at_text sc (t @ r) \<Longrightarrow> sc_at sc (sc_cur sc) = hd t \<Longrightarrow>
      \<exists>sc'. parse_line sc st = Inr (st', sc') \<and> at_text sc' r \<and> sc_skip sc' = 0"
  shows "reads st t st'"
  unfolding reads_def
proof (intro allI impI)
  fix sc r
  assume f: "sc_skip sc = 0" and at: "at_text sc (t @ r)"
  have "sc_at sc (sc_cur sc) = hd t" using at_text_hd [OF at] assms(1) by (simp add: mem_at_def nth_append hd_conv_nth)
  then obtain sc' where "parse_line sc st = Inr (st', sc')" "at_text sc' r" "sc_skip sc' = 0"
    using assms(2) [OF f at] by blast
  moreover have "\<not> pj_scan_is_eof sc" using at_text_eof [OF at] assms(1) by simp
  ultimately show "\<exists>sc'. parse_lines sc st = parse_lines sc' st' \<and> at_text sc' r \<and> sc_skip sc' = 0"
    by (auto simp: parse_lines.simps [of sc])
qed

lemma or_error_scans:
  "scans x v 0 r \<Longrightarrow> \<exists>sc'. or_error e (map_option (map_prod g id) x) = Inr (g v, sc') \<and> at_text sc' r \<and> sc_skip sc' = 0"
  by (auto simp: scans_def or_error_def)

lemma reads_version: "reads st (''v=0'' @ crlf) st"
proof (rule reads_line)
  fix sc r
  assume "sc_skip sc = 0" "at_text sc ((''v=0'' @ crlf) @ r)" and c: "sc_at sc (sc_cur sc) = hd (''v=0'' @ crlf)"
  then obtain sc' where "parse_version sc = Some sc'" "at_text sc' r" "sc_skip sc' = 0"
    using parse_version_text [of sc r] by auto
  with c show "\<exists>sc'. parse_line sc st = Inr (st, sc') \<and> at_text sc' r \<and> sc_skip sc' = 0"
    by (simp add: parse_line_def or_error_def)
qed (simp add: crlf_def)

lemma reads_origin:
  "session_ok s \<Longrightarrow> reads st (o_line s) (st\<lparr>ps_session := (ps_session st)\<lparr>or_user := or_user s, or_id := or_id s,
     or_version := or_version s, or_net_type := or_net_type s, or_addr_type := or_addr_type s, or_addr := or_addr s\<rparr>\<rparr>)"
proof (rule reads_line)
  fix sc r
  assume "session_ok s" "sc_skip sc = 0" "at_text sc (o_line s @ r)" and c: "sc_at sc (sc_cur sc) = hd (o_line s)"
  note or_error_scans [OF parse_origin_text [OF this(3,2,1), of "ps_session st"],
      of PJMEDIA_SDP_EINORIGIN "\<lambda>x. st\<lparr>ps_session := x\<rparr>"]
  with c show "\<exists>sc'. parse_line sc st = Inr (st\<lparr>ps_session := (ps_session st)\<lparr>or_user := or_user s, or_id := or_id s,
     or_version := or_version s, or_net_type := or_net_type s, or_addr_type := or_addr_type s, or_addr := or_addr s\<rparr>\<rparr>, sc') \<and>
     at_text sc' r \<and> sc_skip sc' = 0"
    by (simp add: parse_line_def o_line_def)
qed (simp add: o_line_def)

lemma reads_name:
  assumes "without eol (ss_name s)"
  shows "reads st (s_line s) (st\<lparr>ps_session := (ps_session st)\<lparr>ss_name := ss_name s\<rparr>\<rparr>)"
proof (rule reads_line)
  fix sc r
  assume f: "sc_skip sc = 0" and at: "at_text sc (s_line s @ r)" and c: "sc_at sc (sc_cur sc) = hd (s_line s)"
  from at have at': "at_text sc (CHR ''s'' # CHR ''='' # ss_name s @ crlf @ r)" by (simp add: s_line_def)
  from or_error_scans [OF parse_generic_text [OF at' f assms],
      of PJMEDIA_SDP_EINSDP "\<lambda>n. st\<lparr>ps_session := (ps_session st)\<lparr>ss_name := n\<rparr>\<rparr>"] c
  show "\<exists>sc'. parse_line sc st = Inr (st\<lparr>ps_session := (ps_session st)\<lparr>ss_name := ss_name s\<rparr>\<rparr>, sc') \<and>
      at_text sc' r \<and> sc_skip sc' = 0"
    by (simp add: parse_line_def s_line_def)
qed (simp add: s_line_def)

lemma reads_bandw:
  assumes "without eol (bw_modifier b)"
  shows "reads st (b_line b) st"
proof (rule reads_line)
  fix sc r
  assume f: "sc_skip sc = 0" and at: "at_text sc (b_line b @ r)" and c: "sc_at sc (sc_cur sc) = hd (b_line b)"
  from at have at': "at_text sc (CHR ''b'' # CHR ''='' # (bw_modifier b @ '':'' @ pj_utoa (bw_value b)) @ crlf @ r)"
    by (simp add: b_line_def)
  have "without eol (bw_modifier b @ '':'' @ pj_utoa (bw_value b))"
    using assms without_subset [OF without_utoa(1) [of "bw_value b"], of eol]
    by (auto simp: without_def eol_def sp_eol_def)
  from or_error_scans [OF parse_generic_text [OF at' f this], of PJMEDIA_SDP_EINSDP "\<lambda>_. st"] c
  show "\<exists>sc'. parse_line sc st = Inr (st, sc') \<and> at_text sc' r \<and> sc_skip sc' = 0"
    by (simp add: parse_line_def b_line_def is_nl_def)
qed (simp add: b_line_def)

lemma reads_time:
  "reads st (t_line s) (st\<lparr>ps_session := (ps_session st)\<lparr>ss_time_start := ss_time_start s, ss_time_stop := ss_time_stop s\<rparr>\<rparr>)"
proof (rule reads_line)
  fix sc r
  assume "sc_skip sc = 0" "at_text sc (t_line s @ r)" and c: "sc_at sc (sc_cur sc) = hd (t_line s)"
  note or_error_scans [OF parse_time_text [OF this(2,1), of "ps_session st"],
      of PJMEDIA_SDP_EINTIME "\<lambda>x. st\<lparr>ps_session := x\<rparr>"]
  with c show "\<exists>sc'. parse_line sc st = Inr (st\<lparr>ps_session := (ps_session st)\<lparr>ss_time_start := ss_time_start s,
      ss_time_stop := ss_time_stop s\<rparr>\<rparr>, sc') \<and> at_text sc' r \<and> sc_skip sc' = 0"
    by (simp add: parse_line_def t_line_def)
qed (simp add: t_line_def)

lemma reads_conn: "conn_ok c \<Longrightarrow> reads st (c_line c) (store_conn c st)"
proof (rule reads_line)
  fix sc r
  assume "conn_ok c" "sc_skip sc = 0" "at_text sc (c_line c @ r)" and c: "sc_at sc (sc_cur sc) = hd (c_line c)"
  note or_error_scans [OF parse_conn_text [OF this(3,2,1)], of PJMEDIA_SDP_EINCONN "\<lambda>c. store_conn c st"]
  with c show "\<exists>sc'. parse_line sc st = Inr (store_conn c st, sc') \<and> at_text sc' r \<and> sc_skip sc' = 0"
    by (simp add: parse_line_def c_line_def)
qed (simp add: c_line_def)

lemma reads_attr: "attr_ok a \<Longrightarrow> reads st (a_line a) (store_attr a st)"
proof (rule reads_line)
  fix sc r
  assume "attr_ok a" "sc_skip sc = 0" "at_text sc (a_line a @ r)" and c: "sc_at sc (sc_cur sc) = hd (a_line a)"
  note or_error_scans [OF parse_attr_text [OF this(3,2,1)], of PJMEDIA_SDP_EINATTR "\<lambda>a. store_attr a st"]
  with c show "\<exists>sc'. parse_line sc st = Inr (store_attr a st, sc') \<and> at_text sc' r \<and> sc_skip sc' = 0"
    by (simp add: parse_line_def a_line_def)
qed (simp add: a_line_def)

lemma reads_m:
  "media_ok m \<Longrightarrow> reads st (m_line m) (store_media (m\<lparr>md_conn := None, md_bandw := [], md_attr := []\<rparr>) st)"
proof (rule reads_line)
  fix sc r
  assume "media_ok m" "sc_skip sc = 0" "at_text sc (m_line m @ r)" and c: "sc_at sc (sc_cur sc) = hd (m_line m)"
  note or_error_scans [OF parse_media_text [OF this(3,2,1)], of PJMEDIA_SDP_EINMEDIA "\<lambda>m. store_media m st"]
  with c show "\<exists>sc'. parse_line sc st = Inr (store_media (m\<lparr>md_conn := None, md_bandw := [], md_attr := []\<rparr>) st, sc') \<and>
      at_text sc' r \<and> sc_skip sc' = 0"
    by (simp add: parse_line_def m_line_def)
qed (simp add: m_line_def)

text \<open>Sequences of lines.\<close>

lemma reads_all:
  "(\<And>x st. x \<in> set xs \<Longrightarrow> reads st (f x) (g x st)) \<Longrightarrow> reads st (concat (map f xs)) (fold g xs st)"
  by (induction xs arbitrary: st) (auto intro: reads_append)

lemma fold_store_attr:
  assumes "ps_media st = Last_media" "ss_media (ps_session st) = ms @ [m]"
    and "length (md_attr m) + length as \<le> PJMEDIA_MAX_SDP_ATTR"
  shows "fold store_attr as st =
    st\<lparr>ps_session := (ps_session st)\<lparr>ss_media := ms @ [m\<lparr>md_attr := md_attr m @ as\<rparr>]\<rparr>\<rparr>"
  using assms
proof (induction as arbitrary: st m)
  case Nil
  then show ?case by simp
next
  case (Cons a as)
  have "store_attr a st = st\<lparr>ps_session := (ps_session st)\<lparr>ss_media := ms @ [m\<lparr>md_attr := md_attr m @ [a]\<rparr>]\<rparr>\<rparr>"
    using Cons.prems by (simp add: store_attr_def upd_last_media_def map_last_def sdp_media_add_attr_def sdp_attr_add_def)
  then show ?case using Cons.prems Cons.IH [of _ "m\<lparr>md_attr := md_attr m @ [a]\<rparr>"] by simp
qed

lemma fold_store_session_attr:
  assumes "ps_media st = No_media" "length (ss_attr (ps_session st)) + length as \<le> PJMEDIA_MAX_SDP_ATTR"
  shows "fold store_attr as st =
    st\<lparr>ps_session := (ps_session st)\<lparr>ss_attr := ss_attr (ps_session st) @ as\<rparr>\<rparr>"
  using assms
proof (induction as arbitrary: st)
  case Nil
  then show ?case by simp
next
  case (Cons a as)
  have "store_attr a st = st\<lparr>ps_session := (ps_session st)\<lparr>ss_attr := ss_attr (ps_session st) @ [a]\<rparr>\<rparr>"
    using Cons.prems by (simp add: store_attr_def sdp_session_add_attr_def sdp_attr_add_def)
  then show ?case using Cons.prems Cons.IH by simp
qed

text \<open>The parser knows no bandwidth lines and loses them.\<close>

definition no_bandw :: "sdp_media \<Rightarrow> sdp_media" where
  "no_bandw m = m\<lparr>md_bandw := []\<rparr>"

definition add_media :: "sdp_media \<Rightarrow> sdp_parse \<Rightarrow> sdp_parse" where
  "add_media m st = st\<lparr>ps_session := (ps_session st)\<lparr>ss_media := ss_media (ps_session st) @ [m]\<rparr>, ps_media := Last_media\<rparr>"

lemma reads_media:
  assumes m: "media_ok m" and n: "length (ss_media (ps_session st)) < PJMEDIA_MAX_SDP_MEDIA"
  shows "reads st (media_text m) (add_media (no_bandw m) st)"
proof -
  let ?m0 = "m\<lparr>md_conn := None, md_bandw := [], md_attr := []\<rparr>"
  let ?m1 = "?m0\<lparr>md_conn := md_conn m\<rparr>"
  have h0: "reads st (m_line m) (add_media ?m0 st)"
    using reads_m [OF m, of st] n by (simp add: store_media_def add_media_def)
  have h1: "reads (add_media ?m0 st) (opt_line c_line (md_conn m)) (add_media ?m1 st)"
  proof (cases "md_conn m")
    case None
    then have "?m1 = ?m0" by simp
    then show ?thesis using None by (simp only: opt_line_def option.case reads_nil)
  next
    case (Some c)
    have "store_conn c (add_media ?m0 st) = add_media ?m1 st"
      using Some by (simp add: store_conn_def add_media_def upd_last_media_def map_last_def)
    then show ?thesis using reads_conn [of c "add_media ?m0 st"] m Some by (simp add: opt_line_def media_ok_def)
  qed
  have h2: "reads (add_media ?m1 st) (concat (map b_line (md_bandw m))) (fold (\<lambda>_ st. st) (md_bandw m) (add_media ?m1 st))"
    using m by (intro reads_all reads_bandw) (simp add: media_ok_def)
  have same: "fold (\<lambda>_ st. st) xs s = s" for xs :: "sdp_bandw list" and s :: sdp_parse by (induction xs) auto
  have "fold store_attr (md_attr m) (add_media ?m1 st) = (add_media ?m1 st)\<lparr>ps_session :=
      (ps_session (add_media ?m1 st))\<lparr>ss_media := ss_media (ps_session st) @ [?m1\<lparr>md_attr := md_attr ?m1 @ md_attr m\<rparr>]\<rparr>\<rparr>"
    using m by (intro fold_store_attr) (simp_all add: add_media_def media_ok_def)
  also have "\<dots> = add_media (no_bandw m) st" by (cases st; cases m) (simp add: add_media_def no_bandw_def)
  finally have "fold store_attr (md_attr m) (add_media ?m1 st) = add_media (no_bandw m) st" .
  then have h3: "reads (add_media ?m1 st) (concat (map a_line (md_attr m))) (add_media (no_bandw m) st)"
    using reads_all [of "md_attr m" a_line store_attr "add_media ?m1 st"] reads_attr m by (simp add: media_ok_def)
  show ?thesis
    unfolding media_text_def
    by (intro reads_append [OF h0] reads_append [OF h1] reads_append [OF h2 [unfolded same]] h3)
qed

lemma reads_medias:
  assumes "\<forall>m \<in> set ms. media_ok m" "length (ss_media (ps_session st)) + length ms \<le> PJMEDIA_MAX_SDP_MEDIA"
  shows "reads st (concat (map media_text ms)) (fold (add_media \<circ> no_bandw) ms st)"
  using assms
proof (induction ms arbitrary: st)
  case Nil
  then show ?case by simp
next
  case (Cons m ms)
  have "reads st (media_text m) (add_media (no_bandw m) st)" using Cons.prems by (intro reads_media) auto
  moreover have "reads (add_media (no_bandw m) st) (concat (map media_text ms))
      (fold (add_media \<circ> no_bandw) ms (add_media (no_bandw m) st))"
    using Cons.prems by (intro Cons.IH) (auto simp: add_media_def)
  ultimately show ?case by (simp add: reads_append comp_def)
qed

lemma fold_add_media:
  "ps_session (fold (add_media \<circ> no_bandw) ms st) =
     (ps_session st)\<lparr>ss_media := ss_media (ps_session st) @ map no_bandw ms\<rparr>"
  by (induction ms arbitrary: st) (simp_all add: add_media_def)

lemma reads_session:
  assumes s: "session_ok s"
  shows "\<exists>st. reads \<lparr>ps_session = new_session, ps_media = No_media\<rparr> (sdp_text s) st \<and>
    ps_session st = s\<lparr>ss_media := map no_bandw (ss_media s)\<rparr>"
proof -
  let ?i = "\<lparr>ps_session = new_session, ps_media = No_media\<rparr>"
  define s1 where "s1 = new_session\<lparr>or_user := or_user s, or_id := or_id s, or_version := or_version s,
    or_net_type := or_net_type s, or_addr_type := or_addr_type s, or_addr := or_addr s\<rparr>"
  define s2 where "s2 = s1\<lparr>ss_name := ss_name s\<rparr>"
  define s3 where "s3 = s2\<lparr>ss_conn := ss_conn s\<rparr>"
  define s4 where "s4 = s3\<lparr>ss_time_start := ss_time_start s, ss_time_stop := ss_time_stop s\<rparr>"
  define s5 where "s5 = s4\<lparr>ss_attr := ss_attr s\<rparr>"
  let ?p = "\<lambda>s. \<lparr>ps_session = s, ps_media = No_media\<rparr>"
  have "reads ?i (''v=0'' @ crlf) ?i" by (rule reads_version)
  from reads_append [OF this] have "reads ?i ((''v=0'' @ crlf) @ o_line s) (?p s1)" using reads_origin [OF s, of ?i] by (simp only: s1_def sdp_parse.simps)
  then have h: "reads ?i (''v=0'' @ crlf @ o_line s) (?p s1)" by simp
  have h1: "reads (?p s1) (s_line s) (?p s2)"
    using reads_name [of s "?p s1"] s by (simp add: s2_def session_ok_def)
  have h2: "reads (?p s2) (opt_line c_line (ss_conn s)) (?p s3)"
  proof (cases "ss_conn s")
    case None
    then have "s3 = s2" by (simp add: s3_def s2_def s1_def new_session_def)
    then show ?thesis using None by (simp add: opt_line_def)
  next
    case (Some c)
    then show ?thesis using reads_conn [of c "?p s2"] s
      by (simp add: opt_line_def s3_def store_conn_def session_ok_def)
  qed
  have h3: "reads (?p s3) (t_line s) (?p s4)"
    using reads_time [of "?p s3" s] by (simp add: s4_def)
  have "fold store_attr (ss_attr s) (?p s4) = ?p s5"
    using s by (subst fold_store_session_attr)
      (simp_all add: session_ok_def s5_def s4_def s3_def s2_def s1_def new_session_def)
  then have h4: "reads (?p s4) (concat (map a_line (ss_attr s))) (?p s5)"
    using reads_all [of "ss_attr s" a_line store_attr "?p s4"] reads_attr s by (simp add: session_ok_def)
  have m: "ss_media s5 = []" by (simp add: s5_def s4_def s3_def s2_def s1_def new_session_def)
  then have h5: "reads (?p s5) (concat (map media_text (ss_media s))) (fold (add_media \<circ> no_bandw) (ss_media s) (?p s5))"
    using s by (intro reads_medias) (simp_all add: session_ok_def)
  have "reads ?i (sdp_text s) (fold (add_media \<circ> no_bandw) (ss_media s) (?p s5))"
    unfolding sdp_text_def by (intro reads_append [OF h] reads_append [OF h1] reads_append [OF h2]
        reads_append [OF h3] reads_append [OF h4] h5)
  moreover have "s5\<lparr>ss_media := map no_bandw (ss_media s)\<rparr> = s\<lparr>ss_media := map no_bandw (ss_media s)\<rparr>"
    by (cases s) (simp add: s5_def s4_def s3_def s2_def s1_def new_session_def)
  then have "ps_session (fold (add_media \<circ> no_bandw) (ss_media s) (?p s5)) = s\<lparr>ss_media := map no_bandw (ss_media s)\<rparr>"
    using m by (simp add: fold_add_media)
  ultimately show ?thesis by blast
qed

text \<open>
  C13: Parsing undoes printing: for a session whose fields do not hold the characters that end
  them, a buffer 36 bytes longer than the text is enough to print it, and parsing the text gives
  the session back, after its direction attribute has moved to the media lines without one; only
  the bandwidth lines of the media, which the parser does not know, are lost.
\<close>

theorem sdp_roundtrip:
  assumes s: "session_ok s" and cap: "length (sdp_text s) + 36 \<le> cap"
  shows "sdp_print s cap = (int (length (sdp_text s)), sdp_text s) \<and>
    sdp_parse (sdp_text s) = Inr (apply_media_direction (s\<lparr>ss_media := map no_bandw (ss_media s)\<rparr>))"
proof
  show "sdp_print s cap = (int (length (sdp_text s)), sdp_text s)"
    using prints_session [OF s] cap by (simp add: sdp_print_def prints_def)
  let ?sc = "pj_scan_init (sdp_text s @ [CHR 0x00]) (length (sdp_text s)) 0"
  have at: "at_text ?sc (sdp_text s)" and f: "sc_skip ?sc = 0"
    using at_text_init [of 0 "sdp_text s" "[]"] by simp_all
  have "adv is_nl (sdp_text s) = 0" by (simp add: sdp_text_def is_nl_def)
  then have "?sc\<lparr>sc_cur := sc_run is_nl ?sc (sc_cur ?sc)\<rparr> = ?sc"
    using at_text_run [OF at, of 0 is_nl] by (simp add: is_nl_def)
  moreover obtain st where st: "reads \<lparr>ps_session = new_session, ps_media = No_media\<rparr> (sdp_text s) st"
      "ps_session st = s\<lparr>ss_media := map no_bandw (ss_media s)\<rparr>"
    using reads_session [OF s] by blast
  moreover obtain sc' where
      "parse_lines ?sc \<lparr>ps_session = new_session, ps_media = No_media\<rparr> = parse_lines sc' st" "at_text sc' []"
    using st(1) at f unfolding reads_def by (metis append_Nil2)
  moreover from this(2) have "parse_lines sc' st = Inr st" by (simp add: parse_lines.simps at_text_eof)
  ultimately show "sdp_parse (sdp_text s) = Inr (apply_media_direction (s\<lparr>ss_media := map no_bandw (ss_media s)\<rparr>))"
    by (simp add: sdp_parse_def Let_def)
qed

theorem sdp_roundtrip_witness:
  "sdp_parse (sdp_text (sample_session 1 [''0'', ''8''])) =
     Inr (apply_media_direction ((sample_session 1 [''0'', ''8''])\<lparr>ss_media := map no_bandw (ss_media (sample_session 1 [''0'', ''8'']))\<rparr>))"
proof -
  have "is_token_str ''0''" "is_token_str ''8''" by code_simp+
  then have "session_ok (sample_session 1 [''0'', ''8''])"
    by (simp add: session_ok_def sample_session_def new_session_def new_media_def without_def sp_eol_def eol_def
      conn_ok_def media_ok_def PJMEDIA_MAX_SDP_FMT_def PJMEDIA_MAX_SDP_MEDIA_def)
  from sdp_roundtrip [OF this order_refl] show ?thesis by simp
qed

end
