(* ===== verification/Sdp_neg.thy ===== *)
theory Sdp_neg
  imports Sdp_text
begin

text \<open>
  The offer/answer negotiator of \<open>pjmedia/src/pjmedia/sdp_neg.c\<close>: creating the answer to an offer
  (\<open>create_answer\<close>), applying an answer to the own offer (\<open>process_answer\<close>), and the states of
  \<open>pjmedia_sdp_neg\<close>.

  Sessions are values: all sessions the negotiator keeps are clones of their own.  Custom format
  matching is done by registered callbacks, which are arguments (\<open>ne_call\<close>, by the address of the
  function): a callback returns its status and, where it is allowed to modify the answer, the
  attributes of the answer.  The configuration is the one the project builds: symmetric payload types
  (\<open>PJMEDIA_SDP_NEG_ANSWER_SYMMETRIC_PT\<close>), the remote's codec order preferred.
\<close>

section \<open>Directions\<close>

datatype pjmedia_dir = DIR_NONE | DIR_ENCODING | DIR_DECODING | DIR_ENCODING_DECODING

definition remove_all_media_directions :: "sdp_media \<Rightarrow> sdp_media" where
  "remove_all_media_directions m =
     (let m = sdp_media_remove_all_attr m ''inactive'';
          m = sdp_media_remove_all_attr m ''sendrecv'';
          m = sdp_media_remove_all_attr m ''sendonly'';
          m = sdp_media_remove_all_attr m ''recvonly''
      in m)"

definition has_attr :: "sdp_media \<Rightarrow> string \<Rightarrow> bool" where
  "has_attr m name = (sdp_media_find_attr m name None \<noteq> None)"

definition media_dir :: "sdp_media \<Rightarrow> pjmedia_dir" where
  "media_dir m =
     (if has_attr m ''sendonly'' then DIR_ENCODING
      else if has_attr m ''recvonly'' then DIR_DECODING
      else if has_attr m ''inactive'' then DIR_NONE
      else DIR_ENCODING_DECODING)"

definition adjusted_dir :: "sdp_media \<Rightarrow> pjmedia_dir \<Rightarrow> pjmedia_dir" where
  "adjusted_dir remote old_dir =
     (if has_attr remote ''inactive'' then DIR_NONE
      else if has_attr remote ''sendonly'' then
        (case old_dir of DIR_ENCODING_DECODING \<Rightarrow> DIR_DECODING | DIR_DECODING \<Rightarrow> DIR_DECODING | _ \<Rightarrow> DIR_NONE)
      else if has_attr remote ''recvonly'' then
        (case old_dir of DIR_ENCODING_DECODING \<Rightarrow> DIR_ENCODING | DIR_ENCODING \<Rightarrow> DIR_ENCODING | _ \<Rightarrow> DIR_NONE)
      else old_dir)"

definition update_media_direction :: "sdp_media \<Rightarrow> sdp_media \<Rightarrow> sdp_media" where
  "update_media_direction remote local' =
     (let old_dir = media_dir local'; new_dir = adjusted_dir remote old_dir
      in if new_dir \<noteq> old_dir then
           let m = remove_all_media_directions local'
           in case new_dir of
                DIR_NONE \<Rightarrow> sdp_media_add_attr m (sdp_attr_create ''inactive'' None)
              | DIR_ENCODING \<Rightarrow> sdp_media_add_attr m (sdp_attr_create ''sendonly'' None)
              | DIR_DECODING \<Rightarrow> sdp_media_add_attr m (sdp_attr_create ''recvonly'' None)
              | DIR_ENCODING_DECODING \<Rightarrow> m
         else local')"

section \<open>Custom format matching\<close>

text \<open>
  The callbacks by the address of their function, the table that registers them under format names,
  and the memory the code reads without having written it: a \<open>pjmedia_sdp_rtpmap\<close> on the stack, and
  the string behind the last format of a media line.
\<close>

type_synonym fmt_match_cb = "sdp_media \<Rightarrow> nat \<Rightarrow> sdp_media \<Rightarrow> nat \<Rightarrow> bool \<Rightarrow> sdp_status \<times> sdp_attr list"

record neg_env =
  ne_cbs :: "(string \<times> nat) list"
  ne_call :: "nat \<Rightarrow> fmt_match_cb"
  ne_junk :: sdp_rtpmap
  ne_fmt :: string

definition PJMEDIA_SDP_NEG_MAX_CUSTOM_FMT_NEG_CB :: nat where "PJMEDIA_SDP_NEG_MAX_CUSTOM_FMT_NEG_CB = 8"

definition custom_fmt_match ::
  "neg_env \<Rightarrow> string \<Rightarrow> sdp_media \<Rightarrow> nat \<Rightarrow> sdp_media \<Rightarrow> nat \<Rightarrow> bool \<Rightarrow> sdp_status \<times> sdp_attr list" where
  "custom_fmt_match env fmt_name offer o_fmt_idx answer a_fmt_idx modify =
     (case first_index (\<lambda>e. pj_stricmp fmt_name (fst e) = 0) (ne_cbs env) of
        Some i \<Rightarrow> ne_call env (snd (ne_cbs env ! i)) offer o_fmt_idx answer a_fmt_idx modify
      | None \<Rightarrow> (SDP_SUCCESS, md_attr answer))"

definition register_fmt_match_cb ::
  "(string \<times> nat) list \<Rightarrow> string \<Rightarrow> nat option \<Rightarrow> sdp_status \<times> (string \<times> nat) list" where
  "register_fmt_match_cb tab fmt_name cb =
     (let i = first_index (\<lambda>e. pj_stricmp fmt_name (fst e) = 0) tab
      in case cb of
           None \<Rightarrow> (case i of None \<Rightarrow> (SDP_ENOTFOUND, tab) | Some i \<Rightarrow> (SDP_SUCCESS, array_erase tab i))
         | Some c \<Rightarrow>
             (case i of
                Some i \<Rightarrow> (if c \<noteq> snd (tab ! i) then SDP_EEXISTS else SDP_SUCCESS, tab)
              | None \<Rightarrow> if length tab \<ge> PJMEDIA_SDP_NEG_MAX_CUSTOM_FMT_NEG_CB then (SDP_ETOOMANY, tab)
                        else (SDP_SUCCESS, tab @ [(fmt_name, c)])))"

definition fmt_match :: "neg_env \<Rightarrow> sdp_media \<Rightarrow> nat \<Rightarrow> sdp_media \<Rightarrow> nat \<Rightarrow> bool \<Rightarrow> sdp_status \<times> sdp_attr list" where
  "fmt_match env offer o_fmt_idx answer a_fmt_idx modify =
     (let o_pt = pj_strtoul (md_fmt offer ! o_fmt_idx); a_pt = pj_strtoul (md_fmt answer ! a_fmt_idx)
      in if o_pt < 96 \<or> a_pt < 96 then
           (if o_pt = a_pt then SDP_SUCCESS else PJMEDIA_SDP_EFORMATNOTEQUAL, md_attr answer)
         else case sdp_media_find_attr offer ''rtpmap'' (Some (md_fmt offer ! o_fmt_idx)) of
           None \<Rightarrow> (SDP_EBUG, md_attr answer)
         | Some oa \<Rightarrow>
             (case sdp_media_find_attr answer ''rtpmap'' (Some (md_fmt answer ! a_fmt_idx)) of
                None \<Rightarrow> (SDP_EBUG, md_attr answer)
              | Some aa \<Rightarrow>
                  (let o_rtpmap = rtpmap_of (ne_junk env) (md_attr offer ! oa);
                       a_rtpmap = rtpmap_of (ne_junk env) (md_attr answer ! aa)
                   in if pj_stricmp (rm_enc_name o_rtpmap) (rm_enc_name a_rtpmap) \<noteq> 0 \<or>
                         rm_clock_rate o_rtpmap \<noteq> rm_clock_rate a_rtpmap
                      then (PJMEDIA_SDP_EFORMATNOTEQUAL, md_attr answer)
                      else custom_fmt_match env (rm_enc_name o_rtpmap) offer o_fmt_idx answer a_fmt_idx modify)))"

section \<open>Processing an answer\<close>

definition neg_clone_deactivate :: "sdp_media \<Rightarrow> sdp_media option \<Rightarrow> sdp_session option \<Rightarrow> sdp_media" where
  "neg_clone_deactivate rem_med local_med local_sess =
     (let res = sdp_media_clone_deactivate rem_med
      in if md_conn res = None \<and> (case local_sess of None \<Rightarrow> True | Some s \<Rightarrow> ss_conn s = None) then
           (case Option.bind local_med md_conn of
              Some c \<Rightarrow> res\<lparr>md_conn := Some (sdp_conn_clone c)\<rparr>
            | None \<Rightarrow> res\<lparr>md_conn := Some \<lparr>cn_net_type = ''IN'', cn_addr_type = ''IP4'', cn_addr = ''127.0.0.1''\<rparr>\<rparr>)
         else res)"

text \<open>The attributes of a format are removed with it.\<close>

definition remove_attr_of :: "string \<Rightarrow> string \<Rightarrow> sdp_media \<Rightarrow> sdp_media" where
  "remove_attr_of name fmt m = (case sdp_media_find_attr m name (Some fmt) of
     Some k \<Rightarrow> sdp_media_remove_attr m k | None \<Rightarrow> m)"

definition remove_fmt_attrs :: "string \<Rightarrow> sdp_media \<Rightarrow> sdp_media" where
  "remove_fmt_attrs fmt m = remove_attr_of ''fmtp'' fmt (remove_attr_of ''rtpmap'' fmt m)"

definition remove_fmt :: "nat \<Rightarrow> sdp_media \<Rightarrow> sdp_media" where
  "remove_fmt i m = (remove_fmt_attrs (md_fmt m ! i) m)\<lparr>md_fmt := array_erase (md_fmt m) i\<rparr>"

lemma md_fmt_remove_attr [simp]:
  "md_fmt (remove_attr_of name fmt m) = md_fmt m" "md_fmt (remove_fmt_attrs fmt m) = md_fmt m"
  "md_fmt (remove_fmt i m) = array_erase (md_fmt m) i"
  by (auto simp: remove_attr_of_def remove_fmt_attrs_def remove_fmt_def sdp_media_remove_attr_def split: option.splits)

text \<open>Searching the answer for the format at an index of the offer; 96 is the first dynamic payload type.\<close>

definition rtpmap_match :: "neg_env \<Rightarrow> sdp_media \<Rightarrow> nat \<Rightarrow> sdp_rtpmap \<Rightarrow> sdp_media \<Rightarrow> nat \<Rightarrow> bool" where
  "rtpmap_match env offer i or' answer j =
     (case sdp_media_find_attr answer ''rtpmap'' (Some (md_fmt answer ! j)) of
        None \<Rightarrow> False
      | Some k \<Rightarrow>
          (let ar = rtpmap_of (ne_junk env) (md_attr answer ! k)
           in pj_stricmp (rm_enc_name or') (rm_enc_name ar) = 0 \<and> rm_clock_rate or' = rm_clock_rate ar \<and>
              (pj_stricmp (rm_param or') (rm_param ar) = 0 \<or> rm_param ar = ''1'') \<and>
              fst (custom_fmt_match env (rm_enc_name or') offer i answer j False) = SDP_SUCCESS))"

definition find_answer_fmt :: "neg_env \<Rightarrow> sdp_media \<Rightarrow> nat \<Rightarrow> sdp_media \<Rightarrow> sdp_status + nat option" where
  "find_answer_fmt env offer i answer =
     (let fmt = md_fmt offer ! i; js = [0..<length (md_fmt answer)]
      in if pj_strtoul fmt < 96 then Inr (first_index (\<lambda>j. fmt = md_fmt answer ! j) js)
         else case sdp_media_find_attr offer ''rtpmap'' (Some fmt) of
           None \<Rightarrow> Inl SDP_EBUG
         | Some k \<Rightarrow>
             Inr (first_index (rtpmap_match env offer i (rtpmap_of (ne_junk env) (md_attr offer ! k)) answer) js))"

text \<open>The first loop: \<open>prior\<close> holds the positions in the answer of the formats kept so far.\<close>

function keep_common :: "neg_env \<Rightarrow> sdp_media \<Rightarrow> sdp_media \<Rightarrow> nat \<Rightarrow> nat list \<Rightarrow> sdp_status \<times> sdp_media \<times> nat list" where
  "keep_common env answer offer i prior =
     (if i < length (md_fmt offer) then
        (case find_answer_fmt env offer i answer of
           Inl e \<Rightarrow> (e, offer, prior)
         | Inr None \<Rightarrow> keep_common env answer (remove_fmt i offer) i prior
         | Inr (Some j) \<Rightarrow> keep_common env answer offer (i + 1) (prior @ [j]))
      else (SDP_SUCCESS, offer, prior))"
  by auto
termination
  by (relation "measure (\<lambda>(env, answer, offer, i, prior). length (md_fmt offer) - i)") (auto simp: array_erase_length)

declare keep_common.simps [simp del]

definition swap_nth :: "nat \<Rightarrow> nat \<Rightarrow> 'a list \<Rightarrow> 'a list" where
  "swap_nth i j xs = xs[i := xs ! j, j := xs ! i]"

definition sort_step :: "nat \<Rightarrow> nat \<Rightarrow> nat list \<times> string list \<Rightarrow> nat list \<times> string list" where
  "sort_step i j s = (case s of (p, f) \<Rightarrow>
     if p ! i > p ! j then (swap_nth i j p, swap_nth i j f) else (p, f))"

definition sort_fmts :: "nat list \<Rightarrow> string list \<Rightarrow> nat list \<times> string list" where
  "sort_fmts prior fmts =
     (let n = length fmts in fold (\<lambda>i. fold (sort_step i) [i + 1..<n]) [0..<n] (prior, fmts))"

function remove_unmatched :: "nat list \<Rightarrow> sdp_media \<Rightarrow> nat \<Rightarrow> nat \<Rightarrow> sdp_media" where
  "remove_unmatched prior answer i del_cnt =
     (if i < length (md_fmt answer) then
        (if i \<ge> length prior \<or> int (prior ! i) - int del_cnt \<noteq> int i
         then remove_unmatched prior (remove_fmt i answer) i (del_cnt + 1)
         else remove_unmatched prior answer (i + 1) del_cnt)
      else answer)"
  by auto
termination
  by (relation "measure (\<lambda>(prior, answer, i, del_cnt). length (md_fmt answer) - i)") (auto simp: array_erase_length)

declare remove_unmatched.simps [simp del]

text \<open>
  With asymmetric media the code compares the answer's formats with each other, as many as the offer
  has; it finds a match at once or there is nothing to compare, so nothing behind the formats is read.
\<close>

definition asym_common :: "sdp_media \<Rightarrow> sdp_media \<Rightarrow> bool" where
  "asym_common offer answer =
     list_ex (\<lambda>i. list_ex (\<lambda>j. md_fmt answer ! i = md_fmt answer ! j) [0..<length (md_fmt offer)])
       [0..<length (md_fmt answer)]"

definition process_m_answer :: "neg_env \<Rightarrow> sdp_media \<Rightarrow> sdp_media \<Rightarrow> bool \<Rightarrow> sdp_status \<times> sdp_media \<times> sdp_media" where
  "process_m_answer env offer answer allow_asym =
     (if md_media answer \<noteq> md_media offer then (PJMEDIA_SDPNEG_EINVANSMEDIA, offer, answer)
      else if sdp_transport_cmp (md_transport answer) (md_transport offer) \<noteq> SDP_SUCCESS
      then (PJMEDIA_SDPNEG_EINVANSTP, offer, answer)
      else if md_port answer = 0 then (SDP_SUCCESS, sdp_media_deactivate offer, answer)
      else if md_port offer = 0 then (SDP_SUCCESS, offer, answer)
      else
        let offer = update_media_direction answer offer
        in if allow_asym then
             (if asym_common offer answer then SDP_SUCCESS else PJMEDIA_SDPNEG_EANSNOMEDIA, offer, answer)
           else case keep_common env answer offer 0 [] of (status, offer, prior) \<Rightarrow>
             if status \<noteq> SDP_SUCCESS then (status, offer, answer)
             else if length (md_fmt offer) = 0 then (PJMEDIA_SDPNEG_EANSNOMEDIA, offer, answer)
             else case sort_fmts prior (md_fmt offer) of (prior, fmts) \<Rightarrow>
               (SDP_SUCCESS, offer\<lparr>md_fmt := fmts\<rparr>, remove_unmatched prior answer 0 0))"

text \<open>
  The media lines of the offer (a list), those of the answer and the position \<open>ami\<close> in them.  The
  result holds the status, the media lines of both, and whether one is active; an error leaves the
  rest of the offer as it is.
\<close>

fun process_medias ::
  "neg_env \<Rightarrow> bool \<Rightarrow> sdp_session \<Rightarrow> sdp_media list \<Rightarrow> sdp_media list \<Rightarrow> nat \<Rightarrow>
   sdp_status \<times> sdp_media list \<times> sdp_media list \<times> bool" where
  "process_medias env asy offer [] ams ami = (SDP_SUCCESS, [], ams, False)"
| "process_medias env asy offer (om # oms) ams ami =
     (if ami = length ams then
        (let am = neg_clone_deactivate om (Some om) (Some offer)
         in case process_medias env asy offer oms (ams @ [am]) (ami + 1) of
              (st, oms, ams, act) \<Rightarrow> (st, sdp_media_deactivate om # oms, ams, act))
      else case process_m_answer env om (ams ! ami) asy of (st, om, am) \<Rightarrow>
        if st = PJMEDIA_SDPNEG_EINVANSMEDIA then
          (case process_medias env asy offer oms (ams[ami := am]) ami of
             (st, oms, ams, act) \<Rightarrow> (st, sdp_media_deactivate om # oms, ams, act))
        else if st \<noteq> SDP_SUCCESS \<and> st \<noteq> PJMEDIA_SDPNEG_EANSNOMEDIA then (st, om # oms, ams[ami := am], False)
        else
          let om = (if st = PJMEDIA_SDPNEG_EANSNOMEDIA then sdp_media_deactivate om else om);
              am = (if st = PJMEDIA_SDPNEG_EANSNOMEDIA then sdp_media_deactivate am else am)
          in case process_medias env asy offer oms (ams[ami := am]) (ami + 1) of
               (st, oms, ams, act) \<Rightarrow> (st, om # oms, ams, md_port om \<noteq> 0 \<or> act))"

definition process_answer ::
  "neg_env \<Rightarrow> sdp_session \<Rightarrow> sdp_session \<Rightarrow> bool \<Rightarrow> sdp_status \<times> sdp_session \<times> sdp_session" where
  "process_answer env offer answer allow_asym =
     (case process_medias env allow_asym offer (ss_media offer) (ss_media answer) 0 of (st, oms, ams, act) \<Rightarrow>
        (if st \<noteq> SDP_SUCCESS then st else if act then SDP_SUCCESS else PJMEDIA_SDPNEG_ENOMEDIA,
         offer\<lparr>ss_media := oms\<rparr>, answer\<lparr>ss_media := ams\<rparr>))"

section \<open>Creating an answer\<close>

text \<open>\<open>rewrite_pt\<close> replaces the first \<open>length old_pt\<close> characters and keeps the rest.\<close>

definition rewrite_pt :: "string \<Rightarrow> string \<Rightarrow> string \<Rightarrow> string" where
  "rewrite_pt attr_val old_pt new_pt =
     take (length attr_val + length new_pt - length old_pt) (new_pt @ drop (length old_pt) attr_val)"

definition rewrite_attr_of :: "string \<Rightarrow> string \<Rightarrow> string \<Rightarrow> sdp_media \<times> sdp_attr list \<Rightarrow> sdp_media \<times> sdp_attr list" where
  "rewrite_attr_of name old_pt new_pt s = (case s of (answer, a_tmp) \<Rightarrow>
     (case sdp_media_find_attr answer name (Some old_pt) of
        Some k \<Rightarrow>
          (let a = md_attr answer ! k
           in (sdp_media_remove_attr answer k, a_tmp @ [a\<lparr>at_value := rewrite_pt (at_value a) old_pt new_pt\<rparr>]))
      | None \<Rightarrow> (answer, a_tmp)))"

definition symmetric_step :: "(string \<times> string) list \<Rightarrow> nat \<Rightarrow> sdp_media \<times> sdp_attr list \<Rightarrow> sdp_media \<times> sdp_attr list" where
  "symmetric_step pts i s =
     (case pts ! i of (pt_offer, pt_answer) \<Rightarrow>
        if pt_answer = pt_offer then s
        else case s of (answer, a_tmp) \<Rightarrow>
          rewrite_attr_of ''fmtp'' pt_answer pt_offer
            (rewrite_attr_of ''rtpmap'' pt_answer pt_offer (answer\<lparr>md_fmt := (md_fmt answer)[i := pt_offer]\<rparr>, a_tmp)))"

definition apply_answer_symmetric_pt :: "sdp_media \<Rightarrow> (string \<times> string) list \<Rightarrow> sdp_media" where
  "apply_answer_symmetric_pt answer pts =
     (case fold (symmetric_step pts) [0..<length pts] (answer, []) of (answer, a_tmp) \<Rightarrow>
        fold (\<lambda>a m. sdp_media_add_attr m a) a_tmp answer)"

text \<open>
  The state of the loop of \<open>match_offer\<close>: what the master offers, what has been found, the pairs of
  payload types of offer and answer, and the pre-answer, whose attributes a callback may modify.
\<close>

record match_state =
  mo_codec :: bool
  mo_other :: bool
  found_codec :: bool
  found_tel :: bool
  found_other :: bool
  mo_pts :: "(string \<times> string) list"
  mo_pre :: sdp_media

definition same_codec :: "sdp_rtpmap \<Rightarrow> sdp_rtpmap \<Rightarrow> bool" where
  "same_codec or' lr =
     (pj_stricmp (rm_enc_name or') (rm_enc_name lr) = 0 \<and> rm_clock_rate or' = rm_clock_rate lr \<and>
      (pj_stricmp (rm_param or') (rm_param lr) = 0 \<or> (rm_param lr = [] \<and> rm_param or' = ''1'') \<or>
       (rm_param or' = [] \<and> rm_param lr = ''1'')))"

fun find_dynamic ::
  "neg_env \<Rightarrow> bool \<Rightarrow> sdp_media \<Rightarrow> nat \<Rightarrow> sdp_rtpmap \<Rightarrow> bool \<Rightarrow> nat list \<Rightarrow> sdp_media \<Rightarrow> nat option \<times> sdp_media" where
  "find_dynamic env pr offer i or' is_codec [] pre = (None, pre)"
| "find_dynamic env pr offer i or' is_codec (j # js) pre =
     (let slave = (if pr then pre else offer)
      in case sdp_media_find_attr slave ''rtpmap'' (Some (md_fmt slave ! j)) of
           None \<Rightarrow> find_dynamic env pr offer i or' is_codec js pre
         | Some k \<Rightarrow>
             if \<not> same_codec or' (rtpmap_of (ne_junk env) (md_attr slave ! k))
             then find_dynamic env pr offer i or' is_codec js pre
             else if is_codec then
               (case custom_fmt_match env (rm_enc_name or') offer (if pr then i else j) pre (if pr then j else i) True of
                  (st, attrs) \<Rightarrow>
                    if st \<noteq> SDP_SUCCESS then find_dynamic env pr offer i or' is_codec js (pre\<lparr>md_attr := attrs\<rparr>)
                    else (Some j, pre\<lparr>md_attr := attrs\<rparr>))
             else (Some j, pre))"

text \<open>The payload types of the formats \<open>i\<close> of the master and \<open>j\<close> of the slave, of the offer first.\<close>

definition pt_pair :: "bool \<Rightarrow> sdp_media \<Rightarrow> sdp_media \<Rightarrow> nat \<Rightarrow> nat \<Rightarrow> string \<times> string" where
  "pt_pair pr offer pre i j =
     (if pr then (md_fmt offer ! i, md_fmt pre ! j) else (md_fmt offer ! j, md_fmt pre ! i))"

definition match_fmt :: "neg_env \<Rightarrow> bool \<Rightarrow> sdp_media \<Rightarrow> nat \<Rightarrow> match_state \<Rightarrow> sdp_status + match_state" where
  "match_fmt env pr offer i st =
     (let master = (if pr then offer else mo_pre st); slave = (if pr then mo_pre st else offer);
          fmt = md_fmt master ! i; js = [0..<length (md_fmt slave)]
      in if pj_isdigit (mem_at fmt 0) then
           (let pt = pj_strtoul fmt
            in if pt < 96 then
                 (let st = st\<lparr>mo_codec := True\<rparr>
                  in if found_codec st then Inr st
                     else case first_index (\<lambda>j. pj_strtoul (md_fmt slave ! j) = pt \<and>
                                                pj_isdigit (mem_at (md_fmt slave ! j) 0)) js of
                       None \<Rightarrow> Inr st
                     | Some j \<Rightarrow> Inr (st\<lparr>found_codec := True, mo_pts := mo_pts st @ [(md_fmt slave ! j, md_fmt slave ! j)]\<rparr>))
               else case sdp_media_find_attr master ''rtpmap'' (Some fmt) of
                 None \<Rightarrow> Inl PJMEDIA_SDP_EMISSINGRTPMAP
               | Some k \<Rightarrow>
                   (let or' = rtpmap_of (ne_junk env) (md_attr master ! k);
                        is_codec = (pj_stricmp (rm_enc_name or') ''telephone-event'' \<noteq> 0);
                        st = (if is_codec then st\<lparr>mo_codec := True\<rparr> else st)
                    in if (if is_codec then found_codec st else found_tel st) then Inr st
                       else case find_dynamic env pr offer i or' is_codec js (mo_pre st) of
                         (None, pre) \<Rightarrow> Inr (st\<lparr>mo_pre := pre\<rparr>)
                       | (Some j, pre) \<Rightarrow>
                           (let st = (if is_codec then st\<lparr>found_codec := True\<rparr> else st\<lparr>found_tel := True\<rparr>)
                            in Inr (st\<lparr>mo_pts := mo_pts st @ [pt_pair pr offer pre i j], mo_pre := pre\<rparr>))))
         else
           (let st = st\<lparr>mo_other := True\<rparr>
            in if found_other st then Inr st
               else case first_index (\<lambda>j. fmt = md_fmt slave ! j) js of
                 None \<Rightarrow> Inr st
               | Some j \<Rightarrow> Inr (st\<lparr>found_other := True, mo_pts := mo_pts st @ [pt_pair pr offer (mo_pre st) i j]\<rparr>)))"

text \<open>An error ends the loop; the pre-answer is kept as it is then.\<close>

fun match_fmts :: "neg_env \<Rightarrow> bool \<Rightarrow> sdp_media \<Rightarrow> nat list \<Rightarrow> match_state \<Rightarrow> sdp_status \<times> match_state" where
  "match_fmts env pr offer [] st = (SDP_SUCCESS, st)"
| "match_fmts env pr offer (i # ks) st = (case match_fmt env pr offer i st of
     Inl e \<Rightarrow> (e, st) | Inr st \<Rightarrow> match_fmts env pr offer ks st)"

text \<open>The formats found move to the front; one that is not found is swapped with what is behind the last.\<close>

definition put_first :: "neg_env \<Rightarrow> (string \<times> string) list \<Rightarrow> nat \<Rightarrow> string list \<Rightarrow> string list" where
  "put_first env pts i fmts =
     (case first_index (\<lambda>j. fmts ! j = snd (pts ! i)) [i..<length fmts] of
        Some d \<Rightarrow> swap_nth i (i + d) fmts
      | None \<Rightarrow> if i < length fmts then fmts[i := ne_fmt env] else fmts @ [ne_fmt env])"

definition build_answer :: "neg_env \<Rightarrow> (string \<times> string) list \<Rightarrow> sdp_media \<Rightarrow> sdp_media" where
  "build_answer env pts preanswer =
     (let answer = sdp_media_clone preanswer;
          fmts = fold (put_first env pts) [0..<length pts] (md_fmt answer);
          answer = fold remove_fmt_attrs (drop (length pts) fmts) (answer\<lparr>md_fmt := fmts\<rparr>)
      in answer\<lparr>md_fmt := take (length pts) fmts\<rparr>)"

text \<open>The result: status, the pre-answer afterwards, the answer.\<close>

definition match_offer ::
  "neg_env \<Rightarrow> bool \<Rightarrow> sdp_media \<Rightarrow> sdp_media \<Rightarrow> sdp_session \<Rightarrow> sdp_status \<times> sdp_media \<times> sdp_media option" where
  "match_offer env pr offer preanswer preanswer_sdp =
     (if md_port offer = 0
      then (SDP_SUCCESS, preanswer, Some (neg_clone_deactivate offer (Some preanswer) (Some preanswer_sdp)))
      else if md_port preanswer = 0 then (SDP_SUCCESS, preanswer, Some (sdp_media_clone preanswer))
      else case match_fmts env pr offer [0..<length (md_fmt (if pr then offer else preanswer))]
          \<lparr>mo_codec = False, mo_other = False, found_codec = False, found_tel = False, found_other = False,
           mo_pts = [], mo_pre = preanswer\<rparr> of (status, st) \<Rightarrow>
        if status \<noteq> SDP_SUCCESS then (status, mo_pre st, None)
        else if mo_codec st \<and> \<not> found_codec st then (PJMEDIA_SDPNEG_NOANSCODEC, mo_pre st, None)
        else if mo_other st \<and> \<not> found_other st then (PJMEDIA_SDPNEG_NOANSUNKNOWN, mo_pre st, None)
        else (SDP_SUCCESS, mo_pre st,
          Some (update_media_direction offer
            (apply_answer_symmetric_pt (build_answer env (mo_pts st) (mo_pre st)) (mo_pts st)))))"

text \<open>
  One media line of the offer against those of the initial session from \<open>j\<close> on: the status, the
  initial session's media lines afterwards, and the line that answers with the answer.
\<close>

fun answer_media ::
  "neg_env \<Rightarrow> bool \<Rightarrow> sdp_session \<Rightarrow> sdp_media \<Rightarrow> bool list \<Rightarrow> nat list \<Rightarrow> sdp_media list \<Rightarrow> sdp_status \<Rightarrow>
   sdp_status \<times> sdp_media list \<times> (nat \<times> sdp_media) option" where
  "answer_media env pr initial om used [] ims status = (status, ims, None)"
| "answer_media env pr initial om used (j # js) ims status =
     (let im = ims ! j
      in if md_media om = md_media im \<and> md_transport om = md_transport im \<and> \<not> used ! j then
           (case match_offer env pr om im initial of (status, im, am) \<Rightarrow>
              (case am of
                 Some am \<Rightarrow> (status, ims[j := im], Some (j, am))
               | None \<Rightarrow> answer_media env pr initial om used js (ims[j := im]) status))
         else answer_media env pr initial om used js ims status)"

fun answer_medias ::
  "neg_env \<Rightarrow> bool \<Rightarrow> sdp_session \<Rightarrow> sdp_media list \<Rightarrow> bool list \<Rightarrow> sdp_media list \<Rightarrow> sdp_status \<Rightarrow>
   sdp_status \<times> sdp_media list" where
  "answer_medias env pr initial [] used ims status = (status, [])"
| "answer_medias env pr initial (om # oms) used ims status =
     (case answer_media env pr initial om used [0..<length ims] ims status of (status, ims, res) \<Rightarrow>
        (case res of
           None \<Rightarrow>
             (case answer_medias env pr initial oms used ims status of (status, ams) \<Rightarrow>
                (status, neg_clone_deactivate om (Some om) (Some initial) # ams))
         | Some (j, am) \<Rightarrow>
             (case answer_medias env pr initial oms (used[j := True]) ims status of (status, ams) \<Rightarrow>
                (status, am # ams))))"

text \<open>An answer without active media has the status of the last attempt to match, or of the validation.\<close>

definition create_answer :: "neg_env \<Rightarrow> bool \<Rightarrow> sdp_session \<Rightarrow> sdp_session \<Rightarrow> sdp_status \<times> sdp_session option" where
  "create_answer env pr initial offer =
     (if sdp_validate offer \<noteq> SDP_SUCCESS then (sdp_validate offer, None)
      else case answer_medias env pr initial (ss_media offer) (replicate PJMEDIA_MAX_SDP_MEDIA False)
          (ss_media initial) SDP_SUCCESS of (status, ams) \<Rightarrow>
        (if \<exists>am \<in> set ams. md_port am \<noteq> 0 then SDP_SUCCESS else status,
         Some ((sdp_session_clone initial)\<lparr>ss_media := ams\<rparr>)))"

section \<open>The negotiator\<close>

datatype neg_state = STATE_NULL | STATE_LOCAL_OFFER | STATE_REMOTE_OFFER | STATE_WAIT_NEGO | STATE_DONE

record sdp_neg =
  ng_state :: neg_state
  prefer_remote_codec_order :: bool
  has_remote_answer :: bool
  answer_was_remote :: bool
  initial_sdp :: "sdp_session option"
  active_local_sdp :: "sdp_session option"
  active_remote_sdp :: "sdp_session option"
  neg_local_sdp :: "sdp_session option"
  neg_remote_sdp :: "sdp_session option"

definition neg_zero :: sdp_neg where
  "neg_zero = \<lparr>ng_state = STATE_NULL, prefer_remote_codec_order = False, has_remote_answer = False,
     answer_was_remote = False, initial_sdp = None, active_local_sdp = None, active_remote_sdp = None,
     neg_local_sdp = None, neg_remote_sdp = None\<rparr>"

definition neg_create_w_local_offer :: "sdp_session \<Rightarrow> sdp_status + sdp_neg" where
  "neg_create_w_local_offer local' =
     (if sdp_validate local' \<noteq> SDP_SUCCESS then Inl (sdp_validate local')
      else Inr (neg_zero\<lparr>ng_state := STATE_LOCAL_OFFER, prefer_remote_codec_order := True,
        initial_sdp := Some (sdp_session_clone local'), neg_local_sdp := Some (sdp_session_clone local')\<rparr>))"

definition neg_create_w_remote_offer :: "sdp_session option \<Rightarrow> sdp_session \<Rightarrow> sdp_status + sdp_neg" where
  "neg_create_w_remote_offer initial remote =
     (if sdp_validate remote \<noteq> SDP_SUCCESS then Inl (sdp_validate remote)
      else
        let neg = neg_zero\<lparr>prefer_remote_codec_order := True, neg_remote_sdp := Some (sdp_session_clone remote)\<rparr>
        in case initial of
             Some i \<Rightarrow>
               if sdp_validate i \<noteq> SDP_SUCCESS then Inl (sdp_validate i)
               else Inr (neg\<lparr>initial_sdp := Some (sdp_session_clone i), neg_local_sdp := Some (sdp_session_clone i),
                      ng_state := STATE_WAIT_NEGO\<rparr>)
           | None \<Rightarrow> Inr (neg\<lparr>ng_state := STATE_REMOTE_OFFER\<rparr>))"

definition neg_set_prefer_remote_codec_order :: "sdp_neg \<Rightarrow> bool \<Rightarrow> sdp_neg" where
  "neg_set_prefer_remote_codec_order neg b = neg\<lparr>prefer_remote_codec_order := b\<rparr>"

definition or_status :: "sdp_status \<Rightarrow> sdp_session option \<Rightarrow> sdp_status + sdp_session" where
  "or_status e s = (case s of None \<Rightarrow> Inl e | Some x \<Rightarrow> Inr x)"

definition neg_get_active_local :: "sdp_neg \<Rightarrow> sdp_status + sdp_session" where
  "neg_get_active_local neg = or_status PJMEDIA_SDPNEG_ENOACTIVE (active_local_sdp neg)"

definition neg_get_active_remote :: "sdp_neg \<Rightarrow> sdp_status + sdp_session" where
  "neg_get_active_remote neg = or_status PJMEDIA_SDPNEG_ENOACTIVE (active_remote_sdp neg)"

definition neg_get_neg_remote :: "sdp_neg \<Rightarrow> sdp_status + sdp_session" where
  "neg_get_neg_remote neg = or_status PJMEDIA_SDPNEG_ENONEG (neg_remote_sdp neg)"

definition neg_get_neg_local :: "sdp_neg \<Rightarrow> sdp_status + sdp_session" where
  "neg_get_neg_local neg = or_status PJMEDIA_SDPNEG_ENONEG (neg_local_sdp neg)"

definition neg_has_local_answer :: "sdp_neg \<Rightarrow> bool" where
  "neg_has_local_answer neg = (\<not> has_remote_answer neg)"

text \<open>
  Fixing a new offer to the old one: a media line of the same type from the position \<open>oi\<close> on moves to
  \<open>oi\<close>, or a disabled line is inserted there, whatever the number of lines.
\<close>

definition fix_media :: "sdp_session \<Rightarrow> sdp_media \<Rightarrow> nat \<Rightarrow> sdp_media list \<Rightarrow> sdp_media list" where
  "fix_media local' om oi ms =
     (case first_index (\<lambda>ni. md_media (ms ! ni) = md_media om) [oi..<length ms] of
        Some 0 \<Rightarrow> ms
      | Some d \<Rightarrow> array_insert ms (oi + d) oi (ms ! (oi + d))
      | None \<Rightarrow> array_insert ms (length ms) oi (neg_clone_deactivate om (Some om) (Some local')))"

fun fix_medias :: "sdp_session \<Rightarrow> sdp_media list \<Rightarrow> nat \<Rightarrow> sdp_media list \<Rightarrow> sdp_media list" where
  "fix_medias local' [] oi ms = ms"
| "fix_medias local' (om # oms) oi ms = fix_medias local' oms (oi + 1) (fix_media local' om oi ms)"

text \<open>No result: a NULL pointer is dereferenced (\<open>old_offer\<close>, the active session).\<close>

definition neg_modify_local_offer :: "sdp_neg \<Rightarrow> sdp_session \<Rightarrow> (sdp_status \<times> sdp_neg) option" where
  "neg_modify_local_offer neg local' =
     (if ng_state neg \<noteq> STATE_DONE then Some (PJMEDIA_SDPNEG_EINSTATE, neg)
      else if sdp_validate local' \<noteq> SDP_SUCCESS then Some (sdp_validate local', neg)
      else case active_local_sdp neg of
        None \<Rightarrow> None
      | Some old_offer \<Rightarrow>
          (let new_offer = (sdp_session_clone local')\<lparr>or_user := or_user old_offer, or_id := or_id old_offer,
                 or_version := or_version old_offer + 1, or_net_type := or_net_type old_offer,
                 or_addr_type := or_addr_type old_offer, or_addr := or_addr old_offer\<rparr>;
               new_offer = new_offer\<lparr>ss_media := fix_medias local' (ss_media old_offer) 0 (ss_media new_offer)\<rparr>
           in Some (SDP_SUCCESS, neg\<lparr>ng_state := STATE_LOCAL_OFFER, initial_sdp := Some new_offer,
                neg_local_sdp := Some (sdp_session_clone new_offer)\<rparr>)))"

definition neg_send_local_offer :: "sdp_neg \<Rightarrow> sdp_status \<times> sdp_session option \<times> sdp_neg" where
  "neg_send_local_offer neg =
     (if \<not> (ng_state neg = STATE_DONE \<or> ng_state neg = STATE_LOCAL_OFFER) then (PJMEDIA_SDPNEG_EINSTATE, None, neg)
      else if ng_state neg = STATE_DONE then
        (case active_local_sdp neg of
           None \<Rightarrow> (PJMEDIA_SDPNEG_ENOACTIVE, None, neg)
         | Some s \<Rightarrow> (SDP_SUCCESS, Some s,
             neg\<lparr>ng_state := STATE_LOCAL_OFFER, neg_local_sdp := Some (sdp_session_clone s)\<rparr>))
      else (SDP_SUCCESS, neg_local_sdp neg, neg))"

definition neg_set_remote_answer :: "sdp_neg \<Rightarrow> sdp_session \<Rightarrow> sdp_status \<times> sdp_neg" where
  "neg_set_remote_answer neg remote =
     (if ng_state neg \<noteq> STATE_LOCAL_OFFER then (PJMEDIA_SDPNEG_EINSTATE, neg)
      else (SDP_SUCCESS, neg\<lparr>ng_state := STATE_WAIT_NEGO, has_remote_answer := True,
        neg_remote_sdp := Some (sdp_session_clone remote)\<rparr>))"

definition neg_set_remote_offer :: "sdp_neg \<Rightarrow> sdp_session \<Rightarrow> sdp_status \<times> sdp_neg" where
  "neg_set_remote_offer neg remote =
     (if ng_state neg \<noteq> STATE_DONE then (PJMEDIA_SDPNEG_EINSTATE, neg)
      else (SDP_SUCCESS, neg\<lparr>ng_state := STATE_REMOTE_OFFER, neg_remote_sdp := Some (sdp_session_clone remote)\<rparr>))"

definition neg_set_local_answer :: "sdp_neg \<Rightarrow> sdp_session \<Rightarrow> sdp_status \<times> sdp_neg" where
  "neg_set_local_answer neg local' =
     (if ng_state neg \<noteq> STATE_REMOTE_OFFER then (PJMEDIA_SDPNEG_EINSTATE, neg)
      else
        let neg = neg\<lparr>ng_state := STATE_WAIT_NEGO\<rparr>
        in case initial_sdp neg of
             Some i \<Rightarrow> (SDP_SUCCESS, neg\<lparr>neg_local_sdp := Some ((sdp_session_clone local')\<lparr>or_id := or_id i\<rparr>)\<rparr>)
           | None \<Rightarrow> (SDP_SUCCESS, neg\<lparr>neg_local_sdp := Some (sdp_session_clone local'),
               initial_sdp := Some (sdp_session_clone local')\<rparr>))"

definition neg_cancel_offer :: "sdp_neg \<Rightarrow> sdp_status \<times> sdp_neg" where
  "neg_cancel_offer neg =
     (if \<not> (ng_state neg = STATE_LOCAL_OFFER \<or> ng_state neg = STATE_REMOTE_OFFER) then (PJMEDIA_SDPNEG_EINSTATE, neg)
      else (SDP_SUCCESS, neg\<lparr>ng_state := STATE_DONE, neg_local_sdp := None, neg_remote_sdp := None,
        has_remote_answer := False\<rparr>))"

text \<open>Negotiation: each branch updates the active sessions; no result is a NULL pointer dereferenced.\<close>

definition nego_remote_answer :: "neg_env \<Rightarrow> bool \<Rightarrow> sdp_neg \<Rightarrow> sdp_session \<Rightarrow> (sdp_status \<times> sdp_neg) option" where
  "nego_remote_answer env allow_asym neg remote =
     (case neg_local_sdp neg of
        None \<Rightarrow> Some (SDP_EINVAL, neg)
      | Some local' \<Rightarrow>
          (case process_answer env local' remote allow_asym of (status, active, remote) \<Rightarrow>
             Some (status, if status = SDP_SUCCESS
               then neg\<lparr>active_local_sdp := Some active, active_remote_sdp := Some remote\<rparr> else neg)))"

definition nego_local_answer :: "neg_env \<Rightarrow> sdp_neg \<Rightarrow> sdp_session \<Rightarrow> (sdp_status \<times> sdp_neg) option" where
  "nego_local_answer env neg remote =
     (case neg_local_sdp neg of
        None \<Rightarrow> if sdp_validate remote \<noteq> SDP_SUCCESS then Some (sdp_validate remote, neg) else None
      | Some local' \<Rightarrow>
          (case create_answer env (prefer_remote_codec_order neg) local' remote of
             (SDP_SUCCESS, Some answer) \<Rightarrow>
               (case (active_local_sdp neg, initial_sdp neg) of
                  (None, None) \<Rightarrow> None
                | (None, Some i) \<Rightarrow>
                    Some (SDP_SUCCESS, neg\<lparr>active_local_sdp := Some (answer\<lparr>or_version := or_version i + 1\<rparr>),
                      active_remote_sdp := Some remote\<rparr>)
                | (Some a, _) \<Rightarrow>
                    Some (SDP_SUCCESS, neg\<lparr>active_local_sdp := Some (answer\<lparr>or_version := or_version a + 1\<rparr>),
                      active_remote_sdp := Some remote\<rparr>))
           | (status, _) \<Rightarrow> Some (status, neg)))"

definition neg_negotiate :: "neg_env \<Rightarrow> bool \<Rightarrow> sdp_neg \<Rightarrow> (sdp_status \<times> sdp_neg) option" where
  "neg_negotiate env allow_asym neg =
     (if ng_state neg \<noteq> STATE_WAIT_NEGO then Some (PJMEDIA_SDPNEG_EINSTATE, neg)
      else case neg_remote_sdp neg of
        None \<Rightarrow> Some (SDP_EBUG, neg)
      | Some remote \<Rightarrow>
          map_option (map_prod id (\<lambda>neg. neg\<lparr>ng_state := STATE_DONE, answer_was_remote := has_remote_answer neg,
              neg_local_sdp := None, neg_remote_sdp := None, has_remote_answer := False\<rparr>))
            (if has_remote_answer neg then nego_remote_answer env allow_asym neg remote
             else nego_local_answer env neg remote))"

end
