(* ===== verification/Sdp_neg_state.thy ===== *)
theory Sdp_neg_state
  imports Sdp_neg "HOL-Library.Multiset"
begin

text \<open>
  The negotiator from the outside: media directions, the states and their invariant under any
  sequence of operations, and the changing of an offer.
\<close>

section \<open>Directions\<close>

definition dir_sends :: "pjmedia_dir \<Rightarrow> bool" where
  "dir_sends d = (d = DIR_ENCODING \<or> d = DIR_ENCODING_DECODING)"

definition dir_receives :: "pjmedia_dir \<Rightarrow> bool" where
  "dir_receives d = (d = DIR_DECODING \<or> d = DIR_ENCODING_DECODING)"

definition dir_attrs :: "string list" where
  "dir_attrs = [''inactive'', ''sendrecv'', ''sendonly'', ''recvonly'']"

text \<open>A media line states at most one direction.\<close>

definition one_dir :: "sdp_media \<Rightarrow> bool" where
  "one_dir m = (\<forall>a \<in> set (md_attr m). \<forall>b \<in> set (md_attr m).
     at_name a \<in> set dir_attrs \<longrightarrow> at_name b \<in> set dir_attrs \<longrightarrow> at_name a = at_name b)"

lemma has_attr_iff: "has_attr m name = (\<exists>a \<in> set (md_attr m). at_name a = name)"
  using attr_find_None [of "md_attr m" name None]
  by (auto simp: has_attr_def sdp_media_find_attr_def attr_matches_def)

lemma remove_all_directions:
  "remove_all_media_directions m = m\<lparr>md_attr := filter (\<lambda>a. at_name a \<notin> set dir_attrs) (md_attr m)\<rparr>"
  by (simp add: remove_all_media_directions_def sdp_media_remove_all_attr_def attr_remove_all_filter dir_attrs_def
      conj_commute conj_left_commute)

lemma update_direction_attrs:
  assumes "length (md_attr l) < PJMEDIA_MAX_SDP_ATTR"
  shows "\<exists>as. update_media_direction r l = l\<lparr>md_attr := as\<rparr> \<and>
    filter (\<lambda>a. at_name a \<notin> set dir_attrs) as = filter (\<lambda>a. at_name a \<notin> set dir_attrs) (md_attr l) \<and>
    (\<forall>a \<in> set as. a \<in> set (md_attr l) \<or> at_name a \<in> set dir_attrs) \<and>
    media_dir (l\<lparr>md_attr := as\<rparr>) = adjusted_dir r (media_dir l)"
proof (cases "adjusted_dir r (media_dir l) = media_dir l")
  case True
  then have "update_media_direction r l = l\<lparr>md_attr := md_attr l\<rparr>" by (simp add: update_media_direction_def)
  then show ?thesis using True by (intro exI [of _ "md_attr l"]) simp
next
  case False
  let ?fs = "filter (\<lambda>a. at_name a \<notin> set dir_attrs) (md_attr l)"
  have "length ?fs \<le> length (md_attr l)" by (rule length_filter_le)
  then have n: "length ?fs < PJMEDIA_MAX_SDP_ATTR" using assms by (rule le_less_trans)
  obtain name where name: "name \<in> set dir_attrs" "update_media_direction r l = l\<lparr>md_attr := ?fs @ [sdp_attr_create name None]\<rparr>"
      "adjusted_dir r (media_dir l) = (if name = ''sendonly'' then DIR_ENCODING else if name = ''recvonly'' then DIR_DECODING
        else if name = ''inactive'' then DIR_NONE else DIR_ENCODING_DECODING)"
  proof (cases "adjusted_dir r (media_dir l)")
    case DIR_NONE
    show ?thesis
      by (rule that [of "''inactive''"]) (use DIR_NONE False n in \<open>simp_all add: update_media_direction_def remove_all_directions
        sdp_media_add_attr_def sdp_attr_add_def dir_attrs_def\<close>)
  next
    case DIR_ENCODING
    show ?thesis
      by (rule that [of "''sendonly''"]) (use DIR_ENCODING False n in \<open>simp_all add: update_media_direction_def remove_all_directions
        sdp_media_add_attr_def sdp_attr_add_def dir_attrs_def\<close>)
  next
    case DIR_DECODING
    show ?thesis
      by (rule that [of "''recvonly''"]) (use DIR_DECODING False n in \<open>simp_all add: update_media_direction_def remove_all_directions
        sdp_media_add_attr_def sdp_attr_add_def dir_attrs_def\<close>)
  next
    case DIR_ENCODING_DECODING
    then show ?thesis
      using False by (auto simp: adjusted_dir_def split: pjmedia_dir.splits if_splits)
  qed
  have "has_attr (l\<lparr>md_attr := ?fs @ [sdp_attr_create name None]\<rparr>) x = (x = name)" if "x \<in> set dir_attrs" for x
    using that by (auto simp: has_attr_iff sdp_attr_create_def)
  then have "media_dir (l\<lparr>md_attr := ?fs @ [sdp_attr_create name None]\<rparr>) = adjusted_dir r (media_dir l)"
    using name(3) by (simp add: media_dir_def dir_attrs_def)
  moreover have "\<forall>a \<in> set (?fs @ [sdp_attr_create name None]). a \<in> set (md_attr l) \<or> at_name a \<in> set dir_attrs"
    using name(1) by (simp add: sdp_attr_create_def)
  moreover have "filter (\<lambda>a. at_name a \<notin> set dir_attrs) (?fs @ [sdp_attr_create name None]) = ?fs"
    using name(1) by (simp add: sdp_attr_create_def)
  ultimately show ?thesis using name(2) by blast
qed

text \<open>
  C32: Adjusting the own direction to the peer's: afterwards the media line sends exactly if it did
  before and the peer receives, and receives exactly if it did before and the peer sends; the
  other attributes and the rest of the line are unchanged.  The peer's line has at most one direction
  attribute, and the own line has room for one more attribute.
\<close>

theorem update_direction_correct:
  assumes "one_dir remote" "length (md_attr local') < PJMEDIA_MAX_SDP_ATTR"
  shows "\<exists>as. update_media_direction remote local' = local'\<lparr>md_attr := as\<rparr> \<and>
    filter (\<lambda>a. at_name a \<notin> set dir_attrs) as = filter (\<lambda>a. at_name a \<notin> set dir_attrs) (md_attr local') \<and>
    dir_sends (media_dir (local'\<lparr>md_attr := as\<rparr>)) = (dir_sends (media_dir local') \<and> dir_receives (media_dir remote)) \<and>
    dir_receives (media_dir (local'\<lparr>md_attr := as\<rparr>)) = (dir_receives (media_dir local') \<and> dir_sends (media_dir remote))"
proof -
  obtain as where as: "update_media_direction remote local' = local'\<lparr>md_attr := as\<rparr>"
      "filter (\<lambda>a. at_name a \<notin> set dir_attrs) as = filter (\<lambda>a. at_name a \<notin> set dir_attrs) (md_attr local')"
      "media_dir (local'\<lparr>md_attr := as\<rparr>) = adjusted_dir remote (media_dir local')"
    using update_direction_attrs [OF assms(2)] by blast
  have one: "has_attr remote x \<Longrightarrow> has_attr remote y \<Longrightarrow> x \<in> set dir_attrs \<Longrightarrow> y \<in> set dir_attrs \<Longrightarrow> x = y" for x y
    using assms(1) by (auto simp: one_dir_def has_attr_iff)
  have "dir_sends (adjusted_dir remote d) = (dir_sends d \<and> dir_receives (media_dir remote)) \<and>
      dir_receives (adjusted_dir remote d) = (dir_receives d \<and> dir_sends (media_dir remote))" for d
    using one [of "''inactive''" "''sendonly''"] one [of "''inactive''" "''recvonly''"] one [of "''sendonly''" "''recvonly''"]
    by (cases d) (auto simp: adjusted_dir_def media_dir_def dir_sends_def dir_receives_def dir_attrs_def)
  then show ?thesis using as by auto
qed

theorem update_direction_correct_witness:
  "\<exists>as. update_media_direction (new_media\<lparr>md_attr := [sdp_attr_create ''sendonly'' None]\<rparr>) new_media = new_media\<lparr>md_attr := as\<rparr> \<and>
    \<not> dir_sends (media_dir (new_media\<lparr>md_attr := as\<rparr>)) \<and> dir_receives (media_dir (new_media\<lparr>md_attr := as\<rparr>))"
proof -
  let ?r = "new_media\<lparr>md_attr := [sdp_attr_create ''sendonly'' None]\<rparr>"
  have "one_dir ?r" by (simp add: one_dir_def)
  moreover have "length (md_attr new_media) < PJMEDIA_MAX_SDP_ATTR"
    by (simp add: new_media_def PJMEDIA_MAX_SDP_ATTR_def PJMEDIA_MAX_SDP_FMT_def)
  moreover have "media_dir ?r = DIR_ENCODING" "media_dir new_media = DIR_ENCODING_DECODING" by code_simp+
  ultimately show ?thesis
    using update_direction_correct [of ?r new_media] by (auto simp: dir_sends_def dir_receives_def)
qed

section \<open>The states\<close>

datatype neg_op =
    Op_prefer bool | Op_modify sdp_session | Op_send | Op_remote_answer sdp_session | Op_remote_offer sdp_session
  | Op_local_answer sdp_session | Op_cancel | Op_negotiate bool

fun neg_step :: "neg_env \<Rightarrow> neg_op \<Rightarrow> sdp_neg \<Rightarrow> sdp_neg option" where
  "neg_step env (Op_prefer b) neg = Some (neg_set_prefer_remote_codec_order neg b)"
| "neg_step env (Op_modify s) neg = map_option snd (neg_modify_local_offer neg s)"
| "neg_step env Op_send neg = Some (snd (snd (neg_send_local_offer neg)))"
| "neg_step env (Op_remote_answer s) neg = Some (snd (neg_set_remote_answer neg s))"
| "neg_step env (Op_remote_offer s) neg = Some (snd (neg_set_remote_offer neg s))"
| "neg_step env (Op_local_answer s) neg = Some (snd (neg_set_local_answer neg s))"
| "neg_step env Op_cancel neg = Some (snd (neg_cancel_offer neg))"
| "neg_step env (Op_negotiate asy) neg = map_option snd (neg_negotiate env asy neg)"

fun neg_run :: "neg_env \<Rightarrow> neg_op list \<Rightarrow> sdp_neg \<Rightarrow> sdp_neg option" where
  "neg_run env [] neg = Some neg"
| "neg_run env (op # ops) neg = Option.bind (neg_step env op neg) (neg_run env ops)"

text \<open>
  The invariant: which sessions there are in which state.  The negotiated sessions are there while
  the negotiation lasts, the active ones are there together or not at all.
\<close>

definition neg_ok :: "sdp_neg \<Rightarrow> bool" where
  "neg_ok neg =
     ((active_local_sdp neg = None) = (active_remote_sdp neg = None) \<and>
      (active_local_sdp neg \<noteq> None \<longrightarrow> initial_sdp neg \<noteq> None) \<and>
      (case ng_state neg of
         STATE_NULL \<Rightarrow> False
       | STATE_LOCAL_OFFER \<Rightarrow> neg_local_sdp neg \<noteq> None \<and> neg_remote_sdp neg = None \<and> \<not> has_remote_answer neg \<and>
           initial_sdp neg \<noteq> None
       | STATE_REMOTE_OFFER \<Rightarrow> neg_local_sdp neg = None \<and> neg_remote_sdp neg \<noteq> None \<and> \<not> has_remote_answer neg
       | STATE_WAIT_NEGO \<Rightarrow> neg_local_sdp neg \<noteq> None \<and> neg_remote_sdp neg \<noteq> None \<and> initial_sdp neg \<noteq> None
       | STATE_DONE \<Rightarrow> neg_local_sdp neg = None \<and> neg_remote_sdp neg = None \<and> \<not> has_remote_answer neg))"

lemma neg_ok_create:
  "neg_create_w_local_offer l = Inr neg \<Longrightarrow> neg_ok neg"
  "neg_create_w_remote_offer i r = Inr neg \<Longrightarrow> neg_ok neg"
  by (auto simp: neg_ok_def neg_create_w_local_offer_def neg_create_w_remote_offer_def neg_zero_def Let_def
      split: if_splits option.splits)

lemma nego_local_answer_ok:
  assumes "neg_local_sdp neg \<noteq> None" "initial_sdp neg \<noteq> None"
    and "(active_local_sdp neg = None) = (active_remote_sdp neg = None)"
  shows "\<exists>st neg'. nego_local_answer env neg remote = Some (st, neg') \<and> initial_sdp neg' = initial_sdp neg \<and>
    (active_local_sdp neg' = None) = (active_remote_sdp neg' = None)"
  using assms by (auto simp: nego_local_answer_def split: prod.splits option.splits sdp_status.splits)

lemma nego_remote_answer_ok:
  assumes "(active_local_sdp neg = None) = (active_remote_sdp neg = None)"
  shows "\<exists>st neg'. nego_remote_answer env asy neg remote = Some (st, neg') \<and> initial_sdp neg' = initial_sdp neg \<and>
    (active_local_sdp neg' = None) = (active_remote_sdp neg' = None)"
  using assms by (auto simp: nego_remote_answer_def split: prod.splits option.splits)

lemma negotiate_ok:
  assumes "neg_ok neg"
  shows "\<exists>st neg'. neg_negotiate env asy neg = Some (st, neg') \<and> neg_ok neg'"
proof (cases "ng_state neg = STATE_WAIT_NEGO")
  case True
  then obtain r where r: "neg_remote_sdp neg = Some r" and l: "neg_local_sdp neg \<noteq> None" "initial_sdp neg \<noteq> None"
      and a: "(active_local_sdp neg = None) = (active_remote_sdp neg = None)"
    using assms by (auto simp: neg_ok_def)
  obtain st neg' where "(if has_remote_answer neg then nego_remote_answer env asy neg r else nego_local_answer env neg r) = Some (st, neg')"
      "initial_sdp neg' = initial_sdp neg" "(active_local_sdp neg' = None) = (active_remote_sdp neg' = None)"
    using nego_remote_answer_ok [OF a] nego_local_answer_ok [OF l a] by (metis (full_types))
  then show ?thesis using True r l by (simp add: neg_negotiate_def neg_ok_def)
next
  case False
  then show ?thesis using assms by (simp add: neg_negotiate_def)
qed

lemma neg_step_ok:
  assumes "neg_ok neg"
  shows "case neg_step env op neg of Some neg' \<Rightarrow> neg_ok neg'
    | None \<Rightarrow> \<exists>s. op = Op_modify s \<and> ng_state neg = STATE_DONE \<and> active_local_sdp neg = None \<and> sdp_validate s = SDP_SUCCESS"
proof (cases op)
  case (Op_negotiate asy)
  then show ?thesis using negotiate_ok [OF assms, of env asy] by auto
next
  case (Op_modify s)
  then show ?thesis using assms
    by (auto simp: neg_modify_local_offer_def neg_ok_def Let_def split: option.splits neg_state.splits)
next
  case (Op_local_answer s)
  then show ?thesis using assms
    by (auto simp: neg_set_local_answer_def neg_ok_def Let_def split: option.splits neg_state.splits)
next
  case Op_send
  then show ?thesis using assms
    by (auto simp: neg_send_local_offer_def neg_ok_def split: option.splits neg_state.splits)
next
  case (Op_remote_answer s)
  then show ?thesis using assms by (auto simp: neg_set_remote_answer_def neg_ok_def split: neg_state.splits)
next
  case (Op_remote_offer s)
  then show ?thesis using assms by (auto simp: neg_set_remote_offer_def neg_ok_def split: neg_state.splits)
next
  case Op_cancel
  then show ?thesis using assms by (auto simp: neg_cancel_offer_def neg_ok_def split: neg_state.splits)
next
  case (Op_prefer b)
  then show ?thesis using assms by (auto simp: neg_set_prefer_remote_codec_order_def neg_ok_def split: neg_state.splits)
qed

text \<open>
  C12: From creation on, whatever the operations: the negotiated sessions exist exactly while they are
  needed, the active sessions exist together, and no operation dereferences a NULL pointer, with one
  exception: changing the offer when no negotiation has succeeded yet.
\<close>

theorem neg_run_safe:
  assumes "neg_create_w_local_offer l = Inr neg \<or> neg_create_w_remote_offer i r = Inr neg"
  shows "case neg_run env ops neg of
      Some neg' \<Rightarrow> neg_ok neg'
    | None \<Rightarrow> \<exists>pre s post neg'. ops = pre @ Op_modify s # post \<and> neg_run env pre neg = Some neg' \<and>
        ng_state neg' = STATE_DONE \<and> active_local_sdp neg' = None \<and> sdp_validate s = SDP_SUCCESS"
proof -
  have "neg_ok neg" using assms neg_ok_create by blast
  then show ?thesis
  proof (induction ops arbitrary: neg)
    case Nil
    then show ?case by simp
  next
    case (Cons op ops)
    show ?case
    proof (cases "neg_step env op neg")
      case None
      then obtain s where "op = Op_modify s" "ng_state neg = STATE_DONE" "active_local_sdp neg = None" "sdp_validate s = SDP_SUCCESS"
        using neg_step_ok [OF Cons.prems, where env = env and op = op] by auto
      then show ?thesis using None by (simp add: exI [of _ "[]"] exI [of _ s])
    next
      case (Some neg1)
      then have ok: "neg_ok neg1" using neg_step_ok [OF Cons.prems, where env = env and op = op] by simp
      show ?thesis
      proof (cases "neg_run env ops neg1")
        case None
        then obtain pre s post neg' where "ops = pre @ Op_modify s # post" "neg_run env pre neg1 = Some neg'"
            "ng_state neg' = STATE_DONE" "active_local_sdp neg' = None" "sdp_validate s = SDP_SUCCESS"
          using Cons.IH [OF ok] by auto
        then have "op # ops = (op # pre) @ Op_modify s # post \<and> neg_run env (op # pre) neg = Some neg' \<and>
            ng_state neg' = STATE_DONE \<and> active_local_sdp neg' = None \<and> sdp_validate s = SDP_SUCCESS"
          using Some by simp
        moreover have "neg_run env (op # ops) neg = None" using None Some by simp
        ultimately show ?thesis by (simp only: option.case) blast
      next
        case (Some neg2)
        then show ?thesis using Cons.IH [OF ok] \<open>neg_step env op neg = Some neg1\<close> by simp
      qed
    qed
  qed
qed

text \<open>The exception is reachable: the first offer is cancelled, as the header recommends, and changed.\<close>

theorem neg_run_safe_witness:
  "(case neg_create_w_local_offer (sample_session 1 [''0'']) of
      Inl e \<Rightarrow> False
    | Inr neg \<Rightarrow> neg_ok neg \<and>
        (\<forall>env. neg_run env [Op_cancel] neg \<noteq> None \<and> neg_run env [Op_cancel, Op_modify (sample_session 2 [''0''])] neg = None))"
proof -
  let ?s = "sample_session 1 [''0'']"
  have v: "sdp_validate ?s = SDP_SUCCESS" "sdp_validate (sample_session 2 [''0'']) = SDP_SUCCESS" by code_simp+
  then obtain neg where neg: "neg_create_w_local_offer ?s = Inr neg" by (simp add: neg_create_w_local_offer_def)
  have "neg_run env [] neg = Some neg" for env by simp
  then have "neg_ok neg" using neg_run_safe [where l = ?s and neg = neg and ops = "[]"] neg by simp
  moreover have "neg_run env [Op_cancel] neg \<noteq> None \<and> neg_run env [Op_cancel, Op_modify (sample_session 2 [''0''])] neg = None" for env
    using neg v by (auto simp: neg_create_w_local_offer_def neg_cancel_offer_def neg_modify_local_offer_def neg_zero_def)
  ultimately show ?thesis using neg by simp
qed

section \<open>Changing an offer\<close>

lemma first_index_Some:
  "first_index p xs = Some i \<Longrightarrow> i < length xs \<and> p (xs ! i) \<and> (\<forall>j < i. \<not> p (xs ! j))"
proof (induction xs arbitrary: i)
  case (Cons x xs)
  then show ?case by (cases i) (auto split: if_splits simp: less_Suc_eq_0_disj)
qed simp

lemma first_index_None: "first_index p xs = None \<longleftrightarrow> (\<forall>x \<in> set xs. \<not> p x)"
  by (induction xs) auto

lemma array_insert_at:
  assumes "pos \<le> n" "n < length xs"
  shows "array_insert xs n pos (xs ! n) = take pos xs @ [xs ! n] @ drop pos (take n xs) @ drop (Suc n) xs"
  using assms by (simp add: array_insert_def drop_take)

lemma fix_media_props:
  assumes "oi \<le> length ms"
  shows "take oi (fix_media l om oi ms) = take oi ms" "oi < length (fix_media l om oi ms)"
    "md_media (fix_media l om oi ms ! oi) = md_media om"
    "mset ms \<subseteq># mset (fix_media l om oi ms)" "length ms \<le> length (fix_media l om oi ms)"
    "length (fix_media l om oi ms) \<le> Suc (length ms)"
proof -
  let ?r = "fix_media l om oi ms"
  have "take oi ?r = take oi ms \<and> oi < length ?r \<and> md_media (?r ! oi) = md_media om \<and> mset ms \<subseteq># mset ?r \<and>
      length ms \<le> length ?r \<and> length ?r \<le> Suc (length ms)"
  proof (cases "first_index (\<lambda>ni. md_media (ms ! ni) = md_media om) [oi..<length ms]")
    case None
    let ?m = "neg_clone_deactivate om (Some om) (Some l)"
    have r: "?r = take oi ms @ [?m] @ drop oi ms"
      using None assms by (simp add: fix_media_def array_insert_def)
    have "md_media ?m = md_media om" by (simp add: neg_clone_deactivate_def Let_def split: option.splits)
    moreover have "mset ?r = mset (take oi ms @ drop oi ms) + {#?m#}" unfolding r by (simp del: append_take_drop_id)
    ultimately show ?thesis using assms r by (simp add: nth_append)
  next
    case (Some d)
    have fi: "oi + d < length ms" "md_media (ms ! (oi + d)) = md_media om"
      using first_index_Some [OF Some] by auto
    show ?thesis
    proof (cases d)
      case 0
      then show ?thesis using fi Some by (simp add: fix_media_def)
    next
      case (Suc d')
      let ?c = "oi + d"
      have c: "oi \<le> ?c" "?c < length ms" using fi by auto
      have r: "?r = take oi ms @ [ms ! ?c] @ drop oi (take ?c ms) @ drop (Suc ?c) ms"
        using Some Suc array_insert_at [OF c] by (simp add: fix_media_def)
      have "ms = (take oi ms @ drop oi (take ?c ms)) @ ms ! ?c # drop (Suc ?c) ms"
        using c(2) by (metis append_take_drop_id id_take_nth_drop le_add1 min.absorb1 take_take)
      then have "mset ms = mset ((take oi ms @ drop oi (take ?c ms)) @ ms ! ?c # drop (Suc ?c) ms)" by (rule arg_cong)
      also have "\<dots> = mset ?r" unfolding r by simp
      finally have "mset ms = mset ?r" .
      moreover from this have "length ?r = length ms" by (metis size_mset)
      ultimately show ?thesis using c fi r by (simp add: nth_append)
    qed
  qed
  then show "take oi ?r = take oi ms" "oi < length ?r" "md_media (?r ! oi) = md_media om"
    "mset ms \<subseteq># mset ?r" "length ms \<le> length ?r" "length ?r \<le> Suc (length ms)" by auto
qed

lemma fix_medias_props:
  assumes "oi \<le> length ms"
  shows "take oi (fix_medias l oms oi ms) = take oi ms \<and>
    map md_media (take (length oms) (drop oi (fix_medias l oms oi ms))) = map md_media oms \<and>
    mset ms \<subseteq># mset (fix_medias l oms oi ms) \<and> length (fix_medias l oms oi ms) \<le> length ms + length oms \<and>
    oi + length oms \<le> length (fix_medias l oms oi ms)"
  using assms
proof (induction oms arbitrary: oi ms)
  case Nil
  then show ?case by simp
next
  case (Cons om oms)
  let ?ms = "fix_media l om oi ms"
  let ?r = "fix_medias l oms (Suc oi) ?ms"
  note p = fix_media_props [OF Cons.prems, of l om]
  have ih: "take (Suc oi) ?r = take (Suc oi) ?ms" "map md_media (take (length oms) (drop (Suc oi) ?r)) = map md_media oms"
    "mset ?ms \<subseteq># mset ?r" "length ?r \<le> length ?ms + length oms" "Suc oi + length oms \<le> length ?r"
    using Cons.IH [of "Suc oi" ?ms] p(2) by auto
  have at: "?r ! oi = ?ms ! oi" using ih(1) by (metis lessI nth_take)
  have "drop oi ?r = ?r ! oi # drop (Suc oi) ?r" using ih(5) by (intro Cons_nth_drop_Suc [symmetric]) simp
  then have "map md_media (take (length (om # oms)) (drop oi ?r)) = map md_media (om # oms)"
    using at p(3) ih(2) by simp
  moreover have "take oi ?r = take oi ms" using ih(1) p(1) by (metis le_add2 min.absorb1 plus_1_eq_Suc take_take)
  moreover have "mset ms \<subseteq># mset ?r" using p(4) ih(3) by (rule subset_mset.order_trans)
  ultimately show ?case using ih p by auto
qed

text \<open>
  C33: A changed offer keeps the order of the session: it starts with one media line for each line of the
  active session, of the same type and in the same order; all media lines of the new session are
  in it; the version in its origin is one more than the active one, the rest of the origin is the same.
  It can have more media lines than the array holds.
\<close>

theorem modified_offer_correct:
  assumes "neg_modify_local_offer neg s = Some (SDP_SUCCESS, neg')"
  shows "\<exists>old new. active_local_sdp neg = Some old \<and> neg_local_sdp neg' = Some new \<and> initial_sdp neg' = Some new \<and>
    ng_state neg' = STATE_LOCAL_OFFER \<and>
    map md_media (take (length (ss_media old)) (ss_media new)) = map md_media (ss_media old) \<and>
    mset (ss_media s) \<subseteq># mset (ss_media new) \<and>
    length (ss_media new) \<le> length (ss_media s) + length (ss_media old) \<and>
    or_version new = or_version old + 1 \<and> or_id new = or_id old \<and> or_user new = or_user old \<and> or_addr new = or_addr old"
proof -
  obtain old where old: "active_local_sdp neg = Some old" "ng_state neg = STATE_DONE" "sdp_validate s = SDP_SUCCESS"
    using assms by (auto simp: neg_modify_local_offer_def split: if_splits option.splits)
  then show ?thesis
    using assms fix_medias_props [of 0 "ss_media s" s "ss_media old"]
    by (auto simp: neg_modify_local_offer_def Let_def)
qed

definition many_media :: "string \<Rightarrow> nat \<Rightarrow> sdp_session" where
  "many_media type n = (let s = sample_session 1 [''0''] in s\<lparr>ss_media := replicate n ((hd (ss_media s))\<lparr>md_media := type\<rparr>)\<rparr>)"

theorem modified_offer_correct_witness:
  "\<exists>neg' new. neg_modify_local_offer (neg_zero\<lparr>ng_state := STATE_DONE, active_local_sdp := Some (many_media ''audio'' 1)\<rparr>)
      (many_media ''video'' 16) = Some (SDP_SUCCESS, neg') \<and> neg_local_sdp neg' = Some new \<and>
      map md_media (take 1 (ss_media new)) = [''audio''] \<and> PJMEDIA_MAX_SDP_MEDIA < length (ss_media new)"
proof -
  let ?neg = "neg_zero\<lparr>ng_state := STATE_DONE, active_local_sdp := Some (many_media ''audio'' 1)\<rparr>"
  have v: "sdp_validate (many_media ''video'' 16) = SDP_SUCCESS" by code_simp
  then obtain neg' where n: "neg_modify_local_offer ?neg (many_media ''video'' 16) = Some (SDP_SUCCESS, neg')"
    by (simp add: neg_modify_local_offer_def neg_zero_def Let_def)
  obtain new where new: "neg_local_sdp neg' = Some new" "map md_media (take 1 (ss_media new)) = [''audio'']"
      "mset (ss_media (many_media ''video'' 16)) \<subseteq># mset (ss_media new)"
    using modified_offer_correct [OF n] by (auto simp: neg_zero_def many_media_def Let_def sample_session_def)
  have "ss_media new \<noteq> []" using new(2) by auto
  then obtain m ms where ms: "ss_media new = m # ms" "md_media m = ''audio''" using new(2) by (cases "ss_media new") auto
  let ?v = "hd (ss_media (many_media ''video'' 16))"
  have "ss_media (many_media ''video'' 16) = replicate 16 ?v" "md_media ?v = ''video''" by code_simp+
  then have "mset (replicate 16 ?v) \<subseteq># mset ms + {#m#}" "m \<noteq> ?v" using new(3) ms by auto
  then have "mset (replicate 16 ?v) \<subseteq># mset ms" by (auto simp: subseteq_mset_def split: if_splits)
  then have "16 \<le> length ms" using size_mset_mono by fastforce
  then show ?thesis using n new ms by (auto simp: PJMEDIA_MAX_SDP_MEDIA_def)
qed

end
