(* ===== verification/Sdp_neg_answer.thy ===== *)
theory Sdp_neg_answer
  imports Sdp_neg_state "HOL-Library.Sublist"
begin

text \<open>
  Processing an answer: which formats are left on both sides of a media line and in which order,
  and how the media lines of a whole answer are paired with those of the offer.
\<close>

section \<open>Processing an answer\<close>

text \<open>The attribute a search finds, and what removing another one leaves of it.\<close>

definition attr_lookup :: "sdp_media \<Rightarrow> string \<Rightarrow> string \<Rightarrow> sdp_attr option" where
  "attr_lookup m name fmt = map_option ((!) (md_attr m)) (sdp_media_find_attr m name (Some fmt))"

lemma attr_lookup_find: "attr_lookup m name fmt = List.find (attr_matches name (Some fmt)) (md_attr m)"
proof (cases "sdp_media_find_attr m name (Some fmt)")
  case None
  then have "\<forall>a \<in> set (md_attr m). \<not> attr_matches name (Some fmt) a"
    using attr_find_None by (simp add: sdp_media_find_attr_def)
  then show ?thesis using None by (simp add: attr_lookup_def find_None_iff2)
next
  case (Some i)
  have "\<exists>i<length (md_attr m). attr_matches name (Some fmt) (md_attr m ! i) \<and> md_attr m ! i = md_attr m ! i \<and>
      (\<forall>j<i. \<not> attr_matches name (Some fmt) (md_attr m ! j))"
    using attr_find_Some [OF Some [unfolded sdp_media_find_attr_def]] by blast
  then have "List.find (attr_matches name (Some fmt)) (md_attr m) = Some (md_attr m ! i)"
    using attr_find_Some [OF Some [unfolded sdp_media_find_attr_def]] by (auto simp: find_Some_iff)
  then show ?thesis using Some by (simp add: attr_lookup_def)
qed

lemma find_append: "List.find P (xs @ ys) = (case List.find P xs of None \<Rightarrow> List.find P ys | Some x \<Rightarrow> Some x)"
  by (induction xs) auto

lemma find_array_erase: "k < length xs \<Longrightarrow> \<not> P (xs ! k) \<Longrightarrow> List.find P (array_erase xs k) = List.find P xs"
proof -
  assume k: "k < length xs" "\<not> P (xs ! k)"
  have "List.find P (take k xs @ xs ! k # drop (Suc k) xs) = List.find P (take k xs @ drop (Suc k) xs)"
    using k(2) by (cases "List.find P (take k xs)") (simp_all add: find_append)
  then show ?thesis using k(1) by (simp add: array_erase_def id_take_nth_drop [symmetric])
qed

lemma lookup_remove_attr:
  assumes "name \<noteq> name' \<or> pj_strtoul fmt \<noteq> pj_strtoul fmt'"
  shows "attr_lookup (remove_attr_of name' fmt' m) name fmt = attr_lookup m name fmt"
proof (cases "sdp_media_find_attr m name' (Some fmt')")
  case (Some k)
  note f = attr_find_Some [OF Some [unfolded sdp_media_find_attr_def]]
  have "\<not> attr_matches name (Some fmt) (md_attr m ! k)" using f(2) assms by (auto simp: attr_matches_def)
  then show ?thesis
    using Some f(1) by (simp add: remove_attr_of_def attr_lookup_find sdp_media_remove_attr_def sdp_attr_remove_def find_array_erase)
qed (simp add: remove_attr_of_def)

lemma lookup_remove_fmt:
  "pj_strtoul fmt \<noteq> pj_strtoul (md_fmt m ! i) \<Longrightarrow> attr_lookup (remove_fmt i m) name fmt = attr_lookup m name fmt"
  by (simp add: remove_fmt_def remove_fmt_attrs_def attr_lookup_find lookup_remove_attr [unfolded attr_lookup_find])

lemma filter_update_direction:
  "filter (\<lambda>a. at_name a \<notin> set dir_attrs) (md_attr (update_media_direction r l)) = filter (\<lambda>a. at_name a \<notin> set dir_attrs) (md_attr l)"
  by (auto simp: update_media_direction_def Let_def remove_all_directions sdp_media_add_attr_def sdp_attr_add_def
      sdp_attr_create_def dir_attrs_def split: pjmedia_dir.splits)

lemma update_direction_rest [simp]:
  "md_fmt (update_media_direction r l) = md_fmt l" "md_port (update_media_direction r l) = md_port l"
  "md_media (update_media_direction r l) = md_media l" "md_transport (update_media_direction r l) = md_transport l"
  by (auto simp: update_media_direction_def Let_def remove_all_directions sdp_media_add_attr_def split: pjmedia_dir.splits)

lemma find_filter: "(\<And>x. P x \<Longrightarrow> Q x) \<Longrightarrow> List.find P (filter Q xs) = List.find P xs"
  by (induction xs) auto

lemma lookup_update_direction:
  assumes "name \<notin> set dir_attrs"
  shows "attr_lookup (update_media_direction r l) name fmt = attr_lookup l name fmt"
proof -
  have "attr_lookup m name fmt = List.find (attr_matches name (Some fmt)) (filter (\<lambda>a. at_name a \<notin> set dir_attrs) (md_attr m))" for m
    unfolding attr_lookup_find using assms by (intro find_filter [symmetric]) (auto simp: attr_matches_def)
  then show ?thesis by (simp add: filter_update_direction)
qed

text \<open>A media line that names no codec with a registered callback for custom matching.\<close>

definition no_callback :: "neg_env \<Rightarrow> string \<Rightarrow> bool" where
  "no_callback env name = (\<forall>e \<in> set (ne_cbs env). pj_stricmp name (fst e) \<noteq> 0)"

definition unregistered :: "neg_env \<Rightarrow> sdp_media \<Rightarrow> bool" where
  "unregistered env m = (\<forall>a \<in> set (md_attr m). at_name a = ''rtpmap'' \<longrightarrow>
     no_callback env (rm_enc_name (rtpmap_of (ne_junk env) a)))"

lemma no_callback_custom: "no_callback env name \<Longrightarrow>
    custom_fmt_match env name offer i answer j modify = (SDP_SUCCESS, md_attr answer)"
  using first_index_None [of "\<lambda>e. pj_stricmp name (fst e) = 0" "ne_cbs env"]
  by (simp add: custom_fmt_match_def no_callback_def)

lemma unregistered_empty: "ne_cbs env = [] \<Longrightarrow> unregistered env m"
  by (simp add: unregistered_def no_callback_def)

lemma unregistered_at:
  assumes "unregistered env m" "sdp_media_find_attr m ''rtpmap'' f = Some k"
  shows "no_callback env (rm_enc_name (rtpmap_of (ne_junk env) (md_attr m ! k)))"
  using assms(1) attr_find_Some [OF assms(2) [unfolded sdp_media_find_attr_def]]
  by (auto simp: unregistered_def attr_matches_def)

lemma array_erase_subset: "set (array_erase xs i) \<subseteq> set xs"
  by (auto simp: array_erase_def dest: in_set_takeD in_set_dropD)

lemma remove_attr_subset: "set (md_attr (remove_attr_of name fmt m)) \<subseteq> set (md_attr m)"
  by (auto simp: remove_attr_of_def sdp_media_remove_attr_def sdp_attr_remove_def
      dest: subsetD [OF array_erase_subset] split: option.split)

lemma unregistered_remove: "unregistered env m \<Longrightarrow> unregistered env (remove_fmt i m)"
proof -
  have "set (md_attr (remove_fmt i m)) \<subseteq> set (md_attr m)"
    unfolding remove_fmt_def remove_fmt_attrs_def by (auto dest!: subsetD [OF remove_attr_subset])
  then show "unregistered env m \<Longrightarrow> unregistered env (remove_fmt i m)" by (auto simp: unregistered_def)
qed

lemma unregistered_direction: "unregistered env m \<Longrightarrow> unregistered env (update_media_direction r m)"
proof -
  assume u: "unregistered env m"
  have "a \<in> set (md_attr m)" if "a \<in> set (md_attr (update_media_direction r m))" "at_name a = ''rtpmap''" for a
  proof -
    have "a \<in> set (filter (\<lambda>a. at_name a \<notin> set dir_attrs) (md_attr (update_media_direction r m)))"
      using that by (simp add: dir_attrs_def)
    then show ?thesis unfolding filter_update_direction by simp
  qed
  then show ?thesis using u by (simp add: unregistered_def)
qed

text \<open>
  When no custom matching is registered for its codec, a format of the offer and one of the answer match by their
  text and their attributes: static payload types by their text, dynamic ones by what their \<open>rtpmap\<close>s say.
\<close>

definition fmts_match :: "neg_env \<Rightarrow> sdp_media \<Rightarrow> sdp_media \<Rightarrow> string \<Rightarrow> string \<Rightarrow> bool" where
  "fmts_match env offer answer f g =
     (if pj_strtoul f < 96 then f = g
      else case (attr_lookup offer ''rtpmap'' f, attr_lookup answer ''rtpmap'' g) of
        (Some oa, Some aa) \<Rightarrow>
          (let or' = rtpmap_of (ne_junk env) oa; ar = rtpmap_of (ne_junk env) aa
           in pj_stricmp (rm_enc_name or') (rm_enc_name ar) = 0 \<and> rm_clock_rate or' = rm_clock_rate ar \<and>
              (pj_stricmp (rm_param or') (rm_param ar) = 0 \<or> rm_param ar = ''1''))
      | _ \<Rightarrow> False)"

lemma find_answer_fmt_spec:
  assumes cbs: "unregistered env offer" and eq: "find_answer_fmt env offer i answer = Inr r"
  shows "r = None \<Longrightarrow> g \<in> set (md_fmt answer) \<Longrightarrow> \<not> fmts_match env offer answer (md_fmt offer ! i) g"
    "r = Some j \<Longrightarrow> j < length (md_fmt answer) \<and> fmts_match env offer answer (md_fmt offer ! i) (md_fmt answer ! j)"
proof -
  let ?f = "md_fmt offer ! i"
  have "r = first_index (\<lambda>j. fmts_match env offer answer ?f (md_fmt answer ! j)) [0..<length (md_fmt answer)]"
  proof (cases "pj_strtoul ?f < 96")
    case True
    then show ?thesis using eq by (simp add: find_answer_fmt_def fmts_match_def)
  next
    case False
    then obtain k where k: "sdp_media_find_attr offer ''rtpmap'' (Some ?f) = Some k"
      using eq by (auto simp: find_answer_fmt_def Let_def split: option.splits)
    then have "rtpmap_match env offer i (rtpmap_of (ne_junk env) (md_attr offer ! k)) answer j =
        fmts_match env offer answer ?f (md_fmt answer ! j)" for j
      using False by (auto simp: rtpmap_match_def fmts_match_def attr_lookup_def no_callback_custom [OF unregistered_at [OF cbs k]]
          Let_def split: option.splits)
    then have "rtpmap_match env offer i (rtpmap_of (ne_junk env) (md_attr offer ! k)) answer =
        (\<lambda>j. fmts_match env offer answer ?f (md_fmt answer ! j))" by (rule ext)
    then show ?thesis using eq False k by (simp add: find_answer_fmt_def Let_def)
  qed
  note r = this
  show "\<not> fmts_match env offer answer ?f g" if none: "r = None" and g: "g \<in> set (md_fmt answer)"
  proof -
    obtain j where "j < length (md_fmt answer)" "g = md_fmt answer ! j" using g by (auto simp: in_set_conv_nth)
    then show ?thesis using none r first_index_None [of "\<lambda>j. fmts_match env offer answer ?f (md_fmt answer ! j)"] by simp
  qed
  show "j < length (md_fmt answer) \<and> fmts_match env offer answer ?f (md_fmt answer ! j)" if "r = Some j"
    using first_index_Some [OF r [unfolded that, symmetric]] by auto
qed

lemma fmts_match_remove:
  "pj_strtoul f \<noteq> pj_strtoul (md_fmt offer ! i) \<Longrightarrow>
   fmts_match env (remove_fmt i offer) answer f g = fmts_match env offer answer f g"
  by (simp add: fmts_match_def lookup_remove_fmt)

lemma distinct_map_others:
  assumes "distinct (map h xs)" "i < length xs" "x \<in> set (take i xs @ drop (Suc i) xs)"
  shows "h x \<noteq> h (xs ! i)"
proof -
  have "distinct (map h (take i xs @ xs ! i # drop (Suc i) xs))"
    using assms(1) id_take_nth_drop [OF assms(2)] by metis
  then have "h (xs ! i) \<notin> set (map h (take i xs @ drop (Suc i) xs))" by auto
  then show ?thesis using assms(3) by (metis image_eqI list.set_map)
qed

lemma find_answer_fmt_not_success: "find_answer_fmt env offer i answer \<noteq> Inl SDP_SUCCESS"
  by (simp add: find_answer_fmt_def Let_def split: option.splits)

lemma keep_common_spec:
  assumes "unregistered env offer"
  shows "keep_common env answer offer i prior = (SDP_SUCCESS, offer', prior') \<Longrightarrow>
    distinct (map pj_strtoul (md_fmt offer)) \<Longrightarrow> i \<le> length (md_fmt offer) \<Longrightarrow>
    \<exists>js. prior' = prior @ js \<and>
      md_fmt offer' = take i (md_fmt offer) @
        filter (\<lambda>f. \<exists>g \<in> set (md_fmt answer). fmts_match env offer answer f g) (drop i (md_fmt offer)) \<and>
      length js + i = length (md_fmt offer') \<and>
      (\<forall>k < length js. js ! k < length (md_fmt answer) \<and>
        fmts_match env offer answer (md_fmt offer' ! (i + k)) (md_fmt answer ! (js ! k))) \<and>
      md_port offer' = md_port offer"
  using assms
proof (induction env answer offer i prior arbitrary: offer' prior' rule: keep_common.induct)
  case (1 env answer offer i prior)
  show ?case
  proof (cases "i < length (md_fmt offer)")
    case False
    then have "keep_common env answer offer i prior = (SDP_SUCCESS, offer, prior)"
      by (subst keep_common.simps) simp
    then have "offer' = offer" "prior' = prior" "i = length (md_fmt offer)"
      using "1.prems"(1,3) False by simp_all
    then show ?thesis by (intro exI [of _ "[]"]) simp
  next
    case True
    let ?f = "md_fmt offer ! i"
    have dr: "drop i (md_fmt offer) = ?f # drop (Suc i) (md_fmt offer)" using True by (rule Cons_nth_drop_Suc [symmetric])
    obtain r where r: "find_answer_fmt env offer i answer = Inr r"
      using "1.prems"(1) True
      by (cases "find_answer_fmt env offer i answer")
        (auto simp: keep_common.simps [of env answer offer i] find_answer_fmt_not_success)
    note spec = find_answer_fmt_spec [OF "1.prems"(4) r]
    show ?thesis
    proof (cases r)
      case None
      let ?o = "remove_fmt i offer"
      have fm: "md_fmt ?o = take i (md_fmt offer) @ drop (Suc i) (md_fmt offer)" by (simp add: array_erase_def)
      have d: "distinct (map pj_strtoul (md_fmt ?o))"
        using "1.prems"(2) unfolding fm by (subst (asm) id_take_nth_drop [OF True]) auto
      have ne: "pj_strtoul f \<noteq> pj_strtoul ?f" if "f \<in> set (md_fmt ?o)" for f
        using distinct_map_others [OF "1.prems"(2) True] that unfolding fm by blast
      have kc: "keep_common env answer ?o i prior = (SDP_SUCCESS, offer', prior')"
        using "1.prems"(1) True r None by (simp add: keep_common.simps [of env answer offer i])
      have len: "i \<le> length (md_fmt ?o)" using True by simp
      obtain js where js: "prior' = prior @ js"
          "md_fmt offer' = take i (md_fmt ?o) @ filter (\<lambda>f. \<exists>g \<in> set (md_fmt answer). fmts_match env ?o answer f g) (drop i (md_fmt ?o))"
          "length js + i = length (md_fmt offer')" "md_port offer' = md_port ?o"
          "\<forall>k < length js. js ! k < length (md_fmt answer) \<and>
            fmts_match env ?o answer (md_fmt offer' ! (i + k)) (md_fmt answer ! (js ! k))"
        using "1.IH"(1) [OF True r None kc d len unregistered_remove [OF "1.prems"(4)]] by blast
      have dropo: "drop i (md_fmt ?o) = drop (Suc i) (md_fmt offer)" "take i (md_fmt ?o) = take i (md_fmt offer)"
        using True unfolding fm by simp_all
      have same: "fmts_match env ?o answer f g = fmts_match env offer answer f g" if "f \<in> set (md_fmt ?o)" for f g
        using ne [OF that] by (rule fmts_match_remove)
      have "filter (\<lambda>f. \<exists>g \<in> set (md_fmt answer). fmts_match env ?o answer f g) (drop i (md_fmt ?o)) =
          filter (\<lambda>f. \<exists>g \<in> set (md_fmt answer). fmts_match env offer answer f g) (drop i (md_fmt ?o))"
        using same by (intro filter_cong refl) (meson in_set_dropD)
      then have fo: "md_fmt offer' = take i (md_fmt offer) @
          filter (\<lambda>f. \<exists>g \<in> set (md_fmt answer). fmts_match env offer answer f g) (drop i (md_fmt offer))"
        using js(2) dropo dr spec(1) [OF None] by auto
      have "set (md_fmt offer') \<subseteq> set (md_fmt ?o)" unfolding js(2) by (auto dest: in_set_takeD in_set_dropD)
      then have "fmts_match env offer answer (md_fmt offer' ! (i + k)) (md_fmt answer ! (js ! k))" if "k < length js" for k
        using js(5) js(3) that same [of "md_fmt offer' ! (i + k)"] by (metis add.commute nat_add_left_cancel_less nth_mem subsetD)
      then show ?thesis using js fo by (auto simp: remove_fmt_def remove_fmt_attrs_def remove_attr_of_def sdp_media_remove_attr_def split: option.splits)
    next
      case (Some j)
      have kc: "keep_common env answer offer (i + 1) (prior @ [j]) = (SDP_SUCCESS, offer', prior')"
        using "1.prems"(1) True r Some by (simp add: keep_common.simps [of env answer offer i])
      have len: "i + 1 \<le> length (md_fmt offer)" using True by simp
      let ?P = "\<lambda>f. \<exists>g \<in> set (md_fmt answer). fmts_match env offer answer f g"
      obtain js where js: "prior' = (prior @ [j]) @ js"
          "md_fmt offer' = take (i + 1) (md_fmt offer) @ filter ?P (drop (i + 1) (md_fmt offer))"
          "length js + (i + 1) = length (md_fmt offer')" "md_port offer' = md_port offer"
          "\<forall>k < length js. js ! k < length (md_fmt answer) \<and>
            fmts_match env offer answer (md_fmt offer' ! (i + 1 + k)) (md_fmt answer ! (js ! k))"
        using "1.IH"(2) [OF True r Some kc "1.prems"(2) len "1.prems"(4)] by blast
      have f: "j < length (md_fmt answer)" "fmts_match env offer answer ?f (md_fmt answer ! j)" using spec(2) [OF Some] by auto
      then have "?P ?f" by auto
      then have fo: "md_fmt offer' = take i (md_fmt offer) @ filter ?P (drop i (md_fmt offer))"
        using js(2) dr True by (simp add: take_Suc_conv_app_nth)
      have "md_fmt offer' ! i = ?f" using js(2) True by (simp add: nth_append)
      then have "(j # js) ! k < length (md_fmt answer) \<and>
          fmts_match env offer answer (md_fmt offer' ! (i + k)) (md_fmt answer ! ((j # js) ! k))" if "k < length (j # js)" for k
        using that js(5) f by (cases k) auto
      then show ?thesis using js fo by (intro exI [of _ "j # js"]) auto
    qed
  qed
qed

text \<open>The exchange sort.\<close>

lemma length_swap_nth [simp]: "length (swap_nth i j xs) = length xs"
  by (simp add: swap_nth_def)

lemma zip_swap_nth:
  assumes "i < length xs" "j < length xs" "length ys = length xs"
  shows "zip (swap_nth i j xs) (swap_nth i j ys) = swap_nth i j (zip xs ys)"
  using assms by (simp add: swap_nth_def zip_update [symmetric] update_zip)

lemma mset_swap_nth: "i < length xs \<Longrightarrow> j < length xs \<Longrightarrow> mset (swap_nth i j xs) = mset xs"
  by (simp add: swap_nth_def mset_swap)

definition sort_inv :: "nat \<Rightarrow> nat \<Rightarrow> nat list \<Rightarrow> bool" where
  "sort_inv i a p = ((\<forall>k l. k < i \<longrightarrow> k < l \<longrightarrow> l < length p \<longrightarrow> p ! k \<le> p ! l) \<and>
     (\<forall>l. i < l \<longrightarrow> l < a \<longrightarrow> l < length p \<longrightarrow> p ! i \<le> p ! l))"

lemma sort_step_inv:
  assumes "length f = length p" "i < a" "a < length p" "sort_inv i a p" "sort_step i a (p, f) = (p', f')"
  shows "length p' = length p \<and> length f' = length f \<and> mset (zip p' f') = mset (zip p f) \<and> sort_inv i (Suc a) p'"
proof (cases "p ! i > p ! a")
  case True
  then have e: "p' = swap_nth i a p" "f' = swap_nth i a f" using assms(5) by (simp_all add: sort_step_def)
  have nth: "p' ! l = (if l = a then p ! i else if l = i then p ! a else p ! l)" if "l < length p" for l
    using that assms(2,3) by (simp add: e swap_nth_def nth_list_update)
  have "sort_inv i (Suc a) p'"
    unfolding sort_inv_def
  proof (intro conjI allI impI)
    fix k l
    assume kl: "k < i" "k < l" "l < length p'"
    then have "p' ! k = p ! k" using assms(2,3) nth [of k] e by simp
    moreover have "p ! k \<le> p ! i" "p ! k \<le> p ! a" "p ! k \<le> p ! l"
      using assms(2,3,4) kl e by (auto simp: sort_inv_def)
    ultimately show "p' ! k \<le> p' ! l" using nth [of l] kl e by simp
  next
    fix l
    assume l: "i < l" "l < Suc a" "l < length p'"
    show "p' ! i \<le> p' ! l"
      using assms(2,3,4) l True nth [of i] nth [of l] e by (auto simp: sort_inv_def)
  qed
  then show ?thesis
    using e assms(1,2,3) by (simp add: zip_swap_nth mset_swap_nth)
next
  case False
  then have e: "p' = p" "f' = f" using assms(5) by (simp_all add: sort_step_def)
  then show ?thesis using assms(4) False by (auto simp: sort_inv_def less_Suc_eq)
qed

lemma sort_inner:
  assumes "length f = length p" "i < a" "a \<le> length p" "sort_inv i a p" "fold (sort_step i) [a..<length p] (p, f) = (p', f')"
  shows "length p' = length p \<and> length f' = length f \<and> mset (zip p' f') = mset (zip p f) \<and> sort_inv i (length p) p'"
  using assms
proof (induction "length p - a" arbitrary: a p f)
  case 0
  then show ?case by simp
next
  case (Suc d)
  then have a: "a < length p" by simp
  obtain p1 f1 where s: "sort_step i a (p, f) = (p1, f1)" by force
  note st = sort_step_inv [OF Suc.prems(1,2) a Suc.prems(4) s]
  have "fold (sort_step i) [Suc a..<length p1] (p1, f1) = (p', f')"
    using Suc.prems(5) a s st by (simp add: upt_conv_Cons)
  then show ?case using Suc.hyps(1) [of p1 "Suc a" f1] Suc.hyps(2) Suc.prems st a by auto
qed

lemma sort_outer:
  assumes "length f = length p" "i \<le> length p" "\<forall>k l. k < i \<longrightarrow> k < l \<longrightarrow> l < length p \<longrightarrow> p ! k \<le> p ! l"
    and "fold (\<lambda>i. fold (sort_step i) [i + 1..<length p]) [i..<length p] (p, f) = (p', f')"
  shows "length p' = length p \<and> length f' = length f \<and> mset (zip p' f') = mset (zip p f) \<and> sorted p'"
  using assms
proof (induction "length p - i" arbitrary: i p f)
  case 0
  then show ?case by (auto simp: sorted_iff_nth_mono_less)
next
  case (Suc d)
  then have i: "i < length p" by simp
  obtain p1 f1 where s: "fold (sort_step i) [i + 1..<length p] (p, f) = (p1, f1)" by force
  have "sort_inv i (i + 1) p" using Suc.prems(3) by (auto simp: sort_inv_def)
  then have st: "length p1 = length p" "length f1 = length f" "mset (zip p1 f1) = mset (zip p f)" "sort_inv i (length p) p1"
    using sort_inner [OF Suc.prems(1) _ _ _ s] i by auto
  have "fold (\<lambda>i. fold (sort_step i) [i + 1..<length p1]) [Suc i..<length p1] (p1, f1) = (p', f')"
    using Suc.prems(4) i s st(1) by (simp add: upt_conv_Cons)
  moreover have "\<forall>k l. k < Suc i \<longrightarrow> k < l \<longrightarrow> l < length p1 \<longrightarrow> p1 ! k \<le> p1 ! l"
    using st(1,4) by (auto simp: sort_inv_def less_Suc_eq)
  ultimately show ?case using Suc.hyps(1) [of p1 "Suc i" f1] Suc.hyps(2) Suc.prems(1) st i by auto
qed

lemma sort_fmts_correct:
  assumes "length prior = length fmts" "sort_fmts prior fmts = (p, f)"
  shows "length p = length f \<and> mset (zip p f) = mset (zip prior fmts) \<and> sorted p"
  using sort_outer [of fmts prior 0 p f] assms by (simp add: sort_fmts_def Let_def)

text \<open>Removing the formats of the answer at the positions that do not occur in \<open>prior\<close>.\<close>

lemma remove_unmatched_fmts:
  assumes "sorted_wrt (<) prior" "\<forall>j \<in> set prior. j < length F"
    and "i \<le> length prior" "i < length prior \<longrightarrow> i + del \<le> prior ! i"
    and "md_fmt answer = map ((!) F) (take i prior) @ drop (i + del) F"
  shows "md_fmt (remove_unmatched prior answer i del) = map ((!) F) prior"
  using assms
proof (induction prior answer i del rule: remove_unmatched.induct)
  case (1 prior answer i del)
  show ?case
  proof (cases "i < length (md_fmt answer)")
    case False
    then have "drop (i + del) F = []" using "1.prems"(3,5) by (metis add.commute append_Nil2 length_append length_map length_take less_add_same_cancel2 list.size(3) min.absorb2 neq0_conv length_0_conv)
    then have n: "length F \<le> i + del" by simp
    have "i = length prior"
    proof (rule ccontr)
      assume "i \<noteq> length prior"
      then have "i < length prior" using "1.prems"(3) by simp
      then show False using "1.prems"(2,4) n by (metis leD le_trans nth_mem)
    qed
    have "remove_unmatched prior answer i del = answer" using False by (subst remove_unmatched.simps) simp
    then show ?thesis using "1.prems"(5) n \<open>i = length prior\<close> by simp
  next
    case True
    have li: "length (map ((!) F) (take i prior)) = i" using "1.prems"(3) by simp
    have lt: "i + del < length F" using True "1.prems"(5) li by (metis append_Nil2 drop_all leI less_irrefl)
    have dr: "drop (i + del) F = F ! (i + del) # drop (Suc (i + del)) F" using lt by (rule Cons_nth_drop_Suc [symmetric])
    show ?thesis
    proof (cases "i \<ge> length prior \<or> int (prior ! i) - int del \<noteq> int i")
      case c: True
      have "md_fmt (remove_fmt i answer) = map ((!) F) (take i prior) @ drop (i + (del + 1)) F"
        using "1.prems"(5) dr li by (simp add: array_erase_def)
      moreover have "i < length prior \<longrightarrow> i + (del + 1) \<le> prior ! i" using "1.prems"(4) c by auto
      ultimately have "md_fmt (remove_unmatched prior (remove_fmt i answer) i (del + 1)) = map ((!) F) prior"
        using "1.prems" True c by (intro "1.IH"(1)) auto
      then show ?thesis using True c by (simp add: remove_unmatched.simps [of prior answer i del])
    next
      case c: False
      then have p: "i < length prior" "prior ! i = i + del" by auto
      have "md_fmt answer = map ((!) F) (take (i + 1) prior) @ drop (i + 1 + del) F"
        using "1.prems"(5) dr p by (simp add: take_Suc_conv_app_nth)
      moreover have "i + 1 < length prior \<longrightarrow> i + 1 + del \<le> prior ! (i + 1)"
        using "1.prems"(1) p sorted_wrt_nth_less [of "(<)" prior i "i + 1"] by auto
      ultimately have "md_fmt (remove_unmatched prior answer (i + 1) del) = map ((!) F) prior"
        using "1.prems" True c p by (intro "1.IH"(2)) auto
      then show ?thesis using True c by (simp add: remove_unmatched.simps [of prior answer i del])
    qed
  qed
qed

lemma subseq_nths:
  assumes "sorted_wrt (<) p" "\<forall>j \<in> set p. j < length F"
  shows "subseq (map ((!) F) p) F"
proof -
  have "subseq p [0..<length F]" using assms by (intro sorted_subset_imp_subseq) auto
  then have "subseq (map ((!) F) p) (map ((!) F) [0..<length F])" by (rule subseq_map)
  then show ?thesis by (simp only: map_nth)
qed

lemma remove_unmatched_rest [simp]:
  "md_port (remove_unmatched prior answer i del) = md_port answer"
  "md_media (remove_unmatched prior answer i del) = md_media answer"
  by (induction prior answer i del rule: remove_unmatched.induct)
    (subst remove_unmatched.simps; simp add: remove_fmt_def remove_fmt_attrs_def remove_attr_of_def sdp_media_remove_attr_def split: option.splits)+

text \<open>
  C11: When both lines are active and processing the answered line succeeds, without asymmetric media,
  offer and answer are left with equally many formats that match one by one, in the answer's order; in
  the offer exactly the formats that match one of the answer are left, in the answer nothing else is.  This is
  so when the offer names no codec with a registered callback, has distinct payload numbers, and no format of
  the answer matches two of it; without the last a codec can be lost (\<open>agreed_codec_lost\<close>).
\<close>

theorem process_m_answer_pairs:
  assumes "process_m_answer env offer answer False = (SDP_SUCCESS, offer', answer')"
    and "md_port offer \<noteq> 0" "md_port answer \<noteq> 0" "unregistered env offer"
    and "distinct (map pj_strtoul (md_fmt offer))"
    and "\<forall>f \<in> set (md_fmt offer). \<forall>f' \<in> set (md_fmt offer). \<forall>g \<in> set (md_fmt answer).
      fmts_match env offer answer f g \<longrightarrow> fmts_match env offer answer f' g \<longrightarrow> f = f'"
  shows "length (md_fmt offer') = length (md_fmt answer') \<and> md_fmt offer' \<noteq> [] \<and>
    (\<forall>k < length (md_fmt offer'). fmts_match env offer answer (md_fmt offer' ! k) (md_fmt answer' ! k)) \<and>
    set (md_fmt offer') = {f \<in> set (md_fmt offer). \<exists>g \<in> set (md_fmt answer). fmts_match env offer answer f g} \<and>
    subseq (md_fmt answer') (md_fmt answer)"
proof -
  let ?o = "update_media_direction answer offer" and ?A = "md_fmt answer"
  have same: "fmts_match env ?o answer f g = fmts_match env offer answer f g" for f g
    by (simp add: fmts_match_def lookup_update_direction dir_attrs_def)
  obtain o1 prior where kc: "keep_common env answer ?o 0 [] = (SDP_SUCCESS, o1, prior)" and ne: "md_fmt o1 \<noteq> []"
      and fin: "(case sort_fmts prior (md_fmt o1) of (p, f) \<Rightarrow> offer' = o1\<lparr>md_fmt := f\<rparr> \<and> answer' = remove_unmatched p answer 0 0)"
    using assms(1-3) by (auto simp: process_m_answer_def split: if_splits prod.splits)
  obtain p f where so: "sort_fmts prior (md_fmt o1) = (p, f)" by force
  with fin have fin: "offer' = o1\<lparr>md_fmt := f\<rparr>" "answer' = remove_unmatched p answer 0 0" by simp_all
  from keep_common_spec [OF unregistered_direction [OF assms(4)] kc] assms(5) same
  have o1: "md_fmt o1 = filter (\<lambda>f. \<exists>g \<in> set ?A. fmts_match env offer answer f g) (md_fmt offer)" "length prior = length (md_fmt o1)"
    and pr: "\<forall>k < length prior. prior ! k < length ?A \<and> fmts_match env offer answer (md_fmt o1 ! k) (?A ! (prior ! k))"
    by auto
  from sort_fmts_correct [OF o1(2) so]
  have srt: "length p = length f" "mset (zip p f) = mset (zip prior (md_fmt o1))" "sorted p" by auto
  then have st: "set (zip p f) = set (zip prior (md_fmt o1))" by (metis set_mset_mset)
  have pair: "p ! k < length ?A \<and> f ! k \<in> set (md_fmt o1) \<and> fmts_match env offer answer (f ! k) (?A ! (p ! k))" if "k < length p" for k
  proof -
    have "(p ! k, f ! k) \<in> set (zip p f)" using that srt(1) by (auto simp: in_set_zip)
    then obtain l where "l < length prior" "p ! k = prior ! l" "f ! k = md_fmt o1 ! l" "l < length (md_fmt o1)"
      unfolding st by (auto simp: in_set_zip)
    then show ?thesis using pr by auto
  qed
  have "mset p = mset prior" "mset f = mset (md_fmt o1)"
    using srt(1) o1(2) arg_cong [OF srt(2), of "image_mset fst"] arg_cong [OF srt(2), of "image_mset snd"]
    by (simp_all flip: mset_map)
  then have f: "set f = set (md_fmt o1)" "distinct f" "length f = length (md_fmt o1)"
    using assms(5) o1(1) by (metis set_mset_mset, metis distinct_filter distinct_map mset_eq_imp_distinct_iff, metis size_mset)
  have "p ! k \<noteq> p ! l" if "k < l" "l < length p" for k l
  proof
    assume "p ! k = p ! l"
    moreover have "f ! k \<in> set (md_fmt offer)" "f ! l \<in> set (md_fmt offer)" using pair [of k] pair [of l] that o1(1) by auto
    ultimately have "f ! k = f ! l" using assms(6) pair [of k] pair [of l] that by (metis less_trans nth_mem)
    then show False using f(2) srt(1) that by (simp add: nth_eq_iff_index_eq)
  qed
  then have sp: "sorted_wrt (<) p"
    using srt(3) by (auto simp: sorted_wrt_iff_nth_less sorted_iff_nth_mono_less less_le)
  have lt: "\<forall>j \<in> set p. j < length ?A" using pair by (auto simp: in_set_conv_nth)
  have "md_fmt answer' = map ((!) ?A) p"
    unfolding fin using remove_unmatched_fmts [OF sp lt, of 0 0 answer] by simp
  then show ?thesis
    using pair srt(1) f ne o1(1) subseq_nths [OF sp lt] unfolding fin by auto
qed

definition plain_env :: "string \<Rightarrow> neg_env" where
  "plain_env junk = \<lparr>ne_cbs = [], ne_call = (\<lambda>_ _ _ answer _ _. (SDP_SUCCESS, md_attr answer)),
     ne_junk = \<lparr>rm_pt = junk, rm_enc_name = junk, rm_clock_rate = 8000, rm_param = []\<rparr>, ne_fmt = junk\<rparr>"

definition g7221_env :: neg_env where
  "g7221_env = (plain_env [])\<lparr>ne_cbs := [(''G7221'', 1)], ne_call := (\<lambda>_ _ _ answer _ _. (SDP_EBUG, md_attr answer))\<rparr>"

definition audio_line :: "string list \<Rightarrow> string list \<Rightarrow> sdp_media" where
  "audio_line fmts maps = new_media\<lparr>md_media := ''audio'', md_port := 4000, md_transport := ''RTP/AVP'', md_fmt := fmts,
     md_attr := map (\<lambda>v. \<lparr>at_name = ''rtpmap'', at_value = v\<rparr>) maps\<rparr>"

theorem process_m_answer_pairs_witness:
  "let offer = audio_line [''0'', ''8'', ''97'', ''101''] [''97 speex/8000'', ''101 telephone-event/8000''];
       answer = audio_line [''96'', ''3'', ''0''] [''96 TELEPHONE-EVENT/8000'']
   in case process_m_answer g7221_env offer answer False of (st, offer', answer') \<Rightarrow>
     st = SDP_SUCCESS \<and> length (md_fmt offer') = length (md_fmt answer') \<and> subseq (md_fmt answer') (md_fmt answer)"
proof -
  let ?o = "audio_line [''0'', ''8'', ''97'', ''101''] [''97 speex/8000'', ''101 telephone-event/8000'']"
  let ?a = "audio_line [''96'', ''3'', ''0''] [''96 TELEPHONE-EVENT/8000'']"
  obtain st o1 a1 where eq: "process_m_answer g7221_env ?o ?a False = (st, o1, a1)" by (rule prod_cases3)
  moreover have "fst (process_m_answer g7221_env ?o ?a False) = SDP_SUCCESS" by code_simp
  ultimately have st: "st = SDP_SUCCESS" by simp
  have "md_port ?o \<noteq> 0" "md_port ?a \<noteq> 0" "unregistered g7221_env ?o" "distinct (map pj_strtoul (md_fmt ?o))"
    "\<forall>f \<in> set (md_fmt ?o). \<forall>f' \<in> set (md_fmt ?o). \<forall>g \<in> set (md_fmt ?a).
      fmts_match g7221_env ?o ?a f g \<longrightarrow> fmts_match g7221_env ?o ?a f' g \<longrightarrow> f = f'"
    by code_simp+
  from process_m_answer_pairs [OF eq [unfolded st] this] show ?thesis using eq st by simp
qed

text \<open>
  When the offer names a codec twice (with other parameters, say) and the answer accepts it once, a codec
  accepted after it is lost: here both sides agree on \<open>0\<close>, which stays in the offer and is
  removed from the answer.
\<close>

theorem agreed_codec_lost:
  "let offer = audio_line [''97'', ''98'', ''0''] [''97 speex/8000'', ''98 speex/8000''];
       answer = audio_line [''97'', ''0''] [''97 speex/8000'']
   in case process_m_answer (plain_env []) offer answer False of (st, offer', answer') \<Rightarrow>
     st = SDP_SUCCESS \<and> md_fmt offer' = [''97'', ''98'', ''0''] \<and> md_fmt answer' = [''97'']"
  by code_simp

text \<open>
  With asymmetric media allowed, an answer without any codec of the offer is accepted: the code
  compares the answer's formats with themselves.
\<close>

theorem asymmetric_unchecked:
  assumes "md_media answer = md_media offer" "sdp_transport_cmp (md_transport answer) (md_transport offer) = SDP_SUCCESS"
    and "md_port answer \<noteq> 0" "md_port offer \<noteq> 0" "md_fmt answer \<noteq> []" "md_fmt offer \<noteq> []"
  shows "fst (process_m_answer env offer answer True) = SDP_SUCCESS"
proof -
  have "\<exists>i < length (md_fmt answer). \<exists>j < length (md_fmt offer). md_fmt answer ! i = md_fmt answer ! j"
    using assms(5,6) by (intro exI [of _ 0]) auto
  then show ?thesis using assms by (auto simp: process_m_answer_def asym_common_def list_ex_iff Bex_def)
qed

theorem asymmetric_unchecked_witness:
  "fst (process_m_answer (plain_env []) (audio_line [''0''] []) (audio_line [''8''] []) True) = SDP_SUCCESS"
proof -
  let ?o = "audio_line [''0''] []" and ?a = "audio_line [''8''] []"
  have "md_media ?a = md_media ?o" "sdp_transport_cmp (md_transport ?a) (md_transport ?o) = SDP_SUCCESS"
    "md_port ?a \<noteq> 0" "md_port ?o \<noteq> 0" "md_fmt ?a \<noteq> []" "md_fmt ?o \<noteq> []" by code_simp+
  then show ?thesis by (rule asymmetric_unchecked)
qed

text \<open>Processing a whole answer.\<close>

lemma remove_fmt_rest [simp]:
  "md_port (remove_fmt i m) = md_port m" "md_media (remove_fmt i m) = md_media m"
  by (simp_all add: remove_fmt_def remove_fmt_attrs_def remove_attr_of_def sdp_media_remove_attr_def split: option.split)

lemma keep_common_rest:
  "keep_common env answer offer i prior = (st, offer', prior') \<Longrightarrow> md_port offer' = md_port offer \<and> md_media offer' = md_media offer"
proof (induction env answer offer i prior rule: keep_common.induct)
  case (1 env answer offer i prior)
  show ?case
  proof (cases "i < length (md_fmt offer)")
    case False
    then show ?thesis using "1.prems" by (subst (asm) keep_common.simps) simp
  next
    case True
    show ?thesis
    proof (cases "find_answer_fmt env offer i answer")
      case (Inl e)
      then show ?thesis using "1.prems" True by (subst (asm) keep_common.simps) simp
    next
      case (Inr r)
      show ?thesis
      proof (cases r)
        case None
        then have "keep_common env answer (remove_fmt i offer) i prior = (st, offer', prior')"
          using "1.prems" True Inr by (subst (asm) keep_common.simps) simp
        then show ?thesis using "1.IH"(1) [OF True Inr None] by simp
      next
        case (Some j)
        then have "keep_common env answer offer (i + 1) (prior @ [j]) = (st, offer', prior')"
          using "1.prems" True Inr by (subst (asm) keep_common.simps) simp
        then show ?thesis using "1.IH"(2) [OF True Inr Some] by simp
      qed
    qed
  qed
qed

lemma keep_common_status:
  "keep_common env answer o1 i prior = (s1, o2, p2) \<Longrightarrow> s1 = SDP_SUCCESS \<or> s1 = SDP_EBUG"
proof (induction env answer o1 i prior rule: keep_common.induct)
  case (1 env answer offer i prior)
  show ?case
  proof (cases "i < length (md_fmt offer)")
    case False
    then show ?thesis using "1.prems" by (subst (asm) keep_common.simps) simp
  next
    case True
    show ?thesis
    proof (cases "find_answer_fmt env offer i answer")
      case (Inl e)
      then have "e = SDP_EBUG" by (auto simp: find_answer_fmt_def Let_def split: if_splits option.splits)
      then show ?thesis using "1.prems" True Inl by (subst (asm) keep_common.simps) simp
    next
      case (Inr r)
      then show ?thesis using "1.prems" True "1.IH"(1) [OF True Inr] "1.IH"(2) [OF True Inr]
        by (cases r; subst (asm) (3) keep_common.simps) simp_all
    qed
  qed
qed

lemma process_m_answer_rest:
  assumes "process_m_answer env offer answer asy = (st, offer', answer')"
  shows "md_media offer' = md_media offer" "md_media answer' = md_media answer"
    "md_port answer = 0 \<Longrightarrow> st = SDP_SUCCESS \<Longrightarrow> md_port offer' = 0"
    "st = PJMEDIA_SDPNEG_EINVANSMEDIA \<Longrightarrow> md_media answer \<noteq> md_media offer"
    "st = PJMEDIA_SDPNEG_EANSNOMEDIA \<Longrightarrow> md_port answer \<noteq> 0"
proof -
  show "md_media offer' = md_media offer" "md_media answer' = md_media answer"
    using assms by (auto simp: process_m_answer_def Let_def sdp_media_deactivate_def dest!: keep_common_rest split: if_splits prod.splits)
  show "md_port answer = 0 \<Longrightarrow> st = SDP_SUCCESS \<Longrightarrow> md_port offer' = 0"
    using assms by (auto simp: process_m_answer_def sdp_media_deactivate_def split: if_splits)
  show "st = PJMEDIA_SDPNEG_EINVANSMEDIA \<Longrightarrow> md_media answer \<noteq> md_media offer"
    using assms by (auto simp: process_m_answer_def Let_def dest!: keep_common_status split: if_splits prod.splits)
  show "st = PJMEDIA_SDPNEG_EANSNOMEDIA \<Longrightarrow> md_port answer \<noteq> 0"
    using assms by (auto simp: process_m_answer_def split: if_splits)
qed

lemma process_medias_spec:
  "process_medias env asy offer oms ams ami = (SDP_SUCCESS, oms', ams', act) \<Longrightarrow> ami \<le> length ams \<Longrightarrow>
   (\<forall>i < length oms. ami + i < length ams \<longrightarrow> md_media (ams ! (ami + i)) = md_media (oms ! i)) \<Longrightarrow>
   length oms' = length oms \<and> length ams' = max (length ams) (ami + length oms) \<and> take ami ams' = take ami ams \<and>
   (\<forall>i < length oms. md_media (oms' ! i) = md_media (oms ! i) \<and> md_media (ams' ! (ami + i)) = md_media (oms ! i) \<and>
      (ami + i < length ams \<longrightarrow> md_port (ams ! (ami + i)) = 0 \<longrightarrow> md_port (oms' ! i) = 0) \<and>
      (length ams \<le> ami + i \<longrightarrow> md_port (oms' ! i) = 0 \<and> md_port (ams' ! (ami + i)) = 0)) \<and>
   act = (\<exists>m \<in> set oms'. md_port m \<noteq> 0)"
proof (induction oms arbitrary: ams ami oms' act)
  case Nil
  then show ?case by (auto simp: max_def)
next
  case (Cons om oms)
  text \<open>Both branches go on behind the line at \<open>ami\<close>, with the new lines \<open>om1\<close> and \<open>am1\<close>.\<close>
  have step: ?case
    if rec: "process_medias env asy offer oms ams1 (Suc ami) = (SDP_SUCCESS, oms1, ams', act1)"
      and res: "oms' = om1 # oms1" "act = (md_port om1 \<noteq> 0 \<or> act1)"
      and ams1: "take ami ams1 = take ami ams" "ami < length ams1" "length ams1 = max (length ams) (Suc ami)"
        "\<forall>i. ami < i \<longrightarrow> i < length ams1 \<longrightarrow> ams1 ! i = ams ! i"
      and med: "md_media om1 = md_media om" "md_media (ams1 ! ami) = md_media om"
      and port: "ami < length ams \<longrightarrow> md_port (ams ! ami) = 0 \<longrightarrow> md_port om1 = 0"
        "length ams \<le> ami \<longrightarrow> md_port om1 = 0 \<and> md_port (ams1 ! ami) = 0"
    for ams1 oms1 act1 om1
  proof -
    have same: "\<forall>i < length oms. Suc ami + i < length ams1 \<longrightarrow> md_media (ams1 ! (Suc ami + i)) = md_media (oms ! i)"
    proof (intro allI impI)
      fix i
      assume i: "i < length oms" "Suc ami + i < length ams1"
      then have "ams1 ! (Suc ami + i) = ams ! (ami + Suc i)" "ami + Suc i < length ams" using ams1(3,4) by auto
      then show "md_media (ams1 ! (Suc ami + i)) = md_media (oms ! i)" using Cons.prems(3) i(1) by force
    qed
    have ih: "length oms1 = length oms" "length ams' = max (length ams1) (Suc ami + length oms)" "take (Suc ami) ams' = take (Suc ami) ams1"
        "act1 = (\<exists>m \<in> set oms1. md_port m \<noteq> 0)"
      and ihi: "\<And>i. i < length oms \<Longrightarrow> md_media (oms1 ! i) = md_media (oms ! i) \<and> md_media (ams' ! (Suc ami + i)) = md_media (oms ! i) \<and>
        (Suc ami + i < length ams1 \<longrightarrow> md_port (ams1 ! (Suc ami + i)) = 0 \<longrightarrow> md_port (oms1 ! i) = 0) \<and>
        (length ams1 \<le> Suc ami + i \<longrightarrow> md_port (oms1 ! i) = 0 \<and> md_port (ams' ! (Suc ami + i)) = 0)"
      using Cons.IH [OF rec _ same] ams1(2) by auto
    have at: "ams' ! ami = ams1 ! ami" using ih(3) by (metis lessI nth_take)
    have tk: "take ami ams' = take ami ams" using ih(3) ams1(1) by (metis Suc_n_not_le_n linorder_le_cases min.absorb1 take_take)
    have "md_media (oms' ! i) = md_media ((om # oms) ! i) \<and> md_media (ams' ! (ami + i)) = md_media ((om # oms) ! i) \<and>
        (ami + i < length ams \<longrightarrow> md_port (ams ! (ami + i)) = 0 \<longrightarrow> md_port (oms' ! i) = 0) \<and>
        (length ams \<le> ami + i \<longrightarrow> md_port (oms' ! i) = 0 \<and> md_port (ams' ! (ami + i)) = 0)" if i: "i < length (om # oms)" for i
    proof (cases i)
      case 0
      then show ?thesis using res at med port by simp
    next
      case (Suc k)
      then have "k < length oms" using i by simp
      from ihi [OF this] show ?thesis using Suc res ams1(3,4) by (auto simp: max_def split: if_splits)
    qed
    then show ?thesis using ih(1,2,4) ams1(3) res tk by (auto simp: max_def)
  qed
  show ?case
  proof (cases "ami = length ams")
    case True
    let ?am = "neg_clone_deactivate om (Some om) (Some offer)"
    obtain st oms1 ams1 act1 where r: "process_medias env asy offer oms (ams @ [?am]) (Suc ami) = (st, oms1, ams1, act1)"
      by (rule prod_cases4)
    have am: "md_media ?am = md_media om" "md_port ?am = 0"
      by (simp_all add: neg_clone_deactivate_def Let_def split: option.split)
    show ?thesis
      by (rule step [of "ams @ [?am]" oms1 act1 "sdp_media_deactivate om"])
        (use Cons.prems(1) True r am in \<open>auto simp: sdp_media_deactivate_def Let_def\<close>)
  next
    case False
    then have lt: "ami < length ams" using Cons.prems(2) by simp
    obtain st om1 am1 where p: "process_m_answer env om (ams ! ami) asy = (st, om1, am1)" by (rule prod_cases3)
    note rest = process_m_answer_rest [OF p]
    have same: "md_media (ams ! ami) = md_media om" using Cons.prems(3) lt by force
    have ne: "st \<noteq> PJMEDIA_SDPNEG_EINVANSMEDIA" using rest(4) same by auto
    have ok: "st = SDP_SUCCESS \<or> st = PJMEDIA_SDPNEG_EANSNOMEDIA"
      using Cons.prems(1) False p ne by (auto split: if_splits)
    define om2 where "om2 = (if st = PJMEDIA_SDPNEG_EANSNOMEDIA then sdp_media_deactivate om1 else om1)"
    define am2 where "am2 = (if st = PJMEDIA_SDPNEG_EANSNOMEDIA then sdp_media_deactivate am1 else am1)"
    obtain s1 oms1 ams1 act1 where r: "process_medias env asy offer oms (ams[ami := am2]) (Suc ami) = (s1, oms1, ams1, act1)"
      by (rule prod_cases4)
    have eq: "(s1, om2 # oms1, ams1, md_port om2 \<noteq> 0 \<or> act1) = (SDP_SUCCESS, oms', ams', act)"
      using Cons.prems(1) False p ne ok r unfolding om2_def am2_def by (auto simp: Let_def)
    have "md_media om2 = md_media om" "md_media am2 = md_media om" "md_port (ams ! ami) = 0 \<longrightarrow> md_port om2 = 0"
      using rest same ok by (auto simp: om2_def am2_def sdp_media_deactivate_def)
    then show ?thesis
      by (intro step [of "ams[ami := am2]" oms1 act1 om2]) (use eq r lt in auto)
  qed
qed

lemma process_m_answer_status: "process_m_answer env offer answer asy = (st, offer', answer') \<Longrightarrow> st \<noteq> PJMEDIA_SDPNEG_ENOMEDIA"
  by (auto simp: process_m_answer_def Let_def dest!: keep_common_status split: if_splits prod.splits)

lemma process_medias_status: "process_medias env asy offer oms ams ami = (st, oms', ams', act) \<Longrightarrow> st \<noteq> PJMEDIA_SDPNEG_ENOMEDIA"
proof (induction oms arbitrary: ams ami oms' ams' act)
  case (Cons om oms)
  obtain s1 om1 am1 where p: "process_m_answer env om (ams ! ami) asy = (s1, om1, am1)" by (rule prod_cases3)
  then show ?case
    using Cons process_m_answer_status [OF p]
    by (auto simp: Let_def split: if_splits prod.splits)
qed simp

text \<open>The first line, if any, on which processing the answer fails for another reason than its formats ends it.\<close>

definition line_error :: "neg_env \<Rightarrow> bool \<Rightarrow> sdp_media list \<Rightarrow> sdp_media list \<Rightarrow> sdp_status option" where
  "line_error env asy oms ams = List.find (\<lambda>e. e \<noteq> SDP_SUCCESS \<and> e \<noteq> PJMEDIA_SDPNEG_EANSNOMEDIA)
     (map2 (\<lambda>om am. fst (process_m_answer env om am asy)) oms ams)"

lemma process_medias_error:
  "process_medias env asy offer oms ams ami = (st, oms', ams', act) \<Longrightarrow> ami \<le> length ams \<Longrightarrow>
   (\<forall>i < length oms. ami + i < length ams \<longrightarrow> md_media (ams ! (ami + i)) = md_media (oms ! i)) \<Longrightarrow>
   line_error env asy oms (drop ami ams) = (if st = SDP_SUCCESS then None else Some st)"
proof (induction oms arbitrary: ams ami st oms' ams' act)
  case Nil
  then show ?case by (simp add: line_error_def)
next
  case (Cons om oms)
  show ?case
  proof (cases "ami = length ams")
    case True
    let ?am = "neg_clone_deactivate om (Some om) (Some offer)"
    obtain s1 oms1 ams1 act1 where r: "process_medias env asy offer oms (ams @ [?am]) (Suc ami) = (s1, oms1, ams1, act1)"
      by (rule prod_cases4)
    have "s1 = st" using Cons.prems(1) True r by simp
    then show ?thesis using Cons.IH [OF r] True by (simp add: line_error_def split: if_splits)
  next
    case False
    then have lt: "ami < length ams" using Cons.prems(2) by simp
    obtain s om1 am1 where p: "process_m_answer env om (ams ! ami) asy = (s, om1, am1)" by (rule prod_cases3)
    have dr: "drop ami ams = ams ! ami # drop (Suc ami) ams" using lt by (rule Cons_nth_drop_Suc [symmetric])
    have ne: "s \<noteq> PJMEDIA_SDPNEG_EINVANSMEDIA" using process_m_answer_rest(4) [OF p] Cons.prems(3) lt by force
    show ?thesis
    proof (cases "s \<noteq> SDP_SUCCESS \<and> s \<noteq> PJMEDIA_SDPNEG_EANSNOMEDIA")
      case True
      then show ?thesis using Cons.prems(1) False p ne dr by (auto simp: line_error_def)
    next
      case ok: False
      define am2 where "am2 = (if s = PJMEDIA_SDPNEG_EANSNOMEDIA then sdp_media_deactivate am1 else am1)"
      obtain s1 oms1 ams1 act1 where r: "process_medias env asy offer oms (ams[ami := am2]) (Suc ami) = (s1, oms1, ams1, act1)"
        by (rule prod_cases4)
      have "s1 = st" using Cons.prems(1) False p ne ok r unfolding am2_def by (auto simp: Let_def)
      moreover have "line_error env asy oms (drop (Suc ami) (ams[ami := am2])) = (if s1 = SDP_SUCCESS then None else Some s1)"
        using Cons.prems(3) lt by (intro Cons.IH [OF r]) force+
      ultimately show ?thesis using ok p dr by (auto simp: line_error_def)
    qed
  qed
qed

definition local_pair :: "string \<Rightarrow> string \<Rightarrow> sdp_session" where
  "local_pair t1 t2 = (sample_session 1 [])\<lparr>ss_media := [(audio_line [''0''] [])\<lparr>md_media := t1\<rparr>, (audio_line [''31''] [])\<lparr>md_media := t2\<rparr>]\<rparr>"

lemma process_answer_lines:
  assumes "process_answer env offer answer asy = (st, offer', answer')" "st = SDP_SUCCESS \<or> st = PJMEDIA_SDPNEG_ENOMEDIA"
    and "\<forall>i < min (length (ss_media offer)) (length (ss_media answer)).
      md_media (ss_media answer ! i) = md_media (ss_media offer ! i)"
  shows "map md_media (ss_media offer') = map md_media (ss_media offer) \<and>
    map md_media (take (length (ss_media offer)) (ss_media answer')) = map md_media (ss_media offer) \<and>
    length (ss_media answer') = max (length (ss_media answer)) (length (ss_media offer)) \<and>
    (\<forall>i < length (ss_media offer). length (ss_media answer) \<le> i \<or> md_port (ss_media answer ! i) = 0 \<longrightarrow>
       md_port (ss_media offer' ! i) = 0) \<and>
    (\<forall>i < length (ss_media offer). length (ss_media answer) \<le> i \<longrightarrow> md_port (ss_media answer' ! i) = 0) \<and>
    (st = SDP_SUCCESS \<longleftrightarrow> (\<exists>m \<in> set (ss_media offer'). md_port m \<noteq> 0))"
proof -
  obtain s oms ams act where p: "process_medias env asy offer (ss_media offer) (ss_media answer) 0 = (s, oms, ams, act)"
    by (rule prod_cases4)
  have st: "s = SDP_SUCCESS" "st = SDP_SUCCESS \<longleftrightarrow> act" "offer' = offer\<lparr>ss_media := oms\<rparr>" "answer' = answer\<lparr>ss_media := ams\<rparr>"
    using assms(1,2) p process_medias_status [OF p] by (auto simp: process_answer_def split: if_splits)
  have spec: "length oms = length (ss_media offer)" "length ams = max (length (ss_media answer)) (length (ss_media offer))"
    "act = (\<exists>m \<in> set oms. md_port m \<noteq> 0)"
    and each: "\<And>i. i < length (ss_media offer) \<Longrightarrow> md_media (oms ! i) = md_media (ss_media offer ! i) \<and>
      md_media (ams ! i) = md_media (ss_media offer ! i) \<and>
      (i < length (ss_media answer) \<longrightarrow> md_port (ss_media answer ! i) = 0 \<longrightarrow> md_port (oms ! i) = 0) \<and>
      (length (ss_media answer) \<le> i \<longrightarrow> md_port (oms ! i) = 0 \<and> md_port (ams ! i) = 0)"
    using process_medias_spec [OF p [unfolded st(1)]] assms(3) by auto
  have "map md_media oms = map md_media (ss_media offer)" using spec(1) each by (intro nth_equalityI) auto
  moreover have "map md_media (take (length (ss_media offer)) ams) = map md_media (ss_media offer)"
    using spec(2) each by (intro nth_equalityI) auto
  moreover have "md_port (oms ! i) = 0" if "i < length (ss_media offer)" "length (ss_media answer) \<le> i \<or> md_port (ss_media answer ! i) = 0" for i
    using each [OF that(1)] that(2) by (cases "i < length (ss_media answer)") auto
  moreover have "md_port (ams ! i) = 0" if "i < length (ss_media offer)" "length (ss_media answer) \<le> i" for i
    using each [OF that(1)] that(2) by simp
  ultimately show ?thesis using st spec by auto
qed

text \<open>
  C31: Processing an answer that names the media types of the offer in the same order.  When a line
  fails for another reason than that no format is left (a transport that differs, or a dynamic
  format of the offer without \<open>rtpmap\<close>), the status of the first such line is returned.  Otherwise the
  sessions agree line by line: the offer keeps its lines and types; a line the answer rejects or does not have is
  disabled; missing lines are added to the answer, disabled; and the result is success when a line is active
  and \<open>PJMEDIA_SDPNEG_ENOMEDIA\<close> when none is.
\<close>

theorem process_answer_correct:
  assumes "process_answer env offer answer asy = (st, offer', answer')"
    and "\<forall>i < min (length (ss_media offer)) (length (ss_media answer)).
      md_media (ss_media answer ! i) = md_media (ss_media offer ! i)"
  shows "case line_error env asy (ss_media offer) (ss_media answer) of
      Some e \<Rightarrow> st = e
    | None \<Rightarrow>
        map md_media (ss_media offer') = map md_media (ss_media offer) \<and>
        map md_media (take (length (ss_media offer)) (ss_media answer')) = map md_media (ss_media offer) \<and>
        length (ss_media answer') = max (length (ss_media answer)) (length (ss_media offer)) \<and>
        (\<forall>i < length (ss_media offer). length (ss_media answer) \<le> i \<or> md_port (ss_media answer ! i) = 0 \<longrightarrow>
           md_port (ss_media offer' ! i) = 0) \<and>
        (\<forall>i < length (ss_media offer). length (ss_media answer) \<le> i \<longrightarrow> md_port (ss_media answer' ! i) = 0) \<and>
        st = (if \<exists>m \<in> set (ss_media offer'). md_port m \<noteq> 0 then SDP_SUCCESS else PJMEDIA_SDPNEG_ENOMEDIA)"
proof -
  obtain s oms ams act where p: "process_medias env asy offer (ss_media offer) (ss_media answer) 0 = (s, oms, ams, act)"
    by (rule prod_cases4)
  have e: "line_error env asy (ss_media offer) (ss_media answer) = (if s = SDP_SUCCESS then None else Some s)"
    using process_medias_error [OF p] assms(2) by simp
  have st: "st = (if s \<noteq> SDP_SUCCESS then s else if act then SDP_SUCCESS else PJMEDIA_SDPNEG_ENOMEDIA)"
    using assms(1) p by (simp add: process_answer_def)
  show ?thesis
  proof (cases "s = SDP_SUCCESS")
    case True
    then have "st = SDP_SUCCESS \<or> st = PJMEDIA_SDPNEG_ENOMEDIA" using st by simp
    from process_answer_lines [OF assms(1) this assms(2)] this show ?thesis unfolding e True by auto
  next
    case False
    then show ?thesis unfolding e st by simp
  qed
qed

theorem process_answer_correct_witness:
  "let offer = local_pair ''audio'' ''video''; answer = offer\<lparr>ss_media := [audio_line [''0''] []]\<rparr>
   in case process_answer (plain_env []) offer answer False of (st, offer', answer') \<Rightarrow>
        st = SDP_SUCCESS \<and> map md_port (ss_media offer') = [4000, 0] \<and> map md_media (ss_media answer') = [''audio'', ''video'']"
proof -
  let ?o = "local_pair ''audio'' ''video''"
  let ?a = "?o\<lparr>ss_media := [audio_line [''0''] []]\<rparr>"
  have r: "(case process_answer (plain_env []) ?o ?a False of (st, offer', answer') \<Rightarrow>
      st = SDP_SUCCESS \<and> map md_port (ss_media offer') = [4000, 0] \<and> length (ss_media answer') = 2)" by code_simp
  then obtain st o1 a1 where eq: "process_answer (plain_env []) ?o ?a False = (st, o1, a1)" "st = SDP_SUCCESS"
      "length (ss_media a1) = 2" "map md_port (ss_media o1) = [4000, 0]"
    by (auto split: prod.splits)
  have "\<forall>i < min (length (ss_media ?o)) (length (ss_media ?a)). md_media (ss_media ?a ! i) = md_media (ss_media ?o ! i)" by code_simp
  moreover have "line_error (plain_env []) False (ss_media ?o) (ss_media ?a) = None" by code_simp
  ultimately have
    "map md_media (take (length (ss_media ?o)) (ss_media a1)) = map md_media (ss_media ?o)"
    using process_answer_correct [OF eq(1)] by simp
  then show ?thesis using eq by (simp add: local_pair_def audio_line_def)
qed

end
