(* ===== verification/Sdp_neg_offer.thy ===== *)
theory Sdp_neg_offer
  imports Sdp_neg_answer
begin

text \<open>
  Creating an answer: the specification \<open>chosen_fmts\<close> says which formats of an offer are accepted, and the loop
  of \<open>match_offer\<close> computes it.  At the end an offer, its answer and the processing of the answer
  are put together.
\<close>

section \<open>Creating an answer\<close>

text \<open>Comparing without case is an equivalence.\<close>

lemma lower_code_same: "lower_code a = lower_code b \<Longrightarrow> (a = CHR 0x00) = (b = CHR 0x00)"
proof -
  have "lower_code c = 0 \<longleftrightarrow> c = CHR 0x00" for c
  proof -
    have "(of_char c :: nat) = of_char (CHR 0x00) \<longleftrightarrow> c = CHR 0x00" by (rule of_char_eq_iff)
    then show ?thesis by (auto simp: lower_code_def)
  qed
  then show "lower_code a = lower_code b \<Longrightarrow> (a = CHR 0x00) = (b = CHR 0x00)" by metis
qed

lemma c_strncmp_zero:
  "c_strncmp lower_code (Suc n) xs ys = 0 \<longleftrightarrow> lower_code (mem_at xs 0) = lower_code (mem_at ys 0) \<and>
     (mem_at xs 0 = CHR 0x00 \<or> c_strncmp lower_code n (tl xs) (tl ys) = 0)"
  by (simp add: Let_def)

lemma c_strncmp_sym: "c_strncmp lower_code n xs ys = 0 \<Longrightarrow> c_strncmp lower_code n ys xs = 0"
proof (induction n arbitrary: xs ys)
  case (Suc n)
  then show ?case unfolding c_strncmp_zero using lower_code_same by metis
qed simp

lemma c_strncmp_trans:
  "c_strncmp lower_code n xs ys = 0 \<Longrightarrow> c_strncmp lower_code n ys zs = 0 \<Longrightarrow> c_strncmp lower_code n xs zs = 0"
proof (induction n arbitrary: xs ys zs)
  case (Suc n)
  then show ?case unfolding c_strncmp_zero using lower_code_same by metis
qed simp

lemma stricmp_zero:
  "(pj_stricmp a b = 0) = (length a = length b \<and> c_strncmp lower_code (length a) a b = 0)"
  by (cases "length a = 0"; cases "length b = 0") (auto simp: pj_stricmp_def Let_def split: if_splits)

lemma stricmp_sym: "pj_stricmp a b = 0 \<Longrightarrow> pj_stricmp b a = 0"
  using c_strncmp_sym by (auto simp: stricmp_zero)

lemma stricmp_trans: "pj_stricmp a b = 0 \<Longrightarrow> pj_stricmp b c = 0 \<Longrightarrow> pj_stricmp a c = 0"
  using c_strncmp_trans by (auto simp: stricmp_zero)

text \<open>
  The specification: a format of the offer is numeric (static or dynamic) or another word; a dynamic one can be
  a telephone event, the other numeric ones are codecs.  It is supported if the local line has a format with
  the same number, or the same codec.
\<close>

definition rtpmap_at :: "neg_env \<Rightarrow> sdp_media \<Rightarrow> string \<Rightarrow> sdp_rtpmap option" where
  "rtpmap_at env m f = map_option (rtpmap_of (ne_junk env)) (attr_lookup m ''rtpmap'' f)"

definition is_dynamic :: "string \<Rightarrow> bool" where
  "is_dynamic f = (\<not> pj_strtoul f < 96)"

definition is_tel :: "neg_env \<Rightarrow> sdp_media \<Rightarrow> string \<Rightarrow> bool" where
  "is_tel env m f = (case rtpmap_at env m f of None \<Rightarrow> False
     | Some r \<Rightarrow> pj_stricmp (rm_enc_name r) ''telephone-event'' = 0)"

definition supports :: "neg_env \<Rightarrow> sdp_media \<Rightarrow> sdp_media \<Rightarrow> string \<Rightarrow> string \<Rightarrow> bool" where
  "supports env offer loc f g =
     (if is_dynamic f then
        (case (rtpmap_at env offer f, rtpmap_at env loc g) of
           (Some or', Some lr) \<Rightarrow> same_codec or' lr | _ \<Rightarrow> False)
      else pj_strtoul g = pj_strtoul f \<and> pj_isdigit (mem_at g 0))"

definition supported :: "neg_env \<Rightarrow> sdp_media \<Rightarrow> sdp_media \<Rightarrow> string \<Rightarrow> bool" where
  "supported env offer loc f = (\<exists>g \<in> set (md_fmt loc). supports env offer loc f g)"

definition tel_event :: "neg_env \<Rightarrow> sdp_media \<Rightarrow> string \<Rightarrow> bool" where
  "tel_event env offer f = (is_dynamic f \<and> is_tel env offer f)"

text \<open>The format at a position is chosen if it is the first supported one of its kind.\<close>

definition chosen :: "neg_env \<Rightarrow> sdp_media \<Rightarrow> sdp_media \<Rightarrow> nat \<Rightarrow> bool" where
  "chosen env offer loc i =
     (let f = md_fmt offer ! i
      in pj_isdigit (mem_at f 0) \<and> supported env offer loc f \<and>
         (\<forall>k < i. let h = md_fmt offer ! k
                  in pj_isdigit (mem_at h 0) \<and> supported env offer loc h \<longrightarrow>
                     tel_event env offer h \<noteq> tel_event env offer f))"

definition chosen_fmts :: "neg_env \<Rightarrow> sdp_media \<Rightarrow> sdp_media \<Rightarrow> string list" where
  "chosen_fmts env offer loc = map ((!) (md_fmt offer)) (filter (chosen env offer loc) [0..<length (md_fmt offer)])"

text \<open>A local line with numeric formats only, whose static ones are not telephone events.\<close>

definition local_ok :: "neg_env \<Rightarrow> sdp_media \<Rightarrow> bool" where
  "local_ok env m = (\<forall>g \<in> set (md_fmt m). pj_isdigit (mem_at g 0) \<and> (\<not> is_dynamic g \<longrightarrow> \<not> is_tel env m g))"

lemma find_dynamic_spec:
  assumes "no_callback env (rm_enc_name or')"
  shows "find_dynamic env True offer i or' is_codec js pre =
    (map_option ((!) js) (first_index (\<lambda>j. case rtpmap_at env pre (md_fmt pre ! j) of
       None \<Rightarrow> False | Some lr \<Rightarrow> same_codec or' lr) js), pre)"
proof (induction js)
  case (Cons j js)
  show ?case
    using Cons.IH
    by (auto simp: rtpmap_at_def attr_lookup_def no_callback_custom [OF assms] Let_def option.map_comp comp_def split: option.splits)
qed simp

text \<open>One step of the loop, in these terms.\<close>

definition found_kind :: "match_state \<Rightarrow> bool \<Rightarrow> bool" where
  "found_kind st t = (if t then found_tel st else found_codec st)"

lemma found_kind_other [simp]: "found_kind (st\<lparr>mo_other := b\<rparr>) t = found_kind st t"
  by (simp add: found_kind_def)

definition found_of :: "neg_env \<Rightarrow> sdp_media \<Rightarrow> string \<Rightarrow> match_state \<Rightarrow> bool" where
  "found_of env offer f st = found_kind st (tel_event env offer f)"

lemma match_fmt_numeric:
  assumes cbs: "unregistered env offer" and f: "md_fmt offer ! i = f" "pj_isdigit (mem_at f 0)"
    and eq: "match_fmt env True offer i st = Inr st'"
  shows "mo_pre st' = mo_pre st" "mo_other st' = mo_other st" "found_other st' = found_other st"
    "found_of env offer f st \<or> \<not> supported env offer (mo_pre st) f \<Longrightarrow>
       found_codec st' = found_codec st \<and> found_tel st' = found_tel st \<and> mo_pts st' = mo_pts st"
    "\<not> found_of env offer f st \<Longrightarrow> supported env offer (mo_pre st) f \<Longrightarrow>
       \<exists>j < length (md_fmt (mo_pre st)). supports env offer (mo_pre st) f (md_fmt (mo_pre st) ! j) \<and>
         mo_pts st' = mo_pts st @ [(if is_dynamic f then f else md_fmt (mo_pre st) ! j, md_fmt (mo_pre st) ! j)] \<and>
         found_codec st' = (found_codec st \<or> \<not> tel_event env offer f) \<and> found_tel st' = (found_tel st \<or> tel_event env offer f)"
proof -
  let ?pre = "mo_pre st"
  let ?P = "\<lambda>j. supports env offer ?pre f (md_fmt ?pre ! j)"
  have "mo_pre st' = ?pre \<and> mo_other st' = mo_other st \<and> found_other st' = found_other st \<and>
    (if found_of env offer f st then found_codec st' = found_codec st \<and> found_tel st' = found_tel st \<and> mo_pts st' = mo_pts st
     else case first_index ?P [0..<length (md_fmt ?pre)] of
       None \<Rightarrow> found_codec st' = found_codec st \<and> found_tel st' = found_tel st \<and> mo_pts st' = mo_pts st
     | Some j \<Rightarrow> mo_pts st' = mo_pts st @ [(if is_dynamic f then f else md_fmt ?pre ! j, md_fmt ?pre ! j)] \<and>
         found_codec st' = (found_codec st \<or> \<not> tel_event env offer f) \<and> found_tel st' = (found_tel st \<or> tel_event env offer f))"
  proof (cases "is_dynamic f")
    case False
    then have "?P = (\<lambda>j. pj_strtoul (md_fmt ?pre ! j) = pj_strtoul f \<and> pj_isdigit (mem_at (md_fmt ?pre ! j) 0))"
      by (simp add: supports_def fun_eq_iff)
    then show ?thesis
      using eq f False
      by (auto simp: match_fmt_def Let_def is_dynamic_def found_of_def found_kind_def tel_event_def dest!: first_index_Some split: if_splits option.splits)
  next
    case True
    then obtain k where k: "sdp_media_find_attr offer ''rtpmap'' (Some f) = Some k"
      using eq f by (auto simp: match_fmt_def Let_def is_dynamic_def split: option.splits)
    let ?or = "rtpmap_of (ne_junk env) (md_attr offer ! k)"
    have r: "rtpmap_at env offer f = Some ?or" using k by (simp add: rtpmap_at_def attr_lookup_def)
    then have P: "?P = (\<lambda>j. case rtpmap_at env ?pre (md_fmt ?pre ! j) of None \<Rightarrow> False | Some lr \<Rightarrow> same_codec ?or lr)"
      using True by (auto simp: supports_def fun_eq_iff split: option.splits)
    have tel: "tel_event env offer f = (pj_stricmp (rm_enc_name ?or) ''telephone-event'' = 0)"
      using True r by (simp add: tel_event_def is_tel_def)
    show ?thesis
      using eq f True k
      unfolding P tel found_of_def found_kind_def
      by (auto simp: match_fmt_def Let_def is_dynamic_def find_dynamic_spec [OF unregistered_at [OF cbs k]] pt_pair_def tel
          dest!: first_index_Some split: if_splits option.splits)
  qed
  moreover have "supported env offer ?pre f = (first_index ?P [0..<length (md_fmt ?pre)] \<noteq> None)"
    using first_index_None [of ?P "[0..<length (md_fmt ?pre)]"] by (auto simp: supported_def in_set_conv_nth Bex_def)
  ultimately show "mo_pre st' = ?pre" "mo_other st' = mo_other st" "found_other st' = found_other st"
    "found_of env offer f st \<or> \<not> supported env offer ?pre f \<Longrightarrow>
       found_codec st' = found_codec st \<and> found_tel st' = found_tel st \<and> mo_pts st' = mo_pts st"
    "\<not> found_of env offer f st \<Longrightarrow> supported env offer ?pre f \<Longrightarrow>
       \<exists>j < length (md_fmt ?pre). supports env offer ?pre f (md_fmt ?pre ! j) \<and>
         mo_pts st' = mo_pts st @ [(if is_dynamic f then f else md_fmt ?pre ! j, md_fmt ?pre ! j)] \<and>
         found_codec st' = (found_codec st \<or> \<not> tel_event env offer f) \<and> found_tel st' = (found_tel st \<or> tel_event env offer f)"
    by (auto split: if_splits dest!: first_index_Some)
qed

text \<open>The loop over the formats of the offer.\<close>

lemma match_fmts_append:
  "match_fmts env pr offer (xs @ ys) st =
     (case match_fmts env pr offer xs st of (e, st) \<Rightarrow> if e = SDP_SUCCESS then match_fmts env pr offer ys st else (e, st))"
  if "\<And>i st. match_fmt env pr offer i st \<noteq> Inl SDP_SUCCESS"
  using that by (induction xs arbitrary: st) (auto split: sum.splits)

lemma match_fmt_not_success: "match_fmt env pr offer i st \<noteq> Inl SDP_SUCCESS"
proof (cases "pj_isdigit (mem_at (md_fmt (if pr then offer else mo_pre st) ! i) 0) \<and>
    \<not> pj_strtoul (md_fmt (if pr then offer else mo_pre st) ! i) < 96")
  case True
  then show ?thesis
    by (cases "sdp_media_find_attr (if pr then offer else mo_pre st) ''rtpmap'' (Some (md_fmt (if pr then offer else mo_pre st) ! i))")
      (simp_all add: match_fmt_def Let_def split: option.split prod.split)
next
  case False
  then show ?thesis by (cases "pj_isdigit (mem_at (md_fmt (if pr then offer else mo_pre st) ! i) 0)")
      (simp_all add: match_fmt_def Let_def split: option.split)
qed

definition loc_tel :: "neg_env \<Rightarrow> sdp_media \<Rightarrow> nat \<Rightarrow> bool" where
  "loc_tel env loc j = is_tel env loc (md_fmt loc ! j)"

definition kind_found :: "neg_env \<Rightarrow> sdp_media \<Rightarrow> sdp_media \<Rightarrow> nat \<Rightarrow> bool \<Rightarrow> bool" where
  "kind_found env offer loc n t = (\<exists>i < n. pj_isdigit (mem_at (md_fmt offer ! i) 0) \<and>
     tel_event env offer (md_fmt offer ! i) = t \<and> supported env offer loc (md_fmt offer ! i))"

lemma kind_found_Suc:
  "kind_found env offer loc (Suc n) t = (kind_found env offer loc n t \<or> pj_isdigit (mem_at (md_fmt offer ! n) 0) \<and>
     tel_event env offer (md_fmt offer ! n) = t \<and> supported env offer loc (md_fmt offer ! n))"
  by (auto simp: kind_found_def Ex_less_Suc)

lemma chosen_kind:
  "chosen env offer loc n = (pj_isdigit (mem_at (md_fmt offer ! n) 0) \<and> supported env offer loc (md_fmt offer ! n) \<and>
     \<not> kind_found env offer loc n (tel_event env offer (md_fmt offer ! n)))"
  by (auto simp: chosen_def kind_found_def Let_def)

definition all_numeric :: "sdp_media \<Rightarrow> nat \<Rightarrow> bool" where
  "all_numeric offer n = (\<forall>i < n. pj_isdigit (mem_at (md_fmt offer ! i) 0))"

definition pts_numbers :: "neg_env \<Rightarrow> sdp_media \<Rightarrow> sdp_media \<Rightarrow> nat \<Rightarrow> (string \<times> string) list \<Rightarrow> bool" where
  "pts_numbers env offer loc n pts = (map (pj_strtoul \<circ> fst) pts =
     map (\<lambda>i. pj_strtoul (md_fmt offer ! i)) (filter (chosen env offer loc) [0..<n]))"

definition pts_from :: "neg_env \<Rightarrow> sdp_media \<Rightarrow> match_state \<Rightarrow> bool" where
  "pts_from env loc st = (\<exists>js. map snd (mo_pts st) = map ((!) (md_fmt loc)) js \<and> distinct js \<and>
     set js \<subseteq> {..<length (md_fmt loc)} \<and> (\<forall>j \<in> set js. found_kind st (loc_tel env loc j)))"

definition match_inv :: "neg_env \<Rightarrow> sdp_media \<Rightarrow> sdp_media \<Rightarrow> nat \<Rightarrow> match_state \<Rightarrow> bool" where
  "match_inv env offer loc n st =
     (mo_pre st = loc \<and> \<not> found_other st \<and> (\<not> mo_other st \<longrightarrow> all_numeric offer n) \<and>
      (\<forall>t. found_kind st t = kind_found env offer loc n t) \<and> pts_numbers env offer loc n (mo_pts st) \<and> pts_from env loc st)"

lemma supports_tel:
  assumes "local_ok env loc" "j < length (md_fmt loc)" "supports env offer loc f (md_fmt loc ! j)"
  shows "loc_tel env loc j = tel_event env offer f"
proof (cases "is_dynamic f")
  case False
  then have "\<not> is_dynamic (md_fmt loc ! j)" using assms(3) by (simp add: supports_def is_dynamic_def)
  then show ?thesis using False assms(1,2) by (simp add: loc_tel_def tel_event_def local_ok_def)
next
  case True
  then obtain or' lr where r: "rtpmap_at env offer f = Some or'" "rtpmap_at env loc (md_fmt loc ! j) = Some lr" "same_codec or' lr"
    using assms(3) by (auto simp: supports_def split: option.splits)
  then have "pj_stricmp (rm_enc_name or') (rm_enc_name lr) = 0" by (simp add: same_codec_def)
  then have "(pj_stricmp (rm_enc_name lr) ''telephone-event'' = 0) = (pj_stricmp (rm_enc_name or') ''telephone-event'' = 0)"
    by (meson stricmp_trans stricmp_sym)
  then show ?thesis using True r by (simp add: loc_tel_def tel_event_def is_tel_def)
qed

lemma match_fmt_inv:
  assumes cbs: "unregistered env offer" and loc: "local_ok env loc" and n: "n < length (md_fmt offer)"
    and inv: "match_inv env offer loc n st" and eq: "match_fmt env True offer n st = Inr st'"
  shows "match_inv env offer loc (Suc n) st'"
proof -
  let ?f = "md_fmt offer ! n"
  have pre: "mo_pre st = loc" and fo: "\<not> found_other st" and oth: "\<not> mo_other st \<Longrightarrow> all_numeric offer n"
    and found: "found_kind st t = kind_found env offer loc n t"
    and nums: "pts_numbers env offer loc n (mo_pts st)" and from_loc: "pts_from env loc st" for t
    using inv by (simp_all add: match_inv_def)
  show ?thesis
  proof (cases "pj_isdigit (mem_at ?f 0)")
    case False
    have "first_index (\<lambda>j. ?f = md_fmt loc ! j) [0..<length (md_fmt loc)] = None"
      using loc False by (auto simp: first_index_None local_ok_def)
    then have st': "st' = st\<lparr>mo_other := True\<rparr>"
      using eq False pre fo by (simp add: match_fmt_def Let_def)
    have "\<not> chosen env offer loc n" using False by (simp add: chosen_def Let_def)
    then have "pts_numbers env offer loc (Suc n) (mo_pts st')" using nums st' by (simp add: pts_numbers_def)
    moreover have "pts_from env loc st'" using from_loc st' by (simp add: pts_from_def)
    ultimately show ?thesis
      using st' pre fo found False by (simp add: match_inv_def kind_found_Suc)
  next
    case True
    note step = match_fmt_numeric [OF cbs refl True eq, unfolded pre]
    have num: "\<not> mo_other st' \<longrightarrow> all_numeric offer (Suc n)"
      using step(2) oth True by (simp add: all_numeric_def All_less_Suc)
    have ch: "chosen env offer loc n = (supported env offer loc ?f \<and> \<not> found_of env offer ?f st)"
      using True by (simp add: chosen_kind found_of_def found)
    show ?thesis
    proof (cases "chosen env offer loc n")
      case False
      then have s: "found_codec st' = found_codec st" "found_tel st' = found_tel st" "mo_pts st' = mo_pts st"
        using step(4) ch by auto
      then have fk: "found_kind st' = found_kind st" by (simp add: fun_eq_iff found_kind_def)
      have "found_kind st' t = kind_found env offer loc (Suc n) t" for t
        using False ch by (auto simp: fk found kind_found_Suc found_of_def)
      moreover have "pts_numbers env offer loc (Suc n) (mo_pts st')" using nums s False by (simp add: pts_numbers_def)
      moreover have "pts_from env loc st'" using from_loc s fk by (simp add: pts_from_def)
      ultimately show ?thesis using step(1,3) pre fo num by (simp add: match_inv_def)
    next
      case c: True
      then obtain j where j: "j < length (md_fmt loc)" "supports env offer loc ?f (md_fmt loc ! j)"
          "mo_pts st' = mo_pts st @ [(if is_dynamic ?f then ?f else md_fmt loc ! j, md_fmt loc ! j)]"
          "found_codec st' = (found_codec st \<or> \<not> tel_event env offer ?f)" "found_tel st' = (found_tel st \<or> tel_event env offer ?f)"
        using step(5) ch by auto
      have fk: "found_kind st' t = (found_kind st t \<or> tel_event env offer ?f = t)" for t
        using j(4,5) by (auto simp: found_kind_def)
      have tel: "loc_tel env loc j = tel_event env offer ?f" by (rule supports_tel [OF loc j(1,2)])
      have nf: "\<not> found_kind st (tel_event env offer ?f)" using c ch by (simp add: found_of_def)
      obtain js where js: "map snd (mo_pts st) = map ((!) (md_fmt loc)) js" "distinct js" "set js \<subseteq> {..<length (md_fmt loc)}"
          "\<forall>j \<in> set js. found_kind st (loc_tel env loc j)"
        using from_loc by (auto simp: pts_from_def)
      have "j \<notin> set js" using js(4) tel nf by auto
      then have "map snd (mo_pts st') = map ((!) (md_fmt loc)) (js @ [j]) \<and> distinct (js @ [j]) \<and>
          set (js @ [j]) \<subseteq> {..<length (md_fmt loc)} \<and> (\<forall>j \<in> set (js @ [j]). found_kind st' (loc_tel env loc j))"
        using js j(1,3) tel fk by simp
      then have "pts_from env loc st'" unfolding pts_from_def by blast
      moreover have "pj_strtoul (if is_dynamic ?f then ?f else md_fmt loc ! j) = pj_strtoul ?f"
        using j(2) by (simp add: supports_def)
      then have "pts_numbers env offer loc (Suc n) (mo_pts st')"
        using nums j(3) c by (simp add: pts_numbers_def)
      moreover have "found_kind st' t = kind_found env offer loc (Suc n) t" for t
        using c ch True by (auto simp: fk found kind_found_Suc)
      ultimately show ?thesis using step(1,3) pre fo num by (simp add: match_inv_def)
    qed
  qed
qed

lemma match_fmts_inv:
  assumes cbs: "unregistered env offer" and loc: "local_ok env loc" and n: "n \<le> length (md_fmt offer)"
    and inv: "match_inv env offer loc 0 st" and eq: "match_fmts env True offer [0..<n] st = (SDP_SUCCESS, st')"
  shows "match_inv env offer loc n st'"
  using n eq
proof (induction n arbitrary: st')
  case 0
  then show ?case using inv by simp
next
  case (Suc n)
  obtain st1 where 1: "match_fmts env True offer [0..<n] st = (SDP_SUCCESS, st1)" "match_fmts env True offer [n] st1 = (SDP_SUCCESS, st')"
    using Suc.prems(2) match_fmts_append [of env True offer "[0..<n]" "[n]" st, OF match_fmt_not_success]
    by (auto split: prod.splits if_splits)
  then have "match_fmt env True offer n st1 = Inr st'"
    using match_fmt_not_success by (auto split: sum.splits)
  then show ?case using match_fmt_inv [OF cbs loc _ Suc.IH [OF _ 1(1)]] Suc.prems(1) by simp
qed

text \<open>Building the answer.\<close>

lemma put_first_spec:
  assumes "k \<le> length pts" "mset (map snd pts) \<subseteq># mset fmts"
  shows "mset (fold (put_first env pts) [0..<k] fmts) = mset fmts \<and>
    take k (fold (put_first env pts) [0..<k] fmts) = take k (map snd pts)"
  using assms(1)
proof (induction k)
  case 0
  then show ?case by simp
next
  case (Suc k)
  let ?L = "fold (put_first env pts) [0..<k] fmts" and ?t = "snd (pts ! k)"
  have ih: "mset ?L = mset fmts" "take k ?L = take k (map snd pts)" using Suc by simp_all
  have kl: "k < length pts" using Suc.prems by simp
  have len: "length ?L = length fmts" using ih(1) by (metis size_mset)
  have "mset (take (Suc k) (map snd pts)) \<subseteq># mset fmts"
    using assms(2) by (metis append_take_drop_id mset_append mset_subset_eq_add_left subset_mset.order_trans)
  then have "add_mset ?t (mset (take k ?L)) \<subseteq># mset fmts" using ih(2) kl by (simp add: take_Suc_conv_app_nth)
  moreover have "mset fmts = mset (take k ?L) + mset (drop k ?L)" using ih(1) by (metis append_take_drop_id mset_append)
  ultimately have "mset (take k ?L) + {#?t#} \<subseteq># mset (take k ?L) + mset (drop k ?L)" by simp
  then have "?t \<in> set (drop k ?L)" by (simp only: subset_mset.add_le_cancel_left single_subset_iff set_mset_mset)
  then obtain d where d: "first_index (\<lambda>j. ?L ! j = ?t) [k..<length ?L] = Some d"
    by (cases "first_index (\<lambda>j. ?L ! j = ?t) [k..<length ?L]") (auto simp: first_index_None in_set_conv_nth)
  then have dl: "k + d < length ?L" "?L ! (k + d) = ?t" using first_index_Some [OF d] by auto
  have st: "fold (put_first env pts) [0..<Suc k] fmts = swap_nth k (k + d) ?L"
    using d by (simp add: put_first_def)
  have "take (Suc k) (swap_nth k (k + d) ?L) = take k ?L @ [?t]"
    using dl by (cases d) (simp_all add: take_Suc_conv_app_nth swap_nth_def nth_list_update)
  then show ?case
    using st ih dl kl by (simp add: mset_swap_nth take_Suc_conv_app_nth)
qed

lemma fold_remove_fmt_attrs [simp]:
  "md_port (fold remove_fmt_attrs fs m) = md_port m" "md_media (fold remove_fmt_attrs fs m) = md_media m"
  "md_transport (fold remove_fmt_attrs fs m) = md_transport m"
  by (induction fs arbitrary: m)
    (simp_all add: remove_fmt_attrs_def remove_attr_of_def sdp_media_remove_attr_def split: option.split)

lemma build_answer_rest [simp]:
  "md_port (build_answer env pts pre) = md_port pre" "md_media (build_answer env pts pre) = md_media pre"
  "md_transport (build_answer env pts pre) = md_transport pre"
  by (simp_all add: build_answer_def Let_def)

lemma build_answer_fmts: "mset (map snd pts) \<subseteq># mset (md_fmt pre) \<Longrightarrow> md_fmt (build_answer env pts pre) = map snd pts"
  using put_first_spec [of "length pts" pts "md_fmt pre" env] by (simp add: build_answer_def Let_def)

lemma rewrite_attr_of_rest:
  "rewrite_attr_of name a b (m, tmp) = (m', tmp') \<Longrightarrow> md_fmt m' = md_fmt m \<and> md_port m' = md_port m \<and>
     md_media m' = md_media m \<and> md_transport m' = md_transport m"
  by (auto simp: rewrite_attr_of_def sdp_media_remove_attr_def Let_def split: option.splits)

lemma symmetric_steps:
  "k \<le> length pts \<Longrightarrow> fold (symmetric_step pts) [0..<k] (m, tmp) = (m', tmp') \<Longrightarrow> length (md_fmt m) = length pts \<Longrightarrow>
   md_fmt m' = map2 (\<lambda>p f. if fst p = snd p then f else fst p) (take k pts) (take k (md_fmt m)) @ drop k (md_fmt m) \<and>
   md_port m' = md_port m \<and> md_media m' = md_media m \<and> md_transport m' = md_transport m"
proof (induction k arbitrary: m' tmp')
  case 0
  then show ?case by simp
next
  case (Suc k)
  obtain m1 t1 where 1: "fold (symmetric_step pts) [0..<k] (m, tmp) = (m1, t1)" by force
  have ih: "md_fmt m1 = map2 (\<lambda>p f. if fst p = snd p then f else fst p) (take k pts) (take k (md_fmt m)) @ drop k (md_fmt m)"
    "md_port m1 = md_port m" "md_media m1 = md_media m" "md_transport m1 = md_transport m"
    using Suc.IH [OF _ 1] Suc.prems by auto
  obtain o' a where p: "pts ! k = (o', a)" by force
  have kl: "k < length pts" "k < length (md_fmt m)" using Suc.prems by auto
  have step: "symmetric_step pts k (m1, t1) = (m', tmp')" using Suc.prems(2) 1 by simp
  have m': "md_fmt m' = (if a = o' then md_fmt m1 else (md_fmt m1)[k := o'])" "md_port m' = md_port m1"
    "md_media m' = md_media m1" "md_transport m' = md_transport m1"
  proof -
    obtain m2 t2 where 2: "rewrite_attr_of ''rtpmap'' a o' (m1\<lparr>md_fmt := (md_fmt m1)[k := o']\<rparr>, t1) = (m2, t2)" by force
    have "md_fmt m' = (if a = o' then md_fmt m1 else (md_fmt m1)[k := o']) \<and> md_port m' = md_port m1 \<and>
        md_media m' = md_media m1 \<and> md_transport m' = md_transport m1"
      using step p 2 rewrite_attr_of_rest [OF 2] rewrite_attr_of_rest [of "''fmtp''" a o' m2 t2 m' tmp']
      by (auto simp: symmetric_step_def split: if_splits)
    then show "md_fmt m' = (if a = o' then md_fmt m1 else (md_fmt m1)[k := o'])" "md_port m' = md_port m1"
      "md_media m' = md_media m1" "md_transport m' = md_transport m1" by auto
  qed
  have "drop k (md_fmt m) = md_fmt m ! k # drop (Suc k) (md_fmt m)" using kl(2) by (rule Cons_nth_drop_Suc [symmetric])
  then show ?case
    using m' ih kl p by (simp add: take_Suc_conv_app_nth list_update_append)
qed

lemma apply_symmetric_fmts:
  assumes "md_fmt m = map snd pts"
  shows "md_fmt (apply_answer_symmetric_pt m pts) = map fst pts \<and> md_port (apply_answer_symmetric_pt m pts) = md_port m \<and>
    md_media (apply_answer_symmetric_pt m pts) = md_media m \<and> md_transport (apply_answer_symmetric_pt m pts) = md_transport m"
proof -
  obtain m1 t1 where 1: "fold (symmetric_step pts) [0..<length pts] (m, []) = (m1, t1)" by force
  have add: "md_fmt (fold (\<lambda>a m. sdp_media_add_attr m a) as m) = md_fmt m \<and> md_port (fold (\<lambda>a m. sdp_media_add_attr m a) as m) = md_port m \<and>
      md_media (fold (\<lambda>a m. sdp_media_add_attr m a) as m) = md_media m \<and>
      md_transport (fold (\<lambda>a m. sdp_media_add_attr m a) as m) = md_transport m" for as m
    by (induction as arbitrary: m) (simp_all add: sdp_media_add_attr_def)
  have "map2 (\<lambda>p f. if fst p = snd p then f else fst p) pts (map snd pts) = map fst pts"
    by (induction pts) auto
  then show ?thesis
    using symmetric_steps [OF order_refl 1] assms 1 add by (simp add: apply_answer_symmetric_pt_def)
qed

lemma match_offer_spec:
  assumes cbs: "unregistered env offer" and loc: "local_ok env pre"
    and eq: "match_offer env True offer pre sess = (st, pre', Some answer)"
  shows "st = SDP_SUCCESS \<and> pre' = pre \<and> (md_port offer = 0 \<longrightarrow> md_port answer = 0) \<and>
    (md_port offer = 0 \<and> md_media answer = md_media offer \<and> md_transport answer = md_transport offer \<or>
     md_media answer = md_media pre \<and> md_transport answer = md_transport pre) \<and>
    (md_port answer \<noteq> 0 \<longrightarrow> map pj_strtoul (md_fmt answer) = map pj_strtoul (chosen_fmts env offer pre))"
proof (cases "md_port offer = 0 \<or> md_port pre = 0")
  case True
  then show ?thesis
    using eq by (auto simp: match_offer_def neg_clone_deactivate_def Let_def split: if_splits option.splits)
next
  case False
  let ?s0 = "\<lparr>mo_codec = False, mo_other = False, found_codec = False, found_tel = False, found_other = False, mo_pts = [], mo_pre = pre\<rparr>"
  obtain s where s: "match_fmts env True offer [0..<length (md_fmt offer)] ?s0 = (SDP_SUCCESS, s)"
      "st = SDP_SUCCESS" "pre' = mo_pre s"
      "answer = update_media_direction offer (apply_answer_symmetric_pt (build_answer env (mo_pts s) (mo_pre s)) (mo_pts s))"
    using eq False by (auto simp: match_offer_def split: if_splits prod.splits)
  have "match_inv env offer pre 0 ?s0"
    by (simp add: match_inv_def all_numeric_def found_kind_def kind_found_def pts_numbers_def pts_from_def)
  from match_fmts_inv [OF cbs loc order_refl this s(1)]
  have inv: "mo_pre s = pre" "pts_numbers env offer pre (length (md_fmt offer)) (mo_pts s)" "pts_from env pre s"
    by (simp_all add: match_inv_def)
  then obtain js where js: "map snd (mo_pts s) = map ((!) (md_fmt pre)) js" "distinct js" "set js \<subseteq> {..<length (md_fmt pre)}"
    by (auto simp: pts_from_def)
  have "mset js \<subseteq># mset [0..<length (md_fmt pre)]"
    using js(2,3) by (simp add: mset_set_set [symmetric] lessThan_atLeast0 subset_imp_msubset_mset_set)
  then have "mset (map snd (mo_pts s)) \<subseteq># image_mset ((!) (md_fmt pre)) (mset [0..<length (md_fmt pre)])"
    unfolding js(1) mset_map by (rule image_mset_subseteq_mono)
  moreover have "image_mset ((!) (md_fmt pre)) (mset [0..<length (md_fmt pre)]) = mset (md_fmt pre)"
    by (simp only: mset_map [symmetric] map_nth)
  ultimately have "mset (map snd (mo_pts s)) \<subseteq># mset (md_fmt pre)" by (simp del: mset_upt)
  note b = build_answer_fmts [OF this, of env]
  note a = apply_symmetric_fmts [OF b]
  have "map pj_strtoul (md_fmt answer) = map pj_strtoul (chosen_fmts env offer pre)"
    using a inv s(4) by (simp add: chosen_fmts_def pts_numbers_def comp_def)
  then show ?thesis using a inv s False by simp
qed

text \<open>Without custom matching the pre-answers are not modified, whatever the status.\<close>

lemma match_fmt_pre:
  assumes "unregistered env offer" "match_fmt env True offer i st = Inr st'"
  shows "mo_pre st' = mo_pre st"
proof (cases "pj_isdigit (mem_at (md_fmt offer ! i) 0)")
  case True
  then show ?thesis using match_fmt_numeric(1) [OF assms(1) refl True assms(2)] by simp
next
  case False
  then show ?thesis using assms(2) by (auto simp: match_fmt_def Let_def split: if_splits option.splits)
qed

lemma match_fmts_pre:
  assumes "unregistered env offer"
  shows "match_fmts env True offer ks st = (e, st') \<Longrightarrow> mo_pre st' = mo_pre st"
proof (induction ks arbitrary: st)
  case (Cons i ks)
  then show ?case using match_fmt_pre [OF assms] by (cases "match_fmt env True offer i st") fastforce+
qed simp

lemma match_offer_pre:
  "unregistered env offer \<Longrightarrow> match_offer env True offer pre sess = (st, pre', am) \<Longrightarrow> pre' = pre"
  by (auto simp: match_offer_def dest!: match_fmts_pre split: if_splits prod.splits)

lemma answer_media_spec:
  assumes "unregistered env om"
  shows "answer_media env True initial om used js ims st = (st', ims', r) \<Longrightarrow> set js \<subseteq> {..<length ims} \<Longrightarrow>
    ims' = ims \<and> (\<forall>j am. r = Some (j, am) \<longrightarrow> j < length ims \<and> md_media om = md_media (ims ! j) \<and>
      md_transport om = md_transport (ims ! j) \<and> match_offer env True om (ims ! j) initial = (st', ims ! j, Some am))"
proof (induction js arbitrary: st)
  case (Cons j js)
  show ?case
  proof (cases "md_media om = md_media (ims ! j) \<and> md_transport om = md_transport (ims ! j) \<and> \<not> used ! j")
    case True
    obtain s1 im am where 1: "match_offer env True om (ims ! j) initial = (s1, im, am)" by (rule prod_cases3)
    have "im = ims ! j" by (rule match_offer_pre [OF assms 1])
    then show ?thesis using True 1 Cons by (cases am) auto
  next
    case False
    then have "answer_media env True initial om used js ims st = (st', ims', r)" using Cons.prems(1) by (auto simp: Let_def)
    from Cons.IH [OF this] Cons.prems(2) show ?thesis by simp
  qed
qed simp

text \<open>Whatever the callbacks do, type, transport and port of a line stay, and the lines are answered in order.\<close>

definition same_line :: "sdp_media \<Rightarrow> sdp_media \<Rightarrow> bool" where
  "same_line m m' = (md_media m' = md_media m \<and> md_transport m' = md_transport m \<and> md_port m' = md_port m)"

lemma same_line_refl [simp]: "same_line m m"
  by (simp add: same_line_def)

lemma same_line_trans: "same_line a b \<Longrightarrow> same_line b c \<Longrightarrow> same_line a c"
  by (simp add: same_line_def)

lemma find_dynamic_same: "find_dynamic env pr offer i or' c js pre = (x, pre') \<Longrightarrow> same_line pre pre'"
proof (induction js arbitrary: pre)
  case (Cons j js)
  have attrs: "same_line pre (pre\<lparr>md_attr := as\<rparr>)" for as by (simp add: same_line_def)
  show ?case
    using Cons.prems Cons.IH attrs
    by (auto simp: Let_def split: option.splits if_splits prod.splits intro: same_line_trans [OF attrs])
qed simp

lemma match_fmt_same: "match_fmt env pr offer i st = Inr st' \<Longrightarrow> same_line (mo_pre st) (mo_pre st')"
  by (auto simp: match_fmt_def Let_def dest: find_dynamic_same split: if_splits option.splits prod.splits)

lemma match_fmts_same: "match_fmts env pr offer ks st = (e, st') \<Longrightarrow> same_line (mo_pre st) (mo_pre st')"
  by (induction ks arbitrary: st) (auto dest: match_fmt_same same_line_trans split: sum.splits)

lemma symmetric_step_same: "same_line (fst s) (fst (symmetric_step pts i s))"
proof -
  obtain o' a where p: "pts ! i = (o', a)" by force
  obtain m t where s: "s = (m, t)" by force
  obtain m1 t1 where 1: "rewrite_attr_of ''rtpmap'' a o' (m\<lparr>md_fmt := (md_fmt m)[i := o']\<rparr>, t) = (m1, t1)" by force
  obtain m2 t2 where 2: "rewrite_attr_of ''fmtp'' a o' (m1, t1) = (m2, t2)" by force
  show ?thesis
    using rewrite_attr_of_rest [OF 1] rewrite_attr_of_rest [OF 2] 1 2
    by (auto simp: symmetric_step_def p s same_line_def)
qed

lemma apply_symmetric_same: "same_line m (apply_answer_symmetric_pt m pts)"
proof -
  have "same_line (fst s) (fst (fold (symmetric_step pts) ks s))" for ks s
  proof (induction ks arbitrary: s)
    case (Cons k ks)
    show ?case using same_line_trans [OF symmetric_step_same Cons.IH] by simp
  qed simp
  from this [of "(m, [])"] have 1: "same_line m (fst (fold (symmetric_step pts) [0..<length pts] (m, [])))" by simp
  have "same_line x (fold (\<lambda>a m. sdp_media_add_attr m a) as x)" for as x
    by (induction as arbitrary: x) (simp_all add: sdp_media_add_attr_def same_line_def)
  from same_line_trans [OF 1 this] show ?thesis by (auto simp: apply_answer_symmetric_pt_def split: prod.split)
qed

definition line_answers :: "sdp_media \<Rightarrow> sdp_media \<Rightarrow> bool" where
  "line_answers om am = (md_media am = md_media om \<and> md_transport am = md_transport om \<and> (md_port om = 0 \<longrightarrow> md_port am = 0))"

lemma line_answers_deactivate: "line_answers om (neg_clone_deactivate om x y)"
  by (simp add: line_answers_def neg_clone_deactivate_def Let_def split: option.split)

lemma match_offer_same:
  assumes "match_offer env pr om im initial = (st, im', r)" "md_media om = md_media im" "md_transport om = md_transport im"
  shows "same_line im im' \<and> (\<forall>am. r = Some am \<longrightarrow> line_answers om am)"
proof (cases "md_port om = 0 \<or> md_port im = 0")
  case True
  then show ?thesis
    using assms line_answers_deactivate by (auto simp: match_offer_def line_answers_def split: if_splits)
next
  case False
  let ?s0 = "\<lparr>mo_codec = False, mo_other = False, found_codec = False, found_tel = False, found_other = False, mo_pts = [], mo_pre = im\<rparr>"
  obtain e s where m: "match_fmts env pr om [0..<length (md_fmt (if pr then om else im))] ?s0 = (e, s)" by force
  have pre: "same_line im (mo_pre s)" using match_fmts_same [OF m] by simp
  have im': "im' = mo_pre s" using assms(1) False m by (auto simp: match_offer_def split: if_splits)
  have "line_answers om am" if "r = Some am" for am
  proof -
    have "am = update_media_direction om (apply_answer_symmetric_pt (build_answer env (mo_pts s) (mo_pre s)) (mo_pts s))"
      using assms(1) False m that by (auto simp: match_offer_def split: if_splits)
    then show ?thesis
      using apply_symmetric_same [of "build_answer env (mo_pts s) (mo_pre s)" "mo_pts s"] pre assms(2,3) False
      by (simp add: same_line_def line_answers_def)
  qed
  then show ?thesis using pre im' by simp
qed

lemma answer_media_same:
  "answer_media env pr initial om used js ims st = (st', ims', r) \<Longrightarrow> \<forall>j am. r = Some (j, am) \<longrightarrow> line_answers om am"
proof (induction js arbitrary: ims st)
  case (Cons j js)
  show ?case
  proof (cases "md_media om = md_media (ims ! j) \<and> md_transport om = md_transport (ims ! j) \<and> \<not> used ! j")
    case True
    obtain s1 im am where 1: "match_offer env pr om (ims ! j) initial = (s1, im, am)" by (rule prod_cases3)
    then show ?thesis using match_offer_same [OF 1] True Cons.prems Cons.IH by (cases am) auto
  next
    case False
    then have "answer_media env pr initial om used js ims st = (st', ims', r)" using Cons.prems by (auto simp: Let_def)
    then show ?thesis by (rule Cons.IH)
  qed
qed simp

lemma answer_medias_same:
  "answer_medias env pr initial oms used ims st = (st', ams) \<Longrightarrow> list_all2 line_answers oms ams"
proof (induction oms arbitrary: used ims st ams)
  case (Cons om oms)
  obtain s1 ims1 r where 1: "answer_media env pr initial om used [0..<length ims] ims st = (s1, ims1, r)" by (rule prod_cases3)
  then show ?case
    using Cons.prems Cons.IH answer_media_same [OF 1] line_answers_deactivate
    by (auto split: option.splits prod.splits)
qed simp

lemma create_answer_structure:
  assumes "create_answer env pr initial offer = (st, Some answer)"
  shows "length (ss_media answer) = length (ss_media offer) \<and>
    (\<forall>i < length (ss_media offer). let om = ss_media offer ! i; am = ss_media answer ! i in
       md_media am = md_media om \<and> md_transport am = md_transport om \<and> (md_port om = 0 \<longrightarrow> md_port am = 0)) \<and>
    answer = initial\<lparr>ss_media := ss_media answer\<rparr>"
proof -
  obtain s ams where a: "answer_medias env pr initial (ss_media offer) (replicate PJMEDIA_MAX_SDP_MEDIA False)
      (ss_media initial) SDP_SUCCESS = (s, ams)" "answer = initial\<lparr>ss_media := ams\<rparr>"
    using assms by (auto simp: create_answer_def split: if_splits prod.splits)
  from answer_medias_same [OF a(1)] show ?thesis
    by (auto simp: a(2) list_all2_conv_all_nth line_answers_def Let_def)
qed

definition answers :: "neg_env \<Rightarrow> sdp_media list \<Rightarrow> sdp_media \<Rightarrow> sdp_media \<Rightarrow> bool" where
  "answers env ims om am =
     (md_media am = md_media om \<and> md_transport am = md_transport om \<and> (md_port om = 0 \<longrightarrow> md_port am = 0) \<and>
      (md_port am \<noteq> 0 \<longrightarrow> (\<exists>im \<in> set ims. md_media im = md_media om \<and> md_transport im = md_transport om \<and>
         map pj_strtoul (md_fmt am) = map pj_strtoul (chosen_fmts env om im))))"

lemma answer_medias_spec:
  assumes loc: "\<forall>m \<in> set ims. local_ok env m"
  shows "answer_medias env True initial oms used ims st = (st', ams) \<Longrightarrow> \<forall>m \<in> set oms. unregistered env m \<Longrightarrow> list_all2 (answers env ims) oms ams"
proof (induction oms arbitrary: used st ams)
  case (Cons om oms)
  obtain s1 ims1 r where 1: "answer_media env True initial om used [0..<length ims] ims st = (s1, ims1, r)" by (rule prod_cases3)
  have spec: "ims1 = ims" "\<And>j am. r = Some (j, am) \<Longrightarrow> j < length ims \<and> md_media om = md_media (ims ! j) \<and>
      md_transport om = md_transport (ims ! j) \<and> match_offer env True om (ims ! j) initial = (s1, ims ! j, Some am)"
    using answer_media_spec [OF _ 1] Cons.prems(2) by (simp_all add: lessThan_atLeast0)
  show ?case
  proof (cases r)
    case None
    have "answers env ims om (neg_clone_deactivate om (Some om) (Some initial))"
      by (auto simp: answers_def neg_clone_deactivate_def Let_def split: option.split)
    then show ?thesis using Cons 1 None spec(1) by (auto split: prod.splits)
  next
    case (Some x)
    obtain j am where x: "x = (j, am)" by force
    have j: "j < length ims" "md_media om = md_media (ims ! j)" "md_transport om = md_transport (ims ! j)"
        "match_offer env True om (ims ! j) initial = (s1, ims ! j, Some am)"
      using spec(2) Some x by auto
    have "local_ok env (ims ! j)" using loc j(1) by simp
    from match_offer_spec [OF _ this j(4)] Cons.prems(2) j(1,2,3) have "answers env ims om am"
      by (auto simp: answers_def intro: bexI [of _ "ims ! j"])
    then show ?thesis using Cons 1 Some x spec(1) by (auto split: prod.splits)
  qed
qed simp

lemma create_answer_lines:
  assumes "create_answer env True initial offer = (st, Some answer)" "\<forall>m \<in> set (ss_media offer). unregistered env m"
    and "\<forall>m \<in> set (ss_media initial). local_ok env m"
  shows "length (ss_media answer) = length (ss_media offer) \<and>
    (\<forall>i < length (ss_media offer). let om = ss_media offer ! i; am = ss_media answer ! i in
       md_media am = md_media om \<and> md_transport am = md_transport om \<and> (md_port om = 0 \<longrightarrow> md_port am = 0) \<and>
       (md_port am \<noteq> 0 \<longrightarrow> (\<exists>im \<in> set (ss_media initial). md_media im = md_media om \<and> md_transport im = md_transport om \<and>
          map pj_strtoul (md_fmt am) = map pj_strtoul (chosen_fmts env om im)))) \<and>
    answer = initial\<lparr>ss_media := ss_media answer\<rparr>"
proof -
  obtain s ams where a: "answer_medias env True initial (ss_media offer) (replicate PJMEDIA_MAX_SDP_MEDIA False)
      (ss_media initial) SDP_SUCCESS = (s, ams)" "answer = initial\<lparr>ss_media := ams\<rparr>"
    using assms(1) by (auto simp: create_answer_def split: if_splits prod.splits)
  have "list_all2 (answers env (ss_media initial)) (ss_media offer) ams"
    by (rule answer_medias_spec [OF assms(3) a(1) assms(2)])
  then have "length ams = length (ss_media offer) \<and> (\<forall>i < length (ss_media offer). answers env (ss_media initial) (ss_media offer ! i) (ams ! i))"
    by (simp add: list_all2_conv_all_nth)
  then show ?thesis using a(2) by (simp add: answers_def Let_def)
qed

text \<open>
  C10: The answer to an offer has one media line for each line of the offer, in the same order, of the same
  type and transport; a line that is disabled in the offer is disabled in the answer; the rest of the answer
  is the own session.  This is so whatever the callbacks do.  When moreover the remote's codec order is
  preferred, the offer names no codec with a registered callback for custom matching (as G722.1 and AMR have), and
  the own lines have numeric formats only, no static one of which is declared a telephone event, then an active
  line answers with a line of the own session and exactly the chosen formats: the first codec of the
  offer that the own line supports and the first telephone event, in the order of the offer and under its
  numbers.
\<close>

theorem create_answer_correct:
  assumes "create_answer env pr initial offer = (st, Some answer)"
  shows "length (ss_media answer) = length (ss_media offer) \<and>
    (\<forall>i < length (ss_media offer). let om = ss_media offer ! i; am = ss_media answer ! i in
       md_media am = md_media om \<and> md_transport am = md_transport om \<and> (md_port om = 0 \<longrightarrow> md_port am = 0)) \<and>
    answer = initial\<lparr>ss_media := ss_media answer\<rparr> \<and>
    (pr \<and> (\<forall>m \<in> set (ss_media offer). unregistered env m) \<and> (\<forall>m \<in> set (ss_media initial). local_ok env m) \<longrightarrow>
      (\<forall>i < length (ss_media offer). let om = ss_media offer ! i; am = ss_media answer ! i in
         md_port am \<noteq> 0 \<longrightarrow> (\<exists>im \<in> set (ss_media initial). md_media im = md_media om \<and> md_transport im = md_transport om \<and>
            map pj_strtoul (md_fmt am) = map pj_strtoul (chosen_fmts env om im))))"
proof -
  have "\<forall>i < length (ss_media offer). let om = ss_media offer ! i; am = ss_media answer ! i in
         md_port am \<noteq> 0 \<longrightarrow> (\<exists>im \<in> set (ss_media initial). md_media im = md_media om \<and> md_transport im = md_transport om \<and>
            map pj_strtoul (md_fmt am) = map pj_strtoul (chosen_fmts env om im))"
    if "pr" "\<forall>m \<in> set (ss_media offer). unregistered env m" "\<forall>m \<in> set (ss_media initial). local_ok env m"
    using create_answer_lines [of env initial offer st answer] assms that by (simp add: Let_def)
  with create_answer_structure [OF assms] show ?thesis by blast
qed

definition local_session :: sdp_session where
  "local_session = (sample_session 1 [])\<lparr>ss_media := [audio_line [''0'', ''8'', ''97'', ''101'']
     [''97 speex/8000'', ''101 telephone-event/8000'']]\<rparr>"

theorem create_answer_correct_witness:
  "let offer = local_session\<lparr>ss_media := [audio_line [''18'', ''99'', ''8'', ''96''] [''99 SPEEX/8000'', ''96 telephone-event/8000'']]\<rparr>
   in case create_answer g7221_env True local_session offer of (st, Some answer) \<Rightarrow>
        st = SDP_SUCCESS \<and> map md_fmt (ss_media answer) = [[''99'', ''96'']] \<and>
        length (ss_media answer) = length (ss_media offer) | _ \<Rightarrow> False"
proof -
  let ?o = "local_session\<lparr>ss_media := [audio_line [''18'', ''99'', ''8'', ''96''] [''99 SPEEX/8000'', ''96 telephone-event/8000'']]\<rparr>"
  have r: "(case create_answer g7221_env True local_session ?o of (st, Some answer) \<Rightarrow>
      st = SDP_SUCCESS \<and> map md_fmt (ss_media answer) = [[''99'', ''96'']] | _ \<Rightarrow> False)" by code_simp
  then obtain st answer where eq: "create_answer g7221_env True local_session ?o = (st, Some answer)"
    by (auto split: prod.splits option.splits)
  have "\<forall>m \<in> set (ss_media ?o). unregistered g7221_env m" "\<forall>m \<in> set (ss_media local_session). local_ok g7221_env m" by code_simp+
  with create_answer_correct [OF eq] r eq show ?thesis by (simp add: Let_def)
qed

text \<open>
  An offer of which no media line has a line of the same type and transport in the own session is
  answered with success, every media line rejected: the status of the validation is returned as
  the status of the answer.
\<close>

theorem unmatched_offer_succeeds:
  assumes "sdp_validate offer = SDP_SUCCESS"
    and "\<forall>om \<in> set (ss_media offer). \<forall>im \<in> set (ss_media initial). md_media om \<noteq> md_media im \<or> md_transport om \<noteq> md_transport im"
  shows "\<exists>answer. create_answer env pr initial offer = (SDP_SUCCESS, Some answer) \<and>
    length (ss_media answer) = length (ss_media offer) \<and> (\<forall>am \<in> set (ss_media answer). md_port am = 0)"
proof -
  have am: "answer_media env pr initial om used js ims st = (st, ims, None)"
    if "set js \<subseteq> {..<length ims}" "\<forall>im \<in> set ims. md_media om \<noteq> md_media im \<or> md_transport om \<noteq> md_transport im" for om used js ims st
    using that by (induction js) (auto simp: Let_def)
  have "\<exists>ams. answer_medias env pr initial oms used (ss_media initial) st = (st, ams) \<and> length ams = length oms \<and>
      (\<forall>am \<in> set ams. md_port am = 0)"
    if "\<forall>om \<in> set oms. \<forall>im \<in> set (ss_media initial). md_media om \<noteq> md_media im \<or> md_transport om \<noteq> md_transport im" for oms used st
    using that
  proof (induction oms arbitrary: used st)
    case (Cons om oms)
    then have "answer_media env pr initial om used [0..<length (ss_media initial)] (ss_media initial) st = (st, ss_media initial, None)"
      by (intro am) auto
    moreover have "md_port (neg_clone_deactivate om (Some om) (Some initial)) = 0"
      by (simp add: neg_clone_deactivate_def Let_def split: option.split)
    moreover obtain ams where "answer_medias env pr initial oms used (ss_media initial) st = (st, ams)"
        "length ams = length oms" "\<forall>am \<in> set ams. md_port am = 0"
      using Cons.IH Cons.prems by force
    ultimately show ?case by simp
  qed simp
  from this [OF assms(2)] obtain ams where
      "answer_medias env pr initial (ss_media offer) (replicate PJMEDIA_MAX_SDP_MEDIA False) (ss_media initial) SDP_SUCCESS = (SDP_SUCCESS, ams)"
      "length ams = length (ss_media offer)" "\<forall>am \<in> set ams. md_port am = 0" by blast
  then show ?thesis using assms(1) by (simp add: create_answer_def)
qed

theorem unmatched_offer_succeeds_witness:
  "\<exists>answer. create_answer (plain_env []) True local_session (many_media ''video'' 2) = (SDP_SUCCESS, Some answer) \<and>
    length (ss_media answer) = 2 \<and> (\<forall>am \<in> set (ss_media answer). md_port am = 0)"
proof -
  have "sdp_validate (many_media ''video'' 2) = SDP_SUCCESS" "length (ss_media (many_media ''video'' 2)) = 2"
    "\<forall>om \<in> set (ss_media (many_media ''video'' 2)). \<forall>im \<in> set (ss_media local_session).
       md_media om \<noteq> md_media im \<or> md_transport om \<noteq> md_transport im" by code_simp+
  then show ?thesis using unmatched_offer_succeeds [of "many_media ''video'' 2" local_session "plain_env []" True] by metis
qed

text \<open>
  Two more results the code gives.  An offer of telephone events alone, to a session without them,
  is answered with an active line that has no formats, which the code's own validation refuses.  And an answer
  with the format \<open>0\<close> and an \<open>rtpmap\<close> attribute without value makes the code compare its dynamic
  formats with an \<open>rtpmap\<close> structure it has not written: the result depends on what was on the stack.
\<close>

theorem doubtful_answers:
  "(case create_answer (plain_env []) True (sample_session 1 [''0''])
        (local_session\<lparr>ss_media := [audio_line [''101''] [''101 telephone-event/8000'']]\<rparr>) of
      (st, Some answer) \<Rightarrow> st = SDP_SUCCESS \<and> map md_fmt (ss_media answer) = [[]] \<and>
        map md_port (ss_media answer) = [4000] \<and> sdp_validate answer = PJMEDIA_SDP_ENOFMT
    | _ \<Rightarrow> False) \<and>
   (let offer = audio_line [''97''] [''97 speex/8000'']; answer = audio_line [''0''] [[]]
    in fst (process_m_answer (plain_env ''speex'') offer answer False) = SDP_SUCCESS \<and>
       fst (process_m_answer (plain_env ''other'') offer answer False) = PJMEDIA_SDPNEG_EANSNOMEDIA)"
  by code_simp

section \<open>Offer and answer\<close>

lemma lines_same_media:
  assumes "length ams = length oms" "\<forall>i < length oms. md_media (ams ! i) = md_media (oms ! i)"
  shows "map md_media ams = map md_media oms"
  using assms by (intro nth_equalityI) auto

text \<open>
  C9: A whole exchange.  One negotiator makes an offer, another one is created with it and its own
  session, and negotiates; its answer is given to the first, which negotiates too.  If both succeed, both are
  done and hold active sessions with the media lines of the offer, in its order and of its types: the
  answerer's remote session is the offer and its local one is what the offerer got; every line the
  answerer rejected is disabled at the offerer, and there is a line active on both sides.
\<close>

theorem exchange_agrees:
  assumes "neg_create_w_local_offer offer = Inr a0" "neg_create_w_remote_offer (Some own) offer = Inr b0"
    and "neg_negotiate envb asyb b0 = Some (SDP_SUCCESS, b1)" "active_local_sdp b1 = Some answer"
    and "neg_set_remote_answer a0 answer = (SDP_SUCCESS, a1)"
    and "neg_negotiate enva asya a1 = Some (SDP_SUCCESS, a2)"
  shows "\<exists>al ar. ng_state a2 = STATE_DONE \<and> ng_state b1 = STATE_DONE \<and> active_remote_sdp b1 = Some offer \<and>
    active_local_sdp a2 = Some al \<and> active_remote_sdp a2 = Some ar \<and> answer_was_remote a2 \<and> \<not> answer_was_remote b1 \<and>
    map md_media (ss_media answer) = map md_media (ss_media offer) \<and>
    map md_media (ss_media al) = map md_media (ss_media offer) \<and> map md_media (ss_media ar) = map md_media (ss_media offer) \<and>
    (\<forall>i < length (ss_media offer). md_port (ss_media answer ! i) = 0 \<longrightarrow> md_port (ss_media al ! i) = 0) \<and>
    (\<exists>i < length (ss_media offer). md_port (ss_media al ! i) \<noteq> 0 \<and> md_port (ss_media answer ! i) \<noteq> 0)"
proof -
  have b0: "b0 = neg_zero\<lparr>prefer_remote_codec_order := True, neg_remote_sdp := Some offer, initial_sdp := Some own,
      neg_local_sdp := Some own, ng_state := STATE_WAIT_NEGO\<rparr>"
    using assms(2) by (simp add: neg_create_w_remote_offer_def Let_def split: if_splits)
  then obtain ans where ans: "create_answer envb True own offer = (SDP_SUCCESS, Some ans)"
      "answer = ans\<lparr>or_version := or_version own + 1\<rparr>" "ng_state b1 = STATE_DONE" "active_remote_sdp b1 = Some offer"
      "\<not> answer_was_remote b1"
    using assms(3,4)
    by (auto simp: neg_negotiate_def nego_local_answer_def neg_zero_def split: prod.splits option.splits sdp_status.splits)
  have lines: "length (ss_media answer) = length (ss_media offer)"
    "\<forall>i < length (ss_media offer). md_media (ss_media answer ! i) = md_media (ss_media offer ! i)"
    using create_answer_structure [OF ans(1)] ans(2) by (simp_all add: Let_def)
  have a1: "a1 = neg_zero\<lparr>ng_state := STATE_WAIT_NEGO, prefer_remote_codec_order := True, initial_sdp := Some offer,
      neg_local_sdp := Some offer, has_remote_answer := True, neg_remote_sdp := Some answer\<rparr>"
  proof -
    have "a0 = neg_zero\<lparr>ng_state := STATE_LOCAL_OFFER, prefer_remote_codec_order := True, initial_sdp := Some offer,
        neg_local_sdp := Some offer\<rparr>"
      using assms(1) by (simp add: neg_create_w_local_offer_def split: if_splits)
    then show ?thesis using assms(5) by (auto simp: neg_set_remote_answer_def neg_zero_def)
  qed
  obtain st al ar where p: "process_answer enva offer answer asya = (st, al, ar)" by (rule prod_cases3)
  have a2: "st = SDP_SUCCESS" "ng_state a2 = STATE_DONE" "active_local_sdp a2 = Some al" "active_remote_sdp a2 = Some ar"
    "answer_was_remote a2"
    using assms(6) p unfolding a1 by (auto simp: neg_negotiate_def nego_remote_answer_def neg_zero_def split: if_splits)
  have "\<forall>i < min (length (ss_media offer)) (length (ss_media answer)). md_media (ss_media answer ! i) = md_media (ss_media offer ! i)"
    using lines by simp
  note pl = process_answer_lines [OF p disjI1 [OF a2(1)] this]
  have len: "length (ss_media al) = length (ss_media offer)" using conjunct1 [OF pl] by (metis length_map)
  have arl: "length (ss_media ar) = length (ss_media offer)" using pl lines(1) by simp
  have "map md_media (take (length (ss_media offer)) (ss_media ar)) = map md_media (ss_media offer)"
    by (rule conjunct1 [OF conjunct2 [OF pl]])
  with arl have ar: "map md_media (ss_media ar) = map md_media (ss_media offer)" by simp
  obtain m where "m \<in> set (ss_media al)" "md_port m \<noteq> 0" using pl a2(1) by blast
  then obtain i where "i < length (ss_media offer)" "md_port (ss_media al ! i) \<noteq> 0" using len by (metis in_set_conv_nth)
  moreover from this have "md_port (ss_media answer ! i) \<noteq> 0" using pl by blast
  moreover note ar
  moreover have "map md_media (ss_media answer) = map md_media (ss_media offer)" by (rule lines_same_media [OF lines])
  ultimately show ?thesis using a2 ans pl by blast
qed

definition exchange_offer :: sdp_session where
  "exchange_offer = local_session\<lparr>ss_media := [audio_line [''18'', ''97'', ''101''] [''97 speex/8000'', ''101 telephone-event/8000''],
     (audio_line [''31''] [])\<lparr>md_media := ''video''\<rparr>]\<rparr>"

definition exchange_a0 :: sdp_neg where "exchange_a0 = projr (neg_create_w_local_offer exchange_offer)"

definition exchange_b0 :: sdp_neg where
  "exchange_b0 = projr (neg_create_w_remote_offer (Some local_session) exchange_offer)"

definition exchange_b1 :: sdp_neg where "exchange_b1 = snd (the (neg_negotiate (plain_env []) False exchange_b0))"

definition exchange_answer :: sdp_session where "exchange_answer = the (active_local_sdp exchange_b1)"

definition exchange_a1 :: sdp_neg where "exchange_a1 = snd (neg_set_remote_answer exchange_a0 exchange_answer)"

definition exchange_a2 :: sdp_neg where "exchange_a2 = snd (the (neg_negotiate (plain_env []) False exchange_a1))"

lemma exchange_steps:
  "neg_create_w_local_offer exchange_offer = Inr exchange_a0"
  "neg_create_w_remote_offer (Some local_session) exchange_offer = Inr exchange_b0"
  "active_local_sdp exchange_b1 = Some exchange_answer"
  "neg_set_remote_answer exchange_a0 exchange_answer = (SDP_SUCCESS, exchange_a1)"
proof -
  have "isl (neg_create_w_local_offer exchange_offer) = False"
    "isl (neg_create_w_remote_offer (Some local_session) exchange_offer) = False"
    "active_local_sdp exchange_b1 \<noteq> None"
    "fst (neg_set_remote_answer exchange_a0 exchange_answer) = SDP_SUCCESS" by code_simp+
  then show "neg_create_w_local_offer exchange_offer = Inr exchange_a0"
      "neg_create_w_remote_offer (Some local_session) exchange_offer = Inr exchange_b0"
      "active_local_sdp exchange_b1 = Some exchange_answer"
      "neg_set_remote_answer exchange_a0 exchange_answer = (SDP_SUCCESS, exchange_a1)"
    by (simp_all add: exchange_a0_def exchange_b0_def exchange_answer_def exchange_a1_def prod_eq_iff)
qed

lemma success_result:
  assumes "map_option fst r = Some s"
  shows "r = Some (s, snd (the r))"
  using assms by auto

lemma exchange_negotiates:
  "neg_negotiate (plain_env []) False exchange_b0 = Some (SDP_SUCCESS, exchange_b1)"
  "neg_negotiate (plain_env []) False exchange_a1 = Some (SDP_SUCCESS, exchange_a2)"
  unfolding exchange_b1_def exchange_a2_def by (rule success_result, code_simp)+

theorem exchange_agrees_witness:
  "map md_media (ss_media exchange_answer) = [''audio'', ''video''] \<and>
   map_option (\<lambda>s. map md_port (ss_media s)) (active_local_sdp exchange_a2) = Some [4000, 0]"
proof -
  from exchange_agrees [OF exchange_steps(1,2) exchange_negotiates(1) exchange_steps(3,4) exchange_negotiates(2)]
  have "map md_media (ss_media exchange_answer) = map md_media (ss_media exchange_offer)" by blast
  also have "\<dots> = [''audio'', ''video'']" by code_simp
  finally show ?thesis by (intro conjI) (assumption, code_simp)
qed

end
