(* ===== verification/Octets.thy ===== *)
theory Octets
  imports Prelude
begin

text \<open>
  Bytes and words: the little-endian view a 32-bit machine has of its memory, the big-endian view of
  protocols, and their laws.
\<close>

unbundle bit_operations_syntax

type_synonym bytes = "u8 list"

fun le_word :: "bytes \<Rightarrow> u32" where
  "le_word [] = 0"
| "le_word (b # bs) = ucast b OR push_bit 8 (le_word bs)"

definition le_bytes :: "u32 \<Rightarrow> bytes" where
  "le_bytes w = [ucast w, ucast (drop_bit 8 w), ucast (drop_bit 16 w), ucast (drop_bit 24 w)]"

definition be_word :: "bytes \<Rightarrow> u32" where "be_word bs = le_word (rev bs)"

definition be_bytes :: "u32 \<Rightarrow> bytes" where "be_bytes w = rev (le_bytes w)"

definition le_words :: "bytes \<Rightarrow> u32 list" where
  "le_words bs = map (\<lambda>i. le_word (mem_read bs (4 * i) 4)) [0..<length bs div 4]"

lemma length_le_bytes [simp]: "length (le_bytes w) = 4" "length (be_bytes w) = 4"
  by (simp_all add: le_bytes_def be_bytes_def)

lemma length_le_words [simp]: "length (le_words bs) = length bs div 4"
  by (simp add: le_words_def)

lemma bit_le_word: "bit (le_word bs) k \<Longrightarrow> k < 8 * length bs"
proof (induction bs arbitrary: k)
  case (Cons b bs)
  then show ?case using Cons.IH [of "k - 8"] by (fastforce simp: bit_simps dest: bit_imp_le_length)
qed simp

lemma bit_le_word_Cons:
  "bit (le_word (b # bs)) k = (if k < 8 then bit b k else k < 32 \<and> bit (le_word bs) (k - 8))"
  by (auto simp: bit_simps dest: bit_imp_le_length)

lemma bit_le_word_4:
  "bit (le_word [a, b, c, d]) k =
    (if k < 8 then bit a k else if k < 16 then bit b (k - 8) else if k < 24 then bit c (k - 16) else bit d (k - 24))"
  by (auto simp: bit_simps dest: bit_imp_le_length)

lemma le_word_bytes [simp]: "le_word (le_bytes w) = w"
proof (rule bit_word_eqI)
  fix k assume "k < LENGTH(32)"
  then have "k < 32" by simp
  moreover have "8 + (k - 8) = k" if "\<not> k < 8" using that by simp
  moreover have "16 + (k - 16) = k" if "\<not> k < 16" using that by simp
  moreover have "24 + (k - 24) = k" if "\<not> k < 24" using that by simp
  ultimately show "bit (le_word (le_bytes w)) k = bit w k"
    by (simp only: le_bytes_def bit_le_word_4) (auto simp: bit_simps)
qed

lemma le_bytes_word [simp]: "le_bytes (le_word [a, b, c, d]) = [a, b, c, d]"
proof -
  have "ucast (le_word [a, b, c, d]) = a" "ucast (drop_bit 8 (le_word [a, b, c, d])) = b"
    "ucast (drop_bit 16 (le_word [a, b, c, d])) = c" "ucast (drop_bit 24 (le_word [a, b, c, d])) = d"
    by (rule bit_word_eqI; auto simp: bit_simps dest: bit_imp_le_length)+
  then show ?thesis by (simp only: le_bytes_def)
qed

lemma be_word_bytes [simp]: "be_word (be_bytes w) = w"
  by (simp add: be_word_def be_bytes_def)

lemma be_bytes_word [simp]: "be_bytes (be_word [a, b, c, d]) = [a, b, c, d]"
  by (simp add: be_word_def be_bytes_def del: le_word.simps)

lemma list_of_four: "length bs = 4 \<Longrightarrow> \<exists>a b c d. bs = [a, b, c, d]"
  by (auto simp: numeral_eq_Suc length_Suc_conv)

end
