(* ===== verification/Crc32.thy ===== *)
theory Crc32
  imports Octets
begin

text \<open>
  The checksum of \<open>pjlib-util/src/pjlib-util/crc32.c\<close> in both of its implementations: by table, four
  bytes at a time on aligned data (the one that is built, on a little-endian machine), and bit by
  bit.
\<close>

unbundle bit_operations_syntax

section \<open>The table-driven implementation\<close>

definition crc_tab :: "u32 list" where
  "crc_tab = [
   0x00000000, 0x77073096, 0xee0e612c, 0x990951ba, 0x076dc419, 0x706af48f, 0xe963a535, 0x9e6495a3,
   0x0edb8832, 0x79dcb8a4, 0xe0d5e91e, 0x97d2d988, 0x09b64c2b, 0x7eb17cbd, 0xe7b82d07, 0x90bf1d91,
   0x1db71064, 0x6ab020f2, 0xf3b97148, 0x84be41de, 0x1adad47d, 0x6ddde4eb, 0xf4d4b551, 0x83d385c7,
   0x136c9856, 0x646ba8c0, 0xfd62f97a, 0x8a65c9ec, 0x14015c4f, 0x63066cd9, 0xfa0f3d63, 0x8d080df5,
   0x3b6e20c8, 0x4c69105e, 0xd56041e4, 0xa2677172, 0x3c03e4d1, 0x4b04d447, 0xd20d85fd, 0xa50ab56b,
   0x35b5a8fa, 0x42b2986c, 0xdbbbc9d6, 0xacbcf940, 0x32d86ce3, 0x45df5c75, 0xdcd60dcf, 0xabd13d59,
   0x26d930ac, 0x51de003a, 0xc8d75180, 0xbfd06116, 0x21b4f4b5, 0x56b3c423, 0xcfba9599, 0xb8bda50f,
   0x2802b89e, 0x5f058808, 0xc60cd9b2, 0xb10be924, 0x2f6f7c87, 0x58684c11, 0xc1611dab, 0xb6662d3d,
   0x76dc4190, 0x01db7106, 0x98d220bc, 0xefd5102a, 0x71b18589, 0x06b6b51f, 0x9fbfe4a5, 0xe8b8d433,
   0x7807c9a2, 0x0f00f934, 0x9609a88e, 0xe10e9818, 0x7f6a0dbb, 0x086d3d2d, 0x91646c97, 0xe6635c01,
   0x6b6b51f4, 0x1c6c6162, 0x856530d8, 0xf262004e, 0x6c0695ed, 0x1b01a57b, 0x8208f4c1, 0xf50fc457,
   0x65b0d9c6, 0x12b7e950, 0x8bbeb8ea, 0xfcb9887c, 0x62dd1ddf, 0x15da2d49, 0x8cd37cf3, 0xfbd44c65,
   0x4db26158, 0x3ab551ce, 0xa3bc0074, 0xd4bb30e2, 0x4adfa541, 0x3dd895d7, 0xa4d1c46d, 0xd3d6f4fb,
   0x4369e96a, 0x346ed9fc, 0xad678846, 0xda60b8d0, 0x44042d73, 0x33031de5, 0xaa0a4c5f, 0xdd0d7cc9,
   0x5005713c, 0x270241aa, 0xbe0b1010, 0xc90c2086, 0x5768b525, 0x206f85b3, 0xb966d409, 0xce61e49f,
   0x5edef90e, 0x29d9c998, 0xb0d09822, 0xc7d7a8b4, 0x59b33d17, 0x2eb40d81, 0xb7bd5c3b, 0xc0ba6cad,
   0xedb88320, 0x9abfb3b6, 0x03b6e20c, 0x74b1d29a, 0xead54739, 0x9dd277af, 0x04db2615, 0x73dc1683,
   0xe3630b12, 0x94643b84, 0x0d6d6a3e, 0x7a6a5aa8, 0xe40ecf0b, 0x9309ff9d, 0x0a00ae27, 0x7d079eb1,
   0xf00f9344, 0x8708a3d2, 0x1e01f268, 0x6906c2fe, 0xf762575d, 0x806567cb, 0x196c3671, 0x6e6b06e7,
   0xfed41b76, 0x89d32be0, 0x10da7a5a, 0x67dd4acc, 0xf9b9df6f, 0x8ebeeff9, 0x17b7be43, 0x60b08ed5,
   0xd6d6a3e8, 0xa1d1937e, 0x38d8c2c4, 0x4fdff252, 0xd1bb67f1, 0xa6bc5767, 0x3fb506dd, 0x48b2364b,
   0xd80d2bda, 0xaf0a1b4c, 0x36034af6, 0x41047a60, 0xdf60efc3, 0xa867df55, 0x316e8eef, 0x4669be79,
   0xcb61b38c, 0xbc66831a, 0x256fd2a0, 0x5268e236, 0xcc0c7795, 0xbb0b4703, 0x220216b9, 0x5505262f,
   0xc5ba3bbe, 0xb2bd0b28, 0x2bb45a92, 0x5cb36a04, 0xc2d7ffa7, 0xb5d0cf31, 0x2cd99e8b, 0x5bdeae1d,
   0x9b64c2b0, 0xec63f226, 0x756aa39c, 0x026d930a, 0x9c0906a9, 0xeb0e363f, 0x72076785, 0x05005713,
   0x95bf4a82, 0xe2b87a14, 0x7bb12bae, 0x0cb61b38, 0x92d28e9b, 0xe5d5be0d, 0x7cdcefb7, 0x0bdbdf21,
   0x86d3d2d4, 0xf1d4e242, 0x68ddb3f8, 0x1fda836e, 0x81be16cd, 0xf6b9265b, 0x6fb077e1, 0x18b74777,
   0x88085ae6, 0xff0f6a70, 0x66063bca, 0x11010b5c, 0x8f659eff, 0xf862ae69, 0x616bffd3, 0x166ccf45,
   0xa00ae278, 0xd70dd2ee, 0x4e048354, 0x3903b3c2, 0xa7672661, 0xd06016f7, 0x4969474d, 0x3e6e77db,
   0xaed16a4a, 0xd9d65adc, 0x40df0b66, 0x37d83bf0, 0xa9bcae53, 0xdebb9ec5, 0x47b2cf7f, 0x30b5ffe9,
   0xbdbdf21c, 0xcabac28a, 0x53b39330, 0x24b4a3a6, 0xbad03605, 0xcdd70693, 0x54de5729, 0x23d967bf,
   0xb3667a2e, 0xc4614ab8, 0x5d681b02, 0x2a6f2b94, 0xb40bbe37, 0xc30c8ea1, 0x5a05df1b, 0x2d02ef8d]"

definition CRC32_NEGL :: u32 where "CRC32_NEGL = 0xffffffff"

definition CRC32_INDEX :: "u32 \<Rightarrow> u32" where "CRC32_INDEX c = c AND 0xff"

definition CRC32_SHIFTED :: "u32 \<Rightarrow> u32" where "CRC32_SHIFTED c = drop_bit 8 c"

text \<open>One byte; and a word that has been combined with the state, one lookup per byte.\<close>

definition crc_byte :: "u32 \<Rightarrow> u8 \<Rightarrow> u32" where
  "crc_byte crc b = crc_tab ! unat (CRC32_INDEX crc XOR ucast b) XOR CRC32_SHIFTED crc"

definition crc_shift :: "u32 \<Rightarrow> u32" where
  "crc_shift crc = crc_tab ! unat (CRC32_INDEX crc) XOR CRC32_SHIFTED crc"

text \<open>The three loops: up to an aligned address, by words, and the rest.\<close>

fun crc_head :: "nat \<Rightarrow> u32 \<Rightarrow> u8 list \<Rightarrow> u32 \<times> u8 list" where
  "crc_head addr crc [] = (crc, [])"
| "crc_head addr crc (b # bs) =
     (if addr mod 4 \<noteq> 0 then crc_head (addr + 1) (crc_byte crc b) bs else (crc, b # bs))"

fun crc_words :: "u32 \<Rightarrow> u8 list \<Rightarrow> u32 \<times> u8 list" where
  "crc_words crc (b0 # b1 # b2 # b3 # bs) =
     (let crc = crc XOR le_word [b0, b1, b2, b3];
          crc = crc_shift crc;
          crc = crc_shift crc;
          crc = crc_shift crc;
          crc = crc_shift crc
      in crc_words crc bs)"
| "crc_words crc bs = (crc, bs)"

definition pj_crc32_init :: u32 where "pj_crc32_init = 0"

text \<open>\<open>addr\<close> is the address of the data; the state is the whole context.\<close>

definition pj_crc32_update :: "nat \<Rightarrow> u32 \<Rightarrow> u8 list \<Rightarrow> u32" where
  "pj_crc32_update addr crc_state data =
     (let crc = crc_state XOR CRC32_NEGL
      in case crc_head addr crc data of (crc, data) \<Rightarrow>
         case crc_words crc data of (crc, data) \<Rightarrow>
           foldl crc_byte crc data XOR CRC32_NEGL)"

definition pj_crc32_final :: "u32 \<Rightarrow> u32" where "pj_crc32_final crc_state = crc_state"

definition pj_crc32_calc :: "nat \<Rightarrow> u8 list \<Rightarrow> u32" where
  "pj_crc32_calc addr data = pj_crc32_final (pj_crc32_update addr pj_crc32_init data)"

section \<open>The implementation without tables\<close>

definition crc_bit :: "u32 \<Rightarrow> u32" where
  "crc_bit temp = (if temp AND 1 \<noteq> 0 then drop_bit 1 temp XOR 0xEDB88320 else drop_bit 1 temp)"

definition crc_byte_bits :: "u32 \<Rightarrow> u8 \<Rightarrow> u32" where
  "crc_byte_bits crc b =
     (let temp = (crc AND 0xFF) XOR ucast b
      in drop_bit 8 crc XOR (crc_bit ^^ 8) temp)"

definition crc32_bits_init :: u32 where "crc32_bits_init = CRC32_NEGL"

definition crc32_bits_update :: "u32 \<Rightarrow> u8 list \<Rightarrow> u32" where
  "crc32_bits_update crc_state octets = foldl crc_byte_bits crc_state octets"

definition crc32_bits_final :: "u32 \<Rightarrow> u32" where "crc32_bits_final crc_state = crc_state XOR CRC32_NEGL"

definition crc32_bits_calc :: "u8 list \<Rightarrow> u32" where
  "crc32_bits_calc data = crc32_bits_final (crc32_bits_update crc32_bits_init data)"

lemma length_crc_tab [simp]: "length crc_tab = 256"
  by (simp add: crc_tab_def)

lemma crc_bit_xor: "crc_bit (x XOR y) = crc_bit x XOR crc_bit y"
  by (rule bit_word_eqI)
    (auto simp: crc_bit_def and_one_eq bit_simps mod_2_eq_odd even_xor_iff)

lemma crc_bits_xor: "(crc_bit ^^ n) (x XOR y) = (crc_bit ^^ n) x XOR (crc_bit ^^ n) y"
  by (induction n) (simp_all add: crc_bit_xor)

text \<open>The table, doubled eight times from its entries at the powers of two.\<close>

fun crc_double :: "u32 list \<Rightarrow> u32 list \<Rightarrow> u32 list" where
  "crc_double [] tab = tab"
| "crc_double (b # bs) tab = crc_double bs (tab @ map (\<lambda>x. x XOR b) tab)"

lemma crc_tab_double:
  "crc_tab = crc_double [0x77073096, 0xee0e612c, 0x076dc419, 0x0edb8832, 0x1db71064, 0x3b6e20c8, 0x76dc4190, 0xedb88320] [0]"
  by (simp add: crc_tab_def)

lemma add_pow_xor:
  assumes "i < 2 ^ k" "k < 32"
  shows "word_of_nat (2 ^ k + i) = (word_of_nat i XOR 2 ^ k :: u32)"
proof -
  have "(word_of_nat i :: u32) AND 2 ^ k = 0"
    using assms by (intro bit_word_eqI) (auto simp: bit_simps bit_nat_def)
  then show ?thesis by (simp add: disjunctive_add_eq_xor [symmetric] add.commute)
qed

lemma crc_double_nth:
  assumes "length tab = 2 ^ k" "\<forall>i < 2 ^ k. tab ! i = (crc_bit ^^ 8) (word_of_nat i)"
    and "k + length bs \<le> 32" "\<forall>j < length bs. bs ! j = (crc_bit ^^ 8) (2 ^ (k + j))"
  shows "i < 2 ^ (k + length bs) \<Longrightarrow> crc_double bs tab ! i = (crc_bit ^^ 8) (word_of_nat i)"
  using assms
proof (induction bs arbitrary: k tab)
  case (Cons b bs)
  let ?tab = "tab @ map (\<lambda>x. x XOR b) tab"
  have b: "b = (crc_bit ^^ 8) (2 ^ k)" using Cons.prems(5) by force
  have "?tab ! j = (crc_bit ^^ 8) (word_of_nat j)" if j: "j < 2 ^ (k + 1)" for j
  proof (cases "j < 2 ^ k")
    case True
    then show ?thesis using Cons.prems(2,3) by (simp add: nth_append)
  next
    case False
    then have "j - 2 ^ k < 2 ^ k" "j = 2 ^ k + (j - 2 ^ k)" using j by auto
    then have "(word_of_nat j :: u32) = word_of_nat (j - 2 ^ k) XOR 2 ^ k"
      using add_pow_xor [of "j - 2 ^ k" k] Cons.prems(4) by simp
    then show ?thesis using False \<open>j - 2 ^ k < 2 ^ k\<close> Cons.prems(2,3) b
      by (simp add: nth_append crc_bits_xor del: of_nat_diff)
  qed
  moreover have "bs ! j = (crc_bit ^^ 8) (2 ^ (k + 1 + j))" if "j < length bs" for j
    using Cons.prems(5) [rule_format, of "Suc j"] that by simp
  ultimately show ?case
    using Cons.IH [of "k + 1" ?tab] Cons.prems(1,2,4) by simp
qed simp

lemma crc_basis:
  "[0x77073096, 0xee0e612c, 0x076dc419, 0x0edb8832, 0x1db71064, 0x3b6e20c8, 0x76dc4190, 0xedb88320] =
    map (crc_bit ^^ 8) [1, 2, 4, 8, 16, 32, 64, 128]"
  by code_simp

lemma crc_bits_zero: "(crc_bit ^^ n) 0 = 0"
  by (induction n) (simp_all add: crc_bit_def)

lemma crc_tab_bits:
  assumes "i < 256"
  shows "crc_tab ! i = (crc_bit ^^ 8) (word_of_nat i)"
  unfolding crc_tab_double crc_basis
proof (rule crc_double_nth [where k = 0])
  show "\<forall>j < length (map (crc_bit ^^ 8) [1, 2, 4, 8, 16, 32, 64, 128]).
      map (crc_bit ^^ 8) [1, 2, 4, 8, 16, 32, 64, 128] ! j = (crc_bit ^^ 8) (2 ^ (0 + j))"
  proof (intro allI impI)
    fix j assume "j < length (map (crc_bit ^^ 8) [1, 2, 4, 8, 16, 32, 64, 128])"
    then have "j \<in> {0, 1, 2, 3, 4, 5, 6, 7}" by auto
    then show "map (crc_bit ^^ 8) [1, 2, 4, 8, 16, 32, 64, 128] ! j = (crc_bit ^^ 8) (2 ^ (0 + j))" 
      by (auto simp del: funpow.simps)
  qed
qed (use assms in \<open>simp_all add: crc_bits_zero del: funpow.simps\<close>)

section \<open>Both are the same\<close>

lemma crc_bits_push:
  assumes "n \<le> 8" "\<forall>k. bit x k \<longrightarrow> n \<le> k"
  shows "(crc_bit ^^ n) x = drop_bit n x"
  using assms
proof (induction n)
  case (Suc n)
  have "\<forall>k. bit x k \<longrightarrow> n \<le> k" using Suc.prems(2) Suc_leD by blast
  then have "(crc_bit ^^ n) x = drop_bit n x" using Suc.IH Suc.prems(1) by simp
  moreover have "drop_bit n x AND 1 = 0"
    using Suc.prems(2) [rule_format, of n] by (auto simp: and_one_eq bit_iff_odd_drop_bit [symmetric] mod_2_eq_odd)
  moreover have "(crc_bit ^^ Suc n) x = crc_bit ((crc_bit ^^ n) x)" by simp
  ultimately show ?case by (simp only: crc_bit_def [of "drop_bit n x"]) (simp add: drop_bit_drop_bit)
qed simp

lemma crc_bits_split: "(crc_bit ^^ 8) c = (crc_bit ^^ 8) (c AND 0xff) XOR drop_bit 8 c"
proof -
  have m: "(0xff :: u32) = mask 8" by (simp add: mask_eq_exp_minus_1)
  have "c = (c AND 0xff) XOR push_bit 8 (drop_bit 8 c)"
    by (rule bit_word_eqI) (auto simp: m bit_simps)
  then have "(crc_bit ^^ 8) c = (crc_bit ^^ 8) (c AND 0xff) XOR (crc_bit ^^ 8) (push_bit 8 (drop_bit 8 c))"
    by (metis crc_bits_xor)
  also have "(crc_bit ^^ 8) (push_bit 8 (drop_bit 8 c)) = drop_bit 8 (push_bit 8 (drop_bit 8 c))"
    by (rule crc_bits_push) (auto simp: bit_simps)
  also have "\<dots> = drop_bit 8 c" by (rule bit_word_eqI) (auto simp: bit_simps dest: bit_imp_le_length)
  finally show ?thesis .
qed

lemma low_byte_less: "unat (c AND 0xff :: u32) < 256"
proof -
  have "(c AND 0xff :: u32) = take_bit 8 c" by (simp add: take_bit_eq_mask mask_eq_exp_minus_1)
  then show ?thesis using take_bit_nat_less_exp [of 8 "unat c"] by (simp add: unsigned_take_bit_eq)
qed

lemma crc_shift_bits: "crc_shift c = (crc_bit ^^ 8) c"
  using low_byte_less [of c] crc_tab_bits [of "unat (c AND 0xff)"] crc_bits_split [of c]
  by (simp add: crc_shift_def CRC32_INDEX_def CRC32_SHIFTED_def)

lemma ucast_byte: "(ucast (b :: u8) :: u32) AND 0xff = ucast b" "drop_bit 8 (ucast b :: u32) = 0"
proof -
  have m: "(0xff :: u32) = mask 8" by (simp add: mask_eq_exp_minus_1)
  show "(ucast b :: u32) AND 0xff = ucast b" "drop_bit 8 (ucast b :: u32) = 0"
    unfolding m by (rule bit_word_eqI; auto simp: bit_simps dest: bit_imp_le_length)+
qed

lemma crc_byte_shift: "crc_byte crc b = crc_shift (crc XOR ucast b)"
proof -
  have "(crc XOR ucast b) AND 0xff = (crc AND 0xff) XOR ucast b"
    using ucast_byte(1) [of b] by (metis bit.conj_xor_distrib2)
  moreover have "drop_bit 8 (crc XOR ucast b) = drop_bit 8 crc"
    by (simp add: drop_bit_xor ucast_byte)
  ultimately show ?thesis by (simp add: crc_byte_def crc_shift_def CRC32_INDEX_def CRC32_SHIFTED_def)
qed

lemma crc_byte_bits_shift: "crc_byte_bits crc b = crc_shift (crc XOR ucast b)"
proof -
  have "(crc XOR ucast b) AND 0xff = (crc AND 0xff) XOR ucast b"
    using ucast_byte(1) [of b] by (metis bit.conj_xor_distrib2)
  moreover have "drop_bit 8 (crc XOR ucast b) = drop_bit 8 crc"
    by (simp add: drop_bit_xor ucast_byte)
  ultimately show ?thesis
    using crc_bits_split [of "crc XOR ucast b"]
    by (simp add: crc_byte_bits_def crc_shift_bits Let_def xor.commute del: funpow.simps)
qed

text \<open>Up to four bytes at once: the word is combined with the state and shifted out.\<close>

lemma crc_shift_word:
  assumes "length bs \<le> 3"
  shows "crc_shift (c XOR le_word (b # bs)) = crc_byte c b XOR le_word bs"
proof -
  have "le_word (b # bs) = ucast b XOR push_bit 8 (le_word bs)"
    by (rule bit_word_eqI) (auto simp: bit_simps dest: bit_imp_le_length)
  moreover have "(crc_bit ^^ 8) (push_bit 8 (le_word bs)) = drop_bit 8 (push_bit 8 (le_word bs))"
    by (rule crc_bits_push) (auto simp: bit_simps)
  moreover have "drop_bit 8 (push_bit 8 (le_word bs)) = le_word bs"
    using bit_le_word [of bs] assms by (intro bit_word_eqI) (fastforce simp: bit_simps)
  ultimately show ?thesis
    by (simp add: crc_byte_shift crc_shift_bits crc_bits_xor xor.assoc [symmetric] del: funpow.simps)
qed

lemma crc_bytes_word:
  "length bs \<le> 4 \<Longrightarrow> foldl crc_byte c bs = (crc_shift ^^ length bs) (c XOR le_word bs)"
proof (induction bs arbitrary: c)
  case (Cons b bs)
  then have "foldl crc_byte c (b # bs) = (crc_shift ^^ length bs) (crc_shift (c XOR le_word (b # bs)))"
    using crc_shift_word [of bs c b] by simp
  then show ?case by (simp only: length_Cons funpow_swap1 funpow.simps o_apply)
qed simp

lemma crc_head_words: "foldl crc_byte (fst (crc_head addr c bs)) (snd (crc_head addr c bs)) = foldl crc_byte c bs"
  by (induction addr c bs rule: crc_head.induct) simp_all

lemma crc_words_bytes: "foldl crc_byte (fst (crc_words c bs)) (snd (crc_words c bs)) = foldl crc_byte c bs"
proof (induction c bs rule: crc_words.induct)
  case (1 c b0 b1 b2 b3 bs)
  have "crc_shift (crc_shift (crc_shift (crc_shift (c XOR le_word [b0, b1, b2, b3])))) = foldl crc_byte c [b0, b1, b2, b3]"
    using crc_bytes_word [of "[b0, b1, b2, b3]" c] by (simp add: numeral_eq_Suc)
  then show ?case using 1 by (simp add: Let_def)
qed simp_all

lemma crc32_update_bytes: "pj_crc32_update addr s data = foldl crc_byte (s XOR CRC32_NEGL) data XOR CRC32_NEGL"
  using crc_head_words [of addr "s XOR CRC32_NEGL" data]
    crc_words_bytes [of "fst (crc_head addr (s XOR CRC32_NEGL) data)" "snd (crc_head addr (s XOR CRC32_NEGL) data)"]
  by (simp add: pj_crc32_update_def split_beta)

lemma crc_byte_bits_eq: "crc_byte_bits = crc_byte"
  by (intro ext) (simp add: crc_byte_bits_shift crc_byte_shift)

text \<open>
  C17: The checksum computed by table, a word at a time and from any address, is the one computed
  bit by bit, and feeding the data in two parts gives the checksum of the whole.
\<close>

theorem crc32_table_correct:
  "pj_crc32_calc addr data = crc32_bits_calc data \<and>
   pj_crc32_final (pj_crc32_update addr2 (pj_crc32_update addr1 pj_crc32_init as) bs) = crc32_bits_calc (as @ bs)"
  by (simp add: pj_crc32_calc_def crc32_bits_calc_def crc32_update_bytes pj_crc32_init_def pj_crc32_final_def
      crc32_bits_init_def crc32_bits_update_def crc32_bits_final_def crc_byte_bits_eq xor.assoc)

section \<open>Which damage is noticed\<close>

lemma xor_self_cancel: "a XOR c = b XOR c \<Longrightarrow> a = (b :: u32)"
  by (metis xor.assoc xor_self_eq xor.right_neutral)

lemma crc_bit_inj: "inj crc_bit"
proof (rule injI)
  fix x y assume eq: "crc_bit x = crc_bit y"
  have top: "bit (crc_bit z) 31 = bit z 0" for z
    by (auto simp: crc_bit_def bit_simps and_one_eq mod_2_eq_odd bit_0 dest: bit_imp_le_length)
  have odd: "odd x = odd y" using top [of x] top [of y] eq by (simp add: bit_0)
  have "drop_bit 1 x = drop_bit 1 y"
  proof (cases "odd x")
    case True
    then have "drop_bit 1 x XOR 0xEDB88320 = drop_bit 1 y XOR 0xEDB88320"
      using odd eq unfolding crc_bit_def by (simp add: and_one_eq mod_2_eq_odd)
    then show ?thesis by (rule xor_self_cancel)
  next
    case False
    then show ?thesis using odd eq unfolding crc_bit_def by (simp add: and_one_eq mod_2_eq_odd)
  qed
  then have "bit x (Suc k) = bit y (Suc k)" for k by (metis bit_drop_bit_eq o_apply plus_1_eq_Suc)
  then have "bit x k = bit y k" for k using odd by (cases k) (simp_all add: bit_0)
  then show "x = y" by (intro bit_word_eqI) simp
qed

lemma crc_shift_inj: "inj crc_shift"
proof -
  have "crc_shift = (crc_bit ^^ 8)" by (rule ext) (rule crc_shift_bits)
  then show ?thesis by (metis inj_fn crc_bit_inj)
qed

lemma crc_byte_inj: "crc_byte c b = crc_byte c' b \<Longrightarrow> c = c'"
  using crc_shift_inj xor_self_cancel by (auto simp: crc_byte_shift dest: injD)

lemma crc_bytes_inj: "foldl crc_byte c bs = foldl crc_byte c' bs \<Longrightarrow> c = c'"
  by (induction bs arbitrary: c c') (auto dest: crc_byte_inj)

lemma le_word_inj: "length bs = length bs' \<Longrightarrow> length bs \<le> 4 \<Longrightarrow> le_word bs = le_word bs' \<Longrightarrow> bs = bs'"
proof (induction bs bs' rule: list_induct2)
  case (Cons b bs b' bs')
  note bits = bit_le_word_Cons
  have "bit b k = bit b' k" if "k < 8" for k
    using Cons.prems(2) bits [of b bs k] bits [of b' bs' k] that by simp
  then have "b = b'" by (intro bit_word_eqI) simp
  moreover have "bit (le_word bs) k = bit (le_word bs') k" for k
  proof (cases "k < 24")
    case True
    then show ?thesis using Cons.prems(2) bits [of b bs "8 + k"] bits [of b' bs' "8 + k"] by simp
  next
    case False
    then show ?thesis using bit_le_word [of bs k] bit_le_word [of bs' k] Cons.prems(1) Cons.hyps by auto
  qed
  then have "le_word bs = le_word bs'" by (intro bit_word_eqI) simp
  ultimately show ?case using Cons.IH Cons.prems(1) by simp
qed simp

lemma crc32_burst_inj:
  assumes eq: "pj_crc32_calc addr (pre @ xs @ post) = pj_crc32_calc addr' (pre @ ys @ post)"
    and len: "length xs = length ys" "length xs \<le> 4"
  shows "xs = ys"
proof -
  have "foldl crc_byte (foldl crc_byte CRC32_NEGL pre) xs = foldl crc_byte (foldl crc_byte CRC32_NEGL pre) ys"
    using eq by (auto simp: pj_crc32_calc_def crc32_update_bytes pj_crc32_init_def pj_crc32_final_def
        dest!: xor_self_cancel crc_bytes_inj)
  then have "(crc_shift ^^ length xs) (foldl crc_byte CRC32_NEGL pre XOR le_word xs) =
      (crc_shift ^^ length xs) (foldl crc_byte CRC32_NEGL pre XOR le_word ys)"
    using len by (simp add: crc_bytes_word)
  then have "foldl crc_byte CRC32_NEGL pre XOR le_word xs = foldl crc_byte CRC32_NEGL pre XOR le_word ys"
    using inj_fn [OF crc_shift_inj] by (blast dest: injD)
  then have "le_word xs = le_word ys" by (metis xor_self_cancel xor.commute)
  then show ?thesis using le_word_inj len by blast
qed

text \<open>
  C21: Damage confined to four consecutive bytes is always noticed: texts of the same length that differ there, and
  only there, have different checksums.
\<close>

theorem crc32_detects_burst:
  assumes "length xs = length ys" "length xs \<le> 4" "xs \<noteq> ys"
  shows "pj_crc32_calc addr (pre @ xs @ post) \<noteq> pj_crc32_calc addr' (pre @ ys @ post)"
  using assms crc32_burst_inj by blast

theorem crc32_detects_burst_witness:
  "pj_crc32_calc 1 ([0x31, 0x32] @ [0x33, 0x34, 0x35] @ [0x36]) \<noteq> pj_crc32_calc 2 ([0x31, 0x32] @ [0x33, 0x34, 0x36] @ [0x36])"
  by (rule crc32_detects_burst) simp_all

end
