(* ===== verification/Hash_stream.thy ===== *)
theory Hash_stream
  imports Octets
begin

text \<open>
  What the two hash functions of \<open>pjlib-util\<close> have in common: data is absorbed in blocks of 64 bytes,
  in any portions; the number of bits is kept in two words; at the end the data is padded.  The
  specification is the locale \<open>block_hash\<close>; \<open>Sha1\<close> and \<open>Md5\<close> interpret it.
\<close>

unbundle bit_operations_syntax

section \<open>Blocks\<close>

function absorb :: "('h \<Rightarrow> bytes \<Rightarrow> 'h) \<Rightarrow> 'h \<Rightarrow> bytes \<Rightarrow> 'h \<times> bytes" where
  "absorb compress h data =
     (if length data < 64 then (h, data) else absorb compress (compress h (take 64 data)) (drop 64 data))"
  by auto
termination by (relation "measure (\<lambda>(c, h, data). length data)") auto

declare absorb.simps [simp del]

lemma absorb_short: "length data < 64 \<Longrightarrow> absorb c h data = (h, data)"
  by (simp add: absorb.simps)

lemma absorb_block: "length data = 64 \<Longrightarrow> absorb c h (data @ rest) = absorb c (c h data) rest"
  by (subst absorb.simps) simp

lemma absorb_pending: "length (snd (absorb c h data)) = length data mod 64"
proof (induction c h data rule: absorb.induct)
  case (1 c h data)
  then show ?case by (subst absorb.simps) (auto simp: le_mod_geq)
qed

lemma absorb_append: "absorb c h (as @ bs) = absorb c (fst (absorb c h as)) (snd (absorb c h as) @ bs)"
proof (induction c h as rule: absorb.induct)
  case (1 c h as)
  show ?case
  proof (cases "length as < 64")
    case True
    then show ?thesis by (simp add: absorb_short)
  next
    case False
    then have "absorb c h (as @ bs) = absorb c (c h (take 64 as)) (drop 64 as @ bs)"
      by (subst absorb.simps) simp
    moreover have "absorb c h as = absorb c (c h (take 64 as)) (drop 64 as)"
      using False by (subst absorb.simps) simp
    ultimately show ?thesis using 1 False by simp
  qed
qed

section \<open>The number of bits\<close>

text \<open>The two words after \<open>n\<close> bytes, and the addition both functions do.\<close>

definition bits_lo :: "nat \<Rightarrow> u32" where "bits_lo n = word_of_nat (8 * n)"

definition bits_hi :: "nat \<Rightarrow> u32" where "bits_hi n = word_of_nat (8 * n div 2 ^ 32)"

lemma bits_zero [simp]: "bits_lo 0 = 0" "bits_hi 0 = 0"
  by (simp_all add: bits_lo_def bits_hi_def)

lemma bits_lo_word: "push_bit 3 (word_of_nat k) = bits_lo k"
  by (simp add: bits_lo_def push_bit_eq_mult)

lemma bits_lo_add: "bits_lo n + bits_lo k = bits_lo (n + k)"
  by (simp add: bits_lo_def distrib_left)

lemma unat_bits_lo: "unat (bits_lo n) = 8 * n mod 2 ^ 32"
  by (simp add: bits_lo_def unsigned_of_nat take_bit_eq_mod del: of_nat_mult)

lemma carry_iff:
  fixes a b M :: nat
  assumes "a < M" "b < M"
  shows "((a + b) mod M < a) = (M \<le> a + b)" "((a + b) mod M < b) = (M \<le> a + b)"
    "(a + b) div M = (if M \<le> a + b then 1 else 0)"
proof -
  have "(a + b) mod M = (if M \<le> a + b then a + b - M else a + b)" using assms by (auto simp: mod_if)
  then show "((a + b) mod M < a) = (M \<le> a + b)" "((a + b) mod M < b) = (M \<le> a + b)" using assms by auto
  show "(a + b) div M = (if M \<le> a + b then 1 else 0)" using assms by (auto simp: div_if)
qed

lemma bits_carry:
  assumes "k < 2 ^ 32"
  shows "bits_hi (n + k) = bits_hi n + (if bits_lo (n + k) < bits_lo n then 1 else 0) + drop_bit 29 (word_of_nat k)"
    and "(bits_lo (n + k) < bits_lo n) = (bits_lo (n + k) < bits_lo k)"
proof -
  let ?M = "2 ^ 32 :: nat"
  have less: "8 * n mod ?M < ?M" "8 * k mod ?M < ?M" by simp_all
  have sum: "8 * (n + k) mod ?M = (8 * n mod ?M + 8 * k mod ?M) mod ?M" unfolding distrib_left by (rule mod_add_eq [symmetric])
  have c: "(bits_lo (n + k) < bits_lo n) = (?M \<le> 8 * n mod ?M + 8 * k mod ?M)"
    "(bits_lo (n + k) < bits_lo k) = (?M \<le> 8 * n mod ?M + 8 * k mod ?M)"
    unfolding word_less_nat_alt unat_bits_lo sum by (rule carry_iff [OF less])+
  have "8 * (n + k) div ?M = 8 * n div ?M + 8 * k div ?M + (8 * n mod ?M + 8 * k mod ?M) div ?M"
    unfolding distrib_left by (rule div_add1_eq)
  moreover have "8 * k div ?M = k div 2 ^ 29"
    using div_mult_mult1 [of 8 k "2 ^ 29"] by simp
  moreover have "(drop_bit 29 (word_of_nat k) :: u32) = word_of_nat (k div 2 ^ 29)"
  proof (subst word_unat_eq_iff)
    have "k mod ?M = k" using assms by simp
    then have "unat (drop_bit 29 (word_of_nat k) :: u32) = k div 2 ^ 29"
      by (simp add: drop_bit_eq_div unat_div_distrib unsigned_of_nat take_bit_eq_mod)
    moreover have "k div 2 ^ 29 < ?M" using assms by (meson div_le_dividend le_less_trans)
    ultimately show "unat (drop_bit 29 (word_of_nat k) :: u32) = unat (word_of_nat (k div 2 ^ 29) :: u32)"
      by (simp add: unsigned_of_nat take_bit_eq_mod)
  qed
  ultimately show "bits_hi (n + k) = bits_hi n + (if bits_lo (n + k) < bits_lo n then 1 else 0) + drop_bit 29 (word_of_nat k)"
    using carry_iff(3) [OF less] c(1) by (simp add: bits_hi_def del: of_nat_mult)
  show "(bits_lo (n + k) < bits_lo n) = (bits_lo (n + k) < bits_lo k)" using c by simp
qed

lemma bits_lo_pending: "unat (drop_bit 3 (bits_lo n) AND 63) = n mod 64"
proof -
  have "drop_bit 3 (bits_lo n) AND 63 = take_bit 6 (drop_bit 3 (bits_lo n))"
    by (simp add: take_bit_eq_mask mask_eq_exp_minus_1)
  then have "unat (drop_bit 3 (bits_lo n) AND 63) = 8 * n mod 2 ^ 32 div 8 mod 64"
    by (simp add: take_bit_eq_mod drop_bit_eq_div unat_div_distrib unat_mod_distrib unat_bits_lo)
  also have "8 * n mod 2 ^ 32 = 8 * (n mod 2 ^ 29)" using mult_mod_right [of 8 n "2 ^ 29"] by simp
  also have "8 * (n mod 2 ^ 29) div 8 mod 64 = n mod 64" by (simp add: mod_mod_cancel)
  finally show ?thesis .
qed

text \<open>Both functions pad to 56 bytes modulo 64, and rotate by shifts.\<close>

definition zeros_to_56 :: "nat \<Rightarrow> nat" where "zeros_to_56 n = (119 - n mod 64) mod 64"

lemma shifts_rotate:
  assumes n: "0 < n" "n < 32"
  shows "push_bit n w OR drop_bit (32 - n) w = word_rotl n (w :: u32)"
proof (rule bit_word_eqI)
  fix k assume "k < LENGTH(32)"
  then have k: "k < 32" by simp
  show "bit (push_bit n w OR drop_bit (32 - n) w) k = bit (word_rotl n w) k"
  proof (cases "n \<le> k")
    case True
    then have "\<not> bit w (32 - n + k)" using n by (auto dest: bit_imp_le_length)
    moreover have "(k + (32 - n)) mod 32 = k - n" using True k n by (simp add: mod_if)
    ultimately show ?thesis using True n k by (simp add: bit_simps bit_word_rotl_iff)
  next
    case False
    moreover have "(k + (32 - n)) mod 32 = 32 - n + k" using False k n by (auto simp: mod_if)
    ultimately show ?thesis using n k by (simp add: bit_simps bit_word_rotl_iff)
  qed
qed

section \<open>The contract of a hash function\<close>

text \<open>
  \<open>inv c n\<close>: the context \<open>c\<close> has taken \<open>n\<close> bytes; \<open>chain\<close> is its chaining value and \<open>pending\<close> what is
  not yet a whole block.
\<close>

locale block_stream =
  fixes update :: "'c \<Rightarrow> bytes \<Rightarrow> 'c" and inv :: "'c \<Rightarrow> nat \<Rightarrow> bool"
    and chain :: "'c \<Rightarrow> 'h" and pending :: "'c \<Rightarrow> bytes" and compress :: "'h \<Rightarrow> bytes \<Rightarrow> 'h"
  assumes update: "inv c n \<Longrightarrow> length data < 2 ^ 31 \<Longrightarrow> inv (update c data) (n + length data)"
    and absorbs: "inv c n \<Longrightarrow> length data < 2 ^ 31 \<Longrightarrow>
      (chain (update c data), pending (update c data)) = absorb compress (chain c) (pending c @ data)"
begin

lemma run:
  "\<forall>d \<in> set chunks. length d < 2 ^ 31 \<Longrightarrow> inv c n \<Longrightarrow>
    inv (foldl update c chunks) (n + length (concat chunks)) \<and>
    absorb compress (chain (foldl update c chunks)) (pending (foldl update c chunks) @ rest) =
      absorb compress (chain c) (pending c @ concat chunks @ rest)"
proof (induction chunks arbitrary: c n)
  case (Cons d chunks)
  have "absorb compress (chain c) ((pending c @ d) @ concat chunks @ rest) =
      absorb compress (chain (update c d)) (pending (update c d) @ concat chunks @ rest)"
    unfolding absorb_append [of _ _ "pending c @ d"] using absorbs [of c n d] Cons.prems
    by (metis fst_conv snd_conv list.set_intros(1))
  then show ?case using Cons.IH [of "update c d" "n + length d"] Cons.prems update [of c n d]
    by (simp add: add.assoc)
qed simp

text \<open>When the data ends with a block, nothing is pending and the chaining value is final.\<close>

lemma run_chain:
  assumes "\<forall>d \<in> set chunks. length d < 2 ^ 31" "inv c n" "chunks \<noteq> []"
  shows "(chain (foldl update c chunks), pending (foldl update c chunks)) = absorb compress (chain c) (pending c @ concat chunks)"
proof -
  obtain ds d where ds: "chunks = ds @ [d]" using assms(3) by (metis rev_exhaust)
  have "inv (foldl update c ds) (n + length (concat ds))" and
      "absorb compress (chain (foldl update c ds)) (pending (foldl update c ds) @ d) = absorb compress (chain c) (pending c @ concat ds @ d)"
    using run [of ds c n d] assms(1,2) ds by simp_all
  moreover have "length d < 2 ^ 31" using assms(1) ds by simp
  ultimately show ?thesis using absorbs [of "foldl update c ds" _ d] ds by simp
qed

end

text \<open>
  A hash function is a stream with a start and an end: \<open>digest\<close> is the specification of the whole, on the padded message.
\<close>

definition digest :: "('h \<Rightarrow> bytes \<Rightarrow> 'h) \<Rightarrow> 'h \<Rightarrow> (nat \<Rightarrow> bytes) \<Rightarrow> ('h \<Rightarrow> bytes) \<Rightarrow> bytes \<Rightarrow> bytes" where
  "digest compress h0 pad out m = out (fst (absorb compress h0 (m @ pad (length m))))"

locale block_hash = block_stream update inv chain pending compress
  for update :: "'c \<Rightarrow> bytes \<Rightarrow> 'c" and inv :: "'c \<Rightarrow> nat \<Rightarrow> bool"
    and chain :: "'c \<Rightarrow> 'h" and pending :: "'c \<Rightarrow> bytes" and compress :: "'h \<Rightarrow> bytes \<Rightarrow> 'h" +
  fixes is_start :: "'c \<Rightarrow> bool" and finish :: "'c \<Rightarrow> bytes" and h0 :: 'h and pad :: "nat \<Rightarrow> bytes" and out :: "'h \<Rightarrow> bytes"
  assumes start: "is_start c \<Longrightarrow> inv c 0 \<and> chain c = h0 \<and> pending c = []"
    and finish: "inv c n \<Longrightarrow> finish c = out (fst (absorb compress (chain c) (pending c @ pad n)))"
begin

text \<open>In whatever portions the data comes, the result is the digest of the whole.\<close>

lemma stream:
  assumes "is_start c" "\<forall>d \<in> set chunks. length d < 2 ^ 31"
  shows "finish (foldl update c chunks) = digest compress h0 pad out (concat chunks)"
proof -
  have s: "inv c 0" "chain c = h0" "pending c = []" using start [OF assms(1)] by simp_all
  have "inv (foldl update c chunks) (length (concat chunks))"
    using run [OF assms(2) s(1)] by simp
  from finish [OF this] show ?thesis
    using run [OF assms(2) s(1), of "pad (length (concat chunks))"] s(2,3) by (simp add: digest_def)
qed

end

end
