(* ===== verification/Sha1.thy ===== *)
theory Sha1
  imports Hash_stream
begin

text \<open>
  SHA-1 (\<open>pjlib-util/src/pjlib-util/sha1.c\<close>) and HMAC-SHA1 (\<open>hmac_sha1.c\<close>).  The transformation works in
  place on a block of memory, which it reads and writes as words of a little-endian machine;
  \<open>size_t\<close> has 32 bits.
\<close>

unbundle bit_operations_syntax

section \<open>The code\<close>

definition rol :: "u32 \<Rightarrow> nat \<Rightarrow> u32" where
  "rol val n = push_bit n val OR drop_bit (32 - n) val"

definition blk0 :: "u32 list \<Rightarrow> nat \<Rightarrow> u32 list" where
  "blk0 l i = l[i := (rol (l ! i) 24 AND 0xFF00FF00) OR (rol (l ! i) 8 AND 0x00FF00FF)]"

definition blk :: "u32 list \<Rightarrow> nat \<Rightarrow> u32 list" where
  "blk l i = l[i mod 16 := rol (l ! ((i + 13) mod 16) XOR l ! ((i + 8) mod 16) XOR l ! ((i + 2) mod 16) XOR l ! (i mod 16)) 1]"

text \<open>
  A round is one use of the macros \<open>R0\<close> to \<open>R4\<close>.  The code permutes their arguments from use to use; here
  the five values are passed in the order in which the next use names them.
\<close>

definition sha1_mix :: "nat \<Rightarrow> u32 \<Rightarrow> u32 \<Rightarrow> u32 \<Rightarrow> u32" where
  "sha1_mix i w x y =
     (if i < 20 then (w AND (x XOR y)) XOR y
      else if i < 40 then w XOR x XOR y
      else if i < 60 then ((w OR x) AND y) OR (w AND x)
      else w XOR x XOR y)"

definition sha1_const :: "nat \<Rightarrow> u32" where
  "sha1_const i = (if i < 20 then 0x5A827999 else if i < 40 then 0x6ED9EBA1 else if i < 60 then 0x8F1BBCDC else 0xCA62C1D6)"

type_synonym sha1_regs = "u32 \<times> u32 \<times> u32 \<times> u32 \<times> u32"

definition sha1_round :: "nat \<Rightarrow> u32 list \<times> sha1_regs \<Rightarrow> u32 list \<times> sha1_regs" where
  "sha1_round i s = (case s of (l, v, w, x, y, z) \<Rightarrow>
     let l = (if i < 16 then blk0 l i else blk l i);
         z = z + (sha1_mix i w x y + l ! (i mod 16) + sha1_const i + rol v 5);
         w = rol w 30
     in (l, z, v, w, x, y))"

definition SHA1_Transform :: "u32 list \<Rightarrow> bytes \<Rightarrow> u32 list \<times> bytes" where
  "SHA1_Transform state buffer =
     (case fold sha1_round [0..<80] (le_words buffer, state ! 0, state ! 1, state ! 2, state ! 3, state ! 4) of
        (l, a, b, c, d, e) \<Rightarrow>
          ([state ! 0 + a, state ! 1 + b, state ! 2 + c, state ! 3 + d, state ! 4 + e], concat (map le_bytes l)))"

record sha1_context =
  sha_state :: "u32 list"
  sha_count0 :: u32
  sha_count1 :: u32
  sha_buffer :: bytes

definition pj_sha1_init :: "sha1_context \<Rightarrow> sha1_context" where
  "pj_sha1_init ctx = ctx\<lparr>sha_state := [0x67452301, 0xEFCDAB89, 0x98BADCFE, 0x10325476, 0xC3D2E1F0],
     sha_count0 := 0, sha_count1 := 0\<rparr>"

text \<open>The loop over whole blocks of the data works on copies.\<close>

function sha1_blocks :: "u32 list \<Rightarrow> bytes \<Rightarrow> u32 list \<times> bytes" where
  "sha1_blocks state data =
     (if length data > 63 then sha1_blocks (fst (SHA1_Transform state (take 64 data))) (drop 64 data)
      else (state, data))"
  by auto
termination by (relation "measure (\<lambda>(state, data). length data)") auto

declare sha1_blocks.simps [simp del]

definition pj_sha1_update :: "sha1_context \<Rightarrow> bytes \<Rightarrow> sha1_context" where
  "pj_sha1_update ctx data =
     (let len = word_of_nat (length data);
          j = unat (drop_bit 3 (sha_count0 ctx) AND 63);
          count0 = sha_count0 ctx + push_bit 3 len;
          count1 = (if count0 < push_bit 3 len then sha_count1 ctx + 1 else sha_count1 ctx);
          count1 = count1 + drop_bit 29 len;
          ctx = ctx\<lparr>sha_count0 := count0, sha_count1 := count1\<rparr>
      in if word_of_nat j + len > 63 then
           (let buffer = mem_write (sha_buffer ctx) j (take (64 - j) data)
            in case SHA1_Transform (sha_state ctx) buffer of (state, buffer) \<Rightarrow>
               case sha1_blocks state (drop (64 - j) data) of (state, rest) \<Rightarrow>
                 ctx\<lparr>sha_state := state, sha_buffer := mem_write buffer 0 rest\<rparr>)
         else ctx\<lparr>sha_buffer := mem_write (sha_buffer ctx) j data\<rparr>)"

text \<open>The loop that pads with zero bytes; the bits missing to 448 modulo 512 get fewer.\<close>

lemma update_count0: "sha_count0 (pj_sha1_update ctx data) = sha_count0 ctx + push_bit 3 (word_of_nat (length data))"
  by (simp add: pj_sha1_update_def Let_def split: prod.split)

definition count_bytes :: "u32 \<Rightarrow> nat" where "count_bytes c = unat c div 8 mod 64"

lemma count_bytes_and: "unat (drop_bit 3 c AND 63) = count_bytes c" "(c AND 504 = 448) = (count_bytes c = 56)"
proof -
  have m: "drop_bit 3 c AND 63 = take_bit 6 (drop_bit 3 c)" by (simp add: take_bit_eq_mask mask_eq_exp_minus_1)
  then show u: "unat (drop_bit 3 c AND 63) = count_bytes c"
    by (simp add: count_bytes_def take_bit_eq_mod drop_bit_eq_div unat_div_distrib unat_mod_distrib)
  have "push_bit 3 (mask 6) = (504 :: u32)" by (simp add: mask_eq_exp_minus_1)
  moreover have "c AND push_bit 3 (mask 6) = push_bit 3 (take_bit 6 (drop_bit 3 c))"
    by (rule bit_word_eqI) (auto simp: bit_simps)
  ultimately have c: "c AND 504 = push_bit 3 (take_bit 6 (drop_bit 3 c))" by (simp only:)
  have push_56: "(448 :: u32) = push_bit 3 56" and drop_56: "drop_bit 3 (push_bit 3 56 :: u32) = 56" by simp_all
  have "drop_bit 3 (push_bit 3 (take_bit 6 (drop_bit 3 c))) = take_bit 6 (drop_bit 3 c)"
    by (rule bit_word_eqI) (auto simp: bit_simps)
  then have "(c AND 504 = 448) = (take_bit 6 (drop_bit 3 c) = 56)"
    unfolding c using push_56 drop_56 by metis
  also have "\<dots> = (count_bytes c = 56)"
    unfolding u [symmetric] m by (simp add: word_unat_eq_iff)
  finally show "(c AND 504 = 448) = (count_bytes c = 56)" .
qed

lemma div_8_mod: "x mod 2 ^ 32 div 8 mod 64 = x div 8 mod (64 :: nat)"
proof -
  have "x mod 2 ^ 32 div 8 = x div 8 mod 2 ^ 29"
    using mod_mult2_eq [of x 8 "2 ^ 29"] by simp
  then show ?thesis by (simp add: mod_mod_cancel)
qed

lemma count_bytes_add: "count_bytes (c + push_bit 3 (word_of_nat k)) = (count_bytes c + k) mod 64"
proof -
  have "push_bit 3 (word_of_nat k :: u32) = word_of_nat (8 * k)" by (simp add: push_bit_eq_mult)
  then have "c + push_bit 3 (word_of_nat k) = word_of_nat (unat c + 8 * k)" by simp
  then have "count_bytes (c + push_bit 3 (word_of_nat k)) = (unat c + 8 * k) mod 2 ^ 32 div 8 mod 64"
    by (simp only: count_bytes_def unsigned_of_nat) (simp add: take_bit_eq_mod)
  also have "\<dots> = (unat c div 8 + k) mod 64" unfolding div_8_mod by (simp add: add.commute)
  finally show ?thesis by (simp add: count_bytes_def mod_add_left_eq)
qed

lemma count_bytes_less [simp]: "count_bytes c < 64" by (simp add: count_bytes_def)

lemma pad_decreases:
  assumes "count_bytes c \<noteq> 56"
  shows "(120 - (count_bytes c + 1) mod 64) mod 64 < (120 - count_bytes c) mod 64"
proof -
  define q where "q = count_bytes c"
  have "q < 64" "q \<noteq> 56" using assms by (simp_all add: q_def)
  then have "(120 - (q + 1) mod 64) mod 64 < (120 - q) mod 64"
    by (cases "q = 63") (auto simp: mod_if)
  then show ?thesis by (simp add: q_def)
qed

function sha1_pad_loop :: "sha1_context \<Rightarrow> sha1_context" where
  "sha1_pad_loop ctx =
     (if sha_count0 ctx AND 504 \<noteq> 448 then sha1_pad_loop (pj_sha1_update ctx [0]) else ctx)"
  by auto
termination
  by (relation "measure (\<lambda>ctx. (120 - count_bytes (sha_count0 ctx)) mod 64)")
    (use pad_decreases in \<open>auto simp: update_count0 count_bytes_and count_bytes_add [of _ 1, simplified]\<close>)

declare sha1_pad_loop.simps [simp del]

definition finalcount :: "sha1_context \<Rightarrow> bytes" where
  "finalcount ctx = map (\<lambda>i. ucast (drop_bit ((3 - i mod 4) * 8)
     (if i \<ge> 4 then sha_count0 ctx else sha_count1 ctx) AND 255)) [0..<8]"

definition PJ_SHA1_DIGEST_SIZE :: nat where "PJ_SHA1_DIGEST_SIZE = 20"

text \<open>The digest, and the context after it has been wiped.\<close>

definition pj_sha1_final :: "sha1_context \<Rightarrow> bytes \<times> sha1_context" where
  "pj_sha1_final ctx =
     (let cnt = finalcount ctx;
          ctx = pj_sha1_update ctx [0x80];
          ctx = sha1_pad_loop ctx;
          ctx = pj_sha1_update ctx cnt
      in (map (\<lambda>i. ucast (drop_bit ((3 - i mod 4) * 8) (sha_state ctx ! (i div 4)) AND 255)) [0..<PJ_SHA1_DIGEST_SIZE],
          ctx\<lparr>sha_buffer := replicate 64 0, sha_state := replicate 5 0, sha_count0 := 0, sha_count1 := 0\<rparr>))"

section \<open>The standard\<close>

definition sha1_ch :: "u32 \<Rightarrow> u32 \<Rightarrow> u32 \<Rightarrow> u32" where "sha1_ch x y z = (x AND y) XOR (NOT x AND z)"

definition sha1_maj :: "u32 \<Rightarrow> u32 \<Rightarrow> u32 \<Rightarrow> u32" where "sha1_maj x y z = (x AND y) XOR (x AND z) XOR (y AND z)"

definition sha1_func :: "nat \<Rightarrow> u32 \<Rightarrow> u32 \<Rightarrow> u32 \<Rightarrow> u32" where
  "sha1_func t x y z = (if t div 20 = 0 then sha1_ch x y z else if t div 20 = 2 then sha1_maj x y z else x XOR y XOR z)"

text \<open>The message schedule: sixteen words of the block, extended to eighty.\<close>

definition sha1_extend :: "nat \<Rightarrow> u32 list \<Rightarrow> u32 list" where
  "sha1_extend t W = W @ [word_rotl 1 (W ! (t - 3) XOR W ! (t - 8) XOR W ! (t - 14) XOR W ! (t - 16))]"

definition sha1_schedule :: "bytes \<Rightarrow> u32 list" where
  "sha1_schedule block = fold sha1_extend [16..<80] (map (\<lambda>i. be_word (mem_read block (4 * i) 4)) [0..<16])"

text \<open>
  The constants of the standard, one for twenty steps each: the integer parts of \<open>2 ^ 30\<close> times the
  square roots of 2, 3, 5 and 10 (\<open>sha1_k_roots\<close>).
\<close>

definition sha1_k :: "nat \<Rightarrow> u32" where
  "sha1_k t = [1518500249, 1859775393, 2400959708, 3395469782] ! (t div 20)"

lemma sha1_k_roots:
  assumes "t < 80"
  shows "(unat (sha1_k t))\<^sup>2 \<le> [2, 3, 5, 10] ! (t div 20) * 2 ^ 60 \<and>
    [2, 3, 5, 10] ! (t div 20) * 2 ^ 60 < (unat (sha1_k t) + 1)\<^sup>2"
proof -
  define q where "q = t div 20"
  have "q < 4" using assms by (simp add: q_def div_less_iff_less_mult)
  then consider "q = 0" | "q = 1" | "q = 2" | "q = 3" by linarith
  then show ?thesis unfolding sha1_k_def q_def [symmetric]
    by cases (simp_all add: power2_eq_square)
qed

definition sha1_step :: "u32 list \<Rightarrow> nat \<Rightarrow> sha1_regs \<Rightarrow> sha1_regs" where
  "sha1_step W t s = (case s of (a, b, c, d, e) \<Rightarrow>
     (word_rotl 5 a + sha1_func t b c d + e + sha1_k t + W ! t, a, word_rotl 30 b, c, d))"

definition sha1_compress :: "sha1_regs \<Rightarrow> bytes \<Rightarrow> sha1_regs" where
  "sha1_compress h block = (case h of (h0, h1, h2, h3, h4) \<Rightarrow>
     case fold (sha1_step (sha1_schedule block)) [0..<80] h of (a, b, c, d, e) \<Rightarrow>
       (h0 + a, h1 + b, h2 + c, h3 + d, h4 + e))"

definition sha1_h0 :: sha1_regs where "sha1_h0 = (0x67452301, 0xEFCDAB89, 0x98BADCFE, 0x10325476, 0xC3D2E1F0)"

text \<open>A one bit, zeros up to 56 bytes modulo 64, and the number of bits in eight bytes.\<close>

definition sha1_padding :: "nat \<Rightarrow> bytes" where
  "sha1_padding n = 0x80 # replicate (zeros_to_56 n) 0 @ be_bytes (bits_hi n) @ be_bytes (bits_lo n)"

definition sha1_output :: "sha1_regs \<Rightarrow> bytes" where
  "sha1_output h = (case h of (h0, h1, h2, h3, h4) \<Rightarrow> concat (map be_bytes [h0, h1, h2, h3, h4]))"

definition sha1 :: "bytes \<Rightarrow> bytes" where
  "sha1 = digest sha1_compress sha1_h0 sha1_padding sha1_output"

section \<open>The transformation in place computes the standard one\<close>

lemma rol_rotl: "0 < n \<Longrightarrow> n < 32 \<Longrightarrow> rol w n = word_rotl n w"
  by (simp add: rol_def shifts_rotate)

lemma blk0_swaps:
  "(rol (le_word [a, b, c, d]) 24 AND 0xFF00FF00) OR (rol (le_word [a, b, c, d]) 8 AND 0x00FF00FF) = be_word [a, b, c, d]"
proof -
  have m: "(0xFF00FF00 :: u32) = push_bit 8 (mask 8) OR push_bit 24 (mask 8)"
    "(0x00FF00FF :: u32) = mask 8 OR push_bit 16 (mask 8)" by (simp_all add: mask_eq_exp_minus_1)
  show ?thesis
    unfolding m be_word_def rev.simps append.simps
    by (rule bit_word_eqI) (auto simp: rol_def bit_simps bit_le_word_4 simp del: le_word.simps dest: bit_imp_le_length)
qed

lemma mix_func: "sha1_mix t x y z = sha1_func t x y z" if "t < 80"
proof -
  have "t div 20 = 0 \<longleftrightarrow> t < 20" "t div 20 = 2 \<longleftrightarrow> 40 \<le> t \<and> t < 60" by (auto simp: div_eq_0_iff less_eq_div_iff_mult_less_eq div_less_iff_less_mult
        order.eq_iff [of "t div 20" 2] less_Suc_eq_le [of _ 2, symmetric])
  moreover have "(x AND (y XOR z)) XOR z = sha1_ch x y z"
    by (rule bit_word_eqI) (auto simp: sha1_ch_def bit_simps)
  moreover have "((x OR y) AND z) OR (x AND y) = sha1_maj x y z"
    by (rule bit_word_eqI) (auto simp: sha1_maj_def bit_simps)
  ultimately show ?thesis by (auto simp: sha1_mix_def sha1_func_def)
qed

lemma const_k: "sha1_const t = sha1_k t" if "t < 80"
proof -
  have "t div 20 = (if t < 20 then 0 else if t < 40 then 1 else if t < 60 then 2 else 3)"
    by (intro div_nat_eqI) (use that in auto)
  then show ?thesis by (simp add: sha1_const_def sha1_k_def)
qed

text \<open>The schedule.\<close>

lemma extend_Suc: "fold sha1_extend [16..<16 + Suc n] W = sha1_extend (16 + n) (fold sha1_extend [16..<16 + n] W)"
  by (simp only: add_Suc_right upt_Suc_append le_add1 fold_append o_apply fold.simps id_apply)

lemma length_sha1_extend [simp]: "length (sha1_extend t W) = Suc (length W)"
  by (simp add: sha1_extend_def)

lemma length_extend: "length (fold sha1_extend [16..<16 + n] W) = length W + n"
proof (induction n)
  case (Suc n)
  then show ?case unfolding extend_Suc length_sha1_extend by simp
qed simp

lemma nth_extend_old: "j < length W + n \<Longrightarrow> n \<le> m \<Longrightarrow>
    fold sha1_extend [16..<16 + m] W ! j = fold sha1_extend [16..<16 + n] W ! j"
proof (induction m)
  case (Suc m)
  show ?case
  proof (cases "n = Suc m")
    case False
    then have "n \<le> m" using Suc.prems(2) by simp
    then have "sha1_extend (16 + m) (fold sha1_extend [16..<16 + m] W) ! j = fold sha1_extend [16..<16 + m] W ! j"
      using Suc.prems(1) length_extend [of m W] by (simp add: sha1_extend_def nth_append)
    then show ?thesis using Suc.IH [OF Suc.prems(1) \<open>n \<le> m\<close>] by (simp only: extend_Suc)
  qed simp
qed simp

lemma sha1_schedule_words:
  assumes "length block = 64"
  shows "length (sha1_schedule block) = 80"
    "t < 16 \<Longrightarrow> sha1_schedule block ! t = be_word (mem_read block (4 * t) 4)"
    "16 \<le> t \<Longrightarrow> t < 80 \<Longrightarrow> sha1_schedule block ! t =
      word_rotl 1 (sha1_schedule block ! (t - 3) XOR sha1_schedule block ! (t - 8) XOR
        sha1_schedule block ! (t - 14) XOR sha1_schedule block ! (t - 16))"
proof -
  define W where "W = map (\<lambda>i. be_word (mem_read block (4 * i) 4)) [0..<16]"
  have W: "length W = 16" "sha1_schedule block = fold sha1_extend [16..<16 + 64] W" by (simp_all add: W_def sha1_schedule_def)
  show "length (sha1_schedule block) = 80" unfolding W(2) length_extend W(1) by simp
  show "sha1_schedule block ! t = be_word (mem_read block (4 * t) 4)" if "t < 16"
    using nth_extend_old [of t W 0 64] that unfolding W(2) by (simp add: W_def)
  show "sha1_schedule block ! t = word_rotl 1 (sha1_schedule block ! (t - 3) XOR sha1_schedule block ! (t - 8) XOR
        sha1_schedule block ! (t - 14) XOR sha1_schedule block ! (t - 16))" if t: "16 \<le> t" "t < 80"
  proof -
    let ?V = "fold sha1_extend [16..<t] W"
    have V: "length ?V = t" using length_extend [of "t - 16" W] W(1) t by simp
    have old: "sha1_schedule block ! j = ?V ! j" if "j < t" for j
      using nth_extend_old [of j W "t - 16" 64] that t W(1) unfolding W(2) by simp
    have "fold sha1_extend [16..<Suc t] W = sha1_extend t ?V" using t by simp
    then have "sha1_schedule block ! t = sha1_extend t ?V ! t"
      using nth_extend_old [of t W "Suc t - 16" 64] t W(1) unfolding W(2) by simp
    then show ?thesis using old t V by (simp add: sha1_extend_def nth_append)
  qed
qed

text \<open>The block is rewritten in place: it holds the last sixteen words of the schedule, and what has not been read yet.\<close>

definition holds_words :: "u32 list \<Rightarrow> u32 list \<Rightarrow> nat \<Rightarrow> u32 list \<Rightarrow> bool" where
  "holds_words raw W i l = (length l = 16 \<and> (\<forall>t < i. i \<le> t + 16 \<longrightarrow> l ! (t mod 16) = W ! t) \<and>
     (\<forall>t < 16. i \<le> t \<longrightarrow> l ! t = raw ! t))"

lemma le_words_nth: "length block = 64 \<Longrightarrow> i < 16 \<Longrightarrow> le_words block ! i = le_word (mem_read block (4 * i) 4)"
  by (simp add: le_words_def)

lemma block_swap:
  assumes "length block = 64" "i < 16"
  shows "(rol (le_words block ! i) 24 AND 0xFF00FF00) OR (rol (le_words block ! i) 8 AND 0x00FF00FF) = be_word (mem_read block (4 * i) 4)"
proof -
  have "length (mem_read block (4 * i) 4) = 4" using assms by simp
  then obtain a b c d where "mem_read block (4 * i) 4 = [a, b, c, d]" using list_of_four by blast
  then show ?thesis using blk0_swaps [of a b c d] by (simp only: le_words_nth [OF assms])
qed

lemma holds_blk0:
  assumes "length block = 64" "i < 16" "holds_words (le_words block) (sha1_schedule block) i l"
  shows "holds_words (le_words block) (sha1_schedule block) (Suc i) (blk0 l i)" "blk0 l i ! i = sha1_schedule block ! i"
proof -
  have "l ! i = le_words block ! i" "length l = 16" using assms(2,3) by (simp_all add: holds_words_def)
  then show new: "blk0 l i ! i = sha1_schedule block ! i"
    using assms(2) block_swap [OF assms(1,2)] sha1_schedule_words(2) [OF assms(1,2)] by (simp add: blk0_def)
  then show "holds_words (le_words block) (sha1_schedule block) (Suc i) (blk0 l i)"
    using assms(2,3) by (auto simp: holds_words_def blk0_def less_Suc_eq)
qed

lemma ring16: "k \<le> i \<Longrightarrow> k \<le> 16 \<Longrightarrow> (i + (16 - k)) mod 16 = (i - k) mod (16 :: nat)"
  using mod_add_self2 [of "i - k" 16] by simp

lemma holds_blk:
  assumes "length block = 64" "16 \<le> i" "i < 80" "holds_words (le_words block) (sha1_schedule block) i l"
  shows "holds_words (le_words block) (sha1_schedule block) (Suc i) (blk l i)" "blk l i ! (i mod 16) = sha1_schedule block ! i"
proof -
  let ?W = "sha1_schedule block"
  have h: "length l = 16" "\<And>t. t < i \<Longrightarrow> i \<le> t + 16 \<Longrightarrow> l ! (t mod 16) = ?W ! t" using assms(4) by (simp_all add: holds_words_def)
  have idx: "(i + 13) mod 16 = (i - 3) mod 16" "(i + 8) mod 16 = (i - 8) mod 16" "(i + 2) mod 16 = (i - 14) mod 16"
      "i mod 16 = (i - 16) mod 16"
    using assms(2) ring16 [of 3 i] ring16 [of 8 i] ring16 [of 14 i] ring16 [of 16 i] by simp_all
  have old: "l ! ((i - k) mod 16) = ?W ! (i - k)" if "0 < k" "k \<le> 16" for k
    by (rule h(2)) (use assms(2) that in simp_all)
  have o: "l ! ((i + 13) mod 16) = ?W ! (i - 3)" "l ! ((i + 8) mod 16) = ?W ! (i - 8)"
      "l ! ((i + 2) mod 16) = ?W ! (i - 14)" "l ! (i mod 16) = ?W ! (i - 16)"
    unfolding idx(1-3) using old [of 3] old [of 8] old [of 14] old [of 16] idx(4) by simp_all
  have "blk l i ! (i mod 16) = rol (l ! ((i + 13) mod 16) XOR l ! ((i + 8) mod 16) XOR l ! ((i + 2) mod 16) XOR l ! (i mod 16)) 1"
    by (simp add: blk_def h(1))
  also have "\<dots> = rol (?W ! (i - 3) XOR ?W ! (i - 8) XOR ?W ! (i - 14) XOR ?W ! (i - 16)) 1"
    by (simp only: o)
  also have "\<dots> = ?W ! i" using sha1_schedule_words(3) [OF assms(1-3)] by (simp add: rol_rotl)
  finally show new: "blk l i ! (i mod 16) = ?W ! i" .
  have other: "blk l i ! (t mod 16) = ?W ! t" if "t < i" "Suc i \<le> t + 16" for t
  proof -
    have "t mod 16 \<noteq> i mod 16"
    proof
      assume "t mod 16 = i mod 16"
      then have "16 dvd i - t" using that by (metis mod_eq_dvd_iff_nat less_imp_le)
      then have "16 \<le> i - t" using that by (simp add: dvd_imp_le)
      then show False using that by simp
    qed
    then show ?thesis using h(2) [of t] that by (simp add: blk_def)
  qed
  show "holds_words (le_words block) ?W (Suc i) (blk l i)"
    using new other h(1) assms(2) by (auto simp: holds_words_def less_Suc_eq blk_def)
qed

lemma round_step:
  assumes "length block = 64" "i < 80" "holds_words (le_words block) (sha1_schedule block) i l"
  shows "\<exists>l'. sha1_round i (l, r) = (l', sha1_step (sha1_schedule block) i r) \<and>
    holds_words (le_words block) (sha1_schedule block) (Suc i) l'"
proof -
  define l' where "l' = (if i < 16 then blk0 l i else blk l i)"
  have l': "holds_words (le_words block) (sha1_schedule block) (Suc i) l'" "l' ! (i mod 16) = sha1_schedule block ! i"
    using holds_blk0 [OF assms(1) _ assms(3)] holds_blk [OF assms(1) _ assms(2,3)] by (auto simp: l'_def)
  obtain a b c d e where r: "r = (a, b, c, d, e)" by (metis surj_pair)
  have "sha1_round i (l, r) = (l', sha1_step (sha1_schedule block) i r)"
    unfolding sha1_round_def r l'_def [symmetric]
    using l'(2) mix_func [OF assms(2)] const_k [OF assms(2)] by (simp add: sha1_step_def rol_rotl ac_simps l'_def [symmetric])
  then show ?thesis using l'(1) by blast
qed

lemma rounds:
  assumes "length block = 64" "n \<le> 80"
  shows "\<exists>l. fold sha1_round [0..<n] (le_words block, r) = (l, fold (sha1_step (sha1_schedule block)) [0..<n] r) \<and>
    holds_words (le_words block) (sha1_schedule block) n l"
  using assms(2)
proof (induction n)
  case 0
  then show ?case using assms(1) by (simp add: holds_words_def)
next
  case (Suc n)
  then obtain l where l: "fold sha1_round [0..<n] (le_words block, r) = (l, fold (sha1_step (sha1_schedule block)) [0..<n] r)"
      "holds_words (le_words block) (sha1_schedule block) n l" by auto
  then show ?case using round_step [OF assms(1) _ l(2)] Suc.prems by fastforce
qed

definition sha1_regs_of :: "u32 list \<Rightarrow> sha1_regs" where
  "sha1_regs_of s = (s ! 0, s ! 1, s ! 2, s ! 3, s ! 4)"

lemma transform_correct:
  assumes "length buffer = 64"
  shows "sha1_regs_of (fst (SHA1_Transform state buffer)) = sha1_compress (sha1_regs_of state) buffer"
    "length (fst (SHA1_Transform state buffer)) = 5" "length (snd (SHA1_Transform state buffer)) = 64"
proof -
  obtain l where l: "fold sha1_round [0..<80] (le_words buffer, sha1_regs_of state) =
        (l, fold (sha1_step (sha1_schedule buffer)) [0..<80] (sha1_regs_of state))" "length l = 16"
    using rounds [OF assms order_refl, of "sha1_regs_of state"] unfolding holds_words_def by blast
  obtain a b c d e where "fold (sha1_step (sha1_schedule buffer)) [0..<80] (sha1_regs_of state) = (a, b, c, d, e)"
    by (rule prod_cases5)
  note r = this l(1) [unfolded this] l(2)
  have "length (concat (map le_bytes l)) = 4 * length l" by (induction l) simp_all
  then show "sha1_regs_of (fst (SHA1_Transform state buffer)) = sha1_compress (sha1_regs_of state) buffer"
    "length (fst (SHA1_Transform state buffer)) = 5" "length (snd (SHA1_Transform state buffer)) = 64"
    using r by (simp_all add: SHA1_Transform_def sha1_compress_def sha1_regs_of_def del: upt_rec_numeral)
qed

section \<open>The stream\<close>

definition sha1_inv :: "sha1_context \<Rightarrow> nat \<Rightarrow> bool" where
  "sha1_inv ctx n = (length (sha_state ctx) = 5 \<and> length (sha_buffer ctx) = 64 \<and>
     sha_count0 ctx = bits_lo n \<and> sha_count1 ctx = bits_hi n)"

definition sha1_chain :: "sha1_context \<Rightarrow> sha1_regs" where "sha1_chain ctx = sha1_regs_of (sha_state ctx)"

definition sha1_pending :: "sha1_context \<Rightarrow> bytes" where
  "sha1_pending ctx = take (count_bytes (sha_count0 ctx)) (sha_buffer ctx)"

lemma count_bytes_bits: "count_bytes (bits_lo n) = n mod 64"
  using bits_lo_pending [of n] by (simp add: count_bytes_and)

lemma sha1_blocks_absorb:
  "absorb sha1_compress (sha1_regs_of state) data = (sha1_regs_of (fst (sha1_blocks state data)), snd (sha1_blocks state data))"
  "length state = 5 \<Longrightarrow> length (fst (sha1_blocks state data)) = 5"
proof (induction state data rule: sha1_blocks.induct)
  case (1 state data)
  { case 1
    show ?case using "1.IH"(1) transform_correct(1,2) [of "take 64 data" state]
      by (subst absorb.simps, subst (1 2) sha1_blocks.simps) auto
  next
    case 2
    then show ?case using "1.IH"(2) transform_correct(1,2) [of "take 64 data" state]
      by (subst sha1_blocks.simps) auto
  }
qed

lemma update_counts:
  assumes "sha1_inv ctx n" "length data < 2 ^ 32"
  shows "sha_count0 (pj_sha1_update ctx data) = bits_lo (n + length data)"
    "sha_count1 (pj_sha1_update ctx data) = bits_hi (n + length data)"
  using assms bits_carry [OF assms(2), of n]
  by (simp_all add: pj_sha1_update_def Let_def sha1_inv_def bits_lo_word bits_lo_add add.assoc split: prod.split)

lemma block_full:
  assumes "q < 64" "k < 2 ^ 31"
  shows "(63 < word_of_nat q + (word_of_nat k :: u32)) = (63 < q + k)"
proof -
  have "unat (word_of_nat (q + k) :: u32) = q + k" using assms by (simp only: unsigned_of_nat) (simp add: take_bit_eq_mod)
  then show ?thesis by (simp add: word_less_nat_alt)
qed

lemma update_small:
  assumes "sha1_inv ctx n" "n mod 64 + length data < 64"
  shows "sha_state (pj_sha1_update ctx data) = sha_state ctx"
    "sha_buffer (pj_sha1_update ctx data) = mem_write (sha_buffer ctx) (n mod 64) data"
  using assms block_full [of "n mod 64" "length data"]
  by (simp_all add: pj_sha1_update_def Let_def sha1_inv_def count_bytes_and count_bytes_bits)

lemma update_large:
  assumes "sha1_inv ctx n" "64 \<le> n mod 64 + length data" "length data < 2 ^ 31"
  shows "\<exists>buf. length buf = 64 \<and>
    sha_state (pj_sha1_update ctx data) = fst (sha1_blocks (fst (SHA1_Transform (sha_state ctx)
      (sha1_pending ctx @ take (64 - n mod 64) data))) (drop (64 - n mod 64) data)) \<and>
    sha_buffer (pj_sha1_update ctx data) = mem_write buf 0 (snd (sha1_blocks (fst (SHA1_Transform (sha_state ctx)
      (sha1_pending ctx @ take (64 - n mod 64) data))) (drop (64 - n mod 64) data)))"
proof -
  have "mem_write (sha_buffer ctx) (n mod 64) (take (64 - n mod 64) data) = sha1_pending ctx @ take (64 - n mod 64) data"
    using assms by (simp add: mem_write_def sha1_pending_def sha1_inv_def count_bytes_bits)
  moreover have "length (sha1_pending ctx @ take (64 - n mod 64) data) = 64"
    using assms by (simp add: sha1_pending_def sha1_inv_def count_bytes_bits)
  ultimately show ?thesis
    using assms block_full [of "n mod 64" "length data"]
      transform_correct(3) [of "sha1_pending ctx @ take (64 - n mod 64) data" "sha_state ctx"]
    by (auto simp: pj_sha1_update_def Let_def sha1_inv_def count_bytes_and count_bytes_bits split: prod.split)
qed

interpretation sha1_stream: block_stream pj_sha1_update sha1_inv sha1_chain sha1_pending sha1_compress
proof
  fix ctx n and data :: bytes
  assume inv: "sha1_inv ctx n" and data: "length data < 2 ^ 31"
  have pend: "length (sha1_pending ctx) = n mod 64"
    using inv by (simp add: sha1_pending_def sha1_inv_def count_bytes_bits)
  have "length data < 2 ^ 32" using data by simp
  note counts = update_counts [OF inv this]
  have "sha1_inv (pj_sha1_update ctx data) (n + length data) \<and>
      (sha1_chain (pj_sha1_update ctx data), sha1_pending (pj_sha1_update ctx data)) =
        absorb sha1_compress (sha1_chain ctx) (sha1_pending ctx @ data)"
  proof (cases "n mod 64 + length data < 64")
    case True
    then have "(n + length data) mod 64 = n mod 64 + length data" by (metis mod_add_left_eq mod_less)
    then show ?thesis
      using True inv counts update_small [OF inv True] pend
      by (simp add: sha1_inv_def sha1_chain_def sha1_pending_def count_bytes_bits absorb_short mem_write_def)
  next
    case False
    let ?first = "sha1_pending ctx @ take (64 - n mod 64) data" and ?rest = "drop (64 - n mod 64) data"
    let ?s = "fst (SHA1_Transform (sha_state ctx) ?first)"
    obtain buf where u: "length buf = 64" "sha_state (pj_sha1_update ctx data) = fst (sha1_blocks ?s ?rest)"
        "sha_buffer (pj_sha1_update ctx data) = mem_write buf 0 (snd (sha1_blocks ?s ?rest))"
      using update_large [OF inv _ data] False by force
    have first: "length ?first = 64" using False pend by simp
    have "sha1_pending ctx @ data = ?first @ ?rest" by simp
    then have ab: "absorb sha1_compress (sha1_chain ctx) (sha1_pending ctx @ data) =
        (sha1_regs_of (fst (sha1_blocks ?s ?rest)), snd (sha1_blocks ?s ?rest))"
      using absorb_block [OF first] transform_correct(1) [OF first] sha1_blocks_absorb(1)
      unfolding sha1_chain_def by metis
    then have "length (snd (sha1_blocks ?s ?rest)) = length (sha1_pending ctx @ data) mod 64"
      using absorb_pending by (metis snd_conv)
    then have len: "length (snd (sha1_blocks ?s ?rest)) = (n + length data) mod 64"
      using pend by (simp add: mod_add_left_eq)
    then have "length (snd (sha1_blocks ?s ?rest)) < 64" by simp
    then show ?thesis
      using ab u counts len sha1_blocks_absorb(2) [OF transform_correct(2) [OF first]]
      by (simp add: sha1_inv_def sha1_chain_def sha1_pending_def count_bytes_bits mem_write_def)
  qed
  then show "sha1_inv (pj_sha1_update ctx data) (n + length data)"
    "(sha1_chain (pj_sha1_update ctx data), sha1_pending (pj_sha1_update ctx data)) =
      absorb sha1_compress (sha1_chain ctx) (sha1_pending ctx @ data)" by simp_all
qed

section \<open>The whole function\<close>

lemma missing_Suc:
  assumes "q < 64" "q \<noteq> 56"
  shows "(120 - q) mod 64 = Suc ((120 - (q + 1) mod 64) mod (64 :: nat))"
proof (cases "q = 63")
  case False
  then have "(q + 1) mod 64 = q + 1" using assms(1) by simp
  moreover have "(120 - q) mod 64 = (if q < 57 then 56 - q else 120 - q)" "(119 - q) mod 64 = (if q < 56 then 55 - q else 119 - q)"
    using assms(1) by (auto simp: mod_if)
  ultimately show ?thesis using assms by auto
qed simp

lemma pad_loop_replicate:
  "sha1_pad_loop ctx = foldl pj_sha1_update ctx (replicate ((120 - count_bytes (sha_count0 ctx)) mod 64) [0])"
proof (induction ctx rule: sha1_pad_loop.induct)
  case (1 ctx)
  let ?q = "count_bytes (sha_count0 ctx)"
  show ?case
  proof (cases "?q = 56")
    case True
    then show ?thesis by (subst sha1_pad_loop.simps) (simp add: count_bytes_and)
  next
    case False
    have c: "count_bytes (sha_count0 (pj_sha1_update ctx [0])) = (?q + 1) mod 64"
      using count_bytes_add [of _ 1] by (simp add: update_count0)
    have "(120 - ?q) mod 64 = Suc ((120 - (?q + 1) mod 64) mod 64)"
      by (rule missing_Suc) (use False in simp_all)
    moreover have "sha1_pad_loop ctx = sha1_pad_loop (pj_sha1_update ctx [0])"
      using False by (subst sha1_pad_loop.simps) (simp add: count_bytes_and)
    ultimately show ?thesis using 1 False c by (simp add: count_bytes_and)
  qed
qed

lemma finalcount_bytes: "finalcount ctx = be_bytes (sha_count1 ctx) @ be_bytes (sha_count0 ctx)"
  "map (\<lambda>i. ucast (drop_bit ((3 - i mod 4) * 8) (s ! (i div 4)) AND 255)) [0..<PJ_SHA1_DIGEST_SIZE] = sha1_output (sha1_regs_of s)"
proof -
  have b: "ucast (w AND 255) = (ucast w :: u8)" for w :: u32
  proof -
    have "ucast (w AND mask 8) = (ucast w :: u8)" by (rule bit_word_eqI) (auto simp: bit_simps)
    moreover have "mask 8 = (255 :: u32)" by (simp add: mask_eq_exp_minus_1)
    ultimately show ?thesis by (simp only:)
  qed
  show "finalcount ctx = be_bytes (sha_count1 ctx) @ be_bytes (sha_count0 ctx)"
    by (simp add: finalcount_def be_bytes_def le_bytes_def b upt_rec)
  show "map (\<lambda>i. ucast (drop_bit ((3 - i mod 4) * 8) (s ! (i div 4)) AND 255)) [0..<PJ_SHA1_DIGEST_SIZE] = sha1_output (sha1_regs_of s)"
    by (simp add: PJ_SHA1_DIGEST_SIZE_def sha1_output_def sha1_regs_of_def be_bytes_def le_bytes_def b upt_rec)
qed

lemma zeros_count: "(120 - (n + 1) mod 64) mod 64 = zeros_to_56 n"
proof -
  define q where "q = n mod 64"
  have "(n + 1) mod 64 = (q + 1) mod 64" by (simp add: q_def mod_Suc_eq)
  moreover have "q < 64" by (simp add: q_def)
  ultimately show ?thesis unfolding zeros_to_56_def q_def [symmetric] by (cases "q = 63") simp_all
qed

lemma concat_singletons: "concat (replicate k [x]) = replicate k x"
  by (induction k) simp_all

lemma padded_length: "(n + length (sha1_padding n)) mod 64 = 0"
proof -
  have "(n + length (sha1_padding n)) mod 64 = (n mod 64 + 9 + (119 - n mod 64) mod 64) mod 64"
    using mod_add_left_eq [of n 64 "9 + zeros_to_56 n"] by (simp add: sha1_padding_def zeros_to_56_def ac_simps)
  moreover have "(q + 9 + (119 - q) mod 64) mod 64 = 0" if "q < 64" for q :: nat
    using that by (cases "q \<le> 55") (auto simp: mod_if)
  ultimately show ?thesis by simp
qed

interpretation sha1_hash: block_hash pj_sha1_update sha1_inv sha1_chain sha1_pending sha1_compress
  "\<lambda>ctx. \<exists>ctx'. length (sha_buffer ctx') = 64 \<and> ctx = pj_sha1_init ctx'"
  "\<lambda>ctx. fst (pj_sha1_final ctx)" sha1_h0 sha1_padding sha1_output
proof
  fix ctx assume "\<exists>ctx'. length (sha_buffer ctx') = 64 \<and> ctx = pj_sha1_init ctx'"
  then show "sha1_inv ctx 0 \<and> sha1_chain ctx = sha1_h0 \<and> sha1_pending ctx = []"
    by (auto simp: pj_sha1_init_def sha1_inv_def sha1_chain_def sha1_pending_def sha1_regs_of_def sha1_h0_def count_bytes_def)
next
  fix ctx n assume inv: "sha1_inv ctx n"
  define chunks where "chunks = [0x80] # replicate (zeros_to_56 n) [0] @ [finalcount ctx]"
  let ?c1 = "pj_sha1_update ctx [0x80]"
  have cnt: "finalcount ctx = be_bytes (bits_hi n) @ be_bytes (bits_lo n)"
    using inv by (simp add: finalcount_bytes(1) sha1_inv_def)
  have "count_bytes (sha_count0 ?c1) = (n + 1) mod 64"
    using update_counts(1) [OF inv, of "[0x80]"] by (simp add: count_bytes_bits)
  then have "sha1_pad_loop ?c1 = foldl pj_sha1_update ?c1 (replicate (zeros_to_56 n) [0])"
    by (simp only: pad_loop_replicate zeros_count)
  then have fin: "fst (pj_sha1_final ctx) = sha1_output (sha1_chain (foldl pj_sha1_update ctx chunks))"
    by (simp add: pj_sha1_final_def Let_def finalcount_bytes(2) sha1_chain_def chunks_def)
  have cat: "concat chunks = sha1_padding n"
    by (simp add: chunks_def sha1_padding_def cnt concat_singletons)
  have small: "\<forall>d \<in> set chunks. length d < 2 ^ 31" using cnt by (auto simp: chunks_def)
  have "chunks \<noteq> []" by (simp add: chunks_def)
  from sha1_stream.run_chain [OF small inv this] cat
  have "sha1_chain (foldl pj_sha1_update ctx chunks) = fst (absorb sha1_compress (sha1_chain ctx) (sha1_pending ctx @ sha1_padding n))"
    by (metis fst_conv)
  then show "fst (pj_sha1_final ctx) = sha1_output (fst (absorb sha1_compress (sha1_chain ctx) (sha1_pending ctx @ sha1_padding n)))"
    using fin by simp
qed

text \<open>
  C19: SHA-1 computed from a stream, in portions shorter than \<open>2 ^ 31\<close> bytes, is the hash of the standard of
  the whole, whose round functions and constants are defined here on their own (\<open>sha1_step\<close>, \<open>sha1_k\<close>): the in-place transformation, the buffering and the padding loop implement it.
\<close>

theorem sha1_stream_correct:
  assumes "length (sha_buffer ctx) = 64" "\<forall>d \<in> set chunks. length d < 2 ^ 31"
  shows "fst (pj_sha1_final (foldl pj_sha1_update (pj_sha1_init ctx) chunks)) = sha1 (concat chunks)"
proof -
  have "\<exists>c. length (sha_buffer c) = 64 \<and> pj_sha1_init ctx = pj_sha1_init c" using assms(1) by blast
  from sha1_hash.stream [OF this assms(2)] show ?thesis by (simp add: sha1_def)
qed

theorem sha1_stream_correct_witness:
  "\<exists>ctx. fst (pj_sha1_final (foldl pj_sha1_update (pj_sha1_init ctx) [[0x61], [0x62, 0x63]])) = sha1 [0x61, 0x62, 0x63]"
proof -
  let ?ctx = "\<lparr>sha_state = [], sha_count0 = 0, sha_count1 = 0, sha_buffer = replicate 64 0\<rparr>"
  have "fst (pj_sha1_final (foldl pj_sha1_update (pj_sha1_init ?ctx) [[0x61], [0x62, 0x63]])) = sha1 (concat [[0x61], [0x62, 0x63]])"
    by (rule sha1_stream_correct) simp_all
  then show ?thesis by (intro exI) simp
qed

section \<open>HMAC-SHA1\<close>

record hmac_sha1_context =
  hm_context :: sha1_context
  hm_k_opad :: bytes

text \<open>\<open>tctx\<close> is the context on the stack, which holds anything before.\<close>

definition pj_hmac_sha1_init :: "sha1_context \<Rightarrow> hmac_sha1_context \<Rightarrow> bytes \<Rightarrow> hmac_sha1_context" where
  "pj_hmac_sha1_init tctx hctx key =
     (let key = (if length key > 64 then fst (pj_sha1_final (pj_sha1_update (pj_sha1_init tctx) key)) else key);
          k_ipad = mem_write (replicate 64 0) 0 key;
          k_opad = mem_write (replicate 64 0) 0 key;
          k_ipad = map (\<lambda>b. b XOR 0x36) k_ipad;
          k_opad = map (\<lambda>b. b XOR 0x5c) k_opad
      in \<lparr>hm_context = pj_sha1_update (pj_sha1_init (hm_context hctx)) k_ipad, hm_k_opad = k_opad\<rparr>)"

definition pj_hmac_sha1_update :: "hmac_sha1_context \<Rightarrow> bytes \<Rightarrow> hmac_sha1_context" where
  "pj_hmac_sha1_update hctx input = hctx\<lparr>hm_context := pj_sha1_update (hm_context hctx) input\<rparr>"

definition pj_hmac_sha1_final :: "hmac_sha1_context \<Rightarrow> bytes" where
  "pj_hmac_sha1_final hctx =
     (case pj_sha1_final (hm_context hctx) of (dig, ctx) \<Rightarrow>
       let ctx = pj_sha1_init ctx;
           ctx = pj_sha1_update ctx (hm_k_opad hctx);
           ctx = pj_sha1_update ctx dig
       in fst (pj_sha1_final ctx))"

definition pj_hmac_sha1 :: "sha1_context \<Rightarrow> hmac_sha1_context \<Rightarrow> bytes \<Rightarrow> bytes \<Rightarrow> bytes" where
  "pj_hmac_sha1 tctx ctx input key =
     pj_hmac_sha1_final (pj_hmac_sha1_update (pj_hmac_sha1_init tctx ctx key) input)"

text \<open>The standard (RFC 2104), for any hash function with blocks of 64 bytes.\<close>

definition hmac_key :: "(bytes \<Rightarrow> bytes) \<Rightarrow> bytes \<Rightarrow> bytes" where
  "hmac_key H key = (let k = (if length key > 64 then H key else key) in k @ replicate (64 - length k) 0)"

definition hmac :: "(bytes \<Rightarrow> bytes) \<Rightarrow> bytes \<Rightarrow> bytes \<Rightarrow> bytes" where
  "hmac H key txt = H (map (\<lambda>b. b XOR 0x5c) (hmac_key H key) @ H (map (\<lambda>b. b XOR 0x36) (hmac_key H key) @ txt))"

lemma length_sha1 [simp]: "length (sha1 m) = 20"
  by (simp add: sha1_def digest_def sha1_output_def split: prod.split)

lemma length_hmac [simp]: "length (hmac sha1 key txt) = 20"
  by (simp add: hmac_def)

lemma sha1_two:
  assumes "length (sha_buffer ctx) = 64" "length as < 2 ^ 31" "length bs < 2 ^ 31"
  shows "fst (pj_sha1_final (pj_sha1_update (pj_sha1_update (pj_sha1_init ctx) as) bs)) = sha1 (as @ bs)"
  using sha1_hash.stream [of "pj_sha1_init ctx" "[as, bs]"] assms by (auto simp: sha1_def)

lemma sha1_one:
  assumes "length (sha_buffer ctx) = 64" "length as < 2 ^ 31"
  shows "fst (pj_sha1_final (pj_sha1_update (pj_sha1_init ctx) as)) = sha1 as"
  using sha1_hash.stream [of "pj_sha1_init ctx" "[as]"] assms by (auto simp: sha1_def)

lemma hmac_portions:
  assumes "length (sha_buffer tctx) = 64" "length (sha_buffer (hm_context hctx)) = 64"
    and "length key < 2 ^ 31" "\<forall>d \<in> set chunks. length d < 2 ^ 31"
  shows "pj_hmac_sha1_final (foldl pj_hmac_sha1_update (pj_hmac_sha1_init tctx hctx key) chunks) =
    hmac sha1 key (concat chunks)"
proof -
  define k where "k = hmac_key sha1 key"
  have len: "length k = 64" by (auto simp: k_def hmac_key_def Let_def)
  have k: "mem_write (replicate 64 0) 0 (if length key > 64 then fst (pj_sha1_final (pj_sha1_update (pj_sha1_init tctx) key)) else key) = k"
    using sha1_one [OF assms(1,3)] by (simp add: k_def hmac_key_def mem_write_def Let_def)
  let ?ipad = "map (\<lambda>b. b XOR 0x36) k" and ?opad = "map (\<lambda>b. b XOR 0x5c) k"
  have init: "pj_hmac_sha1_init tctx hctx key =
      \<lparr>hm_context = pj_sha1_update (pj_sha1_init (hm_context hctx)) ?ipad, hm_k_opad = ?opad\<rparr>"
    unfolding pj_hmac_sha1_init_def Let_def k ..
  have fold: "foldl pj_hmac_sha1_update h chunks = h\<lparr>hm_context := foldl pj_sha1_update (hm_context h) chunks\<rparr>" for h
    by (induction chunks arbitrary: h) (simp_all add: pj_hmac_sha1_update_def)
  have s: "\<exists>c. length (sha_buffer c) = 64 \<and> pj_sha1_init (hm_context hctx) = pj_sha1_init c" using assms(2) by blast
  have inner: "fst (pj_sha1_final (foldl pj_sha1_update (pj_sha1_update (pj_sha1_init (hm_context hctx)) ?ipad) chunks)) =
      sha1 (?ipad @ concat chunks)"
    using sha1_hash.stream [OF s, of "?ipad # chunks"] assms(4) len by (simp add: sha1_def)
  have wiped: "length (sha_buffer (snd (pj_sha1_final c))) = 64" for c
    by (simp add: pj_sha1_final_def Let_def)
  show ?thesis
    unfolding init fold pj_hmac_sha1_final_def
    using sha1_two [OF wiped, of ?opad] inner len
    by (simp add: split_beta Let_def hmac_def k_def [symmetric])
qed

text \<open>
  C18: HMAC-SHA1 of a text that comes in portions is the one of RFC 2104 for the text and the key, and so is that
  of the one-call function; every portion, the text given at once and the key are shorter than \<open>2 ^ 31\<close> bytes.
\<close>

theorem hmac_sha1_correct:
  assumes "length (sha_buffer tctx) = 64" "length (sha_buffer (hm_context hctx)) = 64"
    and "length key < 2 ^ 31" "\<forall>d \<in> set chunks. length d < 2 ^ 31" "length input < 2 ^ 31"
  shows "pj_hmac_sha1_final (foldl pj_hmac_sha1_update (pj_hmac_sha1_init tctx hctx key) chunks) =
      hmac sha1 key (concat chunks) \<and>
    pj_hmac_sha1 tctx hctx input key = hmac sha1 key input"
proof
  show "pj_hmac_sha1_final (foldl pj_hmac_sha1_update (pj_hmac_sha1_init tctx hctx key) chunks) =
      hmac sha1 key (concat chunks)"
    by (rule hmac_portions [OF assms(1-4)])
  show "pj_hmac_sha1 tctx hctx input key = hmac sha1 key input"
    using hmac_portions [OF assms(1-3), of "[input]"] assms(5) by (simp add: pj_hmac_sha1_def)
qed

theorem hmac_sha1_correct_witness:
  "\<exists>tctx hctx. pj_hmac_sha1_final (foldl pj_hmac_sha1_update (pj_hmac_sha1_init tctx hctx (replicate 65 7)) [[1, 2], [3]]) =
      hmac sha1 (replicate 65 7) [1, 2, 3] \<and>
    pj_hmac_sha1 tctx hctx [4] (replicate 65 7) = hmac sha1 (replicate 65 7) [4]"
proof -
  let ?t = "\<lparr>sha_state = [], sha_count0 = 0, sha_count1 = 0, sha_buffer = replicate 64 1\<rparr>"
  let ?h = "\<lparr>hm_context = ?t, hm_k_opad = []\<rparr>"
  have "pj_hmac_sha1_final (foldl pj_hmac_sha1_update (pj_hmac_sha1_init ?t ?h (replicate 65 7)) [[1, 2], [3]]) =
      hmac sha1 (replicate 65 7) (concat [[1, 2], [3]]) \<and>
    pj_hmac_sha1 ?t ?h [4] (replicate 65 7) = hmac sha1 (replicate 65 7) [4]"
    by (rule hmac_sha1_correct) simp_all
  then show ?thesis by (intro exI) (auto simp only: foldl.simps concat.simps append.simps)
qed

end
