(* ===== verification/Md5.thy ===== *)
theory Md5
  imports Hash_stream
begin

text \<open>
  MD5 (\<open>pjlib-util/src/pjlib-util/md5.c\<close>) on a little-endian machine, where \<open>byteReverse\<close> does nothing; \<open>size_t\<close> and
  pointers have 32 bits.
\<close>

unbundle bit_operations_syntax

section \<open>The code\<close>

datatype md5_fun = F1 | F2 | F3 | F4

fun md5_core :: "md5_fun \<Rightarrow> u32 \<Rightarrow> u32 \<Rightarrow> u32 \<Rightarrow> u32" where
  "md5_core F1 x y z = z XOR (x AND (y XOR z))"
| "md5_core F2 x y z = y XOR (z AND (x XOR y))"
| "md5_core F3 x y z = x XOR y XOR z"
| "md5_core F4 x y z = y XOR (x OR NOT z)"

type_synonym md5_regs = "u32 \<times> u32 \<times> u32 \<times> u32"

text \<open>The central step; the values are passed in the order in which the next step names them.\<close>

definition MD5STEP :: "u32 list \<Rightarrow> md5_fun \<times> nat \<times> u32 \<times> nat \<Rightarrow> md5_regs \<Rightarrow> md5_regs" where
  "MD5STEP inw p r = (case p of (f, k, const, s) \<Rightarrow> case r of (w, x, y, z) \<Rightarrow>
     let w = w + (md5_core f x y z + (inw ! k + const));
         w = push_bit s w OR drop_bit (32 - s) w;
         w = w + x
     in (z, w, x, y))"

definition md5_steps :: "(md5_fun \<times> nat \<times> u32 \<times> nat) list" where
  "md5_steps = [
    (F1, 0, 0xd76aa478, 7), (F1, 1, 0xe8c7b756, 12), (F1, 2, 0x242070db, 17), (F1, 3, 0xc1bdceee, 22),
    (F1, 4, 0xf57c0faf, 7), (F1, 5, 0x4787c62a, 12), (F1, 6, 0xa8304613, 17), (F1, 7, 0xfd469501, 22),
    (F1, 8, 0x698098d8, 7), (F1, 9, 0x8b44f7af, 12), (F1, 10, 0xffff5bb1, 17), (F1, 11, 0x895cd7be, 22),
    (F1, 12, 0x6b901122, 7), (F1, 13, 0xfd987193, 12), (F1, 14, 0xa679438e, 17), (F1, 15, 0x49b40821, 22),
    (F2, 1, 0xf61e2562, 5), (F2, 6, 0xc040b340, 9), (F2, 11, 0x265e5a51, 14), (F2, 0, 0xe9b6c7aa, 20),
    (F2, 5, 0xd62f105d, 5), (F2, 10, 0x02441453, 9), (F2, 15, 0xd8a1e681, 14), (F2, 4, 0xe7d3fbc8, 20),
    (F2, 9, 0x21e1cde6, 5), (F2, 14, 0xc33707d6, 9), (F2, 3, 0xf4d50d87, 14), (F2, 8, 0x455a14ed, 20),
    (F2, 13, 0xa9e3e905, 5), (F2, 2, 0xfcefa3f8, 9), (F2, 7, 0x676f02d9, 14), (F2, 12, 0x8d2a4c8a, 20),
    (F3, 5, 0xfffa3942, 4), (F3, 8, 0x8771f681, 11), (F3, 11, 0x6d9d6122, 16), (F3, 14, 0xfde5380c, 23),
    (F3, 1, 0xa4beea44, 4), (F3, 4, 0x4bdecfa9, 11), (F3, 7, 0xf6bb4b60, 16), (F3, 10, 0xbebfbc70, 23),
    (F3, 13, 0x289b7ec6, 4), (F3, 0, 0xeaa127fa, 11), (F3, 3, 0xd4ef3085, 16), (F3, 6, 0x04881d05, 23),
    (F3, 9, 0xd9d4d039, 4), (F3, 12, 0xe6db99e5, 11), (F3, 15, 0x1fa27cf8, 16), (F3, 2, 0xc4ac5665, 23),
    (F4, 0, 0xf4292244, 6), (F4, 7, 0x432aff97, 10), (F4, 14, 0xab9423a7, 15), (F4, 5, 0xfc93a039, 21),
    (F4, 12, 0x655b59c3, 6), (F4, 3, 0x8f0ccc92, 10), (F4, 10, 0xffeff47d, 15), (F4, 1, 0x85845dd1, 21),
    (F4, 8, 0x6fa87e4f, 6), (F4, 15, 0xfe2ce6e0, 10), (F4, 6, 0xa3014314, 15), (F4, 13, 0x4e0811a1, 21),
    (F4, 4, 0xf7537e82, 6), (F4, 11, 0xbd3af235, 10), (F4, 2, 0x2ad7d2bb, 15), (F4, 9, 0xeb86d391, 21)]"

definition MD5Transform :: "u32 list \<Rightarrow> u32 list \<Rightarrow> u32 list" where
  "MD5Transform buf inw =
     (case fold (MD5STEP inw) md5_steps (buf ! 0, buf ! 1, buf ! 2, buf ! 3) of
        (a, b, c, d) \<Rightarrow> [buf ! 0 + a, buf ! 1 + b, buf ! 2 + c, buf ! 3 + d])"

record md5_context =
  md_buf :: "u32 list"
  md_bits0 :: u32
  md_bits1 :: u32
  md_in :: bytes

definition pj_md5_init :: "md5_context \<Rightarrow> md5_context" where
  "pj_md5_init ctx = ctx\<lparr>md_buf := [0x67452301, 0xefcdab89, 0x98badcfe, 0x10325476], md_bits0 := 0, md_bits1 := 0\<rparr>"

text \<open>The loop over whole blocks, and the rest that is kept.\<close>

function md5_blocks :: "md5_context \<Rightarrow> bytes \<Rightarrow> md5_context" where
  "md5_blocks ctx buf =
     (if length buf \<ge> 64 then
        md5_blocks (ctx\<lparr>md_in := take 64 buf, md_buf := MD5Transform (md_buf ctx) (le_words (take 64 buf))\<rparr>) (drop 64 buf)
      else ctx\<lparr>md_in := mem_write (md_in ctx) 0 buf\<rparr>)"
  by auto
termination by (relation "measure (\<lambda>(ctx, buf). length buf)") auto

declare md5_blocks.simps [simp del]

definition pj_md5_update :: "md5_context \<Rightarrow> bytes \<Rightarrow> md5_context" where
  "pj_md5_update ctx buf =
     (let len = word_of_nat (length buf);
          t = md_bits0 ctx;
          bits0 = t + push_bit 3 len;
          bits1 = (if bits0 < t then md_bits1 ctx + 1 else md_bits1 ctx);
          ctx = ctx\<lparr>md_bits0 := bits0, md_bits1 := bits1 + drop_bit 29 len\<rparr>;
          t = unat (drop_bit 3 t AND 0x3f)
      in if t \<noteq> 0 then
           (if length buf < 64 - t then ctx\<lparr>md_in := mem_write (md_in ctx) t buf\<rparr>
            else
              let inb = mem_write (md_in ctx) t (take (64 - t) buf)
              in md5_blocks (ctx\<lparr>md_in := inb, md_buf := MD5Transform (md_buf ctx) (le_words inb)\<rparr>) (drop (64 - t) buf))
         else md5_blocks ctx buf)"

text \<open>
  The digest, and the context afterwards: \<open>pj_bzero (ctx, sizeof (ctx))\<close> clears as many bytes as a pointer has.
\<close>

definition pj_md5_final :: "md5_context \<Rightarrow> bytes \<times> md5_context" where
  "pj_md5_final ctx =
     (let cnt = unat (drop_bit 3 (md_bits0 ctx) AND 0x3F);
          inb = mem_write (md_in ctx) cnt [0x80];
          p = cnt + 1;
          cnt = 64 - 1 - cnt;
          (buf, inb) = (if cnt < 8 then
              let inb = mem_set inb p cnt 0
              in (MD5Transform (md_buf ctx) (le_words inb), mem_set inb 0 56 0)
            else (md_buf ctx, mem_set inb p (cnt - 8) 0));
          inb = mem_write inb 56 (le_bytes (md_bits0 ctx));
          inb = mem_write inb 60 (le_bytes (md_bits1 ctx));
          buf = MD5Transform buf (le_words inb)
      in (concat (map le_bytes buf), ctx\<lparr>md_buf := buf[0 := 0], md_in := inb\<rparr>))"

section \<open>The standard\<close>

text \<open>RFC 1321: functions, order of the words, shifts and the table \<open>T\<close>.\<close>

definition md5_func :: "nat \<Rightarrow> u32 \<Rightarrow> u32 \<Rightarrow> u32 \<Rightarrow> u32" where
  "md5_func t x y z =
     (if t < 16 then (x AND y) OR (NOT x AND z)
      else if t < 32 then (x AND z) OR (y AND NOT z)
      else if t < 48 then x XOR y XOR z
      else y XOR (x OR NOT z))"

definition md5_index :: "nat \<Rightarrow> nat" where
  "md5_index t = (if t < 16 then t else if t < 32 then (5 * t + 1) mod 16 else if t < 48 then (3 * t + 5) mod 16 else 7 * t mod 16)"

definition md5_shift :: "nat \<Rightarrow> nat" where
  "md5_shift t = [[7, 12, 17, 22], [5, 9, 14, 20], [4, 11, 16, 23], [6, 10, 15, 21]] ! (t div 16) ! (t mod 4)"

definition md5_T :: "u32 list" where
  "md5_T = [
    0xd76aa478, 0xe8c7b756, 0x242070db, 0xc1bdceee, 0xf57c0faf, 0x4787c62a, 0xa8304613, 0xfd469501,
    0x698098d8, 0x8b44f7af, 0xffff5bb1, 0x895cd7be, 0x6b901122, 0xfd987193, 0xa679438e, 0x49b40821,
    0xf61e2562, 0xc040b340, 0x265e5a51, 0xe9b6c7aa, 0xd62f105d, 0x02441453, 0xd8a1e681, 0xe7d3fbc8,
    0x21e1cde6, 0xc33707d6, 0xf4d50d87, 0x455a14ed, 0xa9e3e905, 0xfcefa3f8, 0x676f02d9, 0x8d2a4c8a,
    0xfffa3942, 0x8771f681, 0x6d9d6122, 0xfde5380c, 0xa4beea44, 0x4bdecfa9, 0xf6bb4b60, 0xbebfbc70,
    0x289b7ec6, 0xeaa127fa, 0xd4ef3085, 0x04881d05, 0xd9d4d039, 0xe6db99e5, 0x1fa27cf8, 0xc4ac5665,
    0xf4292244, 0x432aff97, 0xab9423a7, 0xfc93a039, 0x655b59c3, 0x8f0ccc92, 0xffeff47d, 0x85845dd1,
    0x6fa87e4f, 0xfe2ce6e0, 0xa3014314, 0x4e0811a1, 0xf7537e82, 0xbd3af235, 0x2ad7d2bb, 0xeb86d391]"

definition md5_step :: "(nat \<Rightarrow> u32) \<Rightarrow> nat \<Rightarrow> md5_regs \<Rightarrow> md5_regs" where
  "md5_step X t r = (case r of (a, b, c, d) \<Rightarrow>
     (d, b + word_rotl (md5_shift t) (a + md5_func t b c d + X (md5_index t) + md5_T ! t), b, c))"

definition md5_compress :: "md5_regs \<Rightarrow> bytes \<Rightarrow> md5_regs" where
  "md5_compress h block = (case h of (h0, h1, h2, h3) \<Rightarrow>
     case fold (md5_step (\<lambda>i. le_word (mem_read block (4 * i) 4))) [0..<64] h of (a, b, c, d) \<Rightarrow>
       (h0 + a, h1 + b, h2 + c, h3 + d))"

definition md5_h0 :: md5_regs where "md5_h0 = (0x67452301, 0xefcdab89, 0x98badcfe, 0x10325476)"

definition md5_padding :: "nat \<Rightarrow> bytes" where
  "md5_padding n = 0x80 # replicate (zeros_to_56 n) 0 @ le_bytes (bits_lo n) @ le_bytes (bits_hi n)"

definition md5_output :: "md5_regs \<Rightarrow> bytes" where
  "md5_output h = (case h of (h0, h1, h2, h3) \<Rightarrow> concat (map le_bytes [h0, h1, h2, h3]))"

definition md5 :: "bytes \<Rightarrow> bytes" where
  "md5 = digest md5_compress md5_h0 md5_padding md5_output"

section \<open>The transformation\<close>

definition code_fun :: "nat \<Rightarrow> md5_fun" where
  "code_fun t = (if t < 16 then F1 else if t < 32 then F2 else if t < 48 then F3 else F4)"

lemma md5_steps_table:
  "md5_steps = map (\<lambda>t. (code_fun t, md5_index t, md5_T ! t, md5_shift t)) [0..<64]"
  by code_simp

lemma md5_core_func: "md5_core (code_fun t) x y z = md5_func t x y z"
  by (rule bit_word_eqI) (auto simp: code_fun_def md5_func_def bit_simps)

lemma md5_shift_bounds: "t < 64 \<Longrightarrow> 0 < md5_shift t \<and> md5_shift t < 32"
proof -
  have "\<forall>t \<in> set [0..<64]. 0 < md5_shift t \<and> md5_shift t < 32" by code_simp
  then show "t < 64 \<Longrightarrow> 0 < md5_shift t \<and> md5_shift t < 32" by simp
qed

lemma md5_index_less: "md5_index t < 16" if "t < 64"
  using that by (simp add: md5_index_def)

lemma md5_step_code:
  assumes "length block = 64" "t < 64"
  shows "MD5STEP (le_words block) (code_fun t, md5_index t, md5_T ! t, md5_shift t) r =
    md5_step (\<lambda>i. le_word (mem_read block (4 * i) 4)) t r"
  using assms md5_shift_bounds [OF assms(2)] md5_index_less [OF assms(2)]
  by (cases r) (simp add: MD5STEP_def md5_step_def md5_core_func shifts_rotate le_words_def ac_simps)

lemma md5_transform_correct:
  assumes "length block = 64"
  shows "MD5Transform [h0, h1, h2, h3] (le_words block) = (case md5_compress (h0, h1, h2, h3) block of (a, b, c, d) \<Rightarrow> [a, b, c, d])"
proof -
  have "fold (MD5STEP (le_words block)) md5_steps r = fold (md5_step (\<lambda>i. le_word (mem_read block (4 * i) 4))) [0..<64] r" for r
    unfolding md5_steps_table fold_map
    by (rule fold_cong) (use md5_step_code [OF assms] in \<open>auto simp: fun_eq_iff simp del: upt_rec_numeral\<close>)
  then show ?thesis
    by (simp add: MD5Transform_def md5_compress_def split: prod.split del: upt_rec_numeral)
qed

section \<open>The stream\<close>

definition md5_regs_of :: "u32 list \<Rightarrow> md5_regs" where "md5_regs_of b = (b ! 0, b ! 1, b ! 2, b ! 3)"

definition md5_inv :: "md5_context \<Rightarrow> nat \<Rightarrow> bool" where
  "md5_inv ctx n = (length (md_buf ctx) = 4 \<and> length (md_in ctx) = 64 \<and> md_bits0 ctx = bits_lo n \<and> md_bits1 ctx = bits_hi n)"

definition md5_chain :: "md5_context \<Rightarrow> md5_regs" where "md5_chain ctx = md5_regs_of (md_buf ctx)"

definition md5_pending :: "md5_context \<Rightarrow> bytes" where
  "md5_pending ctx = take (unat (drop_bit 3 (md_bits0 ctx) AND 63)) (md_in ctx)"

lemma md5_transform_regs:
  assumes "length block = 64" "length buf = 4"
  shows "md5_regs_of (MD5Transform buf (le_words block)) = md5_compress (md5_regs_of buf) block"
    "length (MD5Transform buf (le_words block)) = 4"
proof -
  obtain a b c d where "buf = [a, b, c, d]" using assms(2) by (auto simp: numeral_eq_Suc length_Suc_conv)
  then show "md5_regs_of (MD5Transform buf (le_words block)) = md5_compress (md5_regs_of buf) block"
    "length (MD5Transform buf (le_words block)) = 4"
    using md5_transform_correct [OF assms(1), of a b c d] by (simp_all add: md5_regs_of_def split: prod.splits)
qed

lemma md5_blocks_rest [simp]:
  "md_bits0 (md5_blocks ctx data) = md_bits0 ctx" "md_bits1 (md5_blocks ctx data) = md_bits1 ctx"
  by (induction ctx data rule: md5_blocks.induct) (subst md5_blocks.simps; simp)+

lemma md5_blocks_absorb:
  assumes "length (md_in ctx) = 64" "length (md_buf ctx) = 4"
  shows "length (md_in (md5_blocks ctx data)) = 64 \<and> length (md_buf (md5_blocks ctx data)) = 4 \<and>
    absorb md5_compress (md5_chain ctx) data =
      (md5_chain (md5_blocks ctx data), take (length data mod 64) (md_in (md5_blocks ctx data)))"
  using assms
proof (induction ctx data rule: md5_blocks.induct)
  case (1 ctx data)
  show ?case
  proof (cases "length data < 64")
    case True
    then have "md5_blocks ctx data = ctx\<lparr>md_in := mem_write (md_in ctx) 0 data\<rparr>" by (subst md5_blocks.simps) simp
    then show ?thesis using True "1.prems" by (simp add: absorb_short md5_chain_def mem_write_def)
  next
    case False
    let ?c = "ctx\<lparr>md_in := take 64 data, md_buf := MD5Transform (md_buf ctx) (le_words (take 64 data))\<rparr>"
    have t: "length (take 64 data) = 64" using False by simp
    have "md5_blocks ctx data = md5_blocks ?c (drop 64 data)" using False by (subst md5_blocks.simps) simp
    moreover have "absorb md5_compress (md5_chain ctx) data = absorb md5_compress (md5_chain ?c) (drop 64 data)"
      using absorb_block [OF t, of md5_compress "md5_chain ctx" "drop 64 data"] md5_transform_regs(1) [OF t "1.prems"(2)]
      by (simp add: md5_chain_def)
    moreover have "length data mod 64 = length (drop 64 data) mod 64" using False by (simp add: le_mod_geq)
    ultimately show ?thesis using "1.IH" False t md5_transform_regs(2) [OF t "1.prems"(2)] by simp
  qed
qed

interpretation md5_stream: block_stream pj_md5_update md5_inv md5_chain md5_pending md5_compress
proof
  fix ctx n and data :: bytes
  assume inv: "md5_inv ctx n" and data: "length data < 2 ^ 31"
  let ?bits0 = "md_bits0 ctx + push_bit 3 (word_of_nat (length data))"
  let ?ctx = "ctx\<lparr>md_bits0 := bits_lo (n + length data), md_bits1 := bits_hi (n + length data)\<rparr>"
  have t: "unat (drop_bit 3 (md_bits0 ctx) AND 0x3f) = n mod 64" using inv by (simp add: md5_inv_def bits_lo_pending)
  have upd: "pj_md5_update ctx data =
     (if n mod 64 \<noteq> 0 then
        if length data < 64 - n mod 64 then ?ctx\<lparr>md_in := mem_write (md_in ctx) (n mod 64) data\<rparr>
        else md5_blocks (?ctx\<lparr>md_in := mem_write (md_in ctx) (n mod 64) (take (64 - n mod 64) data),
          md_buf := MD5Transform (md_buf ctx) (le_words (mem_write (md_in ctx) (n mod 64) (take (64 - n mod 64) data)))\<rparr>)
          (drop (64 - n mod 64) data)
      else md5_blocks ?ctx data)"
    using inv bits_carry(1) [of "length data" n] data unfolding pj_md5_update_def t
    by (simp add: Let_def md5_inv_def bits_lo_word bits_lo_add bits_lo_pending)
  have pend: "md5_pending ctx = take (n mod 64) (md_in ctx)" "length (md5_pending ctx) = n mod 64"
    using t inv by (simp_all add: md5_pending_def md5_inv_def)
  have pend': "md5_pending c = take ((n + length data) mod 64) (md_in c)" if "md_bits0 c = bits_lo (n + length data)" for c
    using that by (simp add: md5_pending_def bits_lo_pending)
  have "md5_inv (pj_md5_update ctx data) (n + length data) \<and>
      (md5_chain (pj_md5_update ctx data), md5_pending (pj_md5_update ctx data)) =
        absorb md5_compress (md5_chain ctx) (md5_pending ctx @ data)"
  proof (cases "n mod 64 = 0")
    case True
    then have "(n + length data) mod 64 = length data mod 64" by (metis add_0 mod_add_left_eq)
    then show ?thesis
      using True inv upd pend md5_blocks_absorb [of ?ctx data] pend' [of "md5_blocks ?ctx data"]
      by (simp add: md5_inv_def md5_chain_def)
  next
    case False
    show ?thesis
    proof (cases "length data < 64 - n mod 64")
      case True
      then have "(n + length data) mod 64 = n mod 64 + length data" by (metis less_diff_conv mod_add_left_eq mod_less add.commute)
      then show ?thesis
        using False True inv upd pend pend' [of "?ctx\<lparr>md_in := mem_write (md_in ctx) (n mod 64) data\<rparr>"]
        by (simp add: md5_inv_def md5_chain_def absorb_short mem_write_def)
    next
      case large: False
      define b where "b = mem_write (md_in ctx) (n mod 64) (take (64 - n mod 64) data)"
      let ?c = "?ctx\<lparr>md_in := b, md_buf := MD5Transform (md_buf ctx) (le_words b)\<rparr>"
      let ?rest = "drop (64 - n mod 64) data"
      have b: "b = md5_pending ctx @ take (64 - n mod 64) data" "length b = 64"
        using large inv pend by (simp_all add: b_def mem_write_def md5_inv_def)
      have split: "md5_pending ctx @ data = b @ ?rest" by (simp add: b(1))
      have buf: "length (md_buf ctx) = 4" using inv by (simp add: md5_inv_def)
      have ab: "absorb md5_compress (md5_chain ctx) (md5_pending ctx @ data) = absorb md5_compress (md5_chain ?c) ?rest"
        unfolding split absorb_block [OF b(2)] using md5_transform_regs(1) [OF b(2) buf] by (simp add: md5_chain_def)
      have "(n + length data) mod 64 = (n mod 64 + length data) mod 64" by (simp add: mod_add_left_eq)
      also have "n mod 64 + length data = length ?rest + 64" using large by simp
      finally have m: "(n + length data) mod 64 = length ?rest mod 64" by simp
      have "pj_md5_update ctx data = md5_blocks ?c ?rest" using upd False large by (simp add: b_def)
      then show ?thesis
        using ab md5_blocks_absorb [of ?c ?rest] md5_transform_regs(2) [OF b(2) buf] b(2) pend' [of "md5_blocks ?c ?rest"] m
        by (simp add: md5_inv_def md5_chain_def)
    qed
  qed
  then show "md5_inv (pj_md5_update ctx data) (n + length data)"
    "(md5_chain (pj_md5_update ctx data), md5_pending (pj_md5_update ctx data)) =
      absorb md5_compress (md5_chain ctx) (md5_pending ctx @ data)" by simp_all
qed

section \<open>The whole function\<close>

lemma md5_blocks_end:
  assumes "length block = 64" "length buf = 4"
  shows "md5_output (md5_regs_of (MD5Transform buf (le_words block))) = concat (map le_bytes (MD5Transform buf (le_words block)))"
  using md5_transform_regs(2) [OF assms]
  by (auto simp: md5_output_def md5_regs_of_def numeral_eq_Suc length_Suc_conv)

interpretation md5_hash: block_hash pj_md5_update md5_inv md5_chain md5_pending md5_compress
  "\<lambda>ctx. \<exists>ctx'. length (md_in ctx') = 64 \<and> ctx = pj_md5_init ctx'"
  "\<lambda>ctx. fst (pj_md5_final ctx)" md5_h0 md5_padding md5_output
proof
  fix ctx assume "\<exists>ctx'. length (md_in ctx') = 64 \<and> ctx = pj_md5_init ctx'"
  then show "md5_inv ctx 0 \<and> md5_chain ctx = md5_h0 \<and> md5_pending ctx = []"
    by (auto simp: pj_md5_init_def md5_inv_def md5_chain_def md5_pending_def md5_regs_of_def md5_h0_def)
next
  fix ctx n assume inv: "md5_inv ctx n"
  define q where "q = n mod 64"
  have q: "q < 64" "unat (drop_bit 3 (md_bits0 ctx) AND 63) = q"
    using inv by (simp_all add: q_def md5_inv_def bits_lo_pending)
  define pend where "pend = take q (md_in ctx)"
  have pend: "length pend = q" "md5_pending ctx = pend" using q inv by (simp_all add: pend_def md5_inv_def md5_pending_def)
  have inl: "length (md_in ctx) = 64" and buf: "length (md_buf ctx) = 4" using inv by (simp_all add: md5_inv_def)
  define len where "len = le_bytes (bits_lo n) @ le_bytes (bits_hi n)"
  have len: "length len = 8" by (simp add: len_def)
  have bits: "md_bits0 ctx = bits_lo n" "md_bits1 ctx = bits_hi n" using inv by (simp_all add: md5_inv_def)
  have writes: "mem_write (mem_write b 56 (le_bytes (bits_lo n))) 60 (le_bytes (bits_hi n)) = take 56 b @ len"
    if "length b = 64" for b using that by (simp add: mem_write_def len_def)
  show "fst (pj_md5_final ctx) = md5_output (fst (absorb md5_compress (md5_chain ctx) (md5_pending ctx @ md5_padding n)))"
  proof (cases "q \<le> 55")
    case True
    have z: "zeros_to_56 n = 55 - q" using True unfolding zeros_to_56_def q_def [symmetric] by (simp add: mod_if)
    let ?b = "pend @ 0x80 # replicate (55 - q) 0 @ len"
    have b: "length ?b = 64" using True pend(1) len by simp
    have "take 56 (mem_set (mem_write (md_in ctx) q [0x80]) (Suc q) (55 - q) 0) = pend @ 0x80 # replicate (55 - q) 0"
      using True inl by (simp add: mem_set_def mem_write_def pend_def min_def take_Cons')
    moreover have "\<not> 63 - q < 8" using True by linarith
    ultimately have "fst (pj_md5_final ctx) = concat (map le_bytes (MD5Transform (md_buf ctx) (le_words ?b)))"
      using True q inl writes [of "mem_set (mem_write (md_in ctx) q [0x80]) (Suc q) (55 - q) 0"]
      unfolding pj_md5_final_def q(2) by (simp add: Let_def bits)
    also have "\<dots> = md5_output (md5_compress (md5_chain ctx) ?b)"
      using md5_blocks_end [OF b buf] md5_transform_regs(1) [OF b buf] by (simp add: md5_chain_def)
    also have "md5_compress (md5_chain ctx) ?b = fst (absorb md5_compress (md5_chain ctx) (md5_pending ctx @ md5_padding n))"
      using absorb_block [OF b, of md5_compress "md5_chain ctx" "[]"] pend(2)
      by (simp add: md5_padding_def z len_def absorb_short)
    finally show ?thesis .
  next
    case False
    then have z: "zeros_to_56 n = (63 - q) + 56" using q(1) unfolding zeros_to_56_def q_def [symmetric] by simp
    let ?b1 = "pend @ 0x80 # replicate (63 - q) 0" and ?b2 = "replicate 56 0 @ len"
    have b: "length ?b1 = 64" "length ?b2 = 64" using q pend(1) len by simp_all
    define buf1 where "buf1 = MD5Transform (md_buf ctx) (le_words ?b1)"
    have buf1: "length buf1 = 4" "md5_regs_of buf1 = md5_compress (md5_chain ctx) ?b1"
      using md5_transform_regs [OF b(1) buf] by (simp_all add: buf1_def md5_chain_def)
    have first: "mem_set (mem_write (md_in ctx) q [0x80]) (Suc q) (63 - q) 0 = ?b1"
      using q inl by (simp add: mem_set_def mem_write_def pend_def min_def)
    have "take 56 (mem_set ?b1 0 56 0) = replicate 56 0" by (simp add: mem_set_def mem_write_def)
    moreover have "63 - q < 8" using False by linarith
    ultimately have "fst (pj_md5_final ctx) = concat (map le_bytes (MD5Transform buf1 (le_words ?b2)))"
      using False q(1) writes [of "mem_set ?b1 0 56 0"] b(1) unfolding pj_md5_final_def q(2)
      by (simp add: Let_def bits first buf1_def)
    also have "\<dots> = md5_output (md5_compress (md5_compress (md5_chain ctx) ?b1) ?b2)"
      using md5_blocks_end [OF b(2) buf1(1)] md5_transform_regs(1) [OF b(2) buf1(1)] buf1(2) by simp
    also have "md5_compress (md5_compress (md5_chain ctx) ?b1) ?b2 =
        fst (absorb md5_compress (md5_chain ctx) (?b1 @ ?b2))"
      using absorb_block [OF b(2), of md5_compress "md5_compress (md5_chain ctx) ?b1" "[]"]
      unfolding absorb_block [OF b(1)] by (simp add: absorb_short)
    also have "?b1 @ ?b2 = md5_pending ctx @ md5_padding n"
      unfolding md5_padding_def z replicate_add by (simp add: pend(2) len_def)
    finally show ?thesis .
  qed
qed

text \<open>
  C20: MD5 computed from a stream, in portions shorter than \<open>2 ^ 31\<close> bytes, is the digest of RFC 1321 of the
  whole.
\<close>

theorem md5_stream_correct:
  assumes "length (md_in ctx) = 64" "\<forall>d \<in> set chunks. length d < 2 ^ 31"
  shows "fst (pj_md5_final (foldl pj_md5_update (pj_md5_init ctx) chunks)) = md5 (concat chunks)"
proof -
  have "\<exists>c. length (md_in c) = 64 \<and> pj_md5_init ctx = pj_md5_init c" using assms(1) by blast
  from md5_hash.stream [OF this assms(2)] show ?thesis by (simp add: md5_def)
qed

theorem md5_stream_correct_witness:
  "\<exists>ctx. fst (pj_md5_final (foldl pj_md5_update (pj_md5_init ctx) [[0x61], [], [0x62, 0x63]])) = md5 [0x61, 0x62, 0x63]"
proof -
  let ?ctx = "\<lparr>md_buf = [], md_bits0 = 0, md_bits1 = 0, md_in = replicate 64 0\<rparr>"
  have "fst (pj_md5_final (foldl pj_md5_update (pj_md5_init ?ctx) [[0x61], [], [0x62, 0x63]])) = md5 (concat [[0x61], [], [0x62, 0x63]])"
    by (rule md5_stream_correct) simp_all
  then show ?thesis by (intro exI) simp
qed

text \<open>The end does not wipe the context: all but the first word of the state remain, and the last block.\<close>

lemma md5_final_not_wiped:
  assumes "pj_md5_final ctx = (dig, ctx')" "length (md_buf ctx) = 4"
  shows "concat (map le_bytes (tl (md_buf ctx'))) = drop 4 dig"
proof -
  have four: "length (MD5Transform b w) = 4" for b w by (simp add: MD5Transform_def split: prod.split)
  have "\<exists>b. length b = 4 \<and> md_buf ctx' = b[0 := 0] \<and> dig = concat (map le_bytes b)"
    using assms(1) unfolding pj_md5_final_def Let_def
    by (auto split: prod.splits intro!: exI [of _ "MD5Transform _ _"] simp: four)
  then obtain b where "length b = 4" "md_buf ctx' = b[0 := 0]" "dig = concat (map le_bytes b)" by blast
  moreover from this(1) obtain w x y z where "b = [w, x, y, z]" by (auto simp: numeral_eq_Suc length_Suc_conv)
  ultimately show ?thesis by (simp add: le_bytes_def)
qed

end
