(* ===== verification/Spec2Isabelle.thy ===== *)
theory Spec2Isabelle
  imports Prelude Jb_framelist Jbuf Pj_types Timer_Heap Sip_tsx Sip_tsx_inv Sip_tsx_machine
    Sip_tsx_run Sip_tsx_correct Pj_string Hash_Table Tsx_Layer Rtp
    Scanner Scan_text Sdp Sdp_text Sdp_roundtrip
    Sdp_neg Sdp_neg_state Sdp_neg_answer Sdp_neg_offer
    Octets Crc32 Hash_stream Sha1 Md5
begin

text \<open>
  Verification library for the media and signalling core of the SIP client.

  The program.  The client is a phone application on top of the PJSIP stack
  (\<open>src/pjproject-2.0-device\<close>; \<open>src/pjproject-2.0-simulator\<close> is an identical copy for the
  simulator).  Its core logic is in the C libraries \<open>pjlib\<close> (data structures, timers),
  \<open>pjmedia\<close> (jitter buffer, RTP, codecs) and \<open>pjsip\<close> (transactions, dialogs, sessions).  The
  models below are of the configuration the project builds: fixed-point statistics
  (\<open>PJ_HAS_FLOATING_POINT\<close> 0), \<open>PJ_ASSERT_RETURN\<close> returning its error, \<open>pj_assert\<close> without effect.

  Theories.
  \<^item> \<open>Prelude\<close>: words, memory blocks as lists, ring positions.
  \<^item> \<open>Jb_framelist\<close>: the circular frame store of \<open>pjmedia/src/pjmedia/jbuf.c\<close>
    (\<open>jb_framelist_t\<close> and the functions \<open>jb_framelist_*\<close>).  Its abstract specification is a
    window: an origin and the list of the slots from the head on (\<open>jb_abs\<close>), with one abstract
    operation per function (\<open>view_put_at\<close>, \<open>view_get\<close>, \<open>view_remove\<close>, \<open>view_discard\<close>).
  \<^item> \<open>Jbuf\<close>: the jitter buffer itself (\<open>pjmedia_jbuf\<close>), all functions \<open>pjmedia_jbuf_*\<close> and
    \<open>jbuf_*\<close>, and the invariant of every run of its operations, changes of the discard algorithm
    included (\<open>jbuf_run_safe\<close>).
  \<^item> \<open>Rtp\<close>: RTP sessions (\<open>pjmedia/src/pjmedia/rtp.c\<close>): headers as bytes, encoding, decoding, and
    the tracking of sequence numbers, whose abstract specification is the highest packet number
    heard (\<open>tracks\<close>, \<open>track_status\<close>); a stream is a sender's packets given to a receiver.
  \<^item> \<open>Pj_types\<close>: time values (\<open>pj_time_val\<close>), their macros and normalisation, and their order.
  \<^item> \<open>Timer_Heap\<close>: the timer heap of \<open>pjlib/src/pj/timer.c\<close>.  What it promises its clients is
    the locale \<open>timer_service\<close>, a map from entries to expiry times; the heap is an
    interpretation of it.
  \<^item> \<open>Sip_tsx\<close>: the SIP transaction of \<open>pjsip/src/pjsip/sip_transaction.c\<close>: the record, every
    state handler, the callbacks and the operations of its users.  \<open>Sip_tsx_inv\<close> holds its
    invariant, \<open>Sip_tsx_machine\<close> the abstract protocol machine (\<open>tsx_edge\<close>) and the proof that
    every handler follows it, \<open>Sip_tsx_run\<close> steps and runs, \<open>Sip_tsx_correct\<close> what the
    transaction does on the protocol's messages, timers and errors.
  \<^item> \<open>Pj_string\<close>: trimming and number conversion of \<open>pjlib/src/pj/string.c\<close>.
  \<^item> \<open>Hash_Table\<close>: the hash table of \<open>pjlib/src/pj/hash.c\<close>, chains of entries and iterators.  What
    it promises its clients is the locale \<open>key_table\<close>, a map from keys to values with its number
    of keys; the table is an interpretation of it.
  \<^item> \<open>Tsx_Layer\<close>: the transaction layer of \<open>sip_transaction.c\<close>: the transaction keys, the
    registration of transactions in the hash table, the dispatch of received messages, and the
    initialisation and shutdown of the module.

  \<^item> \<open>Scanner\<close>: the text scanner of \<open>pjlib-util/src/pjlib-util/scanner.c\<close> on a buffer in memory, and
    its character classes.  What a class promises is the locale \<open>char_class\<close>; both implementations
    (\<open>scanner_cis_bitwise.c\<close>, which packs 32 classes into one array, and \<open>scanner_cis_uint.c\<close>) are
    interpretations.  Also the escaping of \<open>pjlib-util/src/pjlib-util/string.c\<close>.  \<open>Scan_text\<close> holds what
    the operations do on a text that is all in the buffer, for the parsers.
  \<^item> \<open>Sdp\<close>: session descriptions (\<open>pjmedia/src/pjmedia/sdp.c\<close>): data, attributes, cloning,
    validation.  \<open>Sdp_text\<close> holds printing and parsing, with the bounds of printing and the
    termination of parsing; \<open>Sdp_roundtrip\<close> the proof that parsing undoes printing.
  \<^item> \<open>Sdp_neg\<close>: the offer/answer negotiator of \<open>pjmedia/src/pjmedia/sdp_neg.c\<close> (record \<open>sdp_neg\<close>, the
    operations \<open>neg_*\<close> for \<open>pjmedia_sdp_neg_*\<close>, \<open>create_answer\<close>, \<open>process_answer\<close>).  \<open>Sdp_neg_state\<close> holds its
    states and their invariant, directions and the changing of an offer; \<open>Sdp_neg_answer\<close> what processing
    an answer does; \<open>Sdp_neg_offer\<close> what answer is made to an offer (specification \<open>chosen_fmts\<close>), and an
    exchange of two negotiators.
  \<^item> \<open>Octets\<close>: bytes, and words in both byte orders.  \<open>Crc32\<close>: the checksum of
    \<open>pjlib-util/src/pjlib-util/crc32.c\<close>, by table and bit by bit, proved equal, and the damage it detects.
  \<^item> \<open>Hash_stream\<close>: what a hash function that absorbs blocks promises (locales \<open>block_stream\<close> and
    \<open>block_hash\<close>); \<open>Sha1\<close> (\<open>sha1.c\<close>, \<open>hmac_sha1.c\<close>) and \<open>Md5\<close> (\<open>md5.c\<close>) are its interpretations, each proved
    against the definition of its standard (\<open>sha1\<close>, \<open>hmac\<close>, \<open>md5\<close>), which has its own constants.

  How the parts meet.  A transaction keeps two timer entries; it uses the timer heap only through
  schedule and cancel, as \<open>timer_service\<close> describes them: scheduling a pending entry is refused
  and changes nothing, cancelling removes it, a fired entry is no longer pending.  Time values
  are those of \<open>Pj_types\<close>.  The transaction layer uses the hash table as \<open>key_table\<close> describes it,
  keyed by the transaction keys, and the number conversion in the keys; it passes each message to
  the transaction registered under its key, and a transaction that is destroyed removes its entry
  (the action \<open>A_Unregister\<close>).  Its runs (\<open>layer_run\<close>) are the steps of many transactions on one
  table.  The parser of session descriptions reads with the scanner, with two classes of the
  bitwise implementation, and converts numbers with \<open>Pj_string\<close>; a scanner error ends the line
  parser, whose error becomes the result.  The negotiator works on these sessions and reads their \<open>rtpmap\<close>
  attributes; custom format matching is done by registered callbacks, which are arguments, and the
  theorems on formats and answers are stated for media lines of the offer that name no codec with a
  registered callback (\<open>unregistered\<close>).

  Conditions.  Where a theorem needs more than the C types give, it says so by name: \<open>rx_clean\<close> (fields of
  a message that do not contain the separator of the transaction keys), \<open>discards_ok\<close> (the static discard
  algorithm of the jitter buffer is replaced only in a buffer reset since it was chosen), \<open>scan_op_ok\<close> (no
  class of a scanner contains the character 0), \<open>local_ok\<close> (own media lines with numeric formats).  What goes
  wrong without them is stated beside the theorem or evaluated in a lemma (\<open>tsx_key_collision\<close>,
  \<open>agreed_codec_lost\<close>, \<open>unescape_overruns\<close>).

  Bounds and recursion.  C \<open>unsigned\<close> values that can wrap are words or natural numbers with the
  wrap written out; the remaining loops are structural, have a measure, or are
  \<open>partial_function (option)\<close> whose return is proved (\<open>put_frame3_makes_room\<close>,
  \<open>timer_poll_terminates\<close>, \<open>hash_create_terminates\<close>, \<open>layer_stop_destroys\<close>).  Sending a message and
  its callback call each other; two levels are the whole recursion (\<open>tsx_send_msg_unique\<close>).

  Calls out of the modelled code (the transport layer, stateless sending, the creation of an ACK,
  user callbacks, the clock) are parameters: fields of \<open>tsx_env\<close>, arguments, or callbacks.

  Not modelled.  Locks, logging and memory pools (an allocation succeeds); \<open>pjsip_tsx_set_transport\<close>,
  which only stores a selector for the transport layer; operating system calls; codecs, sound devices, the SIP parser, dialogs and the layers
  above; third-party code; the user interface.
\<close>

end
